(* ===== verification/Prelude.thy ===== *)
theory Prelude
  imports Main "HOL-Library.Word"
begin

text \<open>
  Shared material of the development: names for the machine integer types of
  \<^verbatim>\<open>src/src/utils/types.hpp\<close>, the bit level facts on natural numbers that the
  component proofs use, and the interface of a positional number system
  (\<open>digits\<close>), which the limb arrays of \<open>APInt\<close> implement twice: with 64 bit words and
  with the 32 bit limbs of the long division.
\<close>

unbundle bit_operations_syntax

type_synonym u8 = "8 word"
type_synonym u16 = "16 word"
type_synonym u32 = "32 word"
type_synonym u64 = "64 word"
type_synonym u128 = "128 word"

named_theorems limb_simps "lengths and values of limb arrays"

section \<open>Bits of natural numbers\<close>

lemma bit_add_mult_pow:
  fixes a b :: nat
  assumes "a < 2 ^ k"
  shows "bit (a + 2 ^ k * b) i = (if i < k then bit a i else bit b (i - k))"
proof (cases "i < k")
  case True
  then have "2 ^ k = (2::nat) ^ i * (2 * 2 ^ (k - i - 1))"
    by (metis Suc_diff_Suc diff_Suc_eq_diff_pred less_imp_Suc_add power_Suc power_add
        add_diff_cancel_left' add_Suc_right diff_diff_left plus_1_eq_Suc)
  then have "(a + 2 ^ k * b) div 2 ^ i = a div 2 ^ i + 2 * (2 ^ (k - i - 1) * b)"
    by (simp add: mult.assoc)
  then show ?thesis using True by (simp add: bit_iff_odd)
next
  case False
  then have "2 ^ i = (2::nat) ^ k * 2 ^ (i - k)"
    by (simp flip: power_add)
  moreover have "(a + 2 ^ k * b) div 2 ^ k = b"
    using assms by simp
  ultimately have "(a + 2 ^ k * b) div 2 ^ i = b div 2 ^ (i - k)"
    by (simp add: div_mult2_eq)
  then show ?thesis using False by (simp add: bit_iff_odd)
qed


lemma or_push_bit_nat: "b < 2 ^ k \<Longrightarrow> push_bit k a OR b = b + 2 ^ k * (a :: nat)"
proof (rule bit_eqI)
  fix i
  assume b: "b < 2 ^ k"
  then have "bit b i \<Longrightarrow> i < k" by (metis bit_take_bit_iff take_bit_nat_eq_self_iff)
  then show "bit (push_bit k a OR b) i = bit (b + 2 ^ k * a) i"
    by (auto simp: bit_add_mult_pow[OF b] bit_or_iff bit_push_bit_iff)
qed

lemma nat_eqI_bits:
  fixes a b :: nat
  assumes "a < 2 ^ n" "b < 2 ^ n" "\<And>i. i < n \<Longrightarrow> bit a i = bit b i"
  shows "a = b"
proof (rule bit_eqI)
  fix i
  show "bit a i = bit b i"
  proof (cases "i < n")
    case False
    with assms(1,2) have "take_bit n a = a" "take_bit n b = b"
      by (simp_all add: take_bit_nat_eq_self_iff)
    with False show ?thesis by (metis bit_take_bit_iff)
  qed (use assms(3) in simp)
qed

lemma nat_bit_less: "bit (a::nat) i \<Longrightarrow> a < 2 ^ n \<Longrightarrow> i < n"
  by (metis bit_take_bit_iff take_bit_nat_eq_self_iff)

lemma nat_less_pow_iff_bits: "(a::nat) < 2 ^ n \<longleftrightarrow> (\<forall>i. bit a i \<longrightarrow> i < n)"
proof
  assume "\<forall>i. bit a i \<longrightarrow> i < n"
  then have "take_bit n a = a" by (intro bit_eqI) (auto simp: bit_take_bit_iff)
  then show "a < 2 ^ n" by (simp add: take_bit_nat_eq_self_iff)
qed (auto intro: nat_bit_less)

section \<open>The bit counting functions of the C++ header bit\<close>

text \<open>
  \<^verbatim>\<open>std::countl_zero\<close>, \<^verbatim>\<open>std::countr_zero\<close>, \<^verbatim>\<open>std::popcount\<close>, \<^verbatim>\<open>std::bit_width\<close> and
  \<^verbatim>\<open>std::has_single_bit\<close> on an unsigned type of any width.
\<close>

definition std_countl_zero :: "'a::len word \<Rightarrow> nat" where
  "std_countl_zero x = length (takeWhile (\<lambda>i. \<not> bit x i) (rev [0..<LENGTH('a)]))"

definition std_countr_zero :: "'a::len word \<Rightarrow> nat" where
  "std_countr_zero x = length (takeWhile (\<lambda>i. \<not> bit x i) [0..<LENGTH('a)])"

definition std_popcount :: "'a::len word \<Rightarrow> nat" where
  "std_popcount x = length (filter (bit x) [0..<LENGTH('a)])"

definition std_bit_width :: "'a::len word \<Rightarrow> nat" where
  "std_bit_width x = LENGTH('a) - std_countl_zero x"

definition std_has_single_bit :: "'a::len word \<Rightarrow> bool" where
  "std_has_single_bit x \<longleftrightarrow> std_popcount x = 1"

lemma takeWhile_nth_neg:
  "k < length (takeWhile P xs) \<Longrightarrow> P (xs ! k)"
  by (metis nth_mem set_takeWhileD takeWhile_nth)

lemma std_countl_zero_le: "std_countl_zero (x :: 'a::len word) \<le> LENGTH('a)"
  unfolding std_countl_zero_def using length_takeWhile_le[of _ "rev [0..<LENGTH('a)]"] by simp

lemma std_countl_zero_bound: "unat (x :: 'a::len word) < 2 ^ (LENGTH('a) - std_countl_zero x)"
proof (unfold nat_less_pow_iff_bits, intro allI impI)
  fix i
  assume "bit (unat x) i"
  then have x: "bit x i" by (simp add: bit_unsigned_iff)
  then have i: "i < LENGTH('a)" by (rule bit_imp_le_length)
  show "i < LENGTH('a) - std_countl_zero x"
  proof (rule ccontr)
    assume "\<not> i < LENGTH('a) - std_countl_zero x"
    then have k: "LENGTH('a) - 1 - i < std_countl_zero x" using i by linarith
    from takeWhile_nth_neg[OF this[unfolded std_countl_zero_def]] i x show False
      by (simp add: rev_nth)
  qed
qed

lemma std_countl_zero_less: "x \<noteq> 0 \<Longrightarrow> std_countl_zero (x :: 'a::len word) < LENGTH('a)"
  using std_countl_zero_bound[of x] by (cases "std_countl_zero x < LENGTH('a)")
    (simp_all add: unat_eq_zero)

lemma std_countl_zero_bit:
  "x \<noteq> 0 \<Longrightarrow> bit (x :: 'a::len word) (LENGTH('a) - 1 - std_countl_zero x)"
proof -
  assume "x \<noteq> 0"
  then have lt: "std_countl_zero x < length (rev [0..<LENGTH('a)])"
    by (simp add: std_countl_zero_less)
  then have "\<not> \<not> bit x (rev [0..<LENGTH('a)] ! std_countl_zero x)"
    unfolding std_countl_zero_def by (rule nth_length_takeWhile)
  with lt show ?thesis by (simp add: rev_nth)
qed

lemma std_countr_zero_le: "std_countr_zero (x :: 'a::len word) \<le> LENGTH('a)"
  unfolding std_countr_zero_def using length_takeWhile_le[of _ "[0..<LENGTH('a)]"] by simp

lemma std_countr_zero_below: "i < std_countr_zero (x :: 'a::len word) \<Longrightarrow> \<not> bit x i"
  using takeWhile_nth_neg[of i "\<lambda>i. \<not> bit x i" "[0..<LENGTH('a)]"] std_countr_zero_le[of x]
  by (simp add: std_countr_zero_def)

lemma std_countr_zero_less: "x \<noteq> 0 \<Longrightarrow> std_countr_zero (x :: 'a::len word) < LENGTH('a)"
proof (rule ccontr)
  assume nz: "x \<noteq> 0" and "\<not> std_countr_zero x < LENGTH('a)"
  then have "bit x i = bit 0 i" if "i < LENGTH('a)" for i
    using std_countr_zero_below[of i x] that by simp
  then have "x = 0" by (rule bit_word_eqI)
  with nz show False by simp
qed

lemma std_countr_zero_bit: "x \<noteq> 0 \<Longrightarrow> bit (x :: 'a::len word) (std_countr_zero x)"
proof -
  assume "x \<noteq> 0"
  then have lt: "std_countr_zero x < length [0..<LENGTH('a)]"
    by (simp add: std_countr_zero_less)
  then have "\<not> \<not> bit x ([0..<LENGTH('a)] ! std_countr_zero x)"
    unfolding std_countr_zero_def by (rule nth_length_takeWhile)
  with lt show ?thesis by simp
qed

lemma std_popcount_card: "std_popcount (x :: 'a::len word) = card {i. bit x i}"
proof -
  have "std_popcount x = card (set (filter (bit x) [0..<LENGTH('a)]))"
    unfolding std_popcount_def by (rule distinct_card[symmetric]) simp
  also have "set (filter (bit x) [0..<LENGTH('a)]) = {i. bit x i}"
    using bit_imp_le_length by auto
  finally show ?thesis .
qed

section \<open>Positional numbers\<close>

text \<open>
  The value of a little endian digit list. \<open>dv\<close> reads one digit as a number below the
  base \<open>B\<close>; \<open>APInt\<close>'s word array has base \<open>2 ^ 64\<close> and \<open>unat\<close> as \<open>dv\<close>.
\<close>

primrec digits_val :: "nat \<Rightarrow> ('d \<Rightarrow> nat) \<Rightarrow> 'd list \<Rightarrow> nat" where
  "digits_val B dv [] = 0"
| "digits_val B dv (d # ds) = dv d + B * digits_val B dv ds"

locale digits =
  fixes B :: nat and dv :: "'d \<Rightarrow> nat"
  assumes base_gt1: "1 < B"
    and digit_bound: "dv d < B"
    and digit_inject: "dv d = dv e \<Longrightarrow> d = e"
begin

lemma base_pos: "0 < B"
  using base_gt1 by simp

lemma pow_mono: "m \<le> n \<Longrightarrow> B ^ m \<le> B ^ n"
  using base_gt1 by (intro power_increasing) simp_all

lemma val_bound: "digits_val B dv ds < B ^ length ds"
proof (induction ds)
  case (Cons d ds)
  have "dv d + B * digits_val B dv ds < B + B * digits_val B dv ds"
    using digit_bound by simp
  also have "\<dots> = B * Suc (digits_val B dv ds)" by simp
  also have "\<dots> \<le> B * B ^ length ds"
    using Cons.IH by (intro mult_le_mono2) simp
  finally show ?case by simp
qed simp

lemma val_append:
  "digits_val B dv (xs @ ys) = digits_val B dv xs + B ^ length xs * digits_val B dv ys"
  by (induction xs) (simp_all add: algebra_simps)

lemma val_inject:
  "length xs = length ys \<Longrightarrow> digits_val B dv xs = digits_val B dv ys \<Longrightarrow> xs = ys"
proof (induction xs ys rule: list_induct2)
  case (Cons x xs y ys)
  from Cons.prems have eq: "dv x + B * digits_val B dv xs = dv y + B * digits_val B dv ys"
    by simp
  then have "(dv x + B * digits_val B dv xs) mod B = (dv y + B * digits_val B dv ys) mod B"
    by simp
  then have xy: "dv x = dv y" using digit_bound by simp
  with eq base_pos have "digits_val B dv xs = digits_val B dv ys" by simp
  with xy Cons.IH show ?case by (simp add: digit_inject)
qed simp

lemma val_take: "digits_val B dv (take n ds) = digits_val B dv ds mod B ^ n"
proof -
  have "digits_val B dv ds = digits_val B dv (take n ds)
      + B ^ length (take n ds) * digits_val B dv (drop n ds)"
    by (metis append_take_drop_id val_append)
  moreover have "digits_val B dv (take n ds) < B ^ length (take n ds)"
    by (rule val_bound)
  ultimately show ?thesis
    by (cases "n \<le> length ds") (simp_all add: less_le_trans[OF _ pow_mono])
qed

lemma val_drop: "digits_val B dv (drop n ds) = digits_val B dv ds div B ^ n"
proof (cases "n \<le> length ds")
  case True
  have "digits_val B dv ds = digits_val B dv (take n ds)
      + B ^ length (take n ds) * digits_val B dv (drop n ds)"
    by (metis append_take_drop_id val_append)
  also have "\<dots> = digits_val B dv (take n ds) + digits_val B dv (drop n ds) * B ^ n"
    using True by simp
  finally have "digits_val B dv ds div B ^ n
      = digits_val B dv (drop n ds) + digits_val B dv (take n ds) div B ^ n"
    using base_pos by simp
  moreover have "digits_val B dv (take n ds) < B ^ n"
    using val_bound[of "take n ds"] True by simp
  ultimately show ?thesis by simp
next
  case False
  then have "digits_val B dv ds < B ^ n"
    by (intro less_le_trans[OF val_bound pow_mono]) simp
  with False show ?thesis by simp
qed

lemma val_nth: "i < length ds \<Longrightarrow> dv (ds ! i) = digits_val B dv ds div B ^ i mod B"
proof -
  assume i: "i < length ds"
  have "digits_val B dv ds div B ^ i = digits_val B dv (drop i ds)"
    by (simp add: val_drop)
  also have "\<dots> = dv (ds ! i) + B * digits_val B dv (drop (Suc i) ds)"
    by (simp add: Cons_nth_drop_Suc[OF i, symmetric])
  finally show ?thesis using digit_bound by simp
qed

lemma val_zero_iff: "digits_val B dv ds = 0 \<longleftrightarrow> (\<forall>d\<in>set ds. dv d = 0)"
  using base_pos by (induction ds) auto

lemma val_replicate_zero: "dv z = 0 \<Longrightarrow> digits_val B dv (replicate n z) = 0"
  by (simp add: val_zero_iff)

lemma val_less_high:
  assumes "length xs = length ys" "dv x < dv y"
  shows "digits_val B dv (xs @ x # zs) < digits_val B dv (ys @ y # zs)"
proof -
  have "digits_val B dv xs + B ^ length xs * dv x < B ^ length xs * Suc (dv x)"
    using val_bound[of xs] by simp
  also have "\<dots> \<le> B ^ length xs * dv y"
    using assms(2) by (intro mult_le_mono2) simp
  also have "\<dots> \<le> digits_val B dv ys + B ^ length xs * dv y" by simp
  finally show ?thesis
    using assms(1) by (simp add: val_append algebra_simps)
qed

end

definition base64 :: nat where "base64 = 2 ^ 64"
definition base32 :: nat where "base32 = 2 ^ 32"

abbreviation wval :: "u64 list \<Rightarrow> nat" where "wval \<equiv> digits_val base64 unat"
abbreviation lval :: "u32 list \<Rightarrow> nat" where "lval \<equiv> digits_val base32 unat"

interpretation w64: digits base64 "unat :: u64 \<Rightarrow> nat"
proof unfold_locales
  show "1 < base64" by (simp add: base64_def)
  show "unat d < base64" for d :: u64
    using unsigned_less[of d] by (simp add: base64_def)
qed (rule unsigned_word_eqI)

interpretation l32: digits base32 "unat :: u32 \<Rightarrow> nat"
proof unfold_locales
  show "1 < base32" by (simp add: base32_def)
  show "unat d < base32" for d :: u32
    using unsigned_less[of d] by (simp add: base32_def)
qed (rule unsigned_word_eqI)

lemma base64_pow: "base64 ^ n = 2 ^ (64 * n)"
  by (simp add: base64_def power_mult)

lemma base32_pow: "base32 ^ n = 2 ^ (32 * n)"
  by (simp add: base32_def power_mult)

lemma wval_bound: "wval ws < 2 ^ (64 * length ws)"
  using w64.val_bound[of ws] by (simp add: base64_pow)

text \<open>The bits of a word array, the form in which all bitwise loops are verified.\<close>

lemma bit_wval:
  "bit (wval ws) i \<longleftrightarrow> i div 64 < length ws \<and> bit (ws ! (i div 64)) (i mod 64)"
proof (induction ws arbitrary: i)
  case (Cons w ws)
  have "unat w < 2 ^ 64" using unsigned_less[of w] by simp
  then have "bit (wval (w # ws)) i = (if i < 64 then bit (unat w) i else bit (wval ws) (i - 64))"
    using bit_add_mult_pow[of "unat w" 64 "wval ws" i] by (simp add: base64_def)
  also have "\<dots> = (if i < 64 then bit w i else bit (wval ws) (i - 64))"
    by (simp add: bit_unsigned_iff)
  also have "\<dots> = (i div 64 < length (w # ws) \<and> bit ((w # ws) ! (i div 64)) (i mod 64))"
  proof (cases "i < 64")
    case False
    then have "i div 64 = Suc ((i - 64) div 64)" "i mod 64 = (i - 64) mod 64"
      by (simp_all add: le_div_geq le_mod_geq not_less)
    with False Cons.IH show ?thesis by simp
  qed simp
  finally show ?case .
qed simp

end
