(* ===== verification/APIntLimbs.thy ===== *)
theory APIntLimbs
  imports Prelude
begin

text \<open>
  The word loops of \<^verbatim>\<open>src/src/utils/APInt.cpp\<close> (lines 10 to 76) that carry the
  arithmetic above 128 bits: \<open>add_n\<close>, \<open>sub_n\<close>, \<open>mul_n\<close>, \<open>ucmp_n\<close>, \<open>shl_n\<close>, \<open>shr_n\<close>.
  A \<^verbatim>\<open>u64*\<close> with its length \<^verbatim>\<open>n\<close> is a list of 64 bit words, least significant word first;
  the loop variable is the position in the list, the \<^verbatim>\<open>u128\<close> temporaries are kept at their
  width. Each loop is shown to compute the arithmetic function of the values
  \<open>wval\<close> of its arguments, carries and borrows included.
\<close>

section \<open>Double width temporaries\<close>

definition lo64 :: "u128 \<Rightarrow> u64" where "lo64 t = ucast t"
definition hi64 :: "u128 \<Rightarrow> u64" where "hi64 t = ucast (drop_bit 64 t)"
definition wide :: "u64 \<Rightarrow> u128" where "wide w = ucast w"

lemma unat_wide [simp]: "unat (wide w) = unat w"
proof -
  have "unat w < 2 ^ 128" by (rule less_trans[OF unsigned_less]) simp
  then show ?thesis by (simp add: wide_def unsigned_ucast_eq take_bit_nat_eq_self)
qed

lemma uint_wide [simp]: "uint (wide w) = uint w"
  by (metis uint_nat unat_wide)

lemma unat_lo64: "unat (lo64 t) = unat t mod base64"
  by (simp add: lo64_def unsigned_ucast_eq base64_def take_bit_eq_mod)

lemma unat_hi64: "unat (hi64 t) = unat t div base64"
proof -
  have "unat t < 2 ^ 64 * 2 ^ 64" using unsigned_less[of t] by simp
  then have "unat t div 2 ^ 64 < 2 ^ 64"
    by (rule less_mult_imp_div_less)
  moreover have "unat (hi64 t) = take_bit 64 (drop_bit 64 (unat t))"
    by (simp add: hi64_def unsigned_ucast_eq unsigned_drop_bit_eq take_bit_drop_bit)
  ultimately show ?thesis
    by (simp add: base64_def take_bit_eq_mod drop_bit_eq_div)
qed

lemma lo_hi_split: "unat (lo64 t) + base64 * unat (hi64 t) = unat t"
  by (simp add: unat_lo64 unat_hi64)

lemma unat_add_u128: "unat a + unat b < 2 ^ 128 \<Longrightarrow> unat (a + b :: u128) = unat a + unat b"
  by (simp add: unat_word_ariths)

lemma unat_mult_u128: "unat a * unat b < 2 ^ 128 \<Longrightarrow> unat (a * b :: u128) = unat a * unat b"
  by (simp add: unat_word_ariths)

section \<open>Addition and subtraction\<close>

fun add_n_loop :: "u64 \<Rightarrow> u64 list \<Rightarrow> u64 list \<Rightarrow> u64 list \<times> u64" where
  "add_n_loop carry (x # xs) (y # ys) =
     (let t = wide x + wide y + wide carry;
          (r, c) = add_n_loop (hi64 t) xs ys
      in (lo64 t # r, c))"
| "add_n_loop carry _ _ = ([], carry)"

definition add_n :: "u64 list \<Rightarrow> u64 list \<Rightarrow> nat \<Rightarrow> u64 list \<times> u64" where
  "add_n a b n = add_n_loop 0 (take n a) (take n b)"

fun sub_n_loop :: "u64 \<Rightarrow> u64 list \<Rightarrow> u64 list \<Rightarrow> u64 list \<times> u64" where
  "sub_n_loop borrow (x # xs) (y # ys) =
     (let t = wide x - wide y - wide borrow;
          (r, c) = sub_n_loop (hi64 t AND 1) xs ys
      in (lo64 t # r, c))"
| "sub_n_loop borrow _ _ = ([], borrow)"

definition sub_n :: "u64 list \<Rightarrow> u64 list \<Rightarrow> nat \<Rightarrow> u64 list \<times> u64" where
  "sub_n a b n = sub_n_loop 0 (take n a) (take n b)"

lemma add_step:
  assumes "unat c \<le> 1"
  shows "unat (wide x + wide y + wide c) = unat x + unat y + unat c"
    and "unat (hi64 (wide x + wide y + wide c)) \<le> 1"
proof -
  have xy: "unat x < 2 ^ 64" "unat y < 2 ^ 64"
    using unsigned_less[of x] unsigned_less[of y] by simp_all
  then have 1: "unat (wide x + wide y) = unat x + unat y"
    by (subst unat_add_u128) simp_all
  show 2: "unat (wide x + wide y + wide c) = unat x + unat y + unat c"
    using xy assms by (subst unat_add_u128) (simp_all add: 1)
  show "unat (hi64 (wide x + wide y + wide c)) \<le> 1"
    using xy assms by (simp add: unat_hi64 2 base64_def)
qed

lemma add_n_loop_correct:
  assumes "length xs = length ys" "unat c \<le> 1" "add_n_loop c xs ys = (r, c')"
  shows "length r = length xs \<and> unat c' \<le> 1 \<and>
    wval r + base64 ^ length xs * unat c' = wval xs + wval ys + unat c"
  using assms
proof (induction xs ys arbitrary: c r rule: list_induct2)
  case (Cons x xs y ys)
  define t where "t = wide x + wide y + wide c"
  note t = add_step[OF Cons.prems(1), of x y, folded t_def]
  from Cons.prems(2) obtain r' where r: "r = lo64 t # r'"
    and r': "add_n_loop (hi64 t) xs ys = (r', c')"
    by (auto simp: Let_def t_def split: prod.splits)
  note IH = Cons.IH[OF t(2) r']
  have "wval r + base64 ^ length (x # xs) * unat c'
      = unat (lo64 t) + base64 * (wval r' + base64 ^ length xs * unat c')"
    by (simp add: r algebra_simps)
  also have "\<dots> = unat (lo64 t) + base64 * unat (hi64 t) + base64 * (wval xs + wval ys)"
    using IH by (simp add: algebra_simps)
  also have "\<dots> = wval (x # xs) + wval (y # ys) + unat c"
    by (simp add: lo_hi_split t(1) algebra_simps)
  finally show ?case using IH r by simp
qed simp

lemma add_n_correct:
  assumes "length a = n" "length b = n"
  shows "length (fst (add_n a b n)) = n"
    and "wval (fst (add_n a b n)) + base64 ^ n * unat (snd (add_n a b n)) = wval a + wval b"
    and "wval (fst (add_n a b n)) = (wval a + wval b) mod 2 ^ (64 * n)"
proof -
  obtain r c where rc: "add_n_loop 0 a b = (r, c)" by (cases "add_n_loop 0 a b")
  note * = add_n_loop_correct[OF _ _ rc] assms rc
  then show 1: "length (fst (add_n a b n)) = n"
    "wval (fst (add_n a b n)) + base64 ^ n * unat (snd (add_n a b n)) = wval a + wval b"
    by (simp_all add: add_n_def)
  have "wval (fst (add_n a b n)) < base64 ^ n" using w64.val_bound 1(1) by metis
  then show "wval (fst (add_n a b n)) = (wval a + wval b) mod 2 ^ (64 * n)"
    using 1(2) by (simp flip: base64_pow 1(2))
qed

lemma sub_step:
  fixes x y c :: u64
  assumes c: "unat c \<le> 1" and t: "t = wide x - wide y - wide c"
  shows "unat (hi64 t AND 1) \<le> 1"
    and "int (unat (lo64 t)) - int base64 * int (unat (hi64 t AND 1))
      = int (unat x) - int (unat y) - int (unat c)"
proof -
  have xy: "unat x < 2 ^ 64" "unat y < 2 ^ 64"
    using unsigned_less[of x] unsigned_less[of y] by simp_all
  define d where "d = uint x - uint y - uint c"
  have "uint t = ((uint x - uint y) mod 2 ^ LENGTH(128) - uint c) mod 2 ^ LENGTH(128)"
    unfolding t uint_word_ariths uint_wide ..
  also have "\<dots> = (uint x - uint y - uint c) mod 2 ^ LENGTH(128)"
    by (rule mod_diff_left_eq)
  finally have "uint t = d mod 2 ^ 128" by (simp add: d_def)
  then have ut: "int (unat t) = d mod 2 ^ 128" by simp
  have "uint w < 2 ^ 64" for w :: u64
    using unsigned_less[of w, where ?'a = int] by simp
  note b = this[of x] this[of y]
  from c have "int (unat c) \<le> int 1" by (simp only: of_nat_le_iff)
  then have "uint c \<le> 1" by simp
  moreover have "0 \<le> uint x" "0 \<le> uint y" "0 \<le> uint c" by simp_all
  ultimately have "- (2 ^ 64) \<le> d" "d < 2 ^ 64"
    using b unfolding d_def by linarith+
  then have d: "- (2 ^ 64) \<le> d" "d < 2 ^ 64" .
  have a1: "unat (w AND 1) = unat w mod 2" for w :: u64
    unfolding unsigned_and_eq by (simp add: and_one_eq)
  show "unat (hi64 t AND 1) \<le> 1" by (simp add: a1)
  have "int (unat (lo64 t)) - int base64 * int (unat (hi64 t AND 1)) = d"
  proof (cases "0 \<le> d")
    case True
    with d ut have "int (unat t) = d" by simp
    then have "unat t = nat d" by linarith
    with d True have "unat t < base64" by (simp add: base64_def nat_less_iff)
    with \<open>int (unat t) = d\<close> show ?thesis by (simp add: a1 unat_lo64 unat_hi64)
  next
    case False
    have "(d + 2 ^ 128) mod 2 ^ 128 = d + 2 ^ 128"
      using d False by (intro mod_pos_pos_trivial) simp_all
    then have "d mod 2 ^ 128 = d + 2 ^ 128" by simp
    with ut have ut': "int (unat t) = d + 2 ^ 128" by simp
    define l where "l = nat (d + 2 ^ 64)"
    have l: "int l = d + 2 ^ 64" "l < base64" using d False by (simp_all add: l_def base64_def)
    have "int (unat t) = int (l + base64 * (base64 - 1))"
      using l(1) ut' by (simp add: base64_def)
    then have "unat t = l + base64 * (base64 - 1)" by linarith
    with l(2) have "unat (lo64 t) = l" "unat (hi64 t) = base64 - 1"
      by (simp_all add: unat_lo64 unat_hi64)
    then show ?thesis using l(1) by (simp add: a1 base64_def)
  qed
  then show "int (unat (lo64 t)) - int base64 * int (unat (hi64 t AND 1))
      = int (unat x) - int (unat y) - int (unat c)" by (simp add: d_def)
qed

lemma sub_n_loop_correct:
  assumes "length xs = length ys" "unat c \<le> 1" "sub_n_loop c xs ys = (r, c')"
  shows "length r = length xs \<and> unat c' \<le> 1 \<and>
    int (wval r) - int base64 ^ length xs * int (unat c')
      = int (wval xs) - int (wval ys) - int (unat c)"
  using assms
proof (induction xs ys arbitrary: c r rule: list_induct2)
  case (Cons x xs y ys)
  define t where "t = wide x - wide y - wide c"
  note t = sub_step[OF Cons.prems(1) t_def]
  from Cons.prems(2) obtain r' where r: "r = lo64 t # r'"
    and r': "sub_n_loop (hi64 t AND 1) xs ys = (r', c')"
    by (auto simp: Let_def t_def split: prod.splits)
  note IH = Cons.IH[OF t(1) r']
  have "int (wval r) - int base64 ^ length (x # xs) * int (unat c')
      = int (unat (lo64 t)) + int base64 * (int (wval r') - int base64 ^ length xs * int (unat c'))"
    by (simp add: r algebra_simps)
  also have "\<dots> = int (unat (lo64 t)) - int base64 * int (unat (hi64 t AND 1))
      + int base64 * (int (wval xs) - int (wval ys))"
    by (simp add: IH[THEN conjunct2, THEN conjunct2] right_diff_distrib del: of_nat_unat)
  also have "\<dots> = int (wval (x # xs)) - int (wval (y # ys)) - int (unat c)"
    using t(2) by (simp add: algebra_simps)
  finally show ?case using IH r by simp
qed simp

lemma sub_n_correct:
  assumes "length a = n" "length b = n"
  shows "length (fst (sub_n a b n)) = n"
    and "int (wval (fst (sub_n a b n))) = (int (wval a) - int (wval b)) mod 2 ^ (64 * n)"
    and "snd (sub_n a b n) = (if wval a < wval b then 1 else 0)"
proof -
  obtain r c where rc: "sub_n_loop 0 a b = (r, c)" by (cases "sub_n_loop 0 a b")
  note * = sub_n_loop_correct[OF _ _ rc] assms rc
  then show 1: "length (fst (sub_n a b n)) = n" by (simp add: sub_n_def)
  from * have eq: "int (wval r) - int base64 ^ n * int (unat c) = int (wval a) - int (wval b)"
    and c: "unat c \<le> 1" and "length r = n" by simp_all
  then have r: "int (wval r) < int base64 ^ n"
    using w64.val_bound[of r] by (metis of_nat_less_iff of_nat_power)
  have "(int (wval r) - int base64 ^ n * int (unat c)) mod int base64 ^ n
      = int (wval r) mod int base64 ^ n"
    by (simp add: mod_diff_right_eq[symmetric])
  then have "(int (wval a) - int (wval b)) mod int base64 ^ n = int (wval r)"
    using r eq by simp
  then show "int (wval (fst (sub_n a b n))) = (int (wval a) - int (wval b)) mod 2 ^ (64 * n)"
    using * by (simp add: sub_n_def base64_def power_mult)
  have "wval a < wval b \<longleftrightarrow> unat c = 1"
  proof -
    consider "unat c = 0" | "unat c = 1" using c by linarith
    then show ?thesis
    proof cases
      case 1
      with eq show ?thesis by simp
    next
      case 2
      with eq have "int (wval r) - int base64 ^ n = int (wval a) - int (wval b)" by simp
      with r have "int (wval a) < int (wval b)" by linarith
      with 2 show ?thesis by simp
    qed
  qed
  moreover have "c = (if unat c = 1 then 1 else 0)"
    using c by (metis One_nat_def le_Suc_eq le_zero_eq unat_1 unat_eq_zero unsigned_word_eqI)
  ultimately show "snd (sub_n a b n) = (if wval a < wval b then 1 else 0)"
    using * by (simp add: sub_n_def)
qed

section \<open>Multiplication\<close>

text \<open>
  \<^verbatim>\<open>mul_n\<close> clears \<^verbatim>\<open>r\<close> and adds the product of \<^verbatim>\<open>a[i]\<close> and \<^verbatim>\<open>b[0 .. n - i)\<close> into
  \<^verbatim>\<open>r[i .. n)\<close> for each \<^verbatim>\<open>i\<close>. \<open>mul_row\<close> is the inner loop on the suffix \<^verbatim>\<open>r[i .. n)\<close>, it stops
  where that suffix ends (\<^verbatim>\<open>i + j < n\<close>); \<open>mul_rows\<close> is the outer loop, which never touches
  \<^verbatim>\<open>r[i]\<close> again after round \<^verbatim>\<open>i\<close>.
\<close>

fun mul_row :: "u64 \<Rightarrow> u64 \<Rightarrow> u64 list \<Rightarrow> u64 list \<Rightarrow> u64 list" where
  "mul_row ai carry (r # rs) (b # bs) =
     (let t = wide ai * wide b + wide r + wide carry
      in lo64 t # mul_row ai (hi64 t) rs bs)"
| "mul_row ai carry rs bs = rs"

fun mul_rows :: "u64 list \<Rightarrow> u64 list \<Rightarrow> u64 list \<Rightarrow> u64 list" where
  "mul_rows (ai # as) (r # rs) b =
     (case mul_row ai 0 (r # rs) b of
        [] \<Rightarrow> []
      | r0 # rest \<Rightarrow> r0 # mul_rows as rest b)"
| "mul_rows _ rs _ = rs"

definition mul_n :: "u64 list \<Rightarrow> u64 list \<Rightarrow> nat \<Rightarrow> u64 list" where
  "mul_n a b n = mul_rows (take n a) (replicate n 0) (take n b)"

lemma mul_step:
  "unat (wide a * wide b + wide r + wide c) = unat a * unat b + unat r + unat c"
proof -
  have le: "unat w \<le> 2 ^ 64 - 1" for w :: u64
    using unsigned_less[of w, where ?'a = nat] by simp
  have "unat a * unat b \<le> (2 ^ 64 - 1) * (2 ^ 64 - 1)"
    by (rule mult_le_mono[OF le le])
  with le[of r] le[of c]
  have all: "unat a * unat b + unat r + unat c < 2 ^ 128" by simp
  then have 1: "unat (wide a * wide b) = unat a * unat b"
    by (subst unat_mult_u128) simp_all
  with all have 2: "unat (wide a * wide b + wide r) = unat a * unat b + unat r"
    by (subst unat_add_u128) simp_all
  with all show ?thesis by (subst unat_add_u128) simp_all
qed

lemma length_mul_row [simp]: "length (mul_row ai c rs bs) = length rs"
  by (induction ai c rs bs rule: mul_row.induct) (simp_all add: Let_def)

lemma mul_row_correct:
  assumes "length rs \<le> length bs"
  shows "\<exists>k. wval (mul_row ai c rs bs) + base64 ^ length rs * k
    = wval rs + unat ai * wval bs + unat c"
  using assms
proof (induction ai c rs bs rule: mul_row.induct)
  case (1 ai c r rs b bs)
  define t where "t = wide ai * wide b + wide r + wide c"
  obtain k where k: "wval (mul_row ai (hi64 t) rs bs) + base64 ^ length rs * k
      = wval rs + unat ai * wval bs + unat (hi64 t)"
    using "1.IH"[OF t_def] "1.prems" by auto
  have "wval (mul_row ai c (r # rs) (b # bs)) + base64 ^ length (r # rs) * k
      = unat (lo64 t) + base64 * (wval (mul_row ai (hi64 t) rs bs) + base64 ^ length rs * k)"
    by (simp add: Let_def t_def algebra_simps)
  also have "\<dots> = (unat (lo64 t) + base64 * unat (hi64 t)) + base64 * (wval rs + unat ai * wval bs)"
    by (simp only: k) (simp add: algebra_simps)
  also have "\<dots> = wval (r # rs) + unat ai * wval (b # bs) + unat c"
    unfolding lo_hi_split t_def mul_step by (simp add: algebra_simps)
  finally show ?case by blast
qed simp_all

lemma mul_row_Cons: "\<exists>r0 rest. mul_row ai c (r # rs) b = r0 # rest \<and> length rest = length rs"
  using length_mul_row[of ai c "r # rs" b] by (cases "mul_row ai c (r # rs) b") auto

lemma length_mul_rows [simp]: "length (mul_rows as rs b) = length rs"
proof (induction as rs b rule: mul_rows.induct)
  case (1 ai as r rs b)
  with mul_row_Cons[of ai 0 r rs b] show ?case by (auto split: list.split)
qed simp_all

lemma mul_rows_correct:
  assumes "length as = length rs" "length rs \<le> length b"
  shows "\<exists>k. wval (mul_rows as rs b) + base64 ^ length rs * k = wval rs + wval as * wval b"
  using assms
proof (induction as rs b rule: mul_rows.induct)
  case (1 ai as r rs b)
  obtain r0 rest where row: "mul_row ai 0 (r # rs) b = r0 # rest" and len: "length rest = length rs"
    using mul_row_Cons by blast
  have "\<exists>k. wval (mul_rows as rest b) + base64 ^ length rest * k = wval rest + wval as * wval b"
    using "1.IH"[OF row] "1.prems" len by simp
  then obtain k where k: "wval (mul_rows as rest b) + base64 ^ length rs * k
      = wval rest + wval as * wval b" unfolding len by blast
  obtain k' where "wval (r0 # rest) + base64 ^ length (r # rs) * k'
      = wval (r # rs) + unat ai * wval b"
    using mul_row_correct[of "r # rs" b ai 0] "1.prems" row by auto
  then have k': "unat r0 + base64 * wval rest + base64 ^ length (r # rs) * k'
      = wval (r # rs) + unat ai * wval b" by simp
  have "wval (mul_rows (ai # as) (r # rs) b) + base64 ^ length (r # rs) * (k + k')
      = unat r0 + base64 * (wval (mul_rows as rest b) + base64 ^ length rs * k)
        + base64 ^ length (r # rs) * k'"
    by (simp add: row algebra_simps)
  also have "\<dots> = (unat r0 + base64 * wval rest + base64 ^ length (r # rs) * k')
        + base64 * (wval as * wval b)"
    unfolding k by (simp add: algebra_simps)
  also have "\<dots> = wval (r # rs) + wval (ai # as) * wval b"
    unfolding k' by (simp add: algebra_simps)
  finally show ?case by blast
qed simp_all

lemma mul_n_correct:
  assumes "length a = n" "length b = n"
  shows "length (mul_n a b n) = n"
    and "wval (mul_n a b n) = (wval a * wval b) mod 2 ^ (64 * n)"
proof -
  show len: "length (mul_n a b n) = n" by (simp add: mul_n_def)
  obtain k where k: "wval (mul_n a b n) + base64 ^ n * k = wval a * wval b"
    using mul_rows_correct[of a "replicate n 0" b] assms
    by (auto simp: mul_n_def w64.val_replicate_zero)
  have "wval (mul_n a b n) < base64 ^ n" using w64.val_bound len by metis
  then show "wval (mul_n a b n) = (wval a * wval b) mod 2 ^ (64 * n)"
    by (simp flip: base64_pow k)
qed

section \<open>Comparison\<close>

fun ucmp_n :: "u64 list \<Rightarrow> u64 list \<Rightarrow> nat \<Rightarrow> int" where
  "ucmp_n a b 0 = 0"
| "ucmp_n a b (Suc i) =
     (if a ! i \<noteq> b ! i then (if a ! i < b ! i then -1 else 1) else ucmp_n a b i)"

text \<open>The three way comparison every caller expects.\<close>

definition cmp3 :: "'a::linorder \<Rightarrow> 'a \<Rightarrow> int" where
  "cmp3 x y = (if x > y then 1 else 0) - (if x < y then 1 else 0)"

lemma ucmp_n_take:
  "n \<le> length a \<Longrightarrow> n \<le> length b \<Longrightarrow>
   ucmp_n a b n = cmp3 (wval (take n a)) (wval (take n b))"
proof (induction n)
  case (Suc i)
  then have i: "i < length a" "i < length b" by simp_all
  show ?case
  proof (cases "a ! i = b ! i")
    case True
    then have "wval (take (Suc i) a) = wval (take i a) + base64 ^ i * unat (b ! i)"
      "wval (take (Suc i) b) = wval (take i b) + base64 ^ i * unat (b ! i)"
      using i by (simp_all add: take_Suc_conv_app_nth w64.val_append)
    with True Suc i show ?thesis by (simp add: cmp3_def)
  next
    case False
    then have ne: "unat (a ! i) \<noteq> unat (b ! i)" using unsigned_word_eqI by blast
    have len: "length (take i a) = length (take i b)" using i by simp
    show ?thesis
    proof (cases "unat (a ! i) < unat (b ! i)")
      case True
      with w64.val_less_high[OF len True, of "[]"] False i show ?thesis
        by (simp add: take_Suc_conv_app_nth word_less_nat_alt cmp3_def)
    next
      case lt: False
      with ne have "unat (b ! i) < unat (a ! i)" by simp
      from w64.val_less_high[OF len[symmetric] this, of "[]"] lt False i show ?thesis
        by (simp add: take_Suc_conv_app_nth word_less_nat_alt cmp3_def)
    qed
  qed
qed (simp add: cmp3_def)

lemma ucmp_n_correct:
  "length a = n \<Longrightarrow> length b = n \<Longrightarrow> ucmp_n a b n = cmp3 (wval a) (wval b)"
  using ucmp_n_take[of n a b] by simp

section \<open>Shifts\<close>

definition shl_n :: "u64 list \<Rightarrow> nat \<Rightarrow> nat \<Rightarrow> u64 list" where
  "shl_n a n amt =
     (let ws = amt div 64; bs = amt mod 64
      in map (\<lambda>i.
           if ws \<le> i then
             (let v = push_bit bs (a ! (i - ws))
              in if bs \<noteq> 0 \<and> ws < i then v OR drop_bit (64 - bs) (a ! (i - ws - 1)) else v)
           else 0) [0..<n])"

definition shr_n :: "u64 list \<Rightarrow> nat \<Rightarrow> nat \<Rightarrow> u64 \<Rightarrow> u64 list" where
  "shr_n a n amt fill =
     (let ws = amt div 64; bs = amt mod 64
      in map (\<lambda>i.
           let lo = (if i + ws < n then a ! (i + ws) else fill);
               hi = (if i + ws + 1 < n then a ! (i + ws + 1) else fill)
           in if bs = 0 then lo else drop_bit bs lo OR push_bit (64 - bs) hi) [0..<n])"

lemma length_shl_n [simp]: "length (shl_n a n amt) = n"
  by (simp add: shl_n_def Let_def)

lemma length_shr_n [simp]: "length (shr_n a n amt fill) = n"
  by (simp add: shr_n_def Let_def)

lemma bit_shl_n:
  assumes "i < n"
  shows "bit (shl_n a n amt ! i) j \<longleftrightarrow>
    j < 64 \<and> amt \<le> 64 * i + j \<and> bit (a ! ((64 * i + j - amt) div 64)) ((64 * i + j - amt) mod 64)"
    (is "_ \<longleftrightarrow> ?R")
proof (cases "j < 64")
  case True
  define ws bs where "ws = amt div 64" and "bs = amt mod 64"
  have amt: "amt = 64 * ws + bs" "bs < 64" by (simp_all add: ws_def bs_def)
  have el: "shl_n a n amt ! i = (if ws \<le> i then
      (let v = push_bit bs (a ! (i - ws))
       in if bs \<noteq> 0 \<and> ws < i then v OR drop_bit (64 - bs) (a ! (i - ws - 1)) else v) else 0)"
    using assms by (simp add: shl_n_def ws_def bs_def Let_def)
  consider (lt) "i < ws" | (hi) "ws \<le> i" "bs \<le> j" | (eq) "ws = i" "j < bs" | (lo) "ws < i" "j < bs"
    by linarith
  then show ?thesis
  proof cases
    case lt
    then have "64 * i + 64 \<le> 64 * ws" by simp
    with True amt have "\<not> amt \<le> 64 * i + j" by linarith
    with lt show ?thesis by (simp add: el)
  next
    case hi
    have "64 * i + j - amt = 64 * (i - ws) + (j - bs)" using hi amt by (simp add: algebra_simps)
    then have "(64 * i + j - amt) div 64 = i - ws" "(64 * i + j - amt) mod 64 = j - bs"
      using True by simp_all
    moreover have "amt \<le> 64 * i + j" using hi amt by linarith
    moreover have "bit (shl_n a n amt ! i) j = bit (a ! (i - ws)) (j - bs)"
      using hi True amt(2) by (auto simp: el Let_def bit_push_bit_iff bit_or_iff bit_drop_bit_eq
          dest: bit_imp_le_length)
    ultimately show ?thesis using True by simp
  next
    case eq
    with amt have "\<not> amt \<le> 64 * i + j" by simp
    with eq show ?thesis by (simp add: el Let_def bit_push_bit_iff)
  next
    case lo
    then obtain k where k: "i = Suc (ws + k)" using less_imp_Suc_add by blast
    define q where "q = 64 - bs + j"
    have "64 * i + j - amt = 64 * k + q" "q < 64" using lo amt k by (simp_all add: q_def)
    then have "(64 * i + j - amt) div 64 = k" "(64 * i + j - amt) mod 64 = 64 - bs + j"
      by (simp_all add: q_def)
    moreover have "amt \<le> 64 * i + j" using lo amt by linarith
    moreover have "bit (shl_n a n amt ! i) j = bit (a ! k) (64 - bs + j)"
    proof -
      have "i - ws - 1 = k" using k by simp
      with lo amt(2) show ?thesis
        by (simp add: el Let_def bit_push_bit_iff bit_or_iff bit_drop_bit_eq)
    qed
    ultimately show ?thesis using True by simp
  qed
next
  case False
  then show ?thesis by (auto dest: bit_imp_le_length)
qed

lemma shl_n_correct:
  assumes "length a = n"
  shows "wval (shl_n a n amt) = push_bit amt (wval a) mod 2 ^ (64 * n)"
proof (rule bit_eqI)
  fix i
  have "i div 64 < n \<longleftrightarrow> i < 64 * n" by (simp add: div_less_iff_less_mult mult.commute)
  moreover have "(i - amt) div 64 < n" if "i < 64 * n"
    using that by (simp add: div_less_iff_less_mult mult.commute)
  ultimately show "bit (wval (shl_n a n amt)) i = bit (push_bit amt (wval a) mod 2 ^ (64 * n)) i"
    using assms by (auto simp: bit_wval bit_shl_n bit_push_bit_iff bit_take_bit_iff
        simp flip: take_bit_eq_mod)
qed

lemma bit_shr_n:
  assumes "i < n" "length a = n"
  shows "bit (shr_n a n amt fill ! i) j \<longleftrightarrow> j < 64 \<and>
    (if 64 * i + j + amt < 64 * n then bit (wval a) (64 * i + j + amt)
     else bit fill ((64 * i + j + amt) mod 64))"
proof (cases "j < 64")
  case True
  define ws bs where "ws = amt div 64" and "bs = amt mod 64"
  have amt: "amt = 64 * ws + bs" "bs < 64" by (simp_all add: ws_def bs_def)
  define w where "w k = (if k < n then a ! k else fill)" for k
  have el: "shr_n a n amt fill ! i
      = (if bs = 0 then w (i + ws) else drop_bit bs (w (i + ws)) OR push_bit (64 - bs) (w (i + ws + 1)))"
    using assms by (simp add: shr_n_def ws_def bs_def w_def Let_def)
  have w: "bit (w k) l = (if 64 * k + l < 64 * n then bit (wval a) (64 * k + l) else bit fill l)"
    if "l < 64" for k l
    using that assms(2) by (auto simp: w_def bit_wval)
  show ?thesis
  proof (cases "j + bs < 64")
    case lo: True
    have sum: "64 * i + j + amt = 64 * (i + ws) + (j + bs)" using amt by simp
    then have "(64 * i + j + amt) mod 64 = j + bs" using lo by (metis mod_mult_self4 mod_less)
    moreover have "bit (shr_n a n amt fill ! i) j = bit (w (i + ws)) (j + bs)"
      using lo True by (auto simp: el bit_or_iff bit_push_bit_iff bit_drop_bit_eq algebra_simps)
    ultimately show ?thesis using True w[OF lo] unfolding sum by simp
  next
    case hi: False
    have sum: "64 * i + j + amt = 64 * (i + ws + 1) + (j + bs - 64)" using amt hi by simp
    have lt: "j + bs - 64 < 64" using True amt(2) by simp
    have "(64 * i + j + amt) mod 64 = j + bs - 64" using sum lt by (metis mod_mult_self4 mod_less)
    moreover have "bit (shr_n a n amt fill ! i) j = bit (w (i + ws + 1)) (j + bs - 64)"
      using hi True amt(2)
      by (auto simp: el bit_or_iff bit_push_bit_iff bit_drop_bit_eq algebra_simps
          dest: bit_imp_le_length)
    ultimately show ?thesis using True w[OF lt] unfolding sum by simp
  qed
next
  case False
  then show ?thesis by (auto dest: bit_imp_le_length)
qed

lemma bit_wval_shr_n:
  assumes "length a = n"
  shows "bit (wval (shr_n a n amt fill)) i \<longleftrightarrow> i < 64 * n \<and>
    (if i + amt < 64 * n then bit (wval a) (i + amt) else bit fill ((i + amt) mod 64))"
proof -
  have "i div 64 < n \<longleftrightarrow> i < 64 * n" by (simp add: div_less_iff_less_mult mult.commute)
  moreover have "64 * (i div 64) + i mod 64 + amt = i + amt" by simp
  ultimately show ?thesis
    using assms by (auto simp: bit_wval[of "shr_n a n amt fill"] bit_shr_n)
qed

lemma shr_n_zero_correct:
  assumes "length a = n"
  shows "wval (shr_n a n amt 0) = drop_bit amt (wval a)"
proof (rule bit_eqI)
  fix i
  have "i + amt < 64 * n" if "bit (wval a) (i + amt)"
    using nat_bit_less[OF that wval_bound] assms by simp
  then show "bit (wval (shr_n a n amt 0)) i = bit (drop_bit amt (wval a)) i"
    using assms by (auto simp: bit_wval_shr_n bit_drop_bit_eq add.commute)
qed

end
