(* ===== verification/APIntDivmnu.thy ===== *)
theory APIntDivmnu
  imports Prelude
begin

text \<open>
  The multiword division \<open>divmnu\<close> of \<^verbatim>\<open>src/src/utils/APInt.cpp\<close> (lines 78 to 141), Knuth's
  algorithm D on 32 bit limbs. \<open>u\<close> and \<open>v\<close> are limb lists, least significant limb first,
  \<open>m\<close> and \<open>n\<close> their lengths. \<^verbatim>\<open>u32\<close> and \<^verbatim>\<open>u64\<close> values are words, the signed
  \<^verbatim>\<open>i64\<close> temporaries of the multiply and subtract loop are integers (signed overflow
  has no defined result in C++; \<open>mulsub_borrow\<close> and \<open>mulsub_range\<close> show it does not
  happen). The section ends with \<open>divmnu_result\<close>: quotient and remainder are exact.
\<close>

section \<open>64 bit temporaries\<close>

definition w64_of :: "u32 \<Rightarrow> u64" where "w64_of x = ucast x"
definition lo32 :: "u64 \<Rightarrow> u32" where "lo32 x = ucast x"

lemma base32_mult: "base32 * base32 = 2 ^ 64"
  by (simp add: base32_def)

lemma unat_u32_less [simp]: "unat (x :: u32) < base32"
  by (rule l32.digit_bound)

lemma unat_w64_of [simp]: "unat (w64_of x) = unat x"
proof -
  have "unat x < 2 ^ 64" by (rule less_trans[OF unsigned_less]) simp
  then show ?thesis by (simp add: w64_of_def unsigned_ucast_eq take_bit_nat_eq_self)
qed

lemma unat_lo32: "unat (lo32 x) = unat x mod base32"
  by (simp add: lo32_def unsigned_ucast_eq base32_def take_bit_eq_mod)

lemma unat_shr32: "unat (drop_bit 32 x) = unat (x :: u64) div base32"
  by (simp only: unat_drop_bit_eq) (simp add: drop_bit_eq_div base32_def)

lemma unat_join32:
  fixes k :: u64
  assumes "unat k < base32"
  shows "unat (push_bit 32 k OR w64_of l) = unat k * base32 + unat l"
proof -
  have l: "unat l < 2 ^ 32" using unat_u32_less[of l] unfolding base32_def .
  have k: "unat k < 2 ^ 32" using assms unfolding base32_def .
  have "push_bit 32 (unat k) < 2 ^ 64" using k by (simp add: push_bit_eq_mult)
  then have "unat (push_bit 32 k OR w64_of l) = push_bit 32 (unat k) OR unat l"
    by (simp add: unsigned_or_eq unsigned_push_bit_eq take_bit_nat_eq_self)
  also have "\<dots> = unat k * base32 + unat l"
    using or_push_bit_nat[OF l] by (simp add: base32_def)
  finally show ?thesis .
qed

section \<open>One limb divisors\<close>

fun div_short :: "u64 \<Rightarrow> u32 list \<Rightarrow> u32 list \<times> u64" where
  "div_short v0 [] = ([], 0)"
| "div_short v0 (x # xs) =
     (let (q, k) = div_short v0 xs;
          cur = push_bit 32 k OR w64_of x
      in (lo32 (cur div v0) # q, cur mod v0))"

lemma div_short_correct:
  assumes "0 < unat v0" "unat v0 < base32" "div_short v0 xs = (q, k)"
  shows "length q = length xs \<and> lval q = lval xs div unat v0 \<and> unat k = lval xs mod unat v0"
  using assms(3)
proof (induction xs arbitrary: q k)
  case (Cons x xs)
  obtain q' k' where qk: "div_short v0 xs = (q', k')" by (cases "div_short v0 xs")
  define cur where "cur = push_bit 32 k' OR w64_of x"
  from Cons.prems qk have q: "q = lo32 (cur div v0) # q'" and k: "k = cur mod v0"
    by (simp_all add: cur_def Let_def)
  note IH = Cons.IH[OF qk]
  define a d where "a = lval xs" and "d = unat v0"
  have d: "0 < d" using assms(1) by (simp add: d_def)
  have k': "unat k' = a mod d" using IH by (simp add: a_def d_def)
  have "a mod d < d" using d by simp
  then have "unat k' < base32" using k' assms(2) by (simp add: d_def)
  then have cur: "unat cur = (a mod d) * base32 + unat x"
    unfolding cur_def by (subst unat_join32) (simp_all add: k')
  have "(a mod d) * base32 + unat x < d * base32"
  proof -
    have "(a mod d) * base32 + unat x < Suc (a mod d) * base32" by simp
    also have "\<dots> \<le> d * base32" using \<open>a mod d < d\<close> by (intro mult_le_mono1) simp
    finally show ?thesis .
  qed
  then have "unat cur div d < base32"
    by (simp add: cur less_mult_imp_div_less mult.commute)
  then have q0: "unat (lo32 (cur div v0)) = unat cur div d"
    by (simp add: unat_lo32 unat_div d_def)
  have "lval (x # xs) = d * (a div d) * base32 + unat cur"
    using div_mult_mod_eq[of a d] unfolding cur
    by (simp add: a_def algebra_simps flip: distrib_left) 
  then have val: "lval (x # xs) = unat cur + d * (base32 * (a div d))"
    by (simp add: algebra_simps)
  have "lval (x # xs) div d = unat cur div d + base32 * (a div d)"
    unfolding val using d by simp
  moreover have "lval (x # xs) mod d = unat cur mod d"
    unfolding val by simp
  ultimately show ?case
    using IH q k q0 by (simp add: unat_mod d_def a_def)
qed simp

section \<open>The general case, as the code runs it\<close>

text \<open>
  Normalisation shifts every limb left by \<open>s\<close> and takes the bits that leave the limb below.
  \<open>denorm\<close> is the inverse shift of the remainder.
\<close>

definition norm_limb :: "nat \<Rightarrow> u32 \<Rightarrow> u32 \<Rightarrow> u32" where
  "norm_limb s hi lo = lo32 (push_bit s (w64_of hi) OR drop_bit (32 - s) (w64_of lo))"

definition norm_limbs :: "nat \<Rightarrow> u32 list \<Rightarrow> nat \<Rightarrow> u32 list" where
  "norm_limbs s xs n =
     map (\<lambda>i. if i = 0 then lo32 (push_bit s (w64_of (xs ! 0)))
              else norm_limb s (xs ! i) (xs ! (i - 1))) [0..<n]"

definition norm_dividend :: "nat \<Rightarrow> u32 list \<Rightarrow> nat \<Rightarrow> u32 list" where
  "norm_dividend s u m = norm_limbs s u m @ [lo32 (drop_bit (32 - s) (w64_of (u ! (m - 1))))]"

definition denorm :: "nat \<Rightarrow> u32 list \<Rightarrow> nat \<Rightarrow> u32 list" where
  "denorm s un n =
     map (\<lambda>i. lo32 (drop_bit s (w64_of (un ! i)) OR push_bit (32 - s) (w64_of (un ! (i + 1))))) [0..<n]"

text \<open>
  The correction of the quotient digit estimate. The test is \<^verbatim>\<open>qhat >= B || \<dots>\<close>, so the
  product is only looked at below \<open>B\<close>, where it does not wrap. The loop ends because
  \<open>qhat\<close> gets smaller in every round.
\<close>

lemma unat_dec: "x \<noteq> 0 \<Longrightarrow> unat (x - 1 :: u64) = unat x - 1"
  by (metis One_nat_def unat_minus_one)

function qhat_loop :: "u64 \<Rightarrow> u64 \<Rightarrow> u64 \<Rightarrow> u64 \<Rightarrow> u64 \<Rightarrow> u64" where
  "qhat_loop v1 v2 x2 qhat rhat =
     (if 2 ^ 32 \<le> qhat \<or> qhat * v2 > (push_bit 32 rhat OR x2)
      then (let rhat' = rhat + v1
            in if 2 ^ 32 \<le> rhat' then qhat - 1 else qhat_loop v1 v2 x2 (qhat - 1) rhat')
      else qhat)"
  by pat_completeness auto

termination
proof (relation "measure (\<lambda>(v1, v2, x2, qhat, rhat). unat qhat)")
  fix v1 v2 x2 qhat rhat rhat' :: u64
  assume "2 ^ 32 \<le> qhat \<or> qhat * v2 > (push_bit 32 rhat OR x2)"
  then have "qhat \<noteq> 0" by (auto simp: word_le_nat_alt)
  then have "unat (qhat - 1) < unat qhat"
    by (simp add: unat_dec unat_gt_0)
  then show "((v1, v2, x2, qhat - 1, rhat'), v1, v2, x2, qhat, rhat)
      \<in> measure (\<lambda>(v1, v2, x2, qhat, rhat). unat qhat)" by simp
qed simp

declare qhat_loop.simps [simp del]

text \<open>\<^verbatim>\<open>un[j .. j + n] -= qhat * vn\<close>, the window \<open>un[j .. j + n)\<close> given as a list.\<close>

fun mulsub :: "u64 \<Rightarrow> int \<Rightarrow> u32 list \<Rightarrow> u32 list \<Rightarrow> u32 list \<times> int" where
  "mulsub qhat borrow (x # xs) (v # vs) =
     (let p = qhat * w64_of v;
          t = int (unat x) - borrow - int (unat (p AND 0xFFFFFFFF));
          (r, b) = mulsub qhat (int (unat (drop_bit 32 p)) - drop_bit 32 t) xs vs
      in (word_of_int t # r, b))"
| "mulsub qhat borrow _ _ = ([], borrow)"

fun addback :: "u64 \<Rightarrow> u32 list \<Rightarrow> u32 list \<Rightarrow> u32 list \<times> u64" where
  "addback carry (x # xs) (v # vs) =
     (let t2 = w64_of x + w64_of v + carry;
          (r, c) = addback (drop_bit 32 t2) xs vs
      in (lo32 t2 # r, c))"
| "addback carry _ _ = ([], carry)"

definition divmnu_step :: "nat \<Rightarrow> u32 list \<Rightarrow> u32 list \<Rightarrow> nat \<Rightarrow> u32 \<times> u32 list" where
  "divmnu_step n vn un j =
     (let v1 = w64_of (vn ! (n - 1));
          num = push_bit 32 (w64_of (un ! (j + n))) OR w64_of (un ! (j + n - 1));
          qhat0 = num div v1;
          rhat0 = num - qhat0 * v1;
          qhat = qhat_loop v1 (w64_of (vn ! (n - 2))) (w64_of (un ! (j + n - 2))) qhat0 rhat0;
          (w, borrow) = mulsub qhat 0 (take n (drop j un)) vn;
          t = int (unat (un ! (j + n))) - borrow;
          top = word_of_int t;
          qj = lo32 qhat
      in if t < 0
         then (let (w', carry) = addback 0 w vn
               in (qj - 1, take j un @ w' @ [top + lo32 carry] @ drop (j + n + 1) un))
         else (qj, take j un @ w @ [top] @ drop (j + n + 1) un))"

text \<open>\<open>divmnu_loop n vn un (m - n + 1)\<close> runs \<open>j = m - n, \<dots>, 0\<close>.\<close>

fun divmnu_loop :: "nat \<Rightarrow> u32 list \<Rightarrow> u32 list \<Rightarrow> nat \<Rightarrow> u32 list \<times> u32 list" where
  "divmnu_loop n vn un 0 = ([], un)"
| "divmnu_loop n vn un (Suc j) =
     (let (qj, un1) = divmnu_step n vn un j;
          (q, un2) = divmnu_loop n vn un1 j
      in (q @ [qj], un2))"

definition divmnu :: "u32 list \<Rightarrow> u32 list \<Rightarrow> nat \<Rightarrow> nat \<Rightarrow> u32 list \<times> u32 list" where
  "divmnu u v m n =
     (if n = 1 then
        (let (q, k) = div_short (w64_of (v ! 0)) (take m u) in (q, [lo32 k]))
      else
        (let s = std_countl_zero (v ! (n - 1));
             vn = norm_limbs s v n;
             un = norm_dividend s u m;
             (q, un') = divmnu_loop n vn un (m - n + 1)
         in (q, denorm s un' n)))"

section \<open>Quotient digit estimate\<close>

lemma estimate_step:
  fixes X V P num x2 v1 v2 q r B :: nat
  assumes V: "(v1 * B + v2) * P \<le> V" and X: "X < (num * B + x2 + 1) * P"
    and inv: "q * v1 + r = num" and big: "r * B + x2 < q * v2"
  shows "X < q * V"
proof -
  have "num * B + x2 + 1 \<le> q * v1 * B + r * B + x2 + 1"
    by (simp flip: inv add: algebra_simps)
  also have "\<dots> \<le> q * (v1 * B + v2)" using big by (simp add: algebra_simps)
  finally have "(num * B + x2 + 1) * P \<le> q * (v1 * B + v2) * P" by (rule mult_le_mono1)
  also have "\<dots> \<le> q * V" using V by (simp add: mult.assoc mult_le_mono2)
  finally show ?thesis using X by simp
qed

lemma estimate_tight:
  fixes X V P num x2 v1 v2 q B :: nat
  assumes V: "V < (v1 * B + v2 + 1) * P" "v1 * B * P \<le> V" and X: "(num * B + x2) * P \<le> X"
    and q: "q * (v1 * B + v2) \<le> num * B + x2" "q < B" and v1: "0 < v1"
  shows "q \<le> X div V + 1"
proof (cases q)
  case (Suc k)
  have P: "0 < P" using V(1) by (cases P) simp_all
  have "q * V \<le> q * (v1 * B + v2) * P + q * P"
    using mult_le_mono2[OF less_imp_le[OF V(1)], of q] by (simp add: algebra_simps)
  also have "\<dots> \<le> X + q * P"
    using order_trans[OF mult_le_mono1[OF q(1), of P] X] by simp
  also have "\<dots> < X + V"
  proof -
    have "q * P < B * P" using q(2) P by simp
    also have "\<dots> \<le> v1 * B * P" using v1 by simp
    finally have "q * P < V" using V(2) by (rule less_le_trans)
    then show ?thesis by simp
  qed
  finally have "k * V < X" using Suc by simp
  moreover have "0 < V" using V(2) v1 P q(2) by (metis gr0I le_zero_eq mult_is_0 not_less0)
  ultimately have "k \<le> X div V" by (simp add: less_eq_div_iff_mult_less_eq)
  then show ?thesis using Suc by simp
qed simp

lemma qhat_loop_correct:
  fixes v1 v2 qhat rhat :: u64 and x2 :: u32 and X V P num :: nat
  assumes v: "unat v1 < base32" "0 < unat v1" "unat v2 < base32"
    and V: "(unat v1 * base32 + unat v2) * P \<le> V" "0 < V"
    and X: "X < (num * base32 + unat x2 + 1) * P" "X div V < base32"
    and num: "num < unat v1 * base32 + base32"
    and inv: "unat qhat * unat v1 + unat rhat = num" "unat rhat < base32" "X div V \<le> unat qhat"
  shows "X div V \<le> unat (qhat_loop v1 v2 (w64_of x2) qhat rhat)
    \<and> unat (qhat_loop v1 v2 (w64_of x2) qhat rhat) < base32
    \<and> unat (qhat_loop v1 v2 (w64_of x2) qhat rhat) * (unat v1 * base32 + unat v2)
        \<le> num * base32 + unat x2"
  using inv
proof (induction "unat qhat" arbitrary: qhat rhat rule: less_induct)
  case less
  let ?q = "unat qhat" and ?r = "unat rhat" and ?B = base32
  have B2: "2 ^ 32 \<le> w \<longleftrightarrow> ?B \<le> unat w" for w :: u64
    by (simp add: word_le_nat_alt base32_def)
  have B2n: "4294967296 \<le> w \<longleftrightarrow> ?B \<le> unat w" for w :: u64
    using B2[of w] by simp
  have join: "unat (push_bit 32 rhat OR w64_of x2) = ?r * ?B + unat x2"
    by (rule unat_join32[OF less.prems(2)])
  have prod: "unat (qhat * v2) = ?q * unat v2" if "?q < ?B"
  proof -
    have "?q * unat v2 < ?B * ?B" using that v(3) by (intro mult_strict_mono) simp_all
    then show ?thesis by (simp add: unat_word_ariths base32_mult)
  qed
  define test where "test = (2 ^ 32 \<le> qhat \<or> qhat * v2 > (push_bit 32 rhat OR w64_of x2))"
  have test: "test \<longleftrightarrow> ?B \<le> ?q \<or> ?r * ?B + unat x2 < ?q * unat v2"
    unfolding test_def B2 word_less_nat_alt join using prod by (cases "?q < ?B") auto
  note unfold = qhat_loop.simps[of v1 v2 "w64_of x2" qhat rhat, folded test_def]
  show ?case
  proof (cases test)
    case False
    then have "?q * unat v2 \<le> ?r * ?B + unat x2" "?q < ?B" using test by auto
    moreover have "?q * (unat v1 * ?B + unat v2) + ?r * ?B = num * ?B + ?q * unat v2"
      by (simp flip: less.prems(1) add: algebra_simps)
    ultimately show ?thesis using False less.prems(3) by (simp add: unfold)
  next
    case True
    have lt: "X div V < ?q"
    proof (cases "?B \<le> ?q")
      case True
      then show ?thesis using X(2) by simp
    next
      case False
      with True test have "?r * ?B + unat x2 < ?q * unat v2" by simp
      then have "X < ?q * V" by (rule estimate_step[OF V(1) X(1) less.prems(1)])
      then show ?thesis using V(2) by (simp add: div_less_iff_less_mult)
    qed
    then have q1: "unat (qhat - 1) = ?q - 1" by (metis not_less0 unat_0 unat_dec)
    have "?r + unat v1 < 2 ^ 64" using less.prems(2) v(1) by (simp add: base32_def)
    then have r1: "unat (rhat + v1) = ?r + unat v1" by (simp add: unat_word_ariths)
    have inv1: "(?q - 1) * unat v1 + (?r + unat v1) = num"
      using lt less.prems(1) by (cases ?q) (simp_all add: algebra_simps)
    show ?thesis
    proof (cases "?B \<le> ?r + unat v1")
      case brk: True
      then have "(?q - 1) * unat v1 < unat v1 * ?B" using inv1 num by linarith
      then have qB: "?q - 1 < ?B" by (simp add: mult.commute)
      have "(?q - 1) * unat v2 \<le> ?B * ?B" using qB v(3) by (intro mult_le_mono) simp_all
      also have "\<dots> \<le> (?r + unat v1) * ?B" using brk by (intro mult_le_mono1)
      finally have "(?q - 1) * (unat v1 * ?B + unat v2)
          \<le> ((?q - 1) * unat v1 + (?r + unat v1)) * ?B" by (simp add: algebra_simps)
      then have "(?q - 1) * (unat v1 * ?B + unat v2) \<le> num * ?B + unat x2"
        unfolding inv1 by simp
      with True brk lt qB show ?thesis by (simp add: unfold B2n r1 q1 Let_def)
    next
      case False
      have "unat (qhat - 1) < unat qhat" using q1 lt by simp
      moreover have "unat (qhat - 1) * unat v1 + unat (rhat + v1) = num"
        using inv1 by (simp add: q1 r1)
      moreover have "unat (rhat + v1) < ?B" "X div V \<le> unat (qhat - 1)"
        using False lt by (simp_all add: r1 q1)
      ultimately have "X div V \<le> unat (qhat_loop v1 v2 (w64_of x2) (qhat - 1) (rhat + v1))
          \<and> unat (qhat_loop v1 v2 (w64_of x2) (qhat - 1) (rhat + v1)) < ?B
          \<and> unat (qhat_loop v1 v2 (w64_of x2) (qhat - 1) (rhat + v1)) * (unat v1 * ?B + unat v2)
              \<le> num * ?B + unat x2"
        by (rule less.hyps)
      then show ?thesis using True False by (simp add: unfold B2n r1 Let_def)
    qed
  qed
qed

section \<open>Multiply and subtract, add back\<close>

lemma int_word_of_int32: "int (unat (word_of_int t :: u32)) = t mod int base32"
  by (simp add: unsigned_of_int base32_def take_bit_eq_mod)

lemma and_mask32: "unat (p AND 0xFFFFFFFF :: u64) = unat p mod base32"
proof -
  have "p AND 0xFFFFFFFF = take_bit 32 p"
    by (simp add: take_bit_eq_mask mask_eq_exp_minus_1)
  then have "unat (p AND 0xFFFFFFFF) = take_bit 32 (unat p)"
    by (simp only: unsigned_take_bit_eq)
  then show ?thesis
    by (simp only: take_bit_eq_mod base32_def)
qed

lemma prod_u32: "unat qhat < base32 \<Longrightarrow> unat (qhat * w64_of v) = unat qhat * unat v"
proof -
  assume "unat qhat < base32"
  then have "unat qhat * unat v < base32 * base32" by (intro mult_strict_mono) simp_all
  then show ?thesis by (simp add: unat_word_ariths base32_mult)
qed

lemma mulsub_correct:
  assumes "length xs = length vs" "unat qhat < base32" "mulsub qhat b0 xs vs = (r, b)"
  shows "length r = length xs \<and>
    int (lval r) - int base32 ^ length xs * b = int (lval xs) - b0 - int (unat qhat) * int (lval vs)"
  using assms(1,3)
proof (induction xs vs arbitrary: b0 r rule: list_induct2)
  case (Cons x xs v vs)
  define p where "p = qhat * w64_of v"
  define t where "t = int (unat x) - b0 - int (unat (p AND 0xFFFFFFFF))"
  define b1 where "b1 = int (unat (drop_bit 32 p)) - drop_bit 32 t"
  obtain r' where r: "r = word_of_int t # r'" and r': "mulsub qhat b1 xs vs = (r', b)"
    using Cons.prems by (auto simp: Let_def p_def t_def b1_def split: prod.splits)
  note IH = Cons.IH[OF r']
  let ?B = "int base32"
  have p: "int (unat qhat) * int (unat v) = int (unat (p AND 0xFFFFFFFF)) + ?B * int (unat (drop_bit 32 p))"
    by (simp flip: of_nat_mult of_nat_add
        add: and_mask32 unat_shr32 prod_u32[OF assms(2)] p_def del: of_nat_unat)
  have t: "t = int (unat (word_of_int t :: u32)) + ?B * drop_bit 32 t"
    by (simp add: int_word_of_int32 drop_bit_eq_div base32_def del: of_nat_unat)
  have "int (lval r) - ?B ^ length (x # xs) * b
      = int (unat (word_of_int t :: u32)) + ?B * (int (lval r') - ?B ^ length xs * b)"
    by (simp add: r algebra_simps)
  also have "\<dots> = int (unat (word_of_int t :: u32)) + ?B * (int (lval xs) - b1 - int (unat qhat) * int (lval vs))"
    using IH by simp
  also have "\<dots> = t - ?B * int (unat (drop_bit 32 p)) + ?B * (int (lval xs) - int (unat qhat) * int (lval vs))"
    using t unfolding b1_def by (simp add: algebra_simps)
  also have "\<dots> = int (lval (x # xs)) - b0 - int (unat qhat) * int (lval (v # vs))"
    using p unfolding t_def by (simp add: algebra_simps)
  finally show ?case using IH r by simp
qed simp


lemma addback_correct:
  assumes "length xs = length vs" "unat c \<le> 1" "addback c xs vs = (r, c')"
  shows "length r = length xs \<and> unat c' \<le> 1 \<and>
    lval r + base32 ^ length xs * unat c' = lval xs + lval vs + unat c"
  using assms
proof (induction xs vs arbitrary: c r rule: list_induct2)
  case (Cons x xs v vs)
  define t where "t = w64_of x + w64_of v + c"
  have xv: "unat x < base32" "unat v < base32" by simp_all
  then have "unat (w64_of x + w64_of v) = unat x + unat v"
    by (simp add: unat_word_ariths base32_def)
  then have t: "unat t = unat x + unat v + unat c"
    using xv Cons.prems(1) by (simp add: t_def unat_word_ariths base32_def)
  have c1: "unat (drop_bit 32 t) \<le> 1"
    using xv Cons.prems(1) by (simp add: unat_shr32 t base32_def)
  obtain r' where r: "r = lo32 t # r'" and r': "addback (drop_bit 32 t) xs vs = (r', c')"
    using Cons.prems(2) by (auto simp: Let_def t_def split: prod.splits)
  note IH = Cons.IH[OF c1 r']
  have "lval r + base32 ^ length (x # xs) * unat c'
      = unat (lo32 t) + base32 * (lval r' + base32 ^ length xs * unat c')"
    by (simp add: r algebra_simps)
  also have "\<dots> = (unat (lo32 t) + base32 * unat (drop_bit 32 t)) + base32 * (lval xs + lval vs)"
    using IH by (simp add: algebra_simps)
  also have "unat (lo32 t) + base32 * unat (drop_bit 32 t) = unat t"
    by (simp add: unat_lo32 unat_shr32)
  finally show ?case using IH r by (simp add: t algebra_simps)
qed simp

text \<open>The borrow of the loop stays in \<open>[0, 2 ^ 32]\<close> and the temporary \<open>t\<close> in \<open>i64\<close>.\<close>

lemma mulsub_range:
  assumes "unat qhat < base32" "0 \<le> b0" "b0 \<le> int base32"
    and "p = qhat * w64_of v" "t = int (unat (x :: u32)) - b0 - int (unat (p AND 0xFFFFFFFF))"
    and "b1 = int (unat (drop_bit 32 p)) - drop_bit 32 t"
  shows "- (2 ^ 63) \<le> t" "t < 2 ^ 63" "0 \<le> b1" "b1 \<le> int base32"
proof -
  let ?B = "int base32"
  have lo: "int (unat (p AND 0xFFFFFFFF)) < ?B"
    by (simp only: and_mask32 of_nat_less_iff) (simp add: base32_def)
  have x: "int (unat x) < ?B" by (simp only: of_nat_less_iff unat_u32_less)
  have B: "?B = 2 ^ 32" by (simp add: base32_def)
  have nn: "0 \<le> int (unat x)" "0 \<le> int (unat (p AND 0xFFFFFFFF))" by (rule of_nat_0_le_iff)+
  have t: "- 2 * ?B < t" "t < ?B" using assms(2,3,5) lo x nn by linarith+
  then show "- (2 ^ 63) \<le> t" "t < 2 ^ 63" by (simp_all add: B)
  have "unat qhat * unat v \<le> (base32 - 1) * (base32 - 1)"
    using assms(1) unat_u32_less[of v] by (intro mult_le_mono) linarith+
  then have "unat p div base32 \<le> (base32 - 1) * (base32 - 1) div base32"
    unfolding assms(4) prod_u32[OF assms(1)] by (rule div_le_mono)
  also have "\<dots> = base32 - 2" by (simp add: base32_def)
  finally have hi: "int (unat (drop_bit 32 p)) \<le> ?B - 2"
    by (simp add: unat_shr32 base32_def del: of_nat_unat)
  have d: "drop_bit 32 t = t div ?B" by (simp add: drop_bit_eq_div B)
  have "(- 2 * ?B) div ?B \<le> t div ?B" using t by (intro zdiv_mono1) (simp_all add: B)
  then have "- 2 \<le> t div ?B" by (simp add: B)
  moreover have "t div ?B < 1" using t(2) by (simp add: B div_less_iff_less_mult)
  moreover have "0 \<le> int (unat (drop_bit 32 p))" by (rule of_nat_0_le_iff)
  ultimately show "0 \<le> b1" "b1 \<le> ?B" using hi unfolding assms(6) d by linarith+
qed

section \<open>One quotient digit\<close>

lemma drop_digit_bound:
  assumes "lval (x # xs) = X" "lval xs < V" shows "X div V < base32"
proof -
  have "X < base32 * Suc (lval xs)"
    unfolding assms(1)[symmetric] using unat_u32_less[of x] by (simp del: unat_u32_less)
  also have "\<dots> \<le> base32 * V" using assms(2) by (intro mult_le_mono2) simp
  finally show ?thesis by (simp add: less_mult_imp_div_less)
qed

text \<open>Both arms of the add back test, on the values alone.\<close>

lemma correction:
  fixes X V q :: nat and w t :: int
  assumes "X div V \<le> q" "q \<le> X div V + 1" "0 < V"
    and "int X - int q * int V = w + M * t" "0 \<le> w" "w < M" "int V \<le> M"
  shows "0 \<le> t \<Longrightarrow> q = X div V \<and> w = int (X mod V) \<and> t = 0"
    and "t < 0 \<Longrightarrow> q = X div V + 1 \<and> w + int V + M * t = int (X mod V)"
proof -
  have X: "int X = int (X div V) * int V + int (X mod V)"
    by (simp flip: of_nat_mult of_nat_add)
  have m: "int (X mod V) < int V" "0 \<le> int (X mod V)" using assms(3) by simp_all
  {
    assume t: "0 \<le> t"
    have "0 \<le> M * t" using assms(5,6) t by simp
    then have "0 \<le> int X - int q * int V" using assms(4,5) by linarith
    have q: "q = X div V"
    proof (rule ccontr)
      assume "q \<noteq> X div V"
      then have "int q = int (X div V) + 1" using assms(1,2) by simp
      then have "int X - int q * int V = int (X mod V) - int V"
        by (subst X) (simp add: algebra_simps)
      then show False using m \<open>0 \<le> int X - int q * int V\<close> by simp
    qed
    then have eq: "int (X mod V) = w + M * t" using X assms(4) by simp
    have "t = 0"
    proof (rule ccontr)
      assume "t \<noteq> 0"
      then have "M * 1 \<le> M * t" using t assms(5,6) by (intro mult_left_mono) simp_all
      then have "M \<le> M * t" by simp
      then show False using eq m assms(5,7) by linarith
    qed
    then show "q = X div V \<and> w = int (X mod V) \<and> t = 0" using q eq by simp
  next
    assume t: "t < 0"
    then have "M * t \<le> M * (- 1)" using assms(5,6) by (intro mult_left_mono) simp_all
    then have "int X - int q * int V < 0" using assms(4,6) by linarith
    have q: "q = X div V + 1"
    proof (rule ccontr)
      assume "q \<noteq> X div V + 1"
      then have "q = X div V" using assms(1,2) by simp
      then show False using X m \<open>int X - int q * int V < 0\<close> by simp
    qed
    then have "int X - int q * int V = int (X mod V) - int V"
      by (subst X) (simp add: algebra_simps)
    then show "q = X div V + 1 \<and> w + int V + M * t = int (X mod V)"
      using q assms(4) by simp
  }
qed

lemma int_quot_zero:
  fixes a r z m :: int
  assumes "a + z * m = r" "0 \<le> a" "a < m" "0 \<le> r" "r < m"
  shows "z = 0"
proof -
  have "(a + z * m) div m = z" using assms(2,3) by simp
  then show ?thesis using assms by simp
qed

text \<open>
  The estimate in terms of the two leading limbs of the divisor and the three leading limbs
  of the window.
\<close>

lemma qhat_estimate:
  fixes x0 x1 x2 v1 v2 :: u32 and X V P Xl Vl :: nat
  defines "num \<equiv> push_bit 32 (w64_of x0) OR w64_of x1"
  defines "qhat \<equiv> qhat_loop (w64_of v1) (w64_of v2) (w64_of x2)
    (num div w64_of v1) (num - num div w64_of v1 * w64_of v1)"
  assumes XP: "X = ((unat x0 * base32 + unat x1) * base32 + unat x2) * P + Xl" and Xl: "Xl < P"
    and VP: "V = (unat v1 * base32 + unat v2) * P + Vl" and Vl: "Vl < P"
    and v1: "0 < unat v1" and XB: "X div V < base32"
  shows "X div V \<le> unat qhat" "unat qhat < base32" "unat qhat \<le> X div V + 1"
proof -
  let ?B = base32
  have num: "unat num = unat x0 * ?B + unat x1"
    unfolding num_def by (subst unat_join32) simp_all
  have B: "0 < ?B" by (simp add: base32_def)
  have Vpos: "0 < V" using VP v1 Vl B by simp
  have XP': "X = (unat num * ?B + unat x2) * P + Xl" using XP num by simp
  have x0v1: "unat x0 \<le> unat v1"
  proof -
    have "P * ?B * (?B * unat x0) \<le> X" by (simp add: XP algebra_simps)
    also have "X < ?B * V" using XB Vpos by (simp add: div_less_iff_less_mult mult.commute)
    also have "?B * V < ?B * (P * (?B * (unat v1 + 1)))"
    proof (intro mult_strict_left_mono B)
      have "V < P * (1 + unat v2 + ?B * unat v1)" using Vl by (simp add: VP algebra_simps)
      also have "\<dots> \<le> P * (?B * (unat v1 + 1))"
        by (intro mult_le_mono2) (simp add: algebra_simps Suc_le_eq)
      finally show "V < P * (?B * (unat v1 + 1))" .
    qed
    finally have "P * ?B * (?B * unat x0) < P * ?B * (?B * (unat v1 + 1))"
      by (simp add: algebra_simps)
    then have "unat x0 < unat v1 + 1" by (simp only: mult_less_cancel1)
    then show ?thesis by simp
  qed
  have "X div V \<le> X div (unat v1 * ?B * P)"
    using v1 B Vl by (intro div_le_mono2) (simp_all add: VP algebra_simps)
  also have "\<dots> = X div (?B * P) div unat v1"
    unfolding div_mult2_eq[symmetric] by (simp only: mult.commute mult.left_commute)
  also have "X div (?B * P) = unat num"
  proof (rule div_nat_eqI)
    show "?B * P * unat num \<le> X" by (simp add: XP' algebra_simps)
    have "X < (unat num * ?B + (unat x2 + 1)) * P" using Xl by (simp add: XP' algebra_simps)
    also have "\<dots> \<le> (unat num * ?B + ?B) * P" by (intro mult_le_mono1) (simp add: Suc_le_eq)
    finally show "X < ?B * P * Suc (unat num)" by (simp add: algebra_simps)
  qed
  finally have est: "X div V \<le> unat num div unat v1" .
  have q: "X div V \<le> unat qhat \<and> unat qhat < ?B
      \<and> unat qhat * (unat v1 * ?B + unat v2) \<le> unat num * ?B + unat x2"
    unfolding qhat_def unat_w64_of[of v1, symmetric] unat_w64_of[of v2, symmetric]
  proof (rule qhat_loop_correct[where P = P and V = V])
    show "unat num < unat (w64_of v1) * ?B + ?B"
      using add_le_less_mono[OF mult_le_mono1[OF x0v1] unat_u32_less] by (simp only: num unat_w64_of)
    show "X < (unat num * ?B + unat x2 + 1) * P" using Xl by (simp add: XP' algebra_simps)
    show "unat (num div w64_of v1) * unat (w64_of v1)
        + unat (num - num div w64_of v1 * w64_of v1) = unat num"
      by (simp add: minus_div_mult_eq_mod unat_div unat_mod)
    show "unat (num - num div w64_of v1 * w64_of v1) < ?B"
      using v1 less_trans[OF mod_less_divisor unat_u32_less]
      by (simp add: minus_div_mult_eq_mod unat_mod)
    show "X div V \<le> unat (num div w64_of v1)" using est by (simp add: unat_div)
  qed (use v1 Vpos XB in \<open>simp_all add: VP\<close>)
  then show "X div V \<le> unat qhat" "unat qhat < base32" by simp_all
  show "unat qhat \<le> X div V + 1"
  proof (rule estimate_tight)
    show "V < (unat v1 * ?B + unat v2 + 1) * P" using Vl by (simp add: VP algebra_simps)
    show "(unat num * ?B + unat x2) * P \<le> X" by (simp add: XP')
  qed (use q v1 in \<open>simp_all add: VP algebra_simps\<close>)
qed

text \<open>Subtracting the product from the window, and the add back, as one lemma on values.\<close>

lemma window_update:
  fixes x0 :: u32 and X V :: nat
  assumes len: "length win = length vn" and q: "unat qhat < base32"
    and est: "X div V \<le> unat qhat" "unat qhat \<le> X div V + 1"
    and V: "V = lval vn" "0 < V" and X: "X = lval win + base32 ^ length vn * unat x0"
    and ms: "mulsub qhat 0 win vn = (w, borrow)"
    and t: "t = int (unat x0) - borrow" and ab: "addback 0 w vn = (w', c)"
  shows "length w = length vn" "length w' = length vn"
    "0 \<le> t \<Longrightarrow> unat (lo32 qhat) = X div V \<and> lval w = X mod V \<and> t = 0"
    "t < 0 \<Longrightarrow> unat (lo32 qhat - 1) = X div V \<and> lval w' = X mod V \<and> word_of_int t + lo32 c = (0 :: u32)"
proof -
  let ?M = "base32 ^ length vn"
  have w: "length w = length vn"
    "int (lval w) - int base32 ^ length vn * borrow = int (lval win) - int (unat qhat) * int V"
    using mulsub_correct[OF len q ms] len by (simp_all add: V)
  show "length w = length vn" by (rule w(1))
  have split: "int X - int (unat qhat) * int V = int (lval w) + int ?M * t"
    using w(2) by (simp add: X t algebra_simps)
  have wM: "int (lval w) < int ?M" using l32.val_bound[of w] w(1) by (simp only: of_nat_less_iff)
  have VM: "V < ?M" unfolding V(1) by (rule l32.val_bound)
  then have "int V \<le> int ?M" by (simp only: of_nat_le_iff)
  note corr = correction[OF est V(2) split of_nat_0_le_iff wM this]
  have lo: "unat (lo32 qhat) = unat qhat" using q by (simp add: unat_lo32)
  then show "0 \<le> t \<Longrightarrow> unat (lo32 qhat) = X div V \<and> lval w = X mod V \<and> t = 0"
    using corr(1) by simp
  have w': "length w' = length vn" "lval w' + ?M * unat c = lval w + V"
    using addback_correct[OF w(1) _ ab] w(1) by (simp_all add: V)
  show "length w' = length vn" by (rule w'(1))
  assume neg: "t < 0"
  have w'M: "int (lval w') < int ?M"
    using l32.val_bound[of w'] w'(1) by (simp only: of_nat_less_iff)
  have "X mod V < V" using V(2) by simp
  then have rM: "int (X mod V) < int ?M" using VM by (simp only: of_nat_less_iff)
  have "int (lval w' + ?M * unat c) = int (lval w + V)" by (simp only: w'(2))
  then have "int (lval w') + int ?M * int (unat c) = int (lval w) + int V"
    by (simp only: of_nat_add of_nat_mult)
  with corr(2)[OF neg] have eq: "int (lval w') + (t + int (unat c)) * int ?M = int (X mod V)"
    by (simp add: algebra_simps)
  have z: "t + int (unat c) = 0"
    by (rule int_quot_zero[OF eq of_nat_0_le_iff w'M of_nat_0_le_iff rM])
  have "lo32 c = word_of_int (int (unat c))" by (simp add: lo32_def)
  then have "word_of_int t + lo32 c = (word_of_int (t + int (unat c)) :: u32)"
    by (simp only: of_int_add)
  then have c0: "word_of_int t + lo32 c = (0 :: u32)" by (simp only: z) simp
  have "unat (lo32 qhat) = X div V + 1" using corr(2)[OF neg] lo by simp
  then have "unat (lo32 qhat - 1) = X div V"
    by (metis add_diff_cancel_right' unat_0 unat_minus_one zero_neq_one add_is_0)
  then show "unat (lo32 qhat - 1) = X div V \<and> lval w' = X mod V \<and> word_of_int t + lo32 c = (0 :: u32)"
    using eq unfolding z by (simp add: c0)
qed

lemma divmnu_step_correct:
  fixes xl vl pre post :: "u32 list"
  assumes len: "length xl = k" "length vl = k" "length pre = j"
    and un: "un = pre @ xl @ [x2, x1, x0] @ post" and vn: "vn = vl @ [v2, v1]"
    and v1: "v1 \<noteq> 0" and inv: "lval (drop (Suc j) un) < lval vn"
    and step: "divmnu_step (k + 2) vn un j = (qj, un')"
  defines "X \<equiv> lval (drop j un)" and "V \<equiv> lval vn"
  shows "unat qj = X div V \<and> length un' = length un \<and> take j un' = pre
    \<and> lval (drop j un') = X mod V"
proof -
  let ?P = "base32 ^ k"
  have VP: "V = (unat v1 * base32 + unat v2) * ?P + lval vl"
    using len by (simp add: V_def vn l32.val_append algebra_simps)
  have dj: "drop j un = xl @ [x2, x1, x0] @ post" using len un by simp
  obtain y ys where y: "drop j un = y # ys" "drop (Suc j) un = ys"
    by (metis dj append_is_Nil_conv drop_Suc list.distinct(1) list.exhaust_sel tl_drop)
  have R: "lval ys < V" using inv y by (simp add: V_def)
  have XB: "X div V < base32" using drop_digit_bound[OF _ R] y by (simp add: X_def)
  have "post = drop (k + 2) ys"
    using dj y len by (metis add_2_eq_Suc' append_Cons append_Nil append_assoc drop_Suc_Cons
        append_eq_conv_conj length_append length_Cons list.size(3) numeral_2_eq_2 add_Suc_right)
  moreover have "V < base32 ^ (k + 2)"
    using l32.val_bound[of vn] len by (simp add: V_def vn)
  ultimately have post0: "lval post = 0" using R by (simp add: l32.val_drop)
  have XP: "X = ((unat x0 * base32 + unat x1) * base32 + unat x2) * ?P + lval xl"
    using len post0 by (simp add: X_def dj l32.val_append algebra_simps)
  have low: "lval xl < ?P" "lval vl < ?P"
    using l32.val_bound[of xl] l32.val_bound[of vl] len by simp_all
  have "0 < unat v1" using v1 by (simp add: unat_gt_0)
  note est = qhat_estimate[OF XP low(1) VP low(2) this XB]
  define win where "win = xl @ [x2, x1]"
  define num where "num = push_bit 32 (w64_of x0) OR w64_of x1"
  define qhat where "qhat = qhat_loop (w64_of v1) (w64_of v2) (w64_of x2)
    (num div w64_of v1) (num - num div w64_of v1 * w64_of v1)"
  obtain w borrow where ms: "mulsub qhat 0 win vn = (w, borrow)"
    by (cases "mulsub qhat 0 win vn")
  obtain w' c where ab: "addback 0 w vn = (w', c)" by (cases "addback 0 w vn")
  define t where "t = int (unat x0) - borrow"
  have "length win = length vn" "0 < V" using len R by (simp_all add: win_def vn)
  moreover have "X = lval win + base32 ^ length vn * unat x0"
    using len by (simp add: XP win_def vn l32.val_append algebra_simps)
  ultimately have upd: "length w = length vn" "length w' = length vn"
    "0 \<le> t \<Longrightarrow> unat (lo32 qhat) = X div V \<and> lval w = X mod V \<and> t = 0"
    "t < 0 \<Longrightarrow> unat (lo32 qhat - 1) = X div V \<and> lval w' = X mod V \<and> word_of_int t + lo32 c = (0 :: u32)"
    using est ms ab window_update[of win vn qhat X V x0 w borrow t w' c]
    unfolding num_def[symmetric] qhat_def[symmetric] t_def[symmetric] V_def by blast+
  have parts: "take (k + 2) (drop j un) = win" "un ! (j + (k + 2)) = x0"
    "un ! (j + (k + 2) - 1) = x1" "un ! (j + (k + 2) - 2) = x2"
    "drop (j + (k + 2) + 1) un = post" "take j un = pre" "vn ! (k + 2 - 1) = v1"
    "vn ! (k + 2 - 2) = v2"
    using len by (simp_all add: un vn win_def nth_append)
  have "divmnu_step (k + 2) vn un j =
      (if t < 0 then (lo32 qhat - 1, pre @ w' @ [word_of_int t + lo32 c] @ post)
       else (lo32 qhat, pre @ w @ [word_of_int t] @ post))"
    using ms ab unfolding divmnu_step_def parts
    by (simp add: Let_def num_def[symmetric] qhat_def[symmetric] t_def)
  then show ?thesis
    using step upd len post0 by (cases "t < 0") (auto simp: un vn l32.val_append)
qed

section \<open>The loop and the normalisation\<close>

lemma divmnu_loop_correct:
  assumes "length vn = k + 2" "vn ! (k + 1) \<noteq> 0" "J + k + 2 \<le> length un"
    and "lval (drop J un) < lval vn" "divmnu_loop (k + 2) vn un J = (q, un')"
  shows "length q = J \<and> length un' = length un
    \<and> lval q = lval un div lval vn \<and> lval un' = lval un mod lval vn"
  using assms(3-5)
proof (induction J arbitrary: un q)
  case (Suc j)
  let ?V = "lval vn"
  obtain qj un1 where st: "divmnu_step (k + 2) vn un j = (qj, un1)"
    by (cases "divmnu_step (k + 2) vn un j")
  obtain q' where lp: "divmnu_loop (k + 2) vn un1 j = (q', un')" and q: "q = q' @ [qj]"
    using Suc.prems(3) st by (auto split: prod.splits)
  have vn: "vn = take k vn @ [vn ! k, vn ! (k + 1)]"
    using assms(1) by (simp add: Cons_nth_drop_Suc list_eq_iff_nth_eq nth_append less_Suc_eq)
  define rest where "rest = drop j un"
  have "3 + k \<le> length rest" using Suc.prems(1) by (simp add: rest_def)
  then have "drop k rest = [rest ! k, rest ! (k + 1), rest ! (k + 2)] @ drop (k + 3) rest"
    by (simp add: Cons_nth_drop_Suc eval_nat_numeral)
  then have un: "un = take j un @ take k rest @ [rest ! k, rest ! (k + 1), rest ! (k + 2)]
      @ drop (k + 3) rest"
    by (metis append_assoc append_take_drop_id rest_def)
  have step: "unat qj = lval rest div ?V \<and> length un1 = length un \<and> take j un1 = take j un
      \<and> lval (drop j un1) = lval rest mod ?V"
    unfolding rest_def
    by (rule divmnu_step_correct[OF _ _ _ un vn assms(2) Suc.prems(2) st])
      (use Suc.prems(1) assms(1) in \<open>simp_all add: rest_def\<close>)
  have V: "0 < ?V" using Suc.prems(2) by simp
  have IH: "length q' = j \<and> length un' = length un1 \<and> lval q' = lval un1 div ?V
      \<and> lval un' = lval un1 mod ?V"
    by (rule Suc.IH[OF _ _ lp]) (use Suc.prems(1) step V in simp_all)
  have len: "length (take j un) = j" using Suc.prems(1) by simp
  have split: "lval us = lval (take j us) + base32 ^ j * lval (drop j us)"
    if "length us = length un" for us
    using that Suc.prems(1) l32.val_append[of "take j us" "drop j us"] by simp
  have "lval un = lval (take j un) + base32 ^ j * (lval rest mod ?V + ?V * (lval rest div ?V))"
    using split[of un] by (simp add: rest_def)
  then have "lval un = lval (take j un) + base32 ^ j * (lval rest mod ?V) + base32 ^ j * unat qj * ?V"
    using step by (simp only: distrib_left ac_simps)
  then have "lval un = lval un1 + base32 ^ j * unat qj * ?V"
    using split[of un1] step by simp
  then have "lval un div ?V = lval un1 div ?V + base32 ^ j * unat qj"
    "lval un mod ?V = lval un1 mod ?V" using V by simp_all
  then show ?case using IH step q by (simp add: l32.val_append)
qed simp

lemma countl_zero_shift: "unat (x :: u32) * 2 ^ std_countl_zero x < 2 ^ 32"
proof -
  have "unat x * 2 ^ std_countl_zero x < 2 ^ (32 - std_countl_zero x) * 2 ^ std_countl_zero x"
    using std_countl_zero_bound[of x] by simp
  then show ?thesis using std_countl_zero_le[of x] by (simp flip: power_add)
qed

lemma unat_shl_or:
  fixes w :: u64
  assumes "k \<le> 32" "unat w < 2 ^ k"
  shows "unat (lo32 (push_bit k (w64_of h) OR w)) = unat w + unat h * 2 ^ k mod base32"
proof -
  have h: "unat h < 2 ^ 32" using unat_u32_less[of h] unfolding base32_def .
  have "2 ^ k * unat h < 2 ^ k * 2 ^ 32" using h by simp
  also have "\<dots> \<le> 2 ^ 32 * 2 ^ 32" using assms(1) by (intro mult_le_mono1 power_increasing) simp_all
  also have "\<dots> = 2 ^ 64" by simp
  finally have "push_bit k (unat h) < 2 ^ 64" by (simp add: push_bit_eq_mult mult.commute)
  then have "unat (push_bit k (w64_of h) OR w) = push_bit k (unat h) OR unat w"
    by (simp add: unsigned_or_eq unsigned_push_bit_eq take_bit_nat_eq_self)
  also have "\<dots> = unat w + 2 ^ k * unat h" by (rule or_push_bit_nat[OF assms(2)])
  finally have lo: "unat (lo32 (push_bit k (w64_of h) OR w)) = (unat w + 2 ^ k * unat h) mod base32"
    by (simp add: unat_lo32)
  have B: "base32 = 2 ^ k * 2 ^ (32 - k)"
    using assms(1) by (simp add: base32_def flip: power_add)
  have "(unat w + 2 ^ k * unat h) mod (2 ^ k * 2 ^ (32 - k))
      = 2 ^ k * ((unat w + 2 ^ k * unat h) div 2 ^ k mod 2 ^ (32 - k)) + (unat w + 2 ^ k * unat h) mod 2 ^ k"
    by (rule mod_mult2_eq)
  also have "\<dots> = unat w + unat h * 2 ^ k mod (2 ^ k * 2 ^ (32 - k))"
    using assms(2) by (simp add: mult.commute mult_mod_left)
  finally show ?thesis unfolding lo B .
qed

lemma div_pow_less:
  assumes "s \<le> 32" shows "unat (x :: u32) div 2 ^ (32 - s) < 2 ^ s"
proof (rule less_mult_imp_div_less)
  have "2 ^ s * 2 ^ (32 - s) = (2 :: nat) ^ 32" using assms by (simp flip: power_add)
  then show "unat x < 2 ^ s * 2 ^ (32 - s)"
    using unat_u32_less[of x] by (simp add: base32_def del: unat_u32_less)
qed

lemma unat_shl_limb: "s < 32 \<Longrightarrow> unat (lo32 (push_bit s (w64_of x))) = unat x * 2 ^ s mod base32"
  using unat_shl_or[of s 0 x] by simp

lemma unat_shr_w64: "unat (drop_bit s (w64_of x)) = unat x div 2 ^ s"
  unfolding unat_drop_bit_eq unat_w64_of by (rule drop_bit_eq_div)

lemma unat_norm_limb:
  "s < 32 \<Longrightarrow> unat (norm_limb s hi lo) = unat hi * 2 ^ s mod base32 + unat lo div 2 ^ (32 - s)"
  unfolding norm_limb_def using unat_shl_or[of s "drop_bit (32 - s) (w64_of lo)" hi] div_pow_less[of s lo]
  by (simp add: unat_shr_w64)

lemma unat_denorm_limb:
  "s < 32 \<Longrightarrow> unat (lo32 (drop_bit s (w64_of lo) OR push_bit (32 - s) (w64_of hi)))
    = unat lo div 2 ^ s + unat hi * 2 ^ (32 - s) mod base32"
  using unat_shl_or[of "32 - s" "drop_bit s (w64_of lo)" hi] div_pow_less[of "32 - s" lo]
  by (simp add: unat_shr_w64 or.commute)

lemma limb_shift_split:
  assumes "s \<le> 32"
  shows "unat (x :: u32) * 2 ^ s mod base32 + base32 * (unat x div 2 ^ (32 - s)) = unat x * 2 ^ s"
proof -
  have B: "base32 = 2 ^ (32 - s) * 2 ^ s" using assms by (simp add: base32_def flip: power_add)
  have "unat x * 2 ^ s div base32 = unat x div 2 ^ (32 - s)" unfolding B by simp
  then show ?thesis by (metis mod_mult_div_eq)
qed

lemma norm_limbs_correct:
  assumes "s < 32" "n \<le> length xs" "0 < n"
  shows "length (norm_limbs s xs n) = n"
    and "lval (norm_limbs s xs n) + base32 ^ n * (unat (xs ! (n - 1)) div 2 ^ (32 - s))
      = lval (take n xs) * 2 ^ s"
proof -
  show "length (norm_limbs s xs n) = n" by (simp add: norm_limbs_def)
  have "lval (norm_limbs s xs (Suc k)) + base32 ^ Suc k * (unat (xs ! k) div 2 ^ (32 - s))
      = lval (take (Suc k) xs) * 2 ^ s" if "k < length xs" for k
    using that
  proof (induction k)
    case 0
    have "take (Suc 0) xs = [xs ! 0]" using 0 by (cases xs) simp_all
    then show ?case using limb_shift_split[of s "xs ! 0"] assms(1)
      by (simp add: norm_limbs_def unat_shl_limb)
  next
    case (Suc k)
    have "norm_limbs s xs (Suc (Suc k)) = norm_limbs s xs (Suc k) @ [norm_limb s (xs ! Suc k) (xs ! k)]"
      by (simp add: norm_limbs_def)
    then have "lval (norm_limbs s xs (Suc (Suc k)))
        + base32 ^ Suc (Suc k) * (unat (xs ! Suc k) div 2 ^ (32 - s))
      = (lval (norm_limbs s xs (Suc k)) + base32 ^ Suc k * (unat (xs ! k) div 2 ^ (32 - s)))
        + base32 ^ Suc k * (unat (xs ! Suc k) * 2 ^ s mod base32
          + base32 * (unat (xs ! Suc k) div 2 ^ (32 - s)))"
      using assms(1) by (simp add: l32.val_append unat_norm_limb norm_limbs_def algebra_simps)
    also have "\<dots> = (lval (take (Suc k) xs) + base32 ^ Suc k * unat (xs ! Suc k)) * 2 ^ s"
      using Suc limb_shift_split[of s "xs ! Suc k"] assms(1) by (simp add: algebra_simps)
    also have "\<dots> = lval (take (Suc (Suc k)) xs) * 2 ^ s"
      using Suc.prems by (simp add: take_Suc_conv_app_nth[of "Suc k"] l32.val_append)
    finally show ?case .
  qed
  from this[of "n - 1"] show "lval (norm_limbs s xs n)
      + base32 ^ n * (unat (xs ! (n - 1)) div 2 ^ (32 - s)) = lval (take n xs) * 2 ^ s"
    using assms by simp
qed

lemma norm_dividend_correct:
  assumes "s < 32" "length u = m" "0 < m"
  shows "length (norm_dividend s u m) = m + 1" "lval (norm_dividend s u m) = lval u * 2 ^ s"
proof -
  have "unat (lo32 (drop_bit (32 - s) (w64_of x))) = unat x div 2 ^ (32 - s)" for x
  proof -
    have "unat x div 2 ^ (32 - s) \<le> unat x" by simp
    then have "unat x div 2 ^ (32 - s) < base32" by (rule le_less_trans) simp
    then show ?thesis by (simp add: unat_lo32 unat_shr_w64)
  qed
  then show "length (norm_dividend s u m) = m + 1" "lval (norm_dividend s u m) = lval u * 2 ^ s"
    using norm_limbs_correct[of s m u] assms by (simp_all add: norm_dividend_def l32.val_append)
qed

lemma denorm_correct:
  assumes "s < 32" "n < length un"
  shows "2 ^ s * lval (denorm s un n) + unat (un ! 0) mod 2 ^ s
    = lval (take n un) + base32 ^ n * (unat (un ! n) mod 2 ^ s)"
  using assms(2)
proof (induction n)
  case 0
  then show ?case by (simp add: denorm_def)
next
  case (Suc n)
  let ?d = "lo32 (drop_bit s (w64_of (un ! n)) OR push_bit (32 - s) (w64_of (un ! Suc n)))"
  have B: "base32 = 2 ^ (32 - s) * 2 ^ s" using assms(1) by (simp add: base32_def flip: power_add)
  have "2 ^ s * (unat (un ! Suc n) * 2 ^ (32 - s) mod base32) = base32 * (unat (un ! Suc n) mod 2 ^ s)"
    by (simp add: B mult_mod_right mult.commute mult.left_commute)
  then have d: "2 ^ s * unat ?d + unat (un ! n) mod 2 ^ s
      = unat (un ! n) + base32 * (unat (un ! Suc n) mod 2 ^ s)"
    using assms(1) by (simp add: unat_denorm_limb distrib_left)
  have "denorm s un (Suc n) = denorm s un n @ [?d]" by (simp add: denorm_def)
  then have "2 ^ s * lval (denorm s un (Suc n)) + unat (un ! 0) mod 2 ^ s
      = (2 ^ s * lval (denorm s un n) + unat (un ! 0) mod 2 ^ s) + base32 ^ n * (2 ^ s * unat ?d)"
    by (simp add: l32.val_append denorm_def algebra_simps)
  also have "\<dots> = lval (take n un) + base32 ^ n * (2 ^ s * unat ?d + unat (un ! n) mod 2 ^ s)"
    using Suc by (simp add: algebra_simps)
  also have "\<dots> = lval (take (Suc n) un) + base32 ^ Suc n * (unat (un ! Suc n) mod 2 ^ s)"
    unfolding d using Suc.prems by (simp add: take_Suc_conv_app_nth l32.val_append algebra_simps)
  finally show ?case .
qed


section \<open>Correctness\<close>

lemma lval_top: "n < length v \<Longrightarrow> v ! n \<noteq> 0 \<Longrightarrow> base32 ^ n \<le> lval v"
proof -
  assume n: "n < length v" and nz: "v ! n \<noteq> 0"
  have "unat (v ! n) \<noteq> 0" using nz by (simp add: unat_eq_zero)
  then have "lval v div base32 ^ n \<noteq> 0" using l32.val_nth[OF n] by (metis mod_0)
  then show ?thesis by (simp add: div_eq_0_iff not_less)
qed

lemma divmnu_general_correct:
  assumes len: "length u = m" "length v = k + 2" "k + 2 \<le> m" and top: "v ! (k + 1) \<noteq> 0"
    and run: "divmnu u v m (k + 2) = (q, r)"
  shows "length q = m - (k + 2) + 1 \<and> length r = k + 2
    \<and> lval q = lval u div lval v \<and> lval r = lval u mod lval v"
proof -
  define s where "s = std_countl_zero (v ! (k + 1))"
  define vn where "vn = norm_limbs s v (k + 2)"
  define un where "un = norm_dividend s u m"
  let ?J = "m - (k + 2) + 1" and ?V = "lval v * 2 ^ s"
  obtain un' where lp: "divmnu_loop (k + 2) vn un ?J = (q, un')" and r: "r = denorm s un' (k + 2)"
    using run by (auto simp: divmnu_def Let_def s_def vn_def un_def split: prod.splits)
  have s: "s < 32" "unat (v ! (k + 1)) * 2 ^ s < base32"
    using std_countl_zero_less[OF top] countl_zero_shift by (simp_all add: s_def base32_def)
  then have "unat (v ! (k + 1)) * 2 ^ s < 2 ^ (32 - s) * 2 ^ s"
    by (simp add: base32_def flip: power_add)
  then have vn: "length vn = k + 2" "lval vn = ?V"
    using norm_limbs_correct[of s "k + 2" v] s(1) len(2) by (simp_all add: vn_def)
  have un: "length un = m + 1" "lval un = lval u * 2 ^ s"
    using norm_dividend_correct[OF s(1) len(1)] len(3) by (simp_all add: un_def)
  have "vn ! (k + 1) = norm_limb s (v ! (k + 1)) (v ! k)" by (simp add: vn_def norm_limbs_def nth_append)
  moreover have "0 < unat (norm_limb s (v ! (k + 1)) (v ! k))"
    using s top by (simp add: unat_norm_limb unat_gt_0)
  ultimately have vtop: "vn ! (k + 1) \<noteq> 0" by (simp add: unat_gt_0)
  have V: "base32 ^ (k + 1) \<le> lval v" using lval_top[OF _ top] len(2) by simp
  have "lval un < base32 ^ m * 2 ^ s" using l32.val_bound[of u] len(1) by (simp add: un)
  also have "base32 ^ m = base32 ^ ?J * base32 ^ (k + 1)"
  proof -
    have "m = ?J + (k + 1)" using len(3) by simp
    then show ?thesis by (metis power_add)
  qed
  finally have "lval un < base32 ^ ?J * (base32 ^ (k + 1) * 2 ^ s)" by (simp only: mult.assoc)
  then have "lval un div base32 ^ ?J < base32 ^ (k + 1) * 2 ^ s"
    by (intro less_mult_imp_div_less) (simp only: mult.commute)
  also have "\<dots> \<le> ?V" using V by (rule mult_le_mono1)
  finally have "lval (drop ?J un) < lval vn" by (simp add: l32.val_drop vn)
  moreover have "?J + k + 2 \<le> length un" using len(3) un(1) by simp
  ultimately have res: "length q = ?J" "length un' = m + 1" "lval q = lval un div ?V"
    "lval un' = lval un mod ?V"
    using divmnu_loop_correct[OF vn(1) vtop _ _ lp] un(1) vn(2) by simp_all
  let ?R = "lval u mod lval v"
  have R: "lval un' = 2 ^ s * ?R" by (simp add: res un mult_mod_left mult.commute)
  have "0 < base32 ^ (k + 1)" by (simp add: base32_def)
  from less_le_trans[OF this V] have "0 < ?V" by simp
  then have "lval un' < lval vn" unfolding res(4) vn(2) by (rule mod_less_divisor)
  also have "\<dots> < base32 ^ (k + 2)" using l32.val_bound[of vn] vn(1) by simp
  finally have small: "lval un' < base32 ^ (k + 2)" .
  have idx: "k + 2 < length un'" "0 < length un'" using res(2) len(3) by simp_all
  have hi: "unat (un' ! (k + 2)) = 0" using l32.val_nth[OF idx(1)] small by simp
  have "(2 :: nat) ^ s dvd base32" using s(1) unfolding base32_def by (intro le_imp_power_dvd) simp
  then have "unat (un' ! 0) mod 2 ^ s = lval un' mod 2 ^ s"
    using l32.val_nth[OF idx(2)] by (simp add: mod_mod_cancel)
  then have lo: "unat (un' ! 0) mod 2 ^ s = 0" by (simp add: R)
  have "2 ^ s * lval r = 2 ^ s * ?R"
    using denorm_correct[OF s(1) idx(1)] small
    unfolding r lo hi l32.val_take by (simp add: R del: add_2_eq_Suc')
  then have "lval r = ?R" by simp
  moreover have "length r = k + 2" by (simp add: r denorm_def)
  ultimately show ?thesis using res by (simp add: un)
qed

lemma divmnu_result:
  assumes "length u = m" "length v = n" "0 < n" "n \<le> m" "v ! (n - 1) \<noteq> 0"
    and "divmnu u v m n = (q, r)"
  shows "length q = m - n + 1 \<and> length r = n
    \<and> lval q = lval u div lval v \<and> lval r = lval u mod lval v"
proof (cases "n = 1")
  case True
  obtain k where k: "div_short (w64_of (v ! 0)) u = (q, k)" "r = [lo32 k]"
    using assms True by (auto simp: divmnu_def Let_def split: prod.splits)
  have v: "lval v = unat (v ! 0)" using assms(2) True by (cases v) simp_all
  have nz: "0 < unat (v ! 0)" using assms(5) True by (simp add: unat_gt_0)
  have "unat k < base32"
    using div_short_correct[OF _ _ k(1)] nz less_trans[OF mod_less_divisor unat_u32_less] by simp
  then show ?thesis
    using div_short_correct[OF _ _ k(1)] nz k(2) assms True by (simp add: v unat_lo32)
next
  case False
  then obtain k where "n = k + 2" using assms(3) by (metis One_nat_def Suc_1 add_2_eq_Suc' less_Suc_eq_0_disj not0_implies_Suc gr0_conv_Suc)
  then show ?thesis using divmnu_general_correct[of u m v k q r] assms by simp
qed

end
