(* ===== verification/APIntDefs.thy ===== *)
theory APIntDefs
  imports APIntLimbs APIntDivmnu "HOL-Library.Signed_Division"
begin

text \<open>
  \<^verbatim>\<open>foptim::APInt\<close> (\<^verbatim>\<open>src/src/utils/APInt.hpp\<close>, \<^verbatim>\<open>APInt.cpp\<close>): the type and every operation,
  in the order of the source. A value is its width \<open>ap_bits\<close> and the word array
  \<^verbatim>\<open>data()\<close>: one word where the code stores it inline (\<^verbatim>\<open>val_\<close>), \<open>words_for ap_bits\<close> words where
  it is on the heap (\<^verbatim>\<open>big_\<close>). The \<^verbatim>\<open>u32\<close> width is a number, its wrap-around is written
  where the code adds to it. \<^verbatim>\<open>i64\<close> and \<^verbatim>\<open>i128\<close> values are integers. \<^verbatim>\<open>ASSERT\<close> is
  compiled out unless \<^verbatim>\<open>ASSERT_ENABLED\<close> is defined; the asserted conditions are
  hypotheses of the theorems.
\<close>

section \<open>Representation\<close>

record apint =
  ap_bits :: nat
  ap_words :: "u64 list"

definition u32_add :: "nat \<Rightarrow> nat \<Rightarrow> nat" where "u32_add a b = (a + b) mod 2 ^ 32"
definition u32_mult :: "nat \<Rightarrow> nat \<Rightarrow> nat" where "u32_mult a b = (a * b) mod 2 ^ 32"

definition words_for :: "nat \<Rightarrow> nat" where
  "words_for bits = u32_add bits 63 div 64"

definition mask64 :: "nat \<Rightarrow> u64" where
  "mask64 bits = drop_bit (64 - bits) (NOT 0)"

definition is_single :: "apint \<Rightarrow> bool" where
  "is_single a \<longleftrightarrow> ap_bits a \<le> 64"

definition num_words :: "apint \<Rightarrow> nat" where
  "num_words a = words_for (ap_bits a)"

abbreviation ap_val :: "apint \<Rightarrow> u64" where "ap_val a \<equiv> ap_words a ! 0"

definition get128 :: "apint \<Rightarrow> u128" where
  "get128 a = wide (ap_words a ! 0) OR push_bit 64 (wide (ap_words a ! 1))"

definition clear_unused :: "apint \<Rightarrow> apint" where
  "clear_unused a =
     (let rem = ap_bits a mod 64
      in if rem \<noteq> 0
         then a\<lparr>ap_words := (ap_words a)[num_words a - 1 := ap_words a ! (num_words a - 1) AND mask64 rem]\<rparr>
         else a)"

definition sext64 :: "apint \<Rightarrow> int" where
  "sext64 a = (let sh = 64 - ap_bits a in drop_bit sh (sint (push_bit sh (ap_val a))))"

text \<open>The constructor with \<^verbatim>\<open>ZeroTag\<close>, and \<^verbatim>\<open>APInt(u32 bits, u64 value)\<close>.\<close>

definition zero_tag :: "nat \<Rightarrow> apint" where
  "zero_tag bits = \<lparr>ap_bits = bits, ap_words = (if bits \<le> 64 then [0] else replicate (words_for bits) 0)\<rparr>"

definition mk_ap :: "nat \<Rightarrow> u64 \<Rightarrow> apint" where
  "mk_ap bits value =
     (if bits \<le> 64 then \<lparr>ap_bits = bits, ap_words = [value AND mask64 bits]\<rparr>
      else \<lparr>ap_bits = bits, ap_words = (replicate (words_for bits) 0)[0 := value]\<rparr>)"

definition from_u64 :: "nat \<Rightarrow> u64 \<Rightarrow> apint" where "from_u64 bits v = mk_ap bits v"
definition zero_ap :: "nat \<Rightarrow> apint" where "zero_ap bits = mk_ap bits 0"

section \<open>Constructors from other integers\<close>

definition from_i64 :: "nat \<Rightarrow> int \<Rightarrow> apint" where
  "from_i64 bits v =
     (let r = zero_tag bits
      in clear_unused (r\<lparr>ap_words := word_of_int v #
           map (\<lambda>i. if v < 0 then NOT 0 else 0) [1..<num_words r]\<rparr>))"

definition from_u128 :: "nat \<Rightarrow> u128 \<Rightarrow> apint" where
  "from_u128 bits v =
     (let r = zero_tag bits;
          d = (ap_words r)[0 := lo64 v];
          d' = (if 1 < num_words r then d[1 := hi64 v] else d)
      in clear_unused (r\<lparr>ap_words := d'\<rparr>))"

definition from_i128 :: "nat \<Rightarrow> int \<Rightarrow> apint" where
  "from_i128 bits v =
     (let r = zero_tag bits; n = num_words r;
          d = (ap_words r)[0 := word_of_int v];
          d1 = (if 1 < n then d[1 := hi64 (word_of_int v)] else d);
          d2 = take 2 d1 @ map (\<lambda>i. if v < 0 then NOT 0 else 0) [2..<n]
      in clear_unused (r\<lparr>ap_words := d2\<rparr>))"

definition from_words :: "nat \<Rightarrow> u64 list \<Rightarrow> nat \<Rightarrow> apint" where
  "from_words bits ws count =
     (let r = zero_tag bits; n = min count (num_words r)
      in clear_unused (r\<lparr>ap_words := take n ws @ drop n (ap_words r)\<rparr>))"

definition all_ones :: "nat \<Rightarrow> apint" where
  "all_ones bits =
     (let r = zero_tag bits
      in clear_unused (r\<lparr>ap_words := replicate (num_words r) (NOT 0)\<rparr>))"

section \<open>Single bits, conversions and counts\<close>

definition bit_ap :: "apint \<Rightarrow> nat \<Rightarrow> bool" where
  "bit_ap a i \<longleftrightarrow> drop_bit (i mod 64) (ap_words a ! (i div 64)) AND 1 \<noteq> 0"

definition set_bit_ap :: "apint \<Rightarrow> nat \<Rightarrow> bool \<Rightarrow> apint" where
  "set_bit_ap a i v =
     (let w = ap_words a ! (i div 64); m = push_bit (i mod 64) 1
      in a\<lparr>ap_words := (ap_words a)[i div 64 := (if v then w OR m else w AND NOT m)]\<rparr>)"

definition is_neg :: "apint \<Rightarrow> bool" where
  "is_neg a \<longleftrightarrow> bit_ap a (ap_bits a - 1)"

definition to_u64 :: "apint \<Rightarrow> u64" where
  "to_u64 a = (if is_single a then ap_val a else ap_words a ! 0)"

definition to_i64 :: "apint \<Rightarrow> int" where
  "to_i64 a = (if is_single a then sext64 a else sint (ap_words a ! 0))"

definition to_u128 :: "apint \<Rightarrow> u128" where
  "to_u128 a = (if is_single a then wide (ap_val a) else get128 a)"

definition to_i128 :: "apint \<Rightarrow> int" where
  "to_i128 a =
     (if 128 \<le> ap_bits a then sint (to_u128 a)
      else (let sh = 128 - ap_bits a in drop_bit sh (sint (push_bit sh (to_u128 a)))))"

definition is_zero_wide :: "apint \<Rightarrow> bool" where
  "is_zero_wide a \<longleftrightarrow> list_all (\<lambda>i. ap_words a ! i = 0) [0..<num_words a]"

definition is_zero :: "apint \<Rightarrow> bool" where
  "is_zero a \<longleftrightarrow> (if is_single a then ap_val a = 0 else is_zero_wide a)"

definition is_one :: "apint \<Rightarrow> bool" where
  "is_one a \<longleftrightarrow> ap_words a ! 0 = 1 \<and> list_all (\<lambda>i. ap_words a ! i = 0) [1..<num_words a]"

definition popcount :: "apint \<Rightarrow> nat" where
  "popcount a = sum_list (map (\<lambda>i. std_popcount (ap_words a ! i)) [0..<num_words a])"

definition is_all_ones :: "apint \<Rightarrow> bool" where "is_all_ones a \<longleftrightarrow> popcount a = ap_bits a"
definition is_pow2 :: "apint \<Rightarrow> bool" where "is_pow2 a \<longleftrightarrow> popcount a = 1"

text \<open>The loops of \<^verbatim>\<open>clz\<close> and \<^verbatim>\<open>ctz\<close>, from the top word down and from word 0 up.\<close>

fun clz_loop :: "u64 list \<Rightarrow> nat \<Rightarrow> nat \<Rightarrow> nat \<Rightarrow> nat \<Rightarrow> nat" where
  "clz_loop d bits n c 0 = bits"
| "clz_loop d bits n c (Suc i) =
     (if d ! i \<noteq> 0 then c + std_countl_zero (d ! i) - (n * 64 - bits)
      else clz_loop d bits n (c + 64) i)"

definition clz :: "apint \<Rightarrow> nat" where
  "clz a = clz_loop (ap_words a) (ap_bits a) (num_words a) 0 (num_words a)"

fun ctz_loop :: "u64 list \<Rightarrow> nat \<Rightarrow> nat \<Rightarrow> nat" where
  "ctz_loop [] i bits = bits"
| "ctz_loop (w # ws) i bits =
     (if w \<noteq> 0 then i * 64 + std_countr_zero w else ctz_loop ws (Suc i) bits)"

definition ctz :: "apint \<Rightarrow> nat" where
  "ctz a = ctz_loop (take (num_words a) (ap_words a)) 0 (ap_bits a)"

definition active_bits :: "apint \<Rightarrow> nat" where "active_bits a = ap_bits a - clz a"
definition log2_ap :: "apint \<Rightarrow> nat" where "log2_ap a = active_bits a - 1"
definition fits_u64 :: "apint \<Rightarrow> bool" where "fits_u64 a \<longleftrightarrow> active_bits a \<le> 64"

section \<open>Arithmetic and bitwise operators\<close>

definition add_wide :: "apint \<Rightarrow> apint \<Rightarrow> apint" where
  "add_wide a b =
     (if ap_bits a \<le> 128 then from_u128 (ap_bits a) (get128 a + get128 b)
      else clear_unused ((zero_tag (ap_bits a))\<lparr>ap_words := fst (add_n (ap_words a) (ap_words b) (num_words a))\<rparr>))"

definition sub_wide :: "apint \<Rightarrow> apint \<Rightarrow> apint" where
  "sub_wide a b =
     (if ap_bits a \<le> 128 then from_u128 (ap_bits a) (get128 a - get128 b)
      else clear_unused ((zero_tag (ap_bits a))\<lparr>ap_words := fst (sub_n (ap_words a) (ap_words b) (num_words a))\<rparr>))"

definition mul_wide :: "apint \<Rightarrow> apint \<Rightarrow> apint" where
  "mul_wide a b =
     (if ap_bits a \<le> 128 then from_u128 (ap_bits a) (get128 a * get128 b)
      else clear_unused ((zero_tag (ap_bits a))\<lparr>ap_words := mul_n (ap_words a) (ap_words b) (num_words a)\<rparr>))"

definition not_wide :: "apint \<Rightarrow> apint" where
  "not_wide a = clear_unused ((zero_tag (ap_bits a))\<lparr>ap_words := map (\<lambda>i. NOT (ap_words a ! i)) [0..<num_words a]\<rparr>)"

definition zip_words :: "(u64 \<Rightarrow> u64 \<Rightarrow> u64) \<Rightarrow> apint \<Rightarrow> apint \<Rightarrow> apint" where
  "zip_words f a b =
     (zero_tag (ap_bits a))\<lparr>ap_words := map (\<lambda>i. f (ap_words a ! i) (ap_words b ! i)) [0..<num_words a]\<rparr>"

definition and_wide :: "apint \<Rightarrow> apint \<Rightarrow> apint" where "and_wide = zip_words (AND)"
definition or_wide :: "apint \<Rightarrow> apint \<Rightarrow> apint" where "or_wide = zip_words (OR)"
definition xor_wide :: "apint \<Rightarrow> apint \<Rightarrow> apint" where "xor_wide = zip_words (XOR)"

definition add_ap :: "apint \<Rightarrow> apint \<Rightarrow> apint" where
  "add_ap a b = (if is_single a then mk_ap (ap_bits a) (ap_val a + ap_val b) else add_wide a b)"

definition sub_ap :: "apint \<Rightarrow> apint \<Rightarrow> apint" where
  "sub_ap a b = (if is_single a then mk_ap (ap_bits a) (ap_val a - ap_val b) else sub_wide a b)"

definition mul_ap :: "apint \<Rightarrow> apint \<Rightarrow> apint" where
  "mul_ap a b = (if is_single a then mk_ap (ap_bits a) (ap_val a * ap_val b) else mul_wide a b)"

definition neg_ap :: "apint \<Rightarrow> apint" where "neg_ap a = sub_ap (zero_ap (ap_bits a)) a"

definition not_ap :: "apint \<Rightarrow> apint" where
  "not_ap a = (if is_single a then mk_ap (ap_bits a) (NOT (ap_val a)) else not_wide a)"

definition and_ap :: "apint \<Rightarrow> apint \<Rightarrow> apint" where
  "and_ap a b = (if is_single a then mk_ap (ap_bits a) (ap_val a AND ap_val b) else and_wide a b)"

definition or_ap :: "apint \<Rightarrow> apint \<Rightarrow> apint" where
  "or_ap a b = (if is_single a then mk_ap (ap_bits a) (ap_val a OR ap_val b) else or_wide a b)"

definition xor_ap :: "apint \<Rightarrow> apint \<Rightarrow> apint" where
  "xor_ap a b = (if is_single a then mk_ap (ap_bits a) (ap_val a XOR ap_val b) else xor_wide a b)"

text \<open>The in place operators update \<^verbatim>\<open>val_\<close> directly; the result is the new value of the object.\<close>

definition set_val :: "apint \<Rightarrow> u64 \<Rightarrow> apint" where
  "set_val a v = a\<lparr>ap_words := (ap_words a)[0 := v]\<rparr>"

definition add_assign :: "apint \<Rightarrow> apint \<Rightarrow> apint" where
  "add_assign a b =
     (if is_single a then set_val a ((ap_val a + ap_val b) AND mask64 (ap_bits a)) else add_wide a b)"

definition sub_assign :: "apint \<Rightarrow> apint \<Rightarrow> apint" where
  "sub_assign a b =
     (if is_single a then set_val a ((ap_val a - ap_val b) AND mask64 (ap_bits a)) else sub_wide a b)"

definition mul_assign :: "apint \<Rightarrow> apint \<Rightarrow> apint" where
  "mul_assign a b =
     (if is_single a then set_val a ((ap_val a * ap_val b) AND mask64 (ap_bits a)) else mul_wide a b)"

definition and_assign :: "apint \<Rightarrow> apint \<Rightarrow> apint" where
  "and_assign a b = (if is_single a then set_val a (ap_val a AND ap_val b) else and_wide a b)"

definition or_assign :: "apint \<Rightarrow> apint \<Rightarrow> apint" where
  "or_assign a b = (if is_single a then set_val a (ap_val a OR ap_val b) else or_wide a b)"

definition xor_assign :: "apint \<Rightarrow> apint \<Rightarrow> apint" where
  "xor_assign a b = (if is_single a then set_val a (ap_val a XOR ap_val b) else xor_wide a b)"

section \<open>Width changes\<close>

definition zext_wide :: "apint \<Rightarrow> nat \<Rightarrow> apint" where
  "zext_wide a new_bits =
     (let r = zero_tag new_bits
      in r\<lparr>ap_words := take (num_words a) (ap_words a) @ drop (num_words a) (ap_words r)\<rparr>)"

definition sext_wide :: "apint \<Rightarrow> nat \<Rightarrow> apint" where
  "sext_wide a new_bits =
     (let r = zext_wide a new_bits
      in if is_neg a then
           (let rem = ap_bits a mod 64; first = ap_bits a div 64;
                d = (if rem \<noteq> 0 then (ap_words r)[first := ap_words r ! first OR push_bit rem (NOT 0)]
                     else ap_words r);
                i0 = first + (if rem \<noteq> 0 then 1 else 0);
                d' = take i0 d @ replicate (num_words r - i0) (NOT 0)
            in clear_unused (r\<lparr>ap_words := d'\<rparr>))
         else r)"

definition trunc_wide :: "apint \<Rightarrow> nat \<Rightarrow> apint" where
  "trunc_wide a new_bits =
     (let r = zero_tag new_bits
      in clear_unused (r\<lparr>ap_words := take (num_words r) (ap_words a)\<rparr>))"

definition zext :: "apint \<Rightarrow> nat \<Rightarrow> apint" where
  "zext a new_bits = (if new_bits \<le> 64 then mk_ap new_bits (ap_val a) else zext_wide a new_bits)"

definition sext :: "apint \<Rightarrow> nat \<Rightarrow> apint" where
  "sext a new_bits =
     (if new_bits \<le> 64 then mk_ap new_bits (word_of_int (sext64 a)) else sext_wide a new_bits)"

definition trunc_ap :: "apint \<Rightarrow> nat \<Rightarrow> apint" where
  "trunc_ap a new_bits = (if new_bits \<le> 64 then mk_ap new_bits (to_u64 a) else trunc_wide a new_bits)"

definition zext_or_trunc :: "apint \<Rightarrow> nat \<Rightarrow> apint" where
  "zext_or_trunc a new_bits = (if new_bits > ap_bits a then zext a new_bits else trunc_ap a new_bits)"

definition sext_or_trunc :: "apint \<Rightarrow> nat \<Rightarrow> apint" where
  "sext_or_trunc a new_bits = (if new_bits > ap_bits a then sext a new_bits else trunc_ap a new_bits)"

section \<open>Shifts\<close>

definition shl_wide :: "apint \<Rightarrow> nat \<Rightarrow> apint" where
  "shl_wide a amt =
     (if ap_bits a \<le> amt then zero_ap (ap_bits a)
      else if ap_bits a \<le> 128 then from_u128 (ap_bits a) (push_bit amt (get128 a))
      else clear_unused ((zero_tag (ap_bits a))\<lparr>ap_words := shl_n (ap_words a) (num_words a) amt\<rparr>))"

definition lshr_wide :: "apint \<Rightarrow> nat \<Rightarrow> apint" where
  "lshr_wide a amt =
     (if ap_bits a \<le> amt then zero_ap (ap_bits a)
      else if ap_bits a \<le> 128 then from_u128 (ap_bits a) (drop_bit amt (get128 a))
      else (zero_tag (ap_bits a))\<lparr>ap_words := shr_n (ap_words a) (num_words a) amt 0\<rparr>)"

definition ashr_wide :: "apint \<Rightarrow> nat \<Rightarrow> apint" where
  "ashr_wide a amt0 =
     (let amt = min amt0 (ap_bits a - 1)
      in if ap_bits a \<le> 128 then from_i128 (ap_bits a) (drop_bit amt (to_i128 a))
         else (let ext = (if is_neg a then sext a (num_words a * 64) else zext a (num_words a * 64))
               in clear_unused ((zero_tag (ap_bits a))\<lparr>ap_words :=
                    shr_n (ap_words ext) (num_words a) amt (if is_neg a then NOT 0 else 0)\<rparr>)))"

definition shl :: "apint \<Rightarrow> nat \<Rightarrow> apint" where
  "shl a amt =
     (if is_single a then mk_ap (ap_bits a) (if 64 \<le> amt then 0 else push_bit amt (ap_val a))
      else shl_wide a amt)"

definition lshr :: "apint \<Rightarrow> nat \<Rightarrow> apint" where
  "lshr a amt =
     (if is_single a then mk_ap (ap_bits a) (if 64 \<le> amt then 0 else drop_bit amt (ap_val a))
      else lshr_wide a amt)"

definition ashr :: "apint \<Rightarrow> nat \<Rightarrow> apint" where
  "ashr a amt =
     (if is_single a
      then mk_ap (ap_bits a) (word_of_int (drop_bit (if 64 \<le> amt then 63 else amt) (sext64 a)))
      else ashr_wide a amt)"

definition low_bits :: "nat \<Rightarrow> nat \<Rightarrow> apint" where
  "low_bits bits n = (if n = 0 then zero_ap bits else lshr (all_ones bits) (bits - n))"

definition high_bits :: "nat \<Rightarrow> nat \<Rightarrow> apint" where
  "high_bits bits n = shl (all_ones bits) (if n = 0 then bits else bits - n)"

definition signed_max :: "nat \<Rightarrow> apint" where
  "signed_max bits = set_bit_ap (all_ones bits) (bits - 1) False"

definition signed_min :: "nat \<Rightarrow> apint" where
  "signed_min bits = set_bit_ap (zero_tag bits) (bits - 1) True"

section \<open>Comparisons\<close>

definition ucmp_wide :: "apint \<Rightarrow> apint \<Rightarrow> int" where
  "ucmp_wide a b =
     (if ap_bits a \<le> 128 then cmp3 (get128 a) (get128 b)
      else ucmp_n (ap_words a) (ap_words b) (num_words a))"

definition scmp_wide :: "apint \<Rightarrow> apint \<Rightarrow> int" where
  "scmp_wide a b =
     (let na = is_neg a; nb = is_neg b
      in if na \<noteq> nb then (if na then -1 else 1) else ucmp_wide a b)"

definition eq_wide :: "apint \<Rightarrow> apint \<Rightarrow> bool" where
  "eq_wide a b \<longleftrightarrow> ucmp_n (ap_words a) (ap_words b) (num_words a) = 0"

definition eq_ap :: "apint \<Rightarrow> apint \<Rightarrow> bool" where
  "eq_ap a b \<longleftrightarrow> (if is_single a then ap_val a = ap_val b else eq_wide a b)"

definition ucmp :: "apint \<Rightarrow> apint \<Rightarrow> int" where
  "ucmp a b = (if is_single a then cmp3 (ap_val a) (ap_val b) else ucmp_wide a b)"

definition scmp :: "apint \<Rightarrow> apint \<Rightarrow> int" where
  "scmp a b = (if is_single a then cmp3 (sext64 a) (sext64 b) else scmp_wide a b)"

definition ult :: "apint \<Rightarrow> apint \<Rightarrow> bool" where
  "ult a b \<longleftrightarrow> (if is_single a then ap_val a < ap_val b else ucmp_wide a b < 0)"

definition ule :: "apint \<Rightarrow> apint \<Rightarrow> bool" where
  "ule a b \<longleftrightarrow> (if is_single a then ap_val a \<le> ap_val b else ucmp_wide a b \<le> 0)"

definition ugt :: "apint \<Rightarrow> apint \<Rightarrow> bool" where "ugt a b \<longleftrightarrow> ult b a"
definition uge :: "apint \<Rightarrow> apint \<Rightarrow> bool" where "uge a b \<longleftrightarrow> ule b a"

definition slt :: "apint \<Rightarrow> apint \<Rightarrow> bool" where
  "slt a b \<longleftrightarrow> (if is_single a then sext64 a < sext64 b else scmp_wide a b < 0)"

definition sle :: "apint \<Rightarrow> apint \<Rightarrow> bool" where
  "sle a b \<longleftrightarrow> (if is_single a then sext64 a \<le> sext64 b else scmp_wide a b \<le> 0)"

definition sgt :: "apint \<Rightarrow> apint \<Rightarrow> bool" where "sgt a b \<longleftrightarrow> slt b a"
definition sge :: "apint \<Rightarrow> apint \<Rightarrow> bool" where "sge a b \<longleftrightarrow> sle b a"

section \<open>Division\<close>

definition to_limbs :: "u64 list \<Rightarrow> nat \<Rightarrow> u32 list" where
  "to_limbs w n = concat (map (\<lambda>i. [lo32 (w ! i), lo32 (drop_bit 32 (w ! i))]) [0..<n])"

fun trim_loop :: "u32 list \<Rightarrow> nat \<Rightarrow> nat" where
  "trim_loop l 0 = 0"
| "trim_loop l (Suc n) = (if l ! n = 0 then trim_loop l n else Suc n)"

definition trim :: "u32 list \<Rightarrow> nat" where
  "trim l = trim_loop l (length l)"

text \<open>Packing limbs back into words: \<^verbatim>\<open>big_[i / 2] |= u64{l[i]} << (32 * (i % 2))\<close>.\<close>

definition pack_limbs :: "u64 list \<Rightarrow> u32 list \<Rightarrow> u64 list" where
  "pack_limbs ws l =
     fold (\<lambda>i ws. ws[i div 2 := ws ! (i div 2) OR push_bit (32 * (i mod 2)) (w64_of (l ! i))])
       [0..<length l] ws"

text \<open>Both results of \<^verbatim>\<open>udivrem_wide\<close>; the callers pass one null pointer and use the other.\<close>

definition udivrem_wide :: "apint \<Rightarrow> apint \<Rightarrow> apint \<times> apint" where
  "udivrem_wide a b =
     (let bits = ap_bits a
      in if bits \<le> 128 then
           (from_u128 bits (get128 a div get128 b), from_u128 bits (get128 a mod get128 b))
         else
           (let ul = to_limbs (ap_words a) (num_words a);
                vl = to_limbs (ap_words b) (num_words b);
                m = trim ul;
                n = trim vl;
                qq = zero_ap bits;
                rr = zero_ap bits
            in if m < n then (qq, a)
               else (let (ql, rl) = divmnu (take m ul) (take n vl) m n
                     in (qq\<lparr>ap_words := pack_limbs (ap_words qq) ql\<rparr>,
                         rr\<lparr>ap_words := pack_limbs (ap_words rr) rl\<rparr>))))"

definition udiv_wide :: "apint \<Rightarrow> apint \<Rightarrow> apint" where
  "udiv_wide a b = fst (udivrem_wide a b)"

definition urem_wide :: "apint \<Rightarrow> apint \<Rightarrow> apint" where
  "urem_wide a b = snd (udivrem_wide a b)"

definition sdiv_wide :: "apint \<Rightarrow> apint \<Rightarrow> apint" where
  "sdiv_wide a b =
     (if ap_bits a \<le> 128 then
        (let x = to_i128 a; y = to_i128 b
         in from_u128 (ap_bits a) (if y = -1 then 0 - word_of_int x else word_of_int (x sdiv y)))
      else
        (let ng = (is_neg a \<noteq> is_neg b);
             q = fst (udivrem_wide (if is_neg a then neg_ap a else a) (if is_neg b then neg_ap b else b))
         in if ng then neg_ap q else q))"

definition srem_wide :: "apint \<Rightarrow> apint \<Rightarrow> apint" where
  "srem_wide a b =
     (if ap_bits a \<le> 128 then
        (let x = to_i128 a; y = to_i128 b
         in from_u128 (ap_bits a) (if y = -1 then 0 else word_of_int (x smod y)))
      else
        (let r = snd (udivrem_wide (if is_neg a then neg_ap a else a) (if is_neg b then neg_ap b else b))
         in if is_neg a then neg_ap r else r))"

definition udiv_ap :: "apint \<Rightarrow> apint \<Rightarrow> apint" where
  "udiv_ap a b = (if is_single a then mk_ap (ap_bits a) (ap_val a div ap_val b) else udiv_wide a b)"

definition urem_ap :: "apint \<Rightarrow> apint \<Rightarrow> apint" where
  "urem_ap a b = (if is_single a then mk_ap (ap_bits a) (ap_val a mod ap_val b) else urem_wide a b)"

definition sdiv_ap :: "apint \<Rightarrow> apint \<Rightarrow> apint" where
  "sdiv_ap a b =
     (if is_single a then
        (let x = sext64 a; y = sext64 b
         in mk_ap (ap_bits a) (if y = -1 then 0 - word_of_int x else word_of_int (x sdiv y)))
      else sdiv_wide a b)"

definition srem_ap :: "apint \<Rightarrow> apint \<Rightarrow> apint" where
  "srem_ap a b =
     (if is_single a then
        (let x = sext64 a; y = sext64 b
         in mk_ap (ap_bits a) (if y = -1 then 0 else word_of_int (x smod y)))
      else srem_wide a b)"

section \<open>Overflow flags and hash\<close>

definition uadd_ov :: "apint \<Rightarrow> apint \<Rightarrow> apint \<times> bool" where
  "uadd_ov a b = (let r = add_ap a b in (r, ult r a))"

definition usub_ov :: "apint \<Rightarrow> apint \<Rightarrow> apint \<times> bool" where
  "usub_ov a b = (sub_ap a b, ult a b)"

definition umul_ov :: "apint \<Rightarrow> apint \<Rightarrow> apint \<times> bool" where
  "umul_ov a b =
     (if is_single a then
        (let p = wide (ap_val a) * wide (ap_val b)
         in (mk_ap (ap_bits a) (lo64 p), drop_bit (ap_bits a) p \<noteq> 0))
      else
        (let w = u32_mult 2 (ap_bits a);
             p = mul_ap (zext a w) (zext b w)
         in (trunc_ap p (ap_bits a), ap_bits a < active_bits p)))"

definition sadd_ov :: "apint \<Rightarrow> apint \<Rightarrow> apint \<times> bool" where
  "sadd_ov a b = (let r = add_ap a b in (r, is_neg a = is_neg b \<and> is_neg r \<noteq> is_neg a))"

definition ssub_ov :: "apint \<Rightarrow> apint \<Rightarrow> apint \<times> bool" where
  "ssub_ov a b = (let r = sub_ap a b in (r, is_neg a \<noteq> is_neg b \<and> is_neg r \<noteq> is_neg a))"

definition smul_ov :: "apint \<Rightarrow> apint \<Rightarrow> apint \<times> bool" where
  "smul_ov a b =
     (if is_single a then
        (let p = sext64 a * sext64 b;
             hi = 2 ^ (ap_bits a - 1) - 1;
             lo = - hi - 1
         in (mk_ap (ap_bits a) (word_of_int p), p > hi \<or> p < lo))
      else
        (let w = u32_mult 2 (ap_bits a);
             p = mul_ap (sext a w) (sext b w);
             t = trunc_ap p (ap_bits a)
         in (t, \<not> eq_ap (sext t w) p)))"

definition hash_ap :: "apint \<Rightarrow> u64" where
  "hash_ap a =
     fold (\<lambda>i h. let h' = (h XOR ap_words a ! i) * 0xFF51AFD7ED558CCD in h' XOR drop_bit 32 h')
       [0..<num_words a] (word_of_nat (ap_bits a) * 0x9E3779B97F4A7C15)"

end
