(* ===== verification/APIntRep.thy ===== *)
theory APIntRep
  imports APIntDefs
begin

text \<open>
  The representation invariant of \<^verbatim>\<open>APInt\<close> and the values it stands for: \<open>uval\<close> reads a
  value as unsigned, \<open>sval\<close> as two's complement. The lemmas say how the constructors, the bit
  accessors, the conversions and the counting loops relate to these two numbers.
\<close>

section \<open>Widths\<close>

text \<open>
  \<^verbatim>\<open>words_for\<close> adds 63 in \<^verbatim>\<open>u32\<close>, so the widths the code handles end at \<open>2 ^ 32 - 64\<close>.
\<close>

definition width_ok :: "nat \<Rightarrow> bool" where
  "width_ok bits \<longleftrightarrow> 1 \<le> bits \<and> bits \<le> 4294967232"

lemma width_okD: "width_ok bits \<Longrightarrow> 0 < bits"
  by (simp add: width_ok_def)

lemma words_for_eq: "width_ok bits \<Longrightarrow> words_for bits = (bits + 63) div 64"
  by (simp add: width_ok_def words_for_def u32_add_def)

lemma words_for_ge: "width_ok bits \<Longrightarrow> bits \<le> 64 * words_for bits"
  by (simp add: words_for_eq)

lemma words_for_pos [simp]: "width_ok bits \<Longrightarrow> 0 < words_for bits"
  by (simp add: words_for_eq width_ok_def div_greater_zero_iff)

lemma words_for_1: "width_ok bits \<Longrightarrow> words_for bits = Suc 0 \<longleftrightarrow> bits \<le> 64"
  by (simp only: words_for_eq) (unfold width_ok_def, linarith)

lemma words_for_2: "width_ok bits \<Longrightarrow> words_for bits = 2 \<longleftrightarrow> 64 < bits \<and> bits \<le> 128"
  by (simp only: words_for_eq) (unfold width_ok_def, linarith)

lemma div_add63: "(b + 63) div 64 = b div 64 + (if b mod 64 = 0 then 0 else 1)" for b :: nat
proof -
  have "(b + 63) div 64 = (b mod 64 + 63 + b div 64 * 64) div 64"
    by (simp add: mod_div_mult_eq add.commute add.left_commute)
  also have "\<dots> = b div 64 + (b mod 64 + 63) div 64"
    by (subst div_mult_self1) simp_all
  also have "(b mod 64 + 63) div 64 = (if b mod 64 = 0 then 0 else 1)"
    using mod_less_divisor[of 64 b] by (auto intro: div_nat_eqI)
  finally show ?thesis .
qed

lemma words_for_rem:
  "width_ok bits \<Longrightarrow> bits mod 64 = 0 \<Longrightarrow> bits = 64 * words_for bits"
  using mult_div_mod_eq[of 64 bits] by (simp add: words_for_eq div_add63)

lemma words_for_norem:
  assumes "width_ok bits" "bits mod 64 \<noteq> 0"
  shows "words_for bits - 1 = bits div 64" "bits = 64 * (words_for bits - 1) + bits mod 64"
proof -
  have "(bits + 63) div 64 = bits div 64 + 1" using assms(2) by (simp add: div_add63)
  with words_for_eq[OF assms(1)] show "words_for bits - 1 = bits div 64"
    "bits = 64 * (words_for bits - 1) + bits mod 64" by simp_all
qed

lemma words_for_mono: "width_ok b \<Longrightarrow> width_ok c \<Longrightarrow> b \<le> c \<Longrightarrow> words_for b \<le> words_for c"
  by (simp add: words_for_eq div_le_mono)

section \<open>Invariant and values\<close>

definition uval :: "apint \<Rightarrow> nat" where
  "uval a = wval (ap_words a)"

definition ap_wf :: "apint \<Rightarrow> bool" where
  "ap_wf a \<longleftrightarrow> width_ok (ap_bits a) \<and> length (ap_words a) = words_for (ap_bits a) \<and>
     uval a < 2 ^ ap_bits a"

definition sval :: "apint \<Rightarrow> int" where
  "sval a = (if uval a < 2 ^ (ap_bits a - 1) then int (uval a) else int (uval a) - 2 ^ ap_bits a)"

lemma ap_wfD:
  assumes "ap_wf a"
  shows "width_ok (ap_bits a)" "length (ap_words a) = words_for (ap_bits a)"
    "uval a < 2 ^ ap_bits a" "0 < ap_bits a" "num_words a = words_for (ap_bits a)"
    "length (ap_words a) = num_words a"
  using assms by (auto simp: ap_wf_def width_ok_def num_words_def)

lemma ap_wf_eqI: "ap_wf a \<Longrightarrow> ap_wf b \<Longrightarrow> ap_bits a = ap_bits b \<Longrightarrow> uval a = uval b \<Longrightarrow> a = b"
  by (rule apint.equality) (auto simp: ap_wf_def uval_def intro: w64.val_inject)

lemma single_words: "ap_wf a \<Longrightarrow> is_single a \<Longrightarrow> ap_words a = [ap_val a]"
proof -
  assume "ap_wf a" "is_single a"
  then have "length (ap_words a) = Suc 0"
    by (simp add: ap_wfD is_single_def words_for_1)
  then show ?thesis by (cases "ap_words a") simp_all
qed

lemma single_uval: "ap_wf a \<Longrightarrow> is_single a \<Longrightarrow> unat (ap_val a) = uval a"
  unfolding uval_def by (subst single_words) simp_all

lemma double_uval:
  assumes "ap_wf a" "\<not> is_single a" "ap_bits a \<le> 128"
  shows "unat (get128 a) = uval a"
proof -
  have "length (ap_words a) = 2"
    using assms by (simp add: ap_wfD is_single_def words_for_2)
  then obtain x y where xy: "ap_words a = [x, y]"
    by (auto simp: numeral_2_eq_2 length_Suc_conv)
  have lt: "unat x < 2 ^ 64" "unat y < 2 ^ 64"
    using unsigned_less[of x, where ?'a = nat] unsigned_less[of y, where ?'a = nat] by simp_all
  have "push_bit 64 (unat y) < 2 ^ 128"
    using lt by (simp add: push_bit_eq_mult)
  then have "unat (push_bit 64 (wide y)) = push_bit 64 (unat y)"
    by (simp add: unsigned_push_bit_eq take_bit_nat_eq_self)
  then have "unat (get128 a) = push_bit 64 (unat y) OR unat x"
    by (simp add: get128_def xy unsigned_or_eq or.commute)
  also have "\<dots> = unat x + 2 ^ 64 * unat y"
    using lt by (intro or_push_bit_nat)
  finally show ?thesis by (simp add: uval_def xy base64_def)
qed

text \<open>Signed values: the two's complement reading and its bounds.\<close>

lemma pow_pred: "0 < b \<Longrightarrow> (2 :: 'a::semiring_1) ^ b = 2 * 2 ^ (b - 1)"
  by (cases b) simp_all

lemma sval_mod: "ap_wf a \<Longrightarrow> sval a mod 2 ^ ap_bits a = int (uval a)"
  by (simp add: sval_def ap_wf_def)

lemma sval_bounds:
  assumes "ap_wf a"
  shows "- (2 ^ (ap_bits a - 1)) \<le> sval a" "sval a < 2 ^ (ap_bits a - 1)"
proof -
  have p: "(2 :: int) ^ ap_bits a = 2 * 2 ^ (ap_bits a - 1)"
    using ap_wfD(4)[OF assms] by (rule pow_pred)
  have u: "int (uval a) < 2 ^ ap_bits a"
    using ap_wfD(3)[OF assms] by (metis of_nat_less_iff of_nat_numeral of_nat_power)
  have *: "uval a < 2 ^ (ap_bits a - 1) \<longleftrightarrow> int (uval a) < 2 ^ (ap_bits a - 1)"
    by (metis of_nat_less_iff of_nat_numeral of_nat_power)
  show "- (2 ^ (ap_bits a - 1)) \<le> sval a" "sval a < 2 ^ (ap_bits a - 1)"
    using p u unfolding sval_def * by (simp_all split: if_split)
qed

lemma sval_signed_take_bit:
  assumes "ap_wf a"
  shows "sval a = signed_take_bit (ap_bits a - 1) (int (uval a))"
proof -
  have "sval a = signed_take_bit (ap_bits a - 1) (sval a)"
    using sval_bounds[OF assms] by (simp add: signed_take_bit_int_eq_self)
  also have "\<dots> = signed_take_bit (ap_bits a - 1) (sval a mod 2 ^ ap_bits a)"
    using ap_wfD(4)[OF assms]
    by (metis Suc_diff_1 signed_take_bit_take_bit take_bit_eq_mod lessI not_less_eq order_less_imp_le
        signed_take_bit_eq_iff_take_bit_eq take_bit_take_bit min.idem)
  finally show ?thesis using sval_mod[OF assms] by simp
qed

lemma sval_eq_signed_take_bit:
  assumes "ap_wf a" "int (uval a) = k mod 2 ^ ap_bits a"
  shows "sval a = signed_take_bit (ap_bits a - 1) k"
proof -
  have "take_bit (Suc (ap_bits a - 1)) (k mod 2 ^ ap_bits a) = take_bit (Suc (ap_bits a - 1)) k"
    using ap_wfD(4)[OF assms(1)] by (simp add: take_bit_eq_mod)
  then show ?thesis
    using sval_signed_take_bit[OF assms(1)] assms(2)
    by (simp add: signed_take_bit_eq_iff_take_bit_eq)
qed

text \<open>A value with the right residue that fits is the signed value.\<close>

lemma sval_eqI:
  assumes "ap_wf a" "int (uval a) = k mod 2 ^ ap_bits a"
    "- (2 ^ (ap_bits a - 1)) \<le> k" "k < 2 ^ (ap_bits a - 1)"
  shows "sval a = k"
  using sval_eq_signed_take_bit[OF assms(1,2)] assms(3,4)
  by (simp add: signed_take_bit_int_eq_self)

section \<open>Clearing the unused bits\<close>

lemma mask64_mask: "0 < k \<Longrightarrow> k \<le> 64 \<Longrightarrow> mask64 k = mask k"
  by (rule bit_word_eqI) (auto simp: mask64_def bit_simps)

lemma unat_and_mask64: "0 < k \<Longrightarrow> k \<le> 64 \<Longrightarrow> unat (w AND mask64 k) = unat w mod 2 ^ k"
  by (simp only: mask64_mask flip: take_bit_eq_mask) (simp only: unsigned_take_bit_eq, simp only: take_bit_eq_mod)

lemma bit_mod_pow: "bit (n mod 2 ^ k :: nat) i \<longleftrightarrow> i < k \<and> bit n i"
  by (simp add: bit_take_bit_iff flip: take_bit_eq_mod)

lemma ap_bits_clear_unused [simp]: "ap_bits (clear_unused a) = ap_bits a"
  by (simp add: clear_unused_def Let_def)

lemma length_clear_unused [simp]: "length (ap_words (clear_unused a)) = length (ap_words a)"
  by (simp add: clear_unused_def Let_def)

lemma uval_clear_unused:
  assumes w: "width_ok (ap_bits a)" and l: "length (ap_words a) = words_for (ap_bits a)"
  shows "uval (clear_unused a) = uval a mod 2 ^ ap_bits a"
proof (cases "ap_bits a mod 64 = 0")
  case True
  then have "uval a < 2 ^ ap_bits a"
    using wval_bound[of "ap_words a"] l words_for_rem[OF w] by (simp add: uval_def)
  with True show ?thesis by (simp add: clear_unused_def)
next
  case False
  let ?n = "words_for (ap_bits a)" and ?r = "ap_bits a mod 64" and ?ws = "ap_words a"
  note nr = words_for_norem[OF w False]
  have r: "0 < ?r" "?r \<le> 64" using False by simp_all
  have cw: "ap_words (clear_unused a) = ?ws[?n - 1 := ?ws ! (?n - 1) AND mask64 ?r]"
    using False by (simp add: clear_unused_def num_words_def)

  show ?thesis
  proof (rule bit_eqI)
    fix i
    have d: "i div 64 < ?n \<and> i div 64 \<noteq> ?n - 1 \<longrightarrow> i < ap_bits a"
      using nr by linarith
    have e: "i div 64 = ?n - 1 \<longrightarrow> (i < ap_bits a \<longleftrightarrow> i mod 64 < ?r)"
    proof
      assume "i div 64 = ?n - 1"
      then have "i = 64 * (?n - 1) + i mod 64" by (metis mult_div_mod_eq)
      with nr(2) show "i < ap_bits a \<longleftrightarrow> i mod 64 < ?r" by linarith
    qed
    have "bit (uval (clear_unused a)) i \<longleftrightarrow> i div 64 < ?n \<and> bit (?ws ! (i div 64)) (i mod 64)
        \<and> (i div 64 = ?n - 1 \<longrightarrow> i mod 64 < ?r)"
      using l r by (auto simp: uval_def bit_wval cw nth_list_update mask64_mask bit_simps
          split: if_splits)
    also have "\<dots> \<longleftrightarrow> i < ap_bits a \<and> bit (uval a) i"
      using d e words_for_ge[OF w] by (auto simp: uval_def bit_wval l)
    finally show "bit (uval (clear_unused a)) i = bit (uval a mod 2 ^ ap_bits a) i"
      by (simp only: bit_mod_pow)
  qed
qed

lemma wf_clear_unused:
  "width_ok (ap_bits a) \<Longrightarrow> length (ap_words a) = words_for (ap_bits a) \<Longrightarrow> ap_wf (clear_unused a)"
  by (simp add: ap_wf_def uval_clear_unused)

section \<open>Constructors\<close>

lemma ap_bits_mk [simp]: "ap_bits (mk_ap b v) = b"
  by (simp add: mk_ap_def)

lemma ap_bits_zero_tag [simp]: "ap_bits (zero_tag b) = b"
  by (simp add: zero_tag_def)

lemma ap_words_zero_tag: "width_ok b \<Longrightarrow> ap_words (zero_tag b) = replicate (words_for b) 0"
  using words_for_1[of b] by (auto simp: zero_tag_def)

lemma uval_zero_tag: "width_ok b \<Longrightarrow> uval (zero_tag b) = 0"
  by (simp add: uval_def ap_words_zero_tag w64.val_replicate_zero)

lemma num_words_zero_tag [simp]: "num_words (zero_tag b) = words_for b"
  by (simp add: num_words_def)

lemma wf_zero_tag: "width_ok b \<Longrightarrow> ap_wf (zero_tag b)"
  by (simp add: ap_wf_def uval_zero_tag ap_words_zero_tag)

text \<open>The pattern of the wide operations: words written into a zeroed value, then cleared.\<close>

lemma wf_put_words:
  "width_ok b \<Longrightarrow> length ws = words_for b \<Longrightarrow> ap_wf (clear_unused ((zero_tag b)\<lparr>ap_words := ws\<rparr>))"
  by (rule wf_clear_unused) simp_all

lemma uval_put_words:
  "width_ok b \<Longrightarrow> length ws = words_for b \<Longrightarrow>
   uval (clear_unused ((zero_tag b)\<lparr>ap_words := ws\<rparr>)) = wval ws mod 2 ^ b"
  by (subst uval_clear_unused) (simp_all add: uval_def)

lemma wval_update_0: "0 < n \<Longrightarrow> wval ((replicate n 0)[0 := v]) = unat v"
  by (cases n) (simp_all add: w64.val_replicate_zero)

lemma mk_ap_correct:
  assumes "width_ok b"
  shows "ap_wf (mk_ap b v)" "uval (mk_ap b v) = unat v mod 2 ^ b"
proof -
  have lt: "unat v < 2 ^ b" if "64 < b"
  proof (rule less_le_trans)
    show "unat v < 2 ^ 64" using unsigned_less[of v, where ?'a = nat] by simp
    show "(2 :: nat) ^ 64 \<le> 2 ^ b" using that by (intro power_increasing) simp_all
  qed
  show u: "uval (mk_ap b v) = unat v mod 2 ^ b"
  proof (cases "b \<le> 64")
    case True
    then show ?thesis
      using width_okD[OF assms] by (simp add: mk_ap_def uval_def unat_and_mask64 del: push_bit_of_1)
  next
    case False
    with lt have "unat v mod 2 ^ b = unat v" by simp
    with False assms show ?thesis by (simp add: mk_ap_def uval_def wval_update_0)
  qed
  show "ap_wf (mk_ap b v)"
    using assms words_for_1[OF assms] unfolding ap_wf_def u by (auto simp: mk_ap_def)
qed

lemma zero_ap_correct: "width_ok b \<Longrightarrow> ap_wf (zero_ap b)" "width_ok b \<Longrightarrow> uval (zero_ap b) = 0"
  by (simp_all add: zero_ap_def mk_ap_correct)

lemma ap_bits_zero_ap [simp]: "ap_bits (zero_ap b) = b"
  by (simp add: zero_ap_def)

lemma pow_le_mod: "k \<le> n \<Longrightarrow> (x mod 2 ^ n) mod 2 ^ k = (x :: 'a::euclidean_semiring_cancel) mod 2 ^ k"
  by (simp add: mod_mod_cancel le_imp_power_dvd)

lemma le_add_diff_inverse_pred: "(x :: nat) \<le> y \<Longrightarrow> 0 < x \<Longrightarrow> x - 1 + (y - x) = y - 1"
  by simp

lemma wval_replicate_ones: "wval (replicate n (NOT 0)) = 2 ^ (64 * n) - 1"
proof (induction n)
  case (Suc n)
  have u: "unat (NOT (0 :: u64)) = 2 ^ 64 - 1"
    by (simp add: unsigned_minus_1_eq_mask mask_eq_exp_minus_1)
  have "base64 * (2 ^ (64 * n) - 1) = base64 * 2 ^ (64 * n) - base64"
    by (simp only: diff_mult_distrib2 mult_1_right)
  moreover have "base64 \<le> base64 * 2 ^ (64 * n)" by simp
  ultimately show ?case
    using Suc.IH u base64_pow[of 1] unfolding replicate_Suc digits_val.simps
    by (simp only: base64_def mult_Suc_right power_add) (rule le_add_diff_inverse_pred, simp_all)
qed simp

lemma replicate_update_01:
  "1 < n \<Longrightarrow> (replicate n z)[0 := x, 1 := y] = x # y # replicate (n - 2) z"
proof -
  assume "1 < n"
  then obtain m where m: "n = Suc m" "0 < m" by (cases n) auto
  then obtain k where "m = Suc k" by (cases m) auto
  with m show ?thesis by simp
qed

lemma from_u128_correct:
  assumes "width_ok b"
  shows "ap_wf (from_u128 b v)" "uval (from_u128 b v) = unat v mod 2 ^ b"
proof -
  let ?n = "words_for b"
  let ?d = "if 1 < ?n then (replicate ?n 0)[0 := lo64 v, 1 := hi64 v] else (replicate ?n 0)[0 := lo64 v]"
  have eq: "from_u128 b v = clear_unused ((zero_tag b)\<lparr>ap_words := ?d\<rparr>)"
    using assms by (simp add: from_u128_def ap_words_zero_tag)
  have len: "length ?d = ?n" by simp
  show "ap_wf (from_u128 b v)"
    unfolding eq by (rule wf_put_words[OF assms len])
  have "wval ?d mod 2 ^ b = unat v mod 2 ^ b"
  proof (cases "1 < ?n")
    case True
    then have "wval ?d = unat v"
      by (simp add: replicate_update_01[unfolded One_nat_def] w64.val_replicate_zero lo_hi_split)
    then show ?thesis by simp
  next
    case False
    with words_for_pos[OF assms] have n: "?n = Suc 0" by simp
    then have "b \<le> 64" using words_for_1[OF assms] by simp
    with n show ?thesis by (simp add: unat_lo64 base64_def pow_le_mod del: power_numeral)
  qed
  then show "uval (from_u128 b v) = unat v mod 2 ^ b"
    unfolding eq uval_put_words[OF assms len] .
qed

lemma map_const_upt: "map (\<lambda>i. z) [m..<n] = replicate (n - m) z"
  by (simp add: map_replicate_const)

text \<open>A sign word repeated up to the top stands for the sign of a negative number.\<close>

lemma int_wval_sign_fill:
  "int (wval (replicate k (if v < 0 then NOT 0 else 0))) = (if (v::int) < 0 then 2 ^ (64 * k) - 1 else 0)"
  using wval_replicate_ones[of k] by (simp add: w64.val_replicate_zero of_nat_diff)

lemma mod_pow_add: "b \<le> k \<Longrightarrow> (x + 2 ^ k * y) mod 2 ^ b = (x :: int) mod 2 ^ b"
proof -
  assume "b \<le> k"
  then have "(2 :: int) ^ k = 2 ^ b * 2 ^ (k - b)" by (simp flip: power_add)
  then have "x + 2 ^ k * y = x + 2 ^ b * (2 ^ (k - b) * y)" by (simp only: mult.assoc)
  then show ?thesis by (simp only: mod_mult_self2)
qed

lemma word_of_int_unat: "int (unat (word_of_int v :: 'a::len word)) = v mod 2 ^ LENGTH('a)"
  by (simp add: uint_word_of_int)

lemma from_i64_correct:
  assumes "width_ok b" "- (2 ^ 63) \<le> v" "v < 2 ^ 63"
  shows "ap_wf (from_i64 b v)" "int (uval (from_i64 b v)) = v mod 2 ^ b"
proof -
  let ?n = "words_for b"
  let ?d = "word_of_int v # replicate (?n - 1) (if v < 0 then NOT 0 else 0)"
  have eq: "from_i64 b v = clear_unused ((zero_tag b)\<lparr>ap_words := ?d\<rparr>)"
    by (simp add: from_i64_def map_const_upt)
  have len: "length ?d = ?n" using words_for_pos[OF assms(1)] by simp
  show "ap_wf (from_i64 b v)"
    unfolding eq by (rule wf_put_words[OF assms(1) len])
  have n: "64 * ?n = 64 + 64 * (?n - 1)" using words_for_pos[OF assms(1)] by linarith
  have "int (wval ?d) = v mod 2 ^ 64 + 2 ^ 64 * (if v < 0 then 2 ^ (64 * (?n - 1)) - 1 else 0)"
    unfolding digits_val.simps int_wval_sign_fill of_nat_add of_nat_mult
    by (simp add: uint_word_of_int base64_def)
  also have "v mod 2 ^ 64 = (if v < 0 then v + 2 ^ 64 else v)"
    using assms(2,3) by (auto intro: int_mod_pos_eq[of _ _ "-1"] mod_pos_pos_trivial)
  also have "\<dots> + 2 ^ 64 * (if v < 0 then 2 ^ (64 * (?n - 1)) - 1 else 0)
      = v + 2 ^ (64 * ?n) * (if v < 0 then 1 else 0)"
    unfolding n power_add by (simp add: algebra_simps)
  finally have "int (wval ?d) mod 2 ^ b = v mod 2 ^ b"
    using words_for_ge[OF assms(1)] by (simp only: mod_pow_add)
  then show "int (uval (from_i64 b v)) = v mod 2 ^ b"
    unfolding eq uval_put_words[OF assms(1) len] by (simp add: zmod_int)
qed

lemma from_i128_correct:
  assumes "width_ok b" "- (2 ^ 127) \<le> v" "v < 2 ^ 127"
  shows "ap_wf (from_i128 b v)" "int (uval (from_i128 b v)) = v mod 2 ^ b"
proof -
  let ?n = "words_for b" and ?v = "word_of_int v :: u128"
  let ?f = "if v < 0 then NOT 0 else 0 :: u64"
  let ?d = "take 2 (if 1 < ?n then (replicate ?n 0)[0 := word_of_int v, 1 := hi64 ?v]
      else (replicate ?n 0)[0 := word_of_int v]) @ replicate (?n - 2) ?f"
  have eq: "from_i128 b v = clear_unused ((zero_tag b)\<lparr>ap_words := ?d\<rparr>)"
    by (simp add: from_i128_def map_const_upt ap_words_zero_tag[OF assms(1)] Let_def)
  have len: "length ?d = ?n" using words_for_pos[OF assms(1)] by (simp, linarith)
  show "ap_wf (from_i128 b v)"
    unfolding eq by (rule wf_put_words[OF assms(1) len])
  have lo: "word_of_int v = lo64 ?v"
    by (rule unsigned_word_eqI, rule of_nat_eq_iff[where ?'a = int, THEN iffD1])
      (simp add: unat_lo64 base64_def word_of_int_unat zmod_int mod_mod_cancel del: of_nat_unat)
  have "int (wval ?d) mod 2 ^ b = v mod 2 ^ b"
  proof (cases "1 < ?n")
    case True
    have n: "64 * ?n = 128 + 64 * (?n - 2)" using True by linarith
    have "?d = [lo64 ?v, hi64 ?v] @ replicate (?n - 2) ?f"
      using True by (simp add: replicate_update_01[unfolded One_nat_def] lo)
    then have "wval ?d = wval [lo64 ?v, hi64 ?v] + base64 ^ 2 * wval (replicate (?n - 2) ?f)"
      by (simp only: w64.val_append) (simp add: power2_eq_square)
    moreover have "wval [lo64 ?v, hi64 ?v] = unat ?v" using lo_hi_split[of ?v] by simp
    moreover have "base64 ^ 2 = 2 ^ 128" by (simp add: base64_def)
    ultimately have "wval ?d = unat ?v + 2 ^ 128 * wval (replicate (?n - 2) ?f)" by (simp only:)
    then have "int (wval ?d) = v mod 2 ^ 128 + 2 ^ 128 * (if v < 0 then 2 ^ (64 * (?n - 2)) - 1 else 0)"
      using int_wval_sign_fill[of "?n - 2" v] by (simp add: uint_word_of_int)
    also have "v mod 2 ^ 128 = (if v < 0 then v + 2 ^ 128 else v)"
      using assms(2,3) by (auto intro: int_mod_pos_eq[of _ _ "-1"] mod_pos_pos_trivial)
    also have "\<dots> + 2 ^ 128 * (if v < 0 then 2 ^ (64 * (?n - 2)) - 1 else 0)
        = v + 2 ^ (64 * ?n) * (if v < 0 then 1 else 0)"
      unfolding n power_add by (simp add: algebra_simps)
    finally show ?thesis
      using words_for_ge[OF assms(1)] by (simp only: mod_pow_add)
  next
    case False
    with words_for_pos[OF assms(1)] have n: "?n = Suc 0" by simp
    then have "b \<le> 64" using words_for_1[OF assms(1)] by simp
    with n show ?thesis by (simp add: uint_word_of_int pow_le_mod[of _ 64, simplified])
  qed
  then show "int (uval (from_i128 b v)) = v mod 2 ^ b"
    unfolding eq uval_put_words[OF assms(1) len] by (simp add: zmod_int)
qed

lemma from_words_correct:
  assumes "width_ok b" "count \<le> length ws"
  shows "ap_wf (from_words b ws count)" "uval (from_words b ws count) = wval (take count ws) mod 2 ^ b"
proof -
  let ?n = "min count (words_for b)"
  let ?d = "take ?n ws @ drop ?n (replicate (words_for b) 0)"
  have eq: "from_words b ws count = clear_unused ((zero_tag b)\<lparr>ap_words := ?d\<rparr>)"
    by (simp add: from_words_def ap_words_zero_tag[OF assms(1)] Let_def)
  have len: "length ?d = words_for b" using assms(2) by simp
  show "ap_wf (from_words b ws count)"
    unfolding eq by (rule wf_put_words[OF assms(1) len])
  have "wval ?d = wval (take (words_for b) (take count ws))"
    by (simp add: w64.val_append w64.val_replicate_zero min.commute)
  also have "\<dots> = wval (take count ws) mod 2 ^ (64 * words_for b)"
    by (simp only: w64.val_take base64_pow)
  finally show "uval (from_words b ws count) = wval (take count ws) mod 2 ^ b"
    unfolding eq uval_put_words[OF assms(1) len] by (simp only: pow_le_mod words_for_ge[OF assms(1)])
qed

lemma all_ones_correct:
  assumes "width_ok b"
  shows "ap_wf (all_ones b)" "uval (all_ones b) = 2 ^ b - 1"
proof -
  have eq: "all_ones b = clear_unused ((zero_tag b)\<lparr>ap_words := replicate (words_for b) (NOT 0)\<rparr>)"
    by (simp add: all_ones_def Let_def)
  show "ap_wf (all_ones b)"
    unfolding eq by (rule wf_put_words[OF assms]) simp
  have "(2 ^ (64 * words_for b) - 1) mod 2 ^ b = (2 ^ b - 1 :: nat)"
    using take_bit_of_mask[of b "64 * words_for b", where ?'a = nat] words_for_ge[OF assms]
    by (simp only: min_absorb1 mask_eq_exp_minus_1 take_bit_eq_mod)
  then show "uval (all_ones b) = 2 ^ b - 1"
    unfolding eq by (subst uval_put_words[OF assms]) (simp_all only: length_replicate wval_replicate_ones)
qed

lemma ap_bits_from [simp]:
  "ap_bits (from_u128 b v) = b" "ap_bits (from_i64 b i) = b" "ap_bits (from_i128 b i) = b"
  "ap_bits (from_words b ws n) = b" "ap_bits (all_ones b) = b"
  by (simp_all add: from_u128_def from_i64_def from_i128_def from_words_def all_ones_def Let_def)

section \<open>Bits\<close>

lemma word_bit_test: "drop_bit k w AND 1 \<noteq> 0 \<longleftrightarrow> bit (w :: 'a::len word) k"
  by (simp add: bit_iff_odd_drop_bit and_one_eq odd_iff_mod_2_eq_one)

lemma bit_ap_correct:
  assumes "ap_wf a" "i < ap_bits a"
  shows "bit_ap a i \<longleftrightarrow> bit (uval a) i"
proof -
  have "i div 64 < length (ap_words a)"
    using assms(2) words_for_ge[OF ap_wfD(1)[OF assms(1)]] ap_wfD(2)[OF assms(1)] by linarith
  then show ?thesis by (simp add: bit_ap_def word_bit_test uval_def bit_wval)
qed

lemma bit_top_iff: "0 < n \<Longrightarrow> (u :: nat) < 2 ^ n \<Longrightarrow> bit u (n - 1) \<longleftrightarrow> 2 ^ (n - 1) \<le> u"
proof -
  assume n: "0 < n" "u < 2 ^ n"
  then have "u div 2 ^ (n - 1) < 2" by (simp add: pow_pred[OF n(1)] less_mult_imp_div_less)
  then have "u div 2 ^ (n - 1) = (if 2 ^ (n - 1) \<le> u then 1 else 0)"
    using div_greater_zero_iff[of u "2 ^ (n - 1)"] by auto
  then show ?thesis by (simp add: bit_iff_odd)
qed

lemma is_neg_correct:
  assumes "ap_wf a"
  shows "is_neg a \<longleftrightarrow> sval a < 0" "is_neg a \<longleftrightarrow> 2 ^ (ap_bits a - 1) \<le> uval a"
proof -
  note wf = ap_wfD[OF assms]
  have "is_neg a \<longleftrightarrow> bit (uval a) (ap_bits a - 1)"
    unfolding is_neg_def using wf(4) by (intro bit_ap_correct[OF assms]) simp
  with bit_top_iff[OF wf(4,3)] show le: "is_neg a \<longleftrightarrow> 2 ^ (ap_bits a - 1) \<le> uval a" by simp
  have "int (uval a) < 2 ^ ap_bits a"
    using wf(3) by (metis of_nat_less_iff of_nat_numeral of_nat_power)
  then show "is_neg a \<longleftrightarrow> sval a < 0"
    unfolding le by (simp add: sval_def not_le)
qed


lemma set_bit_ap_correct:
  assumes "ap_wf a" "i < ap_bits a"
  shows "ap_wf (set_bit_ap a i v)" "ap_bits (set_bit_ap a i v) = ap_bits a"
    and "bit (uval (set_bit_ap a i v)) j \<longleftrightarrow> (if j = i then v else bit (uval a) j)"
proof -
  note wf = ap_wfD[OF assms(1)]
  have il: "i div 64 < length (ap_words a)"
    using assms(2) words_for_ge[OF wf(1)] wf(2) by linarith
  have ji: "j div 64 = i div 64 \<Longrightarrow> j mod 64 = i mod 64 \<Longrightarrow> j = i" for j
    by (metis mult_div_mod_eq)
  have b: "bit (uval (set_bit_ap a i v)) j \<longleftrightarrow> (if j = i then v else bit (uval a) j)" for j
    using il ji[of j] by (auto simp: set_bit_ap_def Let_def uval_def bit_wval nth_list_update bit_simps)
  then show "bit (uval (set_bit_ap a i v)) j \<longleftrightarrow> (if j = i then v else bit (uval a) j)" .
  show bb: "ap_bits (set_bit_ap a i v) = ap_bits a" by (simp add: set_bit_ap_def Let_def)
  have "uval (set_bit_ap a i v) < 2 ^ ap_bits a"
    unfolding nat_less_pow_iff_bits using b assms(2) wf(3)[unfolded nat_less_pow_iff_bits] by auto
  then show "ap_wf (set_bit_ap a i v)"
    using wf bb unfolding ap_wf_def by (simp add: set_bit_ap_def Let_def)
qed

section \<open>Conversions\<close>

lemma signed_take_bit_word:
  "k \<le> LENGTH('a) \<Longrightarrow> 0 < k \<Longrightarrow>
   drop_bit (LENGTH('a) - k) (sint (push_bit (LENGTH('a) - k) (w :: 'a::len word)))
    = signed_take_bit (k - 1) (uint w)"
  by (rule bit_eqI)
    (auto simp: bit_simps bit_sint_iff min_def not_le not_less bit_uint_iff)

lemma sext64_correct:
  assumes "ap_wf a" "is_single a"
  shows "sext64 a = sval a"
proof -
  have "sext64 a = signed_take_bit (ap_bits a - 1) (uint (ap_val a))"
    using signed_take_bit_word[of "ap_bits a" "ap_val a"] assms ap_wfD(4)[OF assms(1)]
    by (simp add: sext64_def is_single_def Let_def)
  also have "uint (ap_val a) = int (uval a)"
    unfolding single_uval[OF assms, symmetric] by simp
  finally show ?thesis using sval_signed_take_bit[OF assms(1)] by simp
qed

lemma to_u64_correct:
  assumes "ap_wf a"
  shows "unat (to_u64 a) = uval a mod 2 ^ 64"
proof -
  have "0 < length (ap_words a)" using ap_wfD[OF assms] by simp
  then show ?thesis
    using w64.val_nth[of 0 "ap_words a"] by (simp add: to_u64_def uval_def base64_def)
qed

lemma to_u64_small: "ap_wf a \<Longrightarrow> is_single a \<Longrightarrow> unat (to_u64 a) = uval a"
  by (simp add: to_u64_def single_uval)

lemma to_i64_correct:
  assumes "ap_wf a"
  shows "is_single a \<Longrightarrow> to_i64 a = sval a"
    and "\<not> is_single a \<Longrightarrow> to_i64 a = signed_take_bit 63 (int (uval a))"
proof -
  show "is_single a \<Longrightarrow> to_i64 a = sval a"
    by (simp add: to_i64_def sext64_correct[OF assms])
  assume "\<not> is_single a"
  then have "to_i64 a = signed_take_bit 63 (int (unat (to_u64 a)))"
    by (simp add: to_i64_def to_u64_def sint_uint)
  also have "\<dots> = signed_take_bit 63 (int (uval a))"
    unfolding to_u64_correct[OF assms] zmod_int of_nat_power of_nat_numeral
    by (simp add: signed_take_bit_eq_iff_take_bit_eq take_bit_eq_mod)
  finally show "to_i64 a = signed_take_bit 63 (int (uval a))" .
qed

lemma get128_low:
  "2 \<le> length (ap_words a) \<Longrightarrow> unat (get128 a) = uval a mod 2 ^ 128"
proof -
  assume l: "2 \<le> length (ap_words a)"
  then obtain x y ws where w: "ap_words a = x # y # ws"
    by (metis One_nat_def Suc_1 Suc_le_length_iff)
  let ?b = "\<lparr>ap_bits = 128, ap_words = [x, y]\<rparr>"
  have wf: "ap_wf ?b"
    using wval_bound[of "[x, y]"]
    by (simp add: ap_wf_def uval_def width_ok_def words_for_eq)
  have "unat (get128 a) = unat (get128 ?b)" by (simp add: get128_def w)
  also have "\<dots> = wval (take 2 (ap_words a))"
    using double_uval[OF wf] by (simp add: is_single_def uval_def w)
  also have "\<dots> = uval a mod 2 ^ 128"
    by (simp only: w64.val_take base64_pow uval_def) simp
  finally show ?thesis .
qed

lemma to_u128_correct:
  assumes "ap_wf a"
  shows "unat (to_u128 a) = uval a mod 2 ^ 128"
proof (cases "is_single a")
  case True
  then have "uval a < 2 ^ 64" using single_uval[OF assms True] unsigned_less[of "ap_val a", where ?'a = nat] by simp
  then have "uval a mod 2 ^ 128 = uval a" by simp
  then show ?thesis using True single_uval[OF assms True] by (simp add: to_u128_def)
next
  case False
  then have "words_for (ap_bits a) \<noteq> Suc 0"
    using words_for_1[OF ap_wfD(1)[OF assms]] by (simp add: is_single_def)
  then have "2 \<le> length (ap_words a)"
    using ap_wfD(2)[OF assms] words_for_pos[OF ap_wfD(1)[OF assms]] by linarith
  then show ?thesis using False get128_low[of a] by (simp add: to_u128_def)
qed

lemma to_i128_correct:
  assumes "ap_wf a" "ap_bits a \<le> 128"
  shows "to_i128 a = sval a"
proof -
  have "uval a < 2 ^ 128"
    using ap_wfD(3)[OF assms(1)] power_increasing[OF assms(2), of "2 :: nat"] by linarith
  then have u: "unat (to_u128 a) = uval a" using to_u128_correct[OF assms(1)] by simp
  have "to_i128 a = signed_take_bit (ap_bits a - 1) (uint (to_u128 a))"
  proof (cases "ap_bits a = 128")
    case True
    then show ?thesis by (simp add: to_i128_def sint_uint)
  next
    case False
    then show ?thesis
      using signed_take_bit_word[of "ap_bits a" "to_u128 a"] assms(2) ap_wfD(4)[OF assms(1)]
      by (simp add: to_i128_def Let_def)
  qed
  also have "uint (to_u128 a) = int (uval a)" by (simp flip: u)
  finally show ?thesis using sval_signed_take_bit[OF assms(1)] by simp
qed

section \<open>Counting\<close>

lemma is_zero_correct: "ap_wf a \<Longrightarrow> is_zero a \<longleftrightarrow> uval a = 0"
proof -
  assume wf: "ap_wf a"
  have "is_zero_wide a \<longleftrightarrow> uval a = 0"
    unfolding uval_def w64.val_zero_iff
    by (simp only: is_zero_wide_def list_all_length all_set_conv_all_nth unat_eq_zero ap_wfD(6)[OF wf])
      simp
  then show ?thesis
    using single_uval[OF wf] by (auto simp: is_zero_def unat_eq_zero)
qed

lemma list_all_upt_tl:
  "list_all (\<lambda>i. P ((x # ws) ! i)) [1..<Suc (length ws)] \<longleftrightarrow> list_all P ws"
proof -
  have "[1..<Suc (length ws)] = map Suc [0..<length ws]" by (simp add: map_Suc_upt)
  then show ?thesis by (auto simp: list_all_length list.pred_map comp_def)
qed

lemma is_one_correct:
  assumes "ap_wf a"
  shows "is_one a \<longleftrightarrow> uval a = 1"
proof -
  obtain w ws where w: "ap_words a = w # ws"
    using ap_wfD(2)[OF assms] words_for_pos[OF ap_wfD(1)[OF assms]] by (cases "ap_words a") auto
  have n: "num_words a = Suc (length ws)" using ap_wfD(6)[OF assms] w by simp
  have "is_one a \<longleftrightarrow> w = 1 \<and> list_all (\<lambda>x. x = 0) ws"
    unfolding is_one_def w n using list_all_upt_tl[of "\<lambda>x. x = 0" w ws] by simp
  also have "\<dots> \<longleftrightarrow> w = 1 \<and> wval ws = 0"
    by (simp add: w64.val_zero_iff list_all_iff unat_eq_zero)
  also have "\<dots> \<longleftrightarrow> wval (w # ws) = 1"
  proof
    show "w = 1 \<and> wval ws = 0 \<Longrightarrow> wval (w # ws) = 1" by simp
    assume e: "wval (w # ws) = 1"
    have "wval ws = 0"
    proof (rule ccontr)
      assume "wval ws \<noteq> 0"
      then have "base64 * 1 \<le> base64 * wval ws" by (intro mult_le_mono2) simp
      with e show False using w64.base_gt1 by simp
    qed
    with e have "unat w = 1" by simp
    with \<open>wval ws = 0\<close> show "w = 1 \<and> wval ws = 0"
      by (metis unsigned_1 unsigned_word_eqI)
  qed
  finally show ?thesis by (simp add: uval_def w)
qed

lemma nat_bits_finite: "finite {i. bit (n :: nat) i}"
proof (rule finite_subset)
  show "{i. bit n i} \<subseteq> {..<n}"
  proof
    fix i assume "i \<in> {i. bit n i}"
    then have "bit n i" by simp
    from nat_bit_less[OF this less_exp[of n]] show "i \<in> {..<n}" by simp
  qed
qed simp

lemma popcount_wval: "sum_list (map std_popcount ws) = card {i. bit (wval ws) i}"
proof (induction ws)
  case (Cons w ws)
  have w: "unat w < 2 ^ 64" using unsigned_less[of w, where ?'a = nat] by simp
  have split: "{i. bit (wval (w # ws)) i} = {i. bit w i} \<union> (\<lambda>i. i + 64) ` {i. bit (wval ws) i}"
  proof (rule set_eqI)
    fix i
    have "bit (wval (w # ws)) i = (if i < 64 then bit w i else bit (wval ws) (i - 64))"
      using bit_add_mult_pow[OF w, of "wval ws" i] by (simp add: base64_def bit_unsigned_iff)
    moreover have "bit w i \<Longrightarrow> i < 64" using bit_imp_le_length[of w i] by simp
    moreover have "i \<in> (\<lambda>i. i + 64) ` {i. bit (wval ws) i} \<longleftrightarrow> 64 \<le> i \<and> bit (wval ws) (i - 64)"
      by (auto intro!: image_eqI[of _ _ "i - 64"])
    ultimately show "i \<in> {i. bit (wval (w # ws)) i} \<longleftrightarrow>
        i \<in> {i. bit w i} \<union> (\<lambda>i. i + 64) ` {i. bit (wval ws) i}" by auto
  qed
  have "card {i. bit (wval (w # ws)) i} = card {i. bit w i} + card {i. bit (wval ws) i}"
    unfolding split
  proof (subst card_Un_disjoint)
    have lt: "{i. bit w i} \<subseteq> {..<64}" using bit_imp_le_length[of w] by auto
    then show "finite {i. bit w i}" by (rule finite_subset) simp
    show "finite ((\<lambda>i. i + 64) ` {i. bit (wval ws) i})" by (simp add: nat_bits_finite)
    show "{i. bit w i} \<inter> (\<lambda>i. i + 64) ` {i. bit (wval ws) i} = {}" using lt by auto
  qed (simp add: card_image)
  then show ?case
    using Cons.IH std_popcount_card[of w] by (simp only: list.map sum_list.Cons)
qed simp

lemma popcount_correct: "ap_wf a \<Longrightarrow> popcount a = card {i. bit (uval a) i}"
proof -
  assume wf: "ap_wf a"
  have "map (\<lambda>i. std_popcount (ap_words a ! i)) [0..<num_words a] = map std_popcount (ap_words a)"
    by (rule nth_equalityI) (simp_all add: ap_wfD(6)[OF wf])
  then show ?thesis by (simp only: popcount_def uval_def popcount_wval)
qed

lemma is_all_ones_correct:
  assumes "ap_wf a"
  shows "is_all_ones a \<longleftrightarrow> uval a = 2 ^ ap_bits a - 1"
proof -
  let ?S = "{i. bit (uval a) i}"
  have sub: "?S \<subseteq> {..<ap_bits a}"
    using ap_wfD(3)[OF assms, unfolded nat_less_pow_iff_bits] by auto
  have "is_all_ones a \<longleftrightarrow> card ?S = card {..<ap_bits a}"
    by (simp add: is_all_ones_def popcount_correct[OF assms])
  also have "\<dots> \<longleftrightarrow> ?S = {..<ap_bits a}"
    using card_subset_eq[OF finite_lessThan sub] by (intro iffI) simp_all
  also have "\<dots> \<longleftrightarrow> uval a = mask (ap_bits a)"
    by (simp add: set_eq_iff bit_eq_iff[of "uval a"] bit_mask_iff)
  finally show ?thesis by (simp only: mask_eq_exp_minus_1)
qed

lemma is_pow2_correct:
  assumes "ap_wf a"
  shows "is_pow2 a \<longleftrightarrow> (\<exists>k < ap_bits a. uval a = 2 ^ k)"
proof -
  have "is_pow2 a \<longleftrightarrow> (\<exists>k. {i. bit (uval a) i} = {k})"
    by (simp add: is_pow2_def popcount_correct[OF assms] card_1_singleton_iff)
  also have "\<dots> \<longleftrightarrow> (\<exists>k. uval a = 2 ^ k)"
    by (auto simp: set_eq_iff bit_eq_iff[of "uval a"] bit_exp_iff)
  also have "\<dots> \<longleftrightarrow> (\<exists>k < ap_bits a. uval a = 2 ^ k)"
    using ap_wfD(3)[OF assms] by auto
  finally show ?thesis .
qed

lemma ctz_loop_zero: "ctz_loop ws i b = b \<or> (\<exists>w\<in>set ws. w \<noteq> 0)"
  by (induction ws arbitrary: i) auto

lemma ctz_loop_bits:
  "wval ws \<noteq> 0 \<Longrightarrow> \<exists>k. ctz_loop ws i b = i * 64 + k \<and> bit (wval ws) k \<and> (\<forall>j < k. \<not> bit (wval ws) j)"
proof (induction ws arbitrary: i)
  case (Cons w ws)
  have lt: "unat w < 2 ^ 64" using unsigned_less[of w, where ?'a = nat] by simp
  have bw: "bit (wval (w # ws)) j = (if j < 64 then bit w j else bit (wval ws) (j - 64))" for j
    using bit_add_mult_pow[OF lt, of "wval ws" j] by (simp add: base64_def bit_unsigned_iff)
  show ?case
  proof (cases "w = 0")
    case True
    then have "wval ws \<noteq> 0" using Cons.prems by simp
    from Cons.IH[OF this, of "Suc i"] obtain k where
      "ctz_loop ws (Suc i) b = Suc i * 64 + k" "bit (wval ws) k" "\<forall>j < k. \<not> bit (wval ws) j" by blast
    then show ?thesis
      using True by (intro exI[of _ "64 + k"]) (simp del: digits_val.simps add: bw[unfolded True])
  next
    case False
    from std_countr_zero_less[OF this] have "std_countr_zero w < 64" by simp
    then show ?thesis
      using False std_countr_zero_bit[OF False] std_countr_zero_below[of _ w]
      by (intro exI[of _ "std_countr_zero w"]) (simp del: digits_val.simps add: bw)
  qed
qed simp

lemma ctz_correct:
  assumes "ap_wf a"
  shows "uval a = 0 \<Longrightarrow> ctz a = ap_bits a"
    and "uval a \<noteq> 0 \<Longrightarrow> bit (uval a) (ctz a)"
    and "j < ctz a \<Longrightarrow> \<not> bit (uval a) j"
    and "ctz a \<le> ap_bits a"
proof -
  have ctz: "ctz a = ctz_loop (ap_words a) 0 (ap_bits a)"
    using ap_wfD(6)[OF assms] by (simp add: ctz_def)
  show z: "ctz a = ap_bits a" if "uval a = 0"
  proof -
    have "\<not> (\<exists>w\<in>set (ap_words a). w \<noteq> 0)"
      using that unfolding uval_def w64.val_zero_iff by (simp add: unat_eq_zero)
    then show ?thesis using ctz ctz_loop_zero[of "ap_words a" 0 "ap_bits a"] by simp
  qed
  have nz: "bit (uval a) (ctz a) \<and> (\<forall>j < ctz a. \<not> bit (uval a) j)" if "uval a \<noteq> 0"
    using ctz_loop_bits[of "ap_words a" 0 "ap_bits a"] that ctz by (auto simp: uval_def)
  then show "uval a \<noteq> 0 \<Longrightarrow> bit (uval a) (ctz a)" by blast
  show "j < ctz a \<Longrightarrow> \<not> bit (uval a) j" using nz by (cases "uval a = 0") auto
  show "ctz a \<le> ap_bits a"
    using nz z ap_wfD(3)[OF assms, unfolded nat_less_pow_iff_bits] by (cases "uval a = 0") auto
qed

lemma wval_top_word:
  assumes i: "i < length ws" and lt: "wval ws < 2 ^ (64 * Suc i)" and nz: "ws ! i \<noteq> 0"
  shows "wval ws < 2 ^ (64 * Suc i - std_countl_zero (ws ! i)) \<and>
    2 ^ (64 * Suc i - std_countl_zero (ws ! i) - 1) \<le> wval ws"
proof -
  let ?z = "std_countl_zero (ws ! i)"
  have z: "?z < 64" using std_countl_zero_less[OF nz] by simp
  have "wval ws = wval (take (Suc i) ws)"
    using lt by (simp only: w64.val_take base64_pow mod_less)
  also have "\<dots> = wval (take i ws) + 2 ^ (64 * i) * unat (ws ! i)"
    using i by (simp add: take_Suc_conv_app_nth w64.val_append base64_pow)
  finally have eq: "wval ws = wval (take i ws) + 2 ^ (64 * i) * unat (ws ! i)" .
  have lo: "wval (take i ws) < 2 ^ (64 * i)" using wval_bound[of "take i ws"] i by simp
  have "unat (ws ! i) < 2 ^ (64 - ?z)" using std_countl_zero_bound[of "ws ! i"] by simp
  then have "unat (ws ! i) + 1 \<le> 2 ^ (64 - ?z)" by simp
  then have "2 ^ (64 * i) * (unat (ws ! i) + 1) \<le> 2 ^ (64 * i) * 2 ^ (64 - ?z)"
    by (rule mult_le_mono2)
  also have "\<dots> = (2::nat) ^ (64 * Suc i - ?z)" using z by (simp flip: power_add)
  finally have up: "wval ws < 2 ^ (64 * Suc i - ?z)" using eq lo by (simp add: algebra_simps)
  have "bit (unat (ws ! i)) (63 - ?z)"
    using std_countl_zero_bit[OF nz] by (simp add: bit_unsigned_iff)
  then have "2 ^ (63 - ?z) \<le> unat (ws ! i)"
    by (metis bit_nat_def div_less even_zero linorder_not_less bit_iff_odd)
  then have "2 ^ (64 * i) * 2 ^ (63 - ?z) \<le> 2 ^ (64 * i) * unat (ws ! i)"
    by (rule mult_le_mono2)
  moreover have "2 ^ (64 * i) * 2 ^ (63 - ?z) = (2::nat) ^ (64 * Suc i - ?z - 1)"
    using z by (simp flip: power_add)
  ultimately show ?thesis using up eq by simp
qed

text \<open>\<^verbatim>\<open>clz\<close>: \<open>c\<close> counts the zero bits above word \<open>i\<close> of the array.\<close>

lemma clz_loop_correct:
  assumes "i \<le> length ws" "n = length ws" "c = 64 * (n - i)" "wval ws < 2 ^ (64 * i)"
    "b \<le> 64 * n" "wval ws < 2 ^ b" "64 * n < b + 64"
  shows "wval ws < 2 ^ (b - clz_loop ws b n c i) \<and> clz_loop ws b n c i \<le> b \<and>
    (wval ws \<noteq> 0 \<longrightarrow> 2 ^ (b - clz_loop ws b n c i - 1) \<le> wval ws \<and> clz_loop ws b n c i < b)"
  using assms
proof (induction i arbitrary: c)
  case (Suc i)
  show ?case
  proof (cases "ws ! i = 0")
    case True
    have "wval ws = wval (take (Suc i) ws)"
      using Suc.prems(4) by (simp only: w64.val_take base64_pow mod_less)
    also have "\<dots> = wval (take i ws)"
      using Suc.prems(1) True by (simp add: take_Suc_conv_app_nth w64.val_append)
    also have "\<dots> < 2 ^ (64 * i)"
      using wval_bound[of "take i ws"] Suc.prems(1) by simp
    finally have "wval ws < 2 ^ (64 * i)" .
    then show ?thesis
    proof -
      have c: "c + 64 = 64 * (n - i)" using Suc.prems(1-3) by linarith
      have "clz_loop ws b n c (Suc i) = clz_loop ws b n (c + 64) i" using True by simp
      then show ?thesis
        using Suc.IH[OF _ Suc.prems(2) c \<open>wval ws < 2 ^ (64 * i)\<close> Suc.prems(5-7)] Suc.prems(1)
        by (simp only:) simp
    qed
  next
    case False
    let ?z = "std_countl_zero (ws ! i)"
    have z: "?z < 64" using std_countl_zero_less[OF False] by simp
    have u: "wval ws < 2 ^ (64 * Suc i - ?z) \<and> 2 ^ (64 * Suc i - ?z - 1) \<le> wval ws"
      by (rule wval_top_word[OF _ Suc.prems(4) False]) (use Suc.prems(1) in simp)
    have r: "clz_loop ws b n c (Suc i) = c + ?z - (n * 64 - b)" using False by simp
    have "64 * Suc i - ?z - 1 < b"
    proof -
      have "(2::nat) ^ (64 * Suc i - ?z - 1) < 2 ^ b" using u Suc.prems(6) by linarith
      then show ?thesis by simp
    qed
    then have "64 * Suc i - ?z \<le> b" by linarith
    then obtain s where s: "b = 64 * Suc i - ?z + s" using le_iff_add by blast
    obtain k where k: "n = Suc i + k"
      using Suc.prems(1,2) le_iff_add[of "Suc i" n] by auto
    have "c = 64 * k" using k Suc.prems(3) by simp
    moreover from z obtain t where "64 = ?z + t" by (metis less_imp_add_positive)
    ultimately have "c + ?z - (n * 64 - b) = s" using Suc.prems(5) s k by simp
    moreover have "b - s = 64 * Suc i - ?z" using s by simp
    moreover have "s < b" unfolding s using z by simp
    ultimately show ?thesis using u r by simp
  qed
qed simp

lemma clz_loop_zero: "\<forall>j < i. ws ! j = 0 \<Longrightarrow> clz_loop ws b n c i = b"
  by (induction i arbitrary: c) simp_all

lemma clz_zero: "ap_wf a \<Longrightarrow> uval a = 0 \<Longrightarrow> clz a = ap_bits a"
  unfolding clz_def
  by (rule clz_loop_zero) (simp add: uval_def w64.val_zero_iff unat_eq_zero ap_wfD(6)[symmetric])

lemma clz_correct:
  assumes "ap_wf a"
  shows "clz a \<le> ap_bits a" "uval a < 2 ^ (ap_bits a - clz a)"
    and "uval a \<noteq> 0 \<Longrightarrow> clz a < ap_bits a \<and> 2 ^ (ap_bits a - clz a - 1) \<le> uval a"
proof -
  note wf = ap_wfD[OF assms]
  have "64 * words_for (ap_bits a) < ap_bits a + 64" by (simp add: words_for_eq[OF wf(1)])
  then have "wval (ap_words a) < 2 ^ (ap_bits a - clz a) \<and> clz a \<le> ap_bits a \<and>
    (wval (ap_words a) \<noteq> 0 \<longrightarrow>
      2 ^ (ap_bits a - clz a - 1) \<le> wval (ap_words a) \<and> clz a < ap_bits a)"
    unfolding clz_def wf(5)
    using wf(2) words_for_ge[OF wf(1)] wval_bound[of "ap_words a"] wf(3)[unfolded uval_def]
    by (intro clz_loop_correct) simp_all
  then show "clz a \<le> ap_bits a" "uval a < 2 ^ (ap_bits a - clz a)"
    "uval a \<noteq> 0 \<Longrightarrow> clz a < ap_bits a \<and> 2 ^ (ap_bits a - clz a - 1) \<le> uval a"
    unfolding uval_def by simp_all
qed

lemma active_bits_le_iff:
  assumes "ap_wf a"
  shows "active_bits a \<le> k \<longleftrightarrow> uval a < 2 ^ k"
proof
  assume "active_bits a \<le> k"
  then have "(2 :: nat) ^ (ap_bits a - clz a) \<le> 2 ^ k" by (simp add: active_bits_def)
  with clz_correct(2)[OF assms] show "uval a < 2 ^ k" by (rule less_le_trans)
next
  assume lt: "uval a < 2 ^ k"
  show "active_bits a \<le> k"
  proof (cases "uval a = 0")
    case True

    then show ?thesis by (simp add: active_bits_def clz_zero[OF assms])
  next
    case False
    with clz_correct(3)[OF assms] lt have "(2::nat) ^ (ap_bits a - clz a - 1) < 2 ^ k" by linarith
    then show ?thesis by (simp add: active_bits_def)
  qed
qed

lemma log2_correct:
  assumes "ap_wf a" "uval a \<noteq> 0"
  shows "2 ^ log2_ap a \<le> uval a" "uval a < 2 ^ (log2_ap a + 1)"
proof -
  have "ap_bits a - clz a = log2_ap a + 1"
    using clz_correct(3)[OF assms] unfolding log2_ap_def active_bits_def by linarith
  then show "2 ^ log2_ap a \<le> uval a" "uval a < 2 ^ (log2_ap a + 1)"
    using clz_correct(2)[OF assms(1)] clz_correct(3)[OF assms] by simp_all
qed

lemma fits_u64_correct: "ap_wf a \<Longrightarrow> fits_u64 a \<longleftrightarrow> uval a < 2 ^ 64"
  by (simp only: fits_u64_def active_bits_le_iff)

end
