(* ===== verification/APIntArith.thy ===== *)
theory APIntArith
  imports APIntRep
begin

text \<open>
  The laws of \<^verbatim>\<open>APInt\<close>'s arithmetic, bitwise, width changing, shift and comparison operations
  (\<^verbatim>\<open>APInt.hpp\<close>, \<^verbatim>\<open>APInt.cpp\<close>), each for the three representations the code distinguishes: one
  word, a native 128 bit integer, and the word loops.
\<close>

section \<open>Results modulo the width\<close>

text \<open>
  \<open>ap_is b k x\<close>: \<open>x\<close> is well formed, has width \<open>b\<close> and holds the integer \<open>k\<close> modulo \<open>2 ^ b\<close>.
  The law of every operation is stated with it, for the unsigned and the signed reading alike.
\<close>

abbreviation ival :: "apint \<Rightarrow> int" where "ival a \<equiv> int (uval a)"

definition ap_is :: "nat \<Rightarrow> int \<Rightarrow> apint \<Rightarrow> bool" where
  "ap_is b k x \<longleftrightarrow> ap_wf x \<and> ap_bits x = b \<and> ival x = k mod 2 ^ b"

definition same_width :: "apint \<Rightarrow> apint \<Rightarrow> bool" where
  "same_width a b \<longleftrightarrow> ap_wf a \<and> ap_wf b \<and> ap_bits b = ap_bits a"

lemma same_widthD:
  assumes "same_width a b"
  shows "ap_wf a" "ap_wf b" "ap_bits b = ap_bits a" "width_ok (ap_bits a)" "num_words b = num_words a"
    "is_single b = is_single a"
  using assms by (auto simp: same_width_def ap_wf_def num_words_def is_single_def)

lemma ap_isD:
  assumes "ap_is b k x"
  shows "ap_wf x" "ap_bits x = b" "ival x = k mod 2 ^ b" "uval x = nat (k mod 2 ^ b)"
    "sval x = signed_take_bit (b - 1) k"
  using assms sval_eq_signed_take_bit[of x k] by (auto simp: ap_is_def)

lemma ap_is_cong: "ap_is b k x \<Longrightarrow> k mod 2 ^ b = l mod 2 ^ b \<Longrightarrow> ap_is b l x"
  by (simp add: ap_is_def)

lemma ap_is_mod: "b \<le> n \<Longrightarrow> ap_is b (k mod 2 ^ n) x \<longleftrightarrow> ap_is b k x"
  by (simp add: ap_is_def pow_le_mod)

lemma ap_is_self: "ap_wf a \<Longrightarrow> ap_is (ap_bits a) (ival a) a"
  using sval_mod[of a] by (metis ap_is_def mod_mod_trivial)

lemma ap_is_self_s: "ap_wf a \<Longrightarrow> ap_is (ap_bits a) (sval a) a"
  by (simp add: ap_is_def sval_mod)

lemma ap_is_inject: "ap_is b k x \<Longrightarrow> ap_is b k y \<Longrightarrow> x = y"
  by (rule ap_wf_eqI) (auto simp: ap_is_def)

lemma mk_is: "width_ok b \<Longrightarrow> ap_is b (uint v) (mk_ap b v)"
  by (simp add: ap_is_def mk_ap_correct zmod_int)

lemma mk_mod_is: "width_ok b \<Longrightarrow> b \<le> 64 \<Longrightarrow> uint v = k mod 2 ^ 64 \<Longrightarrow> ap_is b k (mk_ap b v)"
  using mk_is[of b v] ap_is_mod[of b 64 k] by simp

lemma u128_is: "width_ok b \<Longrightarrow> ap_is b (uint v) (from_u128 b v)"
  by (simp add: ap_is_def from_u128_correct zmod_int)

lemma u128_mod_is: "width_ok b \<Longrightarrow> b \<le> 128 \<Longrightarrow> uint v = k mod 2 ^ 128 \<Longrightarrow> ap_is b k (from_u128 b v)"
  using u128_is[of b v] ap_is_mod[of b 128 k] by simp

lemma words_is:
  "width_ok b \<Longrightarrow> length ws = words_for b \<Longrightarrow> int (wval ws) = k mod 2 ^ (64 * words_for b) \<Longrightarrow>
   ap_is b k (clear_unused ((zero_tag b)\<lparr>ap_words := ws\<rparr>))"
  using ap_is_mod[of b "64 * words_for b" k] words_for_ge[of b]
  by (simp add: ap_is_def uval_put_words wf_put_words zmod_int pow_le_mod)

text \<open>A word array that is already below \<open>2 ^ b\<close> needs no clearing.\<close>

lemma words_small_is:
  "width_ok b \<Longrightarrow> length ws = words_for b \<Longrightarrow> wval ws < 2 ^ b \<Longrightarrow>
   ap_is b (int (wval ws)) ((zero_tag b)\<lparr>ap_words := ws\<rparr>)"
  by (simp add: ap_is_def ap_wf_def uval_def zmod_int[symmetric])

lemma zero_is: "width_ok b \<Longrightarrow> ap_is b 0 (zero_ap b)"
  by (simp add: ap_is_def zero_ap_correct)

lemma zero_tag_is: "width_ok b \<Longrightarrow> ap_is b 0 (zero_tag b)"
  by (simp add: ap_is_def wf_zero_tag uval_zero_tag)

lemma all_ones_is: "width_ok b \<Longrightarrow> ap_is b (- 1) (all_ones b)"
  by (simp add: ap_is_def all_ones_correct of_nat_diff zmod_minus1)

lemma from_i64_is: "width_ok b \<Longrightarrow> - (2 ^ 63) \<le> v \<Longrightarrow> v < 2 ^ 63 \<Longrightarrow> ap_is b v (from_i64 b v)"
  by (simp add: ap_is_def from_i64_correct)

lemma from_i128_is: "width_ok b \<Longrightarrow> - (2 ^ 127) \<le> v \<Longrightarrow> v < 2 ^ 127 \<Longrightarrow> ap_is b v (from_i128 b v)"
  by (simp add: ap_is_def from_i128_correct)

text \<open>The words of a value as integers, in the two native cases.\<close>

lemma single_ival: "ap_wf a \<Longrightarrow> is_single a \<Longrightarrow> uint (ap_val a) = ival a"
  by (simp flip: single_uval)

lemma double_ival: "ap_wf a \<Longrightarrow> \<not> is_single a \<Longrightarrow> ap_bits a \<le> 128 \<Longrightarrow> uint (get128 a) = ival a"
  by (simp flip: double_uval)

section \<open>Ring operations\<close>

lemma add_wide_is:
  assumes "same_width a b" "\<not> is_single a"
  shows "ap_is (ap_bits a) (ival a + ival b) (add_wide a b)"
proof (cases "ap_bits a \<le> 128")
  case True
  with assms show ?thesis
    by (simp add: add_wide_def same_widthD u128_mod_is uint_word_ariths double_ival)
next
  case False
  then show ?thesis
    using same_widthD[OF assms(1)] add_n_correct[of "ap_words a" "num_words a" "ap_words b"]
    by (simp add: add_wide_def words_is ap_wfD zmod_int uval_def)
qed

lemma add_is:
  assumes "same_width a b"
  shows "ap_is (ap_bits a) (ival a + ival b) (add_ap a b)"
  using assms add_wide_is[OF assms] same_widthD[OF assms]
  by (auto simp: add_ap_def uint_word_ariths single_ival is_single_def intro!: mk_mod_is)

lemma sub_wide_is:
  assumes "same_width a b" "\<not> is_single a"
  shows "ap_is (ap_bits a) (ival a - ival b) (sub_wide a b)"
proof (cases "ap_bits a \<le> 128")
  case True
  with assms show ?thesis
    by (simp add: sub_wide_def same_widthD u128_mod_is uint_word_ariths double_ival)
next
  case False
  then show ?thesis
    using same_widthD[OF assms(1)] sub_n_correct[of "ap_words a" "num_words a" "ap_words b"]
    by (simp add: sub_wide_def words_is ap_wfD uval_def)
qed

lemma sub_is:
  assumes "same_width a b"
  shows "ap_is (ap_bits a) (ival a - ival b) (sub_ap a b)"
  using assms sub_wide_is[OF assms] same_widthD[OF assms]
  by (auto simp: sub_ap_def uint_word_ariths single_ival is_single_def intro!: mk_mod_is)

lemma mul_wide_is:
  assumes "same_width a b" "\<not> is_single a"
  shows "ap_is (ap_bits a) (ival a * ival b) (mul_wide a b)"
proof (cases "ap_bits a \<le> 128")
  case True
  with assms show ?thesis
    by (simp add: mul_wide_def same_widthD u128_mod_is uint_word_ariths double_ival)
next
  case False
  then show ?thesis
    using same_widthD[OF assms(1)] mul_n_correct[of "ap_words a" "num_words a" "ap_words b"]
    by (simp add: mul_wide_def words_is ap_wfD zmod_int uval_def)
qed

lemma mul_is:
  assumes "same_width a b"
  shows "ap_is (ap_bits a) (ival a * ival b) (mul_ap a b)"
  using assms mul_wide_is[OF assms] same_widthD[OF assms]
  by (auto simp: mul_ap_def uint_word_ariths single_ival is_single_def intro!: mk_mod_is)

lemma neg_is:
  assumes "ap_wf a"
  shows "ap_is (ap_bits a) (- ival a) (neg_ap a)"
  using sub_is[of "zero_ap (ap_bits a)" a] assms ap_wfD(1)[OF assms]
  by (simp add: neg_ap_def same_width_def zero_ap_correct)

section \<open>Bitwise operations\<close>

lemma zip_words_is:
  assumes ab: "same_width a b"
    and f: "\<And>x y j. bit (f x y) j \<longleftrightarrow> g (bit x j) (bit y j)" and g: "\<not> g False False"
    and h: "\<And>j. bit (h :: nat) j \<longleftrightarrow> g (bit (uval a) j) (bit (uval b) j)"
  shows "ap_is (ap_bits a) (int h) (zip_words f a b)"
proof -
  note sw = same_widthD[OF ab]
  let ?ws = "map (\<lambda>i. f (ap_words a ! i) (ap_words b ! i)) [0..<num_words a]"
  have "wval ?ws = h"
  proof (rule bit_eqI)
    fix i
    have z: "i div 64 \<ge> num_words a \<Longrightarrow> \<not> bit (uval a) i \<and> \<not> bit (uval b) i"
      using ap_wfD(6)[OF sw(1)] ap_wfD(6)[OF sw(2)] sw(5) by (simp add: uval_def bit_wval)
    show "bit (wval ?ws) i = bit h i"
      using z g ap_wfD(6)[OF sw(1)] ap_wfD(6)[OF sw(2)] sw(5)
      by (cases "i div 64 < num_words a") (auto simp: h bit_wval f uval_def)
  qed
  moreover have "h < 2 ^ ap_bits a"
    using ap_wfD(3)[OF sw(1)] ap_wfD(3)[OF sw(2)] g unfolding sw(3) nat_less_pow_iff_bits h by metis
  ultimately show ?thesis
    using words_small_is[of "ap_bits a" ?ws] sw(4) by (simp add: zip_words_def num_words_def)
qed

lemma and_wide_is: "same_width a b \<Longrightarrow> ap_is (ap_bits a) (int (uval a AND uval b)) (and_wide a b)"
  unfolding and_wide_def by (rule zip_words_is[where g = "(\<and>)"]) (simp_all add: bit_simps)

lemma or_wide_is: "same_width a b \<Longrightarrow> ap_is (ap_bits a) (int (uval a OR uval b)) (or_wide a b)"
  unfolding or_wide_def by (rule zip_words_is[where g = "(\<or>)"]) (simp_all add: bit_simps)

lemma xor_wide_is: "same_width a b \<Longrightarrow> ap_is (ap_bits a) (int (uval a XOR uval b)) (xor_wide a b)"
  unfolding xor_wide_def by (rule zip_words_is[where g = "(\<noteq>)"]) (simp_all add: bit_simps)

lemma and_is:
  assumes "same_width a b"
  shows "ap_is (ap_bits a) (ival a AND ival b) (and_ap a b)"
  using and_wide_is[OF assms] same_widthD[OF assms]
    mk_is[of "ap_bits a" "ap_val a AND ap_val b"] single_ival[of a] single_ival[of b]
  by (auto simp: and_ap_def of_nat_and_eq uint_and)

lemma or_is:
  assumes "same_width a b"
  shows "ap_is (ap_bits a) (ival a OR ival b) (or_ap a b)"
  using or_wide_is[OF assms] same_widthD[OF assms]
    mk_is[of "ap_bits a" "ap_val a OR ap_val b"] single_ival[of a] single_ival[of b]
  by (auto simp: or_ap_def of_nat_or_eq uint_or)

lemma xor_is:
  assumes "same_width a b"
  shows "ap_is (ap_bits a) (ival a XOR ival b) (xor_ap a b)"
  using xor_wide_is[OF assms] same_widthD[OF assms]
    mk_is[of "ap_bits a" "ap_val a XOR ap_val b"] single_ival[of a] single_ival[of b]
  by (auto simp: xor_ap_def of_nat_xor_eq uint_xor)

lemma uint_not_u64: "uint (NOT x :: u64) = NOT (uint x) mod 2 ^ 64"
  by (simp add: unsigned_not_eq take_bit_eq_mod)

lemma int_wval_not: "int (wval (map NOT ws)) = NOT (int (wval ws)) mod 2 ^ (64 * length ws)"
proof (rule bit_eqI)
  fix i
  have "i div 64 < length ws \<longleftrightarrow> i < 64 * length ws"
    by (simp add: div_less_iff_less_mult mult.commute)
  then show "bit (int (wval (map NOT ws))) i = bit (NOT (int (wval ws)) mod 2 ^ (64 * length ws)) i"
    by (auto simp: bit_wval bit_simps bit_of_nat_iff_bit simp flip: take_bit_eq_mod)
qed

lemma not_wide_is:
  assumes "ap_wf a"
  shows "ap_is (ap_bits a) (NOT (ival a)) (not_wide a)"
proof -
  note wf = ap_wfD[OF assms]
  have "map (\<lambda>i. NOT (ap_words a ! i)) [0..<num_words a] = map NOT (ap_words a)"
    by (rule nth_equalityI) (simp_all add: wf(6))
  then show ?thesis
    using int_wval_not[of "ap_words a"] wf by (simp add: not_wide_def words_is uval_def)
qed

lemma not_is:
  assumes "ap_wf a"
  shows "ap_is (ap_bits a) (NOT (ival a)) (not_ap a)"
  using not_wide_is[OF assms] ap_wfD[OF assms] single_ival[OF assms]
  by (auto simp: not_ap_def is_single_def uint_not_u64 intro!: mk_mod_is)

section \<open>In place operators\<close>

lemma set_val_mk:
  assumes "ap_wf a" "is_single a"
  shows "set_val a (v AND mask64 (ap_bits a)) = mk_ap (ap_bits a) v"
proof -
  obtain w where "ap_words a = [w]" using single_words[OF assms] by metis
  with assms(2) show ?thesis
    by (intro apint.equality) (simp_all add: set_val_def mk_ap_def is_single_def)
qed

lemma assign_eq:
  assumes "same_width a b"
  shows "add_assign a b = add_ap a b" "sub_assign a b = sub_ap a b" "mul_assign a b = mul_ap a b"
    "and_assign a b = and_ap a b" "or_assign a b = or_ap a b" "xor_assign a b = xor_ap a b"
proof -
  note sw = same_widthD[OF assms]
  note d = add_assign_def sub_assign_def mul_assign_def and_assign_def or_assign_def xor_assign_def
    add_ap_def sub_ap_def mul_ap_def and_ap_def or_ap_def xor_ap_def
  show "add_assign a b = add_ap a b" "sub_assign a b = sub_ap a b" "mul_assign a b = mul_ap a b"
    using sw(1) by (simp_all add: d set_val_mk)
  have val: "v AND mask64 (ap_bits a) = v" if "is_single a" "unat v < 2 ^ ap_bits a" for v
    using that ap_wfD(4)[OF sw(1)]
    by (intro unsigned_word_eqI[where ?'a = nat]) (simp add: unat_and_mask64 is_single_def)
  have lt: "unat (ap_val a) < 2 ^ ap_bits a" "unat (ap_val b) < 2 ^ ap_bits a" if "is_single a"
    using that single_uval[OF sw(1)] single_uval[OF sw(2)] ap_wfD(3)[OF sw(1)] ap_wfD(3)[OF sw(2)] sw(3,6)
    by simp_all
  have bits: "unat (ap_val a AND ap_val b) < 2 ^ ap_bits a" "unat (ap_val a OR ap_val b) < 2 ^ ap_bits a"
    "unat (ap_val a XOR ap_val b) < 2 ^ ap_bits a" if "is_single a"
    using lt[OF that] unfolding nat_less_pow_iff_bits by (auto simp: bit_unsigned_iff bit_simps)
  show "and_assign a b = and_ap a b" "or_assign a b = or_ap a b" "xor_assign a b = xor_ap a b"
    using bits val set_val_mk[OF sw(1)] by (metis d)+
qed

section \<open>Width changes\<close>

lemma ap_bits_zext [simp]: "ap_bits (zext_wide a n) = n"
  by (simp add: zext_wide_def Let_def)

lemma zext_wide_is:
  assumes "ap_wf a" "width_ok n" "ap_bits a \<le> n"
  shows "ap_is n (ival a) (zext_wide a n)"
proof -
  note wf = ap_wfD[OF assms(1)]
  let ?ws = "ap_words a @ replicate (words_for n - num_words a) 0"
  have le: "num_words a \<le> words_for n"
    using words_for_mono[OF wf(1) assms(2,3)] wf(5) by simp
  have eq: "zext_wide a n = (zero_tag n)\<lparr>ap_words := ?ws\<rparr>"
    using wf(6) by (simp add: zext_wide_def ap_words_zero_tag[OF assms(2)] Let_def)
  have v: "wval ?ws = uval a" by (simp add: w64.val_append w64.val_replicate_zero uval_def)
  moreover have "uval a < 2 ^ n"
    using wf(3) power_increasing[OF assms(3), of "2 :: nat"] by linarith
  ultimately show ?thesis
    using words_small_is[OF assms(2), of ?ws] le wf(6) by (simp add: eq)
qed

lemma zext_is:
  assumes "ap_wf a" "width_ok n" "ap_bits a \<le> n"
  shows "ap_is n (ival a) (zext a n)"
  using zext_wide_is[OF assms] assms mk_is[OF assms(2), of "ap_val a"] single_ival[OF assms(1)]
  by (auto simp: zext_def is_single_def)

text \<open>The bits of the sign extended word array, before the unused bits are cleared.\<close>

lemma sval_neg: "ap_wf a \<Longrightarrow> is_neg a \<Longrightarrow> sval a = ival a - 2 ^ ap_bits a"
  by (simp add: is_neg_correct(2) sval_def)

lemma sval_nonneg: "ap_wf a \<Longrightarrow> \<not> is_neg a \<Longrightarrow> sval a = ival a"
  by (simp add: is_neg_correct(2) sval_def)

lemma high_ones_nat: "b \<le> m \<Longrightarrow> bit ((2 :: nat) ^ m - 2 ^ b) i \<longleftrightarrow> b \<le> i \<and> i < m"
proof -
  assume "b \<le> m"
  then have "(2 :: nat) ^ m - 2 ^ b = push_bit b (mask (m - b))"
    by (simp add: push_bit_eq_mult mask_eq_exp_minus_1 algebra_simps flip: power_add)
  then show ?thesis using \<open>b \<le> m\<close> by (auto simp: bit_simps)
qed

lemma sext_words:
  fixes ws :: "u64 list" and b n :: nat
  defines "rem \<equiv> b mod 64" and "first \<equiv> b div 64"
  defines "d \<equiv> if rem \<noteq> 0 then ws[first := ws ! first OR push_bit rem (NOT 0)] else ws"
  defines "i0 \<equiv> first + (if rem \<noteq> 0 then 1 else 0)"
  assumes "length ws = n" "b \<le> 64 * n" "wval ws < 2 ^ b"
  shows "wval (take i0 d @ replicate (n - i0) (NOT 0)) = wval ws + (2 ^ (64 * n) - 2 ^ b)"
    and "length (take i0 d @ replicate (n - i0) (NOT 0)) = n"
proof -
  let ?r = "take i0 d @ replicate (n - i0) (NOT 0)"
  have i0: "i0 \<le> n"
  proof -
    have "b = 64 * first + rem" by (simp add: first_def rem_def)
    with assms(6) show ?thesis unfolding i0_def by auto
  qed
  have dl: "length d = n" using assms(5) by (simp add: d_def)
  show len: "length ?r = n" using i0 dl by simp
  have b: "bit (wval ?r) i \<longleftrightarrow> i < 64 * n \<and> (b \<le> i \<or> bit (wval ws) i)" for i
  proof -
    have n: "i div 64 < n \<longleftrightarrow> i < 64 * n" by (simp add: div_less_iff_less_mult mult.commute)
    have i: "i = 64 * (i div 64) + i mod 64" "i mod 64 < 64" by simp_all
    have bb: "b = 64 * first + rem" by (simp add: first_def rem_def)
    consider "i div 64 < first" | "i div 64 = first" "rem \<noteq> 0" | "i0 \<le> i div 64"
      unfolding i0_def using linorder_less_linear[of "i div 64" first] by (cases "rem = 0") auto
    then show ?thesis
    proof cases
      case 1
      then have "i < b" "i div 64 < i0" using i bb by (linarith, simp add: i0_def)
      then show ?thesis
        using 1 n dl i0 assms(5) by (auto simp: bit_wval nth_append d_def)
    next
      case 2
      then have "b \<le> i \<longleftrightarrow> rem \<le> i mod 64" "i div 64 < i0" using i bb by (linarith, simp add: i0_def)
      then show ?thesis
        using 2 n dl i0 assms(5) i(2) by (auto simp: bit_wval nth_append d_def bit_simps)
    next
      case 3
      have "rem < 64" by (simp add: rem_def)
      then have "b \<le> i" using 3 i bb by (auto simp: i0_def split: if_splits)
      then show ?thesis
        using 3 n dl i0 assms(5) i(2) by (auto simp: bit_wval nth_append)
    qed
  qed
  have "wval ?r = wval ws OR (2 ^ (64 * n) - 2 ^ b)"
    using assms(6,7) wval_bound[of ws] nat_bit_less[OF _ wval_bound[of ws]]
    by (intro bit_eqI, unfold b) (auto simp: bit_or_iff high_ones_nat assms(5))
  also have "\<dots> = wval ws + (2 ^ (64 * n) - 2 ^ b)"
    using nat_bit_less[OF _ assms(7)]
    by (intro disjunctive_add[symmetric]) (auto simp: high_ones_nat assms(6) dest: leD)
  finally show "wval ?r = wval ws + (2 ^ (64 * n) - 2 ^ b)" .
qed

lemma words_cong_is:
  "width_ok b \<Longrightarrow> length ws = words_for b \<Longrightarrow> int (wval ws) mod 2 ^ b = k mod 2 ^ b \<Longrightarrow>
   ap_is b k (clear_unused ((zero_tag b)\<lparr>ap_words := ws\<rparr>))"
  by (simp add: ap_is_def uval_put_words wf_put_words zmod_int)

lemma sext_wide_is:
  assumes "ap_wf a" "width_ok n" "ap_bits a \<le> n"
  shows "ap_is n (sval a) (sext_wide a n)"
proof (cases "is_neg a")
  case False
  with zext_wide_is[OF assms] show ?thesis
    by (simp add: sext_wide_def sval_nonneg[OF assms(1)] Let_def)
next
  case True
  let ?z = "zext_wide a n" and ?b = "ap_bits a" and ?n = "words_for n"
  let ?d = "if ?b mod 64 \<noteq> 0 then (ap_words ?z)[?b div 64 := ap_words ?z ! (?b div 64) OR push_bit (?b mod 64) (NOT 0)]
    else ap_words ?z"
  let ?i0 = "?b div 64 + (if ?b mod 64 \<noteq> 0 then 1 else 0)"
  let ?r = "take ?i0 ?d @ replicate (?n - ?i0) (NOT 0)"
  note z = zext_wide_is[OF assms]
  have nw: "num_words ?z = ?n" by (simp add: num_words_def)
  have uz: "uval ?z = uval a"
  proof -
    have "uval a < 2 ^ n"
      using ap_wfD(3)[OF assms(1)] power_increasing[OF assms(3), of "2 :: nat"] by linarith
    then have "ival a mod 2 ^ n = ival a" by (simp add: zmod_int[symmetric])
    with ap_isD(3)[OF z] show ?thesis by simp
  qed
  have ge: "n \<le> 64 * ?n" by (rule words_for_ge[OF assms(2)])
  have sw: "wval ?r = wval (ap_words ?z) + (2 ^ (64 * ?n) - 2 ^ ?b)" "length ?r = ?n"
  proof -
    have l: "length (ap_words ?z) = ?n" using ap_wfD(2)[OF ap_isD(1)[OF z]] by simp
    have b: "?b \<le> 64 * ?n" using ge assms(3) by simp
    have u: "wval (ap_words ?z) < 2 ^ ?b" using uz ap_wfD(3)[OF assms(1)] by (simp add: uval_def)
    show "wval ?r = wval (ap_words ?z) + (2 ^ (64 * ?n) - 2 ^ ?b)" "length ?r = ?n"
      by (rule sext_words[OF l b u])+
  qed
  have eq: "sext_wide a n = clear_unused ((zero_tag n)\<lparr>ap_words := ?r\<rparr>)"
    using True unfolding sext_wide_def Let_def nw
    by (simp add: zext_wide_def Let_def)
  have "int (wval ?r) = ival a + (2 ^ (64 * ?n) - 2 ^ ?b)"
    unfolding sw uz[unfolded uval_def] uval_def
    using power_increasing[of ?b "64 * ?n" "2::nat"] assms(3) ge
    by (simp only: of_nat_add of_nat_diff of_nat_power of_nat_numeral)
  also have "\<dots> mod 2 ^ n = sval a mod 2 ^ n"
    using mod_pow_add[OF ge, of "sval a" 1] by (simp add: sval_neg[OF assms(1) True] algebra_simps)
  finally show ?thesis
    unfolding eq by (rule words_cong_is[OF assms(2) sw(2)])
qed

lemma sext_is:
  assumes "ap_wf a" "width_ok n" "ap_bits a \<le> n"
  shows "ap_is n (sval a) (sext a n)"
  using sext_wide_is[OF assms] assms sext64_correct[OF assms(1)]
  by (auto simp: sext_def is_single_def uint_word_of_int intro!: mk_mod_is)

lemma trunc_is:
  assumes "ap_wf a" "1 \<le> n" "n \<le> ap_bits a"
  shows "ap_is n (ival a) (trunc_ap a n)"
proof -
  note wf = ap_wfD[OF assms(1)]
  have ok: "width_ok n" using assms wf(1) by (simp add: width_ok_def)
  have "uint (to_u64 a) = ival a mod 2 ^ 64"
    using to_u64_correct[OF assms(1)] by (metis of_nat_unat zmod_int of_nat_power of_nat_numeral)
  moreover have "ap_is n (ival a) (trunc_wide a n)"
    using words_for_mono[OF ok wf(1) assms(3)] wf(2)
      w64.val_take[of "words_for n" "ap_words a"]
    by (simp add: trunc_wide_def Let_def words_is[OF ok] zmod_int base64_pow uval_def)
  ultimately show ?thesis
    using ok by (simp add: trunc_ap_def mk_mod_is)
qed

text \<open>What the width changes keep: the unsigned value, the signed value, the low bits.\<close>

lemma zext_uval:
  assumes "ap_wf a" "width_ok n" "ap_bits a \<le> n"
  shows "uval (zext a n) = uval a"
proof -
  have "uval a < 2 ^ n"
    using ap_wfD(3)[OF assms(1)] power_increasing[OF assms(3), of "2 :: nat"] by linarith
  then show ?thesis using ap_isD(3)[OF zext_is[OF assms]] by (simp add: zmod_int[symmetric])
qed

lemma sext_sval:
  assumes "ap_wf a" "width_ok n" "ap_bits a \<le> n"
  shows "sval (sext a n) = sval a"
proof -
  have p: "(2 :: int) ^ (ap_bits a - 1) \<le> 2 ^ (n - 1)" using assms(3) by (intro power_increasing) simp_all
  note s = sext_is[OF assms]
  show ?thesis
    by (rule sval_eqI[OF ap_isD(1)[OF s]], unfold ap_isD(2)[OF s])
      (use ap_isD(3)[OF s] sval_bounds[OF assms(1)] p in linarith)+
qed

lemma zext_or_trunc_is:
  assumes "ap_wf a" "width_ok n"
  shows "ap_is n (ival a) (zext_or_trunc a n)"
  using assms zext_is[OF assms] trunc_is[OF assms(1)]
  by (simp add: zext_or_trunc_def width_ok_def)

lemma sext_or_trunc_is:
  assumes "ap_wf a" "width_ok n"
  shows "ap_is n (sval a) (sext_or_trunc a n)"
proof (cases "n > ap_bits a")
  case False
  then have "ap_is n (ival a) (trunc_ap a n)"
    using assms trunc_is[OF assms(1), of n] by (simp add: width_ok_def)
  moreover have "ival a mod 2 ^ n = sval a mod 2 ^ n"
    using False sval_mod[OF assms(1)] pow_le_mod[of n "ap_bits a" "sval a"] by simp
  ultimately show ?thesis using False by (simp add: sext_or_trunc_def ap_is_def)
qed (use assms sext_is[OF assms] in \<open>simp add: sext_or_trunc_def\<close>)

section \<open>Shifts\<close>

lemma push_bit_mod_zero: "b \<le> k \<Longrightarrow> push_bit k x mod 2 ^ b = (0 :: int)"
  by (simp add: push_bit_eq_mult le_imp_power_dvd)

lemma shl_is:
  assumes "ap_wf a"
  shows "ap_is (ap_bits a) (push_bit amt (ival a)) (shl a amt)"
proof -
  note wf = ap_wfD[OF assms]
  show ?thesis
  proof (cases "is_single a")
    case True
    then have b: "ap_bits a \<le> 64" by (simp add: is_single_def)
    have "uint (if 64 \<le> amt then 0 else push_bit amt (ap_val a)) = push_bit amt (ival a) mod 2 ^ 64"
      using single_ival[OF assms True] push_bit_mod_zero[of 64 amt "ival a"]
      by (simp add: unsigned_push_bit_eq take_bit_eq_mod del: power_numeral push_bit_of_nat)
    then show ?thesis using True b wf(1) mk_mod_is by (simp add: shl_def)
  next
    case wide: False
    show ?thesis
    proof (cases "ap_bits a \<le> amt")
      case True
      then show ?thesis
        using wide zero_is[OF wf(1)] push_bit_mod_zero[OF True, of "ival a"]
        by (simp add: shl_def shl_wide_def ap_is_def)
    next
      case amt: False
      show ?thesis
      proof (cases "ap_bits a \<le> 128")
        case True
        then show ?thesis
          using wide amt double_ival[OF assms wide True] u128_mod_is[OF wf(1) True]
          by (simp add: shl_def shl_wide_def unsigned_push_bit_eq take_bit_eq_mod)
      next
        case False
        then show ?thesis
          using wide amt shl_n_correct[OF wf(6), of amt] wf
          by (simp add: shl_def shl_wide_def words_is zmod_int uval_def flip: push_bit_of_nat)
      qed
    qed
  qed
qed

lemma drop_bit_small: "0 \<le> x \<Longrightarrow> x < 2 ^ b \<Longrightarrow> b \<le> k \<Longrightarrow> drop_bit k x = (0 :: int)"
proof -
  assume x: "0 \<le> x" "x < 2 ^ b" "b \<le> k"
  then have "x < 2 ^ k" using power_increasing[of b k "2 :: int"] by linarith
  with x(1) show ?thesis by (simp add: drop_bit_eq_div)
qed

lemma uint_drop: "uint (drop_bit k w) = drop_bit k (uint w)"
  by (rule bit_eqI) (auto simp: bit_simps bit_uint_iff dest: bit_imp_le_length)

lemma lshr_is:
  assumes "ap_wf a"
  shows "ap_is (ap_bits a) (drop_bit amt (ival a)) (lshr a amt)"
proof -
  note wf = ap_wfD[OF assms]
  have lt: "ival a < 2 ^ ap_bits a"
    using wf(3) by (metis of_nat_less_iff of_nat_numeral of_nat_power)
  show ?thesis
  proof (cases "is_single a")
    case True
    then have "ap_bits a \<le> 64" by (simp add: is_single_def)
    then have "uint (if 64 \<le> amt then 0 else drop_bit amt (ap_val a)) = drop_bit amt (ival a)"
      using single_ival[OF assms True] drop_bit_small[OF _ lt, of amt]
      by (simp add: uint_drop)
    then show ?thesis
      using True mk_is[OF wf(1), of "if 64 \<le> amt then 0 else drop_bit amt (ap_val a)"]
      by (simp add: lshr_def)
  next
    case wide: False
    show ?thesis
    proof (cases "ap_bits a \<le> amt")
      case True
      then show ?thesis
        using wide zero_is[OF wf(1)] drop_bit_small[OF _ lt True] by (simp add: lshr_def lshr_wide_def)
    next
      case amt: False
      show ?thesis
      proof (cases "ap_bits a \<le> 128")
        case True
        then show ?thesis
          using wide amt double_ival[OF assms wide True] u128_is[OF wf(1), of "drop_bit amt (get128 a)"]
          by (simp add: lshr_def lshr_wide_def uint_drop)
      next
        case False
        have "drop_bit amt (uval a) < 2 ^ ap_bits a"
          using wf(3) by (simp add: drop_bit_eq_div) (meson div_le_dividend le_less_trans)
        then show ?thesis
          using False wide amt shr_n_zero_correct[OF wf(6), of amt] wf
            words_small_is[OF wf(1), of "shr_n (ap_words a) (num_words a) amt 0"]
          by (simp add: lshr_def lshr_wide_def uval_def drop_bit_of_nat)
      qed
    qed
  qed
qed

text \<open>
  \<^verbatim>\<open>ashr_wide\<close> above 128 bits extends the value over the unused bits of the top word, so that
  \<^verbatim>\<open>shr_n\<close> shifts the right bits down. The shift is at most \<^verbatim>\<open>bits_ - 1\<close>.
\<close>

lemma sval_as_int_bits:
  assumes "ap_wf a"
  shows "bit (sval a) i \<longleftrightarrow> bit (uval a) (min (ap_bits a - 1) i)"
  by (simp add: sval_signed_take_bit[OF assms] bit_signed_take_bit_iff bit_of_nat_iff_bit)

lemma ashr_words_bits:
  assumes "ap_wf e" "ap_bits e = 64 * n" "num_words e = n" "0 < n"
  shows "int (wval (shr_n (ap_words e) n amt (if is_neg e then NOT 0 else 0)))
    = drop_bit amt (sval e) mod 2 ^ (64 * n)"
proof (rule bit_eqI)
  fix i
  have fill: "bit (if is_neg e then NOT 0 else 0 :: u64) (j mod 64) \<longleftrightarrow> bit (uval e) (64 * n - 1)" for j
  proof -
    have "is_neg e \<longleftrightarrow> bit (uval e) (64 * n - 1)"
      using bit_ap_correct[OF assms(1), of "64 * n - 1"] assms(2,4) by (simp add: is_neg_def)
    moreover have "bit (NOT 0 :: u64) (j mod 64)" by (simp add: bit_not_iff)
    ultimately show ?thesis by simp
  qed
  have "bit (wval (shr_n (ap_words e) n amt (if is_neg e then NOT 0 else 0))) i
      \<longleftrightarrow> i < 64 * n \<and> bit (sval e) (i + amt)"
    unfolding bit_wval_shr_n[OF ap_wfD(6)[OF assms(1), unfolded assms(3)]] fill
    by (simp add: sval_as_int_bits[OF assms(1)] assms(2) uval_def min_def)
      (cases "64 * n - Suc 0 = i + amt"; use assms(4) in auto)
  then show "bit (int (wval (shr_n (ap_words e) n amt (if is_neg e then NOT 0 else 0)))) i
      = bit (drop_bit amt (sval e) mod 2 ^ (64 * n)) i"
    by (simp add: bit_of_nat_iff_bit bit_drop_bit_eq bit_take_bit_iff add.commute flip: take_bit_eq_mod)
qed

lemma drop_bit_sval_sat:
  assumes "ap_wf a" "ap_bits a - 1 \<le> k"
  shows "drop_bit k (sval a) = drop_bit (ap_bits a - 1) (sval a)"
  using assms(2)
  by (intro bit_eqI) (simp add: bit_drop_bit_eq sval_as_int_bits[OF assms(1)] min_absorb1)

lemma drop_bit_range:
  "- (2 ^ n) \<le> x \<Longrightarrow> x < 2 ^ n \<Longrightarrow> - (2 ^ n) \<le> drop_bit k x \<and> drop_bit k x < (2 ^ n :: int)"
proof -
  assume x: "- (2 ^ n) \<le> x" "x < 2 ^ n"
  have "drop_bit k x = x div 2 ^ k" by (simp add: drop_bit_eq_div)
  moreover have "x div 2 ^ k \<le> x" if "0 \<le> x" using zdiv_mono2[of x 1 "2 ^ k"] that by simp
  moreover have "x \<le> x div 2 ^ k" if "x < 0" using zdiv_mono2_neg[of x 1 "2 ^ k"] that by simp
  moreover have "x div 2 ^ k < 0" if "x < 0" using that by (simp add: div_neg_pos_less0)
  moreover have "0 \<le> x div 2 ^ k" if "0 \<le> x" using that by (simp add: pos_imp_zdiv_nonneg_iff)
  moreover have "(0 :: int) < 2 ^ n" by simp
  ultimately show ?thesis using x by (cases "0 \<le> x") linarith+
qed

lemma ashr_wide_big_is:
  assumes "ap_wf a" "128 < ap_bits a"
  shows "ap_is (ap_bits a) (drop_bit (min amt (ap_bits a - 1)) (sval a)) (ashr_wide a amt)"
proof -
  note wf = ap_wfD[OF assms(1)]
  let ?n = "num_words a"
  let ?k = "min amt (ap_bits a - 1)"
  let ?e = "if is_neg a then sext a (?n * 64) else zext a (?n * 64)"
  have nok: "width_ok (64 * ?n)"
    using wf(1,4,5) words_for_ge[OF wf(1)] div_le_mono[of "ap_bits a + 63" 4294967295 64]
    by (simp add: words_for_eq width_ok_def)
  have le: "ap_bits a \<le> 64 * ?n" using words_for_ge[OF wf(1)] wf(5) by simp
  have e: "ap_is (64 * ?n) (sval a) ?e"
    using sext_is[OF assms(1) nok le] zext_is[OF assms(1) nok le] sval_nonneg[OF assms(1)]
    by (simp add: mult.commute)
  have se: "sval ?e = sval a"
    using sval_bounds[OF assms(1)] power_increasing[of "ap_bits a - 1" "64 * ?n - 1" "2 :: int"] le
    by (intro sval_eqI[OF ap_isD(1)[OF e]], unfold ap_isD(2)[OF e]) (use ap_isD(3)[OF e] in linarith)+
  have ne: "is_neg ?e = is_neg a"
    using is_neg_correct(1)[OF ap_isD(1)[OF e]] is_neg_correct(1)[OF assms(1)] se by simp
  have nw: "num_words ?e = ?n"
    using ap_isD(2)[OF e] nok by (simp add: num_words_def words_for_eq)
  have npos: "0 < ?n" using wf(1,5) by simp
  let ?r = "shr_n (ap_words ?e) ?n ?k (if is_neg a then NOT 0 else 0)"
  have "int (wval ?r) = drop_bit ?k (sval a) mod 2 ^ (64 * ?n)"
    using ashr_words_bits[OF ap_isD(1,2)[OF e] nw npos, of ?k] by (simp only: ne se)
  moreover have "ashr_wide a amt = clear_unused ((zero_tag (ap_bits a))\<lparr>ap_words := ?r\<rparr>)"
    using assms(2) by (simp add: ashr_wide_def Let_def)
  ultimately show ?thesis using words_is[OF wf(1), of ?r] wf(5) by simp
qed

lemma ashr_is:
  assumes "ap_wf a"
  shows "ap_is (ap_bits a) (drop_bit amt (sval a)) (ashr a amt)"
proof -
  note wf = ap_wfD[OF assms] and sb = sval_bounds[OF assms]
  have sat: "drop_bit (min amt k) (sval a) = drop_bit amt (sval a)" if "ap_bits a - 1 \<le> k" for k
    using drop_bit_sval_sat[OF assms, of k] drop_bit_sval_sat[OF assms, of amt] that
    by (cases "amt \<le> k") (auto simp: min_def)
  show ?thesis
  proof (cases "is_single a")
    case True
    then have b: "ap_bits a \<le> 64" by (simp add: is_single_def)
    have "(if 64 \<le> amt then 63 else amt) = min amt 63" by simp
    then show ?thesis
      using True b sat[of 63] mk_mod_is[OF wf(1) b] sext64_correct[OF assms True]
      by (simp add: ashr_def uint_word_of_int)
  next
    case wide: False
    show ?thesis
    proof (cases "ap_bits a \<le> 128")
      case True
      have r: "- (2 ^ 127) \<le> drop_bit k (sval a) \<and> drop_bit k (sval a) < 2 ^ 127" for k
        using drop_bit_range[of 127 "sval a" k] sb power_increasing[of "ap_bits a - 1" 127 "2 :: int"] True
        by linarith
      show ?thesis
        using wide True from_i128_is[OF wf(1), of "drop_bit (min amt (ap_bits a - 1)) (sval a)"] r
          sat[of "ap_bits a - 1"] to_i128_correct[OF assms True]
        by (simp add: ashr_def ashr_wide_def Let_def)
    next
      case False
      then show ?thesis
        using wide ashr_wide_big_is[OF assms, of amt] sat[of "ap_bits a - 1"] by (simp add: ashr_def)
    qed
  qed
qed

section \<open>Bit masks\<close>

lemma low_bits_is:
  assumes "width_ok b" "n \<le> b"
  shows "ap_is b (2 ^ n - 1) (low_bits b n)"
proof (cases "n = 0")
  case True
  then show ?thesis using zero_is[OF assms(1)] by (simp add: low_bits_def)
next
  case False
  have "drop_bit (b - n) (2 ^ b - 1 :: int) = 2 ^ n - 1"
    using assms(2) by (simp flip: mask_eq_exp_minus_1 add: drop_bit_mask_eq)
  moreover have "ival (all_ones b) = 2 ^ b - 1"
    by (simp add: all_ones_correct[OF assms(1)] of_nat_diff)
  ultimately show ?thesis
    using False lshr_is[OF all_ones_correct(1)[OF assms(1)], of "b - n"] by (simp add: low_bits_def)
qed

lemma high_bits_is:
  assumes "width_ok b" "n \<le> b"
  shows "ap_is b (2 ^ b - 2 ^ (b - n)) (high_bits b n)"
proof -
  let ?k = "if n = 0 then b else b - n"
  have "?k = b - n" by simp
  moreover have "push_bit (b - n) (2 ^ b - 1 :: int) mod 2 ^ b = (2 ^ b - 2 ^ (b - n)) mod 2 ^ b"
  proof -
    have "push_bit (b - n) (2 ^ b - 1 :: int) = 2 ^ b - 2 ^ (b - n) + (2 ^ (b - n) - 1) * 2 ^ b"
      by (simp add: push_bit_eq_mult algebra_simps)
    then show ?thesis by simp
  qed
  moreover have "ival (all_ones b) = 2 ^ b - 1"
    by (simp add: all_ones_correct[OF assms(1)] of_nat_diff)
  ultimately show ?thesis
    using shl_is[OF all_ones_correct(1)[OF assms(1)], of "b - n"]
    by (simp add: high_bits_def ap_is_def)
qed

lemma signed_max_sval:
  assumes "width_ok b"
  shows "ap_wf (signed_max b)" "ap_bits (signed_max b) = b" "sval (signed_max b) = 2 ^ (b - 1) - 1"
proof -
  have i: "b - 1 < ap_bits (all_ones b)" using width_okD[OF assms] by simp
  note s = set_bit_ap_correct[OF all_ones_correct(1)[OF assms] i, of False, folded signed_max_def]
  show "ap_wf (signed_max b)" "ap_bits (signed_max b) = b" using s by simp_all
  have "uval (signed_max b) = mask (b - 1)"
  proof -
    have "uval (all_ones b) = mask b" by (simp add: all_ones_correct(2)[OF assms] mask_eq_exp_minus_1)
    then show ?thesis using s(3) by (intro bit_eqI) (auto simp: bit_mask_iff)
  qed
  then have "uval (signed_max b) < 2 ^ (b - 1)" "ival (signed_max b) = 2 ^ (b - 1) - 1"
    by (simp_all add: mask_eq_exp_minus_1 of_nat_diff)
  then show "sval (signed_max b) = 2 ^ (b - 1) - 1"
    using s(2) by (simp add: sval_def)
qed

lemma signed_min_sval:
  assumes "width_ok b"
  shows "ap_wf (signed_min b)" "ap_bits (signed_min b) = b" "sval (signed_min b) = - (2 ^ (b - 1))"
proof -
  have i: "b - 1 < ap_bits (zero_tag b)" using width_okD[OF assms] by simp
  note s = set_bit_ap_correct[OF wf_zero_tag[OF assms] i, of True, folded signed_min_def]
  show "ap_wf (signed_min b)" "ap_bits (signed_min b) = b" using s by simp_all
  have "uval (signed_min b) = 2 ^ (b - 1)"
    using s(3) uval_zero_tag[OF assms] by (intro bit_eqI) (auto simp: bit_exp_iff)
  then show "sval (signed_min b) = - (2 ^ (b - 1))"
    using s(2) pow_pred[OF width_okD[OF assms], where ?'a = int] by (simp add: sval_def)
qed

section \<open>Comparisons\<close>

lemma cmp3_simps:
  "cmp3 x y < 0 \<longleftrightarrow> x < y" "cmp3 x y \<le> 0 \<longleftrightarrow> x \<le> y" "cmp3 x y = 0 \<longleftrightarrow> x = y"
  "0 < cmp3 x y \<longleftrightarrow> y < x"
  by (auto simp: cmp3_def)

lemma cmp3_unat: "cmp3 (v :: 'a::len word) w = cmp3 (unat v) (unat w)"
  by (auto simp: cmp3_def word_less_nat_alt)

lemma ucmp_wide_correct:
  assumes "same_width a b" "\<not> is_single a"
  shows "ucmp_wide a b = cmp3 (uval a) (uval b)"
  using same_widthD[OF assms(1)] double_uval[of a] double_uval[of b] assms(2)
    ucmp_n_correct[of "ap_words a" "num_words a" "ap_words b"]
  by (simp add: ucmp_wide_def cmp3_unat ap_wfD uval_def)

lemma ucmp_correct: "same_width a b \<Longrightarrow> ucmp a b = cmp3 (uval a) (uval b)"
  using ucmp_wide_correct[of a b] same_widthD[of a b]
  by (auto simp: ucmp_def cmp3_unat single_uval)

lemma ult_correct: "same_width a b \<Longrightarrow> ult a b \<longleftrightarrow> uval a < uval b"
  using ucmp_wide_correct[of a b] same_widthD[of a b]
  by (auto simp: ult_def word_less_nat_alt single_uval cmp3_simps)

lemma ule_correct: "same_width a b \<Longrightarrow> ule a b \<longleftrightarrow> uval a \<le> uval b"
  using ucmp_wide_correct[of a b] same_widthD[of a b]
  by (auto simp: ule_def word_le_nat_alt single_uval cmp3_simps)

lemma same_width_sym: "same_width a b \<Longrightarrow> same_width b a"
  by (simp add: same_width_def)

lemma ugt_correct: "same_width a b \<Longrightarrow> ugt a b \<longleftrightarrow> uval b < uval a"
  by (simp add: ugt_def ult_correct same_width_sym)

lemma uge_correct: "same_width a b \<Longrightarrow> uge a b \<longleftrightarrow> uval b \<le> uval a"
  by (simp add: uge_def ule_correct same_width_sym)

lemma eq_correct:
  assumes "same_width a b"
  shows "eq_ap a b \<longleftrightarrow> a = b"
proof -
  note sw = same_widthD[OF assms]
  have "eq_ap a b \<longleftrightarrow> uval a = uval b"
  proof (cases "is_single a")
    case True
    then show ?thesis
      using single_uval[OF sw(1)] single_uval[OF sw(2)] sw(6)
      by (metis eq_ap_def unsigned_word_eqI)
  next
    case False
    then show ?thesis
      using ucmp_n_correct[of "ap_words a" "num_words a" "ap_words b"] sw
      by (simp add: eq_ap_def eq_wide_def ap_wfD cmp3_simps uval_def)
  qed
  then show ?thesis using ap_wf_eqI sw by metis
qed

lemma scmp_wide_correct:
  assumes "same_width a b" "\<not> is_single a"
  shows "scmp_wide a b = cmp3 (sval a) (sval b)"
proof -
  note sw = same_widthD[OF assms(1)]
  have "sval a < sval b \<longleftrightarrow> uval a < uval b" "sval b < sval a \<longleftrightarrow> uval b < uval a"
    if "is_neg a = is_neg b"
    using that sw sval_neg[of a] sval_neg[of b] sval_nonneg[of a] sval_nonneg[of b]
    by (cases "is_neg a"; simp)+
  moreover have "is_neg a \<longleftrightarrow> sval a < 0" "is_neg b \<longleftrightarrow> sval b < 0"
    using is_neg_correct(1) sw by blast+
  ultimately show ?thesis
    unfolding scmp_wide_def ucmp_wide_correct[OF assms] by (auto simp: cmp3_def Let_def)
qed

lemma scmp_correct: "same_width a b \<Longrightarrow> scmp a b = cmp3 (sval a) (sval b)"
  using scmp_wide_correct[of a b] same_widthD[of a b]
  by (auto simp: scmp_def sext64_correct)

lemma slt_correct: "same_width a b \<Longrightarrow> slt a b \<longleftrightarrow> sval a < sval b"
  using scmp_wide_correct[of a b] same_widthD[of a b]
  by (auto simp: slt_def sext64_correct cmp3_simps)

lemma sle_correct: "same_width a b \<Longrightarrow> sle a b \<longleftrightarrow> sval a \<le> sval b"
  using scmp_wide_correct[of a b] same_widthD[of a b]
  by (auto simp: sle_def sext64_correct cmp3_simps)

lemma sgt_correct: "same_width a b \<Longrightarrow> sgt a b \<longleftrightarrow> sval b < sval a"
  by (simp add: sgt_def slt_correct same_width_sym)

lemma sge_correct: "same_width a b \<Longrightarrow> sge a b \<longleftrightarrow> sval b \<le> sval a"
  by (simp add: sge_def sle_correct same_width_sym)

end
