(* ===== verification/APIntDiv.thy ===== *)
theory APIntDiv
  imports APIntArith
begin

text \<open>
  \<^verbatim>\<open>APInt\<close>'s division and the arithmetic with overflow flags. Division above 128 bits
  goes through 32 bit limbs: \<^verbatim>\<open>to_limbs\<close>, \<^verbatim>\<open>trim\<close>, Knuth's algorithm (\<^verbatim>\<open>divmnu\<close>) and packing
  the limbs back. Signed division truncates towards zero, as C++'s \<open>/\<close> and \<open>%\<close> do.
\<close>

section \<open>Words and limbs\<close>

lemma unat_split32: "unat (w :: u64) = unat (lo32 w) + base32 * unat (lo32 (drop_bit 32 w))"
proof -
  have "unat w < 2 ^ 32 * 2 ^ 32" using unsigned_less[of w, where ?'a = nat] by simp
  then have "unat w div 2 ^ 32 < 2 ^ 32" by (rule less_mult_imp_div_less)
  then show ?thesis
    by (simp only: unat_lo32 unat_drop_bit_eq)
      (simp only: drop_bit_eq_div base32_def mod_less mod_mult_div_eq)
qed

lemma length_to_limbs [simp]: "length (to_limbs w n) = 2 * n"
  by (simp add: to_limbs_def length_concat comp_def sum_list_triv)

lemma to_limbs_Suc:
  "to_limbs w (Suc n) = to_limbs w n @ [lo32 (w ! n), lo32 (drop_bit 32 (w ! n))]"
  by (simp add: to_limbs_def)

lemma lval_to_limbs: "n \<le> length w \<Longrightarrow> lval (to_limbs w n) = wval (take n w)"
proof (induction n)
  case (Suc n)
  have "(2 :: nat) ^ (32 * (2 * n)) = 2 ^ (64 * n)" by simp
  then show ?case
    using Suc unat_split32[of "w ! n"]
    by (simp add: to_limbs_Suc l32.val_append w64.val_append take_Suc_conv_app_nth base32_pow base64_pow)
qed (simp add: to_limbs_def)

lemma trim_loop_le: "trim_loop l n \<le> n"
  by (induction n) simp_all

lemma trim_loop_nz: "0 < trim_loop l n \<Longrightarrow> l ! (trim_loop l n - 1) \<noteq> 0"
  by (induction n) (auto split: if_splits)

lemma trim_loop_val: "n \<le> length l \<Longrightarrow> lval (take (trim_loop l n) l) = lval (take n l)"
  by (induction n) (simp_all add: take_Suc_conv_app_nth l32.val_append)

lemma trim_correct:
  "trim l \<le> length l" "0 < trim l \<Longrightarrow> l ! (trim l - 1) \<noteq> 0" "lval (take (trim l) l) = lval l"
  unfolding trim_def
  using trim_loop_le[of l "length l"] trim_loop_nz[of l "length l"] trim_loop_val[of "length l" l]
  by simp_all

lemma bit_lval: "bit (lval ls) i \<longleftrightarrow> i div 32 < length ls \<and> bit (ls ! (i div 32)) (i mod 32)"
proof (induction ls arbitrary: i)
  case (Cons l ls)
  have "unat l < 2 ^ 32" using unsigned_less[of l, where ?'a = nat] by simp
  then have "bit (lval (l # ls)) i = (if i < 32 then bit l i else bit (lval ls) (i - 32))"
    using bit_add_mult_pow[of "unat l" 32 "lval ls" i] by (simp add: base32_def bit_unsigned_iff)
  also have "\<dots> = (i div 32 < length (l # ls) \<and> bit ((l # ls) ! (i div 32)) (i mod 32))"
  proof (cases "i < 32")
    case False
    then have "i div 32 = Suc ((i - 32) div 32)" "i mod 32 = (i - 32) mod 32"
      by (simp_all add: le_div_geq le_mod_geq not_less)
    with False Cons.IH show ?thesis by simp
  qed simp
  finally show ?case .
qed simp

abbreviation pack_step :: "u32 list \<Rightarrow> nat \<Rightarrow> u64 list \<Rightarrow> u64 list" where
  "pack_step l i ws \<equiv> ws[i div 2 := ws ! (i div 2) OR push_bit (32 * (i mod 2)) (w64_of (l ! i))]"

lemma length_pack: "length (fold (pack_step l) is ws) = length ws"
  by (induction "is" arbitrary: ws) simp_all

lemma bit_w64_of: "bit (w64_of x) j \<longleftrightarrow> j < 32 \<and> bit x j"
  by (auto simp: w64_of_def bit_simps dest: bit_imp_le_length)

lemma bit_push_limb:
  "r < 32 \<Longrightarrow> a < 2 \<Longrightarrow> b < 2 \<Longrightarrow>
   bit (push_bit (32 * b) (w64_of x)) (32 * a + r) \<longleftrightarrow> a = b \<and> bit x r"
  by (auto simp: less_2_cases_iff bit_push_bit_iff bit_w64_of)

lemma pack_bits:
  assumes "j \<le> length l" "length l \<le> 2 * n" "length ws = n" "\<forall>w\<in>set ws. w = 0"
  shows "bit (wval (fold (pack_step l) [0..<j] ws)) i \<longleftrightarrow> i div 32 < j \<and> bit (l ! (i div 32)) (i mod 32)"
  using assms(1)
proof (induction j arbitrary: i)
  case 0
  have "wval ws = 0" using assms(4) by (simp add: w64.val_zero_iff unat_eq_zero)
  then show ?case by simp
next
  case (Suc j)
  let ?W = "fold (pack_step l) [0..<j] ws"
  have len: "length ?W = n" using assms(3) by (simp add: length_pack)
  have IH: "bit (wval ?W) i \<longleftrightarrow> i div 32 < j \<and> bit (l ! (i div 32)) (i mod 32)" for i
    using Suc by simp
  have j: "j div 2 < n" using Suc.prems assms(2) by simp
  have i64: "i div 64 = (i div 32) div 2" "i mod 64 = 32 * ((i div 32) mod 2) + i mod 32"
    using div_mult2_eq[of i 32 2] mod_mult2_eq[of i 32 2] by simp_all
  have at: "i div 32 = j \<longleftrightarrow> i div 64 = j div 2 \<and> (i div 32) mod 2 = j mod 2"
    unfolding i64(1) by (metis mult_div_mod_eq)
  have limb: "bit (push_bit (32 * (j mod 2)) (w64_of (l ! j))) (i mod 64)
      \<longleftrightarrow> (i div 32) mod 2 = j mod 2 \<and> bit (l ! j) (i mod 32)"
    unfolding i64(2) by (rule bit_push_limb) simp_all
  have "fold (pack_step l) [0..<Suc j] ws = pack_step l j ?W" by simp
  then have "bit (wval (fold (pack_step l) [0..<Suc j] ws)) i \<longleftrightarrow>
      bit (wval ?W) i \<or> (i div 32 = j \<and> bit (l ! j) (i mod 32))"
    using j len limb unfolding at bit_wval
    by (cases "i div 64 = j div 2") (auto simp only: length_list_update nth_list_update_eq nth_list_update_neq bit_or_iff)
  then show ?case unfolding IH by (auto simp: less_Suc_eq)
qed

lemma pack_limbs_correct:
  assumes "length l \<le> 2 * length ws" "\<forall>w\<in>set ws. w = 0"
  shows "length (pack_limbs ws l) = length ws" "wval (pack_limbs ws l) = lval l"
proof -
  show "length (pack_limbs ws l) = length ws" by (simp add: pack_limbs_def length_pack)
  show "wval (pack_limbs ws l) = lval l"
    using pack_bits[OF order_refl assms(1) refl assms(2)]
    by (intro bit_eqI) (simp add: pack_limbs_def bit_lval)
qed

section \<open>Unsigned division\<close>

lemma u128_nat_is: "width_ok b \<Longrightarrow> unat v = k \<Longrightarrow> ap_is b (int k) (from_u128 b v)"
  using u128_is[of b v] by (metis of_nat_unat)

lemma mk_nat_is: "width_ok b \<Longrightarrow> unat v = k \<Longrightarrow> ap_is b (int k) (mk_ap b v)"
  using mk_is[of b v] by (metis of_nat_unat)

lemma words_zero_ap: "width_ok b \<Longrightarrow> 64 < b \<Longrightarrow> ap_words (zero_ap b) = replicate (words_for b) 0"
  by (simp add: zero_ap_def mk_ap_def) (metis list_update_id nth_replicate words_for_pos)

lemma packed_is:
  assumes "width_ok b" "64 < b" "length l \<le> 2 * words_for b" "lval l = k" "k < 2 ^ b"
  shows "ap_is b (int k) ((zero_ap b)\<lparr>ap_words := pack_limbs (ap_words (zero_ap b)) l\<rparr>)"
proof -
  let ?z = "replicate (words_for b) (0 :: u64)"
  have p: "length (pack_limbs ?z l) = words_for b" "wval (pack_limbs ?z l) = k"
    using pack_limbs_correct[of l ?z] assms(3,4) by simp_all
  have "(zero_ap b)\<lparr>ap_words := pack_limbs ?z l\<rparr> = (zero_tag b)\<lparr>ap_words := pack_limbs ?z l\<rparr>"
    by (rule apint.equality) simp_all
  moreover have "ap_is b (int k) ((zero_tag b)\<lparr>ap_words := pack_limbs ?z l\<rparr>)"
    using words_small_is[OF assms(1) p(1)] p(2) assms(5) by simp
  ultimately show ?thesis
    by (simp only: words_zero_ap[OF assms(1,2)])
qed

lemma udivrem_long_is:
  assumes "same_width a b" "\<not> is_single a" "uval b \<noteq> 0" "\<not> ap_bits a \<le> 128"
  shows "ap_is (ap_bits a) (int (uval a div uval b)) (fst (udivrem_wide a b))"
    and "ap_is (ap_bits a) (int (uval a mod uval b)) (snd (udivrem_wide a b))"
proof -
  note sw = same_widthD[OF assms(1)] and wa = ap_wfD[OF same_widthD(1)[OF assms(1)]]
    and wb = ap_wfD[OF same_widthD(2)[OF assms(1)]]
  define ul where "ul = take (trim (to_limbs (ap_words a) (num_words a))) (to_limbs (ap_words a) (num_words a))"
  define vl where "vl = take (trim (to_limbs (ap_words b) (num_words b))) (to_limbs (ap_words b) (num_words b))"
  have lu: "lval ul = uval a" "length ul \<le> 2 * num_words a"
    unfolding ul_def trim_correct(3) using wa(6) trim_correct(1)[of "to_limbs (ap_words a) (num_words a)"]
    by (simp_all add: lval_to_limbs uval_def)
  have lv: "lval vl = uval b" "length vl \<le> 2 * num_words a"
    unfolding vl_def trim_correct(3) using wb(6) sw(5) trim_correct(1)[of "to_limbs (ap_words b) (num_words b)"]
    by (simp_all add: lval_to_limbs uval_def)
  have trim_u: "trim (to_limbs (ap_words a) (num_words a)) = length ul"
    using trim_correct(1)[of "to_limbs (ap_words a) (num_words a)"] by (simp add: ul_def)
  have trim_v: "trim (to_limbs (ap_words b) (num_words b)) = length vl"
    using trim_correct(1)[of "to_limbs (ap_words b) (num_words b)"] by (simp add: vl_def)
  have ul2: "take (length ul) (to_limbs (ap_words a) (num_words a)) = ul"
    using ul_def unfolding trim_u by (rule sym)
  have vl2: "take (length vl) (to_limbs (ap_words b) (num_words b)) = vl"
    using vl_def unfolding trim_v by (rule sym)
  have v0: "0 < length vl" using lv assms(3) by (cases vl) auto
  have vtop: "vl ! (length vl - 1) \<noteq> 0"
  proof -
    have "to_limbs (ap_words b) (num_words b) ! (length vl - 1) \<noteq> 0"
      using trim_correct(2)[of "to_limbs (ap_words b) (num_words b)"] v0 unfolding trim_v by simp
    moreover have "take (length vl) (to_limbs (ap_words b) (num_words b)) ! (length vl - 1)
        = to_limbs (ap_words b) (num_words b) ! (length vl - 1)"
      using v0 by simp
    ultimately show ?thesis unfolding vl2 by simp
  qed
  have packed: "ap_is (ap_bits a) (int k) ((zero_ap (ap_bits a))\<lparr>ap_words := pack_limbs (ap_words (zero_ap (ap_bits a))) l\<rparr>)"
    if "length l \<le> 2 * num_words a" "lval l = k" "k \<le> uval a" for l k
    using that wa(3,5) assms(2) by (intro packed_is[OF wa(1)]) (simp_all add: is_single_def)
  show "ap_is (ap_bits a) (int (uval a div uval b)) (fst (udivrem_wide a b))"
    "ap_is (ap_bits a) (int (uval a mod uval b)) (snd (udivrem_wide a b))"
  proof (atomize (full), cases "length ul < length vl")
    case True
    have "uval a < base32 ^ length ul" using l32.val_bound[of ul] lu by simp
    also have "\<dots> \<le> base32 ^ (length vl - 1)" using True by (intro l32.pow_mono) simp
    also have "\<dots> \<le> uval b" using lval_top[OF _ vtop] v0 lv by simp
    finally have "uval a div uval b = 0" "uval a mod uval b = uval a" by simp_all
    then show "ap_is (ap_bits a) (int (uval a div uval b)) (fst (udivrem_wide a b)) \<and>
      ap_is (ap_bits a) (int (uval a mod uval b)) (snd (udivrem_wide a b))"
      using True assms(4) zero_is[OF wa(1)] ap_is_self[OF sw(1)]
      by (simp add: udivrem_wide_def Let_def trim_u trim_v)
  next
    case False
    obtain ql rl where qr: "divmnu ul vl (length ul) (length vl) = (ql, rl)"
      by (cases "divmnu ul vl (length ul) (length vl)")
    from divmnu_result[OF refl refl v0 _ vtop qr] False
    have res: "length ql = length ul - length vl + 1" "length rl = length vl"
      "lval ql = uval a div uval b" "lval rl = uval a mod uval b"
      using lu lv by simp_all
    have "udivrem_wide a b =
        ((zero_ap (ap_bits a))\<lparr>ap_words := pack_limbs (ap_words (zero_ap (ap_bits a))) ql\<rparr>,
         (zero_ap (ap_bits a))\<lparr>ap_words := pack_limbs (ap_words (zero_ap (ap_bits a))) rl\<rparr>)"
      using False assms(4) qr
      by (simp add: udivrem_wide_def Let_def trim_u trim_v ul2 vl2)
    moreover have "length ql \<le> 2 * num_words a" "length rl \<le> 2 * num_words a"
      using res lu lv v0 False by linarith+
    ultimately show "ap_is (ap_bits a) (int (uval a div uval b)) (fst (udivrem_wide a b)) \<and>
      ap_is (ap_bits a) (int (uval a mod uval b)) (snd (udivrem_wide a b))"
      using packed[of ql] packed[of rl] res div_le_dividend mod_less_eq_dividend by simp
  qed
qed

lemma udivrem_short_is:
  assumes "same_width a b" "\<not> is_single a" "ap_bits a \<le> 128"
  shows "ap_is (ap_bits a) (int (uval a div uval b)) (fst (udivrem_wide a b))"
    and "ap_is (ap_bits a) (int (uval a mod uval b)) (snd (udivrem_wide a b))"
proof -
  note sw = same_widthD[OF assms(1)]
  have d: "unat (get128 a) = uval a" "unat (get128 b) = uval b"
    using double_uval[OF sw(1) assms(2,3)] double_uval[OF sw(2)] assms(2,3) sw by simp_all
  have "unat (get128 a div get128 b) = uval a div uval b"
    "unat (get128 a mod get128 b) = uval a mod uval b"
    by (simp_all only: unat_div unat_mod d)
  note u128_nat_is[OF sw(4) this(1)] u128_nat_is[OF sw(4) this(2)]
  then show "ap_is (ap_bits a) (int (uval a div uval b)) (fst (udivrem_wide a b))"
    "ap_is (ap_bits a) (int (uval a mod uval b)) (snd (udivrem_wide a b))"
    using assms(3) by (simp_all only: udivrem_wide_def Let_def if_True fst_conv snd_conv simp_thms)
qed

lemma udivrem_wide_is:
  assumes "same_width a b" "\<not> is_single a" "uval b \<noteq> 0"
  shows "ap_is (ap_bits a) (int (uval a div uval b)) (fst (udivrem_wide a b))"
    and "ap_is (ap_bits a) (int (uval a mod uval b)) (snd (udivrem_wide a b))"
  using udivrem_short_is[OF assms(1,2)] udivrem_long_is[OF assms] by blast+

lemma udiv_is:
  assumes "same_width a b" "uval b \<noteq> 0"
  shows "ap_is (ap_bits a) (int (uval a div uval b)) (udiv_ap a b)"
proof (cases "is_single a")
  case True
  note sw = same_widthD[OF assms(1)]
  have "unat (ap_val a div ap_val b) = uval a div uval b"
    using True sw by (simp only: unat_div single_uval)
  with True show ?thesis by (simp add: udiv_ap_def mk_nat_is[OF sw(4)])
qed (simp add: udiv_ap_def udiv_wide_def udivrem_wide_is(1)[OF assms(1) _ assms(2)])

lemma urem_is:
  assumes "same_width a b" "uval b \<noteq> 0"
  shows "ap_is (ap_bits a) (int (uval a mod uval b)) (urem_ap a b)"
proof (cases "is_single a")
  case True
  note sw = same_widthD[OF assms(1)]
  have "unat (ap_val a mod ap_val b) = uval a mod uval b"
    using True sw by (simp only: unat_mod single_uval)
  with True show ?thesis by (simp add: urem_ap_def mk_nat_is[OF sw(4)])
qed (simp add: urem_ap_def urem_wide_def udivrem_wide_is(2)[OF assms(1) _ assms(2)])

section \<open>Signed division\<close>

text \<open>The magnitude that \<^verbatim>\<open>sdiv_wide\<close> and \<^verbatim>\<open>srem_wide\<close> divide: negated when negative.\<close>

definition mag :: "apint \<Rightarrow> apint" where
  "mag a = (if is_neg a then neg_ap a else a)"

lemma mag_correct:
  assumes "ap_wf a"
  shows "ap_wf (mag a)" "ap_bits (mag a) = ap_bits a" "ival (mag a) = \<bar>sval a\<bar>"
proof -
  note n = neg_is[OF assms] and sb = sval_bounds[OF assms]
  show "ap_wf (mag a)" "ap_bits (mag a) = ap_bits a"
    using assms ap_isD(1,2)[OF n] by (simp_all add: mag_def)
  show "ival (mag a) = \<bar>sval a\<bar>"
  proof (cases "is_neg a")
    case True
    then have "sval a < 0" using is_neg_correct(1)[OF assms] by simp
    have p: "(2::int) ^ ap_bits a = 2 * 2 ^ (ap_bits a - 1)" using pow_pred[OF ap_wfD(4)[OF assms]] .
    have "ival (mag a) = (- sval a - 2 ^ ap_bits a) mod 2 ^ ap_bits a"
      using True ap_isD(3)[OF n] sval_neg[OF assms True] by (simp add: mag_def)
    also have "\<dots> = (- sval a) mod 2 ^ ap_bits a" by simp
    also have "\<dots> = - sval a" using sb \<open>sval a < 0\<close> p by (intro mod_pos_pos_trivial) linarith+
    finally show ?thesis using \<open>sval a < 0\<close> by simp
  qed (simp add: mag_def sval_nonneg[OF assms])
qed

lemma mag_same_width: "same_width a b \<Longrightarrow> same_width (mag a) (mag b)"
  using mag_correct by (simp add: same_width_def)

lemma sval_eq_0_iff: "ap_wf a \<Longrightarrow> sval a = 0 \<longleftrightarrow> uval a = 0"
proof -
  assume wf: "ap_wf a"
  have "int (uval a) < 2 ^ ap_bits a"
    using ap_wfD(3)[OF wf] by (metis of_nat_less_iff of_nat_numeral of_nat_power)
  moreover have "uval a = 0 \<Longrightarrow> uval a < 2 ^ (ap_bits a - 1)" by simp
  ultimately show ?thesis unfolding sval_def by (cases "uval a = 0") auto
qed

text \<open>The native cases: 64 and 128 bit integers, with \<open>y = -1\<close> handled apart.\<close>

lemma native_sdiv:
  "(if y = -1 then 0 - word_of_int x else word_of_int (x sdiv y)) = word_of_int (x sdiv y)"
  by simp

lemma native_smod:
  "(if y = -1 then 0 else word_of_int (x smod y)) = (word_of_int (x smod y) :: 'a::len word)"
  by (simp add: signed_modulo_int_def)

lemma sdiv_wide_is:
  assumes "same_width a b" "\<not> is_single a" "uval b \<noteq> 0"
  shows "ap_is (ap_bits a) (sval a sdiv sval b) (sdiv_wide a b)"
proof (cases "ap_bits a \<le> 128")
  case True
  then show ?thesis
    using same_widthD[OF assms(1)]
    by (simp add: sdiv_wide_def Let_def to_i128_correct u128_mod_is uint_word_of_int
        del: of_int_minus flip: of_int_minus)
next
  case False
  note sw = same_widthD[OF assms(1)]
  note m = mag_correct[OF sw(1)] and n = mag_correct[OF sw(2)]
  let ?q = "fst (udivrem_wide (mag a) (mag b))"
  have nz: "uval (mag b) \<noteq> 0" using n(3) sval_eq_0_iff[OF sw(2)] assms(3) by simp
  have ns: "\<not> is_single (mag a)" using m(2) assms(2) by (simp add: is_single_def)
  have q: "ap_is (ap_bits a) (\<bar>sval a\<bar> div \<bar>sval b\<bar>) ?q"
    using udivrem_wide_is(1)[OF mag_same_width[OF assms(1)] ns nz] m n by (simp add: zdiv_int)
  have r: "sdiv_wide a b = (if is_neg a \<noteq> is_neg b then neg_ap ?q else ?q)"
    using False by (simp add: sdiv_wide_def Let_def mag_def)
  have nq: "ap_is (ap_bits a) (- (\<bar>sval a\<bar> div \<bar>sval b\<bar>)) (neg_ap ?q)"
    using neg_is[OF ap_isD(1)[OF q]] ap_isD(2,3)[OF q] by (simp add: ap_is_def mod_minus_eq)
  have "sval b \<noteq> 0" using sval_eq_0_iff[OF sw(2)] assms(3) by simp
  then have "sval a sdiv sval b = (if is_neg a \<noteq> is_neg b then - (\<bar>sval a\<bar> div \<bar>sval b\<bar>) else \<bar>sval a\<bar> div \<bar>sval b\<bar>)"
    using is_neg_correct(1)[OF sw(1)] is_neg_correct(1)[OF sw(2)]
    by (auto simp: signed_divide_int_def sgn_if)
  then show ?thesis using q nq r by simp
qed

lemma sdiv_is:
  assumes "same_width a b" "uval b \<noteq> 0"
  shows "ap_is (ap_bits a) (sval a sdiv sval b) (sdiv_ap a b)"
proof (cases "is_single a")
  case True
  then show ?thesis
    using same_widthD[OF assms(1)]
    by (simp add: sdiv_ap_def Let_def sext64_correct mk_mod_is uint_word_of_int is_single_def
        del: of_int_minus flip: of_int_minus)
qed (simp add: sdiv_ap_def sdiv_wide_is[OF assms(1) _ assms(2)])

lemma srem_wide_is:
  assumes "same_width a b" "\<not> is_single a" "uval b \<noteq> 0"
  shows "ap_is (ap_bits a) (sval a smod sval b) (srem_wide a b)"
proof (cases "ap_bits a \<le> 128")
  case True
  then show ?thesis
    using same_widthD[OF assms(1)]
    by (simp add: srem_wide_def Let_def to_i128_correct u128_mod_is uint_word_of_int native_smod)
next
  case False
  note sw = same_widthD[OF assms(1)]
  note m = mag_correct[OF sw(1)] and n = mag_correct[OF sw(2)]
  let ?r = "snd (udivrem_wide (mag a) (mag b))"
  have nz: "uval (mag b) \<noteq> 0" using n(3) sval_eq_0_iff[OF sw(2)] assms(3) by simp
  have ns: "\<not> is_single (mag a)" using m(2) assms(2) by (simp add: is_single_def)
  have q: "ap_is (ap_bits a) (\<bar>sval a\<bar> mod \<bar>sval b\<bar>) ?r"
    using udivrem_wide_is(2)[OF mag_same_width[OF assms(1)] ns nz] m n by (simp add: zmod_int)
  have r: "srem_wide a b = (if is_neg a then neg_ap ?r else ?r)"
    using False by (simp add: srem_wide_def Let_def mag_def)
  have nq: "ap_is (ap_bits a) (- (\<bar>sval a\<bar> mod \<bar>sval b\<bar>)) (neg_ap ?r)"
    using neg_is[OF ap_isD(1)[OF q]] ap_isD(2,3)[OF q] by (simp add: ap_is_def mod_minus_eq)
  have "sval a smod sval b = (if is_neg a then - (\<bar>sval a\<bar> mod \<bar>sval b\<bar>) else \<bar>sval a\<bar> mod \<bar>sval b\<bar>)"
    using is_neg_correct(1)[OF sw(1)] by (auto simp: signed_modulo_int_def sgn_if)
  then show ?thesis using q nq r by simp
qed

lemma srem_is:
  assumes "same_width a b" "uval b \<noteq> 0"
  shows "ap_is (ap_bits a) (sval a smod sval b) (srem_ap a b)"
proof (cases "is_single a")
  case True
  then show ?thesis
    using same_widthD[OF assms(1)]
    by (simp add: srem_ap_def Let_def sext64_correct mk_mod_is uint_word_of_int is_single_def native_smod)
qed (simp add: srem_ap_def srem_wide_is[OF assms(1) _ assms(2)])

section \<open>Overflow flags\<close>

lemma ival_lt: "ap_wf a \<Longrightarrow> ival a < 2 ^ ap_bits a"
  using ap_wfD(3)[of a] by (metis of_nat_less_iff of_nat_numeral of_nat_power)

lemma uadd_ov_correct:
  assumes "same_width a b"
  shows "fst (uadd_ov a b) = add_ap a b" "snd (uadd_ov a b) \<longleftrightarrow> 2 ^ ap_bits a \<le> uval a + uval b"
proof -
  note sw = same_widthD[OF assms] and r = add_is[OF assms]
  have s: "same_width (add_ap a b) a" using ap_isD(1,2)[OF r] sw(1) by (simp add: same_width_def)
  have u: "uval (add_ap a b) = (uval a + uval b) mod 2 ^ ap_bits a"
  proof -
    have "ival (add_ap a b) = int ((uval a + uval b) mod 2 ^ ap_bits a)"
      using ap_isD(3)[OF r] by (simp add: zmod_int)
    then show ?thesis by (simp only: of_nat_eq_iff)
  qed
  show "fst (uadd_ov a b) = add_ap a b" by (simp add: uadd_ov_def Let_def)
  have "(uval a + uval b) mod 2 ^ ap_bits a < uval a \<longleftrightarrow> 2 ^ ap_bits a \<le> uval a + uval b"
  proof (cases "2 ^ ap_bits a \<le> uval a + uval b")
    case True
    have lt: "uval a < 2 ^ ap_bits a" "uval b < 2 ^ ap_bits a"
      using ap_wfD(3)[OF sw(1)] ap_wfD(3)[OF sw(2)] sw(3) by simp_all
    then have "uval a + uval b - 2 ^ ap_bits a < 2 ^ ap_bits a" by linarith
    then have "(uval a + uval b) mod 2 ^ ap_bits a = uval a + uval b - 2 ^ ap_bits a"
      by (simp only: le_mod_geq[OF True] mod_less)
    then show ?thesis using True lt by linarith
  qed simp
  then show "snd (uadd_ov a b) \<longleftrightarrow> 2 ^ ap_bits a \<le> uval a + uval b"
    by (simp add: uadd_ov_def Let_def ult_correct[OF s] u)
qed

lemma usub_ov_correct:
  assumes "same_width a b"
  shows "fst (usub_ov a b) = sub_ap a b" "snd (usub_ov a b) \<longleftrightarrow> uval a < uval b"
  by (simp_all add: usub_ov_def ult_correct[OF assms])

lemma umul_ov_correct:
  assumes "same_width a b" "ap_bits a \<le> 2147483616"
  shows "ap_is (ap_bits a) (ival a * ival b) (fst (umul_ov a b))"
    "snd (umul_ov a b) \<longleftrightarrow> 2 ^ ap_bits a \<le> uval a * uval b"
proof -
  note sw = same_widthD[OF assms(1)]
  have "ap_is (ap_bits a) (ival a * ival b) (fst (umul_ov a b)) \<and>
    (snd (umul_ov a b) \<longleftrightarrow> 2 ^ ap_bits a \<le> uval a * uval b)"
  proof (cases "is_single a")
    case True
    let ?p = "wide (ap_val a) * wide (ap_val b)"
    have b64: "ap_bits a \<le> 64" using True by (simp add: is_single_def)
    have v: "unat (ap_val a) = uval a" "unat (ap_val b) = uval b"
      using True sw single_uval by simp_all
    have lt: "uval a < 2 ^ 64" "uval b < 2 ^ 64"
      unfolding v[symmetric]
      using unsigned_less[of "ap_val a", where ?'a = nat] unsigned_less[of "ap_val b", where ?'a = nat]
      by simp_all
    have "uval a * uval b < 2 ^ 64 * 2 ^ 64" by (rule mult_strict_mono'[OF lt]) simp_all
    then have p: "unat ?p = uval a * uval b"
      using v by (subst unat_mult_u128) simp_all
    have "ap_is (ap_bits a) (int (uval a * uval b mod 2 ^ 64)) (mk_ap (ap_bits a) (lo64 ?p))"
      by (rule mk_nat_is[OF sw(4)]) (simp add: unat_lo64 p base64_def)
    then have "ap_is (ap_bits a) (ival a * ival b) (mk_ap (ap_bits a) (lo64 ?p))"
      using ap_is_mod[OF b64, of "ival a * ival b"] by (simp add: zmod_int)
    moreover have "drop_bit (ap_bits a) ?p \<noteq> 0 \<longleftrightarrow> 2 ^ ap_bits a \<le> uval a * uval b"
    proof -
      have "drop_bit (ap_bits a) ?p = 0 \<longleftrightarrow> unat (drop_bit (ap_bits a) ?p) = 0"
        by (simp only: unat_eq_zero)
      also have "\<dots> \<longleftrightarrow> uval a * uval b div 2 ^ ap_bits a = 0"
        unfolding unat_drop_bit_eq p drop_bit_eq_div[where ?'a = nat] ..
      finally show ?thesis by (simp add: div_eq_0_iff not_less)
    qed
    ultimately show ?thesis using True by (simp add: umul_ov_def Let_def)
  next
    case False
    define w where "w = u32_mult 2 (ap_bits a)"
    have w: "w = 2 * ap_bits a" using assms(2) by (simp add: w_def u32_mult_def)
    have wok: "width_ok w" and le: "ap_bits a \<le> w" "ap_bits b \<le> w"
      using assms(2) sw(3,4) by (simp_all add: w width_ok_def)
    note za = zext_is[OF sw(1) wok le(1)] and zb = zext_is[OF sw(2) wok le(2)]
    have sww: "same_width (zext a w) (zext b w)"
      using ap_isD(1,2)[OF za] ap_isD(1,2)[OF zb] by (simp add: same_width_def)
    let ?p = "mul_ap (zext a w) (zext b w)"
    have p: "ap_is w (ival a * ival b) ?p"
      using mul_is[OF sww] ap_isD(2)[OF za] zext_uval[OF sw(1) wok le(1)] zext_uval[OF sw(2) wok le(2)]
      by simp
    have "ival a * ival b < 2 ^ ap_bits a * 2 ^ ap_bits a"
      using ival_lt[OF sw(1)] ival_lt[OF sw(2)] sw(3) by (intro mult_strict_mono') simp_all
    then have "ival a * ival b < 2 ^ w" by (simp add: w mult_2 power_add)
    then have "ival ?p = ival a * ival b" using ap_isD(3)[OF p] by simp
    then have pv: "uval ?p = uval a * uval b" by (metis of_nat_eq_iff of_nat_mult)
    have "ap_is (ap_bits a) (ival a * ival b) (trunc_ap ?p (ap_bits a))"
      using trunc_is[OF ap_isD(1)[OF p], of "ap_bits a"] ap_isD(2)[OF p] ap_wfD(4)[OF sw(1)] pv w
      by simp
    moreover have "ap_bits a < active_bits ?p \<longleftrightarrow> 2 ^ ap_bits a \<le> uval a * uval b"
      using active_bits_le_iff[OF ap_isD(1)[OF p], of "ap_bits a"] pv by (simp flip: not_le)
    ultimately show ?thesis
      using False by (simp add: umul_ov_def Let_def flip: w_def)
  qed
  then show "ap_is (ap_bits a) (ival a * ival b) (fst (umul_ov a b))"
    "snd (umul_ov a b) \<longleftrightarrow> 2 ^ ap_bits a \<le> uval a * uval b" by simp_all
qed

text \<open>A signed result overflows when it is outside \<open>- 2 ^ (bits - 1) .. 2 ^ (bits - 1) - 1\<close>.\<close>

definition s_ovf :: "nat \<Rightarrow> int \<Rightarrow> bool" where
  "s_ovf bits k \<longleftrightarrow> k < - (2 ^ (bits - 1)) \<or> 2 ^ (bits - 1) \<le> k"

lemma wrap_neg:
  fixes k :: int
  assumes b: "0 < b" and r: "- (2 ^ b) \<le> k" "k < 2 ^ b" and wf: "ap_is b k x"
  shows "sval x = (if k < - (2 ^ (b - 1)) then k + 2 ^ b else if 2 ^ (b - 1) \<le> k then k - 2 ^ b else k)"
proof -
  have p: "(2::int) ^ b = 2 * 2 ^ (b - 1)" using pow_pred[OF b] .
  have "sval x = l" if "l mod 2 ^ b = k mod 2 ^ b" "- (2 ^ (b - 1)) \<le> l" "l < 2 ^ (b - 1)" for l
    by (rule sval_eqI[OF ap_isD(1)[OF wf]], unfold ap_isD(2)[OF wf]) (use that ap_isD(3)[OF wf] in simp_all)
  then show ?thesis using r p by (smt (verit) mod_add_self2 minus_mod_self2)
qed

lemma sadd_ov_correct:
  assumes "same_width a b"
  shows "fst (sadd_ov a b) = add_ap a b" "snd (sadd_ov a b) \<longleftrightarrow> s_ovf (ap_bits a) (sval a + sval b)"
proof -
  note sw = same_widthD[OF assms]
  have "(sval a + sval b) mod 2 ^ ap_bits a = (ival a + ival b) mod 2 ^ ap_bits a"
    using sval_mod[OF sw(1)] sval_mod[OF sw(2)] sw(3) by (metis mod_add_eq)
  then have r: "ap_is (ap_bits a) (sval a + sval b) (add_ap a b)"
    using add_is[OF assms] by (simp add: ap_is_def)
  show "fst (sadd_ov a b) = add_ap a b" by (simp add: sadd_ov_def Let_def)
  note sa = sval_bounds[OF sw(1)] and sb = sval_bounds[OF sw(2), unfolded sw(3)]
  have p: "(2::int) ^ ap_bits a = 2 * 2 ^ (ap_bits a - 1)" using pow_pred[OF ap_wfD(4)[OF sw(1)]] .
  have sr: "sval (add_ap a b) = (if sval a + sval b < - (2 ^ (ap_bits a - 1)) then sval a + sval b + 2 ^ ap_bits a
      else if 2 ^ (ap_bits a - 1) \<le> sval a + sval b then sval a + sval b - 2 ^ ap_bits a else sval a + sval b)"
    using sa sb p by (intro wrap_neg[OF ap_wfD(4)[OF sw(1)] _ _ r]) linarith+
  show "snd (sadd_ov a b) \<longleftrightarrow> s_ovf (ap_bits a) (sval a + sval b)"
    using sr sa sb p unfolding s_ovf_def
    by (simp add: sadd_ov_def Let_def is_neg_correct(1)[OF sw(1)] is_neg_correct(1)[OF sw(2)]
        is_neg_correct(1)[OF ap_isD(1)[OF r]] split: if_splits) linarith+
qed

lemma ssub_ov_correct:
  assumes "same_width a b"
  shows "fst (ssub_ov a b) = sub_ap a b" "snd (ssub_ov a b) \<longleftrightarrow> s_ovf (ap_bits a) (sval a - sval b)"
proof -
  note sw = same_widthD[OF assms]
  have "(sval a - sval b) mod 2 ^ ap_bits a = (ival a - ival b) mod 2 ^ ap_bits a"
    using sval_mod[OF sw(1)] sval_mod[OF sw(2)] sw(3) by (metis mod_diff_eq)
  then have r: "ap_is (ap_bits a) (sval a - sval b) (sub_ap a b)"
    using sub_is[OF assms] by (simp add: ap_is_def)
  show "fst (ssub_ov a b) = sub_ap a b" by (simp add: ssub_ov_def Let_def)
  note sa = sval_bounds[OF sw(1)] and sb = sval_bounds[OF sw(2), unfolded sw(3)]
  have p: "(2::int) ^ ap_bits a = 2 * 2 ^ (ap_bits a - 1)" using pow_pred[OF ap_wfD(4)[OF sw(1)]] .
  have sr: "sval (sub_ap a b) = (if sval a - sval b < - (2 ^ (ap_bits a - 1)) then sval a - sval b + 2 ^ ap_bits a
      else if 2 ^ (ap_bits a - 1) \<le> sval a - sval b then sval a - sval b - 2 ^ ap_bits a else sval a - sval b)"
    using sa sb p by (intro wrap_neg[OF ap_wfD(4)[OF sw(1)] _ _ r]) linarith+
  show "snd (ssub_ov a b) \<longleftrightarrow> s_ovf (ap_bits a) (sval a - sval b)"
    using sr sa sb p unfolding s_ovf_def
    by (simp add: ssub_ov_def Let_def is_neg_correct(1)[OF sw(1)] is_neg_correct(1)[OF sw(2)]
        is_neg_correct(1)[OF ap_isD(1)[OF r]] split: if_splits) linarith+
qed

lemma mult_range:
  assumes "- (2 ^ n) \<le> x" "x < 2 ^ n" "- (2 ^ n) \<le> y" "y < (2 ^ n :: int)"
  shows "- (2 ^ (2 * n + 1)) \<le> x * y" "x * y < 2 ^ (2 * n + 1)"
proof -
  have "\<bar>x\<bar> \<le> 2 ^ n" "\<bar>y\<bar> \<le> 2 ^ n" using assms by linarith+
  then have "\<bar>x\<bar> * \<bar>y\<bar> \<le> 2 ^ n * 2 ^ n" by (intro mult_mono) simp_all
  then have le: "\<bar>x * y\<bar> \<le> 2 ^ (2 * n)" by (simp add: abs_mult mult_2 power_add)
  have "(2::int) ^ (2 * n + 1) = 2 * 2 ^ (2 * n)" "(0::int) < 2 ^ (2 * n)" by simp_all
  with le show "- (2 ^ (2 * n + 1)) \<le> x * y" "x * y < 2 ^ (2 * n + 1)" by linarith+
qed

lemma smul_wide_is:
  assumes "same_width a b" "ap_bits a \<le> 2147483616" "w = u32_mult 2 (ap_bits a)"
  shows "ap_is w (sval a * sval b) (mul_ap (sext a w) (sext b w))" "w = 2 * ap_bits a" "width_ok w"
proof -
  note sw = same_widthD[OF assms(1)]
  show w: "w = 2 * ap_bits a" using assms(2) by (simp add: assms(3) u32_mult_def)
  show wok: "width_ok w" using assms(2) sw(4) by (simp add: w width_ok_def)
  have le: "ap_bits a \<le> w" "ap_bits b \<le> w" using sw(3) by (simp_all add: w)
  note za = sext_is[OF sw(1) wok le(1)] and zb = sext_is[OF sw(2) wok le(2)]
  have sww: "same_width (sext a w) (sext b w)"
    using ap_isD(1,2)[OF za] ap_isD(1,2)[OF zb] by (simp add: same_width_def)
  have "ival (sext a w) * ival (sext b w) mod 2 ^ w = sval a * sval b mod 2 ^ w"
    unfolding ap_isD(3)[OF za] ap_isD(3)[OF zb] by (rule mod_mult_eq)
  then show "ap_is w (sval a * sval b) (mul_ap (sext a w) (sext b w))"
    using mul_is[OF sww] ap_isD(2)[OF za] by (simp add: ap_is_def)
qed

lemma smul_ov_correct:
  assumes "same_width a b" "ap_bits a \<le> 2147483616"
  shows "ap_is (ap_bits a) (sval a * sval b) (fst (smul_ov a b))"
    "snd (smul_ov a b) \<longleftrightarrow> s_ovf (ap_bits a) (sval a * sval b)"
proof -
  note sw = same_widthD[OF assms(1)]
  have "ap_is (ap_bits a) (sval a * sval b) (fst (smul_ov a b)) \<and>
    (snd (smul_ov a b) \<longleftrightarrow> s_ovf (ap_bits a) (sval a * sval b))"
  proof (cases "is_single a")
    case True
    then have b64: "ap_bits a \<le> 64" by (simp add: is_single_def)
    have "sext64 a = sval a" "sext64 b = sval b" using True sw sext64_correct by simp_all
    moreover have "ap_is (ap_bits a) (sval a * sval b) (mk_ap (ap_bits a) (word_of_int (sval a * sval b)))"
      by (rule mk_mod_is[OF sw(4) b64]) (simp add: uint_word_of_int del: of_int_mult)
    ultimately show ?thesis using True by (auto simp: smul_ov_def Let_def s_ovf_def)
  next
    case False
    define w where "w = u32_mult 2 (ap_bits a)"
    let ?p = "mul_ap (sext a w) (sext b w)" and ?k = "sval a * sval b"
    let ?t = "trunc_ap ?p (ap_bits a)"
    have p: "ap_is w ?k ?p" and w: "w = 2 * ap_bits a" and wok: "width_ok w"
      using smul_wide_is[OF assms w_def] by simp_all
    have b0: "0 < ap_bits a" using ap_wfD(4)[OF sw(1)] .
    have "ap_is (ap_bits a) (ival ?p) ?t"
      using ap_isD(2)[OF p] b0 w by (intro trunc_is[OF ap_isD(1)[OF p]]) simp_all
    then have t: "ap_is (ap_bits a) ?k ?t"
      unfolding ap_isD(3)[OF p] using ap_is_mod[of "ap_bits a" w ?k] w by simp
    have st: "ap_is w (sval ?t) (sext ?t w)"
      using w ap_isD(2)[OF t] by (intro sext_is[OF ap_isD(1)[OF t] wok]) simp
    have sww: "same_width (sext ?t w) ?p"
      using ap_isD(1,2)[OF st] ap_isD(1,2)[OF p] by (simp add: same_width_def)
    have sp: "sval ?p = ?k"
    proof -
      have e: "2 * (ap_bits a - 1) + 1 = w - 1" using b0 by (simp add: w)
      note mr = mult_range[OF sval_bounds[OF sw(1)] sval_bounds[OF sw(2), unfolded sw(3)], unfolded e]
      show ?thesis
        by (rule sval_eqI[OF ap_isD(1)[OF p]], unfold ap_isD(2)[OF p]) (use mr ap_isD(3)[OF p] in simp_all)
    qed
    have stt: "sval (sext ?t w) = sval ?t"
      using w ap_isD(2)[OF t] by (intro sext_sval[OF ap_isD(1)[OF t] wok]) simp
    have "eq_ap (sext ?t w) ?p \<longleftrightarrow> sext ?t w = ?p" by (rule eq_correct[OF sww])
    also have "\<dots> \<longleftrightarrow> sval ?t = ?k"
    proof
      assume "sval ?t = ?k"
      with st p show "sext ?t w = ?p" by (simp add: ap_is_inject)
    qed (use stt sp in simp)
    also have "\<dots> \<longleftrightarrow> \<not> s_ovf (ap_bits a) ?k"
    proof
      assume "sval ?t = ?k"
      then show "\<not> s_ovf (ap_bits a) ?k"
        using sval_bounds[OF ap_isD(1)[OF t]] ap_isD(2)[OF t] by (simp add: s_ovf_def)
    next
      assume "\<not> s_ovf (ap_bits a) ?k"
      then show "sval ?t = ?k" unfolding s_ovf_def
        by (intro sval_eqI[OF ap_isD(1)[OF t]]; unfold ap_isD(2)[OF t]) (use ap_isD(3)[OF t] in simp_all)
    qed
    finally show ?thesis using t False by (simp add: smul_ov_def Let_def flip: w_def)
  qed
  then show "ap_is (ap_bits a) (sval a * sval b) (fst (smul_ov a b))"
    "snd (smul_ov a b) \<longleftrightarrow> s_ovf (ap_bits a) (sval a * sval b)" by simp_all
qed

end
