(* ===== verification/FixedWidth.thy ===== *)
theory FixedWidth
  imports APIntDiv
begin

text \<open>
  The interface the rest of the optimizer uses of its integers: a value has a width and an
  unsigned reading, and the operators work modulo \<open>2 ^ width\<close>. The algebra of the operators is
  proved from these laws alone, and \<^verbatim>\<open>APInt\<close> is shown to provide them.
\<close>

lemma or_plus_and: "(x OR y) + (x AND y) = x + (y :: int)"
  using plus_and_or[of x y] by (simp add: add.commute)

locale fixed_width =
  fixes valid :: "'a \<Rightarrow> bool" and width :: "'a \<Rightarrow> nat" and uv :: "'a \<Rightarrow> nat"
    and plus :: "'a \<Rightarrow> 'a \<Rightarrow> 'a" and minus :: "'a \<Rightarrow> 'a \<Rightarrow> 'a" and times :: "'a \<Rightarrow> 'a \<Rightarrow> 'a"
    and conj :: "'a \<Rightarrow> 'a \<Rightarrow> 'a" and disj :: "'a \<Rightarrow> 'a \<Rightarrow> 'a" and excl :: "'a \<Rightarrow> 'a \<Rightarrow> 'a"
  assumes inj: "valid x \<Longrightarrow> valid y \<Longrightarrow> width x = width y \<Longrightarrow> uv x = uv y \<Longrightarrow> x = y"
    and bound: "valid x \<Longrightarrow> uv x < 2 ^ width x"
    and closed: "valid x \<Longrightarrow> valid y \<Longrightarrow> width x = width y \<Longrightarrow>
      valid (plus x y) \<and> valid (minus x y) \<and> valid (times x y)
      \<and> valid (conj x y) \<and> valid (disj x y) \<and> valid (excl x y)"
    and widths: "valid x \<Longrightarrow> valid y \<Longrightarrow> width x = width y \<Longrightarrow>
      width (plus x y) = width x \<and> width (minus x y) = width x \<and> width (times x y) = width x
      \<and> width (conj x y) = width x \<and> width (disj x y) = width x \<and> width (excl x y) = width x"
    and plus_law: "valid x \<Longrightarrow> valid y \<Longrightarrow> width x = width y \<Longrightarrow>
      int (uv (plus x y)) = (int (uv x) + int (uv y)) mod 2 ^ width x"
    and minus_law: "valid x \<Longrightarrow> valid y \<Longrightarrow> width x = width y \<Longrightarrow>
      int (uv (minus x y)) = (int (uv x) - int (uv y)) mod 2 ^ width x"
    and times_law: "valid x \<Longrightarrow> valid y \<Longrightarrow> width x = width y \<Longrightarrow>
      int (uv (times x y)) = (int (uv x) * int (uv y)) mod 2 ^ width x"
    and conj_law: "valid x \<Longrightarrow> valid y \<Longrightarrow> width x = width y \<Longrightarrow> uv (conj x y) = uv x AND uv y"
    and disj_law: "valid x \<Longrightarrow> valid y \<Longrightarrow> width x = width y \<Longrightarrow> uv (disj x y) = uv x OR uv y"
    and excl_law: "valid x \<Longrightarrow> valid y \<Longrightarrow> width x = width y \<Longrightarrow> uv (excl x y) = uv x XOR uv y"
begin

lemma eqI: "valid x \<Longrightarrow> valid y \<Longrightarrow> width x = width y \<Longrightarrow> int (uv x) = int (uv y) \<Longrightarrow> x = y"
  by (rule inj) simp_all

lemma int_mod: "valid x \<Longrightarrow> width x = w \<Longrightarrow> int (uv x) mod 2 ^ w = int (uv x)"
  using bound[of x] by (auto simp: zmod_int[symmetric])

lemma plus_comm:
  "valid x \<Longrightarrow> valid y \<Longrightarrow> width x = width y \<Longrightarrow> plus x y = plus y x"
  by (rule eqI) (simp_all add: closed widths plus_law add.commute)

lemma plus_assoc:
  "valid x \<Longrightarrow> valid y \<Longrightarrow> valid z \<Longrightarrow> width x = width y \<Longrightarrow> width y = width z \<Longrightarrow>
   plus (plus x y) z = plus x (plus y z)"
  by (rule eqI) (simp_all add: closed widths plus_law mod_simps add.assoc)

lemma times_comm:
  "valid x \<Longrightarrow> valid y \<Longrightarrow> width x = width y \<Longrightarrow> times x y = times y x"
  by (rule eqI) (simp_all add: closed widths times_law mult.commute)

lemma times_assoc:
  "valid x \<Longrightarrow> valid y \<Longrightarrow> valid z \<Longrightarrow> width x = width y \<Longrightarrow> width y = width z \<Longrightarrow>
   times (times x y) z = times x (times y z)"
  by (rule eqI) (simp_all add: closed widths times_law mod_simps mult.assoc)

lemma distrib:
  "valid x \<Longrightarrow> valid y \<Longrightarrow> valid z \<Longrightarrow> width x = width y \<Longrightarrow> width y = width z \<Longrightarrow>
   times x (plus y z) = plus (times x y) (times x z)"
  by (rule eqI) (simp_all add: closed widths times_law plus_law mod_simps distrib_left)

lemma plus_minus_cancel:
  "valid x \<Longrightarrow> valid y \<Longrightarrow> width x = width y \<Longrightarrow> minus (plus x y) y = x"
  by (rule eqI) (simp_all add: closed widths minus_law plus_law mod_simps int_mod)

lemma minus_plus_cancel:
  "valid x \<Longrightarrow> valid y \<Longrightarrow> width x = width y \<Longrightarrow> plus (minus x y) y = x"
  by (rule eqI) (simp_all add: closed widths minus_law plus_law mod_simps int_mod)

lemma excl_self: "valid x \<Longrightarrow> valid y \<Longrightarrow> width x = width y \<Longrightarrow> excl (excl x y) y = x"
  by (rule inj) (simp_all add: closed widths excl_law xor.assoc)

lemma disj_conj_plus: \<comment> \<open>the half adder identity\<close>
  "valid x \<Longrightarrow> valid y \<Longrightarrow> width x = width y \<Longrightarrow> plus (disj x y) (conj x y) = plus x y"
  by (rule eqI) (simp_all add: closed widths plus_law disj_law conj_law of_nat_or_eq of_nat_and_eq
      or_plus_and)

end

section \<open>\<^verbatim>\<open>APInt\<close> provides the interface\<close>

lemma bitwise_uval:
  assumes "same_width x y"
  shows "uval (and_ap x y) = uval x AND uval y" "uval (or_ap x y) = uval x OR uval y"
    "uval (xor_ap x y) = uval x XOR uval y"
proof -
  note sw = same_widthD[OF assms]
  note lt = ap_wfD(3)[OF sw(1)] ap_wfD(3)[OF sw(2), unfolded sw(3)]
  have "uval x AND uval y < 2 ^ ap_bits x" "uval x OR uval y < 2 ^ ap_bits x" "uval x XOR uval y < 2 ^ ap_bits x"
    using lt unfolding nat_less_pow_iff_bits by (auto simp: bit_simps)
  then have "int (uval x AND uval y) mod 2 ^ ap_bits x = int (uval x AND uval y)"
    "int (uval x OR uval y) mod 2 ^ ap_bits x = int (uval x OR uval y)"
    "int (uval x XOR uval y) mod 2 ^ ap_bits x = int (uval x XOR uval y)"
    by (simp_all add: zmod_int[symmetric])
  then have "ival (and_ap x y) = int (uval x AND uval y)" "ival (or_ap x y) = int (uval x OR uval y)"
    "ival (xor_ap x y) = int (uval x XOR uval y)"
    using ap_isD(3)[OF and_is[OF assms]] ap_isD(3)[OF or_is[OF assms]] ap_isD(3)[OF xor_is[OF assms]]
    by (simp_all only: of_nat_and_eq of_nat_or_eq of_nat_xor_eq)
  then show "uval (and_ap x y) = uval x AND uval y" "uval (or_ap x y) = uval x OR uval y"
    "uval (xor_ap x y) = uval x XOR uval y" by (simp_all only: of_nat_eq_iff)
qed

interpretation ap: fixed_width ap_wf ap_bits uval add_ap sub_ap mul_ap and_ap or_ap xor_ap
proof unfold_locales
  fix x y :: apint
  show "ap_wf x \<Longrightarrow> uval x < 2 ^ ap_bits x" by (rule ap_wfD(3))
  assume xy: "ap_wf x" "ap_wf y" "ap_bits x = ap_bits y"
  show "uval x = uval y \<Longrightarrow> x = y" by (rule ap_wf_eqI[OF xy])
  have sw: "same_width x y" using xy by (simp add: same_width_def)
  note laws = add_is[OF sw] sub_is[OF sw] mul_is[OF sw] and_is[OF sw] or_is[OF sw] xor_is[OF sw]
  show "ap_wf (add_ap x y) \<and> ap_wf (sub_ap x y) \<and> ap_wf (mul_ap x y)
      \<and> ap_wf (and_ap x y) \<and> ap_wf (or_ap x y) \<and> ap_wf (xor_ap x y)"
    using laws[THEN ap_isD(1)] by simp
  show "ap_bits (add_ap x y) = ap_bits x \<and> ap_bits (sub_ap x y) = ap_bits x \<and> ap_bits (mul_ap x y) = ap_bits x
      \<and> ap_bits (and_ap x y) = ap_bits x \<and> ap_bits (or_ap x y) = ap_bits x \<and> ap_bits (xor_ap x y) = ap_bits x"
    using laws[THEN ap_isD(2)] by simp
  show "int (uval (add_ap x y)) = (int (uval x) + int (uval y)) mod 2 ^ ap_bits x"
    "int (uval (sub_ap x y)) = (int (uval x) - int (uval y)) mod 2 ^ ap_bits x"
    "int (uval (mul_ap x y)) = (int (uval x) * int (uval y)) mod 2 ^ ap_bits x"
    by (rule laws[THEN ap_isD(3)])+
  show "uval (and_ap x y) = uval x AND uval y" "uval (or_ap x y) = uval x OR uval y"
    "uval (xor_ap x y) = uval x XOR uval y"
    by (rule bitwise_uval[OF sw])+
qed

end
