(* ===== verification/APIntText.thy ===== *)
theory APIntText
  imports APIntDiv "HOL-Library.Char_ord"
begin

text \<open>
  \<^verbatim>\<open>APInt::to_string\<close> (\<^verbatim>\<open>APInt.cpp\<close>): radix 10 by repeated division of the limbs by \<open>10 ^ 9\<close>,
  radix 2 and 16 bit by bit. The characters are produced lowest digit first and reversed at the
  end. A parser is the specification: reading the text back gives the number.
\<close>

section \<open>The code\<close>

definition dec_char :: "u64 \<Rightarrow> char" where
  "dec_char rem = char_of (48 + unat (rem mod 10))"

text \<open>\<^verbatim>\<open>for (k = 0; k < 9 && (n > 0 || rem > 0); k++)\<close>; \<open>pend\<close> is \<^verbatim>\<open>n > 0\<close>.\<close>

fun push_digits :: "nat \<Rightarrow> bool \<Rightarrow> u64 \<Rightarrow> string" where
  "push_digits 0 pend rem = []"
| "push_digits (Suc k) pend rem =
     (if pend \<or> 0 < rem then dec_char rem # push_digits k pend (rem div 10) else [])"

text \<open>The outer loop; the limbs at and above \<^verbatim>\<open>n\<close> are never read again and are dropped.\<close>

lemma dec_loop_less:
  assumes "l \<noteq> []" "div_short 1000000000 l = (q, rem)"
  shows "lval (take (trim q) q) < lval l \<or> lval (take (trim q) q) = lval l \<and> trim q < length l"
proof -
  have q: "length q = length l" "lval q = lval l div 1000000000"
    using div_short_correct[OF _ _ assms(2)] by (simp_all add: base32_def)
  show ?thesis
  proof (cases "lval l = 0")
    case True
    then have z: "lval q = 0" using q by simp
    have "trim q = 0"
    proof (rule ccontr)
      assume "trim q \<noteq> 0"
      then have "q ! (trim q - 1) \<noteq> 0" "trim q - 1 < length q"
        using trim_correct(1,2)[of q] by simp_all
      with z show False by (simp add: l32.val_zero_iff unat_eq_zero)
    qed
    with True z show ?thesis using assms(1) by simp
  next
    case False
    then show ?thesis using q by (simp add: trim_correct(3))
  qed
qed

function dec_loop :: "u32 list \<Rightarrow> string \<Rightarrow> string" where
  "dec_loop l s =
     (if l = [] then s
      else (let (q, rem) = div_short 1000000000 l;
                l' = take (trim q) q
            in dec_loop l' (s @ push_digits 9 (l' \<noteq> []) rem)))"
  by pat_completeness auto
termination
proof (relation "measures [\<lambda>(l, s). lval l, \<lambda>(l, s). length l]", goal_cases)
  case (2 l s x q rem l')
  then show ?case using dec_loop_less[of l q rem] trim_correct(1)[of q] by auto
qed simp

declare dec_loop.simps [simp del]

definition radix_chars :: string where "radix_chars = ''0123456789abcdef''"

definition radix_digit :: "apint \<Rightarrow> nat \<Rightarrow> nat \<Rightarrow> nat" where
  "radix_digit mg shift i =
     fold (\<lambda>k digit. digit OR push_bit k (if bit_ap mg (i + k) then 1 else 0))
       [0..<min shift (ap_bits mg - i)] 0"

function radix_loop :: "apint \<Rightarrow> nat \<Rightarrow> nat \<Rightarrow> string" where
  "radix_loop mg shift i =
     (if i < ap_bits mg \<and> 0 < shift
      then radix_chars ! radix_digit mg shift i # radix_loop mg shift (i + shift)
      else [])"
  by pat_completeness auto
termination by (relation "measure (\<lambda>(mg, shift, i). ap_bits mg - i)") auto

declare radix_loop.simps [simp del]

text \<open>\<^verbatim>\<open>while (s.size() > 1 && s.back() == '0') s.pop_back()\<close>\<close>

function pop_zeros :: "string \<Rightarrow> string" where
  "pop_zeros s = (if 1 < length s \<and> last s = CHR ''0'' then pop_zeros (butlast s) else s)"
  by pat_completeness auto
termination by (relation "measure length") auto

declare pop_zeros.simps [simp del]

definition to_string :: "apint \<Rightarrow> bool \<Rightarrow> nat \<Rightarrow> string" where
  "to_string a is_signed radix =
     (let ng = (is_signed \<and> is_neg a);
          m = (if ng then neg_ap a else a);
          s = (if radix = 10 then
                 (let l = to_limbs (ap_words m) (num_words m) in dec_loop (take (trim l) l) [])
               else pop_zeros (radix_loop m (if radix = 16 then 4 else 1) 0));
          s1 = (if s = [] then ''0'' else s);
          s2 = (if ng then s1 @ ''-'' else s1)
      in rev s2)"

section \<open>The specification: reading a number\<close>

definition char_val :: "char \<Rightarrow> nat" where
  "char_val c = (let k = of_char c in if k < 58 then k - 48 else k - 87)"

definition nat_of_string :: "nat \<Rightarrow> string \<Rightarrow> nat" where
  "nat_of_string radix s = foldl (\<lambda>acc c. acc * radix + char_val c) 0 s"

definition int_of_string :: "nat \<Rightarrow> string \<Rightarrow> int" where
  "int_of_string radix s =
     (case s of CHR ''-'' # r \<Rightarrow> - int (nat_of_string radix r) | _ \<Rightarrow> int (nat_of_string radix s))"

abbreviation rval :: "nat \<Rightarrow> string \<Rightarrow> nat" where "rval r \<equiv> digits_val r char_val"

lemma nat_of_string_rev: "nat_of_string r (rev s) = rval r s"
  by (induction s) (simp_all add: nat_of_string_def)

lemma rval_append: "rval r (xs @ ys) = rval r xs + r ^ length xs * rval r ys"
  by (induction xs) (simp_all add: algebra_simps)

lemma char_val_dec: "d < 10 \<Longrightarrow> char_val (char_of (48 + d :: nat)) = d"
  by (simp add: char_val_def Let_def)

lemma char_val_zero [simp]: "char_val (CHR ''0'') = 0"
  by (simp add: char_val_def)

lemma unat_mod10: "unat (w mod 10 :: u64) = unat w mod 10" "unat (w div 10 :: u64) = unat w div 10"
  by (simp_all add: unat_mod unat_div)

lemma char_val_dec_char: "char_val (dec_char w) = unat w mod 10"
  unfolding dec_char_def unat_mod10 by (rule char_val_dec) simp

lemma push_digits_val:
  "unat rem < 10 ^ k \<Longrightarrow> rval 10 (push_digits k pend rem) = unat rem"
proof (induction k pend rem rule: push_digits.induct)
  case (2 k pend rem)
  show ?case
  proof (cases "pend \<or> 0 < rem")
    case True
    have "unat (rem div 10) < 10 ^ k" using 2(2) by (simp add: unat_mod10 less_mult_imp_div_less)
    then show ?thesis using 2(1)[OF True] True by (simp add: char_val_dec_char unat_mod10)
  next
    case False
    then have "rem = 0" by (simp add: word_gt_0)
    then show ?thesis using False by simp
  qed
qed simp

lemma push_digits_length: "length (push_digits k True rem) = k"
  by (induction k arbitrary: rem) simp_all

lemma dec_loop_val: "rval 10 (dec_loop l s) = rval 10 s + 10 ^ length s * lval l"
proof (induction l s rule: dec_loop.induct)
  case (1 l s)
  show ?case
  proof (cases "l = []")
    case True
    then show ?thesis by (simp add: dec_loop.simps)
  next
    case False
    obtain q rem where qr: "div_short 1000000000 l = (q, rem)" by (cases "div_short 1000000000 l")
    define l' where "l' = take (trim q) q"
    have q: "lval q = lval l div 1000000000" "unat rem = lval l mod 1000000000"
      using div_short_correct[OF _ _ qr] by (simp_all add: base32_def)
    let ?s = "s @ push_digits 9 (l' \<noteq> []) rem"
    have "dec_loop l s = dec_loop l' ?s"
      using False qr by (subst dec_loop.simps) (simp add: l'_def Let_def)
    moreover have "rval 10 (dec_loop l' ?s) = rval 10 ?s + 10 ^ length ?s * lval l'"
      using 1[OF False qr[symmetric] refl l'_def] .
    moreover have "rval 10 (push_digits 9 (l' \<noteq> []) rem) = unat rem"
      by (rule push_digits_val) (simp add: q(2))
    moreover have "10 ^ length ?s * lval l' = 10 ^ length s * (1000000000 * lval l')"
      by (cases "l' = []") (simp_all add: push_digits_length power_add)
    moreover have "lval l' = lval l div 1000000000" by (simp add: l'_def trim_correct(3) q(1))
    ultimately have "rval 10 (dec_loop l s)
        = rval 10 s + 10 ^ length s * (lval l mod 1000000000 + 1000000000 * (lval l div 1000000000))"
      by (simp only: rval_append q(2) add_mult_distrib2 add.assoc)
    then show ?thesis by (simp only: mod_mult_div_eq)
  qed
qed

lemma fold_digit_bits:
  "bit (fold (\<lambda>k digit. digit OR push_bit k (if f k then 1 else 0)) [0..<n] (d :: nat)) j
    \<longleftrightarrow> bit d j \<or> j < n \<and> f j"
  by (induction n) (auto simp: bit_or_iff bit_push_bit_iff bit_Suc_0_iff less_Suc_eq)

lemma radix_digit_val:
  assumes "ap_wf a"
  shows "radix_digit a shift i = uval a div 2 ^ i mod 2 ^ shift"
proof -
  have "bit (radix_digit a shift i) j \<longleftrightarrow> j < shift \<and> bit (uval a) (i + j)" for j
    using nat_bit_less[OF _ ap_wfD(3)[OF assms], of "i + j"] bit_ap_correct[OF assms, of "i + j"]
    by (auto simp: radix_digit_def fold_digit_bits)
  then show ?thesis
    by (intro bit_eqI) (simp add: bit_simps flip: drop_bit_eq_div take_bit_eq_mod)
qed

lemma upto16: "(d :: nat) < 16 \<Longrightarrow> P 0 \<Longrightarrow> P 1 \<Longrightarrow> P 2 \<Longrightarrow> P 3 \<Longrightarrow> P 4 \<Longrightarrow> P 5 \<Longrightarrow> P 6 \<Longrightarrow> P 7 \<Longrightarrow>
  P 8 \<Longrightarrow> P 9 \<Longrightarrow> P 10 \<Longrightarrow> P 11 \<Longrightarrow> P 12 \<Longrightarrow> P 13 \<Longrightarrow> P 14 \<Longrightarrow> P 15 \<Longrightarrow> P d"
  by (simp add: less_Suc_eq numeral_eq_Suc) blast

lemma radix_chars_val: "d < 16 \<Longrightarrow> char_val (radix_chars ! d) = d \<and> radix_chars ! d \<noteq> CHR ''-''"
  by (erule upto16) (simp_all add: radix_chars_def char_val_def Let_def)

lemma radix_loop_val:
  assumes "ap_wf a" "0 < shift" "shift \<le> 4"
  shows "rval (2 ^ shift) (radix_loop a shift i) = uval a div 2 ^ i \<and> CHR ''-'' \<notin> set (radix_loop a shift i)"
proof (induction "ap_bits a - i" arbitrary: i rule: less_induct)
  case less
  show ?case
  proof (cases "i < ap_bits a")
    case True
    let ?d = "radix_digit a shift i"
    have d: "?d = uval a div 2 ^ i mod 2 ^ shift" by (rule radix_digit_val[OF assms(1)])
    have "(2::nat) ^ shift \<le> 2 ^ 4" using assms(3) by (intro power_increasing) simp_all
    then have "?d < 16" unfolding d
      by (intro less_le_trans[OF mod_less_divisor[of "2 ^ shift"]]) simp_all
    moreover have "radix_loop a shift i = radix_chars ! ?d # radix_loop a shift (i + shift)"
      using True assms(2) by (subst radix_loop.simps) simp
    moreover have "uval a div 2 ^ (i + shift) = uval a div 2 ^ i div 2 ^ shift"
      by (simp add: power_add div_mult2_eq)
    moreover have "ap_bits a - (i + shift) < ap_bits a - i" using True assms(2) by simp
    note less[OF this]
    ultimately show ?thesis using radix_chars_val[of ?d] d by auto
  next
    case False
    then have "uval a < 2 ^ i"
      using ap_wfD(3)[OF assms(1)] power_increasing[of "ap_bits a" i "2 :: nat"] by linarith
    then show ?thesis using False radix_loop.simps[of a shift i] by simp
  qed
qed

lemma pop_zeros_val: "rval r (pop_zeros s) = rval r s \<and> set (pop_zeros s) \<subseteq> set s"
proof (induction s rule: pop_zeros.induct)
  case (1 s)
  show ?case
  proof (cases "1 < length s \<and> last s = CHR ''0''")
    case True
    then have "s = butlast s @ [CHR ''0'']" by (metis append_butlast_last_id list.size(3) not_less_zero)
    then have "rval r s = rval r (butlast s)"
      using rval_append[of r "butlast s" "[CHR ''0'']"] by simp
    then show ?thesis
      using True 1[OF True] pop_zeros.simps[of s] by (auto dest: in_set_butlastD)
  next
    case False
    then show ?thesis using pop_zeros.simps[of s] by auto
  qed
qed

lemma dec_char_no_minus: "dec_char w \<noteq> CHR ''-''"
proof -
  have "of_char (dec_char w) = 48 + unat w mod 10"
    using mod_less_divisor[of 10 "unat w"] by (simp add: dec_char_def unat_mod10 of_char_of)
  then show ?thesis by auto
qed

lemma push_digits_no_minus: "CHR ''-'' \<notin> set (push_digits k pend rem)"
  by (induction k pend rem rule: push_digits.induct) (auto simp: dec_char_no_minus[symmetric])

lemma dec_loop_no_minus: "CHR ''-'' \<notin> set s \<Longrightarrow> CHR ''-'' \<notin> set (dec_loop l s)"
proof (induction l s rule: dec_loop.induct)
  case (1 l s)
  then show ?case
    by (subst dec_loop.simps) (auto simp: push_digits_no_minus Let_def split: prod.splits)
qed

text \<open>The digits of a magnitude, before the sign: value and absence of the minus sign.\<close>

definition mag_string :: "apint \<Rightarrow> nat \<Rightarrow> string" where
  "mag_string m radix =
     (let s = (if radix = 10 then
                 (let l = to_limbs (ap_words m) (num_words m) in dec_loop (take (trim l) l) [])
               else pop_zeros (radix_loop m (if radix = 16 then 4 else 1) 0))
      in if s = [] then ''0'' else s)"

lemma mag_string_correct:
  assumes "ap_wf m" "radix \<in> {2, 10, 16}"
  shows "rval radix (mag_string m radix) = uval m" "CHR ''-'' \<notin> set (mag_string m radix)"
    "mag_string m radix \<noteq> []"
proof -
  define s where "s = (if radix = 10 then
      (let l = to_limbs (ap_words m) (num_words m) in dec_loop (take (trim l) l) [])
    else pop_zeros (radix_loop m (if radix = 16 then 4 else 1) 0))"
  have "rval radix s = uval m \<and> CHR ''-'' \<notin> set s"
  proof (cases "radix = 10")
    case True
    then show ?thesis
      using dec_loop_val[of _ "[]"] dec_loop_no_minus[of "[]"] ap_wfD(6)[OF assms(1)]
      by (simp add: s_def Let_def trim_correct(3) lval_to_limbs uval_def)
  next
    case False
    then show ?thesis
      using assms radix_loop_val[OF assms(1), of 4 0] radix_loop_val[OF assms(1), of 1 0]
        pop_zeros_val[of radix "radix_loop m (if radix = 16 then 4 else 1) 0"]
      by (auto simp: s_def)
  qed
  moreover have "mag_string m radix = (if s = [] then ''0'' else s)"
    unfolding mag_string_def s_def Let_def ..
  ultimately show "rval radix (mag_string m radix) = uval m" "CHR ''-'' \<notin> set (mag_string m radix)"
    "mag_string m radix \<noteq> []" by auto
qed

lemma to_string_mag:
  "to_string a sg radix = (let ng = (sg \<and> is_neg a)
     in rev (mag_string (if ng then neg_ap a else a) radix @ (if ng then ''-'' else [])))"
  by (simp add: to_string_def mag_string_def Let_def)

lemma int_of_string_digits:
  "CHR ''-'' \<notin> set s \<Longrightarrow> int_of_string r s = int (nat_of_string r s)"
  by (cases s) (auto simp: int_of_string_def split: char.splits bool.splits)

end
