(* ===== verification/APIntSpec.thy ===== *)
theory APIntSpec
  imports APIntText FixedWidth
begin

text \<open>
  What \<^verbatim>\<open>APInt\<close> promises its users, operation by operation: for well formed operands of one
  width every result is well formed, has the stated width and the stated value.
\<close>

lemma ap_is_uval:
  assumes "ap_is b (int k) x"
  shows "ap_wf x \<and> ap_bits x = b \<and> uval x = k mod 2 ^ b"
proof -
  have "ival x = int (k mod 2 ^ b)" using ap_isD(3)[OF assms] by (simp add: zmod_int)
  then have "uval x = k mod 2 ^ b" by (simp only: of_nat_eq_iff)
  then show ?thesis using ap_isD(1,2)[OF assms] by simp
qed

lemma ap_is_smod:
  "ap_is b k x \<Longrightarrow> ap_wf x \<and> ap_bits x = b \<and> sval x = signed_take_bit (b - 1) k"
  using ap_isD by blast

lemma same_width_mk: "width_ok b \<Longrightarrow> same_width (mk_ap b v) (mk_ap b w)"
  by (simp add: same_width_def mk_ap_correct)

lemma wf_mk: "width_ok b \<Longrightarrow> ap_wf (mk_ap b v)"
  by (rule mk_ap_correct)

lemma uval_mk_small: "width_ok b \<Longrightarrow> unat v < 2 ^ b \<Longrightarrow> uval (mk_ap b v) = unat v"
  by (simp add: mk_ap_correct)

lemma sval_mk_small:
  "width_ok b \<Longrightarrow> unat v < 2 ^ b \<Longrightarrow>
   sval (mk_ap b v) = (if unat v < 2 ^ (b - 1) then int (unat v) else int (unat v) - 2 ^ b)"
  by (simp add: sval_def uval_mk_small)

text \<open>Bounds of truncating division.\<close>

lemma abs_sdiv_le: "\<bar>x sdiv y\<bar> \<le> \<bar>x :: int\<bar>"
proof (cases "y = 0")
  case False
  then have le: "\<bar>x\<bar> div \<bar>y\<bar> \<le> \<bar>x\<bar>" using zdiv_mono2[of "\<bar>x\<bar>" 1 "\<bar>y\<bar>"] by simp
  have ge: "0 \<le> \<bar>x\<bar> div \<bar>y\<bar>" by (simp add: pos_imp_zdiv_nonneg_iff False)
  have "\<bar>x sdiv y\<bar> = \<bar>sgn x\<bar> * \<bar>sgn y\<bar> * (\<bar>x\<bar> div \<bar>y\<bar>)"
    using ge by (simp only: signed_divide_int_def abs_mult abs_of_nonneg)
  also have "\<dots> = (if x = 0 then 0 else \<bar>x\<bar> div \<bar>y\<bar>)" using False by (simp add: abs_sgn_eq)
  finally show ?thesis using le by simp
qed simp

lemma sdiv_lt_of_ne: "y \<noteq> 0 \<Longrightarrow> y \<noteq> - 1 \<Longrightarrow> x < 0 \<Longrightarrow> x sdiv y < - (x :: int)"
proof -
  assume y: "y \<noteq> 0" "y \<noteq> - 1" and x: "x < 0"
  show ?thesis
  proof (cases "0 < y")
    case True
    have "0 \<le> \<bar>x\<bar> div \<bar>y\<bar>" using y by (simp add: pos_imp_zdiv_nonneg_iff)
    then show ?thesis using True x by (simp add: signed_divide_int_def)
  next
    case False
    then have "2 \<le> \<bar>y\<bar>" using y by linarith
    then have "\<bar>x\<bar> div \<bar>y\<bar> \<le> \<bar>x\<bar> div 2" by (intro zdiv_mono2) simp_all
    then show ?thesis using False x y by (simp add: signed_divide_int_def)
  qed
qed

lemma abs_smod_le: "\<bar>x smod y\<bar> \<le> \<bar>x\<bar> mod \<bar>y :: int\<bar>"
  by (cases "y = 0") (simp_all add: signed_modulo_int_def abs_mult sgn_if)

text \<open>C19: Knuth's algorithm D as \<^verbatim>\<open>divmnu\<close> codes it (with the normalising shifts, the estimate
  of each quotient limb, the multiply and subtract and the add back) returns the exact quotient and
  remainder of the two limb arrays.\<close>

theorem divmnu_exact:
  assumes "length u = m" "length v = n" "0 < n" "n \<le> m" "v ! (n - 1) \<noteq> 0"
  shows "length (fst (divmnu u v m n)) = m - n + 1 \<and> length (snd (divmnu u v m n)) = n
    \<and> lval (fst (divmnu u v m n)) = lval u div lval v
    \<and> lval (snd (divmnu u v m n)) = lval u mod lval v"
  using divmnu_result[OF assms] by (cases "divmnu u v m n") simp

theorem divmnu_exact_witness:
  "lval (fst (divmnu [5, 7, 9] [3, 2] 3 2)) = lval [5, 7, 9] div lval [3, 2]"
  using divmnu_exact[of "[5, 7, 9]" 3 "[3, 2]" 2] by simp

text \<open>C20: addition, subtraction, multiplication and negation work modulo \<open>2 ^ bits\<close> at every
  width, on the inline, the 128 bit and the word array path.\<close>

theorem apint_ring_ops:
  assumes "same_width a b"
  shows "ap_wf (add_ap a b) \<and> ap_bits (add_ap a b) = ap_bits a
      \<and> uval (add_ap a b) = (uval a + uval b) mod 2 ^ ap_bits a
    \<and> ap_wf (sub_ap a b) \<and> ap_bits (sub_ap a b) = ap_bits a
      \<and> int (uval (sub_ap a b)) = (int (uval a) - int (uval b)) mod 2 ^ ap_bits a
    \<and> ap_wf (mul_ap a b) \<and> ap_bits (mul_ap a b) = ap_bits a
      \<and> uval (mul_ap a b) = (uval a * uval b) mod 2 ^ ap_bits a
    \<and> ap_wf (neg_ap a) \<and> ap_bits (neg_ap a) = ap_bits a
      \<and> int (uval (neg_ap a)) = (- int (uval a)) mod 2 ^ ap_bits a"
  using ap_is_uval[of "ap_bits a" "uval a + uval b" "add_ap a b"] add_is[OF assms] sub_is[OF assms]
    ap_is_uval[of "ap_bits a" "uval a * uval b" "mul_ap a b"] mul_is[OF assms] neg_is[of a]
    same_widthD(1)[OF assms]
  by (simp_all add: ap_is_def)

theorem apint_ring_ops_witness:
  "uval (add_ap (mk_ap 200 7) (mk_ap 200 5)) = (7 + 5) mod 2 ^ 200"
  using apint_ring_ops[OF same_width_mk[of 200 7 5]] by (simp add: uval_mk_small width_ok_def)

text \<open>C21: the bitwise operators act on the bits of the values.\<close>

theorem apint_bitwise:
  assumes "same_width a b"
  shows "uval (and_ap a b) = uval a AND uval b \<and> uval (or_ap a b) = uval a OR uval b
    \<and> uval (xor_ap a b) = uval a XOR uval b \<and> uval (not_ap a) = 2 ^ ap_bits a - 1 - uval a
    \<and> ap_wf (and_ap a b) \<and> ap_wf (or_ap a b) \<and> ap_wf (xor_ap a b) \<and> ap_wf (not_ap a)"
proof -
  note sw = same_widthD[OF assms]
  have n: "NOT (ival a) = 2 ^ ap_bits a - 1 - ival a + 2 ^ ap_bits a * (- 1)"
    by (simp add: not_int_def)
  have "ival (not_ap a) = (2 ^ ap_bits a - 1 - ival a) mod 2 ^ ap_bits a"
    unfolding ap_isD(3)[OF not_is[OF sw(1)]] n by (rule mod_mult_self2)
  also have "\<dots> = 2 ^ ap_bits a - 1 - ival a"
    using ival_lt[OF sw(1)] by (intro mod_pos_pos_trivial) linarith+
  also have "\<dots> = int (2 ^ ap_bits a - 1 - uval a)"
    using ap_wfD(3)[OF sw(1)] by (simp add: of_nat_diff)
  finally have "uval (not_ap a) = 2 ^ ap_bits a - 1 - uval a" by (simp only: of_nat_eq_iff)
  then show ?thesis
    using bitwise_uval[OF assms] and_is[OF assms] or_is[OF assms] xor_is[OF assms] not_is[OF sw(1)]
    by (simp add: ap_is_def)
qed

theorem apint_bitwise_witness:
  "uval (and_ap (mk_ap 8 12) (mk_ap 8 10)) = uval (mk_ap 8 12) AND uval (mk_ap 8 10)"
  using apint_bitwise[OF same_width_mk[of 8 12 10]] by (simp add: width_ok_def)

text \<open>C22: unsigned division and remainder are exact at every width, the limb path included.\<close>

theorem apint_udivrem:
  assumes "same_width a b" "uval b \<noteq> 0"
  shows "ap_wf (udiv_ap a b) \<and> ap_bits (udiv_ap a b) = ap_bits a \<and> uval (udiv_ap a b) = uval a div uval b
    \<and> ap_wf (urem_ap a b) \<and> ap_bits (urem_ap a b) = ap_bits a \<and> uval (urem_ap a b) = uval a mod uval b"
proof -
  note wf = ap_wfD(3)[OF same_widthD(1)[OF assms(1)]]
  have "uval a div uval b < 2 ^ ap_bits a" "uval a mod uval b < 2 ^ ap_bits a"
    using wf div_le_dividend[of "uval a" "uval b"] mod_less_eq_dividend[of "uval a" "uval b"] by linarith+
  then show ?thesis
    using ap_is_uval[OF udiv_is[OF assms]] ap_is_uval[OF urem_is[OF assms]] by simp
qed

theorem apint_udivrem_witness:
  "uval (udiv_ap (mk_ap 200 7) (mk_ap 200 2)) = 3 \<and> uval (urem_ap (mk_ap 200 7) (mk_ap 200 2)) = 1"
  using apint_udivrem[OF same_width_mk[of 200 7 2]] by (simp add: uval_mk_small width_ok_def)

text \<open>C23: signed division truncates towards zero and the remainder has the sign of the dividend;
  the one quotient that does not fit, the minimum divided by \<open>- 1\<close>, wraps.\<close>

theorem apint_sdivrem:
  assumes "same_width a b" "uval b \<noteq> 0"
  shows "ap_wf (sdiv_ap a b) \<and> ap_bits (sdiv_ap a b) = ap_bits a
    \<and> sval (sdiv_ap a b) = (if sval a = - (2 ^ (ap_bits a - 1)) \<and> sval b = - 1 then sval a
        else sval a sdiv sval b)
    \<and> ap_wf (srem_ap a b) \<and> ap_bits (srem_ap a b) = ap_bits a \<and> sval (srem_ap a b) = sval a smod sval b"
proof -
  note sw = same_widthD[OF assms(1)]
  note q = sdiv_is[OF assms] and r = srem_is[OF assms]
  let ?h = "(2 :: int) ^ (ap_bits a - 1)"
  note sa = sval_bounds[OF sw(1)]
  have nz: "sval b \<noteq> 0" using assms(2) sval_eq_0_iff[OF sw(2)] by simp
  have "sval (sdiv_ap a b) = (if sval a = - ?h \<and> sval b = - 1 then sval a else sval a sdiv sval b)"
  proof (cases "sval a = - ?h \<and> sval b = - 1")
    case True
    then have "ap_is (ap_bits a) (sval a + 2 ^ ap_bits a) (sdiv_ap a b)"
      using q pow_pred[OF ap_wfD(4)[OF sw(1)], where ?'a = int] by simp
    then have "ap_is (ap_bits a) (sval a) (sdiv_ap a b)" by (simp add: ap_is_def)
    then show ?thesis
      using True sval_eqI[OF ap_isD(1)[OF q], of "sval a"] sa by (simp add: ap_is_def)
  next
    case False
    have le: "\<bar>sval a sdiv sval b\<bar> \<le> \<bar>sval a\<bar>" by (rule abs_sdiv_le)
    have "- ?h \<le> sval a sdiv sval b \<and> sval a sdiv sval b < ?h"
    proof (cases "sval a = - ?h")
      case True
      then have "sval b \<noteq> - 1" using False by simp
      then show ?thesis using sdiv_lt_of_ne[OF nz \<open>sval b \<noteq> - 1\<close>, of "sval a"] True le sa by auto
    qed (use le sa in linarith)
    then have "sval (sdiv_ap a b) = sval a sdiv sval b"
      by (intro sval_eqI[OF ap_isD(1)[OF q]]; unfold ap_isD(2)[OF q]) (use ap_isD(3)[OF q] in auto)
    then show ?thesis using False by simp
  qed
  moreover have "\<bar>sval a smod sval b\<bar> < ?h \<or> \<bar>sval a smod sval b\<bar> \<le> 0"
  proof -
    have "\<bar>sval a smod sval b\<bar> \<le> \<bar>sval a\<bar> mod \<bar>sval b\<bar>" by (rule abs_smod_le)
    moreover have "\<bar>sval a\<bar> mod \<bar>sval b\<bar> < \<bar>sval b\<bar>" using nz by simp
    moreover have "\<bar>sval b\<bar> \<le> ?h" using sval_bounds[OF sw(2)] sw(3) by simp
    ultimately show ?thesis by linarith
  qed
  then have "sval (srem_ap a b) = sval a smod sval b"
    by (intro sval_eqI[OF ap_isD(1)[OF r]]; unfold ap_isD(2)[OF r]) (use ap_isD(3)[OF r] in auto)
  ultimately show ?thesis using ap_isD(1,2)[OF q] ap_isD(1,2)[OF r] by simp
qed

theorem apint_sdivrem_witness:
  "sval (sdiv_ap (mk_ap 8 249) (mk_ap 8 2)) = - 3 \<and> sval (srem_ap (mk_ap 8 249) (mk_ap 8 2)) = - 1"
  using apint_sdivrem[OF same_width_mk[of 8 249 2]] by (simp add: uval_mk_small sval_mk_small width_ok_def)

text \<open>C24: left shift multiplies modulo \<open>2 ^ bits\<close>, the logical right shift divides the unsigned
  value, the arithmetic right shift divides the signed value rounding down, for every amount: a shift
  by the width or more gives 0, or the sign fill.\<close>

theorem apint_shifts:
  assumes "ap_wf a"
  shows "ap_wf (shl a k) \<and> ap_bits (shl a k) = ap_bits a \<and> uval (shl a k) = uval a * 2 ^ k mod 2 ^ ap_bits a
    \<and> ap_wf (lshr a k) \<and> ap_bits (lshr a k) = ap_bits a \<and> uval (lshr a k) = uval a div 2 ^ k
    \<and> ap_wf (ashr a k) \<and> ap_bits (ashr a k) = ap_bits a \<and> sval (ashr a k) = sval a div 2 ^ k"
proof -
  note l = shl_is[OF assms, where amt = k] and r = lshr_is[OF assms, where amt = k] and s = ashr_is[OF assms, where amt = k]
  have "ap_is (ap_bits a) (int (uval a * 2 ^ k)) (shl a k)" using l by (simp add: push_bit_eq_mult)
  note l' = ap_is_uval[OF this]
  have "ap_is (ap_bits a) (int (uval a div 2 ^ k)) (lshr a k)"
    using r by (simp add: drop_bit_eq_div zdiv_int)
  note r' = ap_is_uval[OF this]
  have "uval a div 2 ^ k < 2 ^ ap_bits a"
    using ap_wfD(3)[OF assms] div_le_dividend[of "uval a" "2 ^ k"] by linarith
  moreover have "sval (ashr a k) = sval a div 2 ^ k"
    unfolding drop_bit_eq_div[symmetric]
    by (rule sval_eqI[OF ap_isD(1)[OF s]]; unfold ap_isD(2)[OF s])
      (use ap_isD(3)[OF s] drop_bit_range[OF sval_bounds[OF assms], where k = k] in auto)
  ultimately show ?thesis using l' r' ap_isD(1,2)[OF s] by simp
qed

theorem apint_shifts_witness: "uval (shl (mk_ap 200 5) 3) = 40 \<and> uval (lshr (mk_ap 200 5) 1) = 2"
  using apint_shifts[OF wf_mk[of 200 5], where k = 3] apint_shifts[OF wf_mk[of 200 5], where k = 1]
  by (simp add: uval_mk_small width_ok_def)

text \<open>C25: zero extension keeps the unsigned value, sign extension the signed value, truncation the
  value modulo the new width.\<close>

theorem apint_width_changes:
  assumes "ap_wf a" "width_ok n" "ap_bits a \<le> n" "1 \<le> k" "k \<le> ap_bits a"
  shows "ap_wf (zext a n) \<and> ap_bits (zext a n) = n \<and> uval (zext a n) = uval a
    \<and> ap_wf (sext a n) \<and> ap_bits (sext a n) = n \<and> sval (sext a n) = sval a
    \<and> ap_wf (trunc_ap a k) \<and> ap_bits (trunc_ap a k) = k \<and> uval (trunc_ap a k) = uval a mod 2 ^ k"
  using zext_uval[OF assms(1-3)] sext_sval[OF assms(1-3)] zext_is[OF assms(1-3)] sext_is[OF assms(1-3)]
    ap_is_uval[OF trunc_is[OF assms(1,4,5)]]
  by (simp add: ap_is_def)

theorem apint_width_changes_witness:
  "uval (zext (mk_ap 8 200) 200) = 200 \<and> sval (sext (mk_ap 8 200) 200) = - 56
    \<and> uval (trunc_ap (mk_ap 8 200) 4) = 8"
  using apint_width_changes[OF wf_mk[of 8 200], of 200 4]
  by (simp add: uval_mk_small sval_mk_small width_ok_def)

text \<open>C26: the comparisons order the unsigned and the signed values, and equality is equality of the
  stored objects.\<close>

theorem apint_compare:
  assumes "same_width a b"
  shows "(ult a b \<longleftrightarrow> uval a < uval b) \<and> (ule a b \<longleftrightarrow> uval a \<le> uval b)
    \<and> (ugt a b \<longleftrightarrow> uval b < uval a) \<and> (uge a b \<longleftrightarrow> uval b \<le> uval a)
    \<and> (slt a b \<longleftrightarrow> sval a < sval b) \<and> (sle a b \<longleftrightarrow> sval a \<le> sval b)
    \<and> (sgt a b \<longleftrightarrow> sval b < sval a) \<and> (sge a b \<longleftrightarrow> sval b \<le> sval a)
    \<and> ucmp a b = cmp3 (uval a) (uval b) \<and> scmp a b = cmp3 (sval a) (sval b)
    \<and> (eq_ap a b \<longleftrightarrow> a = b)"
  using assms by (simp add: ult_correct ule_correct ugt_correct uge_correct slt_correct sle_correct
      sgt_correct sge_correct ucmp_correct scmp_correct eq_correct)

theorem apint_compare_witness:
  "ult (mk_ap 8 5) (mk_ap 8 200) \<and> slt (mk_ap 8 200) (mk_ap 8 5)"
  using apint_compare[OF same_width_mk[of 8 5 200]] apint_compare[OF same_width_mk[of 8 200 5]]
  by (simp add: uval_mk_small sval_mk_small width_ok_def)

text \<open>The counting queries: leading and trailing zeros, population count, active bits, powers of
  two, all ones, zero and one.\<close>

theorem apint_counts:
  assumes "ap_wf a"
  shows "clz a \<le> ap_bits a \<and> uval a < 2 ^ (ap_bits a - clz a)
    \<and> (uval a \<noteq> 0 \<longrightarrow> 2 ^ (ap_bits a - clz a - 1) \<le> uval a)
    \<and> (uval a \<noteq> 0 \<longrightarrow> bit (uval a) (ctz a)) \<and> (\<forall>j < ctz a. \<not> bit (uval a) j)
    \<and> (uval a = 0 \<longrightarrow> ctz a = ap_bits a)
    \<and> popcount a = card {i. bit (uval a) i}
    \<and> (\<forall>k. active_bits a \<le> k \<longleftrightarrow> uval a < 2 ^ k) \<and> (fits_u64 a \<longleftrightarrow> uval a < 2 ^ 64)
    \<and> (is_zero a \<longleftrightarrow> uval a = 0) \<and> (is_one a \<longleftrightarrow> uval a = 1)
    \<and> (is_all_ones a \<longleftrightarrow> uval a = 2 ^ ap_bits a - 1)
    \<and> (is_pow2 a \<longleftrightarrow> (\<exists>k < ap_bits a. uval a = 2 ^ k))"
  using clz_correct[OF assms] ctz_correct[OF assms] popcount_correct[OF assms]
    active_bits_le_iff[OF assms] fits_u64_correct[OF assms] is_zero_correct[OF assms]
    is_one_correct[OF assms] is_all_ones_correct[OF assms] is_pow2_correct[OF assms]
  by blast

theorem apint_counts_witness: "popcount (mk_ap 200 5) = card {i. bit (5 :: nat) i}"
  using apint_counts[OF wf_mk[of 200 5]] by (simp add: uval_mk_small width_ok_def)

text \<open>The unsigned operations with an overflow flag return the wrapped result, and the flag says
  whether the true result does not fit. Multiplication doubles the width in \<^verbatim>\<open>u32\<close>, which bounds it.\<close>

theorem apint_unsigned_overflow:
  assumes "same_width a b" "ap_bits a \<le> 2147483616"
  shows "fst (uadd_ov a b) = add_ap a b \<and> (snd (uadd_ov a b) \<longleftrightarrow> 2 ^ ap_bits a \<le> uval a + uval b)
    \<and> fst (usub_ov a b) = sub_ap a b \<and> (snd (usub_ov a b) \<longleftrightarrow> uval a < uval b)
    \<and> fst (umul_ov a b) = mul_ap a b \<and> (snd (umul_ov a b) \<longleftrightarrow> 2 ^ ap_bits a \<le> uval a * uval b)"
  using uadd_ov_correct[OF assms(1)] usub_ov_correct[OF assms(1)] umul_ov_correct[OF assms]
    ap_is_inject[OF umul_ov_correct(1)[OF assms] mul_is[OF assms(1)]] by simp

theorem apint_unsigned_overflow_witness:
  "snd (uadd_ov (mk_ap 8 200) (mk_ap 8 100)) \<and> \<not> snd (umul_ov (mk_ap 8 20) (mk_ap 8 10))"
  using apint_unsigned_overflow[OF same_width_mk[of 8 200 100]]
    apint_unsigned_overflow[OF same_width_mk[of 8 20 10]] by (simp add: uval_mk_small width_ok_def)

text \<open>The signed operations with an overflow flag return the wrapped result, and the flag says
  whether the true result is outside the signed range of the width.\<close>

theorem apint_signed_overflow:
  assumes "same_width a b" "ap_bits a \<le> 2147483616"
  shows "fst (sadd_ov a b) = add_ap a b \<and> (snd (sadd_ov a b) \<longleftrightarrow> s_ovf (ap_bits a) (sval a + sval b))
    \<and> fst (ssub_ov a b) = sub_ap a b \<and> (snd (ssub_ov a b) \<longleftrightarrow> s_ovf (ap_bits a) (sval a - sval b))
    \<and> fst (smul_ov a b) = mul_ap a b \<and> (snd (smul_ov a b) \<longleftrightarrow> s_ovf (ap_bits a) (sval a * sval b))"
proof -
  note sw = same_widthD[OF assms(1)]
  have "(sval a * sval b) mod 2 ^ ap_bits a = (ival a * ival b) mod 2 ^ ap_bits a"
    using sval_mod[OF sw(1)] sval_mod[OF sw(2)] sw(3) by (metis mod_mult_eq)
  then have "ap_is (ap_bits a) (ival a * ival b) (fst (smul_ov a b))"
    using smul_ov_correct(1)[OF assms] by (simp add: ap_is_def)
  then show ?thesis
    using sadd_ov_correct[OF assms(1)] ssub_ov_correct[OF assms(1)] smul_ov_correct(2)[OF assms]
      ap_is_inject[OF _ mul_is[OF assms(1)]] by blast
qed

theorem apint_signed_overflow_witness:
  "snd (sadd_ov (mk_ap 8 100) (mk_ap 8 100)) \<and> \<not> snd (smul_ov (mk_ap 8 12) (mk_ap 8 10))"
  using apint_signed_overflow[OF same_width_mk[of 8 100 100]]
    apint_signed_overflow[OF same_width_mk[of 8 12 10]]
  by (simp add: sval_mk_small width_ok_def s_ovf_def)

text \<open>C27: the operations with an overflow flag, unsigned and signed, return the wrapped result, and the flag is
  exact: it is set when the true sum, difference or product does not fit the unsigned or the signed range of the
  width. Multiplication doubles the width in \<^verbatim>\<open>u32\<close>, which bounds it.\<close>

theorem apint_overflow:
  assumes "same_width a b" "ap_bits a \<le> 2147483616"
  shows "fst (uadd_ov a b) = add_ap a b \<and> (snd (uadd_ov a b) \<longleftrightarrow> 2 ^ ap_bits a \<le> uval a + uval b)
    \<and> fst (usub_ov a b) = sub_ap a b \<and> (snd (usub_ov a b) \<longleftrightarrow> uval a < uval b)
    \<and> fst (umul_ov a b) = mul_ap a b \<and> (snd (umul_ov a b) \<longleftrightarrow> 2 ^ ap_bits a \<le> uval a * uval b)
    \<and> fst (sadd_ov a b) = add_ap a b \<and> (snd (sadd_ov a b) \<longleftrightarrow> s_ovf (ap_bits a) (sval a + sval b))
    \<and> fst (ssub_ov a b) = sub_ap a b \<and> (snd (ssub_ov a b) \<longleftrightarrow> s_ovf (ap_bits a) (sval a - sval b))
    \<and> fst (smul_ov a b) = mul_ap a b \<and> (snd (smul_ov a b) \<longleftrightarrow> s_ovf (ap_bits a) (sval a * sval b))"
  using apint_unsigned_overflow[OF assms] apint_signed_overflow[OF assms] by blast

theorem apint_overflow_witness: "snd (uadd_ov (mk_ap 8 200) (mk_ap 8 100)) \<and> snd (sadd_ov (mk_ap 8 100) (mk_ap 8 100))"
  using apint_overflow[OF same_width_mk[of 8 200 100]] apint_overflow[OF same_width_mk[of 8 100 100]]
  by (simp add: uval_mk_small sval_mk_small width_ok_def s_ovf_def)

text \<open>The constructors build the value modulo the width, from 64 and 128 bit integers of either
  sign and from word arrays, and the masks have the bits their names say.\<close>

theorem apint_constructors:
  assumes "width_ok b" "n \<le> b" "- (2 ^ 63) \<le> i" "i < 2 ^ 63" "- (2 ^ 127) \<le> j" "j < 2 ^ 127" "c \<le> length ws"
  shows "ap_is b (uint v) (from_u64 b v) \<and> ap_is b (uint w) (from_u128 b w)
    \<and> ap_is b i (from_i64 b i) \<and> ap_is b j (from_i128 b j)
    \<and> ap_is b (int (wval (take c ws))) (from_words b ws c)
    \<and> ap_is b (- 1) (all_ones b) \<and> ap_is b (2 ^ n - 1) (low_bits b n)
    \<and> ap_is b (2 ^ b - 2 ^ (b - n)) (high_bits b n)
    \<and> sval (signed_max b) = 2 ^ (b - 1) - 1 \<and> sval (signed_min b) = - (2 ^ (b - 1))"
  using from_words_correct[OF assms(1,7)] low_bits_is[OF assms(1,2)] high_bits_is[OF assms(1,2)]
    from_i64_is[OF assms(1,3,4)] from_i128_is[OF assms(1,5,6)] u128_is[OF assms(1)] mk_is[OF assms(1)]
    all_ones_is[OF assms(1)] signed_max_sval(3)[OF assms(1)] signed_min_sval(3)[OF assms(1)]
  by (simp add: from_u64_def ap_is_def zmod_int)

theorem apint_constructors_witness: "ap_is 200 (- 5) (from_i64 200 (- 5)) \<and> ap_is 200 7 (low_bits 200 3)"
  using apint_constructors[of 200 3 "- 5" 0 0 "[]" 0 0] by (simp add: width_ok_def)

text \<open>C28: printing is faithful: reading \<^verbatim>\<open>to_string\<close>'s text back in the same radix gives the
  unsigned or the signed value, in radix 2, 10 and 16.\<close>

theorem apint_to_string_roundtrip:
  assumes "ap_wf a" "radix \<in> {2, 10, 16}"
  shows "int_of_string radix (to_string a sg radix) = (if sg then sval a else int (uval a))"
proof (cases "sg \<and> is_neg a")
  case True
  note n = neg_is[OF assms(1)]
  have "ival (neg_ap a) = - sval a"
    using mag_correct(3)[OF assms(1)] True is_neg_correct(1)[OF assms(1)] by (simp add: mag_def)
  moreover have "to_string a sg radix = CHR ''-'' # rev (mag_string (neg_ap a) radix)"
    using True by (simp add: to_string_mag Let_def)
  ultimately show ?thesis
    using True mag_string_correct(1)[OF ap_isD(1)[OF n] assms(2)]
    by (simp add: int_of_string_def nat_of_string_rev)
next
  case False
  then have "to_string a sg radix = rev (mag_string a radix)"
    by (auto simp: to_string_mag Let_def)
  moreover have "CHR ''-'' \<notin> set (rev (mag_string a radix))"
    using mag_string_correct(2)[OF assms] by simp
  ultimately show ?thesis
    using False mag_string_correct(1)[OF assms] sval_nonneg[OF assms(1)]
    by (auto simp: int_of_string_digits nat_of_string_rev)
qed

theorem apint_to_string_roundtrip_witness:
  "int_of_string 10 (to_string (mk_ap 8 200) True 10) = - 56"
  using apint_to_string_roundtrip[OF wf_mk[of 8 200], of 10 True] by (simp add: sval_mk_small width_ok_def)

text \<open>The values of one width form a commutative ring under the operators, and subtraction and
  exclusive or undo addition and exclusive or: the identities the optimizer rewrites with.\<close>

theorem apint_algebra:
  assumes "same_width a b" "same_width b c"
  shows "add_ap a b = add_ap b a \<and> add_ap (add_ap a b) c = add_ap a (add_ap b c)
    \<and> mul_ap a b = mul_ap b a \<and> mul_ap (mul_ap a b) c = mul_ap a (mul_ap b c)
    \<and> mul_ap a (add_ap b c) = add_ap (mul_ap a b) (mul_ap a c)
    \<and> sub_ap (add_ap a b) b = a \<and> add_ap (sub_ap a b) b = a \<and> xor_ap (xor_ap a b) b = a
    \<and> add_ap (or_ap a b) (and_ap a b) = add_ap a b"
  using assms ap.plus_comm[of a b] ap.plus_assoc[of a b c] ap.times_comm[of a b] ap.times_assoc[of a b c]
    ap.distrib[of a b c] ap.plus_minus_cancel[of a b] ap.minus_plus_cancel[of a b] ap.excl_self[of a b]
    ap.disj_conj_plus[of a b]
  by (simp add: same_width_def)

theorem apint_algebra_witness: "sub_ap (add_ap (mk_ap 8 200) (mk_ap 8 100)) (mk_ap 8 100) = mk_ap 8 200"
proof -
  have w: "width_ok 8" by (simp add: width_ok_def)
  from apint_algebra[OF same_width_mk[OF w, of 200 100] same_width_mk[OF w, of 100 3]]
  show ?thesis by (elim conjE)
qed

end
