(* ===== verification/ConstDivMagic.thy ===== *)
theory ConstDivMagic
  imports Prelude "HOL-Library.Signed_Division"
begin

text \<open>
  \<^verbatim>\<open>src/src/mir/const_div.hpp\<close>: the multipliers and shifts that replace a division by a
  constant. The products and quotients of the search are \<^verbatim>\<open>u128\<close> words, as in the code.
\<close>

section \<open>The code\<close>

record udiv_magic =
  um_mul :: u64
  um_pre_shift :: nat
  um_shift :: nat
  um_add :: bool

record sdiv_magic =
  sm_mul :: u64
  sm_shift :: nat

definition w128 :: "u64 \<Rightarrow> u128" where "w128 x = ucast x"

definition max_mul :: "nat \<Rightarrow> u128" where
  "max_mul width = (if width = 64 then w128 (NOT 0) else push_bit width 1 - 1)"

text \<open>One candidate: the rounded up multiplier for the shift \<open>p\<close>, and its error.\<close>

definition magic_m :: "u64 \<Rightarrow> nat \<Rightarrow> u128" where
  "magic_m d p = (push_bit p 1 + w128 d - 1) div w128 d"

definition magic_e :: "u64 \<Rightarrow> nat \<Rightarrow> u128" where
  "magic_e d p = magic_m d p * w128 d - push_bit p 1"

text \<open>The \<^verbatim>\<open>for\<close> loop over \<open>s\<close>: the first shift whose error is small enough.\<close>

fun magic_search :: "u64 \<Rightarrow> nat \<Rightarrow> nat \<Rightarrow> nat list \<Rightarrow> (u128 \<times> nat) option" where
  "magic_search d wp width [] = None"
| "magic_search d wp width (s # ss) =
     (if magic_e d (wp + s) \<le> push_bit s 1 \<and> magic_m d (wp + s) \<le> max_mul width
      then Some (magic_m d (wp + s), wp + s)
      else magic_search d wp width ss)"

text \<open>The attempt with the pre shift \<open>pre\<close>.\<close>

definition udiv_try :: "u64 \<Rightarrow> nat \<Rightarrow> nat \<Rightarrow> udiv_magic option" where
  "udiv_try d width pre =
     (let dd = drop_bit pre d;
          wp = width - pre;
          l = std_bit_width (dd - 1);
          first = (if width = 64 then pre else 0)
      in case magic_search dd wp width [first..<Suc l] of
           Some (m, sh) \<Rightarrow> Some \<lparr>um_mul = ucast m, um_pre_shift = pre, um_shift = sh, um_add = False\<rparr>
         | None \<Rightarrow> None)"

definition udiv_magic :: "u64 \<Rightarrow> nat \<Rightarrow> udiv_magic option" where
  "udiv_magic d width =
     (if width > 64 \<or> width < 2 \<or> d < 3 \<or> std_has_single_bit d
         \<or> (width < 64 \<and> d \<ge> push_bit (width - 1) 1) \<or> (width = 64 \<and> d > push_bit 63 1)
      then None
      else
        (let tz = std_countr_zero d
         in case udiv_try d width 0 of
              Some r \<Rightarrow> Some r
            | None \<Rightarrow>
                (case (if tz = 0 then None else udiv_try d width tz) of
                   Some r \<Rightarrow> Some r
                 | None \<Rightarrow>
                     (let l = std_bit_width (d - 1);
                          m = push_bit (width + l) 1 div w128 d + 1
                      in Some \<lparr>um_mul = ucast (m - push_bit width 1), um_pre_shift = 0, um_shift = l, um_add = True\<rparr>))))"

definition sdiv_magic :: "u64 \<Rightarrow> nat \<Rightarrow> sdiv_magic option" where
  "sdiv_magic d width =
     (if width > 64 \<or> width < 3 \<or> d < 3 \<or> std_has_single_bit d \<or> d > push_bit (width - 1) 1
      then None
      else
        (let l = std_bit_width (d - 1);
             first = (if width = 64 then 1 else 0)
         in case magic_search d (width - 1) width [first..<Suc l] of
              Some (m, sh) \<Rightarrow> Some \<lparr>sm_mul = ucast m, sm_shift = sh\<rparr>
            | None \<Rightarrow> None))"

section \<open>Rounded up reciprocals\<close>

text \<open>
  Granlund and Montgomery: when \<open>2 ^ p \<le> m * d \<le> 2 ^ p + 2 ^ s\<close>, multiplying by \<open>m\<close> and
  shifting by \<open>p = w + s\<close> divides every number below \<open>2 ^ w\<close> by \<open>d\<close>.
\<close>

lemma div_by_mult:
  fixes m d n :: nat
  assumes "0 < d" "2 ^ (w + s) \<le> m * d" "m * d \<le> 2 ^ (w + s) + 2 ^ s" "n < 2 ^ w"
  shows "n * m div 2 ^ (w + s) = n div d"
proof (rule div_nat_eqI)
  let ?q = "n div d" and ?P = "(2 :: nat) ^ (w + s)"
  have nd: "n = d * ?q + n mod d" by simp
  have "n mod d < d" using assms(1) by simp
  have "d * (?q * ?P) = (d * ?q) * ?P" by simp
  also have "\<dots> \<le> n * ?P" by (rule mult_le_mono1) simp
  also have "\<dots> \<le> n * (m * d)" using assms(2) by (rule mult_le_mono2)
  finally have "d * (?q * ?P) \<le> d * (n * m)" by (simp add: ac_simps)
  then show "?P * ?q \<le> n * m" using assms(1) by (simp add: mult.commute)
  have "n * 2 ^ s < 2 ^ w * 2 ^ s" using assms(4) by simp
  then have e: "n * 2 ^ s < ?P" by (simp add: power_add)
  have "d * (n * m) = n * (m * d)" by (simp add: ac_simps)
  also have "\<dots> \<le> n * (?P + 2 ^ s)" using assms(3) by (rule mult_le_mono2)
  also have "\<dots> = n * ?P + n * 2 ^ s" by (simp add: algebra_simps)
  also have "\<dots> < n * ?P + ?P" using e by simp
  also have "\<dots> = (n + 1) * ?P" by simp
  also have "\<dots> \<le> (d * ?q + d) * ?P"
    using \<open>n mod d < d\<close> by (intro mult_le_mono1) (subst nd, linarith)
  finally have "d * (n * m) < d * (Suc ?q * ?P)" by (simp add: algebra_simps)
  then show "n * m < ?P * Suc ?q" using assms(1) by (metis mult_less_cancel1 mult.commute)
qed

section \<open>The words of the search are exact\<close>

lemma unat_w128 [simp]: "unat (w128 x) = unat x"
proof -
  have "unat x < 2 ^ 128" by (rule less_trans[OF unsigned_less]) simp
  then show ?thesis by (simp add: w128_def unsigned_ucast_eq take_bit_nat_eq_self)
qed

lemma unat_pow2: "p < LENGTH('a) \<Longrightarrow> unat (push_bit p 1 :: 'a::len word) = 2 ^ p"
  by (simp only: unsigned_push_bit_eq unsigned_1) (simp add: take_bit_nat_eq_self)

lemma unat_less_64: "unat (d :: u64) < 2 ^ 64"
  using unsigned_less[of d, where ?'a = nat] by simp

lemma unat_magic_num:
  assumes "0 < unat d" "p \<le> 127"
  shows "unat (push_bit p 1 + w128 d - 1) = 2 ^ p + unat d - 1"
proof -
  have p: "unat (push_bit p 1 :: u128) = 2 ^ p" using assms(2) by (intro unat_pow2) simp
  have "(2::nat) ^ p \<le> 2 ^ 127" using assms(2) by (intro power_increasing) simp_all
  then have "2 ^ p + unat d < 2 ^ 128" using unat_less_64[of d] by simp
  then have s: "unat (push_bit p 1 + w128 d) = 2 ^ p + unat d"
    using p by (subst unat_add_lem[THEN iffD1]) simp_all
  then have "push_bit p 1 + w128 d \<noteq> 0" using assms(1) by (metis add_is_0 less_irrefl unsigned_0)
  then show ?thesis using unat_minus_one s by metis
qed

lemma unat_magic_m:
  "0 < unat d \<Longrightarrow> p \<le> 127 \<Longrightarrow> unat (magic_m d p) = (2 ^ p + unat d - 1) div unat d"
  by (simp only: magic_m_def unat_div unat_w128 unat_magic_num)

lemma ceil_div_bounds:
  fixes d P :: nat
  assumes "0 < d"
  shows "P \<le> (P + d - 1) div d * d" "(P + d - 1) div d * d \<le> P + d - 1"
proof -
  show "(P + d - 1) div d * d \<le> P + d - 1" by (rule div_times_less_eq_dividend)
  have "P + d - 1 < ((P + d - 1) div d) * d + d"
    using assms by (metis add.commute dividend_less_times_div mult.commute)
  then show "P \<le> (P + d - 1) div d * d" using assms by linarith
qed

lemma unat_magic_e:
  assumes "0 < unat d" "p \<le> 127"
  shows "unat (magic_e d p) = unat (magic_m d p) * unat d - 2 ^ p" "2 ^ p \<le> unat (magic_m d p) * unat d"
    "unat (magic_m d p) * unat d \<le> 2 ^ p + unat d - 1"
proof -
  note m = unat_magic_m[OF assms]
  show le: "2 ^ p \<le> unat (magic_m d p) * unat d" "unat (magic_m d p) * unat d \<le> 2 ^ p + unat d - 1"
    unfolding m by (rule ceil_div_bounds[OF assms(1)])+
  have p: "unat (push_bit p 1 :: u128) = 2 ^ p" using assms(2) by (intro unat_pow2) simp
  have "(2::nat) ^ p \<le> 2 ^ 127" using assms(2) by (intro power_increasing) simp_all
  then have "unat (magic_m d p) * unat d < 2 ^ 128" using le(2) unat_less_64[of d] by simp
  then have "unat (magic_m d p * w128 d) = unat (magic_m d p) * unat d"
    by (simp add: unat_word_ariths)
  then show "unat (magic_e d p) = unat (magic_m d p) * unat d - 2 ^ p"
    unfolding magic_e_def using le(1) p by (subst unat_sub) (simp_all add: word_le_nat_alt)
qed

lemma unat_max_mul: "0 < width \<Longrightarrow> width \<le> 64 \<Longrightarrow> unat (max_mul width) = 2 ^ width - 1"
proof -
  assume w: "0 < width" "width \<le> 64"
  show ?thesis
  proof (cases "width = 64")
    case True
    then show ?thesis by (simp add: max_mul_def unsigned_minus_1_eq_mask mask_eq_exp_minus_1)
  next
    case False
    have p: "unat (push_bit width 1 :: u128) = 2 ^ width" using w by (intro unat_pow2) simp
    then have "unat (push_bit width 1 :: u128) \<noteq> 0" by simp
    then have "push_bit width 1 \<noteq> (0 :: u128)" by (metis unsigned_0)
    then have "unat (push_bit width 1 - 1 :: u128) = 2 ^ width - 1" by (simp only: unat_minus_one p not_False_eq_True)
    then show ?thesis using False by (simp only: max_mul_def if_False)
  qed
qed

text \<open>What a successful search has found.\<close>

lemma magic_search_Some:
  assumes "magic_search d wp width ss = Some (m, sh)" "0 < unat d" "0 < width" "width \<le> 64"
    "\<forall>s\<in>set ss. wp + s \<le> 127"
  obtains s where "s \<in> set ss" "sh = wp + s" "2 ^ sh \<le> unat m * unat d"
    "unat m * unat d \<le> 2 ^ sh + 2 ^ s" "unat m < 2 ^ width" "unat (ucast m :: u64) = unat m"
  using assms(1,5)
proof (induction ss arbitrary: thesis)
  case (Cons s ss)
  show ?case
  proof (cases "magic_e d (wp + s) \<le> push_bit s 1 \<and> magic_m d (wp + s) \<le> max_mul width")
    case True
    then have m: "m = magic_m d (wp + s)" "sh = wp + s" using Cons.prems(2) by auto
    have b: "wp + s \<le> 127" using Cons.prems(3) by simp
    note e = unat_magic_e[OF assms(2) b]
    have "unat (magic_e d (wp + s)) \<le> 2 ^ s"
      using True b unat_pow2[of s, where ?'a = 128] by (simp add: word_le_nat_alt)
    then have up: "unat m * unat d \<le> 2 ^ sh + 2 ^ s" using e m by simp
    have "unat m \<le> 2 ^ width - 1"
      using True m unat_max_mul[OF assms(3,4)] by (simp add: word_le_nat_alt)
    then have lt: "unat m < 2 ^ width"
      by (rule le_less_trans) simp
    also have "(2 :: nat) ^ width \<le> 2 ^ 64" using assms(4) by (intro power_increasing) simp_all
    finally have "unat (ucast m :: u64) = unat m"
      by (simp add: unsigned_ucast_eq take_bit_nat_eq_self)
    with m e(2) up lt show ?thesis by (intro Cons.prems(1)[of s]) simp_all
  next
    case False
    have "magic_search d wp width ss = Some (m, sh)"
      using Cons.prems(2) unfolding magic_search.simps if_not_P[OF False] .
    from Cons.IH[OF _ this] Cons.prems(1,3) show ?thesis by (metis list.set_intros(2))
  qed
qed simp

section \<open>Bit widths\<close>

lemma bit_width_less: "unat (x :: 'a::len word) < 2 ^ std_bit_width x"
  unfolding std_bit_width_def by (rule std_countl_zero_bound)

lemma bit_width_ge: "x \<noteq> 0 \<Longrightarrow> 2 ^ (std_bit_width x - 1) \<le> unat (x :: 'a::len word)"
proof -
  assume "x \<noteq> 0"
  then have "bit (unat x) (LENGTH('a) - 1 - std_countl_zero x)"
    using std_countl_zero_bit[of x] by (simp add: bit_unsigned_iff)
  moreover have "LENGTH('a) - 1 - std_countl_zero x = std_bit_width x - 1"
    by (simp add: std_bit_width_def)
  ultimately show ?thesis
    by (metis bit_iff_odd div_less even_zero linorder_not_less)
qed

lemma bit_width_le: "unat (x :: 'a::len word) < 2 ^ k \<Longrightarrow> std_bit_width x \<le> k"
proof (cases "x = 0")
  case True
  have "std_countl_zero (0 :: 'a word) = LENGTH('a)" 
    unfolding std_countl_zero_def by (subst takeWhile_eq_all_conv[THEN iffD2]) simp_all
  then show ?thesis using True by (simp add: std_bit_width_def)
next
  case False
  assume "unat x < 2 ^ k"
  then have "(2 :: nat) ^ (std_bit_width x - 1) < 2 ^ k" using bit_width_ge[OF False] by linarith
  then show ?thesis by simp
qed

section \<open>Unsigned division\<close>

text \<open>The quotient the header promises for a magic number, on full products.\<close>

definition udiv_apply :: "udiv_magic \<Rightarrow> nat \<Rightarrow> nat \<Rightarrow> nat" where
  "udiv_apply r width x =
     (if um_add r then
        (let t = x * unat (um_mul r) div 2 ^ width
         in (t + (x - t) div 2) div 2 ^ (um_shift r - 1))
      else (x div 2 ^ um_pre_shift r) * unat (um_mul r) div 2 ^ um_shift r)"

lemma udiv_try_Some:
  assumes r: "udiv_try d width pre = Some r" and d: "2 ^ pre dvd unat d" "0 < unat d"
    and w: "0 < width" "width \<le> 64" "pre < width" "unat d \<le> 2 ^ (width - 1)"
  shows "um_add r = False" "um_pre_shift r = pre" "unat (um_mul r) < 2 ^ width"
    "x < 2 ^ width \<Longrightarrow> (x div 2 ^ pre) * unat (um_mul r) div 2 ^ um_shift r = x div unat d"
    "width = 64 \<Longrightarrow> 64 \<le> um_shift r" "um_shift r < 2 * width"
proof -
  define dd where "dd = drop_bit pre d"
  define wp where "wp = width - pre"
  define l where "l = std_bit_width (dd - 1)"
  let ?first = "if width = 64 then pre else 0"
  have udd: "unat dd = unat d div 2 ^ pre"
    unfolding dd_def unat_drop_bit_eq by (simp add: drop_bit_eq_div)
  have ddd: "unat dd * 2 ^ pre = unat d" using d(1) udd by simp
  then have dd0: "0 < unat dd" using d(2) by (metis mult_is_0 neq0_conv)
  then have "dd \<noteq> 0" by (simp add: unat_gt_0)
  have "unat dd \<le> 2 ^ (width - 1)" using udd w(4) div_le_dividend[of "unat d" "2 ^ pre"] by linarith
  moreover have "unat (dd - 1) = unat dd - 1" by (rule unat_minus_one[OF \<open>dd \<noteq> 0\<close>])
  ultimately have "unat (dd - 1) < 2 ^ (width - 1)" using dd0 by simp
  then have l: "l \<le> width - 1" unfolding l_def by (rule bit_width_le)
  obtain m sh where ms: "magic_search dd wp width [?first..<Suc l] = Some (m, sh)"
    and r': "r = \<lparr>um_mul = ucast m, um_pre_shift = pre, um_shift = sh, um_add = False\<rparr>"
    using r unfolding udiv_try_def Let_def
    by (auto simp flip: dd_def wp_def l_def split: option.splits)
  have "\<forall>s\<in>set [?first..<Suc l]. wp + s \<le> 127" using l w by (auto simp: wp_def)
  from magic_search_Some[OF ms dd0 w(1,2) this] obtain s where
    s: "s \<in> set [?first..<Suc l]" "sh = wp + s" "2 ^ sh \<le> unat m * unat dd"
      "unat m * unat dd \<le> 2 ^ sh + 2 ^ s" "unat m < 2 ^ width" "unat (ucast m :: u64) = unat m" .
  show "um_add r = False" "um_pre_shift r = pre" "unat (um_mul r) < 2 ^ width"
    using r' s(5,6) by simp_all
  show "width = 64 \<Longrightarrow> 64 \<le> um_shift r" using s(1,2) w(3) r' by (auto simp: wp_def)
  show "um_shift r < 2 * width" using s(1,2) l w r' by (auto simp: wp_def)
  assume x: "x < 2 ^ width"
  have "x div 2 ^ pre < 2 ^ wp"
    using x w(3) by (simp add: wp_def less_mult_imp_div_less flip: power_add)
  then have "(x div 2 ^ pre) * unat m div 2 ^ (wp + s) = x div 2 ^ pre div unat dd"
    using s(2-4) by (intro div_by_mult[OF dd0]) simp_all
  also have "\<dots> = x div unat d" by (simp add: ddd mult.commute flip: div_mult2_eq)
  finally show "(x div 2 ^ pre) * unat (um_mul r) div 2 ^ um_shift r = x div unat d"
    using r' s(2,6) by simp
qed

lemma pow_half_lt: "0 < l \<Longrightarrow> l \<le> w \<Longrightarrow> (2 :: nat) ^ (l - 1) + 1 < 2 * 2 ^ w"
proof -
  assume l: "0 < l" "l \<le> w"
  have "(2 :: nat) ^ (l - 1) \<le> 2 ^ w" using l by (intro power_increasing) simp_all
  moreover have "(2 :: nat) \<le> 2 ^ w" using l by (cases w) simp_all
  ultimately show ?thesis by linarith
qed

text \<open>The last resort: a multiplier of \<open>width + 1\<close> bits, its top bit kept implicit.\<close>

lemma add_magic_bounds:
  fixes D l w :: nat
  assumes D: "2 ^ (l - 1) < D" "D \<le> 2 ^ l" "0 < l" "l \<le> w"
  defines "M \<equiv> 2 ^ (w + l) div D + 1"
  shows "2 ^ w \<le> M" "M < 2 * 2 ^ w" "2 ^ (w + l) \<le> M * D" "M * D \<le> 2 ^ (w + l) + 2 ^ l"
proof -
  let ?P = "(2 :: nat) ^ (w + l)"
  have D0: "0 < D" using D(1) by simp
  have "2 ^ w * D \<le> ?P" using D(2) by (simp add: power_add)
  then have "2 ^ w \<le> ?P div D" using D0 by (simp add: less_eq_div_iff_mult_less_eq)
  then show "2 ^ w \<le> M" by (simp add: M_def)
  have P: "?P = 2 * 2 ^ w * 2 ^ (l - 1)" using D(3) by (cases l) (simp_all add: power_add)
  have "(2 :: nat) ^ (l - 1) + 1 \<le> 2 * 2 ^ w - 1 + 1"
    using power_increasing[of "l - 1" w "2 :: nat"] D(4) one_le_power[of "2::nat" w] by linarith
  then have "?P < (2 * 2 ^ w - 1) * (2 ^ (l - 1) + 1)"
    unfolding P diff_mult_distrib distrib_left using one_le_power[of "2::nat" w] D(3,4)
      power_increasing[of "l - 1" "w - 1" "2 :: nat"] pow_half_lt[OF D(3,4)] by linarith
  also have "\<dots> \<le> (2 * 2 ^ w - 1) * D" using D(1) by (intro mult_le_mono2) simp
  finally have "?P div D < 2 * 2 ^ w - 1" by (rule less_mult_imp_div_less)
  then show "M < 2 * 2 ^ w" by (simp add: M_def)
  have "?P = ?P div D * D + ?P mod D" by simp
  moreover have "?P mod D < D" using D0 by simp
  moreover have "M * D = ?P div D * D + D" by (simp add: M_def)
  ultimately show "?P \<le> M * D" "M * D \<le> ?P + 2 ^ l" using D(2) by linarith+
qed

lemma udiv_add_correct:
  fixes D M l w x :: nat
  assumes "0 < D" "2 ^ w \<le> M" "M < 2 * 2 ^ w" "2 ^ (w + l) \<le> M * D" "M * D \<le> 2 ^ (w + l) + 2 ^ l"
    "x < 2 ^ w" "0 < l"
  defines "t \<equiv> x * (M - 2 ^ w) div 2 ^ w"
  shows "(t + (x - t) div 2) div 2 ^ (l - 1) = x div D" "t \<le> x"
proof -
  have "x * (M - 2 ^ w) \<le> x * 2 ^ w" using assms(3) by (intro mult_le_mono2) simp
  then show tx: "t \<le> x" unfolding t_def by (metis div_le_mono nonzero_mult_div_cancel_right power_not_zero zero_neq_numeral)
  then have "t + (x - t) div 2 = (t + x) div 2" by presburger
  then have "(t + (x - t) div 2) div 2 ^ (l - 1) = (t + x) div (2 * 2 ^ (l - 1))"
    by (simp only: div_mult2_eq)
  also have "2 * 2 ^ (l - 1) = (2 :: nat) ^ l" using assms(7) by (cases l) simp_all
  also have "t + x = x * M div 2 ^ w"
  proof -
    have "x * M = x * (M - 2 ^ w) + x * 2 ^ w" using assms(2) by (simp flip: distrib_left)
    then show ?thesis by (simp add: t_def)
  qed
  also have "x * M div 2 ^ w div 2 ^ l = x * M div 2 ^ (w + l)" by (simp add: power_add div_mult2_eq)
  also have "\<dots> = x div D" by (rule div_by_mult[OF assms(1,4,5,6)])
  finally show "(t + (x - t) div 2) div 2 ^ (l - 1) = x div D" .
qed

lemma ge3: "\<not> d < 3 \<Longrightarrow> 3 \<le> unat (d :: u64)"
  by (simp add: word_le_nat_alt not_less)

lemma single_bit_iff: "std_has_single_bit (x :: 'a::len word) \<longleftrightarrow> (\<exists>k. unat x = 2 ^ k)"
proof -
  have "std_has_single_bit x \<longleftrightarrow> (\<exists>k. {i. bit (unat x) i} = {k})"
    by (simp add: std_has_single_bit_def std_popcount_card card_1_singleton_iff bit_unsigned_iff)
  also have "\<dots> \<longleftrightarrow> (\<exists>k. unat x = 2 ^ k)"
    by (simp add: set_eq_iff bit_eq_iff[of "unat x"] bit_exp_iff)
  finally show ?thesis .
qed

lemma pow2_dvd_countr: "2 ^ std_countr_zero d dvd unat (d :: u64)"
proof (rule mod_0_imp_dvd, rule bit_eqI)
  fix i
  have "\<not> bit (unat d) i" if "i < std_countr_zero d"
    using std_countr_zero_below[OF that] by (simp add: bit_unsigned_iff)
  then show "bit (unat d mod 2 ^ std_countr_zero d) i = bit 0 i"
    by (simp add: bit_take_bit_iff flip: take_bit_eq_mod)
qed

text \<open>The guards of \<^verbatim>\<open>udiv_magic\<close>: the divisors that have an entry.\<close>

definition udiv_ok :: "u64 \<Rightarrow> nat \<Rightarrow> bool" where
  "udiv_ok d width \<longleftrightarrow> 2 \<le> width \<and> width \<le> 64 \<and> 3 \<le> unat d \<and> \<not> (\<exists>k. unat d = 2 ^ k)
     \<and> unat d \<le> 2 ^ (width - 1)"

lemma udiv_guard:
  "(width > 64 \<or> width < 2 \<or> d < 3 \<or> std_has_single_bit d
     \<or> (width < 64 \<and> d \<ge> push_bit (width - 1) 1) \<or> (width = 64 \<and> d > push_bit 63 1)) \<longleftrightarrow> \<not> udiv_ok d width"
proof (cases "2 \<le> width \<and> width \<le> 64")
  case True
  then have p: "unat (push_bit (width - 1) 1 :: u64) = 2 ^ (width - 1)" by (intro unat_pow2) auto
  have "d < 3 \<longleftrightarrow> unat d < 3" by (simp add: word_less_nat_alt)
  moreover have "(width < 64 \<and> d \<ge> push_bit (width - 1) 1) \<or> (width = 64 \<and> d > push_bit 63 1)
      \<longleftrightarrow> (width < 64 \<and> 2 ^ (width - 1) \<le> unat d) \<or> (width = 64 \<and> 2 ^ (width - 1) < unat d)"
    using p by (auto simp: word_le_nat_alt word_less_nat_alt)
  moreover have "unat d = 2 ^ (width - 1) \<longrightarrow> (\<exists>k. unat d = 2 ^ k)" by blast
  ultimately show ?thesis
    using True unfolding udiv_ok_def single_bit_iff by (auto simp: not_less not_le le_less)
qed (auto simp: udiv_ok_def)

lemma bit_width_pred:
  assumes "3 \<le> unat d" "\<not> (\<exists>k. unat d = 2 ^ k)"
  shows "2 ^ (std_bit_width (d - 1 :: u64) - 1) < unat d" "unat d \<le> 2 ^ std_bit_width (d - 1)"
    "0 < std_bit_width (d - 1)"
proof -
  have nz: "d \<noteq> 0" using assms(1) by auto
  have u: "unat (d - 1) = unat d - 1" by (rule unat_minus_one[OF nz])
  then have nz1: "d - 1 \<noteq> 0" using assms(1) by (metis One_nat_def diff_is_0_eq le_antisym not_less_eq_eq numeral_3_eq_3 unsigned_0 Suc_leD le_SucI numeral_le_one_iff semiring_norm(70))
  show "unat d \<le> 2 ^ std_bit_width (d - 1)" using bit_width_less[of "d - 1"] u by linarith
  have "2 ^ (std_bit_width (d - 1) - 1) \<le> unat d - 1" using bit_width_ge[OF nz1] u by simp
  then show "2 ^ (std_bit_width (d - 1) - 1) < unat d" using assms(1) by linarith
  show "0 < std_bit_width (d - 1)"
  proof (rule ccontr)
    assume "\<not> 0 < std_bit_width (d - 1)"
    then show False using bit_width_less[of "d - 1"] u assms(1) by simp
  qed
qed

lemma add_mul_word:
  assumes "width \<le> 64" "l \<le> width - 1" "0 < unat d"
    and M: "2 ^ width \<le> 2 ^ (width + l) div unat d + 1" "2 ^ (width + l) div unat d + 1 < 2 * 2 ^ width"
  shows "unat (ucast (push_bit (width + l) 1 div w128 d + 1 - push_bit width 1) :: u64)
    = 2 ^ (width + l) div unat d + 1 - 2 ^ width"
proof -
  let ?M = "2 ^ (width + l) div unat d + 1"
  have "unat (push_bit (width + l) 1 div w128 d) = 2 ^ (width + l) div unat d"
    using assms(1,2) by (simp only: unat_div unat_w128) (subst unat_pow2, simp_all)
  moreover have w64: "(2 :: nat) ^ width \<le> 2 ^ 64" using assms(1) by (intro power_increasing) simp_all
  ultimately have m: "unat (push_bit (width + l) 1 div w128 d + 1) = ?M"
    using M(2) by (subst unat_add_lem[THEN iffD1]) simp_all
  have p: "unat (push_bit width 1 :: u128) = 2 ^ width" using assms(1) by (intro unat_pow2) simp
  have "unat (push_bit (width + l) 1 div w128 d + 1 - push_bit width 1) = ?M - 2 ^ width"
    using m p M(1) by (subst unat_sub) (simp_all add: word_le_nat_alt)
  moreover have "?M - 2 ^ width < 2 ^ 64" using M(2) w64 by linarith
  ultimately show ?thesis by (simp add: unsigned_ucast_eq take_bit_nat_eq_self)
qed

text \<open>The main result: every entry divides every number of the width.\<close>

definition udiv_good :: "u64 \<Rightarrow> nat \<Rightarrow> udiv_magic \<Rightarrow> bool" where
  "udiv_good d width r \<longleftrightarrow>
     (\<forall>x < 2 ^ width. udiv_apply r width x = x div unat d) \<and> unat (um_mul r) < 2 ^ width \<and>
     (if um_add r then um_pre_shift r = 0 \<and> 1 \<le> um_shift r \<and> um_shift r \<le> width
      else um_pre_shift r < width \<and> um_shift r < 2 * width \<and> (width = 64 \<longrightarrow> 64 \<le> um_shift r))"

lemma udiv_try_good:
  assumes "udiv_ok d width" "udiv_try d width pre = Some r" "2 ^ pre dvd unat d" "pre < width"
  shows "udiv_good d width r"
  using udiv_try_Some[OF assms(2,3) _ _ _ assms(4)] assms(1,4)
  by (auto simp: udiv_good_def udiv_apply_def udiv_ok_def)

lemma udiv_magic_unfold:
  "udiv_magic d width = (if \<not> udiv_ok d width then None
     else (case udiv_try d width 0 of
       Some r \<Rightarrow> Some r
     | None \<Rightarrow> (case (if std_countr_zero d = 0 then None else udiv_try d width (std_countr_zero d)) of
         Some r \<Rightarrow> Some r
       | None \<Rightarrow> Some \<lparr>um_mul = ucast (push_bit (width + std_bit_width (d - 1)) 1 div w128 d + 1 - push_bit width 1),
           um_pre_shift = 0, um_shift = std_bit_width (d - 1), um_add = True\<rparr>)))"
  unfolding udiv_magic_def udiv_guard Let_def ..

lemma udiv_magic_good:
  assumes "udiv_magic d width = Some r"
  shows "udiv_ok d width" "udiv_good d width r"
proof -
  show ok: "udiv_ok d width" using assms by (simp add: udiv_magic_unfold split: if_splits)
  then have w: "2 \<le> width" "width \<le> 64" and d3: "3 \<le> unat d" "\<not> (\<exists>k. unat d = 2 ^ k)"
    and dw: "unat d \<le> 2 ^ (width - 1)" by (simp_all add: udiv_ok_def)
  let ?tz = "std_countr_zero d" and ?l = "std_bit_width (d - 1)"
  have tzw: "?tz < width"
  proof -
    have "2 ^ ?tz \<le> unat d" using pow2_dvd_countr[of d] d3(1) by (intro dvd_imp_le) simp_all
    then have "(2 :: nat) ^ ?tz \<le> 2 ^ (width - 1)" using dw by linarith
    then have "?tz \<le> width - 1" by simp
    then show ?thesis using w(1) by simp
  qed
  show "udiv_good d width r"
  proof (cases "udiv_try d width 0")
    case (Some r0)
    then have "r0 = r" using assms ok by (simp add: udiv_magic_unfold del: push_bit_of_1)
    then show ?thesis using udiv_try_good[OF ok, of 0 r] Some w by simp
  next
    case t0: None
    show ?thesis
    proof (cases "if ?tz = 0 then None else udiv_try d width ?tz")
      case (Some r0)
      then have "r0 = r" using t0 assms ok by (simp add: udiv_magic_unfold del: push_bit_of_1)
      then show ?thesis
        using udiv_try_good[OF ok _ pow2_dvd_countr tzw] Some by (auto split: if_splits)
    next
      case None
      let ?M = "2 ^ (width + ?l) div unat d + 1"
      note bw = bit_width_pred[OF d3]
      have lw: "?l \<le> width - 1"
      proof (rule bit_width_le)
        have "d \<noteq> 0" using d3(1) by auto
        then show "unat (d - 1) < 2 ^ (width - 1)" using dw d3(1) by (simp add: unat_minus_one)
      qed
      have r: "r = \<lparr>um_mul = ucast (push_bit (width + ?l) 1 div w128 d + 1 - push_bit width 1),
          um_pre_shift = 0, um_shift = ?l, um_add = True\<rparr>"
        using t0 None assms ok by (simp add: udiv_magic_unfold del: push_bit_of_1)
      have "?l \<le> width" using lw by simp
      note ab = add_magic_bounds[OF bw this]
      have mul: "unat (um_mul r) = ?M - 2 ^ width"
        using add_mul_word[OF w(2) lw _ ab(1,2)] d3(1) r by simp
      have D0: "0 < unat d" using d3(1) by simp
      have app: "udiv_apply r width x = x div unat d" if "x < 2 ^ width" for x
        using udiv_add_correct(1)[OF D0 ab(1,2,3,4) that bw(3)] mul r by (simp add: udiv_apply_def Let_def)
      show ?thesis
        using app mul ab(1,2) bw(3) \<open>?l \<le> width\<close> r by (simp add: udiv_good_def)
    qed
  qed
qed

section \<open>Signed division\<close>

definition sdiv_apply :: "sdiv_magic \<Rightarrow> int \<Rightarrow> int" where
  "sdiv_apply r x =
     (let q0 = x * int (unat (sm_mul r)) div 2 ^ sm_shift r
      in q0 + (if q0 < 0 then 1 else 0))"

lemma div_by_mult_neg:
  fixes m d n :: nat
  assumes "0 < d" "2 ^ (w + s) < m * d" "m * d \<le> 2 ^ (w + s) + 2 ^ s" "0 < n" "n \<le> 2 ^ w"
  shows "(n * m - 1) div 2 ^ (w + s) = n div d"
proof (rule div_nat_eqI)
  let ?q = "n div d" and ?P = "(2 :: nat) ^ (w + s)"
  have "0 < m" using assms(2) by (cases m) simp_all
  then have nm: "0 < n * m" using assms(4) by simp
  have "d * (?P * ?q) < d * (n * m)"
  proof (cases "?q = 0")
    case False
    then have "d * (?P * ?q) = (d * ?q) * ?P" by simp
    also have "\<dots> < (d * ?q) * (m * d)" using assms(1,2) False by simp
    also have "\<dots> \<le> n * (m * d)" by (rule mult_le_mono1) simp
    finally show ?thesis by (simp add: ac_simps)
  qed (use nm assms(1) in simp)
  then have "?P * ?q < n * m" using assms(1) by simp
  then show "?P * ?q \<le> n * m - 1" by simp
  have "n mod d < d" using assms(1) by simp
  have "n * 2 ^ s \<le> ?P" using assms(5) by (simp add: power_add)
  have "d * (n * m) = n * (m * d)" by (simp add: ac_simps)
  also have "\<dots> \<le> n * (?P + 2 ^ s)" using assms(3) by (rule mult_le_mono2)
  also have "\<dots> = n * ?P + n * 2 ^ s" by (simp add: algebra_simps)
  also have "\<dots> \<le> (n + 1) * ?P" using \<open>n * 2 ^ s \<le> ?P\<close> by simp
  also have "\<dots> \<le> (d * ?q + d) * ?P"
  proof (rule mult_le_mono1)
    have "n = d * ?q + n mod d" by simp
    then show "n + 1 \<le> d * ?q + d" using \<open>n mod d < d\<close> by linarith
  qed
  finally have "d * (n * m) \<le> d * (?P * Suc ?q)" by (simp add: algebra_simps)
  then have "n * m \<le> ?P * Suc ?q" using assms(1) by simp
  then show "n * m - 1 < ?P * Suc ?q" using nm by linarith
qed

text \<open>Rounding down the product of a negative number.\<close>

lemma neg_div_ceil:
  fixes a P :: nat
  assumes "0 < a" "0 < P"
  shows "(- int a) div int P = - int ((a - 1) div P) - 1"
proof -
  let ?q = "(a - 1) div P"
  have "a - 1 = P * ?q + (a - 1) mod P" by simp
  then have a: "int a = int P * int ?q + int ((a - 1) mod P) + 1" using assms(1)
    by (metis Suc_pred' add.commute of_nat_Suc of_nat_add of_nat_mult plus_1_eq_Suc)
  have "- int a = int P * (- int ?q - 1) + (int P - 1 - int ((a - 1) mod P))"
    using a by (simp add: algebra_simps)
  moreover have "(a - 1) mod P < P" using assms(2) by simp
  ultimately show ?thesis
    by (intro int_div_pos_eq[where r = "int P - 1 - int ((a - 1) mod P)"]) linarith+
qed

lemma sdiv_mult_correct:
  fixes m d :: nat and x :: int
  assumes "0 < d" "2 ^ (w + s) < m * d" "m * d \<le> 2 ^ (w + s) + 2 ^ s"
    "- (2 ^ w) \<le> x" "x < 2 ^ w"
  shows "(let q0 = x * int m div 2 ^ (w + s) in q0 + (if q0 < 0 then 1 else 0)) = x sdiv int d"
proof (cases "0 \<le> x")
  case True
  then obtain n where n: "x = int n" by (metis nonneg_int_cases)
  then have "n < 2 ^ w" using assms(5) by (metis of_nat_less_iff of_nat_numeral of_nat_power)
  then have "n * m div 2 ^ (w + s) = n div d" using assms by (intro div_by_mult) simp_all
  then have "x * int m div 2 ^ (w + s) = int (n div d)"
    unfolding n by (metis of_nat_mult of_nat_numeral of_nat_power zdiv_int)
  moreover have "x sdiv int d = int (n div d)"
    using assms(1) n by (simp add: signed_divide_int_def zdiv_int sgn_if)
  ultimately show ?thesis by simp
next
  case False
  then obtain n where n: "x = - int n" "0 < n" by (metis linorder_not_le neg_int_cases)
  then have "n \<le> 2 ^ w" using assms(4) by (metis neg_le_iff_le of_nat_le_iff of_nat_numeral of_nat_power)
  then have e: "(n * m - 1) div 2 ^ (w + s) = n div d" using assms n by (intro div_by_mult_neg) simp_all
  have "0 < m" using assms(2) by (cases m) simp_all
  then have "(- int (n * m)) div int (2 ^ (w + s)) = - int ((n * m - 1) div 2 ^ (w + s)) - 1"
    using n(2) by (intro neg_div_ceil) simp_all
  then have "x * int m div 2 ^ (w + s) = - int (n div d) - 1"
    unfolding n e by simp
  moreover have "x sdiv int d = - int (n div d)"
    using assms(1) n by (simp add: signed_divide_int_def zdiv_int)
  ultimately show ?thesis by simp
qed

definition sdiv_ok :: "u64 \<Rightarrow> nat \<Rightarrow> bool" where
  "sdiv_ok d width \<longleftrightarrow> 3 \<le> width \<and> width \<le> 64 \<and> 3 \<le> unat d \<and> \<not> (\<exists>k. unat d = 2 ^ k)
     \<and> unat d \<le> 2 ^ (width - 1)"

lemma sdiv_guard:
  "(width > 64 \<or> width < 3 \<or> d < 3 \<or> std_has_single_bit d \<or> d > push_bit (width - 1) 1) \<longleftrightarrow> \<not> sdiv_ok d width"
proof (cases "3 \<le> width \<and> width \<le> 64")
  case True
  then have p: "unat (push_bit (width - 1) 1 :: u64) = 2 ^ (width - 1)" by (intro unat_pow2) auto
  have "d < 3 \<longleftrightarrow> unat d < 3" by (simp add: word_less_nat_alt)
  moreover have "d > push_bit (width - 1) 1 \<longleftrightarrow> 2 ^ (width - 1) < unat d"
    using p by (simp only: word_less_nat_alt)
  ultimately show ?thesis
    using True unfolding sdiv_ok_def single_bit_iff by (auto simp: not_less)
qed (auto simp: sdiv_ok_def)

definition sdiv_good :: "u64 \<Rightarrow> nat \<Rightarrow> sdiv_magic \<Rightarrow> bool" where
  "sdiv_good d width r \<longleftrightarrow>
     (\<forall>x. - (2 ^ (width - 1)) \<le> x \<and> x < 2 ^ (width - 1) \<longrightarrow> sdiv_apply r x = x sdiv int (unat d)) \<and>
     unat (sm_mul r) < 2 ^ width \<and> sm_shift r < 2 * width \<and> (width = 64 \<longrightarrow> 64 \<le> sm_shift r)"

lemma dvd_pow2: "(d :: nat) dvd 2 ^ k \<Longrightarrow> \<exists>j. d = 2 ^ j"
proof (induction k arbitrary: d)
  case 0
  then show ?case by (intro exI[of _ 0]) simp
next
  case (Suc k)
  show ?case
  proof (cases "even d")
    case True
    then obtain d' where d': "d = 2 * d'" by blast
    with Suc.prems have "d' dvd 2 ^ k" by simp
    from Suc.IH[OF this] obtain j where "d' = 2 ^ j" by blast
    then show ?thesis using d' by (intro exI[of _ "Suc j"]) simp
  next
    case False
    then have "coprime d 2" by (simp add: coprime_right_2_iff_odd)
    then show ?thesis using Suc by (simp add: coprime_dvd_mult_right_iff)
  qed
qed

lemma sdiv_magic_good:
  assumes "sdiv_magic d width = Some r"
  shows "sdiv_ok d width" "sdiv_good d width r"
proof -
  let ?l = "std_bit_width (d - 1)" and ?first = "if width = 64 then 1 else 0 :: nat"
  have unf: "sdiv_magic d width = (if \<not> sdiv_ok d width then None
      else case magic_search d (width - 1) width [?first..<Suc ?l] of
             Some (m, sh) \<Rightarrow> Some \<lparr>sm_mul = ucast m, sm_shift = sh\<rparr> | None \<Rightarrow> None)"
    unfolding sdiv_magic_def sdiv_guard Let_def ..
  show ok: "sdiv_ok d width" using assms by (simp add: unf split: if_splits)
  then have w: "3 \<le> width" "width \<le> 64" and d3: "3 \<le> unat d" "\<not> (\<exists>k. unat d = 2 ^ k)"
    and dw: "unat d \<le> 2 ^ (width - 1)" by (simp_all add: sdiv_ok_def)
  have l: "?l \<le> width - 1"
  proof (rule bit_width_le)
    have "d \<noteq> 0" using d3(1) by auto
    then show "unat (d - 1) < 2 ^ (width - 1)" using dw d3(1) by (simp add: unat_minus_one)
  qed
  obtain m sh where ms: "magic_search d (width - 1) width [?first..<Suc ?l] = Some (m, sh)"
    and r: "r = \<lparr>sm_mul = ucast m, sm_shift = sh\<rparr>"
    using assms ok unfolding unf by (auto split: option.splits)
  have D0: "0 < unat d" "0 < width" using d3(1) w by simp_all
  have "\<forall>s\<in>set [?first..<Suc ?l]. width - 1 + s \<le> 127" using l w by auto
  from magic_search_Some[OF ms D0 w(2) this] obtain s where
    s: "s \<in> set [?first..<Suc ?l]" "sh = width - 1 + s" "2 ^ sh \<le> unat m * unat d"
      "unat m * unat d \<le> 2 ^ sh + 2 ^ s" "unat m < 2 ^ width" "unat (ucast m :: u64) = unat m" .
  have "2 ^ sh \<noteq> unat m * unat d"
  proof
    assume "2 ^ sh = unat m * unat d"
    then have "unat d dvd 2 ^ sh" by simp
    then obtain k where "unat d = 2 ^ k" using dvd_pow2 by blast
    with d3(2) show False by blast
  qed
  then have "2 ^ (width - 1 + s) < unat m * unat d" using s(2,3) by simp
  then have "sdiv_apply r x = x sdiv int (unat d)" if "- (2 ^ (width - 1)) \<le> x" "x < 2 ^ (width - 1)" for x
    using sdiv_mult_correct[OF D0(1) _ _ that, of s "unat m"] s(2,4,6) r by (simp add: sdiv_apply_def)
  then show "sdiv_good d width r"
    using s(1,2,5,6) r l w by (auto simp: sdiv_good_def)
qed

text \<open>The search never fails: the shift of the last round always works.\<close>

lemma magic_search_last:
  assumes "s \<in> set ss" "magic_e d (wp + s) \<le> push_bit s 1" "magic_m d (wp + s) \<le> max_mul width"
  shows "magic_search d wp width ss \<noteq> None"
  using assms by (induction ss) auto

lemma sdiv_magic_total: "sdiv_magic d width = None \<longleftrightarrow> \<not> sdiv_ok d width"
proof (cases "sdiv_ok d width")
  case True
  then have w: "3 \<le> width" "width \<le> 64" and d3: "3 \<le> unat d" "\<not> (\<exists>k. unat d = 2 ^ k)"
    and dw: "unat d \<le> 2 ^ (width - 1)" by (simp_all add: sdiv_ok_def)
  let ?l = "std_bit_width (d - 1)" and ?D = "unat d"
  note bw = bit_width_pred[OF d3]
  have l: "?l \<le> width - 1"
  proof (rule bit_width_le)
    have "d \<noteq> 0" using d3(1) by auto
    then show "unat (d - 1) < 2 ^ (width - 1)" using dw d3(1) by (simp add: unat_minus_one)
  qed
  have D0: "0 < ?D" and p: "width - 1 + ?l \<le> 127" using d3(1) l w by simp_all
  note e = unat_magic_e[OF D0 p] and m = unat_magic_m[OF D0 p]
  have "unat (magic_e d (width - 1 + ?l)) \<le> 2 ^ ?l" using e bw(2) by linarith
  then have e2: "magic_e d (width - 1 + ?l) \<le> push_bit ?l 1"
    using unat_pow2[of ?l, where ?'a = 128] l w by (simp only: word_le_nat_alt) simp
  have "unat (magic_m d (width - 1 + ?l)) * ?D < 2 ^ width * ?D"
  proof -
    have "2 ^ (width - 1 + ?l) = (2 :: nat) ^ width * 2 ^ (?l - 1)"
      using bw(3) w by (simp flip: power_add)
    moreover have "(2 :: nat) ^ width * (2 ^ (?l - 1) + 1) \<le> 2 ^ width * ?D"
      using bw(1) by (intro mult_le_mono2) simp
    moreover have "?D \<le> 2 ^ width" using dw power_increasing[of "width - 1" width "2 :: nat"] by linarith
    moreover have "(2 :: nat) ^ width * (2 ^ (?l - 1) + 1) = 2 ^ width * 2 ^ (?l - 1) + 2 ^ width"
      by (simp only: distrib_left mult_1_right)
    ultimately show ?thesis using e(3) D0 by linarith
  qed
  then have "unat (magic_m d (width - 1 + ?l)) < 2 ^ width" by simp
  then have m2: "magic_m d (width - 1 + ?l) \<le> max_mul width"
    using unat_max_mul[of width] w by (simp add: word_le_nat_alt)
  have "magic_search d (width - 1) width [(if width = 64 then 1 else 0)..<Suc ?l] \<noteq> None"
    by (rule magic_search_last[OF _ e2 m2]) (use bw(3) in auto)
  then obtain m sh where
    "magic_search d (width - 1) width [(if width = 64 then 1 else 0)..<Suc ?l] = Some (m, sh)"
    by (metis not_None_eq prod.exhaust)
  then show ?thesis
    using True unfolding sdiv_magic_def sdiv_guard Let_def
    by (simp only: option.case prod.case if_False not_True_eq_False) simp
qed (simp only: sdiv_magic_def sdiv_guard if_True simp_thms)

lemma udiv_magic_total: "udiv_magic d width = None \<longleftrightarrow> \<not> udiv_ok d width"
  by (simp add: udiv_magic_unfold split: option.splits if_splits)

section \<open>The entries of the two tables\<close>

text \<open>C29: \<^verbatim>\<open>udiv_magic\<close> has an entry for exactly the divisors its comment names (3 to half of
  the range, no power of two), and an entry divides every number of the width: its shifts and
  products, taken at full precision, give the quotient. The multiplier fits the width, and the shift
  of a 64 bit entry without the add is at least 64, so that a high multiply can do it.\<close>

theorem udiv_magic_correct:
  "case udiv_magic d width of
     None \<Rightarrow> \<not> udiv_ok d width
   | Some r \<Rightarrow> udiv_ok d width \<and> (\<forall>x < 2 ^ width. udiv_apply r width x = x div unat d)
       \<and> unat (um_mul r) < 2 ^ width \<and> (\<not> um_add r \<and> width = 64 \<longrightarrow> 64 \<le> um_shift r)"
  using udiv_magic_total[of d width] udiv_magic_good[of d width]
  by (auto split: option.split simp: udiv_good_def)

theorem udiv_magic_correct_witness:
  "\<exists>r. udiv_magic 7 32 = Some r \<and> udiv_apply r 32 4000000000 = 4000000000 div 7"
proof -
  have not2: "7 \<noteq> (2 :: nat) ^ k" for k
    by (cases k) (auto simp: even_numeral dest: arg_cong[where f = even])
  then have ok: "udiv_ok 7 32" by (auto simp: udiv_ok_def)
  show ?thesis using udiv_magic_correct[of 7 32] ok
    by (auto split: option.splits)
qed

text \<open>C30: \<^verbatim>\<open>sdiv_magic\<close> has an entry for exactly the absolute values 3 to half of the range that
  are no power of two, and an entry divides every signed number of the width, rounding toward
  zero.\<close>

theorem sdiv_magic_correct:
  "case sdiv_magic d width of
     None \<Rightarrow> \<not> sdiv_ok d width
   | Some r \<Rightarrow> sdiv_ok d width
       \<and> (\<forall>x. - (2 ^ (width - 1)) \<le> x \<and> x < 2 ^ (width - 1) \<longrightarrow> sdiv_apply r x = x sdiv int (unat d))
       \<and> unat (sm_mul r) < 2 ^ width \<and> (width = 64 \<longrightarrow> 64 \<le> sm_shift r)"
  using sdiv_magic_total[of d width] sdiv_magic_good[of d width]
  by (auto split: option.split simp: sdiv_good_def)

theorem sdiv_magic_correct_witness:
  "\<exists>r. sdiv_magic 7 32 = Some r \<and> sdiv_apply r (- 20) = - 2"
proof -
  have not2: "7 \<noteq> (2 :: nat) ^ k" for k
    by (cases k) (auto simp: even_numeral dest: arg_cong[where f = even])
  then have ok: "sdiv_ok 7 32" by (auto simp: sdiv_ok_def)
  show ?thesis using sdiv_magic_correct[of 7 32] ok
    by (auto split: option.splits simp: signed_divide_int_def)
qed

end
