(* ===== verification/MIROps.thy ===== *)
theory MIROps
  imports Prelude
begin

text \<open>
  The opcodes of the machine IR (\<^verbatim>\<open>src/src/mir/instr.hpp\<close>). An instruction carries a
  \<^verbatim>\<open>GOpcode\<close> and a subtype number whose meaning depends on it (\<^verbatim>\<open>bop\<close>, \<^verbatim>\<open>sop\<close>); the pair
  is the tagged union \<open>GOpcode\<close>, with the enumerators of the source as constructors. Each
  enumerator keeps its name behind the name of its opcode.
\<close>

datatype (plugins only: code) GBaseSubtype =
    GBase_INVALID | GBase_mov | GBase_push | GBase_pop | GBase_call | GBase_ret | GBase_unreach
  | GBase_stack_arg_load | GBase_arg_setup | GBase_invoke | GBase_ret_setup | GBase_asm_in
  | GBase_inline_asm | GBase_asm_out

datatype (plugins only: code) GJumpSubtype =
    GJmp_INVALID | GJmp_icmp_slt | GJmp_icmp_eq | GJmp_icmp_ult | GJmp_icmp_ne | GJmp_icmp_sgt
  | GJmp_icmp_ugt | GJmp_icmp_uge | GJmp_icmp_ule | GJmp_icmp_sge | GJmp_icmp_sle
  | GJmp_fcmp_isNaN | GJmp_fcmp_oeq | GJmp_fcmp_ogt | GJmp_fcmp_oge | GJmp_fcmp_olt
  | GJmp_fcmp_ole | GJmp_fcmp_one | GJmp_fcmp_ord | GJmp_fcmp_uno | GJmp_fcmp_ueq | GJmp_fcmp_ugt
  | GJmp_fcmp_uge | GJmp_fcmp_ult | GJmp_fcmp_ule | GJmp_fcmp_une | GJmp_cjmp_and | GJmp_cjmp_or
  | GJmp_cjmp_int_slt | GJmp_cjmp_int_sge | GJmp_cjmp_int_sle | GJmp_cjmp_int_sgt
  | GJmp_cjmp_int_ult | GJmp_cjmp_int_ule | GJmp_cjmp_int_ugt | GJmp_cjmp_int_uge
  | GJmp_cjmp_int_ne | GJmp_cjmp_int_eq | GJmp_cjmp_flt_oeq | GJmp_cjmp_flt_ogt
  | GJmp_cjmp_flt_oge | GJmp_cjmp_flt_olt | GJmp_cjmp_flt_ole | GJmp_cjmp_flt_one
  | GJmp_cjmp_flt_ord | GJmp_cjmp_flt_uno | GJmp_cjmp_flt_ueq | GJmp_cjmp_flt_ugt
  | GJmp_cjmp_flt_uge | GJmp_cjmp_flt_ult | GJmp_cjmp_flt_ule | GJmp_cjmp_flt_une | GJmp_cjmp
  | GJmp_jmp

datatype (plugins only: code) GConvSubtype =
    GConv_INVALID | GConv_SI2FL | GConv_UI2FL | GConv_FL2SI | GConv_FL2UI | GConv_F64_ext
  | GConv_F32_trunc | GConv_itrunc | GConv_mov_zx | GConv_mov_sx

datatype (plugins only: code) GArithSubtype =
    GArith_INVALID | GArith_abs | GArith_shl2 | GArith_shr2 | GArith_sar2 | GArith_land2
  | GArith_lor2 | GArith_lxor2 | GArith_add2 | GArith_sub2 | GArith_mul2 | GArith_not1
  | GArith_neg1 | GArith_idiv | GArith_udiv | GArith_smul3 | GArith_umulh | GArith_smulh

datatype (plugins only: code) GCMovSubtype =
    GCMov_INVALID | GCMov_cmov | GCMov_cmov_ns | GCMov_cmov_sgt | GCMov_cmov_slt | GCMov_cmov_ult
  | GCMov_cmov_sge | GCMov_cmov_sle | GCMov_cmov_ne | GCMov_cmov_eq | GCMov_cmov_ugt
  | GCMov_cmov_uge | GCMov_cmov_ule

datatype (plugins only: code) GVecSubtype =
    GVec_INVALID | GVec_vadd | GVec_vsub | GVec_vmul | GVec_vdiv | GVec_ffmadd | GVec_vXor
  | GVec_vAnd | GVec_vOr | GVec_vShl | GVec_vShr | GVec_vSar | GVec_fMax | GVec_fMin | GVec_vSMin
  | GVec_vSMax | GVec_vUMin | GVec_vUMax

datatype (plugins only: code) X86Subtype =
    X86_INVALID | X86_lea | X86_vmovshdup | X86_movlhps | X86_movhlps | X86_vpermil | X86_vpextr
  | X86_vpinsr | X86_vextract128 | X86_vinsert128 | X86_vinsertps | X86_vpshuf | X86_vpshufb
  | X86_punpckl | X86_vbroadcast | X86_vgatherq | X86_vgather | X86_vpcmpeq | X86_vpcmpgt
  | X86_vpack | X86_vshufps | X86_vpclmul | X86_vpacks | X86_vpmulhw | X86_vpmaddwd
  | X86_vpmaddubsw | X86_vpermd | X86_vmovmsk | X86_vmaskload | X86_vmaskstore | X86_vblendv
  | X86_vcmp | X86_lzcnt | X86_tzcnt | X86_popcnt | X86_bswap | X86_ffmadd132 | X86_ffmadd213
  | X86_ffmadd231 | X86_HAdd | X86_sqrt | X86_vpabs | X86_vround | X86_psrl | X86_psll | X86_psra
  | X86_pmuludq | X86_padd | X86_LockXAdd2 | X86_Xchg2 | X86_LockAdd2 | X86_LockSub2
  | X86_LockAnd2 | X86_LockOr2 | X86_LockXor2 | X86_LockCmpXchg3 | X86_vzeroupper | X86_mfence
  | X86_tls_base | X86_vextractf64x2 | X86_vextractf64x4

datatype GOpcode =
    GBase GBaseSubtype | GJmp GJumpSubtype | GConv GConvSubtype | GArith GArithSubtype
  | GCMov GCMovSubtype | GVec GVecSubtype | X86 X86Subtype

end
