(* ===== verification/MIRData.thy ===== *)
theory MIRData
  imports MIROps
begin

text \<open>
  The data of the machine IR (\<^verbatim>\<open>src/src/mir/instr.hpp\<close>): value types, registers, operands and
  instructions, with the constructors and queries of the classes \<^verbatim>\<open>VReg\<close>, \<^verbatim>\<open>MArgument\<close> and
  \<^verbatim>\<open>MInstr\<close>. Virtual register numbers, block numbers and sizes are natural numbers (the code
  counts them up from 1 in 64 bits); immediates keep their 64 bits. \<^verbatim>\<open>TODO\<close> aborts the compiler and
  is the value \<open>None\<close>. The \<^verbatim>\<open>ASSERT\<close>s of the constructors are compiled out in release builds and are
  not modelled.
\<close>

section \<open>Value types\<close>

datatype (plugins only: code) Type =
    Ty_INVALID | Ty_Int8 | Ty_Int16 | Ty_Int32 | Ty_Int64 | Ty_Float32 | Ty_Float64 | Ty_Float32x2
  | Ty_Int8x16 | Ty_Int16x8 | Ty_Int32x4 | Ty_Int64x2 | Ty_Float32x4 | Ty_Float64x2 | Ty_Int8x32
  | Ty_Int16x16 | Ty_Int32x8 | Ty_Int64x4 | Ty_Float32x8 | Ty_Float64x4 | Ty_Int32x16 | Ty_Int64x8
  | Ty_Float32x16 | Ty_Float64x8 | Ty_Int8x4 | Ty_Int8x8 | Ty_Int16x4 | Ty_Int32x2

primrec type_code :: "Type \<Rightarrow> nat" where
  "type_code Ty_INVALID = 0"
| "type_code Ty_Int8 = 1"
| "type_code Ty_Int16 = 2"
| "type_code Ty_Int32 = 3"
| "type_code Ty_Int64 = 4"
| "type_code Ty_Float32 = 5"
| "type_code Ty_Float64 = 6"
| "type_code Ty_Float32x2 = 7"
| "type_code Ty_Int8x16 = 8"
| "type_code Ty_Int16x8 = 9"
| "type_code Ty_Int32x4 = 10"
| "type_code Ty_Int64x2 = 11"
| "type_code Ty_Float32x4 = 12"
| "type_code Ty_Float64x2 = 13"
| "type_code Ty_Int8x32 = 14"
| "type_code Ty_Int16x16 = 15"
| "type_code Ty_Int32x8 = 16"
| "type_code Ty_Int64x4 = 17"
| "type_code Ty_Float32x8 = 18"
| "type_code Ty_Float64x4 = 19"
| "type_code Ty_Int32x16 = 20"
| "type_code Ty_Int64x8 = 21"
| "type_code Ty_Float32x16 = 22"
| "type_code Ty_Float64x8 = 23"
| "type_code Ty_Int8x4 = 24"
| "type_code Ty_Int8x8 = 25"
| "type_code Ty_Int16x4 = 26"
| "type_code Ty_Int32x2 = 27"

lemma type_code_inj: "type_code a = type_code b \<Longrightarrow> a = b"
  by (cases a; cases b; simp)

text \<open>The enumerators are compared as numbers; the source says where their order matters.\<close>

instantiation Type :: linorder
begin

definition less_eq_Type :: "Type \<Rightarrow> Type \<Rightarrow> bool" where "a \<le> b \<longleftrightarrow> type_code a \<le> type_code b"

definition less_Type :: "Type \<Rightarrow> Type \<Rightarrow> bool" where "a < b \<longleftrightarrow> type_code a < type_code b"

instance
  by standard (auto simp: less_eq_Type_def less_Type_def dest: type_code_inj)

end

primrec get_size :: "Type \<Rightarrow> nat option" where
  "get_size Ty_Float32 = Some 4"
| "get_size Ty_Float64 = Some 8"
| "get_size Ty_Int8 = Some 1"
| "get_size Ty_Int16 = Some 2"
| "get_size Ty_Int32 = Some 4"
| "get_size Ty_Int64 = Some 8"
| "get_size Ty_Float32x2 = Some (4 * 2)"
| "get_size Ty_Int32x4 = Some (4 * 4)"
| "get_size Ty_Int64x2 = Some (8 * 2)"
| "get_size Ty_Float32x4 = Some (4 * 4)"
| "get_size Ty_Float64x2 = Some (8 * 2)"
| "get_size Ty_Int32x8 = Some (4 * 8)"
| "get_size Ty_Int64x4 = Some (8 * 4)"
| "get_size Ty_Float32x8 = Some (4 * 8)"
| "get_size Ty_Float64x4 = Some (8 * 4)"
| "get_size Ty_Int32x16 = Some (4 * 16)"
| "get_size Ty_Int64x8 = Some (8 * 8)"
| "get_size Ty_Float32x16 = Some (4 * 16)"
| "get_size Ty_Float64x8 = Some (8 * 8)"
| "get_size Ty_Int8x16 = Some 16"
| "get_size Ty_Int16x8 = Some 16"
| "get_size Ty_Int8x32 = Some 32"
| "get_size Ty_Int16x16 = Some 32"
| "get_size Ty_Int8x4 = Some 4"
| "get_size Ty_Int8x8 = Some 8"
| "get_size Ty_Int16x4 = Some 8"
| "get_size Ty_Int32x2 = Some 8"
| "get_size Ty_INVALID = None"

definition vec_lane_bits :: "Type \<Rightarrow> nat" where
  "vec_lane_bits t = (case t of
     Ty_Int8x4 \<Rightarrow> 8 | Ty_Int8x8 \<Rightarrow> 8 | Ty_Int8x16 \<Rightarrow> 8 | Ty_Int8x32 \<Rightarrow> 8
   | Ty_Int16x4 \<Rightarrow> 16 | Ty_Int16x8 \<Rightarrow> 16 | Ty_Int16x16 \<Rightarrow> 16
   | Ty_Float32x2 \<Rightarrow> 32 | Ty_Float32x4 \<Rightarrow> 32 | Ty_Float32x8 \<Rightarrow> 32 | Ty_Float32x16 \<Rightarrow> 32
   | Ty_Int32x2 \<Rightarrow> 32 | Ty_Int32x4 \<Rightarrow> 32 | Ty_Int32x8 \<Rightarrow> 32 | Ty_Int32x16 \<Rightarrow> 32
   | Ty_Float64x2 \<Rightarrow> 64 | Ty_Float64x4 \<Rightarrow> 64 | Ty_Float64x8 \<Rightarrow> 64
   | Ty_Int64x2 \<Rightarrow> 64 | Ty_Int64x4 \<Rightarrow> 64 | Ty_Int64x8 \<Rightarrow> 64
   | _ \<Rightarrow> 0)"

section \<open>Registers\<close>

datatype (plugins only: code) CReg =
    CReg_Virtual | CReg_A | CReg_B | CReg_C | CReg_D | CReg_SI | CReg_DI | CReg_SP | CReg_BP
  | CReg_R8 | CReg_R9 | CReg_R10 | CReg_R11 | CReg_R12 | CReg_R13 | CReg_R14 | CReg_R15 | CReg_mm0
  | CReg_mm1 | CReg_mm2 | CReg_mm3 | CReg_mm4 | CReg_mm5 | CReg_mm6 | CReg_mm7 | CReg_mm8
  | CReg_mm9 | CReg_mm10 | CReg_mm11 | CReg_mm12 | CReg_mm13 | CReg_mm14 | CReg_mm15

primrec creg_code :: "CReg \<Rightarrow> nat" where
  "creg_code CReg_Virtual = 0"
| "creg_code CReg_A = 1"
| "creg_code CReg_B = 2"
| "creg_code CReg_C = 3"
| "creg_code CReg_D = 4"
| "creg_code CReg_SI = 5"
| "creg_code CReg_DI = 6"
| "creg_code CReg_SP = 7"
| "creg_code CReg_BP = 8"
| "creg_code CReg_R8 = 9"
| "creg_code CReg_R9 = 10"
| "creg_code CReg_R10 = 11"
| "creg_code CReg_R11 = 12"
| "creg_code CReg_R12 = 13"
| "creg_code CReg_R13 = 14"
| "creg_code CReg_R14 = 15"
| "creg_code CReg_R15 = 16"
| "creg_code CReg_mm0 = 17"
| "creg_code CReg_mm1 = 18"
| "creg_code CReg_mm2 = 19"
| "creg_code CReg_mm3 = 20"
| "creg_code CReg_mm4 = 21"
| "creg_code CReg_mm5 = 22"
| "creg_code CReg_mm6 = 23"
| "creg_code CReg_mm7 = 24"
| "creg_code CReg_mm8 = 25"
| "creg_code CReg_mm9 = 26"
| "creg_code CReg_mm10 = 27"
| "creg_code CReg_mm11 = 28"
| "creg_code CReg_mm12 = 29"
| "creg_code CReg_mm13 = 30"
| "creg_code CReg_mm14 = 31"
| "creg_code CReg_mm15 = 32"

text \<open>\<^verbatim>\<open>CReg::N_REGS\<close>, one more than the last register.\<close>

definition numRegs :: nat where "numRegs = 33"

text \<open>The registers in the order of their numbers, for \<^verbatim>\<open>static_cast<CReg>\<close>.\<close>

definition creg_list :: "CReg list" where
  "creg_list = [CReg_Virtual, CReg_A, CReg_B, CReg_C, CReg_D, CReg_SI, CReg_DI, CReg_SP, CReg_BP,
     CReg_R8, CReg_R9, CReg_R10, CReg_R11, CReg_R12, CReg_R13, CReg_R14, CReg_R15,
     CReg_mm0, CReg_mm1, CReg_mm2, CReg_mm3, CReg_mm4, CReg_mm5, CReg_mm6, CReg_mm7,
     CReg_mm8, CReg_mm9, CReg_mm10, CReg_mm11, CReg_mm12, CReg_mm13, CReg_mm14, CReg_mm15]"

definition creg_of_code :: "nat \<Rightarrow> CReg" where "creg_of_code n = creg_list ! n"

lemma creg_code_less: "creg_code r < numRegs"
  by (cases r) (simp_all add: numRegs_def)

lemma creg_of_code_code [simp]: "creg_of_code (creg_code r) = r"
  by (cases r) (simp_all add: creg_of_code_def creg_list_def)

lemma creg_code_inj: "creg_code a = creg_code b \<Longrightarrow> a = b"
  by (metis creg_of_code_code)

lemma creg_code_of_code: "n < numRegs \<Longrightarrow> creg_code (creg_of_code n) = n"
proof -
  have "\<forall>n \<in> set [0..<33]. creg_code (creg_list ! n) = n"
    by (simp add: upt_rec creg_list_def)
  then show "n < numRegs \<Longrightarrow> creg_code (creg_of_code n) = n"
    by (auto simp: creg_of_code_def numRegs_def)
qed

instantiation CReg :: linorder
begin

definition less_eq_CReg :: "CReg \<Rightarrow> CReg \<Rightarrow> bool" where "a \<le> b \<longleftrightarrow> creg_code a \<le> creg_code b"

definition less_CReg :: "CReg \<Rightarrow> CReg \<Rightarrow> bool" where "a < b \<longleftrightarrow> creg_code a < creg_code b"

instance
  by standard (auto simp: less_eq_CReg_def less_CReg_def dest: creg_code_inj)

end

text \<open>
  \<^verbatim>\<open>class VReg\<close> is a union tagged by \<^verbatim>\<open>RegType\<close>: a virtual register with its number or a concrete
  one, each with the type it is used at.
\<close>

datatype VReg = VirtR (vr_ty: Type) (virt_id: nat) | ConcR (vr_ty: Type) (c_reg: CReg)

definition vreg0 :: VReg where "vreg0 = VirtR Ty_INVALID 0"

definition retype :: "VReg \<Rightarrow> Type \<Rightarrow> VReg" where
  "retype r ty = (case r of VirtR _ n \<Rightarrow> VirtR ty n | ConcR _ c \<Rightarrow> ConcR ty c)"

definition is_concrete :: "VReg \<Rightarrow> bool" where
  "is_concrete r = (case r of VirtR _ _ \<Rightarrow> False | ConcR _ _ \<Rightarrow> True)"

definition vreg_size :: "VReg \<Rightarrow> nat option" where "vreg_size r = get_size (vr_ty r)"

definition vreg_is_vec_reg :: "VReg \<Rightarrow> bool" where
  "vreg_is_vec_reg r = (case r of VirtR ty _ \<Rightarrow> Ty_Float32 \<le> ty | ConcR _ c \<Rightarrow> CReg_mm0 \<le> c)"

definition is_gor_reg :: "VReg \<Rightarrow> bool" where "is_gor_reg r = (\<not> vreg_is_vec_reg r)"

definition VReg_RAX :: VReg where "VReg_RAX = ConcR Ty_Int64 CReg_A"

definition VReg_RDX :: VReg where "VReg_RDX = ConcR Ty_Int64 CReg_D"

text \<open>\<^verbatim>\<open>operator==\<close> compares the kind and the number, not the type.\<close>

definition vreg_eq :: "VReg \<Rightarrow> VReg \<Rightarrow> bool" where
  "vreg_eq a b = (case a of
     VirtR _ i \<Rightarrow> (case b of VirtR _ j \<Rightarrow> i = j | ConcR _ _ \<Rightarrow> False)
   | ConcR _ c \<Rightarrow> (case b of VirtR _ _ \<Rightarrow> False | ConcR _ d \<Rightarrow> c = d))"

section \<open>Operands\<close>

datatype (plugins only: code) ArgumentType =
    AT_Imm | AT_VReg | AT_MemVReg | AT_MemVRegVReg | AT_MemImm | AT_MemImmVReg | AT_MemImmVRegVReg
  | AT_MemVRegVRegScale | AT_MemImmVRegScale | AT_MemImmVRegVRegScale | AT_Label | AT_MemLabel
  | AT_MemImmLabel | AT_MemLabelVreg | AT_MemLabelVregScale | AT_StackSlot

record MArgument =
  ma_type :: ArgumentType
  ma_ty :: Type
  ma_imm :: u64
  ma_scale :: u64
  ma_reg :: VReg
  ma_indx :: VReg
  ma_label :: "string option"

definition marg0 :: MArgument where
  "marg0 = \<lparr>ma_type = AT_Imm, ma_ty = Ty_INVALID, ma_imm = 0, ma_scale = 0, ma_reg = vreg0,
     ma_indx = vreg0, ma_label = None\<rparr>"

definition MReg :: "VReg \<Rightarrow> Type \<Rightarrow> MArgument" where
  "MReg r ty = marg0\<lparr>ma_type := AT_VReg, ma_ty := ty, ma_reg := retype r ty\<rparr>"

definition MInt :: "u64 \<Rightarrow> Type \<Rightarrow> MArgument" where
  "MInt v ty = marg0\<lparr>ma_type := AT_Imm, ma_ty := ty, ma_imm := v\<rparr>"

definition MImm8 :: "u8 \<Rightarrow> MArgument" where
  "MImm8 v = marg0\<lparr>ma_type := AT_Imm, ma_ty := Ty_Int8, ma_imm := ucast v\<rparr>"

definition MImm16 :: "u16 \<Rightarrow> MArgument" where
  "MImm16 v = marg0\<lparr>ma_type := AT_Imm, ma_ty := Ty_Int16, ma_imm := ucast v\<rparr>"

definition MImm32 :: "u32 \<Rightarrow> MArgument" where
  "MImm32 v = marg0\<lparr>ma_type := AT_Imm, ma_ty := Ty_Int32, ma_imm := ucast v\<rparr>"

definition MImm64 :: "u64 \<Rightarrow> MArgument" where
  "MImm64 v = marg0\<lparr>ma_type := AT_Imm, ma_ty := Ty_Int64, ma_imm := v\<rparr>"

text \<open>Floating point immediates share the field of the integer ones: their bits are stored.\<close>

definition MImmF64 :: "u64 \<Rightarrow> MArgument" where
  "MImmF64 bits = marg0\<lparr>ma_type := AT_Imm, ma_ty := Ty_Float64, ma_imm := bits\<rparr>"

definition MImmF32 :: "u32 \<Rightarrow> MArgument" where
  "MImmF32 bits = marg0\<lparr>ma_type := AT_Imm, ma_ty := Ty_Float32, ma_imm := ucast bits\<rparr>"

definition MLabel :: "string \<Rightarrow> MArgument" where
  "MLabel lab = marg0\<lparr>ma_type := AT_Label, ma_label := Some lab\<rparr>"

definition MLabelTy :: "string \<Rightarrow> Type \<Rightarrow> MArgument" where
  "MLabelTy lab ty = marg0\<lparr>ma_type := AT_Label, ma_ty := ty, ma_label := Some lab\<rparr>"

definition stack_slot :: "u64 \<Rightarrow> Type \<Rightarrow> MArgument option" where
  "stack_slot slot ty = (case get_size ty of
     Some n \<Rightarrow> Some (marg0\<lparr>ma_type := AT_StackSlot, ma_ty := ty, ma_imm := slot, ma_scale := of_nat n\<rparr>)
   | None \<Rightarrow> None)"

definition MemL :: "string \<Rightarrow> Type \<Rightarrow> MArgument" where
  "MemL lab ty = marg0\<lparr>ma_type := AT_MemLabel, ma_ty := ty, ma_label := Some lab\<rparr>"

definition MemLO :: "string \<Rightarrow> u64 \<Rightarrow> Type \<Rightarrow> MArgument" where
  "MemLO lab off ty = marg0\<lparr>ma_type := AT_MemImmLabel, ma_ty := ty, ma_label := Some lab, ma_imm := off\<rparr>"

definition MemLI :: "string \<Rightarrow> VReg \<Rightarrow> Type \<Rightarrow> MArgument" where
  "MemLI lab off ty = marg0\<lparr>ma_type := AT_MemLabelVreg, ma_ty := ty, ma_label := Some lab, ma_indx := off\<rparr>"

definition MemLIS :: "string \<Rightarrow> VReg \<Rightarrow> u32 \<Rightarrow> Type \<Rightarrow> MArgument" where
  "MemLIS lab off scale ty = marg0\<lparr>ma_type := AT_MemLabelVregScale, ma_ty := ty, ma_label := Some lab,
     ma_indx := off, ma_scale := ucast scale\<rparr>"

definition MemO :: "u64 \<Rightarrow> Type \<Rightarrow> MArgument" where
  "MemO off ty = marg0\<lparr>ma_type := AT_MemImm, ma_ty := ty, ma_imm := off\<rparr>"

definition MemB :: "VReg \<Rightarrow> Type \<Rightarrow> MArgument" where
  "MemB r ty = marg0\<lparr>ma_type := AT_MemVReg, ma_ty := ty, ma_reg := r\<rparr>"

definition MemOB :: "u64 \<Rightarrow> VReg \<Rightarrow> Type \<Rightarrow> MArgument" where
  "MemOB off r ty = marg0\<lparr>ma_type := AT_MemImmVReg, ma_ty := ty, ma_imm := off, ma_reg := r\<rparr>"

definition MemBI :: "VReg \<Rightarrow> VReg \<Rightarrow> Type \<Rightarrow> MArgument" where
  "MemBI r i ty = marg0\<lparr>ma_type := AT_MemVRegVReg, ma_ty := ty, ma_reg := r, ma_indx := i\<rparr>"

definition MemBIS :: "VReg \<Rightarrow> VReg \<Rightarrow> u32 \<Rightarrow> Type \<Rightarrow> MArgument" where
  "MemBIS r i scale ty = marg0\<lparr>ma_type := AT_MemVRegVRegScale, ma_ty := ty, ma_reg := r, ma_indx := i,
     ma_scale := ucast scale\<rparr>"

definition MemOBI :: "u64 \<Rightarrow> VReg \<Rightarrow> VReg \<Rightarrow> Type \<Rightarrow> MArgument" where
  "MemOBI off r i ty = marg0\<lparr>ma_type := AT_MemImmVRegVReg, ma_ty := ty, ma_reg := r, ma_indx := i,
     ma_imm := off\<rparr>"

definition MemOBIS :: "u64 \<Rightarrow> VReg \<Rightarrow> VReg \<Rightarrow> u32 \<Rightarrow> Type \<Rightarrow> MArgument" where
  "MemOBIS off r i scale ty = marg0\<lparr>ma_type := AT_MemImmVRegVRegScale, ma_ty := ty, ma_reg := r,
     ma_indx := i, ma_scale := ucast scale, ma_imm := off\<rparr>"

definition MemOIS :: "u64 \<Rightarrow> VReg \<Rightarrow> u32 \<Rightarrow> Type \<Rightarrow> MArgument" where
  "MemOIS off i scale ty = marg0\<lparr>ma_type := AT_MemImmVRegScale, ma_ty := ty, ma_imm := off, ma_indx := i,
     ma_scale := ucast scale\<rparr>"

definition isReg :: "MArgument \<Rightarrow> bool" where "isReg a = (ma_type a = AT_VReg)"

definition isImm :: "MArgument \<Rightarrow> bool" where "isImm a = (ma_type a = AT_Imm)"

definition isStackSlot :: "MArgument \<Rightarrow> bool" where "isStackSlot a = (ma_type a = AT_StackSlot)"

definition isLabel :: "MArgument \<Rightarrow> bool" where "isLabel a = (ma_type a = AT_Label)"

definition isMem :: "MArgument \<Rightarrow> bool" where
  "isMem a = (case ma_type a of
     AT_Imm \<Rightarrow> False | AT_VReg \<Rightarrow> False | AT_Label \<Rightarrow> False
   | AT_StackSlot \<Rightarrow> True | AT_MemVReg \<Rightarrow> True | AT_MemVRegVReg \<Rightarrow> True | AT_MemImm \<Rightarrow> True
   | AT_MemImmVReg \<Rightarrow> True | AT_MemImmVRegVReg \<Rightarrow> True | AT_MemVRegVRegScale \<Rightarrow> True
   | AT_MemImmVRegScale \<Rightarrow> True | AT_MemImmVRegVRegScale \<Rightarrow> True | AT_MemLabel \<Rightarrow> True
   | AT_MemImmLabel \<Rightarrow> True | AT_MemLabelVreg \<Rightarrow> True | AT_MemLabelVregScale \<Rightarrow> True)"

definition marg_eq :: "MArgument \<Rightarrow> MArgument \<Rightarrow> bool" where
  "marg_eq a b = (ma_type a = ma_type b \<and> ma_ty a = ma_ty b \<and> (case ma_type a of
     AT_MemLabel \<Rightarrow> ma_label a = ma_label b
   | AT_Label \<Rightarrow> ma_label a = ma_label b
   | AT_MemImm \<Rightarrow> ma_imm a = ma_imm b
   | AT_Imm \<Rightarrow> ma_imm a = ma_imm b
   | AT_StackSlot \<Rightarrow> ma_imm a = ma_imm b
   | AT_VReg \<Rightarrow> vreg_eq (ma_reg a) (ma_reg b)
   | AT_MemVReg \<Rightarrow> vreg_eq (ma_reg a) (ma_reg b)
   | AT_MemImmVReg \<Rightarrow> vreg_eq (ma_reg a) (ma_reg b) \<and> ma_imm a = ma_imm b
   | AT_MemImmVRegScale \<Rightarrow> vreg_eq (ma_indx a) (ma_indx b) \<and> ma_scale a = ma_scale b \<and> ma_imm a = ma_imm b
   | AT_MemVRegVReg \<Rightarrow> vreg_eq (ma_reg a) (ma_reg b) \<and> vreg_eq (ma_indx a) (ma_indx b)
   | AT_MemImmVRegVReg \<Rightarrow> vreg_eq (ma_reg a) (ma_reg b) \<and> vreg_eq (ma_indx a) (ma_indx b) \<and> ma_imm a = ma_imm b
   | AT_MemVRegVRegScale \<Rightarrow> vreg_eq (ma_reg a) (ma_reg b) \<and> vreg_eq (ma_indx a) (ma_indx b) \<and> ma_scale a = ma_scale b
   | AT_MemImmVRegVRegScale \<Rightarrow> vreg_eq (ma_reg a) (ma_reg b) \<and> vreg_eq (ma_indx a) (ma_indx b) \<and> ma_imm a = ma_imm b
       \<and> ma_scale a = ma_scale b
   | AT_MemImmLabel \<Rightarrow> ma_label a = ma_label b \<and> ma_imm a = ma_imm b
   | AT_MemLabelVreg \<Rightarrow> ma_label a = ma_label b \<and> vreg_eq (ma_indx a) (ma_indx b)
   | AT_MemLabelVregScale \<Rightarrow> ma_label a = ma_label b \<and> vreg_eq (ma_indx a) (ma_indx b) \<and> ma_scale a = ma_scale b))"

definition uses_same_vreg :: "MArgument \<Rightarrow> VReg \<Rightarrow> bool" where
  "uses_same_vreg a r = (case ma_type a of
     AT_Imm \<Rightarrow> False | AT_MemImm \<Rightarrow> False | AT_Label \<Rightarrow> False | AT_MemLabel \<Rightarrow> False
   | AT_MemImmLabel \<Rightarrow> False | AT_StackSlot \<Rightarrow> False
   | AT_VReg \<Rightarrow> vreg_eq (ma_reg a) r | AT_MemVReg \<Rightarrow> vreg_eq (ma_reg a) r
   | AT_MemImmVReg \<Rightarrow> vreg_eq (ma_reg a) r
   | AT_MemLabelVreg \<Rightarrow> vreg_eq (ma_indx a) r | AT_MemLabelVregScale \<Rightarrow> vreg_eq (ma_indx a) r
   | AT_MemImmVRegScale \<Rightarrow> vreg_eq (ma_indx a) r
   | AT_MemImmVRegVReg \<Rightarrow> vreg_eq (ma_reg a) r \<or> vreg_eq (ma_indx a) r
   | AT_MemVRegVRegScale \<Rightarrow> vreg_eq (ma_reg a) r \<or> vreg_eq (ma_indx a) r
   | AT_MemVRegVReg \<Rightarrow> vreg_eq (ma_reg a) r \<or> vreg_eq (ma_indx a) r
   | AT_MemImmVRegVRegScale \<Rightarrow> vreg_eq (ma_reg a) r \<or> vreg_eq (ma_indx a) r)"

definition uses_same_vreg_arg :: "MArgument \<Rightarrow> MArgument \<Rightarrow> bool" where
  "uses_same_vreg_arg a b = (case ma_type b of
     AT_Imm \<Rightarrow> False | AT_MemImm \<Rightarrow> False | AT_Label \<Rightarrow> False | AT_MemLabel \<Rightarrow> False
   | AT_StackSlot \<Rightarrow> False | AT_MemImmLabel \<Rightarrow> False
   | AT_VReg \<Rightarrow> uses_same_vreg a (ma_reg b) | AT_MemVReg \<Rightarrow> uses_same_vreg a (ma_reg b)
   | AT_MemImmVReg \<Rightarrow> uses_same_vreg a (ma_reg b)
   | AT_MemImmVRegScale \<Rightarrow> uses_same_vreg a (ma_indx b)
   | AT_MemLabelVreg \<Rightarrow> uses_same_vreg a (ma_indx b)
   | AT_MemLabelVregScale \<Rightarrow> uses_same_vreg a (ma_indx b)
   | AT_MemImmVRegVReg \<Rightarrow> uses_same_vreg a (ma_reg b) \<or> uses_same_vreg a (ma_indx b)
   | AT_MemVRegVRegScale \<Rightarrow> uses_same_vreg a (ma_reg b) \<or> uses_same_vreg a (ma_indx b)
   | AT_MemVRegVReg \<Rightarrow> uses_same_vreg a (ma_reg b) \<or> uses_same_vreg a (ma_indx b)
   | AT_MemImmVRegVRegScale \<Rightarrow> uses_same_vreg a (ma_reg b) \<or> uses_same_vreg a (ma_indx b))"

definition uses_vreg :: "MArgument \<Rightarrow> bool" where
  "uses_vreg a = (case ma_type a of
     AT_MemImmLabel \<Rightarrow> False | AT_Imm \<Rightarrow> False | AT_Label \<Rightarrow> False | AT_MemImm \<Rightarrow> False
   | AT_MemLabel \<Rightarrow> False | AT_StackSlot \<Rightarrow> False
   | AT_VReg \<Rightarrow> True | AT_MemVReg \<Rightarrow> True | AT_MemVRegVReg \<Rightarrow> True | AT_MemImmVReg \<Rightarrow> True
   | AT_MemImmVRegVReg \<Rightarrow> True | AT_MemVRegVRegScale \<Rightarrow> True | AT_MemImmVRegScale \<Rightarrow> True
   | AT_MemImmVRegVRegScale \<Rightarrow> True | AT_MemLabelVreg \<Rightarrow> True | AT_MemLabelVregScale \<Rightarrow> True)"

definition is_fp :: "MArgument \<Rightarrow> bool" where
  "is_fp a = (ma_ty a = Ty_Float32 \<or> ma_ty a = Ty_Float64)"

definition is_int :: "MArgument \<Rightarrow> bool" where
  "is_int a = (case ma_ty a of
     Ty_INVALID \<Rightarrow> False | Ty_Float32 \<Rightarrow> False | Ty_Float64 \<Rightarrow> False | Ty_Float32x2 \<Rightarrow> False
   | Ty_Float32x4 \<Rightarrow> False | Ty_Float64x2 \<Rightarrow> False | Ty_Float32x8 \<Rightarrow> False | Ty_Float64x4 \<Rightarrow> False
   | Ty_Float32x16 \<Rightarrow> False | Ty_Float64x8 \<Rightarrow> False
   | Ty_Int8 \<Rightarrow> True | Ty_Int16 \<Rightarrow> True | Ty_Int32 \<Rightarrow> True | Ty_Int64 \<Rightarrow> True | Ty_Int32x4 \<Rightarrow> True
   | Ty_Int64x2 \<Rightarrow> True | Ty_Int32x8 \<Rightarrow> True | Ty_Int64x4 \<Rightarrow> True | Ty_Int32x16 \<Rightarrow> True
   | Ty_Int64x8 \<Rightarrow> True | Ty_Int8x16 \<Rightarrow> True | Ty_Int16x8 \<Rightarrow> True | Ty_Int8x32 \<Rightarrow> True
   | Ty_Int16x16 \<Rightarrow> True | Ty_Int8x4 \<Rightarrow> True | Ty_Int8x8 \<Rightarrow> True | Ty_Int16x4 \<Rightarrow> True
   | Ty_Int32x2 \<Rightarrow> True)"

definition marg_is_vec_reg :: "MArgument \<Rightarrow> bool" where
  "marg_is_vec_reg a = (Ty_Float32 \<le> ma_ty a)"

section \<open>Instructions\<close>

text \<open>
  \<open>mi_args\<close> is the array \<^verbatim>\<open>MArgument args[4]\<close>: it always has four elements, the ones from
  \<open>mi_n_args\<close> on are default operands.
\<close>

record MInstr =
  mi_has_bb_ref :: bool
  mi_is_var_arg_call :: bool
  mi_is_arg_reload :: bool
  mi_n_args :: nat
  mi_op :: GOpcode
  mi_bb_ref :: nat
  mi_args :: "MArgument list"

definition minstr_eq :: "MInstr \<Rightarrow> MInstr \<Rightarrow> bool" where
  "minstr_eq x y =
     (if mi_op x \<noteq> mi_op y then False
      else if mi_has_bb_ref x \<noteq> mi_has_bb_ref y \<or> mi_is_var_arg_call x \<noteq> mi_is_var_arg_call y
          \<or> mi_n_args x \<noteq> mi_n_args y then False
      else if \<not> list_all (\<lambda>i. marg_eq (mi_args x ! i) (mi_args y ! i)) [0..<mi_n_args x] then False
      else \<not> mi_has_bb_ref x \<or> mi_bb_ref x = mi_bb_ref y)"

text \<open>The constructors with zero to four operands.\<close>

definition mk_instr :: "GOpcode \<Rightarrow> MArgument list \<Rightarrow> MInstr" where
  "mk_instr op as = \<lparr>mi_has_bb_ref = False, mi_is_var_arg_call = False, mi_is_arg_reload = False,
     mi_n_args = length as, mi_op = op, mi_bb_ref = 0, mi_args = take 4 (as @ replicate 4 marg0)\<rparr>"

definition MInstr_jmp :: "nat \<Rightarrow> MInstr" where
  "MInstr_jmp bb = (mk_instr (GJmp GJmp_jmp) [])\<lparr>mi_bb_ref := bb, mi_has_bb_ref := True\<rparr>"

definition MInstr_cJmp :: "MArgument \<Rightarrow> nat \<Rightarrow> MInstr" where
  "MInstr_cJmp c bb = (mk_instr (GJmp GJmp_cjmp) [c])\<lparr>mi_bb_ref := bb, mi_has_bb_ref := True\<rparr>"

definition cond_jump :: "GJumpSubtype \<Rightarrow> MArgument \<Rightarrow> MArgument \<Rightarrow> nat \<Rightarrow> MInstr" where
  "cond_jump sub v1 v2 bb = (mk_instr (GJmp sub) [v1, v2])\<lparr>mi_bb_ref := bb, mi_has_bb_ref := True\<rparr>"

text \<open>The comparison of two floats of the IR (\<^verbatim>\<open>src/src/ir/instruction_data.hpp\<close>).\<close>

datatype (plugins only: code) FCmpInstrSubType =
    FCmp_INVALID | FCmp_AlwFalse | FCmp_OEQ | FCmp_OGT | FCmp_OGE | FCmp_OLT | FCmp_OLE | FCmp_ONE
  | FCmp_ORD | FCmp_UNO | FCmp_UEQ | FCmp_UGT | FCmp_UGE | FCmp_ULT | FCmp_ULE | FCmp_UNE | FCmp_AlwTrue | FCmp_IsNaN

primrec flt_jump :: "FCmpInstrSubType \<Rightarrow> GJumpSubtype option" where
  "flt_jump FCmp_INVALID = None"
| "flt_jump FCmp_AlwFalse = None"
| "flt_jump FCmp_OEQ = Some GJmp_cjmp_flt_oeq"
| "flt_jump FCmp_OGT = Some GJmp_cjmp_flt_ogt"
| "flt_jump FCmp_OGE = Some GJmp_cjmp_flt_oge"
| "flt_jump FCmp_OLT = Some GJmp_cjmp_flt_olt"
| "flt_jump FCmp_OLE = Some GJmp_cjmp_flt_ole"
| "flt_jump FCmp_ONE = Some GJmp_cjmp_flt_one"
| "flt_jump FCmp_ORD = Some GJmp_cjmp_flt_ord"
| "flt_jump FCmp_UNO = Some GJmp_cjmp_flt_uno"
| "flt_jump FCmp_UEQ = Some GJmp_cjmp_flt_ueq"
| "flt_jump FCmp_UGT = Some GJmp_cjmp_flt_ugt"
| "flt_jump FCmp_UGE = Some GJmp_cjmp_flt_uge"
| "flt_jump FCmp_ULT = Some GJmp_cjmp_flt_ult"
| "flt_jump FCmp_ULE = Some GJmp_cjmp_flt_ule"
| "flt_jump FCmp_UNE = Some GJmp_cjmp_flt_une"
| "flt_jump FCmp_AlwTrue = None"
| "flt_jump FCmp_IsNaN = None"

definition cJmp_flt :: "MArgument \<Rightarrow> MArgument \<Rightarrow> nat \<Rightarrow> FCmpInstrSubType \<Rightarrow> MInstr option" where
  "cJmp_flt v1 v2 bb cmp = (case flt_jump cmp of
     None \<Rightarrow> None
   | Some sub \<Rightarrow> Some ((mk_instr (GJmp sub) [v1, v2])\<lparr>mi_bb_ref := bb, mi_has_bb_ref := True\<rparr>))"

definition minstr_uses_vreg :: "MInstr \<Rightarrow> VReg \<Rightarrow> bool" where
  "minstr_uses_vreg x r = list_ex (\<lambda>i. uses_same_vreg (mi_args x ! i) r) [0..<mi_n_args x]"

record MBB =
  bb_instrs :: "MInstr list"

record MFunc =
  mf_bbs :: "MBB list"
  mf_args :: "VReg list"

section \<open>Laws\<close>

lemma vreg_eq_refl [simp]: "vreg_eq r r"
  by (simp add: vreg_eq_def split: VReg.split)

lemma vreg_eq_sym: "vreg_eq a b \<longleftrightarrow> vreg_eq b a"
  by (auto simp: vreg_eq_def split: VReg.split)

lemma vreg_eq_trans: "vreg_eq a b \<Longrightarrow> vreg_eq b c \<Longrightarrow> vreg_eq a c"
  by (auto simp: vreg_eq_def split: VReg.splits)

lemma vreg_eq_cong: "vreg_eq a b \<Longrightarrow> vreg_eq a c \<longleftrightarrow> vreg_eq b c"
  using vreg_eq_sym vreg_eq_trans by blast

lemma vreg_eq_retype [simp]: "vreg_eq (retype r ty) s \<longleftrightarrow> vreg_eq r s"
  by (auto simp: vreg_eq_def retype_def split: VReg.split)

text \<open>The registers an operand names, each spelled out once.\<close>

definition arg_regs :: "MArgument \<Rightarrow> VReg list" where
  "arg_regs a =
     (if ma_type a \<in> {AT_VReg, AT_MemVReg, AT_MemImmVReg} then [ma_reg a]
      else if ma_type a \<in> {AT_MemImmVRegScale, AT_MemLabelVreg, AT_MemLabelVregScale} then [ma_indx a]
      else if ma_type a \<in> {AT_MemVRegVReg, AT_MemImmVRegVReg, AT_MemVRegVRegScale, AT_MemImmVRegVRegScale}
      then [ma_reg a, ma_indx a] else [])"

lemma uses_same_vreg_iff: "uses_same_vreg a r \<longleftrightarrow> (\<exists>s \<in> set (arg_regs a). vreg_eq s r)"
  by (cases "ma_type a") (auto simp: uses_same_vreg_def arg_regs_def)

lemma uses_same_vreg_arg_iff:
  "uses_same_vreg_arg a b \<longleftrightarrow> (\<exists>s \<in> set (arg_regs a). \<exists>r \<in> set (arg_regs b). vreg_eq s r)"
  by (cases "ma_type b") (auto simp: uses_same_vreg_arg_def uses_same_vreg_iff arg_regs_def)

lemma uses_vreg_iff: "uses_vreg a \<longleftrightarrow> arg_regs a \<noteq> []"
  by (simp add: uses_vreg_def arg_regs_def split: ArgumentType.split)

lemma isReg_regs: "isReg a \<Longrightarrow> arg_regs a = [ma_reg a]"
  by (simp add: isReg_def arg_regs_def)

lemma marg_eq_refl [simp]: "marg_eq a a"
  by (simp add: marg_eq_def split: ArgumentType.split)

lemma marg_eq_sym: "marg_eq a b \<longleftrightarrow> marg_eq b a"
  by (cases "ma_type a"; cases "ma_type b") (auto simp: marg_eq_def vreg_eq_sym)

lemma marg_eq_trans: "marg_eq a b \<Longrightarrow> marg_eq b c \<Longrightarrow> marg_eq a c"
  by (cases "ma_type a") (auto simp: marg_eq_def intro: vreg_eq_trans)

lemma marg_eq_uses: "marg_eq a b \<Longrightarrow> uses_same_vreg a r \<longleftrightarrow> uses_same_vreg b r"
  by (cases "ma_type a") (auto simp: marg_eq_def uses_same_vreg_def dest: vreg_eq_cong)

lemma length_mk_instr [simp]: "length (mi_args (mk_instr op as)) = 4"
  by (simp add: mk_instr_def)

lemma mk_instr_sel [simp]: "mi_op (mk_instr op as) = op" "mi_n_args (mk_instr op as) = length as"
  "mi_has_bb_ref (mk_instr op as) = False"
  by (simp_all add: mk_instr_def)

end
