(* ===== verification/MIRTables.thy ===== *)
theory MIRTables
  imports MIRData "HOL-Library.Monad_Syntax"
begin

text \<open>
  The tables of \<^verbatim>\<open>src/src/mir/instr.cpp\<close>: the printed name of an opcode, the operands an
  instruction writes (\<^verbatim>\<open>written_args\<close>) and reads (\<^verbatim>\<open>read_args\<close>), which opcodes transfer control, and
  the verifier. A switch of the code is a function by cases on the subtype, in the order of the
  source; the labels that share a body are written out.
\<close>

section \<open>Names\<close>

primrec name_GBase :: "GBaseSubtype \<Rightarrow> string" where
  "name_GBase GBase_INVALID = ''INVALID''"
| "name_GBase GBase_unreach = ''unreach''"
| "name_GBase GBase_mov = ''mov''"
| "name_GBase GBase_push = ''push''"
| "name_GBase GBase_pop = ''pop''"
| "name_GBase GBase_stack_arg_load = ''stack_arg_load''"
| "name_GBase GBase_call = ''call''"
| "name_GBase GBase_ret = ''ret''"
| "name_GBase GBase_arg_setup = ''arg_setup''"
| "name_GBase GBase_ret_setup = ''ret_setup''"
| "name_GBase GBase_invoke = ''invoke''"
| "name_GBase GBase_asm_in = ''asm_in''"
| "name_GBase GBase_inline_asm = ''inline_asm''"
| "name_GBase GBase_asm_out = ''asm_out''"

primrec name_GJmp :: "GJumpSubtype \<Rightarrow> string" where
  "name_GJmp GJmp_INVALID = ''INVALID''"
| "name_GJmp GJmp_icmp_slt = ''icmp_slt''"
| "name_GJmp GJmp_icmp_eq = ''icmp_eq''"
| "name_GJmp GJmp_icmp_ult = ''icmp_ult''"
| "name_GJmp GJmp_icmp_ne = ''icmp_ne''"
| "name_GJmp GJmp_icmp_sgt = ''icmp_sgt''"
| "name_GJmp GJmp_icmp_ugt = ''icmp_ugt''"
| "name_GJmp GJmp_icmp_uge = ''icmp_uge''"
| "name_GJmp GJmp_icmp_ule = ''icmp_ule''"
| "name_GJmp GJmp_icmp_sge = ''icmp_sge''"
| "name_GJmp GJmp_icmp_sle = ''icmp_sle''"
| "name_GJmp GJmp_fcmp_isNaN = ''fcmp_isNaN''"
| "name_GJmp GJmp_fcmp_oeq = ''fcmp_oeq''"
| "name_GJmp GJmp_fcmp_ogt = ''fcmp_ogt''"
| "name_GJmp GJmp_fcmp_oge = ''fcmp_oge''"
| "name_GJmp GJmp_fcmp_olt = ''fcmp_olt''"
| "name_GJmp GJmp_fcmp_ole = ''fcmp_ole''"
| "name_GJmp GJmp_fcmp_one = ''fcmp_one''"
| "name_GJmp GJmp_fcmp_ord = ''fcmp_ord''"
| "name_GJmp GJmp_fcmp_uno = ''fcmp_uno''"
| "name_GJmp GJmp_fcmp_ueq = ''fcmp_ueq''"
| "name_GJmp GJmp_fcmp_ugt = ''fcmp_ugt''"
| "name_GJmp GJmp_fcmp_uge = ''fcmp_uge''"
| "name_GJmp GJmp_fcmp_ult = ''fcmp_ult''"
| "name_GJmp GJmp_fcmp_ule = ''fcmp_ule''"
| "name_GJmp GJmp_fcmp_une = ''fcmp_une''"
| "name_GJmp GJmp_cjmp_and = ''cjmp_and''"
| "name_GJmp GJmp_cjmp_or = ''cjmp_or''"
| "name_GJmp GJmp_cjmp_int_slt = ''cjmp_int_slt''"
| "name_GJmp GJmp_cjmp_int_sge = ''cjmp_int_sge''"
| "name_GJmp GJmp_cjmp_int_sle = ''cjmp_int_sle''"
| "name_GJmp GJmp_cjmp_int_sgt = ''cjmp_int_sgt''"
| "name_GJmp GJmp_cjmp_int_ult = ''cjmp_int_ult''"
| "name_GJmp GJmp_cjmp_int_ule = ''cjmp_int_ule''"
| "name_GJmp GJmp_cjmp_int_ugt = ''cjmp_int_ugt''"
| "name_GJmp GJmp_cjmp_int_uge = ''cjmp_int_uge''"
| "name_GJmp GJmp_cjmp_int_ne = ''cjmp_int_ne''"
| "name_GJmp GJmp_cjmp_int_eq = ''cjmp_int_eq''"
| "name_GJmp GJmp_cjmp_flt_oeq = ''cjmp_flt_oeq''"
| "name_GJmp GJmp_cjmp_flt_ogt = ''cjmp_flt_ogt''"
| "name_GJmp GJmp_cjmp_flt_oge = ''cjmp_flt_oge''"
| "name_GJmp GJmp_cjmp_flt_olt = ''cjmp_flt_olt''"
| "name_GJmp GJmp_cjmp_flt_ole = ''cjmp_flt_ole''"
| "name_GJmp GJmp_cjmp_flt_one = ''cjmp_flt_one''"
| "name_GJmp GJmp_cjmp_flt_ord = ''cjmp_flt_ord''"
| "name_GJmp GJmp_cjmp_flt_uno = ''cjmp_flt_uno''"
| "name_GJmp GJmp_cjmp_flt_ueq = ''cjmp_flt_ueq''"
| "name_GJmp GJmp_cjmp_flt_ugt = ''cjmp_flt_ugt''"
| "name_GJmp GJmp_cjmp_flt_uge = ''cjmp_flt_uge''"
| "name_GJmp GJmp_cjmp_flt_ult = ''cjmp_flt_ult''"
| "name_GJmp GJmp_cjmp_flt_ule = ''cjmp_flt_ule''"
| "name_GJmp GJmp_cjmp_flt_une = ''cjmp_flt_une''"
| "name_GJmp GJmp_cjmp = ''cjmp''"
| "name_GJmp GJmp_jmp = ''jmp''"

primrec name_GConv :: "GConvSubtype \<Rightarrow> string" where
  "name_GConv GConv_INVALID = ''INVALID''"
| "name_GConv GConv_SI2FL = ''SI2FL''"
| "name_GConv GConv_UI2FL = ''UI2FL''"
| "name_GConv GConv_FL2SI = ''FL2SI''"
| "name_GConv GConv_FL2UI = ''FL2UI''"
| "name_GConv GConv_F64_ext = ''F64_ext''"
| "name_GConv GConv_F32_trunc = ''F32_trunc''"
| "name_GConv GConv_itrunc = ''itrunc''"
| "name_GConv GConv_mov_zx = ''mov_zx''"
| "name_GConv GConv_mov_sx = ''mov_sx''"

primrec name_GArith :: "GArithSubtype \<Rightarrow> string" where
  "name_GArith GArith_INVALID = ''INVALID''"
| "name_GArith GArith_abs = ''abs''"
| "name_GArith GArith_shl2 = ''shl2''"
| "name_GArith GArith_shr2 = ''shr2''"
| "name_GArith GArith_sar2 = ''sar2''"
| "name_GArith GArith_land2 = ''land2''"
| "name_GArith GArith_lor2 = ''lor2''"
| "name_GArith GArith_lxor2 = ''lxor2''"
| "name_GArith GArith_add2 = ''add2''"
| "name_GArith GArith_sub2 = ''sub2''"
| "name_GArith GArith_mul2 = ''mul2''"
| "name_GArith GArith_not1 = ''not1''"
| "name_GArith GArith_neg1 = ''neg1''"
| "name_GArith GArith_idiv = ''idiv''"
| "name_GArith GArith_udiv = ''udiv''"
| "name_GArith GArith_smul3 = ''smul3''"
| "name_GArith GArith_umulh = ''umulh''"
| "name_GArith GArith_smulh = ''smulh''"

primrec name_GCMov :: "GCMovSubtype \<Rightarrow> string" where
  "name_GCMov GCMov_INVALID = ''INVALID''"
| "name_GCMov GCMov_cmov = ''cmov''"
| "name_GCMov GCMov_cmov_ns = ''cmov_ns''"
| "name_GCMov GCMov_cmov_sgt = ''cmov_sgt''"
| "name_GCMov GCMov_cmov_slt = ''cmov_slt''"
| "name_GCMov GCMov_cmov_ult = ''cmov_ult''"
| "name_GCMov GCMov_cmov_sge = ''cmov_sge''"
| "name_GCMov GCMov_cmov_sle = ''cmov_sle''"
| "name_GCMov GCMov_cmov_ne = ''cmov_ne''"
| "name_GCMov GCMov_cmov_eq = ''cmov_eq''"
| "name_GCMov GCMov_cmov_ugt = ''cmov_ugt''"
| "name_GCMov GCMov_cmov_uge = ''cmov_uge''"
| "name_GCMov GCMov_cmov_ule = ''cmov_ule''"

primrec name_GVec :: "GVecSubtype \<Rightarrow> string" where
  "name_GVec GVec_INVALID = ''INVALID''"
| "name_GVec GVec_vadd = ''vadd''"
| "name_GVec GVec_vsub = ''vsub''"
| "name_GVec GVec_vmul = ''vmul''"
| "name_GVec GVec_vdiv = ''vdiv''"
| "name_GVec GVec_ffmadd = ''ffmadd''"
| "name_GVec GVec_vXor = ''vXor''"
| "name_GVec GVec_vAnd = ''vAnd''"
| "name_GVec GVec_vOr = ''vOr''"
| "name_GVec GVec_vShl = ''vShl''"
| "name_GVec GVec_vShr = ''vShr''"
| "name_GVec GVec_vSar = ''vSar''"
| "name_GVec GVec_fMax = ''fMax''"
| "name_GVec GVec_fMin = ''fMin''"
| "name_GVec GVec_vSMin = ''vSMin''"
| "name_GVec GVec_vSMax = ''vSMax''"
| "name_GVec GVec_vUMin = ''vUMin''"
| "name_GVec GVec_vUMax = ''vUMax''"

primrec name_X86 :: "X86Subtype \<Rightarrow> string" where
  "name_X86 X86_INVALID = ''INVALID''"
| "name_X86 X86_vblendv = ''vblendv''"
| "name_X86 X86_vcmp = ''vcmp''"
| "name_X86 X86_psrl = ''psrl''"
| "name_X86 X86_psll = ''psll''"
| "name_X86 X86_psra = ''psra''"
| "name_X86 X86_pmuludq = ''pmuludq''"
| "name_X86 X86_padd = ''padd''"
| "name_X86 X86_lea = ''lea''"
| "name_X86 X86_LockXAdd2 = ''LockXAdd2''"
| "name_X86 X86_Xchg2 = ''Xchg2''"
| "name_X86 X86_LockAdd2 = ''LockAdd2''"
| "name_X86 X86_LockSub2 = ''LockSub2''"
| "name_X86 X86_LockAnd2 = ''LockAnd2''"
| "name_X86 X86_LockOr2 = ''LockOr2''"
| "name_X86 X86_LockXor2 = ''LockXor2''"
| "name_X86 X86_LockCmpXchg3 = ''LockCmpXchg3''"
| "name_X86 X86_vextract128 = ''vextract128''"
| "name_X86 X86_vinsert128 = ''vinsert128''"
| "name_X86 X86_vinsertps = ''vinsertps''"
| "name_X86 X86_vextractf64x2 = ''vextractf64x2''"
| "name_X86 X86_vextractf64x4 = ''vextractf64x4''"
| "name_X86 X86_movlhps = ''movlhps''"
| "name_X86 X86_movhlps = ''movhlps''"
| "name_X86 X86_vpermil = ''vpermil''"
| "name_X86 X86_sqrt = ''sqrt''"
| "name_X86 X86_vpabs = ''vpabs''"
| "name_X86 X86_vmovshdup = ''vmovshdup''"
| "name_X86 X86_HAdd = ''HAdd''"
| "name_X86 X86_vpshuf = ''vpshuf''"
| "name_X86 X86_vpshufb = ''vpshufb''"
| "name_X86 X86_punpckl = ''punpckl''"
| "name_X86 X86_vbroadcast = ''vbroadcast''"
| "name_X86 X86_tzcnt = ''tzcnt''"
| "name_X86 X86_lzcnt = ''lzcnt''"
| "name_X86 X86_popcnt = ''popcnt''"
| "name_X86 X86_bswap = ''bswap''"
| "name_X86 X86_vpextr = ''vpextr''"
| "name_X86 X86_vpinsr = ''vpinsr''"
| "name_X86 X86_ffmadd132 = ''ffmadd132''"
| "name_X86 X86_ffmadd213 = ''ffmadd213''"
| "name_X86 X86_ffmadd231 = ''ffmadd231''"
| "name_X86 X86_vgatherq = ''vgatherq''"
| "name_X86 X86_vgather = ''vgather''"
| "name_X86 X86_vpcmpeq = ''vpcmpeq''"
| "name_X86 X86_vpcmpgt = ''vpcmpgt''"
| "name_X86 X86_vpack = ''vpack''"
| "name_X86 X86_vshufps = ''vshufps''"
| "name_X86 X86_vpclmul = ''vpclmul''"
| "name_X86 X86_vpacks = ''vpacks''"
| "name_X86 X86_vpmulhw = ''vpmulhw''"
| "name_X86 X86_vpmaddwd = ''vpmaddwd''"
| "name_X86 X86_vpmaddubsw = ''vpmaddubsw''"
| "name_X86 X86_vpermd = ''vpermd''"
| "name_X86 X86_vmovmsk = ''vmovmsk''"
| "name_X86 X86_vmaskload = ''vmaskload''"
| "name_X86 X86_vmaskstore = ''vmaskstore''"
| "name_X86 X86_vround = ''vround''"
| "name_X86 X86_vzeroupper = ''vzeroupper''"
| "name_X86 X86_mfence = ''mfence''"
| "name_X86 X86_tls_base = ''tls_base''"

primrec getNameFromOpcode :: "GOpcode \<Rightarrow> string" where
  "getNameFromOpcode (GBase s) = name_GBase s"
| "getNameFromOpcode (GJmp s) = name_GJmp s"
| "getNameFromOpcode (GConv s) = name_GConv s"
| "getNameFromOpcode (GArith s) = name_GArith s"
| "getNameFromOpcode (GCMov s) = name_GCMov s"
| "getNameFromOpcode (GVec s) = name_GVec s"
| "getNameFromOpcode (X86 s) = name_X86 s"

section \<open>Written operands\<close>

text \<open>\<^verbatim>\<open>struct ArgData\<close>: the position of an operand and the operand.\<close>

type_synonym ArgData = "nat \<times> MArgument"

abbreviation arg_at :: "MArgument list \<Rightarrow> nat \<Rightarrow> ArgData" where "arg_at a i \<equiv> (i, a ! i)"

primrec written_GJmp :: "GJumpSubtype \<Rightarrow> MArgument list \<Rightarrow> ArgData list" where
  "written_GJmp GJmp_icmp_slt a = [arg_at a 0]"
| "written_GJmp GJmp_icmp_eq a = [arg_at a 0]"
| "written_GJmp GJmp_icmp_ult a = [arg_at a 0]"
| "written_GJmp GJmp_icmp_ne a = [arg_at a 0]"
| "written_GJmp GJmp_icmp_sgt a = [arg_at a 0]"
| "written_GJmp GJmp_icmp_ugt a = [arg_at a 0]"
| "written_GJmp GJmp_icmp_uge a = [arg_at a 0]"
| "written_GJmp GJmp_icmp_ule a = [arg_at a 0]"
| "written_GJmp GJmp_icmp_sge a = [arg_at a 0]"
| "written_GJmp GJmp_icmp_sle a = [arg_at a 0]"
| "written_GJmp GJmp_fcmp_isNaN a = [arg_at a 0]"
| "written_GJmp GJmp_fcmp_oeq a = [arg_at a 0]"
| "written_GJmp GJmp_fcmp_ogt a = [arg_at a 0]"
| "written_GJmp GJmp_fcmp_oge a = [arg_at a 0]"
| "written_GJmp GJmp_fcmp_olt a = [arg_at a 0]"
| "written_GJmp GJmp_fcmp_ole a = [arg_at a 0]"
| "written_GJmp GJmp_fcmp_one a = [arg_at a 0]"
| "written_GJmp GJmp_fcmp_ord a = [arg_at a 0]"
| "written_GJmp GJmp_fcmp_uno a = [arg_at a 0]"
| "written_GJmp GJmp_fcmp_ueq a = [arg_at a 0]"
| "written_GJmp GJmp_fcmp_ugt a = [arg_at a 0]"
| "written_GJmp GJmp_fcmp_uge a = [arg_at a 0]"
| "written_GJmp GJmp_fcmp_ult a = [arg_at a 0]"
| "written_GJmp GJmp_fcmp_ule a = [arg_at a 0]"
| "written_GJmp GJmp_fcmp_une a = [arg_at a 0]"
| "written_GJmp GJmp_INVALID a = []"
| "written_GJmp GJmp_cjmp_int_slt a = []"
| "written_GJmp GJmp_cjmp_int_sge a = []"
| "written_GJmp GJmp_cjmp_int_sle a = []"
| "written_GJmp GJmp_cjmp_int_sgt a = []"
| "written_GJmp GJmp_cjmp_int_ult a = []"
| "written_GJmp GJmp_cjmp_int_ule a = []"
| "written_GJmp GJmp_cjmp_int_ugt a = []"
| "written_GJmp GJmp_cjmp_int_uge a = []"
| "written_GJmp GJmp_cjmp_int_ne a = []"
| "written_GJmp GJmp_cjmp_int_eq a = []"
| "written_GJmp GJmp_cjmp_flt_oeq a = []"
| "written_GJmp GJmp_cjmp_flt_ogt a = []"
| "written_GJmp GJmp_cjmp_flt_oge a = []"
| "written_GJmp GJmp_cjmp_flt_olt a = []"
| "written_GJmp GJmp_cjmp_flt_ole a = []"
| "written_GJmp GJmp_cjmp_flt_one a = []"
| "written_GJmp GJmp_cjmp_flt_ord a = []"
| "written_GJmp GJmp_cjmp_flt_uno a = []"
| "written_GJmp GJmp_cjmp_flt_ueq a = []"
| "written_GJmp GJmp_cjmp_flt_ugt a = []"
| "written_GJmp GJmp_cjmp_flt_uge a = []"
| "written_GJmp GJmp_cjmp_flt_ult a = []"
| "written_GJmp GJmp_cjmp_flt_ule a = []"
| "written_GJmp GJmp_cjmp_flt_une a = []"
| "written_GJmp GJmp_cjmp_and a = []"
| "written_GJmp GJmp_cjmp_or a = []"
| "written_GJmp GJmp_cjmp a = []"
| "written_GJmp GJmp_jmp a = []"

primrec written_GConv :: "GConvSubtype \<Rightarrow> MArgument list \<Rightarrow> ArgData list" where
  "written_GConv GConv_SI2FL a = [arg_at a 0]"
| "written_GConv GConv_UI2FL a = [arg_at a 0]"
| "written_GConv GConv_FL2SI a = [arg_at a 0]"
| "written_GConv GConv_FL2UI a = [arg_at a 0]"
| "written_GConv GConv_F64_ext a = [arg_at a 0]"
| "written_GConv GConv_F32_trunc a = [arg_at a 0]"
| "written_GConv GConv_itrunc a = [arg_at a 0]"
| "written_GConv GConv_mov_zx a = [arg_at a 0]"
| "written_GConv GConv_mov_sx a = [arg_at a 0]"
| "written_GConv GConv_INVALID a = []"

primrec written_GCMov :: "GCMovSubtype \<Rightarrow> MArgument list \<Rightarrow> ArgData list" where
  "written_GCMov GCMov_INVALID a = []"
| "written_GCMov GCMov_cmov a = [arg_at a 0]"
| "written_GCMov GCMov_cmov_ns a = [arg_at a 0]"
| "written_GCMov GCMov_cmov_sgt a = [arg_at a 0]"
| "written_GCMov GCMov_cmov_slt a = [arg_at a 0]"
| "written_GCMov GCMov_cmov_ult a = [arg_at a 0]"
| "written_GCMov GCMov_cmov_sge a = [arg_at a 0]"
| "written_GCMov GCMov_cmov_sle a = [arg_at a 0]"
| "written_GCMov GCMov_cmov_ne a = [arg_at a 0]"
| "written_GCMov GCMov_cmov_eq a = [arg_at a 0]"
| "written_GCMov GCMov_cmov_ugt a = [arg_at a 0]"
| "written_GCMov GCMov_cmov_uge a = [arg_at a 0]"
| "written_GCMov GCMov_cmov_ule a = [arg_at a 0]"

primrec written_GArith :: "GArithSubtype \<Rightarrow> MArgument list \<Rightarrow> ArgData list" where
  "written_GArith GArith_INVALID a = []"
| "written_GArith GArith_abs a = [arg_at a 0]"
| "written_GArith GArith_shl2 a = [arg_at a 0]"
| "written_GArith GArith_shr2 a = [arg_at a 0]"
| "written_GArith GArith_sar2 a = [arg_at a 0]"
| "written_GArith GArith_land2 a = [arg_at a 0]"
| "written_GArith GArith_lor2 a = [arg_at a 0]"
| "written_GArith GArith_lxor2 a = [arg_at a 0]"
| "written_GArith GArith_add2 a = [arg_at a 0]"
| "written_GArith GArith_sub2 a = [arg_at a 0]"
| "written_GArith GArith_mul2 a = [arg_at a 0]"
| "written_GArith GArith_not1 a = [arg_at a 0]"
| "written_GArith GArith_neg1 a = [arg_at a 0]"
| "written_GArith GArith_smul3 a = [arg_at a 0]"
| "written_GArith GArith_idiv a = [arg_at a 0, arg_at a 1]"
| "written_GArith GArith_udiv a = [arg_at a 0, arg_at a 1]"
| "written_GArith GArith_umulh a = [arg_at a 0, arg_at a 1]"
| "written_GArith GArith_smulh a = [arg_at a 0, arg_at a 1]"

primrec written_GVec :: "GVecSubtype \<Rightarrow> MArgument list \<Rightarrow> ArgData list" where
  "written_GVec GVec_INVALID a = []"
| "written_GVec GVec_vadd a = [arg_at a 0]"
| "written_GVec GVec_fMax a = [arg_at a 0]"
| "written_GVec GVec_fMin a = [arg_at a 0]"
| "written_GVec GVec_vSMin a = [arg_at a 0]"
| "written_GVec GVec_vSMax a = [arg_at a 0]"
| "written_GVec GVec_vUMin a = [arg_at a 0]"
| "written_GVec GVec_vUMax a = [arg_at a 0]"
| "written_GVec GVec_vsub a = [arg_at a 0]"
| "written_GVec GVec_vmul a = [arg_at a 0]"
| "written_GVec GVec_vdiv a = [arg_at a 0]"
| "written_GVec GVec_ffmadd a = [arg_at a 0]"
| "written_GVec GVec_vXor a = [arg_at a 0]"
| "written_GVec GVec_vAnd a = [arg_at a 0]"
| "written_GVec GVec_vOr a = [arg_at a 0]"
| "written_GVec GVec_vShl a = [arg_at a 0]"
| "written_GVec GVec_vShr a = [arg_at a 0]"
| "written_GVec GVec_vSar a = [arg_at a 0]"

primrec written_X86 :: "X86Subtype \<Rightarrow> MArgument list \<Rightarrow> ArgData list" where
  "written_X86 X86_INVALID a = []"
| "written_X86 X86_vzeroupper a = []"
| "written_X86 X86_mfence a = []"
| "written_X86 X86_tls_base a = [arg_at a 0]"
| "written_X86 X86_lea a = [arg_at a 0]"
| "written_X86 X86_vextract128 a = [arg_at a 0]"
| "written_X86 X86_vinsert128 a = [arg_at a 0]"
| "written_X86 X86_vinsertps a = [arg_at a 0]"
| "written_X86 X86_vextractf64x4 a = [arg_at a 0]"
| "written_X86 X86_vextractf64x2 a = [arg_at a 0]"
| "written_X86 X86_vpermil a = [arg_at a 0]"
| "written_X86 X86_sqrt a = [arg_at a 0]"
| "written_X86 X86_vpabs a = [arg_at a 0]"
| "written_X86 X86_vmovmsk a = [arg_at a 0]"
| "written_X86 X86_HAdd a = [arg_at a 0]"
| "written_X86 X86_movlhps a = [arg_at a 0]"
| "written_X86 X86_movhlps a = [arg_at a 0]"
| "written_X86 X86_vpshuf a = [arg_at a 0]"
| "written_X86 X86_vpshufb a = [arg_at a 0]"
| "written_X86 X86_vpextr a = [arg_at a 0]"
| "written_X86 X86_vpinsr a = [arg_at a 0]"
| "written_X86 X86_punpckl a = [arg_at a 0]"
| "written_X86 X86_vbroadcast a = [arg_at a 0]"
| "written_X86 X86_popcnt a = [arg_at a 0]"
| "written_X86 X86_bswap a = [arg_at a 0]"
| "written_X86 X86_tzcnt a = [arg_at a 0]"
| "written_X86 X86_lzcnt a = [arg_at a 0]"
| "written_X86 X86_vmovshdup a = [arg_at a 0]"
| "written_X86 X86_vround a = [arg_at a 0]"
| "written_X86 X86_vblendv a = [arg_at a 0]"
| "written_X86 X86_vcmp a = [arg_at a 0]"
| "written_X86 X86_vshufps a = [arg_at a 0]"
| "written_X86 X86_vpclmul a = [arg_at a 0]"
| "written_X86 X86_ffmadd132 a = [arg_at a 0]"
| "written_X86 X86_ffmadd213 a = [arg_at a 0]"
| "written_X86 X86_ffmadd231 a = [arg_at a 0]"
| "written_X86 X86_vgatherq a = [arg_at a 0]"
| "written_X86 X86_vgather a = [arg_at a 0]"
| "written_X86 X86_vpcmpeq a = [arg_at a 0]"
| "written_X86 X86_vpack a = [arg_at a 0]"
| "written_X86 X86_vpacks a = [arg_at a 0]"
| "written_X86 X86_vpmulhw a = [arg_at a 0]"
| "written_X86 X86_vpmaddwd a = [arg_at a 0]"
| "written_X86 X86_vpmaddubsw a = [arg_at a 0]"
| "written_X86 X86_vpermd a = [arg_at a 0]"
| "written_X86 X86_vpcmpgt a = [arg_at a 0]"
| "written_X86 X86_vmaskload a = [arg_at a 0]"
| "written_X86 X86_vmaskstore a = [arg_at a 0]"
| "written_X86 X86_psrl a = [arg_at a 0]"
| "written_X86 X86_psll a = [arg_at a 0]"
| "written_X86 X86_psra a = [arg_at a 0]"
| "written_X86 X86_pmuludq a = [arg_at a 0]"
| "written_X86 X86_padd a = [arg_at a 0]"
| "written_X86 X86_LockXAdd2 a = [arg_at a 0, arg_at a 1]"
| "written_X86 X86_Xchg2 a = [arg_at a 0, arg_at a 1]"
| "written_X86 X86_LockAdd2 a = [arg_at a 0]"
| "written_X86 X86_LockSub2 a = [arg_at a 0]"
| "written_X86 X86_LockAnd2 a = [arg_at a 0]"
| "written_X86 X86_LockOr2 a = [arg_at a 0]"
| "written_X86 X86_LockXor2 a = [arg_at a 0]"
| "written_X86 X86_LockCmpXchg3 a = [arg_at a 0, arg_at a 2]"

primrec written_GBase :: "GBaseSubtype \<Rightarrow> MArgument list \<Rightarrow> ArgData list" where
  "written_GBase GBase_INVALID a = []"
| "written_GBase GBase_unreach a = []"
| "written_GBase GBase_mov a = [arg_at a 0]"
| "written_GBase GBase_stack_arg_load a = [arg_at a 0]"
| "written_GBase GBase_pop a = [arg_at a 0]"
| "written_GBase GBase_call a = []"
| "written_GBase GBase_push a = []"
| "written_GBase GBase_ret a = []"
| "written_GBase GBase_arg_setup a = []"
| "written_GBase GBase_asm_in a = []"
| "written_GBase GBase_inline_asm a = []"
| "written_GBase GBase_ret_setup a = [arg_at a 0]"
| "written_GBase GBase_asm_out a = [arg_at a 0]"
| "written_GBase GBase_invoke a = []"

definition written_args :: "MInstr \<Rightarrow> ArgData list" where
  "written_args x = (case mi_op x of
     GJmp s \<Rightarrow> written_GJmp s (mi_args x)
   | GConv s \<Rightarrow> written_GConv s (mi_args x)
   | GCMov s \<Rightarrow> written_GCMov s (mi_args x)
   | GArith s \<Rightarrow> written_GArith s (mi_args x)
   | GVec s \<Rightarrow> written_GVec s (mi_args x)
   | X86 s \<Rightarrow> written_X86 s (mi_args x)
   | GBase s \<Rightarrow> written_GBase s (mi_args x))"

section \<open>Read operands\<close>

primrec read_GBase :: "GBaseSubtype \<Rightarrow> nat \<Rightarrow> MArgument list \<Rightarrow> ArgData list" where
  "read_GBase GBase_INVALID n a = []"
| "read_GBase GBase_unreach n a = []"
| "read_GBase GBase_stack_arg_load n a = [arg_at a 1]"
| "read_GBase GBase_mov n a = [arg_at a 1]"
| "read_GBase GBase_push n a = [arg_at a 0]"
| "read_GBase GBase_call n a = [arg_at a 0]"
| "read_GBase GBase_invoke n a = [arg_at a 0]"
| "read_GBase GBase_arg_setup n a = [arg_at a 0]"
| "read_GBase GBase_asm_in n a = [arg_at a 0]"
| "read_GBase GBase_ret_setup n a = []"
| "read_GBase GBase_asm_out n a = []"
| "read_GBase GBase_inline_asm n a = []"
| "read_GBase GBase_pop n a = []"
| "read_GBase GBase_ret n a = map (arg_at a) [0..<n]"

primrec read_GJmp :: "GJumpSubtype \<Rightarrow> MArgument list \<Rightarrow> ArgData list" where
  "read_GJmp GJmp_INVALID a = []"
| "read_GJmp GJmp_jmp a = []"
| "read_GJmp GJmp_cjmp a = [arg_at a 0]"
| "read_GJmp GJmp_icmp_slt a = [arg_at a 1, arg_at a 2]"
| "read_GJmp GJmp_icmp_eq a = [arg_at a 1, arg_at a 2]"
| "read_GJmp GJmp_icmp_ult a = [arg_at a 1, arg_at a 2]"
| "read_GJmp GJmp_icmp_ne a = [arg_at a 1, arg_at a 2]"
| "read_GJmp GJmp_icmp_sgt a = [arg_at a 1, arg_at a 2]"
| "read_GJmp GJmp_icmp_ugt a = [arg_at a 1, arg_at a 2]"
| "read_GJmp GJmp_icmp_uge a = [arg_at a 1, arg_at a 2]"
| "read_GJmp GJmp_icmp_ule a = [arg_at a 1, arg_at a 2]"
| "read_GJmp GJmp_icmp_sge a = [arg_at a 1, arg_at a 2]"
| "read_GJmp GJmp_icmp_sle a = [arg_at a 1, arg_at a 2]"
| "read_GJmp GJmp_fcmp_isNaN a = [arg_at a 1, arg_at a 2]"
| "read_GJmp GJmp_fcmp_oeq a = [arg_at a 1, arg_at a 2]"
| "read_GJmp GJmp_fcmp_ogt a = [arg_at a 1, arg_at a 2]"
| "read_GJmp GJmp_fcmp_oge a = [arg_at a 1, arg_at a 2]"
| "read_GJmp GJmp_fcmp_olt a = [arg_at a 1, arg_at a 2]"
| "read_GJmp GJmp_fcmp_ole a = [arg_at a 1, arg_at a 2]"
| "read_GJmp GJmp_fcmp_one a = [arg_at a 1, arg_at a 2]"
| "read_GJmp GJmp_fcmp_ord a = [arg_at a 1, arg_at a 2]"
| "read_GJmp GJmp_fcmp_uno a = [arg_at a 1, arg_at a 2]"
| "read_GJmp GJmp_fcmp_ueq a = [arg_at a 1, arg_at a 2]"
| "read_GJmp GJmp_fcmp_ugt a = [arg_at a 1, arg_at a 2]"
| "read_GJmp GJmp_fcmp_uge a = [arg_at a 1, arg_at a 2]"
| "read_GJmp GJmp_fcmp_ult a = [arg_at a 1, arg_at a 2]"
| "read_GJmp GJmp_fcmp_ule a = [arg_at a 1, arg_at a 2]"
| "read_GJmp GJmp_fcmp_une a = [arg_at a 1, arg_at a 2]"
| "read_GJmp GJmp_cjmp_int_slt a = [arg_at a 0, arg_at a 1]"
| "read_GJmp GJmp_cjmp_int_sge a = [arg_at a 0, arg_at a 1]"
| "read_GJmp GJmp_cjmp_int_sle a = [arg_at a 0, arg_at a 1]"
| "read_GJmp GJmp_cjmp_int_sgt a = [arg_at a 0, arg_at a 1]"
| "read_GJmp GJmp_cjmp_int_ult a = [arg_at a 0, arg_at a 1]"
| "read_GJmp GJmp_cjmp_int_ule a = [arg_at a 0, arg_at a 1]"
| "read_GJmp GJmp_cjmp_int_ugt a = [arg_at a 0, arg_at a 1]"
| "read_GJmp GJmp_cjmp_int_uge a = [arg_at a 0, arg_at a 1]"
| "read_GJmp GJmp_cjmp_int_ne a = [arg_at a 0, arg_at a 1]"
| "read_GJmp GJmp_cjmp_int_eq a = [arg_at a 0, arg_at a 1]"
| "read_GJmp GJmp_cjmp_flt_oeq a = [arg_at a 0, arg_at a 1]"
| "read_GJmp GJmp_cjmp_flt_ogt a = [arg_at a 0, arg_at a 1]"
| "read_GJmp GJmp_cjmp_flt_oge a = [arg_at a 0, arg_at a 1]"
| "read_GJmp GJmp_cjmp_flt_olt a = [arg_at a 0, arg_at a 1]"
| "read_GJmp GJmp_cjmp_flt_ole a = [arg_at a 0, arg_at a 1]"
| "read_GJmp GJmp_cjmp_flt_one a = [arg_at a 0, arg_at a 1]"
| "read_GJmp GJmp_cjmp_flt_ord a = [arg_at a 0, arg_at a 1]"
| "read_GJmp GJmp_cjmp_flt_uno a = [arg_at a 0, arg_at a 1]"
| "read_GJmp GJmp_cjmp_flt_ueq a = [arg_at a 0, arg_at a 1]"
| "read_GJmp GJmp_cjmp_flt_ugt a = [arg_at a 0, arg_at a 1]"
| "read_GJmp GJmp_cjmp_flt_uge a = [arg_at a 0, arg_at a 1]"
| "read_GJmp GJmp_cjmp_flt_ult a = [arg_at a 0, arg_at a 1]"
| "read_GJmp GJmp_cjmp_flt_ule a = [arg_at a 0, arg_at a 1]"
| "read_GJmp GJmp_cjmp_flt_une a = [arg_at a 0, arg_at a 1]"
| "read_GJmp GJmp_cjmp_and a = [arg_at a 0, arg_at a 1]"
| "read_GJmp GJmp_cjmp_or a = [arg_at a 0, arg_at a 1]"

primrec read_GConv :: "GConvSubtype \<Rightarrow> MArgument list \<Rightarrow> ArgData list" where
  "read_GConv GConv_INVALID a = []"
| "read_GConv GConv_SI2FL a = [arg_at a 1]"
| "read_GConv GConv_UI2FL a = [arg_at a 1]"
| "read_GConv GConv_FL2SI a = [arg_at a 1]"
| "read_GConv GConv_FL2UI a = [arg_at a 1]"
| "read_GConv GConv_F64_ext a = [arg_at a 1]"
| "read_GConv GConv_F32_trunc a = [arg_at a 1]"
| "read_GConv GConv_itrunc a = [arg_at a 1]"
| "read_GConv GConv_mov_zx a = [arg_at a 1]"
| "read_GConv GConv_mov_sx a = [arg_at a 1]"

primrec read_GArith :: "GArithSubtype \<Rightarrow> MArgument list \<Rightarrow> ArgData list" where
  "read_GArith GArith_INVALID a = []"
| "read_GArith GArith_abs a = [arg_at a 1]"
| "read_GArith GArith_not1 a = [arg_at a 0]"
| "read_GArith GArith_neg1 a = [arg_at a 0]"
| "read_GArith GArith_lor2 a = (if marg_eq (a ! 0) (a ! 1) then [] else [arg_at a 0, arg_at a 1])"
| "read_GArith GArith_shl2 a = [arg_at a 0, arg_at a 1]"
| "read_GArith GArith_shr2 a = [arg_at a 0, arg_at a 1]"
| "read_GArith GArith_sar2 a = [arg_at a 0, arg_at a 1]"
| "read_GArith GArith_land2 a = [arg_at a 0, arg_at a 1]"
| "read_GArith GArith_lxor2 a = [arg_at a 0, arg_at a 1]"
| "read_GArith GArith_add2 a = [arg_at a 0, arg_at a 1]"
| "read_GArith GArith_sub2 a = [arg_at a 0, arg_at a 1]"
| "read_GArith GArith_mul2 a = [arg_at a 0, arg_at a 1]"
| "read_GArith GArith_smul3 a = [arg_at a 1, arg_at a 2]"
| "read_GArith GArith_idiv a = [arg_at a 2, arg_at a 3]"
| "read_GArith GArith_udiv a = [arg_at a 2, arg_at a 3]"
| "read_GArith GArith_umulh a = [arg_at a 2, arg_at a 3]"
| "read_GArith GArith_smulh a = [arg_at a 2, arg_at a 3]"

primrec read_GCMov :: "GCMovSubtype \<Rightarrow> MArgument list \<Rightarrow> ArgData list" where
  "read_GCMov GCMov_INVALID a = []"
| "read_GCMov GCMov_cmov a = [arg_at a 0, arg_at a 1, arg_at a 2]"
| "read_GCMov GCMov_cmov_ns a = [arg_at a 0, arg_at a 1, arg_at a 2, arg_at a 3]"
| "read_GCMov GCMov_cmov_sgt a = [arg_at a 0, arg_at a 1, arg_at a 2, arg_at a 3]"
| "read_GCMov GCMov_cmov_slt a = [arg_at a 0, arg_at a 1, arg_at a 2, arg_at a 3]"
| "read_GCMov GCMov_cmov_ult a = [arg_at a 0, arg_at a 1, arg_at a 2, arg_at a 3]"
| "read_GCMov GCMov_cmov_sge a = [arg_at a 0, arg_at a 1, arg_at a 2, arg_at a 3]"
| "read_GCMov GCMov_cmov_sle a = [arg_at a 0, arg_at a 1, arg_at a 2, arg_at a 3]"
| "read_GCMov GCMov_cmov_ne a = [arg_at a 0, arg_at a 1, arg_at a 2, arg_at a 3]"
| "read_GCMov GCMov_cmov_eq a = [arg_at a 0, arg_at a 1, arg_at a 2, arg_at a 3]"
| "read_GCMov GCMov_cmov_ugt a = [arg_at a 0, arg_at a 1, arg_at a 2, arg_at a 3]"
| "read_GCMov GCMov_cmov_uge a = [arg_at a 0, arg_at a 1, arg_at a 2, arg_at a 3]"
| "read_GCMov GCMov_cmov_ule a = [arg_at a 0, arg_at a 1, arg_at a 2, arg_at a 3]"

primrec read_GVec :: "GVecSubtype \<Rightarrow> MArgument list \<Rightarrow> ArgData list" where
  "read_GVec GVec_INVALID a = []"
| "read_GVec GVec_vXor a = (if marg_eq (a ! 1) (a ! 2) then [] else [arg_at a 1, arg_at a 2])"
| "read_GVec GVec_vadd a = [arg_at a 1, arg_at a 2]"
| "read_GVec GVec_vsub a = [arg_at a 1, arg_at a 2]"
| "read_GVec GVec_fMax a = [arg_at a 1, arg_at a 2]"
| "read_GVec GVec_fMin a = [arg_at a 1, arg_at a 2]"
| "read_GVec GVec_vSMin a = [arg_at a 1, arg_at a 2]"
| "read_GVec GVec_vSMax a = [arg_at a 1, arg_at a 2]"
| "read_GVec GVec_vUMin a = [arg_at a 1, arg_at a 2]"
| "read_GVec GVec_vUMax a = [arg_at a 1, arg_at a 2]"
| "read_GVec GVec_vmul a = [arg_at a 1, arg_at a 2]"
| "read_GVec GVec_vdiv a = [arg_at a 1, arg_at a 2]"
| "read_GVec GVec_vAnd a = [arg_at a 1, arg_at a 2]"
| "read_GVec GVec_vOr a = [arg_at a 1, arg_at a 2]"
| "read_GVec GVec_vShl a = [arg_at a 1, arg_at a 2]"
| "read_GVec GVec_vShr a = [arg_at a 1, arg_at a 2]"
| "read_GVec GVec_vSar a = [arg_at a 1, arg_at a 2]"
| "read_GVec GVec_ffmadd a = [arg_at a 0, arg_at a 1, arg_at a 2]"

primrec read_X86 :: "X86Subtype \<Rightarrow> MArgument list \<Rightarrow> ArgData list" where
  "read_X86 X86_INVALID a = []"
| "read_X86 X86_vzeroupper a = []"
| "read_X86 X86_mfence a = []"
| "read_X86 X86_tls_base a = []"
| "read_X86 X86_lea a = [arg_at a 1]"
| "read_X86 X86_popcnt a = [arg_at a 1]"
| "read_X86 X86_bswap a = [arg_at a 1]"
| "read_X86 X86_tzcnt a = [arg_at a 1]"
| "read_X86 X86_lzcnt a = [arg_at a 1]"
| "read_X86 X86_vmovshdup a = [arg_at a 1]"
| "read_X86 X86_sqrt a = [arg_at a 1]"
| "read_X86 X86_vpabs a = [arg_at a 1]"
| "read_X86 X86_vmovmsk a = [arg_at a 1]"
| "read_X86 X86_HAdd a = [arg_at a 1]"
| "read_X86 X86_LockXAdd2 a = [arg_at a 0, arg_at a 1]"
| "read_X86 X86_Xchg2 a = [arg_at a 0, arg_at a 1]"
| "read_X86 X86_LockAdd2 a = [arg_at a 0, arg_at a 1]"
| "read_X86 X86_LockSub2 a = [arg_at a 0, arg_at a 1]"
| "read_X86 X86_LockAnd2 a = [arg_at a 0, arg_at a 1]"
| "read_X86 X86_LockOr2 a = [arg_at a 0, arg_at a 1]"
| "read_X86 X86_LockXor2 a = [arg_at a 0, arg_at a 1]"
| "read_X86 X86_LockCmpXchg3 a = [arg_at a 0, arg_at a 1, arg_at a 2]"
| "read_X86 X86_movlhps a = [arg_at a 1, arg_at a 2]"
| "read_X86 X86_movhlps a = [arg_at a 1, arg_at a 2]"
| "read_X86 X86_vpshuf a = [arg_at a 1, arg_at a 2]"
| "read_X86 X86_vpshufb a = [arg_at a 1, arg_at a 2]"
| "read_X86 X86_vextractf64x2 a = [arg_at a 1, arg_at a 2]"
| "read_X86 X86_vextractf64x4 a = [arg_at a 1, arg_at a 2]"
| "read_X86 X86_vextract128 a = [arg_at a 1, arg_at a 2]"
| "read_X86 X86_vinsert128 a = [arg_at a 1, arg_at a 2]"
| "read_X86 X86_vinsertps a = [arg_at a 1, arg_at a 2]"
| "read_X86 X86_punpckl a = [arg_at a 1, arg_at a 2]"
| "read_X86 X86_vbroadcast a = [arg_at a 1, arg_at a 2]"
| "read_X86 X86_vpermil a = [arg_at a 1, arg_at a 2]"
| "read_X86 X86_vround a = [arg_at a 1, arg_at a 2]"
| "read_X86 X86_psrl a = [arg_at a 1, arg_at a 2]"
| "read_X86 X86_psll a = [arg_at a 1, arg_at a 2]"
| "read_X86 X86_psra a = [arg_at a 1, arg_at a 2]"
| "read_X86 X86_pmuludq a = [arg_at a 1, arg_at a 2]"
| "read_X86 X86_padd a = [arg_at a 1, arg_at a 2]"
| "read_X86 X86_vpcmpeq a = [arg_at a 1, arg_at a 2]"
| "read_X86 X86_vpack a = [arg_at a 1, arg_at a 2]"
| "read_X86 X86_vpacks a = [arg_at a 1, arg_at a 2]"
| "read_X86 X86_vpmulhw a = [arg_at a 1, arg_at a 2]"
| "read_X86 X86_vpmaddwd a = [arg_at a 1, arg_at a 2]"
| "read_X86 X86_vpmaddubsw a = [arg_at a 1, arg_at a 2]"
| "read_X86 X86_vpermd a = [arg_at a 1, arg_at a 2]"
| "read_X86 X86_vpcmpgt a = [arg_at a 1, arg_at a 2]"
| "read_X86 X86_vmaskload a = [arg_at a 1, arg_at a 2]"
| "read_X86 X86_vmaskstore a = [arg_at a 1, arg_at a 2]"
| "read_X86 X86_vpextr a = [arg_at a 1, arg_at a 2]"
| "read_X86 X86_vpinsr a = [arg_at a 1, arg_at a 2]"
| "read_X86 X86_vblendv a = [arg_at a 1, arg_at a 2, arg_at a 3]"
| "read_X86 X86_vcmp a = [arg_at a 1, arg_at a 2, arg_at a 3]"
| "read_X86 X86_vshufps a = [arg_at a 1, arg_at a 2, arg_at a 3]"
| "read_X86 X86_vpclmul a = [arg_at a 1, arg_at a 2, arg_at a 3]"
| "read_X86 X86_ffmadd132 a = [arg_at a 0, arg_at a 1, arg_at a 2]"
| "read_X86 X86_ffmadd213 a = [arg_at a 0, arg_at a 1, arg_at a 2]"
| "read_X86 X86_ffmadd231 a = [arg_at a 0, arg_at a 1, arg_at a 2]"
| "read_X86 X86_vgatherq a = [arg_at a 0, arg_at a 1, arg_at a 2]"
| "read_X86 X86_vgather a = [arg_at a 0, arg_at a 1, arg_at a 2]"

definition read_args :: "MInstr \<Rightarrow> ArgData list" where
  "read_args x = (case mi_op x of
     GBase s \<Rightarrow> read_GBase s (mi_n_args x) (mi_args x)
   | GJmp s \<Rightarrow> read_GJmp s (mi_args x)
   | GConv s \<Rightarrow> read_GConv s (mi_args x)
   | GArith s \<Rightarrow> read_GArith s (mi_args x)
   | GCMov s \<Rightarrow> read_GCMov s (mi_args x)
   | GVec s \<Rightarrow> read_GVec s (mi_args x)
   | X86 s \<Rightarrow> read_X86 s (mi_args x))"

section \<open>Control flow\<close>

primrec cf_GJmp :: "GJumpSubtype \<Rightarrow> bool" where
  "cf_GJmp GJmp_cjmp_int_slt = True"
| "cf_GJmp GJmp_cjmp_int_sge = True"
| "cf_GJmp GJmp_cjmp_int_sle = True"
| "cf_GJmp GJmp_cjmp_int_sgt = True"
| "cf_GJmp GJmp_cjmp_int_ult = True"
| "cf_GJmp GJmp_cjmp_int_ule = True"
| "cf_GJmp GJmp_cjmp_int_ugt = True"
| "cf_GJmp GJmp_cjmp_int_uge = True"
| "cf_GJmp GJmp_cjmp_int_ne = True"
| "cf_GJmp GJmp_cjmp_int_eq = True"
| "cf_GJmp GJmp_cjmp_flt_oeq = True"
| "cf_GJmp GJmp_cjmp_flt_ogt = True"
| "cf_GJmp GJmp_cjmp_flt_oge = True"
| "cf_GJmp GJmp_cjmp_flt_olt = True"
| "cf_GJmp GJmp_cjmp_flt_ole = True"
| "cf_GJmp GJmp_cjmp_flt_one = True"
| "cf_GJmp GJmp_cjmp_flt_ord = True"
| "cf_GJmp GJmp_cjmp_flt_uno = True"
| "cf_GJmp GJmp_cjmp_flt_ueq = True"
| "cf_GJmp GJmp_cjmp_flt_ugt = True"
| "cf_GJmp GJmp_cjmp_flt_uge = True"
| "cf_GJmp GJmp_cjmp_flt_ult = True"
| "cf_GJmp GJmp_cjmp_flt_ule = True"
| "cf_GJmp GJmp_cjmp_flt_une = True"
| "cf_GJmp GJmp_cjmp_and = True"
| "cf_GJmp GJmp_cjmp_or = True"
| "cf_GJmp GJmp_cjmp = True"
| "cf_GJmp GJmp_jmp = True"
| "cf_GJmp GJmp_INVALID = False"
| "cf_GJmp GJmp_icmp_slt = False"
| "cf_GJmp GJmp_icmp_eq = False"
| "cf_GJmp GJmp_icmp_ult = False"
| "cf_GJmp GJmp_icmp_ne = False"
| "cf_GJmp GJmp_icmp_sgt = False"
| "cf_GJmp GJmp_icmp_ugt = False"
| "cf_GJmp GJmp_icmp_uge = False"
| "cf_GJmp GJmp_icmp_ule = False"
| "cf_GJmp GJmp_icmp_sge = False"
| "cf_GJmp GJmp_icmp_sle = False"
| "cf_GJmp GJmp_fcmp_isNaN = False"
| "cf_GJmp GJmp_fcmp_oeq = False"
| "cf_GJmp GJmp_fcmp_ogt = False"
| "cf_GJmp GJmp_fcmp_oge = False"
| "cf_GJmp GJmp_fcmp_olt = False"
| "cf_GJmp GJmp_fcmp_ole = False"
| "cf_GJmp GJmp_fcmp_one = False"
| "cf_GJmp GJmp_fcmp_ord = False"
| "cf_GJmp GJmp_fcmp_uno = False"
| "cf_GJmp GJmp_fcmp_ueq = False"
| "cf_GJmp GJmp_fcmp_ugt = False"
| "cf_GJmp GJmp_fcmp_uge = False"
| "cf_GJmp GJmp_fcmp_ult = False"
| "cf_GJmp GJmp_fcmp_ule = False"
| "cf_GJmp GJmp_fcmp_une = False"

primrec is_control_flow :: "GOpcode \<Rightarrow> bool" where
  "is_control_flow (GBase s) = (s = GBase_ret)"
| "is_control_flow (GConv s) = False"
| "is_control_flow (GArith s) = False"
| "is_control_flow (GVec s) = False"
| "is_control_flow (GCMov s) = False"
| "is_control_flow (X86 s) = False"
| "is_control_flow (GJmp s) = cf_GJmp s"

section \<open>Register numbers\<close>

text \<open>
  \<^verbatim>\<open>reg_to_uid\<close> and \<^verbatim>\<open>uid_to_reg\<close> (\<^verbatim>\<open>src/src/mir/analysis/live_variables.hpp\<close>) number the concrete
  registers first and the virtual ones after them.
\<close>

definition reg_to_uid :: "VReg \<Rightarrow> nat" where
  "reg_to_uid r = (case r of ConcR _ c \<Rightarrow> creg_code c - 1 | VirtR _ n \<Rightarrow> numRegs + n)"

definition uid_to_reg :: "nat \<Rightarrow> VReg" where
  "uid_to_reg k = (if k + 1 < numRegs then ConcR Ty_Int64 (creg_of_code (k + 1))
     else VirtR Ty_INVALID (k - numRegs))"

section \<open>The verifier\<close>

definition verify_arg :: "MInstr \<Rightarrow> nat \<Rightarrow> bool option" where
  "verify_arg x i =
     (let arg = mi_args x ! i
      in do {
        too_big \<leftarrow> (if isReg arg \<and> is_concrete (ma_reg arg) \<and> \<not> marg_is_vec_reg arg
                    then do { n \<leftarrow> get_size (vr_ty (ma_reg arg)); Some (n > 8) } else Some False);
        if too_big then Some False
        else if isMem arg \<and> (vreg_is_vec_reg (ma_reg arg) \<or> vreg_is_vec_reg (ma_indx arg)) then
          Some ((mi_op x = X86 X86_vgatherq \<or> mi_op x = X86 X86_vgather) \<and> i = 1)
        else Some True
      })"

text \<open>A loop that stops at the first \<^verbatim>\<open>false\<close>.\<close>

primrec verify_all :: "('a \<Rightarrow> bool option) \<Rightarrow> 'a list \<Rightarrow> bool option" where
  "verify_all f [] = Some True"
| "verify_all f (x # xs) = do { ok \<leftarrow> f x; if ok then verify_all f xs else Some False }"

definition same_size :: "VReg \<Rightarrow> Type \<Rightarrow> bool option" where
  "same_size r ty = do { m \<leftarrow> vreg_size r; n \<leftarrow> get_size ty; Some (m = n) }"

definition verify_lea_arg :: "MArgument \<Rightarrow> bool option" where
  "verify_lea_arg arg =
     (if \<not> isMem arg then Some True
      else (case ma_type arg of
        AT_Imm \<Rightarrow> None | AT_VReg \<Rightarrow> None | AT_Label \<Rightarrow> None
      | AT_MemLabel \<Rightarrow> Some True | AT_MemImmLabel \<Rightarrow> Some True | AT_StackSlot \<Rightarrow> Some True | AT_MemImm \<Rightarrow> Some True
      | AT_MemImmVReg \<Rightarrow> same_size (ma_reg arg) (ma_ty arg)
      | AT_MemVReg \<Rightarrow> same_size (ma_reg arg) (ma_ty arg)
      | AT_MemVRegVRegScale \<Rightarrow> do { a \<leftarrow> same_size (ma_reg arg) (ma_ty arg); if \<not> a then Some False else same_size (ma_indx arg) (ma_ty arg) }
      | AT_MemImmVRegVReg \<Rightarrow> do { a \<leftarrow> same_size (ma_reg arg) (ma_ty arg); if \<not> a then Some False else same_size (ma_indx arg) (ma_ty arg) }
      | AT_MemVRegVReg \<Rightarrow> do { a \<leftarrow> same_size (ma_reg arg) (ma_ty arg); if \<not> a then Some False else same_size (ma_indx arg) (ma_ty arg) }
      | AT_MemImmVRegVRegScale \<Rightarrow> do { a \<leftarrow> same_size (ma_reg arg) (ma_ty arg); if \<not> a then Some False else same_size (ma_indx arg) (ma_ty arg) }
      | AT_MemLabelVregScale \<Rightarrow> same_size (ma_indx arg) (ma_ty arg)
      | AT_MemLabelVreg \<Rightarrow> same_size (ma_indx arg) (ma_ty arg)
      | AT_MemImmVRegScale \<Rightarrow> same_size (ma_indx arg) (ma_ty arg)))"

definition verify_shape :: "MInstr \<Rightarrow> bool option" where
  "verify_shape x =
     (let a = mi_args x
      in if mi_op x = GCMov GCMov_cmov then Some (mi_n_args x = 3)
         else if mi_op x = GArith GArith_smul3 then
           Some (mi_n_args x = 3 \<and> \<not> (isImm (a ! 1) \<and> isImm (a ! 2)))
         else if mi_op x = X86 X86_vpextr then
           (if mi_n_args x \<noteq> 3 then Some False
            else if \<not> isImm (a ! 2) then Some False
            else if \<not> marg_is_vec_reg (a ! 1) then Some False
            else do { n \<leftarrow> get_size (ma_ty (a ! 1)); Some (\<not> n > 128) })
         else Some True)"

definition verify_instr :: "MInstr \<Rightarrow> bool option" where
  "verify_instr x = do {
     ok \<leftarrow> verify_all (verify_arg x) [0..<mi_n_args x];
     if \<not> ok then Some False
     else do {
       ok2 \<leftarrow> (if mi_op x = X86 X86_lea
               then verify_all (\<lambda>i. verify_lea_arg (mi_args x ! i)) [0..<mi_n_args x] else Some True);
       if \<not> ok2 then Some False else verify_shape x
     }
   }"

text \<open>\<^verbatim>\<open>back()\<close> of an empty block is undefined.\<close>

definition verify_bb :: "MBB \<Rightarrow> bool option" where
  "verify_bb bb =
     (if bb_instrs bb = [] then None
      else
        (let b = mi_op (last (bb_instrs bb))
         in if b \<noteq> GBase GBase_unreach \<and> b \<noteq> GBase GBase_ret \<and> b \<noteq> GJmp GJmp_jmp then Some False
            else verify_all verify_instr (bb_instrs bb)))"

text \<open>The registers written and read, over the whole function: state passing through the two sets.\<close>

type_synonym rw_sets = "nat set \<times> nat set"

definition insertw :: "VReg \<Rightarrow> rw_sets \<Rightarrow> rw_sets" where
  "insertw r s = (if \<not> is_concrete r then (insert (reg_to_uid r) (fst s), snd s) else s)"

definition insertr :: "VReg \<Rightarrow> rw_sets \<Rightarrow> rw_sets" where
  "insertr r s = (if \<not> is_concrete r then (fst s, insert (reg_to_uid r) (snd s)) else s)"

definition note_written :: "ArgData \<Rightarrow> rw_sets \<Rightarrow> rw_sets" where
  "note_written d s = (let arg = snd d in case ma_type arg of
     AT_Imm \<Rightarrow> s | AT_MemImm \<Rightarrow> s | AT_Label \<Rightarrow> s | AT_MemLabel \<Rightarrow> s | AT_MemImmLabel \<Rightarrow> s | AT_StackSlot \<Rightarrow> s
   | AT_VReg \<Rightarrow> insertw (ma_reg arg) s
   | AT_MemVReg \<Rightarrow> insertr (ma_reg arg) s | AT_MemImmVReg \<Rightarrow> insertr (ma_reg arg) s
   | AT_MemLabelVregScale \<Rightarrow> insertr (ma_indx arg) s | AT_MemLabelVreg \<Rightarrow> insertr (ma_indx arg) s
   | AT_MemImmVRegScale \<Rightarrow> insertr (ma_indx arg) s
   | AT_MemVRegVReg \<Rightarrow> insertr (ma_indx arg) (insertr (ma_reg arg) s)
   | AT_MemImmVRegVReg \<Rightarrow> insertr (ma_indx arg) (insertr (ma_reg arg) s)
   | AT_MemVRegVRegScale \<Rightarrow> insertr (ma_indx arg) (insertr (ma_reg arg) s)
   | AT_MemImmVRegVRegScale \<Rightarrow> insertr (ma_indx arg) (insertr (ma_reg arg) s))"

definition note_read :: "ArgData \<Rightarrow> rw_sets \<Rightarrow> rw_sets" where
  "note_read d s = (let arg = snd d in case ma_type arg of
     AT_Imm \<Rightarrow> s | AT_MemImm \<Rightarrow> s | AT_Label \<Rightarrow> s | AT_MemLabel \<Rightarrow> s | AT_StackSlot \<Rightarrow> s | AT_MemImmLabel \<Rightarrow> s
   | AT_VReg \<Rightarrow> insertr (ma_reg arg) s
   | AT_MemVReg \<Rightarrow> insertr (ma_reg arg) s | AT_MemImmVReg \<Rightarrow> insertr (ma_reg arg) s
   | AT_MemLabelVregScale \<Rightarrow> insertr (ma_indx arg) s | AT_MemLabelVreg \<Rightarrow> insertr (ma_indx arg) s
   | AT_MemImmVRegScale \<Rightarrow> insertr (ma_indx arg) s
   | AT_MemVRegVReg \<Rightarrow> insertr (ma_indx arg) (insertr (ma_reg arg) s)
   | AT_MemImmVRegVReg \<Rightarrow> insertr (ma_indx arg) (insertr (ma_reg arg) s)
   | AT_MemVRegVRegScale \<Rightarrow> insertr (ma_indx arg) (insertr (ma_reg arg) s)
   | AT_MemImmVRegVRegScale \<Rightarrow> insertr (ma_indx arg) (insertr (ma_reg arg) s))"

definition note_instr :: "MInstr \<Rightarrow> rw_sets \<Rightarrow> rw_sets" where
  "note_instr x s = fold note_read (read_args x) (fold note_written (written_args x) s)"

definition func_rw :: "MFunc \<Rightarrow> rw_sets" where
  "func_rw f = fold (\<lambda>bb. fold note_instr (bb_instrs bb)) (mf_bbs f) (fold insertw (mf_args f) ({}, {}))"

definition verify_func :: "MFunc \<Rightarrow> bool option" where
  "verify_func f = do {
     ok \<leftarrow> verify_all verify_bb (mf_bbs f);
     if \<not> ok then Some False
     else (let (writes, reads) = func_rw f in Some (\<forall>r \<in> reads. r \<in> writes))
   }"

definition verify_funcs :: "MFunc list \<Rightarrow> bool option" where
  "verify_funcs fs = verify_all verify_func fs"

section \<open>Register numbers are unique\<close>

text \<open>The constructor of a concrete \<^verbatim>\<open>VReg\<close> asserts that its register is not \<^verbatim>\<open>CReg::Virtual\<close>.\<close>

definition vreg_ok :: "VReg \<Rightarrow> bool" where
  "vreg_ok r = (case r of ConcR _ c \<Rightarrow> c \<noteq> CReg_Virtual | VirtR _ _ \<Rightarrow> True)"

lemma creg_code_0: "creg_code c = 0 \<longleftrightarrow> c = CReg_Virtual"
  using creg_code_inj[of c CReg_Virtual] by auto

lemma creg_code_pos: "c \<noteq> CReg_Virtual \<Longrightarrow> 0 < creg_code c"
  using creg_code_0[of c] by simp

lemma uid_less: "vreg_ok r \<Longrightarrow> is_concrete r \<Longrightarrow> reg_to_uid r + 1 < numRegs"
  using creg_code_less[of "c_reg r"] creg_code_pos[of "c_reg r"]
  by (cases r) (simp_all add: reg_to_uid_def vreg_ok_def is_concrete_def)

lemma reg_uid_reg: "vreg_ok r \<Longrightarrow> vreg_eq (uid_to_reg (reg_to_uid r)) r"
proof (cases r)
  case (ConcR ty c)
  moreover assume "vreg_ok r"
  ultimately have "0 < creg_code c" by (simp add: vreg_ok_def creg_code_pos)
  then show ?thesis using ConcR creg_code_less[of c]
    by (simp add: reg_to_uid_def uid_to_reg_def vreg_eq_def)
qed (simp add: reg_to_uid_def uid_to_reg_def vreg_eq_def)

lemma uid_reg_uid: "k \<noteq> numRegs - 1 \<Longrightarrow> reg_to_uid (uid_to_reg k) = k"
  by (auto simp: reg_to_uid_def uid_to_reg_def creg_code_of_code)

lemma reg_to_uid_eq: "vreg_eq r s \<Longrightarrow> reg_to_uid r = reg_to_uid s"
  by (auto simp: vreg_eq_def reg_to_uid_def split: VReg.splits)

lemma reg_to_uid_inj: "vreg_ok r \<Longrightarrow> vreg_ok s \<Longrightarrow> reg_to_uid r = reg_to_uid s \<longleftrightarrow> vreg_eq r s"
  by (metis reg_to_uid_eq reg_uid_reg vreg_eq_cong vreg_eq_sym)

lemma virt_uid_inj: "\<not> is_concrete r \<Longrightarrow> \<not> is_concrete s \<Longrightarrow> reg_to_uid r = reg_to_uid s \<longleftrightarrow> vreg_eq r s"
  by (cases r; cases s) (simp_all add: is_concrete_def reg_to_uid_def vreg_eq_def)

section \<open>What the verifier establishes\<close>

definition all_instrs :: "MFunc \<Rightarrow> MInstr list" where
  "all_instrs f = concat (map bb_instrs (mf_bbs f))"

text \<open>The registers an instruction overwrites, and the ones whose value it needs.\<close>

definition written_regs :: "MInstr \<Rightarrow> VReg set" where
  "written_regs x = (\<lambda>d. ma_reg (snd d)) ` {d \<in> set (written_args x). isReg (snd d)}"

definition needed_regs :: "MInstr \<Rightarrow> VReg set" where
  "needed_regs x = (\<Union>d \<in> set (read_args x). set (arg_regs (snd d)))
     \<union> (\<Union>d \<in> {d \<in> set (written_args x). \<not> isReg (snd d)}. set (arg_regs (snd d)))"

definition virt_uids :: "VReg set \<Rightarrow> nat set" where
  "virt_uids S = reg_to_uid ` {r \<in> S. \<not> is_concrete r}"

lemma virt_uids_Un: "virt_uids (A \<union> B) = virt_uids A \<union> virt_uids B"
  by (auto simp: virt_uids_def)

lemma virt_uids_insert: "virt_uids (insert r A) = (if is_concrete r then {} else {reg_to_uid r}) \<union> virt_uids A"
  by (auto simp: virt_uids_def)

lemma virt_uids_empty [simp]: "virt_uids {} = {}"
  by (simp add: virt_uids_def)

lemma insertw_eq: "insertw r s = (fst s \<union> virt_uids {r}, snd s)"
  by (simp add: insertw_def virt_uids_insert)

lemma insertr_eq: "insertr r s = (fst s, snd s \<union> virt_uids {r})"
  by (simp add: insertr_def virt_uids_insert)

lemma note_written_eq:
  "note_written d s = (fst s \<union> (if isReg (snd d) then virt_uids {ma_reg (snd d)} else {}),
     snd s \<union> (if isReg (snd d) then {} else virt_uids (set (arg_regs (snd d)))))"
  by (cases "ma_type (snd d)")
    (auto simp: note_written_def Let_def insertw_eq insertr_eq isReg_def arg_regs_def virt_uids_insert)

lemma note_read_eq: "note_read d s = (fst s, snd s \<union> virt_uids (set (arg_regs (snd d))))"
  by (cases "ma_type (snd d)") (auto simp: note_read_def Let_def insertr_eq arg_regs_def virt_uids_insert)

lemma fold_pair_union:
  "(\<And>x s. x \<in> set xs \<Longrightarrow> f x s = (fst s \<union> A x, snd s \<union> B x)) \<Longrightarrow>
    fold f xs s = (fst s \<union> (\<Union>x \<in> set xs. A x), snd s \<union> (\<Union>x \<in> set xs. B x))"
  by (induction xs arbitrary: s) auto

lemma virt_uids_UN: "virt_uids (\<Union>x \<in> S. g x) = (\<Union>x \<in> S. virt_uids (g x))"
  by (auto simp: virt_uids_def)

lemma note_instr_eq:
  "note_instr x s = (fst s \<union> virt_uids (written_regs x), snd s \<union> virt_uids (needed_regs x))"
proof -
  have w: "written_regs x = (\<Union>d \<in> set (written_args x). if isReg (snd d) then {ma_reg (snd d)} else {})"
    by (auto simp: written_regs_def split: if_splits)
  have r: "needed_regs x = (\<Union>d \<in> set (written_args x). if isReg (snd d) then {} else set (arg_regs (snd d)))
      \<union> (\<Union>d \<in> set (read_args x). set (arg_regs (snd d)))"
    by (auto simp: needed_regs_def split: if_splits)
  have "fold note_written (written_args x) s = (fst s \<union> virt_uids (written_regs x),
      snd s \<union> (\<Union>d \<in> set (written_args x). virt_uids (if isReg (snd d) then {} else set (arg_regs (snd d)))))"
    unfolding w virt_uids_UN by (subst fold_pair_union[OF note_written_eq]) (auto simp: if_distrib)
  moreover have "fold note_read (read_args x) s' = (fst s', snd s' \<union> (\<Union>d \<in> set (read_args x). virt_uids (set (arg_regs (snd d)))))"
    for s' by (subst fold_pair_union[where A = "\<lambda>_. {}"]) (auto simp: note_read_eq)
  ultimately show ?thesis
    unfolding note_instr_def by (simp only: r virt_uids_Un virt_uids_UN fst_conv snd_conv Un_assoc)
qed

lemma func_rw_eq:
  "func_rw f = (virt_uids (set (mf_args f) \<union> (\<Union>x \<in> set (all_instrs f). written_regs x)),
     virt_uids (\<Union>x \<in> set (all_instrs f). needed_regs x))"
proof -
  have bb: "fold note_instr (bb_instrs bb) s = (fst s \<union> (\<Union>x \<in> set (bb_instrs bb). virt_uids (written_regs x)),
      snd s \<union> (\<Union>x \<in> set (bb_instrs bb). virt_uids (needed_regs x)))" for bb s
    by (rule fold_pair_union) (rule note_instr_eq)
  have args: "fold insertw (mf_args f) ({}, {}) = (virt_uids (set (mf_args f)), {})"
    using fold_pair_union[of "mf_args f" insertw "\<lambda>r. virt_uids {r}" "\<lambda>_. {}" "({}, {})"]
    by (simp add: insertw_eq virt_uids_def) auto
  have "fold (\<lambda>bb. fold note_instr (bb_instrs bb)) (mf_bbs f) s
      = (fst s \<union> (\<Union>bb \<in> set (mf_bbs f). \<Union>x \<in> set (bb_instrs bb). virt_uids (written_regs x)),
         snd s \<union> (\<Union>bb \<in> set (mf_bbs f). \<Union>x \<in> set (bb_instrs bb). virt_uids (needed_regs x)))" for s
    by (rule fold_pair_union) (rule bb)
  then show ?thesis unfolding func_rw_def args by (simp add: all_instrs_def virt_uids_Un virt_uids_UN)
qed

lemma verify_all_True: "verify_all f xs = Some True \<longleftrightarrow> (\<forall>x \<in> set xs. f x = Some True)"
  by (induction xs) (auto simp: bind_eq_Some_conv split: if_splits)

lemma verify_bb_True:
  "verify_bb bb = Some True \<longleftrightarrow> bb_instrs bb \<noteq> [] \<and>
     mi_op (last (bb_instrs bb)) \<in> {GBase GBase_unreach, GBase GBase_ret, GJmp GJmp_jmp} \<and>
     (\<forall>x \<in> set (bb_instrs bb). verify_instr x = Some True)"
  by (auto simp: verify_bb_def Let_def verify_all_True)

lemma verify_func_True:
  "verify_func f = Some True \<longleftrightarrow> (\<forall>bb \<in> set (mf_bbs f). verify_bb bb = Some True) \<and>
     snd (func_rw f) \<subseteq> fst (func_rw f)"
  by (auto simp: verify_func_def bind_eq_Some_conv verify_all_True split: prod.splits)

lemma verify_arg_mem:
  "verify_arg x i = Some True \<Longrightarrow> isMem (mi_args x ! i) \<Longrightarrow>
    vreg_is_vec_reg (ma_reg (mi_args x ! i)) \<or> vreg_is_vec_reg (ma_indx (mi_args x ! i)) \<Longrightarrow>
    (mi_op x = X86 X86_vgatherq \<or> mi_op x = X86 X86_vgather) \<and> i = 1"
  by (auto simp: verify_arg_def bind_eq_Some_conv Let_def split: if_splits)

lemma verify_instr_True:
  "verify_instr x = Some True \<Longrightarrow> (\<forall>i < mi_n_args x. verify_arg x i = Some True) \<and> verify_shape x = Some True"
  by (auto simp: verify_instr_def bind_eq_Some_conv verify_all_True split: if_splits)

lemma get_size_le: "get_size t = Some n \<Longrightarrow> n \<le> 64"
  by (cases t) auto

text \<open>The third check on \<^verbatim>\<open>vpextr\<close> compares a size in bytes with 128: it never rejects.\<close>

lemma vpextr_size_check_dead:
  assumes "mi_op x = X86 X86_vpextr" "mi_n_args x = 3" "isImm (mi_args x ! 2)" "marg_is_vec_reg (mi_args x ! 1)"
  shows "verify_shape x = Some True"
proof -
  have "ma_ty (mi_args x ! 1) \<noteq> Ty_INVALID"
    using assms(4) by (auto simp: marg_is_vec_reg_def less_eq_Type_def)
  then obtain n where "get_size (ma_ty (mi_args x ! 1)) = Some n"
    by (cases "ma_ty (mi_args x ! 1)") auto
  then show ?thesis using assms get_size_le[of "ma_ty (mi_args x ! 1)" n] by (simp add: verify_shape_def)
qed

section \<open>Properties\<close>

text \<open>C35: equality of operands is an equivalence that no register query can see through: equal
  operands use the same registers, \<^verbatim>\<open>uses_same_vreg\<close> answers whether one of the operand's registers
  equals the given one, its form on two operands is symmetric and asks for a shared register, and
  \<^verbatim>\<open>uses_vreg\<close> whether there is any.\<close>

theorem operand_equality:
  shows "marg_eq a a \<and> (marg_eq a b \<longleftrightarrow> marg_eq b a) \<and> (marg_eq a b \<longrightarrow> marg_eq b c \<longrightarrow> marg_eq a c)
    \<and> (marg_eq a b \<longrightarrow> (\<forall>r. uses_same_vreg a r \<longleftrightarrow> uses_same_vreg b r))
    \<and> (uses_same_vreg a r \<longleftrightarrow> (\<exists>s \<in> set (arg_regs a). vreg_eq s r))
    \<and> (uses_same_vreg_arg a b \<longleftrightarrow> uses_same_vreg_arg b a)
    \<and> (uses_same_vreg_arg a b \<longleftrightarrow> (\<exists>s \<in> set (arg_regs b). uses_same_vreg a s))
    \<and> (uses_vreg a \<longleftrightarrow> (\<exists>s. uses_same_vreg a s))"
proof -
  have "uses_vreg a \<longleftrightarrow> (\<exists>s. uses_same_vreg a s)"
    by (cases "arg_regs a") (auto simp: uses_vreg_iff uses_same_vreg_iff intro: exI[of _ "hd (arg_regs a)"])
  then show ?thesis
    using marg_eq_sym marg_eq_trans[of a b c] marg_eq_uses[of a b] vreg_eq_sym
    by (auto simp: uses_same_vreg_iff uses_same_vreg_arg_iff) blast+
qed

theorem operand_equality_witness:
  "uses_same_vreg_arg (MReg (VirtR Ty_Int64 3) Ty_Int32) (MemBI (VirtR Ty_Int64 1) (VirtR Ty_Int64 3) Ty_Int64)"
proof -
  let ?a = "MReg (VirtR Ty_Int64 3) Ty_Int32" and ?b = "MemBI (VirtR Ty_Int64 1) (VirtR Ty_Int64 3) Ty_Int64"
  have "uses_same_vreg_arg ?a ?b \<longleftrightarrow> (\<exists>s \<in> set (arg_regs ?b). uses_same_vreg ?a s)"
    using operand_equality[of ?a ?b ?a] by blast
  then show ?thesis
    by (simp add: uses_same_vreg_iff arg_regs_def MemBI_def MReg_def marg0_def retype_def vreg_eq_def)
qed

text \<open>C36: \<^verbatim>\<open>reg_to_uid\<close> numbers registers uniquely: two registers have the same number exactly when
  \<^verbatim>\<open>VReg::operator==\<close> holds, \<^verbatim>\<open>uid_to_reg\<close> gives an equal register back, and concrete registers come
  before the virtual ones.\<close>

theorem reg_uid_roundtrip:
  assumes "vreg_ok r" "vreg_ok s"
  shows "(reg_to_uid r = reg_to_uid s \<longleftrightarrow> vreg_eq r s) \<and> vreg_eq (uid_to_reg (reg_to_uid r)) r
    \<and> reg_to_uid (uid_to_reg (reg_to_uid r)) = reg_to_uid r
    \<and> (is_concrete r \<longleftrightarrow> reg_to_uid r + 1 < numRegs)"
proof -
  have "reg_to_uid (uid_to_reg (reg_to_uid r)) = reg_to_uid r"
    using reg_uid_reg[OF assms(1)] by (rule reg_to_uid_eq)
  moreover have "is_concrete r \<or> numRegs \<le> reg_to_uid r"
    by (cases r) (simp_all add: is_concrete_def reg_to_uid_def)
  ultimately show ?thesis
    using reg_to_uid_inj[OF assms] reg_uid_reg[OF assms(1)] uid_less[OF assms(1)] by auto
qed

theorem reg_uid_roundtrip_witness: "vreg_eq (uid_to_reg (reg_to_uid (VirtR Ty_Int8 7))) (VirtR Ty_Int8 7)"
  using reg_uid_roundtrip[of "VirtR Ty_Int8 7" "VirtR Ty_Int8 7"] by (simp add: vreg_ok_def)

text \<open>C37: what an accepted function satisfies: no block is empty, each ends in \<^verbatim>\<open>unreach\<close>, \<^verbatim>\<open>ret\<close> or
  \<^verbatim>\<open>jmp\<close>, vector registers address memory only in the second operand of a gather, \<^verbatim>\<open>cmov\<close> and \<^verbatim>\<open>smul3\<close>
  have three operands, and every virtual register whose value some instruction needs is a function
  argument or is written by some instruction.\<close>

theorem verified_function:
  assumes "verify_func f = Some True"
  shows "(\<forall>bb \<in> set (mf_bbs f). bb_instrs bb \<noteq> [] \<and>
      mi_op (last (bb_instrs bb)) \<in> {GBase GBase_unreach, GBase GBase_ret, GJmp GJmp_jmp})
    \<and> (\<forall>x \<in> set (all_instrs f). \<forall>i < mi_n_args x. isMem (mi_args x ! i) \<longrightarrow>
        (vreg_is_vec_reg (ma_reg (mi_args x ! i)) \<or> vreg_is_vec_reg (ma_indx (mi_args x ! i))) \<longrightarrow>
        mi_op x \<in> {X86 X86_vgatherq, X86 X86_vgather} \<and> i = 1)
    \<and> (\<forall>x \<in> set (all_instrs f). mi_op x \<in> {GCMov GCMov_cmov, GArith GArith_smul3} \<longrightarrow> mi_n_args x = 3)
    \<and> (\<forall>x \<in> set (all_instrs f). \<forall>r \<in> needed_regs x. \<not> is_concrete r \<longrightarrow>
        (\<exists>s. vreg_eq r s \<and> (s \<in> set (mf_args f) \<or> (\<exists>y \<in> set (all_instrs f). s \<in> written_regs y))))"
proof -
  have bbs: "\<forall>bb \<in> set (mf_bbs f). verify_bb bb = Some True" and rw: "snd (func_rw f) \<subseteq> fst (func_rw f)"
    using assms by (auto simp: verify_func_True)
  have instrs: "verify_instr x = Some True" if "x \<in> set (all_instrs f)" for x
    using that bbs by (auto simp: all_instrs_def verify_bb_True)
  have "\<exists>s. vreg_eq r s \<and> (s \<in> set (mf_args f) \<or> (\<exists>y \<in> set (all_instrs f). s \<in> written_regs y))"
    if "x \<in> set (all_instrs f)" "r \<in> needed_regs x" "\<not> is_concrete r" for x r
  proof -
    have "reg_to_uid r \<in> snd (func_rw f)" using that by (auto simp: func_rw_eq virt_uids_def)
    with rw have "reg_to_uid r \<in> fst (func_rw f)" by blast
    then obtain s where "s \<in> set (mf_args f) \<union> (\<Union>y \<in> set (all_instrs f). written_regs y)"
      "\<not> is_concrete s" "reg_to_uid r = reg_to_uid s"
      by (auto simp: func_rw_eq virt_uids_def)
    then show ?thesis using virt_uid_inj[of r s] that(3) by auto
  qed
  moreover have "mi_n_args x = 3" if "x \<in> set (all_instrs f)" "mi_op x \<in> {GCMov GCMov_cmov, GArith GArith_smul3}" for x
    using verify_instr_True[OF instrs[OF that(1)]] that(2) by (auto simp: verify_shape_def Let_def)
  moreover have "mi_op x \<in> {X86 X86_vgatherq, X86 X86_vgather} \<and> i = 1"
    if "x \<in> set (all_instrs f)" "i < mi_n_args x" "isMem (mi_args x ! i)"
      "vreg_is_vec_reg (ma_reg (mi_args x ! i)) \<or> vreg_is_vec_reg (ma_indx (mi_args x ! i))" for x i
    using verify_instr_True[OF instrs[OF that(1)]] verify_arg_mem[of x i] that(2-4) by auto
  moreover have "\<forall>bb \<in> set (mf_bbs f). bb_instrs bb \<noteq> [] \<and>
      mi_op (last (bb_instrs bb)) \<in> {GBase GBase_unreach, GBase GBase_ret, GJmp GJmp_jmp}"
    using bbs by (simp add: verify_bb_True)
  ultimately show ?thesis by blast
qed

definition sample_func :: MFunc where
  "sample_func = \<lparr>mf_bbs = [\<lparr>bb_instrs =
      [mk_instr (GArith GArith_add2) [MReg (VirtR Ty_Int64 1) Ty_Int64, MImm64 1],
       mk_instr (GBase GBase_ret) [MReg (VirtR Ty_Int64 1) Ty_Int64]]\<rparr>], mf_args = [VirtR Ty_Int64 1]\<rparr>"

theorem verified_function_witness:
  "verify_func sample_func = Some True \<and> bb_instrs (hd (mf_bbs sample_func)) \<noteq> []"
proof -
  have "verify_func sample_func = Some True"
    by (auto simp add: verify_func_True verify_bb_True sample_func_def func_rw_eq all_instrs_def verify_instr_def
        verify_arg_def verify_shape_def mk_instr_def MReg_def MImm64_def marg0_def isReg_def isMem_def is_concrete_def
        retype_def written_regs_def needed_regs_def read_args_def written_args_def arg_regs_def virt_uids_def)
  moreover have "hd (mf_bbs sample_func) \<in> set (mf_bbs sample_func)" by (simp add: sample_func_def)
  ultimately show ?thesis using verified_function[of sample_func] by blast
qed

end
