(* ===== verification/ConstDivEmit.thy ===== *)
theory ConstDivEmit
  imports MIRTables ConstDivMagic
begin

text \<open>
  Division by a constant in the instruction selector, \<^verbatim>\<open>src/src/mir/matcher_const_div.cpp\<close>: the
  emitter \<^verbatim>\<open>ConstDivEmitter\<close>, whose state is the list of instructions and the register allocator,
  and \<^verbatim>\<open>generate_const_div\<close>. What is emitted is run on 64 bit registers: the quotients and
  remainders are those of the division it replaces.
\<close>

section \<open>The emitter\<close>

text \<open>The list \<^verbatim>\<open>out\<close> and the counter of \<^verbatim>\<open>DumbRegAlloc\<close>
  (\<^verbatim>\<open>src/src/mir/reg_alloc.cpp\<close>), the two things every operation changes.\<close>

record est =
  es_out :: "MInstr list"
  es_vreg :: nat

definition get_new_register :: "Type \<Rightarrow> est \<Rightarrow> VReg \<times> est" where
  "get_new_register ty s = (let n = es_vreg s + 1 in (VirtR ty n, s\<lparr>es_vreg := n\<rparr>))"

definition e_put :: "GOpcode \<Rightarrow> MArgument list \<Rightarrow> est \<Rightarrow> est" where
  "e_put op as s = s\<lparr>es_out := es_out s @ [mk_instr op as]\<rparr>"

definition e_fresh :: "est \<Rightarrow> MArgument \<times> est" where
  "e_fresh s = (let (r, s) = get_new_register Ty_Int64 s in (MReg r Ty_Int64, s))"

definition e_copy :: "MArgument \<Rightarrow> est \<Rightarrow> MArgument \<times> est" where
  "e_copy src s = (let (dst, s) = e_fresh s in (dst, e_put (GBase GBase_mov) [dst, src] s))"

definition e_imm8 :: "nat \<Rightarrow> MArgument" where "e_imm8 v = MImm8 (of_nat v)"

definition e_shr :: "MArgument \<Rightarrow> nat \<Rightarrow> est \<Rightarrow> MArgument \<times> est" where
  "e_shr src n s = (let (dst, s) = e_copy src s in (dst, e_put (GArith GArith_shr2) [dst, e_imm8 n] s))"

definition e_sar :: "MArgument \<Rightarrow> nat \<Rightarrow> est \<Rightarrow> MArgument \<times> est" where
  "e_sar src n s = (let (dst, s) = e_copy src s in (dst, e_put (GArith GArith_sar2) [dst, e_imm8 n] s))"

definition e_shl :: "MArgument \<Rightarrow> nat \<Rightarrow> est \<Rightarrow> MArgument \<times> est" where
  "e_shl src n s = (let (dst, s) = e_copy src s in (dst, e_put (GArith GArith_shl2) [dst, e_imm8 n] s))"

definition e_add :: "MArgument \<Rightarrow> MArgument \<Rightarrow> est \<Rightarrow> MArgument \<times> est" where
  "e_add a b s = (let (dst, s) = e_copy a s in (dst, e_put (GArith GArith_add2) [dst, b] s))"

definition e_sub :: "MArgument \<Rightarrow> MArgument \<Rightarrow> est \<Rightarrow> MArgument \<times> est" where
  "e_sub a b s = (let (dst, s) = e_copy a s in (dst, e_put (GArith GArith_sub2) [dst, b] s))"

definition e_neg :: "MArgument \<Rightarrow> est \<Rightarrow> MArgument \<times> est" where
  "e_neg a s = (let (dst, s) = e_copy a s in (dst, e_put (GArith GArith_neg1) [dst] s))"

definition e_mul_const :: "MArgument \<Rightarrow> u64 \<Rightarrow> est \<Rightarrow> MArgument \<times> est" where
  "e_mul_const a c s = (let (dst, s) = e_copy a s in (dst, e_put (GArith GArith_mul2) [dst, MImm64 c] s))"

definition e_const_reg :: "u64 \<Rightarrow> est \<Rightarrow> MArgument \<times> est" where
  "e_const_reg c s = (let (dst, s) = e_fresh s in (dst, e_put (GBase GBase_mov) [dst, MImm64 c] s))"

definition e_mulh :: "MArgument \<Rightarrow> u64 \<Rightarrow> bool \<Rightarrow> est \<Rightarrow> MArgument \<times> est" where
  "e_mulh x c is_signed s =
     (let rax = MReg VReg_RAX Ty_Int64; rdx = MReg VReg_RDX Ty_Int64;
          (creg, s) = e_const_reg c s;
          s = e_put (GBase GBase_mov) [rax, x] s;
          s = e_put (GArith (if is_signed then GArith_smulh else GArith_umulh)) [rax, rdx, rax, creg] s
      in e_copy rdx s)"

text \<open>\<^verbatim>\<open>udiv\<close> and \<^verbatim>\<open>sdiv\<close>, with the value the flag \<^verbatim>\<open>ok\<close> has afterwards.\<close>

definition e_udiv :: "MArgument \<Rightarrow> u64 \<Rightarrow> nat \<Rightarrow> est \<Rightarrow> (MArgument \<times> bool) \<times> est" where
  "e_udiv x d width s =
     (if std_has_single_bit d
      then (if d = 1 then ((x, True), s)
            else (let (q, s) = e_shr x (std_countr_zero d) s in ((q, True), s)))
      else case udiv_magic d width of
        None \<Rightarrow> ((x, False), s)
      | Some magic \<Rightarrow>
          (if \<not> um_add magic
           then (let (y, s) = (if um_pre_shift magic \<noteq> 0 then e_shr x (um_pre_shift magic) s else (x, s))
                 in if width = 64
                    then (let (h, s) = e_mulh y (um_mul magic) False s; (q, s) = e_shr h (um_shift magic - 64) s
                          in ((q, True), s))
                    else (let (m, s) = e_mul_const y (um_mul magic) s; (q, s) = e_shr m (um_shift magic) s
                          in ((q, True), s)))
           else (let (t, s) = (if width = 64 then e_mulh x (um_mul magic) False s
                               else (let (m, s) = e_mul_const x (um_mul magic) s in e_shr m width s));
                     (e, s) = e_sub x t s;
                     (u, s) = e_shr e 1 s;
                     (v, s) = e_add u t s;
                     (q, s) = e_shr v (um_shift magic - 1) s
                 in ((q, True), s))))"

definition e_sdiv_q0 :: "MArgument \<Rightarrow> sdiv_magic \<Rightarrow> nat \<Rightarrow> est \<Rightarrow> MArgument \<times> est" where
  "e_sdiv_q0 x magic width s =
     (if width = 64
      then (let (t, s) = e_mulh x (sm_mul magic) True s;
                (t, s) = (if sm_mul magic > 0x7FFFFFFFFFFFFFFF then e_add t x s else (t, s))
            in e_sar t (sm_shift magic - 64) s)
      else (let (m, s) = e_mul_const x (sm_mul magic) s in e_sar m (sm_shift magic) s))"

definition e_sdiv_abs :: "MArgument \<Rightarrow> u64 \<Rightarrow> nat \<Rightarrow> est \<Rightarrow> (MArgument \<times> bool) \<times> est" where
  "e_sdiv_abs x ad width s =
     (if ad = 1 then ((x, True), s)
      else if std_has_single_bit ad
      then (let k = std_countr_zero ad;
                (g, s) = e_sar x 63 s;
                (bias, s) = e_shr g (64 - k) s;
                (e, s) = e_add x bias s;
                (q, s) = e_sar e k s
            in ((q, True), s))
      else case sdiv_magic ad width of
        None \<Rightarrow> ((x, False), s)
      | Some magic \<Rightarrow>
          (let (q0, s) = e_sdiv_q0 x magic width s;
               (g, s) = e_shr q0 63 s;
               (q, s) = e_add q0 g s
           in ((q, True), s)))"

definition e_sdiv :: "MArgument \<Rightarrow> u64 \<Rightarrow> nat \<Rightarrow> est \<Rightarrow> (MArgument \<times> bool) \<times> est" where
  "e_sdiv x d width s =
     (let ad = (if sint d < 0 then 0 - d else d);
          ((q, ok), s) = e_sdiv_abs x ad width s
      in if \<not> ok then ((x, False), s)
         else if sint d < 0 then (let (n, s) = e_neg q s in ((n, True), s)) else ((q, True), s))"

section \<open>generate\_const\_div\<close>

text \<open>
  What the function reads of the IR instruction: the divisor, if it is an integer constant (the
  \<^verbatim>\<open>i128\<close> of \<^verbatim>\<open>as_int\<close>), the MIR type of the result, and the two values it hands to
  \<^verbatim>\<open>valueToArg\<close>, which is a parameter. The result is \<open>None\<close> where the assertion fails.
\<close>

record 'v div_instr =
  di_const :: "u128 option"
  di_ty :: Type
  di_arg0 :: 'v
  di_result :: 'v

definition int_width :: "Type \<Rightarrow> nat option" where
  "int_width ty = (if ty \<in> {Ty_Int8, Ty_Int16, Ty_Int32, Ty_Int64} then map_option (\<lambda>n. n * 8) (get_size ty) else None)"

definition div_mask :: "nat \<Rightarrow> u64" where
  "div_mask width = (if width = 64 then NOT 0 else push_bit width 1 - 1)"

definition div_abs :: "u64 \<Rightarrow> u64" where "div_abs sd = (if sint sd < 0 then 0 - sd else sd)"

definition div_extend :: "bool \<Rightarrow> nat \<Rightarrow> MArgument \<Rightarrow> est \<Rightarrow> MArgument \<times> est" where
  "div_extend is_signed width x_in s =
     (if width < 64
      then (let (x, s) = e_fresh s in (x, e_put (GConv (if is_signed then GConv_mov_sx else GConv_mov_zx)) [x, x_in] s))
      else (x_in, s))"

definition div_value :: "bool \<Rightarrow> bool \<Rightarrow> nat \<Rightarrow> u64 \<Rightarrow> u64 \<Rightarrow> MArgument \<Rightarrow> est \<Rightarrow> (MArgument \<times> bool) \<times> est" where
  "div_value is_signed is_rem width raw sd x s =
     (let abs_d = div_abs sd
      in if is_rem \<and> \<not> is_signed \<and> std_has_single_bit raw
         then (let (r, s) = e_copy x s in ((r, True), e_put (GArith GArith_land2) [r, MImm64 (raw - 1)] s))
         else if is_rem \<and> is_signed \<and> abs_d \<noteq> 1 \<and> std_has_single_bit abs_d
         then (let k = std_countr_zero abs_d;
                   (g, s) = e_sar x 63 s;
                   (bias, s) = e_shr g (64 - k) s;
                   (e, s) = e_add x bias s;
                   (t, s) = e_sar e k s;
                   (u, s) = e_shl t k s;
                   (r, s) = e_sub x u s
               in ((r, True), s))
         else (let ((q, ok), s) = (if is_signed then e_sdiv x sd width s else e_udiv x raw width s)
               in if \<not> ok then ((q, False), s)
                  else if is_rem
                  then (let (m, s) = e_mul_const q (if is_signed then sd else raw) s; (r, s) = e_sub x m s in ((r, True), s))
                  else ((q, True), s)))"

definition generate_const_div ::
  "('v \<Rightarrow> est \<Rightarrow> MArgument \<times> est) \<Rightarrow> 'v div_instr \<Rightarrow> bool \<Rightarrow> bool \<Rightarrow> est \<Rightarrow> (bool \<times> est) option" where
  "generate_const_div valueToArg instr is_signed is_rem s =
     (case (di_const instr, int_width (di_ty instr)) of
        (Some c, Some width) \<Rightarrow>
          (let raw = ucast c AND div_mask width;
               sd = signed_drop_bit (64 - width) (push_bit (64 - width) raw);
               abs_d = div_abs sd
           in if raw = 0 \<or> (is_signed \<and> sd = - 1) then Some (False, s)
              else if (if is_signed then \<not> std_has_single_bit abs_d \<and> sdiv_magic abs_d width = None
                       else \<not> std_has_single_bit raw \<and> udiv_magic raw width = None) then Some (False, s)
              else (let (x_in, s) = valueToArg (di_arg0 instr) s
                    in if \<not> isReg x_in then Some (False, s)
                       else (let (res_reg, s) = valueToArg (di_result instr) s;
                                 (x, s) = div_extend is_signed width x_in s;
                                 ((r, ok), s) = div_value is_signed is_rem width raw sd x s
                             in if \<not> ok then None
                                else Some (True, e_put (if width < 64 then GConv GConv_itrunc else GBase GBase_mov) [res_reg, r] s))))
      | _ \<Rightarrow> Some (False, s))"

section \<open>What the instructions do\<close>

text \<open>
  The emitted opcodes on a file of 64 bit registers, the part of the machine this sequence needs: an
  operand narrower than a register reads and writes its low bits, the high multiplies put the two halves
  of the product into their first two operands, as \<^verbatim>\<open>mul\<close> and \<^verbatim>\<open>imul\<close> do with
  \<^verbatim>\<open>rdx:rax\<close>. A shift must be below the width. Any other instruction has no result.
\<close>

type_synonym reg_file = "nat \<Rightarrow> u64"

definition arg_bits :: "MArgument \<Rightarrow> nat" where "arg_bits a = 8 * the (get_size (ma_ty a))"

definition rd :: "MArgument \<Rightarrow> reg_file \<Rightarrow> u64" where
  "rd a rs = (if isReg a then take_bit (arg_bits a) (rs (reg_to_uid (ma_reg a))) else ma_imm a)"

definition wr :: "MArgument \<Rightarrow> u64 \<Rightarrow> reg_file \<Rightarrow> reg_file" where
  "wr a v rs = (let u = reg_to_uid (ma_reg a); w = arg_bits a in rs(u := take_bit w v OR (rs u AND NOT (mask w))))"

definition umul_high :: "u64 \<Rightarrow> u64 \<Rightarrow> u64" where
  "umul_high a b = of_nat (unat a * unat b div 2 ^ 64)"

definition smul_high :: "u64 \<Rightarrow> u64 \<Rightarrow> u64" where
  "smul_high a b = of_int (sint a * sint b div 2 ^ 64)"

definition run_shift :: "(nat \<Rightarrow> u64 \<Rightarrow> u64) \<Rightarrow> MArgument list \<Rightarrow> reg_file \<Rightarrow> reg_file option" where
  "run_shift f a rs = (let n = unat (rd (a ! 1) rs) in if n < arg_bits (a ! 0) then Some (wr (a ! 0) (f n (rd (a ! 0) rs)) rs) else None)"

definition run_instr :: "MInstr \<Rightarrow> reg_file \<Rightarrow> reg_file option" where
  "run_instr x rs =
     (let a = mi_args x; op = mi_op x; put = (\<lambda>v. Some (wr (a ! 0) v rs))
      in if op = GBase GBase_mov then put (rd (a ! 1) rs)
         else if op = GArith GArith_add2 then put (rd (a ! 0) rs + rd (a ! 1) rs)
         else if op = GArith GArith_sub2 then put (rd (a ! 0) rs - rd (a ! 1) rs)
         else if op = GArith GArith_mul2 then put (rd (a ! 0) rs * rd (a ! 1) rs)
         else if op = GArith GArith_land2 then put (rd (a ! 0) rs AND rd (a ! 1) rs)
         else if op = GArith GArith_neg1 then put (- rd (a ! 0) rs)
         else if op = GArith GArith_shr2 then run_shift drop_bit a rs
         else if op = GArith GArith_sar2 then run_shift signed_drop_bit a rs
         else if op = GArith GArith_shl2 then run_shift push_bit a rs
         else if op = GArith GArith_umulh
         then Some (wr (a ! 1) (umul_high (rd (a ! 2) rs) (rd (a ! 3) rs)) (wr (a ! 0) (rd (a ! 2) rs * rd (a ! 3) rs) rs))
         else if op = GArith GArith_smulh
         then Some (wr (a ! 1) (smul_high (rd (a ! 2) rs) (rd (a ! 3) rs)) (wr (a ! 0) (rd (a ! 2) rs * rd (a ! 3) rs) rs))
         else if op \<in> {GConv GConv_mov_zx, GConv GConv_itrunc} then put (rd (a ! 1) rs)
         else if op = GConv GConv_mov_sx then put (signed_take_bit (arg_bits (a ! 1) - 1) (rd (a ! 1) rs))
         else None)"

primrec run_code :: "MInstr list \<Rightarrow> reg_file \<Rightarrow> reg_file option" where
  "run_code [] rs = Some rs"
| "run_code (x # xs) rs = (case run_instr x rs of None \<Rightarrow> None | Some rs' \<Rightarrow> run_code xs rs')"

lemma run_code_append: "run_code (xs @ ys) rs = (case run_code xs rs of None \<Rightarrow> None | Some rs' \<Rightarrow> run_code ys rs')"
  by (induction xs arbitrary: rs) (auto split: option.split)

section \<open>Values along the emission\<close>

text \<open>
  Emission starts at length \<open>n\<close> of the list, the code behind it runs from \<open>rs0\<close>. \<open>holds n rs0 s a v\<close>: it
  runs, and leaves \<open>v\<close> in the 64 bit operand \<open>a\<close>. \<open>reaches\<close> is a piece of emission that keeps every such
  value, and with it all virtual registers handed out before.
\<close>

definition vreg64 :: "nat \<Rightarrow> MArgument" where "vreg64 k = MReg (VirtR Ty_Int64 k) Ty_Int64"

definition emitted :: "nat \<Rightarrow> reg_file \<Rightarrow> est \<Rightarrow> reg_file \<Rightarrow> bool" where
  "emitted n rs0 s rs \<longleftrightarrow> n \<le> length (es_out s) \<and> run_code (drop n (es_out s)) rs0 = Some rs"

definition holds :: "nat \<Rightarrow> reg_file \<Rightarrow> est \<Rightarrow> MArgument \<Rightarrow> u64 \<Rightarrow> bool" where
  "holds n rs0 s a v \<longleftrightarrow> (\<exists>k rs. a = vreg64 k \<and> k \<le> es_vreg s \<and> emitted n rs0 s rs \<and> rs (numRegs + k) = v)"

definition reaches :: "nat \<Rightarrow> reg_file \<Rightarrow> est \<Rightarrow> est \<Rightarrow> bool" where
  "reaches n rs0 s s' \<longleftrightarrow> es_vreg s \<le> es_vreg s' \<and> (\<exists>code. es_out s' = es_out s @ code)
     \<and> (\<forall>rs. emitted n rs0 s rs \<longrightarrow> (\<exists>rs'. emitted n rs0 s' rs' \<and> (\<forall>k \<le> es_vreg s. rs' (numRegs + k) = rs (numRegs + k))))"

lemma reaches_refl [simp]: "reaches n rs0 s s"
  by (auto simp: reaches_def)

lemma reaches_trans: "reaches n rs0 s s' \<Longrightarrow> reaches n rs0 s' s'' \<Longrightarrow> reaches n rs0 s s''"
  unfolding reaches_def by (metis append_assoc order_trans)

lemma emitted_unique: "emitted n rs0 s rs \<Longrightarrow> emitted n rs0 s rs' \<Longrightarrow> rs = rs'"
  by (simp add: emitted_def)

lemma holds_reaches: "holds n rs0 s a v \<Longrightarrow> reaches n rs0 s s' \<Longrightarrow> holds n rs0 s' a v"
  unfolding holds_def reaches_def by (metis order_trans)

lemma vreg64_sel [simp]: "isReg (vreg64 k)" "arg_bits (vreg64 k) = 64" "reg_to_uid (ma_reg (vreg64 k)) = numRegs + k"
  by (simp_all add: vreg64_def MReg_def isReg_def arg_bits_def retype_def reg_to_uid_def marg0_def)

lemma take_bit_64 [simp]: "take_bit 64 (x :: u64) = x" "x AND NOT (mask 64 :: u64) = 0"
  by (auto intro!: bit_word_eqI simp: bit_take_bit_iff bit_and_iff bit_not_iff bit_mask_iff)

lemma rd_vreg64 [simp]: "rd (vreg64 k) rs = rs (numRegs + k)"
  by (simp add: rd_def)

lemma wr_vreg64 [simp]: "wr (vreg64 k) v rs = rs(numRegs + k := v)"
  by (simp add: wr_def Let_def)

lemma rd_imm [simp]: "rd (MImm64 c) rs = c" "k < 256 \<Longrightarrow> rd (e_imm8 k) rs = of_nat k"
  by (auto simp: rd_def isReg_def MImm64_def MImm8_def e_imm8_def marg0_def unsigned_of_nat take_bit_nat_eq_self)

lemma e_fresh_eq: "e_fresh s = (vreg64 (es_vreg s + 1), s\<lparr>es_vreg := es_vreg s + 1\<rparr>)"
  by (simp add: e_fresh_def get_new_register_def vreg64_def Let_def)

lemma mk_instr_args [simp]:
  "mi_args (mk_instr op [a]) ! 0 = a"
  "mi_args (mk_instr op [a, b]) ! 0 = a" "mi_args (mk_instr op [a, b]) ! 1 = b"
  "mi_args (mk_instr op [a, b]) ! Suc 0 = b"
  "mi_args (mk_instr op [a, b, c, d]) ! 0 = a" "mi_args (mk_instr op [a, b, c, d]) ! Suc 0 = b" "mi_args (mk_instr op [a, b, c, d]) ! 1 = b"
  "mi_args (mk_instr op [a, b, c, d]) ! 2 = c" "mi_args (mk_instr op [a, b, c, d]) ! 3 = d"
  by (simp_all add: mk_instr_def)

lemma emitted_put:
  "emitted n rs0 s rs \<Longrightarrow> run_instr (mk_instr op as) rs = Some rs' \<Longrightarrow> emitted n rs0 (e_put op as s) rs'"
  by (simp add: emitted_def e_put_def run_code_append)

lemma emitted_vreg [simp]: "emitted n rs0 (s\<lparr>es_vreg := k\<rparr>) = emitted n rs0 s"
  by (simp add: emitted_def fun_eq_iff)

lemma vreg64_inj [simp]: "vreg64 i = vreg64 j \<longleftrightarrow> i = j"
  by (auto simp: vreg64_def MReg_def retype_def marg0_def)

lemma unat_small [simp]: "k < 256 \<Longrightarrow> unat (of_nat k :: u64) = k"
  by (simp add: unsigned_of_nat take_bit_nat_eq_self)

lemma holdsI: "emitted n rs0 s rs \<Longrightarrow> k \<le> es_vreg s \<Longrightarrow> rs (numRegs + k) = v \<Longrightarrow> holds n rs0 s (vreg64 k) v"
  by (auto simp: holds_def)

lemma reachesI:
  assumes "emitted n rs0 s rs" "emitted n rs0 s' rs'" "es_vreg s \<le> es_vreg s'" "es_out s' = es_out s @ code"
    "\<And>k. k \<le> es_vreg s \<Longrightarrow> rs' (numRegs + k) = rs (numRegs + k)"
  shows "reaches n rs0 s s'"
  unfolding reaches_def using assms emitted_unique[OF assms(1)] by blast

lemma e_put_sel [simp]: "es_vreg (e_put op as s) = es_vreg s" "es_out (e_put op as s) = es_out s @ [mk_instr op as]"
  by (simp_all add: e_put_def)

text \<open>One instruction on a fresh copy.\<close>

lemma fresh_put:
  assumes rs: "emitted n rs0 s rs"
    and run: "run_instr (mk_instr op (vreg64 (es_vreg s + 1) # as)) rs = Some (rs(numRegs + (es_vreg s + 1) := w))"
  shows "let (d, s1) = e_fresh s; s2 = e_put op (d # as) s1
    in holds n rs0 s2 d w \<and> reaches n rs0 s s2"
proof -
  let ?s2 = "e_put op (vreg64 (es_vreg s + 1) # as) (s\<lparr>es_vreg := es_vreg s + 1\<rparr>)"
  have e: "emitted n rs0 ?s2 (rs(numRegs + (es_vreg s + 1) := w))"
    using rs run by (intro emitted_put[of _ _ _ rs]) simp_all
  have "holds n rs0 ?s2 (vreg64 (es_vreg s + 1)) w" by (rule holdsI[OF e]) simp_all
  moreover have "reaches n rs0 s ?s2" by (rule reachesI[OF rs e]) simp_all
  ultimately show ?thesis by (simp add: e_fresh_eq Let_def)
qed

lemma copy_put:
  assumes src: "emitted n rs0 s rs" "rd src rs = v"
    and run: "\<And>rs'. rs' (numRegs + (es_vreg s + 1)) = v \<Longrightarrow> (\<And>k. k \<le> es_vreg s \<Longrightarrow> rs' (numRegs + k) = rs (numRegs + k)) \<Longrightarrow>
      run_instr (mk_instr op (vreg64 (es_vreg s + 1) # as)) rs' = Some (rs'(numRegs + (es_vreg s + 1) := w))"
  shows "let (d, s1) = e_copy src s; s2 = e_put op (d # as) s1
    in holds n rs0 s2 d w \<and> reaches n rs0 s s2"
proof -
  let ?k = "es_vreg s + 1" and ?d = "vreg64 (es_vreg s + 1)"
  let ?s1 = "e_put (GBase GBase_mov) [?d, src] (s\<lparr>es_vreg := ?k\<rparr>)"
  let ?s2 = "e_put op (?d # as) ?s1"
  let ?rs1 = "rs(numRegs + ?k := v)"
  have "emitted n rs0 ?s1 ?rs1"
    using src by (intro emitted_put[of _ _ _ rs]) (simp_all add: run_instr_def)
  then have e: "emitted n rs0 ?s2 (?rs1(numRegs + ?k := w))"
    by (rule emitted_put) (rule run, simp_all)
  have "holds n rs0 ?s2 ?d w" by (rule holdsI[OF e]) simp_all
  moreover have "reaches n rs0 s ?s2" by (rule reachesI[OF src(1) e]) simp_all
  ultimately show ?thesis by (simp add: e_copy_def e_fresh_eq Let_def)
qed

lemma holdsE:
  assumes "holds n rs0 s a v"
  obtains k rs where "a = vreg64 k" "k \<le> es_vreg s" "emitted n rs0 s rs" "rs (numRegs + k) = v"
  using assms by (auto simp: holds_def)

lemma holds_copy:
  assumes "holds n rs0 s a v" "e_copy a s = (d, s')"
  shows "holds n rs0 s' d v \<and> reaches n rs0 s s'"
proof -
  obtain k rs where k: "a = vreg64 k" "k \<le> es_vreg s" "emitted n rs0 s rs" "rs (numRegs + k) = v" using assms(1) by (rule holdsE)
  have "run_instr (mk_instr (GBase GBase_mov) (vreg64 (es_vreg s + 1) # [a])) rs = Some (rs(numRegs + (es_vreg s + 1) := v))"
    using k by (simp add: run_instr_def)
  from fresh_put[OF k(3) this] show ?thesis using assms(2) by (auto simp: e_copy_def Let_def split: prod.splits)
qed

lemma holds_const:
  assumes "emitted n rs0 s rs" "e_const_reg c s = (d, s')"
  shows "holds n rs0 s' d c \<and> reaches n rs0 s s'"
  using fresh_put[OF assms(1), of "GBase GBase_mov" "[MImm64 c]" c] assms(2)
  by (auto simp: e_const_reg_def Let_def run_instr_def split: prod.splits)

text \<open>The unary and binary operations, each on a copy of its first operand.\<close>

lemma holds_unary:
  assumes "holds n rs0 s a v"
    and run: "\<And>k rs. rs (numRegs + k) = v \<Longrightarrow> run_instr (mk_instr op (vreg64 k # as)) rs = Some (rs(numRegs + k := w))"
  shows "let (d, s1) = e_copy a s; s2 = e_put op (d # as) s1 in holds n rs0 s2 d w \<and> reaches n rs0 s s2"
proof -
  obtain k rs where k: "a = vreg64 k" "k \<le> es_vreg s" "emitted n rs0 s rs" "rs (numRegs + k) = v" using assms(1) by (rule holdsE)
  show ?thesis by (rule copy_put[OF k(3)]) (use k run in auto)
qed

lemma holds_binary:
  assumes "holds n rs0 s a v" "holds n rs0 s b u"
    and run: "\<And>k j rs. rs (numRegs + k) = v \<Longrightarrow> rs (numRegs + j) = u \<Longrightarrow>
      run_instr (mk_instr op [vreg64 k, vreg64 j]) rs = Some (rs(numRegs + k := w))"
  shows "let (d, s1) = e_copy a s; s2 = e_put op [d, b] s1 in holds n rs0 s2 d w \<and> reaches n rs0 s s2"
proof -
  obtain k rs where k: "a = vreg64 k" "k \<le> es_vreg s" "emitted n rs0 s rs" "rs (numRegs + k) = v" using assms(1) by (rule holdsE)
  obtain j rs' where j: "b = vreg64 j" "j \<le> es_vreg s" "emitted n rs0 s rs'" "rs' (numRegs + j) = u" using assms(2) by (rule holdsE)
  have "rs' = rs" by (rule emitted_unique[OF j(3) k(3)])
  then show ?thesis by (intro copy_put[OF k(3)]) (use k j run in auto)
qed

lemma holds_shr: "holds n rs0 s a v \<Longrightarrow> k < 64 \<Longrightarrow> e_shr a k s = (d, s') \<Longrightarrow> holds n rs0 s' d (drop_bit k v) \<and> reaches n rs0 s s'"
  using holds_unary[of n rs0 s a v "GArith GArith_shr2" "[e_imm8 k]" "drop_bit k v"]
  by (auto simp: e_shr_def Let_def run_instr_def run_shift_def split: prod.splits)

lemma holds_sar: "holds n rs0 s a v \<Longrightarrow> k < 64 \<Longrightarrow> e_sar a k s = (d, s') \<Longrightarrow> holds n rs0 s' d (signed_drop_bit k v) \<and> reaches n rs0 s s'"
  using holds_unary[of n rs0 s a v "GArith GArith_sar2" "[e_imm8 k]" "signed_drop_bit k v"]
  by (auto simp: e_sar_def Let_def run_instr_def run_shift_def split: prod.splits)

lemma holds_shl: "holds n rs0 s a v \<Longrightarrow> k < 64 \<Longrightarrow> e_shl a k s = (d, s') \<Longrightarrow> holds n rs0 s' d (push_bit k v) \<and> reaches n rs0 s s'"
  using holds_unary[of n rs0 s a v "GArith GArith_shl2" "[e_imm8 k]" "push_bit k v"]
  by (auto simp: e_shl_def Let_def run_instr_def run_shift_def split: prod.splits)

lemma holds_neg: "holds n rs0 s a v \<Longrightarrow> e_neg a s = (d, s') \<Longrightarrow> holds n rs0 s' d (- v) \<and> reaches n rs0 s s'"
  using holds_unary[of n rs0 s a v "GArith GArith_neg1" "[]" "- v"]
  by (auto simp: e_neg_def Let_def run_instr_def split: prod.splits)

lemma holds_mul_const: "holds n rs0 s a v \<Longrightarrow> e_mul_const a c s = (d, s') \<Longrightarrow> holds n rs0 s' d (v * c) \<and> reaches n rs0 s s'"
  using holds_unary[of n rs0 s a v "GArith GArith_mul2" "[MImm64 c]" "v * c"]
  by (auto simp: e_mul_const_def Let_def run_instr_def split: prod.splits)

lemma holds_add: "holds n rs0 s a v \<Longrightarrow> holds n rs0 s b u \<Longrightarrow> e_add a b s = (d, s') \<Longrightarrow> holds n rs0 s' d (v + u) \<and> reaches n rs0 s s'"
  using holds_binary[of n rs0 s a v b u "GArith GArith_add2" "v + u"]
  by (auto simp: e_add_def Let_def run_instr_def split: prod.splits)

lemma holds_sub: "holds n rs0 s a v \<Longrightarrow> holds n rs0 s b u \<Longrightarrow> e_sub a b s = (d, s') \<Longrightarrow> holds n rs0 s' d (v - u) \<and> reaches n rs0 s s'"
  using holds_binary[of n rs0 s a v b u "GArith GArith_sub2" "v - u"]
  by (auto simp: e_sub_def Let_def run_instr_def split: prod.splits)

lemma real_reg [simp]:
  "isReg (MReg r Ty_Int64)" "arg_bits (MReg r Ty_Int64) = 64"
  "reg_to_uid (ma_reg (MReg VReg_RAX Ty_Int64)) = 0" "reg_to_uid (ma_reg (MReg VReg_RDX Ty_Int64)) = 3"
  by (simp_all add: MReg_def isReg_def arg_bits_def retype_def reg_to_uid_def marg0_def VReg_RAX_def VReg_RDX_def)

lemma holds_mulh:
  assumes "holds n rs0 s a v" "e_mulh a c sg s = (d, s')"
  shows "holds n rs0 s' d (if sg then smul_high v c else umul_high v c) \<and> reaches n rs0 s s'"
proof -
  let ?rax = "MReg VReg_RAX Ty_Int64" and ?rdx = "MReg VReg_RDX Ty_Int64"
  let ?op = "GArith (if sg then GArith_smulh else GArith_umulh)" and ?h = "if sg then smul_high v c else umul_high v c"
  obtain k rs where k: "a = vreg64 k" "k \<le> es_vreg s" "emitted n rs0 s rs" "rs (numRegs + k) = v" using assms(1) by (rule holdsE)
  obtain creg s1 where s1: "e_const_reg c s = (creg, s1)" by (metis prod.exhaust)
  have h1: "holds n rs0 s1 creg c" "reaches n rs0 s s1" using holds_const[OF k(3) s1] by simp_all
  have "holds n rs0 s1 a v" by (rule holds_reaches[OF assms(1) h1(2)])
  then obtain rs1 where r1: "emitted n rs0 s1 rs1" "rs1 (numRegs + k) = v" "k \<le> es_vreg s1"
    using k(1) by (auto elim!: holdsE)
  obtain j where j: "creg = vreg64 j" "j \<le> es_vreg s1" "rs1 (numRegs + j) = c"
    using h1(1) emitted_unique[OF _ r1(1)] by (auto elim!: holdsE)
  let ?s2 = "e_put (GBase GBase_mov) [?rax, a] s1" and ?rs2 = "rs1(0 := v)"
  let ?s3 = "e_put ?op [?rax, ?rdx, ?rax, creg] ?s2" and ?rs3 = "rs1(0 := v * c, 3 := ?h)"
  have nr: "numRegs + i \<noteq> 0" "numRegs + i \<noteq> 3" for i by (simp_all add: numRegs_def)
  have e2: "emitted n rs0 ?s2 ?rs2"
    by (rule emitted_put[OF r1(1)]) (simp add: run_instr_def k(1) r1(2) rd_def wr_def Let_def)
  have e3: "emitted n rs0 ?s3 ?rs3"
    by (rule emitted_put[OF e2])
      (simp add: run_instr_def j rd_def wr_def Let_def numRegs_def; simp add: numRegs_def[symmetric] j fun_upd_twist)
  have e4: "reaches n rs0 s ?s3"
    by (rule reaches_trans[OF h1(2)], rule reachesI[OF r1(1) e3]) (simp_all add: numRegs_def)
  have "let (d, s1) = e_fresh ?s3; s2 = e_put (GBase GBase_mov) (d # [?rdx]) s1 in holds n rs0 s2 d ?h \<and> reaches n rs0 ?s3 s2"
    by (rule fresh_put[OF e3]) (simp add: run_instr_def rd_def)
  then show ?thesis
    using assms(2) s1 reaches_trans[OF e4] by (auto simp: e_mulh_def e_copy_def Let_def split: prod.splits)
qed

section \<open>Unsigned division\<close>

lemma unat_word_eqI: "unat a = unat b \<Longrightarrow> a = (b :: u64)"
  by (metis of_nat_unat ucast_id)

lemma single_bit_countr:
  assumes "std_has_single_bit (d :: u64)"
  shows "unat d = 2 ^ std_countr_zero d" "std_countr_zero d < 64"
proof -
  obtain k where k: "unat d = 2 ^ k" using assms by (auto simp: single_bit_iff)
  have nz: "d \<noteq> 0" using k by auto
  have k64: "k < 64"
  proof (rule ccontr)
    assume "\<not> k < 64"
    then have "(2 :: nat) ^ 64 \<le> 2 ^ k" by (intro power_increasing) simp_all
    then show False using k unat_less_64[of d] by simp
  qed
  have "d = push_bit k 1" by (rule unat_word_eqI) (use k k64 in \<open>simp add: unat_pow2 del: push_bit_of_1\<close>)
  moreover have "bit d (std_countr_zero d)" by (rule std_countr_zero_bit[OF nz])
  ultimately have "std_countr_zero d = k" by (auto simp: bit_push_bit_iff bit_1_iff simp del: push_bit_of_1)
  then show "unat d = 2 ^ std_countr_zero d" "std_countr_zero d < 64" using k k64 by simp_all
qed

lemma unat_drop [simp]: "unat (drop_bit k v :: u64) = unat v div 2 ^ k"
  unfolding unat_drop_bit_eq by (simp add: drop_bit_eq_div)

lemma unat_mult_small: "unat v * unat c < 2 ^ 64 \<Longrightarrow> unat (v * c :: u64) = unat v * unat c"
  by (simp add: unat_mult_lem[symmetric])

lemma unat_umul_high: "unat (umul_high a b) = unat a * unat b div 2 ^ 64"
proof -
  have "unat a * unat b div 2 ^ 64 < 2 ^ 64"
    using mult_strict_mono[OF unat_less_64[of a] unat_less_64[of b]] by (intro less_mult_imp_div_less) simp
  then show ?thesis by (simp add: umul_high_def unsigned_of_nat take_bit_nat_eq_self)
qed

lemma width_pow: "width \<le> 32 \<Longrightarrow> a < (2 :: nat) ^ width \<Longrightarrow> b < 2 ^ width \<Longrightarrow> a * b < 2 ^ 64"
proof -
  assume "width \<le> 32" and ab: "a < 2 ^ width" "b < 2 ^ width"
  then have "(2 :: nat) ^ width \<le> 2 ^ 32" by (intro power_increasing) simp_all
  then have "a < 2 ^ 32" "b < 2 ^ 32" using ab by linarith+
  then show ?thesis using mult_strict_mono[of a "2 ^ 32" b "2 ^ 32"] by simp
qed

text \<open>The product of an operand of the width with a multiplier, shifted right by the width or more.\<close>

lemma high_product:
  assumes w: "width \<in> {8, 16, 32}" and x: "unat v < 2 ^ width" "unat c < 2 ^ width"
  shows "unat (drop_bit k (v * c :: u64)) = unat v * unat c div 2 ^ k"
proof -
  have le: "width \<le> 32" using w by auto
  show ?thesis using unat_mult_small[OF width_pow[OF le x]] by (simp only: unat_drop)
qed

lemma holds_udiv:
  assumes h: "holds n rs0 s x v" and w: "width \<in> {8, 16, 32, 64}" and v: "unat v < 2 ^ width"
    and e: "e_udiv x d width s = ((q, ok), s')"
    and entry: "std_has_single_bit d \<or> udiv_magic d width \<noteq> None"
  shows "ok \<and> holds n rs0 s' q (v div d) \<and> reaches n rs0 s s'"
proof (cases "std_has_single_bit d")
  case True
  have "v div d = drop_bit (std_countr_zero d) v"
    by (rule unat_word_eqI) (simp only: unat_div single_bit_countr(1)[OF True] unat_drop)
  then show ?thesis
    using e h True holds_shr[OF h single_bit_countr(2)[OF True]]
    by (auto simp: e_udiv_def split: if_splits prod.splits)
next
  case False
  then obtain m where m: "udiv_magic d width = Some m" using entry by auto
  note good = udiv_magic_good(2)[OF m, unfolded udiv_good_def]
  have app: "udiv_apply m width (unat v) = unat (v div d)" using good v by (simp add: unat_div)
  have mul: "unat (um_mul m) < 2 ^ width" using good by simp
  show ?thesis
  proof (cases "um_add m")
    case noadd: False
    have sh: "um_pre_shift m < 64" "um_shift m < 2 * width" "width = 64 \<Longrightarrow> 64 \<le> um_shift m" using good noadd w by auto
    obtain y s1 where y: "(if um_pre_shift m \<noteq> 0 then e_shr x (um_pre_shift m) s else (x, s)) = (y, s1)" by (metis prod.exhaust)
    let ?y = "drop_bit (um_pre_shift m) v"
    have hy: "holds n rs0 s1 y ?y \<and> reaches n rs0 s s1"
      using y h holds_shr[OF h sh(1)] by (auto split: if_splits)
    have yw: "unat ?y < 2 ^ width" using v by (simp add: order.strict_trans1[OF div_le_dividend])
    show ?thesis
    proof (cases "width = 64")
      case True
      obtain t s2 where t: "e_mulh y (um_mul m) False s1 = (t, s2)" by (metis prod.exhaust)
      have ht: "holds n rs0 s2 t (umul_high ?y (um_mul m)) \<and> reaches n rs0 s1 s2" using holds_mulh[OF _ t] hy by auto
      have "e_shr t (um_shift m - 64) s2 = (q, s')" "ok"
        using e False m noadd y t True by (auto simp: e_udiv_def split: prod.splits)
      moreover have "um_shift m - 64 < 64" using sh(2) True by simp
      moreover have "drop_bit (um_shift m - 64) (umul_high ?y (um_mul m)) = v div d"
        using app noadd sh(3)[OF True]
        by (intro unat_word_eqI)
          (simp only: unat_umul_high unat_drop udiv_apply_def if_False div_mult2_eq[symmetric] power_add[symmetric] le_add_diff_inverse)
      ultimately show ?thesis using holds_shr[of n rs0 s2 t _ "um_shift m - 64" q s'] ht hy reaches_trans by metis
    next
      case w32: False
      obtain t s2 where t: "e_mul_const y (um_mul m) s1 = (t, s2)" by (metis prod.exhaust)
      have ht: "holds n rs0 s2 t (?y * um_mul m) \<and> reaches n rs0 s1 s2" using holds_mul_const[OF _ t] hy by auto
      have "e_shr t (um_shift m) s2 = (q, s')" "ok"
        using e False m noadd y t w32 by (auto simp: e_udiv_def split: prod.splits)
      moreover have "um_shift m < 64" using sh(2) w32 w by auto
      moreover have "drop_bit (um_shift m) (?y * um_mul m) = v div d"
        using app noadd high_product[OF _ yw mul] w w32
        by (intro unat_word_eqI) (auto simp: udiv_apply_def simp del: unat_drop, simp_all)
      ultimately show ?thesis using holds_shr[of n rs0 s2 t _ "um_shift m" q s'] ht hy reaches_trans by metis
    qed
  next
    case add: True
    have sh: "um_shift m \<le> width" "1 \<le> um_shift m" using good add by simp_all
    obtain t s1 where t: "(if width = 64 then e_mulh x (um_mul m) False s
        else (let (m, s) = e_mul_const x (um_mul m) s in e_shr m width s)) = (t, s1)" by (metis prod.exhaust)
    obtain a s2 where a: "e_sub x t s1 = (a, s2)" by (metis prod.exhaust)
    obtain u s3 where u: "e_shr a 1 s2 = (u, s3)" by (metis prod.exhaust)
    obtain b s4 where b: "e_add u t s3 = (b, s4)" by (metis prod.exhaust)
    have q: "e_shr b (um_shift m - 1) s4 = (q, s')" "ok"
      using e False m add t a u b by (auto simp: e_udiv_def Let_def split: prod.splits if_splits)
    define T where "T = (if width = 64 then umul_high v (um_mul m) else drop_bit width (v * um_mul m))"
    have Tn: "unat T = unat v * unat (um_mul m) div 2 ^ width"
      using high_product[OF _ v mul, of width] w by (auto simp: T_def unat_umul_high)
    have ht: "holds n rs0 s1 t T \<and> reaches n rs0 s s1"
    proof (cases "width = 64")
      case False
      obtain p s0 where p: "e_mul_const x (um_mul m) s = (p, s0)" by (metis prod.exhaust)
      have hp: "holds n rs0 s0 p (v * um_mul m) \<and> reaches n rs0 s s0" using holds_mul_const[OF h p] by simp
      have "width < 64" "e_shr p width s0 = (t, s1)" using t p False w by auto
      then show ?thesis using holds_shr[of n rs0 s0 p _ width t s1] hp reaches_trans False by (metis T_def)
    qed (use t holds_mulh[OF h, of _ False] in \<open>auto simp: T_def\<close>)
    have ha: "holds n rs0 s2 a (v - T) \<and> reaches n rs0 s1 s2"
      using holds_sub[OF holds_reaches[OF h] _ a] ht by blast
    have hu: "holds n rs0 s3 u (drop_bit 1 (v - T)) \<and> reaches n rs0 s2 s3"
      using holds_shr[OF _ _ u] ha by auto
    have hb: "holds n rs0 s4 b (drop_bit 1 (v - T) + T) \<and> reaches n rs0 s3 s4"
      using holds_add[OF _ _ b] hu holds_reaches ha ht by blast
    have hq: "holds n rs0 s' q (drop_bit (um_shift m - 1) (drop_bit 1 (v - T) + T)) \<and> reaches n rs0 s4 s'"
      using holds_shr[OF _ _ q(1)] hb sh w by auto
    have le: "unat T \<le> unat v"
    proof -
      have "unat v * unat (um_mul m) \<le> unat v * 2 ^ width" using mul by (intro mult_left_mono) simp_all
      then show ?thesis unfolding Tn using div_le_mono[of _ "unat v * 2 ^ width" "2 ^ width"] by simp
    qed
    then have sub: "unat (v - T) = unat v - unat T" by (simp add: unat_sub word_le_nat_alt)
    have "unat (drop_bit 1 (v - T)) + unat T \<le> unat v" using sub le by simp
    then have "unat (drop_bit 1 (v - T) + T) = (unat v - unat T) div 2 + unat T"
      using unat_less_64[of v] sub by (subst unat_add_lem[THEN iffD1]) simp_all
    then have "drop_bit (um_shift m - 1) (drop_bit 1 (v - T) + T) = v div d"
      using app add Tn by (intro unat_word_eqI) (simp add: udiv_apply_def Let_def add.commute)
    then show ?thesis using hq q(2) ht ha hu hb reaches_trans by metis
  qed
qed

end
