(* ===== verification/ConstDivSound.thy ===== *)
theory ConstDivSound
  imports ConstDivEmit
begin

text \<open>
  The sequences of \<open>ConstDivEmit\<close> compute quotients and remainders: the signed divisions, the whole of
  \<^verbatim>\<open>generate_const_div\<close>, and which divisions it accepts.
\<close>

section \<open>Signed division\<close>

text \<open>The values are read as integers; a word is determined by its residue.\<close>

lemma of_int_sint [simp]: "of_int (sint (x :: u64)) = x"
  by simp

lemma sint_of_int64: "- (2 ^ 63) \<le> i \<Longrightarrow> i < 2 ^ 63 \<Longrightarrow> sint (of_int i :: u64) = i"
  by (simp add: signed_of_int signed_take_bit_int_eq_self)

lemma sint_bounds64: "- (2 ^ 63) \<le> sint (x :: u64)" "sint (x :: u64) < 2 ^ 63"
  using sint_ge[of x] sint_lt[of x] by simp_all

lemma sar_int:
  assumes "- (2 ^ 63) \<le> i" "i < 2 ^ 63"
  shows "signed_drop_bit k (of_int i :: u64) = of_int (i div 2 ^ k)"
proof -
  have "sint (signed_drop_bit k (of_int i :: u64)) = i div 2 ^ k"
    unfolding sint_signed_drop_bit_eq sint_of_int64[OF assms] by (simp add: drop_bit_eq_div)
  then show ?thesis by (metis of_int_sint)
qed

lemma div_pow_bounds:
  assumes "- (2 ^ 63) \<le> i" "i < (2 :: int) ^ 63"
  shows "- (2 ^ 63) \<le> i div 2 ^ k" "i div 2 ^ k < 2 ^ 63"
proof -
  have "min 0 i \<le> i div 2 ^ k \<and> i div 2 ^ k \<le> max 0 i"
  proof (cases "0 \<le> i")
    case True
    then show ?thesis using zdiv_mono2[of i 1 "2 ^ k"] by (simp add: pos_imp_zdiv_nonneg_iff)
  next
    case False
    then show ?thesis using zdiv_mono2_neg[of i 1 "2 ^ k"] by (simp add: div_neg_pos_less0 less_imp_le)
  qed
  then show "- (2 ^ 63) \<le> i div 2 ^ k" "i div 2 ^ k < 2 ^ 63" using assms by linarith+
qed

text \<open>The sign bit: what \<^verbatim>\<open>shr(q, 63)\<close> and \<^verbatim>\<open>sar(x, 63)\<close> give.\<close>

lemma shr63: "drop_bit 63 (x :: u64) = (if sint x < 0 then 1 else 0)"
proof -
  have "bit x (63 + n) \<longleftrightarrow> n = 0 \<and> bit x 63" for n using bit_imp_le_length[of x "63 + n"] by (cases n) auto
  then have "drop_bit 63 x = (if bit x 63 then 1 else 0)"
    by (intro bit_word_eqI) (simp add: bit_drop_bit_eq bit_1_iff)
  then show ?thesis using bit_last_iff[of x] by simp
qed

lemma sar63: "signed_drop_bit 63 (x :: u64) = (if sint x < 0 then - 1 else 0)"
proof -
  have "sint x div 2 ^ 63 = (if sint x < 0 then - 1 else 0)"
    using sint_bounds64[of x] by (auto simp: div_pos_pos_trivial intro: div_eq_minus1 div_pos_pos_trivial)
  then show ?thesis using sar_int[OF sint_bounds64, of 63 x] by simp
qed

lemma drop_minus1: "k \<le> 63 \<Longrightarrow> drop_bit (64 - k) (- 1 :: u64) = of_int (2 ^ k - 1)"
proof -
  assume k: "k \<le> 63"
  have "drop_bit (64 - k) (- 1 :: u64) = mask k"
    using k by (intro bit_word_eqI) (auto simp: bit_drop_bit_eq bit_mask_iff)
  then show ?thesis by (simp add: mask_eq_exp_minus_1)
qed

text \<open>A power of two: the bias makes the shift round towards zero.\<close>

lemma sdiv_pow2: "i sdiv 2 ^ k = (i + (if i < 0 then 2 ^ k - 1 else 0)) div (2 :: int) ^ k"
proof (cases "i < 0")
  case True
  have B: "(0 :: int) < 2 ^ k" by simp
  have "(i + (2 ^ k - 1)) div 2 ^ k = - (- i div 2 ^ k)"
  proof (rule int_div_pos_eq[where r = "2 ^ k - 1 - - i mod 2 ^ k"])
    show "i + (2 ^ k - 1) = 2 ^ k * - (- i div 2 ^ k) + (2 ^ k - 1 - - i mod 2 ^ k)"
      using div_mult_mod_eq[of "- i" "2 ^ k"] by (simp add: algebra_simps)
    show "0 \<le> 2 ^ k - 1 - - i mod 2 ^ k" "2 ^ k - 1 - - i mod 2 ^ k < 2 ^ k"
      using pos_mod_bound[OF B, of "- i"] pos_mod_sign[OF B, of "- i"] by linarith+
  qed
  then show ?thesis using True by (simp add: signed_divide_int_def sgn_if abs_if)
qed (simp add: signed_divide_int_def sgn_if abs_if)


lemma sdiv_abs: "i sdiv d = (if d < 0 then - (i sdiv \<bar>d\<bar>) else i sdiv \<bar>d :: int\<bar>)"
  by (auto simp: signed_divide_int_def sgn_mult sgn_if)

text \<open>A multiplier: the product of the operand with it, then the shift, then one more if negative.\<close>

lemma product_bounds:
  assumes "- (2 ^ (width - 1)) \<le> i" "i < (2 :: int) ^ (width - 1)" "0 \<le> m" "m < 2 ^ width" "0 < width"
  shows "- (2 ^ (2 * width - 1)) \<le> i * m" "i * m < 2 ^ (2 * width - 1)"
proof -
  have "\<bar>i\<bar> \<le> 2 ^ (width - 1)" using assms(1,2) by linarith
  then have "\<bar>i\<bar> * m \<le> 2 ^ (width - 1) * m" using assms(3) by (intro mult_right_mono) simp_all
  also have "\<dots> < 2 ^ (width - 1) * 2 ^ width" using assms(4) by (intro mult_strict_left_mono) simp_all
  also have "(2 :: int) ^ (width - 1) * 2 ^ width = 2 ^ (2 * width - 1)"
    using assms(5) by (simp add: power_add[symmetric])
  finally have "\<bar>i * m\<bar> < 2 ^ (2 * width - 1)" using assms(3) by (simp add: abs_mult)
  then show "- (2 ^ (2 * width - 1)) \<le> i * m" "i * m < 2 ^ (2 * width - 1)" by linarith+
qed

lemma sint_of_unat: "sint (m :: u64) = int (unat m) - (if 2 ^ 63 \<le> int (unat m) then 2 ^ 64 else 0)"
proof -
  have u: "int (unat m) = sint m mod 2 ^ 64"
    using uint_sint[of m] by (simp add: take_bit_eq_mod)
  show ?thesis
  proof (cases "sint m < 0")
    case True
    then have "int (unat m) = sint m + 2 ^ 64"
      unfolding u by (intro int_mod_pos_eq[where q = "- 1"]) (use sint_bounds64[of m] True in simp_all)
    then show ?thesis using True sint_bounds64[of m] by auto
  next
    case False
    then have "int (unat m) = sint m" unfolding u using sint_bounds64[of m] by (intro mod_pos_pos_trivial) auto
    then show ?thesis using sint_bounds64[of m] by auto
  qed
qed

lemma smul_high_eq:
  fixes v m :: u64
  shows "smul_high v m + (if m > 0x7FFFFFFFFFFFFFFF then v else 0) = of_int (sint v * int (unat m) div 2 ^ 64)"
proof (cases "m > 0x7FFFFFFFFFFFFFFF")
  case True
  then have "2 ^ 63 \<le> int (unat m)" by (simp add: word_less_def)
  then have *: "int (unat m) = sint m + 2 ^ 64" by (simp add: sint_of_unat)
  have "sint v * int (unat m) = sint v * sint m + 2 ^ 64 * sint v" unfolding * by (simp only: distrib_left mult.commute)
  then have "sint v * int (unat m) div 2 ^ 64 = sint v * sint m div 2 ^ 64 + sint v"
    by (simp only: div_mult_self2) simp
  then show ?thesis using True by (simp add: smul_high_def)
next
  case False
  then have "\<not> 2 ^ 63 \<le> int (unat m)" by (simp add: word_less_def)
  then have "sint m = int (unat m)" by (simp add: sint_of_unat)
  then show ?thesis using False by (simp add: smul_high_def)
qed

text \<open>The rounded quotient \<open>q0\<close> of a multiplier, then the fix for negative ones.\<close>

lemma sdiv_finish:
  assumes "sdiv_apply m i = i sdiv int (unat ad)" "- (2 ^ 63) \<le> i * int (unat (sm_mul m)) div 2 ^ sm_shift m"
    "i * int (unat (sm_mul m)) div 2 ^ sm_shift m < 2 ^ 63" "q0 = of_int (i * int (unat (sm_mul m)) div 2 ^ sm_shift m)"
  shows "q0 + drop_bit 63 q0 = (of_int (i sdiv int (unat ad)) :: u64)"
proof -
  have "sint q0 = i * int (unat (sm_mul m)) div 2 ^ sm_shift m"
    unfolding assms(4) by (rule sint_of_int64[OF assms(2,3)])
  then show ?thesis unfolding assms(1)[symmetric] shr63 sdiv_apply_def by (simp add: assms(4) Let_def)
qed

lemma sdiv_widths: "width \<in> {8, 16, 32, 64 :: nat} \<Longrightarrow> 0 < width \<and> width \<le> 64 \<and> (width \<noteq> 64 \<longrightarrow> width \<le> 32)"
  by auto

lemma bias_value:
  fixes v :: u64
  assumes "k \<le> 63"
  shows "v + drop_bit (64 - k) (signed_drop_bit 63 v) = of_int (sint v + (if sint v < 0 then 2 ^ k - 1 else 0))"
  using drop_minus1[OF assms] by (simp add: sar63)

lemma bias_bounds:
  assumes "k \<le> 63"
  shows "- (2 ^ 63) \<le> sint (v :: u64) + (if sint v < 0 then 2 ^ k - 1 else 0)"
    "sint v + (if sint v < 0 then 2 ^ k - 1 else 0) < 2 ^ 63"
proof -
  have "(2 :: int) ^ k \<le> 2 ^ 63" using assms by (intro power_increasing) simp_all
  moreover have "(1 :: int) \<le> 2 ^ k" by simp
  ultimately show "- (2 ^ 63) \<le> sint v + (if sint v < 0 then 2 ^ k - 1 else 0)"
    "sint v + (if sint v < 0 then 2 ^ k - 1 else 0) < 2 ^ 63"
    using sint_bounds64[of v] by (auto simp del: one_le_power)
qed

lemma high_bounds: "min 0 i \<le> i * int (unat (m :: u64)) div 2 ^ 64 \<and> i * int (unat m) div 2 ^ 64 \<le> max 0 i"
proof -
  have "int (unat m) < int (2 ^ 64)" by (rule of_nat_less_iff[THEN iffD2, OF unat_less_64])
  then have m: "0 \<le> int (unat m)" "int (unat m) \<le> 2 ^ 64" by simp_all
  show ?thesis
  proof (cases "0 \<le> i")
    case True
    then have "0 \<le> i * int (unat m)" "i * int (unat m) \<le> i * 2 ^ 64" using m by (simp_all add: mult_left_mono)
    then show ?thesis using True zdiv_mono1[of 0 "i * int (unat m)" "2 ^ 64"] zdiv_mono1[of "i * int (unat m)" "i * 2 ^ 64" "2 ^ 64"] by simp
  next
    case False
    then have "i * int (unat m) \<le> 0" "i * 2 ^ 64 \<le> i * int (unat m)"
      using m by (simp_all add: mult_nonpos_nonneg mult_left_mono_neg)
    then show ?thesis using False zdiv_mono1[of "i * int (unat m)" 0 "2 ^ 64"] zdiv_mono1[of "i * 2 ^ 64" "i * int (unat m)" "2 ^ 64"] by simp
  qed
qed

lemma holds_sdiv_pow2:
  assumes h: "holds n rs0 s x v" and w: "width \<in> {8, 16, 32, 64}"
    and v: "- (2 ^ (width - 1)) \<le> sint v" "sint v < 2 ^ (width - 1)"
    and e: "e_sdiv_abs x ad width s = ((q, ok), s')" and ad1: "ad \<noteq> 1"
    and True: "std_has_single_bit ad"
  shows "ok \<and> holds n rs0 s' q (of_int (sint v sdiv int (unat ad))) \<and> reaches n rs0 s s'"
proof -
  define k where "k = std_countr_zero ad"
  have k: "unat ad = 2 ^ k" "k \<le> 63" using single_bit_countr[OF True] by (simp_all add: k_def)
  have k0: "0 < k"
  proof (rule ccontr)
    assume "\<not> 0 < k"
    then have "unat ad = unat (1 :: u64)" using k(1) by simp
    then show False using ad1 unat_word_eqI by blast
  qed
  obtain g s1 where g: "e_sar x 63 s = (g, s1)" by (metis prod.exhaust)
  obtain b s2 where b: "e_shr g (64 - k) s1 = (b, s2)" by (metis prod.exhaust)
  obtain t s3 where t: "e_add x b s2 = (t, s3)" by (metis prod.exhaust)
  have q: "e_sar t k s3 = (q, s')" "ok"
    using e ad1 True g b t by (auto simp: e_sdiv_abs_def k_def[symmetric] Let_def split: prod.splits)
  have hg: "holds n rs0 s1 g (signed_drop_bit 63 v) \<and> reaches n rs0 s s1" by (rule holds_sar[OF h _ g]) simp
  have hb: "holds n rs0 s2 b (drop_bit (64 - k) (signed_drop_bit 63 v)) \<and> reaches n rs0 s1 s2"
    by (rule holds_shr[OF _ _ b]) (use hg k0 in simp_all)
  have x2: "holds n rs0 s2 x v" using h hg hb holds_reaches by blast
  have ht: "holds n rs0 s3 t (of_int (sint v + (if sint v < 0 then 2 ^ k - 1 else 0))) \<and> reaches n rs0 s2 s3"
    using holds_add[OF x2 _ t] hb bias_value[OF k(2), of v] by metis
  have "k < 64" using k(2) by simp
  then have hq: "holds n rs0 s' q (signed_drop_bit k (of_int (sint v + (if sint v < 0 then 2 ^ k - 1 else 0)))) \<and> reaches n rs0 s3 s'"
    using holds_sar[OF _ _ q(1)] ht by blast
  moreover have "signed_drop_bit k (of_int (sint v + (if sint v < 0 then 2 ^ k - 1 else 0)) :: u64) = of_int (sint v sdiv int (unat ad))"
    using sar_int[OF bias_bounds[OF k(2), of v]] by (simp only: k(1) of_nat_power of_nat_numeral sdiv_pow2)
  ultimately show ?thesis using q(2) hg hb ht reaches_trans by metis
qed

lemma holds_sdiv_q0:
  assumes h: "holds n rs0 s x v" and w: "width \<in> {8, 16, 32, 64}"
    and v: "- (2 ^ (width - 1)) \<le> sint v" "sint v < 2 ^ (width - 1)"
    and good: "sdiv_good d width m" and e: "e_sdiv_q0 x m width s = (q0, s')"
  shows "holds n rs0 s' q0 (of_int (sint v * int (unat (sm_mul m)) div 2 ^ sm_shift m)) \<and> reaches n rs0 s s' \<and>
    - (2 ^ 63) \<le> sint v * int (unat (sm_mul m)) div 2 ^ sm_shift m \<and> sint v * int (unat (sm_mul m)) div 2 ^ sm_shift m < 2 ^ 63"
proof (cases "width = 64")
  let ?p = "sint v * int (unat (sm_mul m))"
  case True
  have sh: "64 \<le> sm_shift m" "sm_shift m - 64 < 64" using good True by (auto simp: sdiv_good_def)
  obtain t s3 where t: "e_mulh x (sm_mul m) True s = (t, s3)" by (metis prod.exhaust)
  obtain u s4 where u: "(if sm_mul m > 0x7FFFFFFFFFFFFFFF then e_add t x s3 else (t, s3)) = (u, s4)" by (metis prod.exhaust)
  have f: "e_sar u (sm_shift m - 64) s4 = (q0, s')" using e True t u by (simp add: e_sdiv_q0_def)
  have ht: "holds n rs0 s3 t (smul_high v (sm_mul m))" "reaches n rs0 s s3" using holds_mulh[OF h t] by simp_all
  have hu: "holds n rs0 s4 u (of_int (?p div 2 ^ 64)) \<and> reaches n rs0 s3 s4"
  proof (cases "sm_mul m > 0x7FFFFFFFFFFFFFFF")
    case True
    then have "e_add t x s3 = (u, s4)" using u by simp
    from holds_add[OF ht(1) holds_reaches[OF h ht(2)] this] show ?thesis using smul_high_eq[of v "sm_mul m"] True by simp
  next
    case False
    then show ?thesis using u ht(1) smul_high_eq[of v "sm_mul m"] by simp
  qed
  have hb: "- (2 ^ 63) \<le> ?p div 2 ^ 64" "?p div 2 ^ 64 < 2 ^ 63"
    using high_bounds[of "sint v" "sm_mul m"] sint_bounds64[of v] by linarith+
  have "?p div 2 ^ 64 div 2 ^ (sm_shift m - 64) = ?p div 2 ^ sm_shift m"
    using sh(1) by (simp only: zdiv_zmult2_eq[symmetric] zero_le_power zero_le_numeral power_add[symmetric] le_add_diff_inverse)
  moreover have "holds n rs0 s' q0 (signed_drop_bit (sm_shift m - 64) (of_int (?p div 2 ^ 64))) \<and> reaches n rs0 s4 s'"
    by (rule holds_sar[OF _ sh(2) f]) (use hu in simp)
  moreover have "reaches n rs0 s s4" using ht(2) hu by (blast intro: reaches_trans)
  ultimately show ?thesis
    using sar_int[OF hb, of "sm_shift m - 64"] div_pow_bounds[OF hb, of "sm_shift m - 64"] by (auto intro: reaches_trans)
next
  let ?p = "sint v * int (unat (sm_mul m))"
  case w32: False
  note wb = sdiv_widths[OF w]
  have sh: "sm_shift m < 64" using good w32 wb by (auto simp: sdiv_good_def)
  obtain p s3 where p: "e_mul_const x (sm_mul m) s = (p, s3)" by (metis prod.exhaust)
  have hp: "holds n rs0 s3 p (of_int ?p) \<and> reaches n rs0 s s3" using holds_mul_const[OF h p] by simp
  have "unat (sm_mul m) < 2 ^ width" using good by (simp add: sdiv_good_def)
  then have "int (unat (sm_mul m)) < int (2 ^ width)" by (rule of_nat_less_iff[THEN iffD2])
  then have mw: "int (unat (sm_mul m)) < 2 ^ width" by simp
  have b: "- (2 ^ 63) \<le> ?p" "?p < 2 ^ 63"
  proof -
    have "(2 :: int) ^ (2 * width - 1) \<le> 2 ^ 63" using w32 wb by (intro power_increasing) auto
    then show "- (2 ^ 63) \<le> ?p" "?p < 2 ^ 63" using product_bounds[OF v _ mw] wb by linarith+
  qed
  have "e_sar p (sm_shift m) s3 = (q0, s')" using e w32 p by (simp add: e_sdiv_q0_def)
  from holds_sar[OF _ sh this, of n rs0 "of_int ?p"]
  have "holds n rs0 s' q0 (signed_drop_bit (sm_shift m) (of_int ?p)) \<and> reaches n rs0 s s'"
    using hp by (auto intro: reaches_trans)
  then show ?thesis using sar_int[OF b, of "sm_shift m"] div_pow_bounds[OF b, of "sm_shift m"] by simp
qed

lemma holds_sdiv_mult:
  assumes h: "holds n rs0 s x v" and w: "width \<in> {8, 16, 32, 64}"
    and v: "- (2 ^ (width - 1)) \<le> sint v" "sint v < 2 ^ (width - 1)"
    and e: "e_sdiv_abs x ad width s = ((q, ok), s')" and ad1: "ad \<noteq> 1"
    and False: "\<not> std_has_single_bit ad" "sdiv_magic ad width \<noteq> None"
  shows "ok \<and> holds n rs0 s' q (of_int (sint v sdiv int (unat ad))) \<and> reaches n rs0 s s'"
proof -
  note wb = sdiv_widths[OF w]
  obtain m where m: "sdiv_magic ad width = Some m" using False by auto
  note good = sdiv_magic_good(2)[OF m]
  let ?p = "sint v * int (unat (sm_mul m))"
  have app: "sdiv_apply m (sint v) = sint v sdiv int (unat ad)" using good v by (simp add: sdiv_good_def)
  obtain q0 s1 where q0: "e_sdiv_q0 x m width s = (q0, s1)" by (metis prod.exhaust)
  obtain g s2 where g: "e_shr q0 63 s1 = (g, s2)" by (metis prod.exhaust)
  have q: "e_add q0 g s2 = (q, s')" "ok"
    using e ad1 False m q0 g by (auto simp: e_sdiv_abs_def split: prod.splits)
  note hq0 = holds_sdiv_q0[OF h w v good q0]
  have hg: "holds n rs0 s2 g (drop_bit 63 (of_int (?p div 2 ^ sm_shift m))) \<and> reaches n rs0 s1 s2"
    by (rule holds_shr[OF _ _ g]) (use hq0 in simp_all)
  have q2: "holds n rs0 s2 q0 (of_int (?p div 2 ^ sm_shift m))" using hq0 hg holds_reaches by blast
  have hq: "holds n rs0 s' q (of_int (?p div 2 ^ sm_shift m) + drop_bit 63 (of_int (?p div 2 ^ sm_shift m))) \<and> reaches n rs0 s2 s'"
    by (rule holds_add[OF q2 _ q(1)]) (use hg in simp)
  have "of_int (?p div 2 ^ sm_shift m) + drop_bit 63 (of_int (?p div 2 ^ sm_shift m) :: u64) = of_int (sint v sdiv int (unat ad))"
    by (rule sdiv_finish[OF app]) (use hq0 in simp_all)
  moreover have "reaches n rs0 s s'" using hq0 hg hq by (blast intro: reaches_trans)
  ultimately show ?thesis using hq q(2) by simp
qed

lemma unat_div_abs: "int (unat (div_abs d)) = \<bar>sint d\<bar>"
proof (cases "sint d < 0")
  case True
  have "uint (of_int (- sint d) :: u64) = take_bit 64 (- sint d)" by (simp only: unsigned_of_int) simp
  then have "uint (- d) = take_bit 64 (- sint d)" by simp
  then have "uint (- d) = - sint d" using True sint_bounds64[of d] by (simp add: take_bit_int_eq_self)
  then show ?thesis using True by (simp add: div_abs_def)
next
  case False
  then show ?thesis using uint_sint[of d] sint_bounds64[of d] by (simp add: div_abs_def take_bit_int_eq_self)
qed

lemma holds_sdiv:
  assumes h: "holds n rs0 s x v" and w: "width \<in> {8, 16, 32, 64}"
    and v: "- (2 ^ (width - 1)) \<le> sint v" "sint v < 2 ^ (width - 1)"
    and e: "e_sdiv x d width s = ((q, ok), s')"
    and entry: "std_has_single_bit (div_abs d) \<or> sdiv_magic (div_abs d) width \<noteq> None"
  shows "ok \<and> holds n rs0 s' q (of_int (sint v sdiv sint d)) \<and> reaches n rs0 s s'"
proof -
  obtain q1 ok1 s1 where 1: "e_sdiv_abs x (div_abs d) width s = ((q1, ok1), s1)" by (metis prod_cases3 prod.exhaust)
  have h1: "ok1 \<and> holds n rs0 s1 q1 (of_int (sint v sdiv \<bar>sint d\<bar>)) \<and> reaches n rs0 s s1"
  proof (cases "div_abs d = 1")
    case True
    have "\<bar>sint d\<bar> = 1" using unat_div_abs[of d] True by simp
    then have "sint v sdiv \<bar>sint d\<bar> = sint v" by (simp add: signed_divide_int_def sgn_mult_abs)
    then show ?thesis using 1 h True by (simp add: e_sdiv_abs_def)
  next
    case False
    then show ?thesis
      using holds_sdiv_pow2[OF h w v 1 False] holds_sdiv_mult[OF h w v 1 False] entry unfolding unat_div_abs by blast
  qed
  show ?thesis
  proof (cases "sint d < 0")
    case True
    obtain n1 s2 where 2: "e_neg q1 s1 = (n1, s2)" by (metis prod.exhaust)
    have "holds n rs0 s2 n1 (- of_int (sint v sdiv \<bar>sint d\<bar>)) \<and> reaches n rs0 s1 s2"
      using holds_neg[OF _ 2] h1 by blast
    moreover have "- of_int (sint v sdiv \<bar>sint d\<bar>) = (of_int (sint v sdiv sint d) :: u64)"
      using sdiv_abs[of "sint v" "sint d"] True by simp
    ultimately show ?thesis
      using e 1 2 h1 True by (auto simp: e_sdiv_def div_abs_def intro: reaches_trans split: if_splits)
  next
    case False
    then show ?thesis using e 1 h1 by (auto simp: e_sdiv_def div_abs_def split: if_splits)
  qed
qed

section \<open>The whole sequence\<close>

lemma smod_eq: "i smod d = i - (i sdiv d) * (d :: int)"
  by (simp add: minus_sdiv_mult_eq_smod)

lemma smod_abs: "i smod d = i - (i sdiv \<bar>d\<bar>) * \<bar>d :: int\<bar>"
proof (cases "d < 0")
  case True
  have "i sdiv d = - (i sdiv \<bar>d\<bar>)" by (subst sdiv_abs) (simp add: True)
  then show ?thesis using True unfolding smod_eq by simp
qed (simp add: smod_eq)

lemma and_pow2: "unat (raw :: u64) = 2 ^ k \<Longrightarrow> k < 64 \<Longrightarrow> v AND (raw - 1) = v mod raw"
proof -
  assume k: "unat raw = 2 ^ k" "k < 64"
  have "raw = push_bit k 1" by (rule unat_word_eqI) (use k in \<open>simp add: unat_pow2 del: push_bit_of_1\<close>)
  then have r: "raw = 2 ^ k" by (simp add: push_bit_of_1)
  show ?thesis unfolding r mask_eq_exp_minus_1[symmetric] take_bit_eq_mask[symmetric] by (simp add: take_bit_eq_mod)
qed

lemma holds_div_value_unsigned:
  assumes h: "holds n rs0 s x v" and w: "width \<in> {8, 16, 32, 64}" and v: "unat v < 2 ^ width"
    and e: "div_value False is_rem width raw sd x s = ((r, ok), s')"
    and entry: "std_has_single_bit raw \<or> udiv_magic raw width \<noteq> None"
  shows "ok \<and> holds n rs0 s' r (if is_rem then v mod raw else v div raw) \<and> reaches n rs0 s s'"
proof (cases "is_rem \<and> std_has_single_bit raw")
  case True
  have "holds n rs0 s' r (v AND (raw - 1)) \<and> reaches n rs0 s s'"
    using holds_unary[OF h, of "GArith GArith_land2" "[MImm64 (raw - 1)]" "v AND (raw - 1)"] e True
    by (auto simp: div_value_def Let_def run_instr_def split: prod.splits)
  then show ?thesis using e True and_pow2[OF single_bit_countr] by (auto simp: div_value_def Let_def split: prod.splits)
next
  case False
  obtain q ok1 s1 where 1: "e_udiv x raw width s = ((q, ok1), s1)" by (metis prod_cases3 prod.exhaust)
  have hq: "ok1" "holds n rs0 s1 q (v div raw)" "reaches n rs0 s s1" using holds_udiv[OF h w v 1 entry] by simp_all
  show ?thesis
  proof (cases is_rem)
    case rem: True
    obtain m s2 where 2: "e_mul_const q raw s1 = (m, s2)" by (metis prod.exhaust)
    have hm: "holds n rs0 s2 m (v div raw * raw)" "reaches n rs0 s1 s2" using holds_mul_const[OF hq(2) 2] by simp_all
    have 3: "e_sub x m s2 = (r, s')" "ok" using e False rem 1 2 hq(1) by (auto simp: div_value_def Let_def split: prod.splits)
    have x2: "holds n rs0 s2 x v" by (rule holds_reaches[OF holds_reaches[OF h hq(3)] hm(2)])
    have "holds n rs0 s' r (v - v div raw * raw) \<and> reaches n rs0 s2 s'" by (rule holds_sub[OF x2 hm(1) 3(1)])
    moreover have "v - v div raw * raw = v mod raw" by (rule minus_div_mult_eq_mod)
    ultimately show ?thesis using rem 3(2) reaches_trans[OF reaches_trans[OF hq(3) hm(2)]] by auto
  qed (use e False 1 hq in \<open>auto simp: div_value_def Let_def\<close>)
qed

lemma holds_div_value_signed:
  assumes h: "holds n rs0 s x v" and w: "width \<in> {8, 16, 32, 64}"
    and v: "- (2 ^ (width - 1)) \<le> sint v" "sint v < 2 ^ (width - 1)"
    and e: "div_value True is_rem width raw sd x s = ((r, ok), s')"
    and entry: "std_has_single_bit (div_abs sd) \<or> sdiv_magic (div_abs sd) width \<noteq> None"
  shows "ok \<and> holds n rs0 s' r (of_int (if is_rem then sint v smod sint sd else sint v sdiv sint sd)) \<and> reaches n rs0 s s'"
proof (cases "is_rem \<and> div_abs sd \<noteq> 1 \<and> std_has_single_bit (div_abs sd)")
  case True
  define k where "k = std_countr_zero (div_abs sd)"
  have k: "unat (div_abs sd) = 2 ^ k" "k \<le> 63" using single_bit_countr[of "div_abs sd"] True by (simp_all add: k_def)
  have ab: "\<bar>sint sd\<bar> = 2 ^ k" using unat_div_abs[of sd] k(1) by simp
  obtain q s4 where 4: "e_sdiv_abs x (div_abs sd) width s = ((q, True), s4)"
    and hq: "holds n rs0 s4 q (of_int (sint v sdiv \<bar>sint sd\<bar>))" "reaches n rs0 s s4"
    using holds_sdiv_pow2[OF h w v _ ] True unat_div_abs[of sd] by (metis prod.exhaust)
  obtain u s5 where 5: "e_shl q k s4 = (u, s5)" by (metis prod.exhaust)
  have hu: "holds n rs0 s5 u (push_bit k (of_int (sint v sdiv \<bar>sint sd\<bar>)))" "reaches n rs0 s4 s5"
    using holds_shl[OF hq(1) _ 5] k(2) by simp_all
  have x5: "holds n rs0 s5 x v" by (rule holds_reaches[OF holds_reaches[OF h hq(2)] hu(2)])
  have 6: "e_sub x u s5 = (r, s')" "ok"
    using e True 4 5 by (auto simp: div_value_def e_sdiv_abs_def k_def[symmetric] Let_def split: prod.splits)
  have "holds n rs0 s' r (v - push_bit k (of_int (sint v sdiv \<bar>sint sd\<bar>))) \<and> reaches n rs0 s5 s'"
    by (rule holds_sub[OF x5 hu(1) 6(1)])
  moreover have "v - push_bit k (of_int (sint v sdiv \<bar>sint sd\<bar>)) = of_int (sint v smod sint sd)"
    unfolding smod_abs[of "sint v" "sint sd"] ab by (simp add: push_bit_eq_mult)
  ultimately show ?thesis using True 6(2) reaches_trans[OF reaches_trans[OF hq(2) hu(2)]] by auto
next
  case False
  obtain q ok1 s1 where 1: "e_sdiv x sd width s = ((q, ok1), s1)" by (metis prod_cases3 prod.exhaust)
  have hq: "ok1" "holds n rs0 s1 q (of_int (sint v sdiv sint sd))" "reaches n rs0 s s1" using holds_sdiv[OF h w v 1 entry] by simp_all
  show ?thesis
  proof (cases is_rem)
    case rem: True
    obtain m s2 where 2: "e_mul_const q sd s1 = (m, s2)" by (metis prod.exhaust)
    have hm: "holds n rs0 s2 m (of_int (sint v sdiv sint sd) * sd)" "reaches n rs0 s1 s2" using holds_mul_const[OF hq(2) 2] by simp_all
    have 3: "e_sub x m s2 = (r, s')" "ok" using e False rem 1 2 hq(1) by (auto simp: div_value_def Let_def split: prod.splits)
    have x2: "holds n rs0 s2 x v" by (rule holds_reaches[OF holds_reaches[OF h hq(3)] hm(2)])
    have "holds n rs0 s' r (v - of_int (sint v sdiv sint sd) * sd) \<and> reaches n rs0 s2 s'" by (rule holds_sub[OF x2 hm(1) 3(1)])
    moreover have "v - of_int (sint v sdiv sint sd) * sd = of_int (sint v smod sint sd)"
      unfolding smod_eq by simp
    ultimately show ?thesis using rem 3(2) reaches_trans[OF reaches_trans[OF hq(3) hm(2)]] by auto
  qed (use e False 1 hq in \<open>auto simp: div_value_def Let_def\<close>)
qed

section \<open>The operands\<close>

lemma int_width_cases: "int_width ty = Some width \<longleftrightarrow>
    (ty = Ty_Int8 \<and> width = 8) \<or> (ty = Ty_Int16 \<and> width = 16) \<or> (ty = Ty_Int32 \<and> width = 32) \<or> (ty = Ty_Int64 \<and> width = 64)"
  by (auto simp: int_width_def)

lemma width_set: "int_width ty = Some width \<Longrightarrow> width \<in> {8, 16, 32, 64}"
  by (auto simp: int_width_cases)

lemma rd_virt:
  assumes "int_width ty = Some width"
  shows "rd (MReg (VirtR ty k) ty) rs = take_bit width (rs (numRegs + k))" "isReg (MReg (VirtR ty k) ty)"
    "arg_bits (MReg (VirtR ty k) ty) = width"
    "take_bit width (wr (MReg (VirtR ty k) ty) v rs (numRegs + k)) = take_bit width v"
    "j \<noteq> k \<Longrightarrow> wr (MReg (VirtR ty k) ty) v rs (numRegs + j) = rs (numRegs + j)"
  using assms unfolding int_width_cases
  by (auto simp: rd_def wr_def Let_def MReg_def marg0_def isReg_def arg_bits_def retype_def reg_to_uid_def
      intro!: bit_word_eqI simp: bit_take_bit_iff bit_or_iff bit_and_iff bit_not_iff bit_mask_iff)

lemma div_mask_eq: "width \<in> {8, 16, 32, 64} \<Longrightarrow> div_mask width = mask width"
  unfolding div_mask_def mask_eq_exp_minus_1[symmetric] push_bit_of_1
  by (auto intro!: bit_word_eqI simp: bit_mask_iff bit_not_iff)

lemma raw_value:
  assumes "width \<in> {8, 16, 32, 64}"
  shows "uint (ucast (c :: u128) AND div_mask width) = take_bit width (uint c)"
  unfolding div_mask_eq[OF assms]
  using assms by (intro bit_eqI) (auto simp: bit_simps)

lemma sext_value:
  assumes "width \<in> {8, 16, 32, 64}"
  shows "sint (signed_drop_bit (64 - width) (push_bit (64 - width) (ucast (c :: u128) AND div_mask width)) :: u64)
    = signed_take_bit (width - 1) (uint c)"
proof (rule bit_eqI)
  fix n
  consider "n < width - 1" | "n = width - 1" | "width \<le> n" by linarith
  then show "bit (sint (signed_drop_bit (64 - width) (push_bit (64 - width) (ucast c AND div_mask width)) :: u64)) n
      = bit (signed_take_bit (width - 1) (uint c)) n"
    unfolding div_mask_eq[OF assms]
    by cases (use assms in \<open>auto simp: bit_simps min_def split: if_splits\<close>)
qed

lemma sint_sext: 
  assumes "width \<in> {8, 16, 32, 64}"
  shows "sint (signed_take_bit (width - 1) (x :: u64)) = signed_take_bit (width - 1) (uint x)"
  using assms by (intro bit_eqI) (auto simp: bit_simps min_def split: if_splits)

text \<open>The operand, sign or zero extended to a register.\<close>

definition div_operand :: "bool \<Rightarrow> nat \<Rightarrow> u64 \<Rightarrow> u64" where
  "div_operand is_signed width x = (if is_signed then signed_take_bit (width - 1) x else take_bit width x)"

lemma div_operand_value:
  assumes "width \<in> {8, 16, 32, 64}"
  shows "sint (div_operand True width x) = signed_take_bit (width - 1) (uint x)"
    "- (2 ^ (width - 1)) \<le> sint (div_operand True width x)" "sint (div_operand True width x) < 2 ^ (width - 1)"
    "uint (div_operand False width x) = take_bit width (uint x)" "unat (div_operand False width x) < 2 ^ width"
proof -
  have s: "sint (div_operand True width x) = signed_take_bit (width - 1) (uint x)"
    using sint_sext[OF assms] by (simp add: div_operand_def)
  show "sint (div_operand True width x) = signed_take_bit (width - 1) (uint x)" by (rule s)
  show "- (2 ^ (width - 1)) \<le> sint (div_operand True width x)" "sint (div_operand True width x) < 2 ^ (width - 1)"
    unfolding s by (simp_all add: signed_take_bit_int_greater_eq_minus_exp signed_take_bit_int_less_exp)
  show u: "uint (div_operand False width x) = take_bit width (uint x)" by (simp add: div_operand_def unsigned_take_bit_eq)
  show "unat (div_operand False width x) < 2 ^ width" by (simp add: div_operand_def unsigned_take_bit_eq take_bit_nat_less_exp)
qed

lemma holds_extend:
  assumes ty: "int_width ty = Some width" and k: "k \<le> es_vreg s"
    and e: "div_extend is_signed width (MReg (VirtR ty k) ty) s = (x, s')"
  shows "holds (length (es_out s)) rs s' x (div_operand is_signed width (rs (numRegs + k)))
    \<and> reaches (length (es_out s)) rs s s'"
proof (cases "width < 64")
  case True
  have e0: "emitted (length (es_out s)) rs s rs" by (simp add: emitted_def)
  let ?op = "GConv (if is_signed then GConv_mov_sx else GConv_mov_zx)"
  have "signed_take_bit (width - 1) (take_bit width (rs (numRegs + k))) = signed_take_bit (width - 1) (rs (numRegs + k))"
    using True width_set[OF ty] by (intro bit_word_eqI) (auto simp: bit_simps min_def)
  then have "run_instr (mk_instr ?op (vreg64 (es_vreg s + 1) # [MReg (VirtR ty k) ty])) rs
      = Some (rs(numRegs + (es_vreg s + 1) := div_operand is_signed width (rs (numRegs + k))))"
    by (simp add: run_instr_def rd_virt[OF ty] div_operand_def)
  from fresh_put[OF e0 this] show ?thesis using e True by (auto simp: div_extend_def Let_def split: prod.splits)
next
  case False
  then have w: "width = 64" "ty = Ty_Int64" using ty by (auto simp: int_width_cases)
  have m: "min 63 n = n" if "n < 64" for n :: nat using that by simp
  have "div_operand is_signed 64 (rs (numRegs + k)) = rs (numRegs + k)"
    by (auto intro!: bit_word_eqI simp: div_operand_def bit_simps m)
  moreover have "emitted (length (es_out s)) rs s rs" by (simp add: emitted_def)
  ultimately show ?thesis using e w k holdsI[of _ rs s rs k] by (auto simp: div_extend_def vreg64_def)
qed

section \<open>Which divisions have a sequence\<close>

definition div_read :: "bool \<Rightarrow> nat \<Rightarrow> int \<Rightarrow> int" where
  "div_read is_signed width i = (if is_signed then signed_take_bit (width - 1) i else take_bit width i)"

definition div_reference :: "bool \<Rightarrow> bool \<Rightarrow> nat \<Rightarrow> int \<Rightarrow> int \<Rightarrow> int" where
  "div_reference is_signed is_rem width x c =
     (let a = div_read is_signed width x; b = div_read is_signed width c
      in take_bit width (if is_rem then a smod b else a sdiv b))"

definition div_accepted :: "bool \<Rightarrow> nat \<Rightarrow> u128 \<Rightarrow> bool" where
  "div_accepted is_signed width c \<longleftrightarrow>
     (if is_signed then div_read True width (uint c) \<notin> {0, - 1}
      else 0 < div_read False width (uint c) \<and> div_read False width (uint c) \<le> 2 ^ (width - 1))"

abbreviation div_raw :: "nat \<Rightarrow> u128 \<Rightarrow> u64" where "div_raw width c \<equiv> ucast c AND div_mask width"
abbreviation div_sd :: "nat \<Rightarrow> u128 \<Rightarrow> u64" where
  "div_sd width c \<equiv> signed_drop_bit (64 - width) (push_bit (64 - width) (div_raw width c))"

lemma sint_eq_iff: "sint (a :: u64) = sint b \<longleftrightarrow> a = b"
  by (metis of_int_sint)

lemma div_raw_0:
  assumes "width \<in> {8, 16, 32, 64}"
  shows "div_raw width c = 0 \<longleftrightarrow> div_read False width (uint c) = 0" "div_raw width c = 0 \<longleftrightarrow> div_read True width (uint c) = 0"
    "div_sd width c = - 1 \<longleftrightarrow> div_read True width (uint c) = - 1"
proof -
  show 1: "div_raw width c = 0 \<longleftrightarrow> div_read False width (uint c) = 0"
    using raw_value[OF assms, of c] by (metis div_read_def uint_0_iff)
  have "take_bit width (uint c) = 0 \<longleftrightarrow> signed_take_bit (width - 1) (uint c) = 0"
  proof -
    have w: "Suc (width - 1) = width" using assms by auto
    show ?thesis using signed_take_bit_eq_iff_take_bit_eq[of "width - 1" "uint c" 0] unfolding w by simp
  qed
  then show "div_raw width c = 0 \<longleftrightarrow> div_read True width (uint c) = 0" unfolding 1 by (simp add: div_read_def)
  show "div_sd width c = - 1 \<longleftrightarrow> div_read True width (uint c) = - 1"
    using sext_value[OF assms, of c] sint_eq_iff[of "div_sd width c" "- 1"] by (simp add: div_read_def)
qed

lemma signed_entry:
  assumes w: "width \<in> {8, 16, 32, 64}" and c: "div_read True width (uint c) \<noteq> 0"
  shows "std_has_single_bit (div_abs (div_sd width c)) \<or> sdiv_magic (div_abs (div_sd width c)) width \<noteq> None"
proof -
  let ?d = "div_abs (div_sd width c)" and ?s = "signed_take_bit (width - 1) (uint c)"
  have u: "int (unat ?d) = \<bar>?s\<bar>" unfolding unat_div_abs sext_value[OF w] ..
  have b: "\<bar>?s\<bar> \<le> 2 ^ (width - 1)"
    using signed_take_bit_int_greater_eq_minus_exp[of "width - 1" "uint c"] signed_take_bit_int_less_exp[of "width - 1" "uint c"] by linarith
  have "int (unat ?d) \<le> int (2 ^ (width - 1))" using u b by simp
  then have le: "unat ?d \<le> 2 ^ (width - 1)" by (simp only: of_nat_le_iff)
  have "0 < int (unat ?d)" unfolding u using c by (simp add: div_read_def)
  then have pos: "0 < unat ?d" by (simp only: of_nat_0_less_iff)
  show ?thesis
  proof (cases "std_has_single_bit ?d")
    case False
    then have np: "\<not> (\<exists>k. unat ?d = 2 ^ k)" by (simp add: single_bit_iff)
    have "unat ?d \<noteq> 1" "unat ?d \<noteq> 2" using np power_0[of "2 :: nat"] power_one_right[of "2 :: nat"] by metis+
    then have "3 \<le> unat ?d" using pos by linarith
    then have "sdiv_ok ?d width" using np le w by (auto simp: sdiv_ok_def)
    then show ?thesis using sdiv_magic_total[of ?d width] by blast
  qed simp
qed

lemma unsigned_entry:
  assumes w: "width \<in> {8, 16, 32, 64}" and c: "div_read False width (uint c) \<noteq> 0"
  shows "std_has_single_bit (div_raw width c) \<or> udiv_magic (div_raw width c) width \<noteq> None
    \<longleftrightarrow> div_read False width (uint c) \<le> 2 ^ (width - 1)"
proof -
  let ?d = "div_raw width c"
  have u: "int (unat ?d) = div_read False width (uint c)" using raw_value[OF w, of c] by (simp add: div_read_def)
  have "0 < int (unat ?d)" unfolding u using c by (simp add: div_read_def less_le)
  then have pos: "0 < unat ?d" by (simp only: of_nat_0_less_iff)
  have "div_read False width (uint c) < 2 ^ width" by (simp add: div_read_def take_bit_int_less_exp)
  then have "int (unat ?d) < int (2 ^ width)" using u by simp
  then have lt: "unat ?d < 2 ^ width" by (simp only: of_nat_less_iff)
  have le: "div_read False width (uint c) \<le> 2 ^ (width - 1) \<longleftrightarrow> unat ?d \<le> 2 ^ (width - 1)"
    unfolding u[symmetric] using of_nat_le_iff[of "unat ?d" "2 ^ (width - 1)", where 'a = int] by simp
  show ?thesis
  proof (cases "std_has_single_bit ?d")
    case True
    then obtain k where k: "unat ?d = 2 ^ k" by (auto simp: single_bit_iff)
    then have "k < width" using lt by simp
    then have "unat ?d \<le> 2 ^ (width - 1)" unfolding k by (intro power_increasing) auto
    then show ?thesis using True le by blast
  next
    case False
    then have np: "\<not> (\<exists>k. unat ?d = 2 ^ k)" by (simp add: single_bit_iff)
    have "unat ?d \<noteq> 1" "unat ?d \<noteq> 2" using np power_0[of "2 :: nat"] power_one_right[of "2 :: nat"] by metis+
    then have "3 \<le> unat ?d" using pos by linarith
    then have "udiv_ok ?d width \<longleftrightarrow> unat ?d \<le> 2 ^ (width - 1)" using np w by (auto simp: udiv_ok_def)
    then show ?thesis using False udiv_magic_total[of ?d width] unfolding le by (simp only: simp_thms)
  qed
qed

section \<open>generate\_const\_div\<close>

text \<open>What the registers hold after \<^verbatim>\<open>div_value\<close>: the flag is set and the value is the reference.\<close>

lemma sdiv_nonneg: "0 \<le> a \<Longrightarrow> 0 \<le> b \<Longrightarrow> a sdiv b = a div b" "0 \<le> a \<Longrightarrow> 0 \<le> b \<Longrightarrow> a smod b = a mod (b :: int)"
  by (cases "a = 0"; cases "b = 0"; simp add: signed_divide_int_def smod_int_alt_def)+

lemma div_value_holds:
  assumes h: "holds n rs0 s x (div_operand is_signed width y)" and w: "width \<in> {8, 16, 32, 64}"
    and e: "div_value is_signed is_rem width (div_raw width c) (div_sd width c) x s = ((r, ok), s')"
    and c: "div_accepted is_signed width c"
  shows "ok \<and> reaches n rs0 s s' \<and> (\<exists>v. holds n rs0 s' r v \<and>
    uint (take_bit width v) = div_reference is_signed is_rem width (uint y) (uint c))"
proof -
  note ov = div_operand_value[OF w, of y]
  have w64: "width \<le> 64" using w by auto
  have tb: "uint (take_bit width (of_int i :: u64)) = take_bit width i" for i
    using w64 by (simp add: unsigned_take_bit_eq unsigned_of_int take_bit_take_bit min_def)
  show ?thesis
  proof (cases is_signed)
    case True
    have c0: "div_read True width (uint c) \<noteq> 0" using c True by (simp add: div_accepted_def)
    let ?i = "if is_rem then sint (div_operand True width y) smod sint (div_sd width c)
      else sint (div_operand True width y) sdiv sint (div_sd width c)"
    have "ok \<and> holds n rs0 s' r (of_int ?i) \<and> reaches n rs0 s s'"
      by (rule holds_div_value_signed[OF _ w ov(2,3) _ signed_entry[OF w c0]]) (use h e True in simp_all)
    moreover have "take_bit width ?i = div_reference True is_rem width (uint y) (uint c)"
      unfolding div_reference_def div_read_def ov(1) sext_value[OF w] Let_def by simp
    ultimately show ?thesis using tb[of ?i] True by auto
  next
    case False
    have c0: "div_read False width (uint c) \<noteq> 0" "div_read False width (uint c) \<le> 2 ^ (width - 1)"
      using c False by (auto simp: div_accepted_def)
    let ?v = "div_operand False width y"
    let ?r = "if is_rem then ?v mod div_raw width c else ?v div div_raw width c"
    have "ok \<and> holds n rs0 s' r ?r \<and> reaches n rs0 s s'"
      by (rule holds_div_value_unsigned[OF _ w ov(5)]) (use h e False unsigned_entry[OF w c0(1)] c0(2) in simp_all)
    moreover have "uint ?r = (if is_rem then take_bit width (uint y) smod take_bit width (uint c) else take_bit width (uint y) sdiv take_bit width (uint c))"
      using ov(4) raw_value[OF w, of c] by (simp add: uint_div uint_mod sdiv_nonneg)
    ultimately show ?thesis using False
      by (auto simp: div_reference_def div_read_def unsigned_take_bit_eq)
  qed
qed

lemma generate_unfold:
  assumes "di_const instr = Some c" "int_width (di_ty instr) = Some width"
    "valueToArg (di_arg0 instr) s = (x_in, s1)" "isReg x_in" "valueToArg (di_result instr) s1 = (res_reg, s2)"
    "div_extend is_signed width x_in s2 = (x, s3)"
    "div_value is_signed is_rem width (div_raw width c) (div_sd width c) x s3 = ((r, ok), s4)"
  shows "generate_const_div valueToArg instr is_signed is_rem s =
    (if \<not> div_accepted is_signed width c then Some (False, s)
     else if \<not> ok then None
     else Some (True, e_put (if width < 64 then GConv GConv_itrunc else GBase GBase_mov) [res_reg, r] s4))"
proof -
  note w = width_set[OF assms(2)]
  have "(div_raw width c = 0 \<or> is_signed \<and> div_sd width c = - 1)
      \<or> (if is_signed then \<not> std_has_single_bit (div_abs (div_sd width c)) \<and> sdiv_magic (div_abs (div_sd width c)) width = None
         else \<not> std_has_single_bit (div_raw width c) \<and> udiv_magic (div_raw width c) width = None)
    \<longleftrightarrow> \<not> div_accepted is_signed width c"
  proof (cases is_signed)
    case True
    then show ?thesis using div_raw_0(2,3)[OF w, of c] signed_entry[OF w, of c] by (auto simp: div_accepted_def)
  next
    case False
    have "0 \<le> div_read False width (uint c)" by (simp add: div_read_def)
    then show ?thesis using False div_raw_0(1)[OF w, of c] unsigned_entry[OF w, of c] by (auto simp: div_accepted_def)
  qed
  then show ?thesis
    using assms unfolding generate_const_div_def Let_def by (simp add: disj_commute split del: if_split) (auto split: if_splits)
qed

lemma generate_total:
  assumes c: "di_const instr = Some c" and width: "int_width (di_ty instr) = Some width"
    and arg: "valueToArg (di_arg0 instr) s = (MReg (VirtR (di_ty instr) k) (di_ty instr), s1)"
    and res: "valueToArg (di_result instr) s1 = (res_reg, s2)" and k: "k \<le> es_vreg s2"
  shows "\<exists>s'. generate_const_div valueToArg instr is_signed is_rem s = Some (div_accepted is_signed width c, s')
    \<and> (\<not> div_accepted is_signed width c \<longrightarrow> s' = s)"
proof -
  let ?ty = "di_ty instr" and ?n = "length (es_out s2)"
  note w = width_set[OF width]
  obtain x s3 where x: "div_extend is_signed width (MReg (VirtR ?ty k) ?ty) s2 = (x, s3)" by (metis prod.exhaust)
  obtain r ok s4 where r: "div_value is_signed is_rem width (div_raw width c) (div_sd width c) x s3 = ((r, ok), s4)"
    by (metis prod_cases3 prod.exhaust)
  have "div_accepted is_signed width c \<Longrightarrow> ok"
    using holds_extend[OF width k x, of "\<lambda>_. 0"] div_value_holds[OF _ w r] by blast
  then show ?thesis
    using generate_unfold[where valueToArg = valueToArg and s = s, OF c width arg rd_virt(2)[OF width] res x r] by auto
qed

text \<open>C31: The instructions \<^verbatim>\<open>generate_const_div\<close> emits compute the division they replace: signed and
  unsigned, quotient and remainder, at widths 8, 16, 32 and 64, for every divisor it accepts, whatever is in the
  registers. Run behind the operand registers, they leave the quotient (rounded towards zero) or remainder of
  the operand by the constant in the low bits of the result register, and change no other virtual register that
  existed before.\<close>

theorem const_div_correct:
  assumes gen: "generate_const_div valueToArg instr is_signed is_rem s = Some (True, s')"
    and c: "di_const instr = Some c"
    and arg: "valueToArg (di_arg0 instr) s = (MReg (VirtR (di_ty instr) k) (di_ty instr), s1)"
    and res: "valueToArg (di_result instr) s1 = (MReg (VirtR (di_ty instr) j) (di_ty instr), s2)"
    and regs: "k \<le> es_vreg s2" "j \<le> es_vreg s2"
  shows "\<exists>code width. es_out s' = es_out s2 @ code \<and> int_width (di_ty instr) = Some width \<and>
    (\<forall>rs. \<exists>rs'. run_code code rs = Some rs' \<and>
       uint (take_bit width (rs' (numRegs + j))) = div_reference is_signed is_rem width (uint (rs (numRegs + k))) (uint c) \<and>
       (\<forall>i \<le> es_vreg s2. i \<noteq> j \<longrightarrow> rs' (numRegs + i) = rs (numRegs + i)))"
proof -
  let ?ty = "di_ty instr" and ?n = "length (es_out s2)"
  obtain width where width: "int_width ?ty = Some width"
    using gen c unfolding generate_const_div_def by (cases "int_width ?ty") auto
  note w = width_set[OF width]
  obtain x s3 where x: "div_extend is_signed width (MReg (VirtR ?ty k) ?ty) s2 = (x, s3)" by (metis prod.exhaust)
  obtain r ok s4 where r: "div_value is_signed is_rem width (div_raw width c) (div_sd width c) x s3 = ((r, ok), s4)"
    by (metis prod_cases3 prod.exhaust)
  let ?op = "if width < 64 then GConv GConv_itrunc else GBase GBase_mov"
  have acc: "div_accepted is_signed width c" and s': "s' = e_put ?op [MReg (VirtR ?ty j) ?ty, r] s4"
    using gen generate_unfold[where valueToArg = valueToArg and s = s, OF c width arg rd_virt(2)[OF width] res x r] by (auto split: if_splits)
  have run: "\<exists>rs'. emitted ?n rs s' rs' \<and>
       uint (take_bit width (rs' (numRegs + j))) = div_reference is_signed is_rem width (uint (rs (numRegs + k))) (uint c) \<and>
       (\<forall>i \<le> es_vreg s2. i \<noteq> j \<longrightarrow> rs' (numRegs + i) = rs (numRegs + i))" for rs
  proof -
    note ext = holds_extend[OF width regs(1) x, of rs]
    obtain v where v: "holds ?n rs s4 r v" "reaches ?n rs s3 s4"
      "uint (take_bit width v) = div_reference is_signed is_rem width (uint (rs (numRegs + k))) (uint c)"
      using div_value_holds[OF _ w r acc] ext by blast
    obtain m rs4 where m: "r = vreg64 m" "emitted ?n rs s4 rs4" "rs4 (numRegs + m) = v" using v(1) by (rule holdsE)
    have e0: "emitted ?n rs s2 rs" by (simp add: emitted_def)
    have keep: "\<forall>i \<le> es_vreg s2. rs4 (numRegs + i) = rs (numRegs + i)"
      using reaches_trans[OF ext[THEN conjunct2] v(2)] e0 emitted_unique[OF m(2)] unfolding reaches_def by metis
    let ?rs5 = "wr (MReg (VirtR ?ty j) ?ty) v rs4"
    have "emitted ?n rs s' ?rs5" unfolding s' by (rule emitted_put[OF m(2)]) (simp add: run_instr_def m)
    then show ?thesis using v(3) keep rd_virt(4,5)[OF width] by (intro exI[of _ ?rs5]) simp
  qed
  have "reaches ?n (\<lambda>_. 0) s2 s4"
    using holds_extend[OF width regs(1) x] div_value_holds[OF _ w r acc] reaches_trans by blast
  then obtain code where code: "es_out s' = es_out s2 @ code" unfolding s' reaches_def by auto
  show ?thesis using run code width unfolding emitted_def by auto
qed

definition div_sample :: "nat div_instr" where
  "div_sample = \<lparr>di_const = Some 7, di_ty = Ty_Int32, di_arg0 = 1, di_result = 2\<rparr>"

definition arg_sample :: "nat \<Rightarrow> est \<Rightarrow> MArgument \<times> est" where
  "arg_sample v s = (MReg (VirtR Ty_Int32 v) Ty_Int32, s)"

lemma read_sample: "div_read True 32 7 = 7" "div_read True 32 100 = 100" "div_read False 32 0x90000000 = 0x90000000"
  by (simp_all add: div_read_def signed_take_bit_int_eq_self)

lemma uint_numeral_sample: "uint (100 :: u64) = 100" "uint (7 :: u128) = 7"
  by simp_all

theorem const_div_correct_witness:
  "\<exists>s' rs'. generate_const_div arg_sample div_sample True False \<lparr>es_out = [], es_vreg = 2\<rparr> = Some (True, s')
     \<and> run_code (es_out s') (\<lambda>_. 100) = Some rs' \<and> uint (take_bit 32 (rs' (numRegs + 2))) = 14"
proof -
  let ?s = "\<lparr>es_out = [], es_vreg = 2\<rparr>"
  have c: "di_const div_sample = Some 7" "int_width (di_ty div_sample) = Some 32"
    by (simp_all add: div_sample_def int_width_cases)
  have a: "arg_sample (di_arg0 div_sample) ?s = (MReg (VirtR (di_ty div_sample) 1) (di_ty div_sample), ?s)"
    "arg_sample (di_result div_sample) ?s = (MReg (VirtR (di_ty div_sample) 2) (di_ty div_sample), ?s)"
    by (simp_all add: arg_sample_def div_sample_def)
  have "div_accepted True 32 7" by (simp add: div_accepted_def read_sample)
  then obtain s' where s': "generate_const_div arg_sample div_sample True False ?s = Some (True, s')"
    using generate_total[where valueToArg = arg_sample and s = ?s, OF c a, of True False] by auto
  have "div_reference True False 32 100 7 = 14"
    by (simp add: div_reference_def read_sample signed_divide_int_def)
  moreover obtain code where "es_out s' = [] @ code" "\<forall>rs. \<exists>rs'. run_code code rs = Some rs' \<and>
      uint (take_bit 32 (rs' (numRegs + 2))) = div_reference True False 32 (uint (rs (numRegs + 1))) (uint (7 :: u128))"
    using const_div_correct[OF s' c(1) a] c(2) by fastforce
  ultimately obtain rs' where "run_code (es_out s') (\<lambda>_. 100) = Some rs'" "uint (take_bit 32 (rs' (numRegs + 2))) = 14"
    by (metis append_Nil uint_numeral_sample)
  then show ?thesis using s' by blast
qed

text \<open>C32: \<^verbatim>\<open>generate_const_div\<close> never runs into its assertion, and decides by the divisor alone, read
  at the width: a signed division has a sequence for every divisor but 0 and -1, an unsigned one for every
  divisor from 1 to half of the range. Where it declines it has emitted nothing.\<close>

theorem const_div_decides:
  assumes "di_const instr = Some c" "int_width (di_ty instr) = Some width"
    "valueToArg (di_arg0 instr) s = (MReg (VirtR (di_ty instr) k) (di_ty instr), s1)"
    "valueToArg (di_result instr) s1 = (res_reg, s2)" "k \<le> es_vreg s2"
  shows "\<exists>ok s'. generate_const_div valueToArg instr is_signed is_rem s = Some (ok, s')
    \<and> (ok \<longleftrightarrow> (if is_signed then div_read True width (uint c) \<notin> {0, - 1}
               else 0 < div_read False width (uint c) \<and> div_read False width (uint c) \<le> 2 ^ (width - 1)))
    \<and> (\<not> ok \<longrightarrow> s' = s)"
  using generate_total[where valueToArg = valueToArg and s = s, OF assms, of is_signed is_rem] unfolding div_accepted_def by blast

theorem const_div_decides_witness:
  "generate_const_div arg_sample (div_sample\<lparr>di_const := Some 0x90000000\<rparr>) False True \<lparr>es_out = [], es_vreg = 2\<rparr>
     = Some (False, \<lparr>es_out = [], es_vreg = 2\<rparr>)"
proof -
  let ?s = "\<lparr>es_out = [], es_vreg = 2\<rparr>" and ?i = "div_sample\<lparr>di_const := Some 0x90000000\<rparr>"
  have c: "di_const ?i = Some 0x90000000" "int_width (di_ty ?i) = Some 32"
    "arg_sample (di_arg0 ?i) ?s = (MReg (VirtR (di_ty ?i) 1) (di_ty ?i), ?s)"
    "arg_sample (di_result ?i) ?s = (MReg (VirtR (di_ty ?i) 2) (di_ty ?i), ?s)" "1 \<le> es_vreg ?s"
    by (simp_all add: div_sample_def int_width_cases arg_sample_def)
  show ?thesis
    using const_div_decides[where valueToArg = arg_sample and s = ?s, OF c, of False True] read_sample(3) by auto
qed

end
