(* ===== verification/BitSet.thy ===== *)
theory BitSet
  imports Prelude
begin

text \<open>
  \<^verbatim>\<open>src/src/utils/bitset.hpp\<close> at its default storage type: a size in bits and an array of 64 bit
  words with one word more than the size needs when 64 divides it. The bits past the size (the dead
  bits of the last word) hold anything: \<^verbatim>\<open>reset\<close> and \<^verbatim>\<open>negate\<close> set them, the queries mask them out.
  The second half states the operations as operations on sets of numbers.
\<close>

section \<open>The code\<close>

record bitset =
  bs_data :: "u64 list"
  bs_size :: nat

definition n_elems :: "nat \<Rightarrow> nat" where "n_elems sz = (sz + 64) div 64"

text \<open>\<^verbatim>\<open>BitRef\<close>: one bit of one word.\<close>

definition bitref_set :: "u64 \<Rightarrow> nat \<Rightarrow> bool \<Rightarrow> u64" where
  "bitref_set w off v =
     (let set_val = w OR push_bit off 1;
          unset_val = w AND NOT (push_bit off 1)
      in if v then set_val else unset_val)"

definition bitref_get :: "u64 \<Rightarrow> nat \<Rightarrow> bool" where
  "bitref_get w off = (drop_bit off w AND 1 \<noteq> 0)"

definition bs_reset :: "bool \<Rightarrow> bitset \<Rightarrow> bitset" where
  "bs_reset v s = s\<lparr>bs_data := replicate (n_elems (bs_size s)) (if v then - 1 else 0)\<rparr>"

definition bs_new :: "nat \<Rightarrow> bool \<Rightarrow> bitset" where
  "bs_new sz v = bs_reset v \<lparr>bs_data = [], bs_size = sz\<rparr>"

definition bs_empty :: "nat \<Rightarrow> bitset" where "bs_empty sz = bs_new sz False"

text \<open>\<^verbatim>\<open>n_alive_bits\<close> and the mask of the last word.\<close>

definition alive_mask :: "nat \<Rightarrow> u64" where
  "alive_mask sz =
     (let n_dead_bits = n_elems sz * 64 - sz;
          n_alive_bits = 64 - n_dead_bits
      in push_bit n_alive_bits 1 - 1)"

definition bs_any :: "bitset \<Rightarrow> bool" where
  "bs_any s =
     (let n = n_elems (bs_size s)
      in if list_ex (\<lambda>i. bs_data s ! i \<noteq> 0) [0..<n - 1] then True
         else bs_data s ! (n - 1) AND alive_mask (bs_size s) \<noteq> 0)"

text \<open>\<^verbatim>\<open>all\<close> stops at the first word that is all ones and otherwise reaches its \<^verbatim>\<open>TODO\<close>, which
  aborts.\<close>

definition bs_all :: "bitset \<Rightarrow> bool option" where
  "bs_all s =
     (let n = n_elems (bs_size s)
      in if list_ex (\<lambda>i. NOT (bs_data s ! i) = 0) [0..<n - 1] then Some True else None)"

definition bs_get :: "bitset \<Rightarrow> nat \<Rightarrow> bool" where
  "bs_get s i = bitref_get (bs_data s ! (i div 64)) (i mod 64)"

definition bs_set :: "nat \<Rightarrow> bool \<Rightarrow> bitset \<Rightarrow> bitset" where
  "bs_set i v s = s\<lparr>bs_data := (bs_data s)[i div 64 := bitref_set (bs_data s ! (i div 64)) (i mod 64) v]\<rparr>"

text \<open>The inner loop of \<^verbatim>\<open>count\<close> shifts a word out, counting its ones.\<close>

function (sequential) word_count :: "u64 \<Rightarrow> nat" where
  "word_count t = (if t = 0 then 0 else (if t AND 1 \<noteq> 0 then 1 else 0) + word_count (drop_bit 1 t))"
  by pat_completeness auto
termination
proof (relation "measure unat")
  fix t :: u64
  assume "t \<noteq> 0"
  then have "0 < unat t" by (simp add: unat_gt_0)
  moreover have "unat (drop_bit 1 t) = unat t div 2"
    unfolding unat_drop_bit_eq by (simp add: drop_bit_eq_div)
  ultimately show "(drop_bit 1 t, t) \<in> measure unat" by simp
qed simp

declare word_count.simps [simp del]

text \<open>\<^verbatim>\<open>count\<close> clears the dead bits of the last word as it goes.\<close>

definition bs_count :: "bitset \<Rightarrow> bitset \<times> nat" where
  "bs_count s =
     (let n = n_elems (bs_size s);
          d = (bs_data s)[n - 1 := bs_data s ! (n - 1) AND alive_mask (bs_size s)]
      in (s\<lparr>bs_data := d\<rparr>, sum_list (map (\<lambda>i. word_count (d ! i)) [0..<n])))"

definition bs_eq :: "bitset \<Rightarrow> bitset \<Rightarrow> bool" where
  "bs_eq s t =
     (if bs_size s \<noteq> bs_size t then False
      else
        (let n = n_elems (bs_size s); mask = alive_mask (bs_size s)
         in if list_ex (\<lambda>i. bs_data s ! i \<noteq> bs_data t ! i) [0..<n - 1] then False
            else bs_data s ! (n - 1) AND mask = bs_data t ! (n - 1) AND mask))"

definition bs_set_bits :: "nat \<Rightarrow> nat \<Rightarrow> u64 \<Rightarrow> bitset \<Rightarrow> bitset" where
  "bs_set_bits indx width v s =
     fold (\<lambda>i. bs_set (indx + i) (drop_bit i v AND 1 = 1)) [0..<width] s"

definition bs_get_bits :: "bitset \<Rightarrow> nat \<Rightarrow> nat \<Rightarrow> u64" where
  "bs_get_bits s indx width =
     fold (\<lambda>i out. push_bit 1 out OR (if bs_get s (indx + i) then 1 else 0)) (rev [0..<width]) 0"

definition bs_assign :: "bitset \<Rightarrow> bitset \<Rightarrow> bitset" where
  "bs_assign s t = s\<lparr>bs_data := map (\<lambda>i. bs_data t ! i) [0..<n_elems (bs_size s)]\<rparr>"

definition bs_negate :: "bitset \<Rightarrow> bitset" where
  "bs_negate s = s\<lparr>bs_data := map (\<lambda>i. NOT (bs_data s ! i)) [0..<n_elems (bs_size s)]\<rparr>"

definition bs_zip :: "(u64 \<Rightarrow> u64 \<Rightarrow> u64) \<Rightarrow> bitset \<Rightarrow> bitset \<Rightarrow> bitset" where
  "bs_zip f s t = s\<lparr>bs_data := map (\<lambda>i. f (bs_data s ! i) (bs_data t ! i)) [0..<n_elems (bs_size s)]\<rparr>"

definition bs_add :: "bitset \<Rightarrow> bitset \<Rightarrow> bitset" where "bs_add = bs_zip (\<lambda>x y. x OR y)"

definition bs_mul :: "bitset \<Rightarrow> bitset \<Rightarrow> bitset" where "bs_mul = bs_zip (\<lambda>x y. x AND y)"

definition bs_mul_not :: "bitset \<Rightarrow> bitset \<Rightarrow> bitset" where "bs_mul_not = bs_zip (\<lambda>x y. x AND NOT y)"

definition bs_xor :: "bitset \<Rightarrow> bitset \<Rightarrow> bitset" where "bs_xor = bs_zip (\<lambda>x y. x XOR y)"

text \<open>The iterator: \<^verbatim>\<open>skip_empty\<close> advances to the next set bit or to the end.\<close>

function skip_empty :: "bitset \<Rightarrow> nat \<Rightarrow> nat" where
  "skip_empty s i = (if i < bs_size s then (if bs_get s i then i else skip_empty s (i + 1)) else i)"
  by pat_completeness auto
termination
  by (relation "measure (\<lambda>(s, i). bs_size s - i)") auto

declare skip_empty.simps [simp del]

definition bs_begin :: "bitset \<Rightarrow> nat" where "bs_begin s = skip_empty s 0"

definition bs_next :: "bitset \<Rightarrow> nat \<Rightarrow> nat" where "bs_next s i = skip_empty s (i + 1)"

lemma skip_empty_ge: "i \<le> skip_empty s i"
proof (induction s i rule: skip_empty.induct)
  case (1 s i)
  then show ?case by (subst skip_empty.simps) auto
qed

text \<open>A range based \<^verbatim>\<open>for\<close> over the set visits these numbers.\<close>

function bs_from :: "bitset \<Rightarrow> nat \<Rightarrow> nat list" where
  "bs_from s i = (if i < bs_size s then i # bs_from s (bs_next s i) else [])"
  by pat_completeness auto
termination
proof (relation "measure (\<lambda>(s, i). bs_size s - i)")
  fix s :: bitset and i
  assume "i < bs_size s"
  moreover have "i + 1 \<le> bs_next s i" unfolding bs_next_def by (rule skip_empty_ge)
  ultimately show "((s, bs_next s i), s, i) \<in> measure (\<lambda>(s, i). bs_size s - i)" by simp
qed simp

declare bs_from.simps [simp del]

definition bs_elems :: "bitset \<Rightarrow> nat list" where "bs_elems s = bs_from s (bs_begin s)"

section \<open>Words and their alive bits\<close>

lemma n_elems_eq: "n_elems sz = Suc (sz div 64)"
  by (simp add: n_elems_def)

lemma alive_mask_bit: "bit (alive_mask sz) j \<longleftrightarrow> j < sz mod 64"
proof -
  have "64 - (n_elems sz * 64 - sz) = sz mod 64"
    using div_mult_mod_eq[of sz 64] mod_less_divisor[of 64 sz] unfolding n_elems_eq mult_Suc by linarith
  then have "alive_mask sz = mask (sz mod 64)"
    by (simp add: alive_mask_def mask_eq_decr_exp flip: push_bit_of_1)
  then show ?thesis using mod_less_divisor[of 64 sz] by (auto simp: bit_mask_iff)
qed

lemma bitref_get_bit [simp]: "bitref_get w off = bit w off"
  by (simp add: bitref_get_def and_one_eq bit_iff_odd_drop_bit odd_iff_mod_2_eq_one)

lemma bitref_set_bit: "off < 64 \<Longrightarrow> bit (bitref_set w off v) j \<longleftrightarrow> (if j = off then v else bit w j)"
  by (auto simp: bitref_set_def bit_simps dest: bit_imp_le_length)

lemma word_eq0_bits: "(w :: u64) = 0 \<longleftrightarrow> (\<forall>j < 64. \<not> bit w j)"
  by (auto simp: bit_eq_iff dest: bit_imp_le_length)

lemma word_eq_bits: "(v :: u64) = w \<longleftrightarrow> (\<forall>j < 64. bit v j = bit w j)"
  by (auto simp: bit_eq_iff dest: bit_imp_le_length)

lemma card_shift: "card {j. j < Suc n \<and> P j} = (if P 0 then 1 else 0) + card {j. j < n \<and> P (Suc j)}"
proof -
  have "{j. j < Suc n \<and> P j} = (if P 0 then {0} else {}) \<union> Suc ` {j. j < n \<and> P (Suc j)}"
    by (auto simp: less_Suc_eq_0_disj)
  then show ?thesis by (simp add: card_image card_Un_disjoint)
qed

lemma word_count_card: "(\<forall>j. bit t j \<longrightarrow> j < n) \<Longrightarrow> word_count t = card {j. j < n \<and> bit t j}"
proof (induction t arbitrary: n rule: word_count.induct)
  case (1 t)
  show ?case
  proof (cases "t = 0")
    case True
    then show ?thesis by (subst word_count.simps) simp
  next
    case False
    then obtain j where "bit t j" by (metis bit_eqI bit_0_eq bot_apply bot_bool_def)
    with 1(2) obtain m where n: "n = Suc m" by (cases n) auto
    have d: "bit (drop_bit 1 t) i \<longleftrightarrow> bit t (Suc i)" for i by (simp add: bit_drop_bit_eq)
    have "\<forall>j. bit (drop_bit 1 t) j \<longrightarrow> j < m" unfolding d using 1(2) n by auto
    from 1(1)[OF False this] have "word_count (drop_bit 1 t) = card {j. j < m \<and> bit t (Suc j)}"
      unfolding d .
    moreover have "t AND 1 \<noteq> 0 \<longleftrightarrow> bit t 0" by (simp add: and_one_eq odd_iff_mod_2_eq_one bit_0)
    ultimately show ?thesis
      using False unfolding n card_shift by (subst word_count.simps) simp
  qed
qed

section \<open>The set a bit set stands for\<close>

definition bs_alpha :: "bitset \<Rightarrow> nat set" where
  "bs_alpha s = {i. i < bs_size s \<and> bs_get s i}"

definition bs_ok :: "nat \<Rightarrow> bitset \<Rightarrow> bool" where
  "bs_ok n s \<longleftrightarrow> bs_size s = n \<and> length (bs_data s) = n_elems n"

lemma bs_get_bit: "bs_get s i = bit (bs_data s ! (i div 64)) (i mod 64)"
  by (simp add: bs_get_def)

lemma div_less_n_elems: "i < n \<Longrightarrow> i div 64 < n_elems n"
  by (simp add: n_elems_eq less_Suc_eq_le div_le_mono)

lemma bs_ok_new [simp]: "bs_ok n (bs_new n v)"
  by (simp add: bs_ok_def bs_new_def bs_reset_def)

lemma bs_alpha_new: "bs_alpha (bs_new n v) = (if v then {..<n} else {})"
  by (auto simp: bs_alpha_def bs_new_def bs_reset_def bs_get_bit div_less_n_elems)

lemma bs_ok_reset: "bs_ok n s \<Longrightarrow> bs_ok n (bs_reset v s)"
  by (simp add: bs_ok_def bs_reset_def)

lemma bs_alpha_reset: "bs_ok n s \<Longrightarrow> bs_alpha (bs_reset v s) = (if v then {..<n} else {})"
  by (auto simp: bs_alpha_def bs_ok_def bs_reset_def bs_get_bit div_less_n_elems)

lemma bs_ok_set: "bs_ok n s \<Longrightarrow> bs_ok n (bs_set i v s)"
  by (simp add: bs_ok_def bs_set_def)

lemma bs_get_set:
  assumes "bs_ok n s" "i < n"
  shows "bs_get (bs_set i v s) j = (if j = i then v else bs_get s j)"
proof -
  have l: "i div 64 < length (bs_data s)" using assms by (simp add: bs_ok_def div_less_n_elems)
  have "j = i" if "i div 64 = j div 64" "i mod 64 = j mod 64" using that by (metis div_mult_mod_eq)
  then show ?thesis
    using l by (cases "i div 64 = j div 64") (auto simp: bs_get_bit bs_set_def bitref_set_bit)
qed

lemma bs_alpha_set:
  assumes "bs_ok n s" "i < n"
  shows "bs_alpha (bs_set i v s) = (if v then insert i (bs_alpha s) else bs_alpha s - {i})"
  using assms bs_get_set[OF assms] by (auto simp: bs_alpha_def bs_ok_def bs_set_def)

lemma bs_alpha_get: "bs_ok n s \<Longrightarrow> i < n \<Longrightarrow> bs_get s i \<longleftrightarrow> i \<in> bs_alpha s"
  by (simp add: bs_alpha_def bs_ok_def)

lemma bs_alpha_bound: "bs_ok n s \<Longrightarrow> bs_alpha s \<subseteq> {..<n}"
  by (auto simp: bs_alpha_def bs_ok_def)

lemma bs_ok_zip: "bs_ok n s \<Longrightarrow> bs_ok n (bs_zip f s t)"
  by (simp add: bs_ok_def bs_zip_def)

lemma bs_get_zip:
  "bs_ok n s \<Longrightarrow> i < n \<Longrightarrow>
    bs_get (bs_zip f s t) i = bit (f (bs_data s ! (i div 64)) (bs_data t ! (i div 64))) (i mod 64)"
  by (simp add: bs_get_bit bs_zip_def bs_ok_def div_less_n_elems)

lemma bs_alpha_zip:
  assumes "bs_ok n s" "bs_ok n t" "\<And>x y j. j < 64 \<Longrightarrow> bit (f x y) j = g (bit x j) (bit y j)"
  shows "bs_alpha (bs_zip f s t) = {i. i < n \<and> g (i \<in> bs_alpha s) (i \<in> bs_alpha t)}"
proof -
  have "bs_size (bs_zip f s t) = n" using assms by (simp add: bs_zip_def bs_ok_def)
  moreover have "bs_get (bs_zip f s t) i \<longleftrightarrow> g (i \<in> bs_alpha s) (i \<in> bs_alpha t)" if "i < n" for i
    unfolding bs_get_zip[OF assms(1) that] bs_alpha_get[OF assms(1) that, symmetric]
      bs_alpha_get[OF assms(2) that, symmetric]
    unfolding bs_get_bit by (simp add: assms(3))
  ultimately show ?thesis by (auto simp: bs_alpha_def)
qed

lemma bs_alpha_add: "bs_ok n s \<Longrightarrow> bs_ok n t \<Longrightarrow> bs_alpha (bs_add s t) = bs_alpha s \<union> bs_alpha t"
  unfolding bs_add_def by (subst bs_alpha_zip[where g = "(\<or>)"]) (auto simp: bit_simps bs_alpha_def bs_ok_def)

lemma bs_alpha_mul: "bs_ok n s \<Longrightarrow> bs_ok n t \<Longrightarrow> bs_alpha (bs_mul s t) = bs_alpha s \<inter> bs_alpha t"
  unfolding bs_mul_def by (subst bs_alpha_zip[where g = "(\<and>)"]) (auto simp: bit_simps bs_alpha_def bs_ok_def)

lemma bs_alpha_mul_not: "bs_ok n s \<Longrightarrow> bs_ok n t \<Longrightarrow> bs_alpha (bs_mul_not s t) = bs_alpha s - bs_alpha t"
  unfolding bs_mul_not_def
  by (subst bs_alpha_zip[where g = "\<lambda>a b. a \<and> \<not> b"]) (auto simp: bit_simps bs_alpha_def bs_ok_def)

lemma bs_alpha_xor:
  "bs_ok n s \<Longrightarrow> bs_ok n t \<Longrightarrow> bs_alpha (bs_xor s t) = (bs_alpha s - bs_alpha t) \<union> (bs_alpha t - bs_alpha s)"
  unfolding bs_xor_def by (subst bs_alpha_zip[where g = "(\<noteq>)"]) (auto simp: bit_simps bs_alpha_def bs_ok_def)

lemma bs_ok_ops:
  "bs_ok n s \<Longrightarrow> bs_ok n (bs_add s t)" "bs_ok n s \<Longrightarrow> bs_ok n (bs_mul s t)"
  "bs_ok n s \<Longrightarrow> bs_ok n (bs_mul_not s t)" "bs_ok n s \<Longrightarrow> bs_ok n (bs_xor s t)"
  by (simp_all add: bs_add_def bs_mul_def bs_mul_not_def bs_xor_def bs_ok_zip)

lemma bs_assign_eq: "bs_ok n s \<Longrightarrow> bs_ok n t \<Longrightarrow> bs_assign s t = t"
  using map_nth[of "bs_data t"] by (simp add: bs_assign_def bs_ok_def)

lemma bs_ok_negate: "bs_ok n s \<Longrightarrow> bs_ok n (bs_negate s)"
  by (simp add: bs_ok_def bs_negate_def)

lemma bs_alpha_negate: "bs_ok n s \<Longrightarrow> bs_alpha (bs_negate s) = {..<n} - bs_alpha s"
  by (auto simp: bs_alpha_def bs_ok_def bs_negate_def bs_get_bit div_less_n_elems bit_not_iff)

section \<open>Queries\<close>

text \<open>The position of an element: a word and a bit, the bit alive in the last word.\<close>

lemma less_pos_iff:
  fixes a b c d :: nat
  assumes "b < 64" "d < 64"
  shows "64 * a + b < 64 * c + d \<longleftrightarrow> a < c \<or> a = c \<and> b < d"
  using assms by (cases a c rule: linorder_cases) auto

lemma alpha_pos:
  assumes "bs_ok n s"
  shows "i \<in> bs_alpha s \<longleftrightarrow>
    (i div 64 < n_elems n - 1 \<or> i div 64 = n_elems n - 1 \<and> i mod 64 < n mod 64) \<and> bit (bs_data s ! (i div 64)) (i mod 64)"
proof -
  have "i < n \<longleftrightarrow> i div 64 < n div 64 \<or> i div 64 = n div 64 \<and> i mod 64 < n mod 64"
    using less_pos_iff[of "i mod 64" "n mod 64" "i div 64" "n div 64"] by simp
  then show ?thesis using assms by (simp add: bs_alpha_def bs_ok_def bs_get_bit n_elems_eq)
qed

lemma alpha_word:
  assumes "bs_ok n s" "j < 64"
  shows "64 * k + j \<in> bs_alpha s \<longleftrightarrow>
    (k < n_elems n - 1 \<or> k = n_elems n - 1 \<and> j < n mod 64) \<and> bit (bs_data s ! k) j"
  using alpha_pos[OF assms(1), of "64 * k + j"] assms(2) by simp

lemma set_eq_words: "A = B \<longleftrightarrow> (\<forall>k. \<forall>j < 64. 64 * k + j \<in> A \<longleftrightarrow> 64 * k + j \<in> (B :: nat set))"
proof
  assume *: "\<forall>k. \<forall>j < 64. 64 * k + j \<in> A \<longleftrightarrow> 64 * k + j \<in> B"
  show "A = B"
  proof (rule set_eqI)
    fix i
    show "i \<in> A \<longleftrightarrow> i \<in> B" using *[rule_format, of "i mod 64" "i div 64"] by simp
  qed
qed simp

lemma alive_split:
  "(\<forall>k. \<forall>j < 64. (k < m \<or> k = m \<and> j < r) \<and> P k j \<longleftrightarrow> (k < m \<or> k = m \<and> j < r) \<and> Q k j)
    \<longleftrightarrow> (\<forall>k < m. \<forall>j < 64. P k j = Q k j) \<and> (\<forall>j < 64. (P m j \<and> j < r) = (Q m j \<and> j < (r :: nat)))"
  by (auto simp: nat_neq_iff)

lemma bs_eq_alpha:
  assumes "bs_ok n s" "bs_ok n t"
  shows "bs_eq s t \<longleftrightarrow> bs_alpha s = bs_alpha t"
proof -
  let ?m = "n_elems n - 1"
  have "bs_eq s t \<longleftrightarrow> (\<forall>k < ?m. bs_data s ! k = bs_data t ! k)
      \<and> bs_data s ! ?m AND alive_mask n = bs_data t ! ?m AND alive_mask n"
    using assms by (auto simp: bs_eq_def bs_ok_def Let_def list_ex_iff)
  also have "\<dots> \<longleftrightarrow> (\<forall>k. \<forall>j < 64. 64 * k + j \<in> bs_alpha s \<longleftrightarrow> 64 * k + j \<in> bs_alpha t)"
    by (simp only: alpha_word[OF assms(1)] alpha_word[OF assms(2)] alive_split word_eq_bits bit_and_iff alive_mask_bit
        cong: imp_cong)
  finally show ?thesis by (simp only: set_eq_words[of "bs_alpha s"])
qed

lemma bs_any_alpha:
  assumes "bs_ok n s"
  shows "bs_any s \<longleftrightarrow> bs_alpha s \<noteq> {}"
proof -
  let ?m = "n_elems n - 1"
  have "\<not> bs_any s \<longleftrightarrow> (\<forall>k < ?m. bs_data s ! k = 0) \<and> bs_data s ! ?m AND alive_mask n = 0"
    using assms by (auto simp: bs_any_def bs_ok_def Let_def list_ex_iff)
  also have "\<dots> \<longleftrightarrow> (\<forall>k. \<forall>j < 64. 64 * k + j \<in> bs_alpha s \<longleftrightarrow> 64 * k + j \<in> {})"
    using alive_split[of "n_elems n - 1" "n mod 64" "\<lambda>k. bit (bs_data s ! k)" "\<lambda>_ _. False"]
    by (simp add: alpha_word[OF assms] word_eq0_bits bit_and_iff alive_mask_bit cong: imp_cong) 
  finally show ?thesis by (simp only: flip: set_eq_words) blast
qed

lemma card_words:
  "A \<subseteq> {..<64 * n} \<Longrightarrow> card A = (\<Sum>k < n. card {j. j < 64 \<and> 64 * k + j \<in> (A :: nat set)})"
proof (induction n arbitrary: A)
  case (Suc n)
  let ?L = "A \<inter> {..<64 * n}" and ?R = "{j. j < 64 \<and> 64 * n + j \<in> A}"
  have "A = ?L \<union> (\<lambda>j. 64 * n + j) ` ?R"
  proof (rule set_eqI)
    fix i
    show "i \<in> A \<longleftrightarrow> i \<in> ?L \<union> (\<lambda>j. 64 * n + j) ` ?R"
      using Suc.prems by (cases "i < 64 * n") (auto simp: image_iff le_iff_add not_less)
  qed
  moreover have "?L \<inter> (\<lambda>j. 64 * n + j) ` ?R = {}" by auto
  ultimately have "card A = card ?L + card ?R"
    using card_Un_disjoint[of ?L "(\<lambda>j. 64 * n + j) ` ?R"] card_image[of "\<lambda>j. 64 * n + j" ?R]
    by (simp add: inj_on_def)
  moreover have "{j. j < 64 \<and> 64 * k + j \<in> ?L} = {j. j < 64 \<and> 64 * k + j \<in> A}" if "k < n" for k
    using that by auto
  ultimately show ?case using Suc.IH[of ?L] by simp
qed simp

lemma bs_count_alpha:
  assumes "bs_ok n s"
  shows "snd (bs_count s) = card (bs_alpha s)" "bs_ok n (fst (bs_count s))"
    "bs_alpha (fst (bs_count s)) = bs_alpha s"
proof -
  let ?m = "n_elems n - 1" and ?d = "bs_data (fst (bs_count s))"
  have sz: "bs_size s = n" "length (bs_data s) = n_elems n" "0 < n_elems n"
    using assms by (simp_all add: bs_ok_def n_elems_eq)
  have d: "?d = (bs_data s)[?m := bs_data s ! ?m AND alive_mask n]"
    by (simp add: bs_count_def Let_def sz)
  show ok: "bs_ok n (fst (bs_count s))" using sz d by (simp add: bs_ok_def bs_count_def Let_def)
  have w: "bit (?d ! k) j \<longleftrightarrow> 64 * k + j \<in> bs_alpha s" if "k < n_elems n" "j < 64" for k j
    using that sz by (cases "k = ?m") (auto simp: d alpha_word[OF assms] bit_and_iff alive_mask_bit)
  show "bs_alpha (fst (bs_count s)) = bs_alpha s"
  proof (subst set_eq_words, intro allI impI)
    fix k j :: nat
    assume j: "j < 64"
    show "64 * k + j \<in> bs_alpha (fst (bs_count s)) \<longleftrightarrow> 64 * k + j \<in> bs_alpha s"
      using w[of k j] j alpha_word[OF ok j, of k] alpha_word[OF assms j, of k] sz(3)
      by (cases "k < n_elems n") auto
  qed
  have "snd (bs_count s) = (\<Sum>k < n_elems n. word_count (?d ! k))"
    by (simp add: bs_count_def Let_def sz interv_sum_list_conv_sum_set_nat atLeast0LessThan)
  also have "\<dots> = (\<Sum>k < n_elems n. card {j. j < 64 \<and> 64 * k + j \<in> bs_alpha s})"
  proof (rule sum.cong)
    fix k
    assume "k \<in> {..<n_elems n}"
    then have "{j. j < 64 \<and> bit (?d ! k) j} = {j. j < 64 \<and> 64 * k + j \<in> bs_alpha s}" using w by auto
    moreover have "word_count (?d ! k) = card {j. j < 64 \<and> bit (?d ! k) j}"
      by (rule word_count_card) (auto dest: bit_imp_le_length)
    ultimately show "word_count (?d ! k) = card {j. j < 64 \<and> 64 * k + j \<in> bs_alpha s}" by simp
  qed simp
  also have "\<dots> = card (bs_alpha s)"
  proof (rule card_words[symmetric])
    have "n \<le> 64 * n_elems n"
      using div_mult_mod_eq[of n 64] mod_less_divisor[of 64 n] unfolding n_elems_eq mult_Suc_right by linarith
    then show "bs_alpha s \<subseteq> {..<64 * n_elems n}" using bs_alpha_bound[OF assms] by auto
  qed
  finally show "snd (bs_count s) = card (bs_alpha s)" .
qed

section \<open>Iteration\<close>

lemma bs_from_skip: "bs_from s (skip_empty s i) = filter (bs_get s) [i..<bs_size s]"
proof (induction "bs_size s - i" arbitrary: i rule: less_induct)
  case less
  show ?case
  proof (cases "i < bs_size s")
    case True
    then have "bs_from s (skip_empty s (Suc i)) = filter (bs_get s) [Suc i..<bs_size s]"
      using less[of "Suc i"] by simp
    then show ?thesis
      using True by (cases "bs_get s i")
        (simp_all add: skip_empty.simps[of s i] bs_from.simps[of s i] bs_next_def upt_conv_Cons)
  next
    case False
    then show ?thesis by (simp add: skip_empty.simps[of s i] bs_from.simps[of s i])
  qed
qed

lemma bs_elems_eq: "bs_elems s = filter (bs_get s) [0..<bs_size s]"
  unfolding bs_elems_def bs_begin_def by (rule bs_from_skip)

lemma bs_elems_alpha: "set (bs_elems s) = bs_alpha s" "sorted (bs_elems s)" "distinct (bs_elems s)"
  by (auto simp: bs_elems_eq bs_alpha_def sorted_wrt_filter)

section \<open>Fields of several bits\<close>

lemma bs_set_bits_Suc:
  "bs_set_bits indx (Suc w) v s = bs_set (indx + w) (drop_bit w v AND 1 = 1) (bs_set_bits indx w v s)"
  by (simp add: bs_set_bits_def)

lemma bs_ok_set_bits: "bs_ok n s \<Longrightarrow> bs_ok n (bs_set_bits indx w v s)"
  by (induction w) (simp_all add: bs_set_bits_Suc bs_ok_set, simp add: bs_set_bits_def)

lemma low_bit_iff: "drop_bit w (v :: u64) AND 1 = 1 \<longleftrightarrow> bit v w"
  by (simp add: and_one_eq bit_iff_odd_drop_bit odd_iff_mod_2_eq_one)

lemma bs_get_set_bits:
  "bs_ok n s \<Longrightarrow> indx + w \<le> n \<Longrightarrow>
    bs_get (bs_set_bits indx w v s) j = (if indx \<le> j \<and> j < indx + w then bit v (j - indx) else bs_get s j)"
proof (induction w)
  case (Suc w)
  then show ?case
    by (auto simp: bs_set_bits_Suc bs_get_set[OF bs_ok_set_bits] low_bit_iff less_Suc_eq)
qed (auto simp: bs_set_bits_def)

lemma bs_get_bits_Suc:
  "bs_get_bits s indx (Suc w) = push_bit w (if bs_get s (indx + w) then 1 else 0) OR bs_get_bits s indx w"
proof -
  have "fold (\<lambda>i out. push_bit 1 out OR f i) (rev [0..<w]) x
      = push_bit w x OR fold (\<lambda>i out. push_bit 1 out OR f i) (rev [0..<w]) (0 :: u64)" for f x
  proof (induction w arbitrary: x)
    case (Suc w)
    have "fold (\<lambda>i out. push_bit 1 out OR f i) (rev [0..<Suc w]) y
        = push_bit w (push_bit 1 y OR f w) OR fold (\<lambda>i out. push_bit 1 out OR f i) (rev [0..<w]) 0" for y
      using Suc[of "push_bit 1 y OR f w"] by simp
    from this[of x] this[of 0] show ?case
      by (simp add: push_bit_or ac_simps flip: push_bit_push_bit)
  qed simp
  from this[of "\<lambda>i. if bs_get s (indx + i) then 1 else 0" "if bs_get s (indx + w) then 1 else 0"]
  show ?thesis by (simp add: bs_get_bits_def)
qed

lemma bs_get_bits_bit: "w \<le> 64 \<Longrightarrow> bit (bs_get_bits s indx w) k \<longleftrightarrow> k < w \<and> bs_get s (indx + k)"
proof (induction w)
  case (Suc w)
  then show ?case
    by (auto simp: bs_get_bits_Suc bit_or_iff bit_push_bit_iff bit_1_iff less_Suc_eq)
qed (simp add: bs_get_bits_def)

lemma bs_get_set_bits_round:
  assumes "bs_ok n s" "indx + w \<le> n" "w \<le> 64"
  shows "bs_get_bits (bs_set_bits indx w v s) indx w = take_bit w v"
  by (rule bit_eqI) (auto simp: bs_get_bits_bit[OF assms(3)] bs_get_set_bits[OF assms(1,2)] bit_take_bit_iff)

text \<open>\<^verbatim>\<open>all\<close> answers after the first full word: it accepts a set that is half full.\<close>

lemma bs_all_not_all:
  "bs_all \<lparr>bs_data = [- 1, 0, 0], bs_size = 128\<rparr> = Some True
    \<and> 64 \<notin> bs_alpha \<lparr>bs_data = [- 1, 0, 0], bs_size = 128\<rparr> \<and> bs_all (bs_new 128 False) = None"
proof -
  have n: "n_elems 128 = 3" by (simp add: n_elems_def)
  have "bs_all \<lparr>bs_data = [- 1, 0, 0], bs_size = 128\<rparr> = Some True"
    by (auto simp: bs_all_def n list_ex_iff intro!: bexI[of _ 0])
  moreover have "bs_all (bs_new 128 False) = None"
    by (auto simp: bs_all_def n list_ex_iff bs_new_def bs_reset_def)
  ultimately show ?thesis by (simp add: bs_alpha_def bs_get_bit)
qed

section \<open>The interface\<close>

text \<open>
  What the dataflow analyses use of a bit set: a representation of sets of numbers below a bound,
  with the operations that the code calls and what each does to the represented set.
\<close>

locale bit_set_impl =
  fixes ok :: "nat \<Rightarrow> 's \<Rightarrow> bool"
    and alpha :: "'s \<Rightarrow> nat set"
    and fresh :: "nat \<Rightarrow> bool \<Rightarrow> 's"
    and upd :: "nat \<Rightarrow> bool \<Rightarrow> 's \<Rightarrow> 's"
    and union minus assign :: "'s \<Rightarrow> 's \<Rightarrow> 's"
    and same :: "'s \<Rightarrow> 's \<Rightarrow> bool"
  assumes ok_fresh: "ok n (fresh n v)"
    and ok_upd: "ok n s \<Longrightarrow> ok n (upd i v s)"
    and ok_union: "ok n s \<Longrightarrow> ok n t \<Longrightarrow> ok n (union s t)"
    and ok_minus: "ok n s \<Longrightarrow> ok n t \<Longrightarrow> ok n (minus s t)"
    and bound: "ok n s \<Longrightarrow> alpha s \<subseteq> {..<n}"
    and alpha_fresh: "alpha (fresh n v) = (if v then {..<n} else {})"
    and alpha_upd: "ok n s \<Longrightarrow> i < n \<Longrightarrow> alpha (upd i v s) = (if v then insert i (alpha s) else alpha s - {i})"
    and alpha_union: "ok n s \<Longrightarrow> ok n t \<Longrightarrow> alpha (union s t) = alpha s \<union> alpha t"
    and alpha_minus: "ok n s \<Longrightarrow> ok n t \<Longrightarrow> alpha (minus s t) = alpha s - alpha t"
    and assign_eq: "ok n s \<Longrightarrow> ok n t \<Longrightarrow> assign s t = t"
    and same_iff: "ok n s \<Longrightarrow> ok n t \<Longrightarrow> same s t \<longleftrightarrow> alpha s = alpha t"
begin

text \<open>A loop that adds up sets.\<close>

lemma fold_union:
  assumes "ok n s" "\<And>x. x \<in> set xs \<Longrightarrow> ok n (f x)"
  shows "ok n (fold (\<lambda>x acc. union acc (f x)) xs s) \<and>
    alpha (fold (\<lambda>x acc. union acc (f x)) xs s) = alpha s \<union> (\<Union>x \<in> set xs. alpha (f x))"
  using assms by (induction xs arbitrary: s) (auto simp: ok_union alpha_union)

text \<open>A loop that inserts numbers.\<close>

lemma fold_insert:
  assumes "ok n s" "\<And>x. x \<in> set xs \<Longrightarrow> f x < n"
  shows "ok n (fold (\<lambda>x. upd (f x) True) xs s) \<and>
    alpha (fold (\<lambda>x. upd (f x) True) xs s) = alpha s \<union> f ` set xs"
  using assms by (induction xs arbitrary: s) (auto simp: ok_upd alpha_upd)

text \<open>The transfer function of a backward may analysis, as the code chains it.\<close>

lemma transfer:
  assumes "ok n s" "ok n out" "ok n kill" "ok n gen"
  shows "ok n (union (minus (assign s out) kill) gen) \<and>
    alpha (union (minus (assign s out) kill) gen) = (alpha out - alpha kill) \<union> alpha gen"
  using assms alpha_union[OF ok_minus[OF assms(2,3)] assms(4)]
  by (simp add: assign_eq[OF assms(1,2)] alpha_minus[OF assms(2,3)] ok_union ok_minus)

end

interpretation bs: bit_set_impl bs_ok bs_alpha bs_new bs_set bs_add bs_mul_not bs_assign bs_eq
  by unfold_locales
    (simp_all add: bs_ok_set bs_ok_ops bs_alpha_bound bs_alpha_new bs_alpha_set bs_alpha_add bs_alpha_mul_not
      bs_assign_eq bs_eq_alpha)

section \<open>Properties\<close>

text \<open>C33: the bit set refines a set of numbers below its size: construction, \<^verbatim>\<open>reset\<close>, the bit
  reference, \<^verbatim>\<open>add\<close>, \<^verbatim>\<open>mul\<close>, \<^verbatim>\<open>mul_not\<close>, \<^verbatim>\<open>xor_\<close>, \<^verbatim>\<open>negate\<close> and \<^verbatim>\<open>assign\<close> act on the represented
  set as their names say and keep the word array at its length, whatever the dead bits hold.\<close>

theorem bitset_refines_set:
  assumes "bs_ok n s" "bs_ok n t" "i < n"
  shows "bs_alpha (bs_new n v) = (if v then {..<n} else {})
    \<and> bs_alpha (bs_reset v s) = (if v then {..<n} else {})
    \<and> (bs_get s i \<longleftrightarrow> i \<in> bs_alpha s)
    \<and> bs_alpha (bs_set i v s) = (if v then insert i (bs_alpha s) else bs_alpha s - {i})
    \<and> bs_alpha (bs_add s t) = bs_alpha s \<union> bs_alpha t
    \<and> bs_alpha (bs_mul s t) = bs_alpha s \<inter> bs_alpha t
    \<and> bs_alpha (bs_mul_not s t) = bs_alpha s - bs_alpha t
    \<and> bs_alpha (bs_xor s t) = (bs_alpha s - bs_alpha t) \<union> (bs_alpha t - bs_alpha s)
    \<and> bs_alpha (bs_negate s) = {..<n} - bs_alpha s \<and> bs_alpha (bs_assign s t) = bs_alpha t
    \<and> (\<forall>r \<in> {bs_new n v, bs_reset v s, bs_set i v s, bs_add s t, bs_mul s t, bs_mul_not s t, bs_xor s t,
        bs_negate s, bs_assign s t}. bs_ok n r)"
  using assms
  by (simp add: bs_alpha_new bs_alpha_reset bs_alpha_get bs_alpha_set bs_alpha_add bs_alpha_mul bs_alpha_mul_not
      bs_alpha_xor bs_alpha_negate bs_assign_eq bs_ok_reset bs_ok_set bs_ok_ops bs_ok_negate)

theorem bitset_refines_set_witness:
  "bs_alpha (bs_mul_not (bs_set 65 True (bs_new 70 False)) (bs_new 70 True)) = {}"
  using bitset_refines_set[of 70 "bs_set 65 True (bs_new 70 False)" "bs_new 70 True" 65]
    bs_alpha_set[of 70 "bs_new 70 False" 65 True]
  by (simp add: bs_ok_set bs_alpha_new)

text \<open>C34: the queries read the represented set and ignore the dead bits: \<^verbatim>\<open>any\<close> is non-emptiness,
  \<^verbatim>\<open>operator==\<close> is equality of the sets, \<^verbatim>\<open>count\<close> is the cardinality (and only clears dead bits), and
  iteration visits the elements in increasing order, each once.\<close>

theorem bitset_queries:
  assumes "bs_ok n s" "bs_ok n t"
  shows "(bs_any s \<longleftrightarrow> bs_alpha s \<noteq> {}) \<and> (bs_eq s t \<longleftrightarrow> bs_alpha s = bs_alpha t)
    \<and> snd (bs_count s) = card (bs_alpha s) \<and> bs_alpha (fst (bs_count s)) = bs_alpha s
    \<and> bs_elems s = sorted_list_of_set (bs_alpha s)"
  using bs_any_alpha[OF assms(1)] bs_eq_alpha[OF assms] bs_count_alpha[OF assms(1)] bs_elems_alpha[of s]
  by (simp add: sorted_list_of_set_unique[symmetric]) (metis sorted_list_of_set.idem_if_sorted_distinct)

theorem bitset_queries_witness: "bs_any (bs_negate (bs_new 64 False)) \<and> \<not> bs_any (bs_new 64 True) = False"
  using bitset_queries[of 64 "bs_negate (bs_new 64 False)" "bs_new 64 True"]
    bitset_queries[of 64 "bs_new 64 True" "bs_new 64 True"]
    bs_alpha_negate[of 64 "bs_new 64 False"]
  by (simp add: bs_ok_negate bs_alpha_new lessThan_empty_iff)

text \<open>A field of up to 64 bits written with \<^verbatim>\<open>set(indx, width, value)\<close> is read back by
  \<^verbatim>\<open>get(indx, width)\<close> as the low bits of the value, across word boundaries, and no other bit
  changes.\<close>

theorem bitset_field_roundtrip:
  assumes "bs_ok n s" "indx + w \<le> n" "w \<le> 64"
  shows "bs_get_bits (bs_set_bits indx w v s) indx w = take_bit w v
    \<and> (\<forall>j. j < indx \<or> indx + w \<le> j \<longrightarrow> bs_get (bs_set_bits indx w v s) j = bs_get s j)"
  using bs_get_set_bits_round[OF assms] bs_get_set_bits[OF assms(1,2)] by auto

theorem bitset_field_roundtrip_witness:
  "bs_get_bits (bs_set_bits 60 8 171 (bs_new 100 True)) 60 8 = 171"
  using bitset_field_roundtrip[of 100 "bs_new 100 True" 60 8 171] by (simp add: take_bit_eq_mod)

end
