(* ===== verification/MIRDefUse.thy ===== *)
theory MIRDefUse
  imports MIRTables BitSet
begin

text \<open>
  The second pair of operand tables, of the liveness analysis
  (\<^verbatim>\<open>src/src/mir/analysis/live_variables.cpp\<close>): \<^verbatim>\<open>update_def\<close> marks the registers an instruction
  overwrites and \<^verbatim>\<open>update_uses\<close> the registers it needs, in a bit set indexed by register number.
\<close>

section \<open>Definitions\<close>

text \<open>\<^verbatim>\<open>def[reg_to_uid(args[k].reg)].set(true)\<close>, plain and under \<^verbatim>\<open>args[k].isReg()\<close>, and the stack
  pointer.\<close>

definition def_reg :: "MArgument list \<Rightarrow> nat \<Rightarrow> bitset \<Rightarrow> bitset" where
  "def_reg a k d = bs_set (reg_to_uid (ma_reg (a ! k))) True d"

definition def_arg :: "MArgument list \<Rightarrow> nat \<Rightarrow> bitset \<Rightarrow> bitset" where
  "def_arg a k d = (if isReg (a ! k) then def_reg a k d else d)"

definition set_sp :: "bitset \<Rightarrow> bitset" where
  "set_sp d = bs_set (reg_to_uid (ConcR Ty_Int64 CReg_SP)) True d"

primrec def_GBase :: "GBaseSubtype \<Rightarrow> MArgument list \<Rightarrow> bitset \<Rightarrow> bitset" where
  "def_GBase GBase_INVALID a d = d"
| "def_GBase GBase_unreach a d = d"
| "def_GBase GBase_mov a d = def_arg a 0 d"
| "def_GBase GBase_stack_arg_load a d = def_arg a 0 d"
| "def_GBase GBase_pop a d = def_arg a 0 (set_sp d)"
| "def_GBase GBase_push a d = set_sp d"
| "def_GBase GBase_call a d = d"
| "def_GBase GBase_arg_setup a d = d"
| "def_GBase GBase_ret a d = d"
| "def_GBase GBase_invoke a d = d"
| "def_GBase GBase_asm_in a d = d"
| "def_GBase GBase_inline_asm a d = d"
| "def_GBase GBase_ret_setup a d = def_arg a 0 d"
| "def_GBase GBase_asm_out a d = def_arg a 0 d"

primrec def_GJmp :: "GJumpSubtype \<Rightarrow> MArgument list \<Rightarrow> bitset \<Rightarrow> bitset" where
  "def_GJmp GJmp_INVALID a d = d"
| "def_GJmp GJmp_icmp_slt a d = def_arg a 0 d"
| "def_GJmp GJmp_icmp_eq a d = def_arg a 0 d"
| "def_GJmp GJmp_icmp_ult a d = def_arg a 0 d"
| "def_GJmp GJmp_icmp_ne a d = def_arg a 0 d"
| "def_GJmp GJmp_icmp_sgt a d = def_arg a 0 d"
| "def_GJmp GJmp_icmp_ugt a d = def_arg a 0 d"
| "def_GJmp GJmp_icmp_uge a d = def_arg a 0 d"
| "def_GJmp GJmp_icmp_ule a d = def_arg a 0 d"
| "def_GJmp GJmp_icmp_sge a d = def_arg a 0 d"
| "def_GJmp GJmp_icmp_sle a d = def_arg a 0 d"
| "def_GJmp GJmp_fcmp_isNaN a d = def_arg a 0 d"
| "def_GJmp GJmp_fcmp_oeq a d = def_arg a 0 d"
| "def_GJmp GJmp_fcmp_ogt a d = def_arg a 0 d"
| "def_GJmp GJmp_fcmp_oge a d = def_arg a 0 d"
| "def_GJmp GJmp_fcmp_olt a d = def_arg a 0 d"
| "def_GJmp GJmp_fcmp_ole a d = def_arg a 0 d"
| "def_GJmp GJmp_fcmp_one a d = def_arg a 0 d"
| "def_GJmp GJmp_fcmp_ord a d = def_arg a 0 d"
| "def_GJmp GJmp_fcmp_uno a d = def_arg a 0 d"
| "def_GJmp GJmp_fcmp_ueq a d = def_arg a 0 d"
| "def_GJmp GJmp_fcmp_ugt a d = def_arg a 0 d"
| "def_GJmp GJmp_fcmp_uge a d = def_arg a 0 d"
| "def_GJmp GJmp_fcmp_ult a d = def_arg a 0 d"
| "def_GJmp GJmp_fcmp_ule a d = def_arg a 0 d"
| "def_GJmp GJmp_fcmp_une a d = def_arg a 0 d"
| "def_GJmp GJmp_cjmp_int_slt a d = d"
| "def_GJmp GJmp_cjmp_int_sge a d = d"
| "def_GJmp GJmp_cjmp_int_sle a d = d"
| "def_GJmp GJmp_cjmp_int_sgt a d = d"
| "def_GJmp GJmp_cjmp_int_ult a d = d"
| "def_GJmp GJmp_cjmp_int_ule a d = d"
| "def_GJmp GJmp_cjmp_int_ugt a d = d"
| "def_GJmp GJmp_cjmp_int_uge a d = d"
| "def_GJmp GJmp_cjmp_int_ne a d = d"
| "def_GJmp GJmp_cjmp_int_eq a d = d"
| "def_GJmp GJmp_cjmp_flt_oeq a d = d"
| "def_GJmp GJmp_cjmp_flt_ogt a d = d"
| "def_GJmp GJmp_cjmp_flt_oge a d = d"
| "def_GJmp GJmp_cjmp_flt_olt a d = d"
| "def_GJmp GJmp_cjmp_flt_ole a d = d"
| "def_GJmp GJmp_cjmp_flt_one a d = d"
| "def_GJmp GJmp_cjmp_flt_ord a d = d"
| "def_GJmp GJmp_cjmp_flt_uno a d = d"
| "def_GJmp GJmp_cjmp_flt_ueq a d = d"
| "def_GJmp GJmp_cjmp_flt_ugt a d = d"
| "def_GJmp GJmp_cjmp_flt_uge a d = d"
| "def_GJmp GJmp_cjmp_flt_ult a d = d"
| "def_GJmp GJmp_cjmp_flt_ule a d = d"
| "def_GJmp GJmp_cjmp_flt_une a d = d"
| "def_GJmp GJmp_cjmp_and a d = d"
| "def_GJmp GJmp_cjmp_or a d = d"
| "def_GJmp GJmp_cjmp a d = d"
| "def_GJmp GJmp_jmp a d = d"

primrec def_GConv :: "GConvSubtype \<Rightarrow> MArgument list \<Rightarrow> bitset \<Rightarrow> bitset" where
  "def_GConv GConv_INVALID a d = d"
| "def_GConv GConv_SI2FL a d = def_arg a 0 d"
| "def_GConv GConv_UI2FL a d = def_arg a 0 d"
| "def_GConv GConv_FL2SI a d = def_arg a 0 d"
| "def_GConv GConv_FL2UI a d = def_arg a 0 d"
| "def_GConv GConv_F64_ext a d = def_arg a 0 d"
| "def_GConv GConv_F32_trunc a d = def_arg a 0 d"
| "def_GConv GConv_itrunc a d = def_arg a 0 d"
| "def_GConv GConv_mov_zx a d = def_arg a 0 d"
| "def_GConv GConv_mov_sx a d = def_arg a 0 d"

primrec def_GArith :: "GArithSubtype \<Rightarrow> MArgument list \<Rightarrow> bitset \<Rightarrow> bitset" where
  "def_GArith GArith_INVALID a d = d"
| "def_GArith GArith_idiv a d = def_reg a 1 (def_reg a 0 d)"
| "def_GArith GArith_udiv a d = def_reg a 1 (def_reg a 0 d)"
| "def_GArith GArith_umulh a d = def_reg a 1 (def_reg a 0 d)"
| "def_GArith GArith_smulh a d = def_reg a 1 (def_reg a 0 d)"
| "def_GArith GArith_abs a d = def_arg a 0 d"
| "def_GArith GArith_shl2 a d = def_arg a 0 d"
| "def_GArith GArith_shr2 a d = def_arg a 0 d"
| "def_GArith GArith_sar2 a d = def_arg a 0 d"
| "def_GArith GArith_land2 a d = def_arg a 0 d"
| "def_GArith GArith_lor2 a d = def_arg a 0 d"
| "def_GArith GArith_lxor2 a d = def_arg a 0 d"
| "def_GArith GArith_add2 a d = def_arg a 0 d"
| "def_GArith GArith_sub2 a d = def_arg a 0 d"
| "def_GArith GArith_mul2 a d = def_arg a 0 d"
| "def_GArith GArith_not1 a d = def_arg a 0 d"
| "def_GArith GArith_neg1 a d = def_arg a 0 d"
| "def_GArith GArith_smul3 a d = def_arg a 0 d"

primrec def_GCMov :: "GCMovSubtype \<Rightarrow> MArgument list \<Rightarrow> bitset \<Rightarrow> bitset" where
  "def_GCMov GCMov_INVALID a d = d"
| "def_GCMov GCMov_cmov a d = def_arg a 0 d"
| "def_GCMov GCMov_cmov_ns a d = def_arg a 0 d"
| "def_GCMov GCMov_cmov_sgt a d = def_arg a 0 d"
| "def_GCMov GCMov_cmov_slt a d = def_arg a 0 d"
| "def_GCMov GCMov_cmov_ult a d = def_arg a 0 d"
| "def_GCMov GCMov_cmov_sge a d = def_arg a 0 d"
| "def_GCMov GCMov_cmov_sle a d = def_arg a 0 d"
| "def_GCMov GCMov_cmov_ne a d = def_arg a 0 d"
| "def_GCMov GCMov_cmov_eq a d = def_arg a 0 d"
| "def_GCMov GCMov_cmov_ugt a d = def_arg a 0 d"
| "def_GCMov GCMov_cmov_uge a d = def_arg a 0 d"
| "def_GCMov GCMov_cmov_ule a d = def_arg a 0 d"

primrec def_GVec :: "GVecSubtype \<Rightarrow> MArgument list \<Rightarrow> bitset \<Rightarrow> bitset" where
  "def_GVec GVec_INVALID a d = d"
| "def_GVec GVec_vadd a d = def_arg a 0 d"
| "def_GVec GVec_vsub a d = def_arg a 0 d"
| "def_GVec GVec_fMax a d = def_arg a 0 d"
| "def_GVec GVec_fMin a d = def_arg a 0 d"
| "def_GVec GVec_vSMin a d = def_arg a 0 d"
| "def_GVec GVec_vSMax a d = def_arg a 0 d"
| "def_GVec GVec_vUMin a d = def_arg a 0 d"
| "def_GVec GVec_vUMax a d = def_arg a 0 d"
| "def_GVec GVec_vmul a d = def_arg a 0 d"
| "def_GVec GVec_vdiv a d = def_arg a 0 d"
| "def_GVec GVec_ffmadd a d = def_arg a 0 d"
| "def_GVec GVec_vXor a d = def_arg a 0 d"
| "def_GVec GVec_vAnd a d = def_arg a 0 d"
| "def_GVec GVec_vOr a d = def_arg a 0 d"
| "def_GVec GVec_vShl a d = def_arg a 0 d"
| "def_GVec GVec_vShr a d = def_arg a 0 d"
| "def_GVec GVec_vSar a d = def_arg a 0 d"

primrec def_X86 :: "X86Subtype \<Rightarrow> MArgument list \<Rightarrow> bitset \<Rightarrow> bitset" where
  "def_X86 X86_INVALID a d = d"
| "def_X86 X86_vzeroupper a d = d"
| "def_X86 X86_mfence a d = d"
| "def_X86 X86_LockXAdd2 a d = def_reg a 1 (def_arg a 0 d)"
| "def_X86 X86_Xchg2 a d = def_reg a 1 (def_arg a 0 d)"
| "def_X86 X86_LockAdd2 a d = d"
| "def_X86 X86_LockSub2 a d = d"
| "def_X86 X86_LockAnd2 a d = d"
| "def_X86 X86_LockOr2 a d = d"
| "def_X86 X86_LockXor2 a d = d"
| "def_X86 X86_LockCmpXchg3 a d = def_reg a 2 d"
| "def_X86 X86_vextractf64x2 a d = def_arg a 0 d"
| "def_X86 X86_vextractf64x4 a d = def_arg a 0 d"
| "def_X86 X86_vextract128 a d = def_arg a 0 d"
| "def_X86 X86_vinsertps a d = def_arg a 0 d"
| "def_X86 X86_vinsert128 a d = def_arg a 0 d"
| "def_X86 X86_movlhps a d = def_arg a 0 d"
| "def_X86 X86_movhlps a d = def_arg a 0 d"
| "def_X86 X86_tls_base a d = def_arg a 0 d"
| "def_X86 X86_lea a d = def_arg a 0 d"
| "def_X86 X86_HAdd a d = def_arg a 0 d"
| "def_X86 X86_sqrt a d = def_arg a 0 d"
| "def_X86 X86_vpabs a d = def_arg a 0 d"
| "def_X86 X86_vmovmsk a d = def_arg a 0 d"
| "def_X86 X86_vpshuf a d = def_arg a 0 d"
| "def_X86 X86_vpshufb a d = def_arg a 0 d"
| "def_X86 X86_punpckl a d = def_arg a 0 d"
| "def_X86 X86_vbroadcast a d = def_arg a 0 d"
| "def_X86 X86_popcnt a d = def_arg a 0 d"
| "def_X86 X86_bswap a d = def_arg a 0 d"
| "def_X86 X86_lzcnt a d = def_arg a 0 d"
| "def_X86 X86_tzcnt a d = def_arg a 0 d"
| "def_X86 X86_vpermil a d = def_arg a 0 d"
| "def_X86 X86_vmovshdup a d = def_arg a 0 d"
| "def_X86 X86_ffmadd132 a d = def_arg a 0 d"
| "def_X86 X86_ffmadd213 a d = def_arg a 0 d"
| "def_X86 X86_ffmadd231 a d = def_arg a 0 d"
| "def_X86 X86_vgatherq a d = def_arg a 0 d"
| "def_X86 X86_vgather a d = def_arg a 0 d"
| "def_X86 X86_vpextr a d = def_arg a 0 d"
| "def_X86 X86_vpinsr a d = def_arg a 0 d"
| "def_X86 X86_vpcmpeq a d = def_arg a 0 d"
| "def_X86 X86_vpack a d = def_arg a 0 d"
| "def_X86 X86_vpacks a d = def_arg a 0 d"
| "def_X86 X86_vpmulhw a d = def_arg a 0 d"
| "def_X86 X86_vpmaddwd a d = def_arg a 0 d"
| "def_X86 X86_vpmaddubsw a d = def_arg a 0 d"
| "def_X86 X86_vpermd a d = def_arg a 0 d"
| "def_X86 X86_vpcmpgt a d = def_arg a 0 d"
| "def_X86 X86_vmaskload a d = def_arg a 0 d"
| "def_X86 X86_vmaskstore a d = def_arg a 0 d"
| "def_X86 X86_vround a d = def_arg a 0 d"
| "def_X86 X86_psrl a d = def_arg a 0 d"
| "def_X86 X86_psll a d = def_arg a 0 d"
| "def_X86 X86_psra a d = def_arg a 0 d"
| "def_X86 X86_pmuludq a d = def_arg a 0 d"
| "def_X86 X86_padd a d = def_arg a 0 d"
| "def_X86 X86_vblendv a d = def_arg a 0 d"
| "def_X86 X86_vcmp a d = def_arg a 0 d"
| "def_X86 X86_vshufps a d = def_arg a 0 d"
| "def_X86 X86_vpclmul a d = def_arg a 0 d"

definition update_def :: "MInstr \<Rightarrow> bitset \<Rightarrow> bitset" where
  "update_def x d = (case mi_op x of
     GBase s \<Rightarrow> def_GBase s (mi_args x) d
   | GJmp s \<Rightarrow> def_GJmp s (mi_args x) d
   | GConv s \<Rightarrow> def_GConv s (mi_args x) d
   | GArith s \<Rightarrow> def_GArith s (mi_args x) d
   | GCMov s \<Rightarrow> def_GCMov s (mi_args x) d
   | GVec s \<Rightarrow> def_GVec s (mi_args x) d
   | X86 s \<Rightarrow> def_X86 s (mi_args x) d)"

section \<open>Uses\<close>

definition update_uses_arg :: "MArgument \<Rightarrow> bitset \<Rightarrow> bitset" where
  "update_uses_arg arg u = (case ma_type arg of
     AT_VReg \<Rightarrow> bs_set (reg_to_uid (ma_reg arg)) True u
   | AT_MemVReg \<Rightarrow> bs_set (reg_to_uid (ma_reg arg)) True u
   | AT_MemImmVReg \<Rightarrow> bs_set (reg_to_uid (ma_reg arg)) True u
   | AT_MemImmVRegScale \<Rightarrow> bs_set (reg_to_uid (ma_indx arg)) True u
   | AT_MemLabelVregScale \<Rightarrow> bs_set (reg_to_uid (ma_indx arg)) True u
   | AT_MemLabelVreg \<Rightarrow> bs_set (reg_to_uid (ma_indx arg)) True u
   | AT_MemVRegVReg \<Rightarrow> bs_set (reg_to_uid (ma_indx arg)) True (bs_set (reg_to_uid (ma_reg arg)) True u)
   | AT_MemImmVRegVReg \<Rightarrow> bs_set (reg_to_uid (ma_indx arg)) True (bs_set (reg_to_uid (ma_reg arg)) True u)
   | AT_MemVRegVRegScale \<Rightarrow> bs_set (reg_to_uid (ma_indx arg)) True (bs_set (reg_to_uid (ma_reg arg)) True u)
   | AT_MemImmVRegVRegScale \<Rightarrow> bs_set (reg_to_uid (ma_indx arg)) True (bs_set (reg_to_uid (ma_reg arg)) True u)
   | AT_MemImm \<Rightarrow> u | AT_StackSlot \<Rightarrow> u | AT_Label \<Rightarrow> u | AT_MemLabel \<Rightarrow> u | AT_MemImmLabel \<Rightarrow> u | AT_Imm \<Rightarrow> u)"

text \<open>\<^verbatim>\<open>update_uses(args[k], uses)\<close>, plain and under \<^verbatim>\<open>!args[k].isReg()\<close>: a written memory operand
  still reads its address registers.\<close>

definition use_arg :: "MArgument list \<Rightarrow> nat \<Rightarrow> bitset \<Rightarrow> bitset" where
  "use_arg a k u = update_uses_arg (a ! k) u"

definition use_mem :: "MArgument list \<Rightarrow> nat \<Rightarrow> bitset \<Rightarrow> bitset" where
  "use_mem a k u = (if \<not> isReg (a ! k) then use_arg a k u else u)"

primrec use_GJmp :: "GJumpSubtype \<Rightarrow> MArgument list \<Rightarrow> bitset \<Rightarrow> bitset" where
  "use_GJmp GJmp_INVALID a u = u"
| "use_GJmp GJmp_icmp_slt a u = use_arg a 2 (use_arg a 1 (use_mem a 0 u))"
| "use_GJmp GJmp_icmp_eq a u = use_arg a 2 (use_arg a 1 (use_mem a 0 u))"
| "use_GJmp GJmp_icmp_ult a u = use_arg a 2 (use_arg a 1 (use_mem a 0 u))"
| "use_GJmp GJmp_icmp_ne a u = use_arg a 2 (use_arg a 1 (use_mem a 0 u))"
| "use_GJmp GJmp_icmp_sgt a u = use_arg a 2 (use_arg a 1 (use_mem a 0 u))"
| "use_GJmp GJmp_icmp_ugt a u = use_arg a 2 (use_arg a 1 (use_mem a 0 u))"
| "use_GJmp GJmp_icmp_uge a u = use_arg a 2 (use_arg a 1 (use_mem a 0 u))"
| "use_GJmp GJmp_icmp_ule a u = use_arg a 2 (use_arg a 1 (use_mem a 0 u))"
| "use_GJmp GJmp_icmp_sge a u = use_arg a 2 (use_arg a 1 (use_mem a 0 u))"
| "use_GJmp GJmp_icmp_sle a u = use_arg a 2 (use_arg a 1 (use_mem a 0 u))"
| "use_GJmp GJmp_fcmp_isNaN a u = use_arg a 2 (use_arg a 1 (use_mem a 0 u))"
| "use_GJmp GJmp_fcmp_oeq a u = use_arg a 2 (use_arg a 1 (use_mem a 0 u))"
| "use_GJmp GJmp_fcmp_ogt a u = use_arg a 2 (use_arg a 1 (use_mem a 0 u))"
| "use_GJmp GJmp_fcmp_oge a u = use_arg a 2 (use_arg a 1 (use_mem a 0 u))"
| "use_GJmp GJmp_fcmp_olt a u = use_arg a 2 (use_arg a 1 (use_mem a 0 u))"
| "use_GJmp GJmp_fcmp_ole a u = use_arg a 2 (use_arg a 1 (use_mem a 0 u))"
| "use_GJmp GJmp_fcmp_one a u = use_arg a 2 (use_arg a 1 (use_mem a 0 u))"
| "use_GJmp GJmp_fcmp_ord a u = use_arg a 2 (use_arg a 1 (use_mem a 0 u))"
| "use_GJmp GJmp_fcmp_uno a u = use_arg a 2 (use_arg a 1 (use_mem a 0 u))"
| "use_GJmp GJmp_fcmp_ueq a u = use_arg a 2 (use_arg a 1 (use_mem a 0 u))"
| "use_GJmp GJmp_fcmp_ugt a u = use_arg a 2 (use_arg a 1 (use_mem a 0 u))"
| "use_GJmp GJmp_fcmp_uge a u = use_arg a 2 (use_arg a 1 (use_mem a 0 u))"
| "use_GJmp GJmp_fcmp_ult a u = use_arg a 2 (use_arg a 1 (use_mem a 0 u))"
| "use_GJmp GJmp_fcmp_ule a u = use_arg a 2 (use_arg a 1 (use_mem a 0 u))"
| "use_GJmp GJmp_fcmp_une a u = use_arg a 2 (use_arg a 1 (use_mem a 0 u))"
| "use_GJmp GJmp_cjmp_int_slt a u = use_arg a 1 (use_arg a 0 u)"
| "use_GJmp GJmp_cjmp_int_sge a u = use_arg a 1 (use_arg a 0 u)"
| "use_GJmp GJmp_cjmp_int_sle a u = use_arg a 1 (use_arg a 0 u)"
| "use_GJmp GJmp_cjmp_int_sgt a u = use_arg a 1 (use_arg a 0 u)"
| "use_GJmp GJmp_cjmp_int_ult a u = use_arg a 1 (use_arg a 0 u)"
| "use_GJmp GJmp_cjmp_int_ule a u = use_arg a 1 (use_arg a 0 u)"
| "use_GJmp GJmp_cjmp_int_ugt a u = use_arg a 1 (use_arg a 0 u)"
| "use_GJmp GJmp_cjmp_int_uge a u = use_arg a 1 (use_arg a 0 u)"
| "use_GJmp GJmp_cjmp_int_ne a u = use_arg a 1 (use_arg a 0 u)"
| "use_GJmp GJmp_cjmp_int_eq a u = use_arg a 1 (use_arg a 0 u)"
| "use_GJmp GJmp_cjmp_flt_oeq a u = use_arg a 1 (use_arg a 0 u)"
| "use_GJmp GJmp_cjmp_flt_ogt a u = use_arg a 1 (use_arg a 0 u)"
| "use_GJmp GJmp_cjmp_flt_oge a u = use_arg a 1 (use_arg a 0 u)"
| "use_GJmp GJmp_cjmp_flt_olt a u = use_arg a 1 (use_arg a 0 u)"
| "use_GJmp GJmp_cjmp_flt_ole a u = use_arg a 1 (use_arg a 0 u)"
| "use_GJmp GJmp_cjmp_flt_one a u = use_arg a 1 (use_arg a 0 u)"
| "use_GJmp GJmp_cjmp_flt_ord a u = use_arg a 1 (use_arg a 0 u)"
| "use_GJmp GJmp_cjmp_flt_uno a u = use_arg a 1 (use_arg a 0 u)"
| "use_GJmp GJmp_cjmp_flt_ueq a u = use_arg a 1 (use_arg a 0 u)"
| "use_GJmp GJmp_cjmp_flt_ugt a u = use_arg a 1 (use_arg a 0 u)"
| "use_GJmp GJmp_cjmp_flt_uge a u = use_arg a 1 (use_arg a 0 u)"
| "use_GJmp GJmp_cjmp_flt_ult a u = use_arg a 1 (use_arg a 0 u)"
| "use_GJmp GJmp_cjmp_flt_ule a u = use_arg a 1 (use_arg a 0 u)"
| "use_GJmp GJmp_cjmp_flt_une a u = use_arg a 1 (use_arg a 0 u)"
| "use_GJmp GJmp_cjmp_and a u = use_arg a 1 (use_arg a 0 u)"
| "use_GJmp GJmp_cjmp_or a u = use_arg a 1 (use_arg a 0 u)"
| "use_GJmp GJmp_cjmp a u = use_arg a 0 u"
| "use_GJmp GJmp_jmp a u = u"

primrec use_GCMov :: "GCMovSubtype \<Rightarrow> MArgument list \<Rightarrow> bitset \<Rightarrow> bitset" where
  "use_GCMov GCMov_INVALID a u = u"
| "use_GCMov GCMov_cmov a u = use_arg a 2 (use_arg a 1 (use_mem a 0 u))"
| "use_GCMov GCMov_cmov_ns a u = use_arg a 3 (use_arg a 2 (use_arg a 1 (use_mem a 0 u)))"
| "use_GCMov GCMov_cmov_sgt a u = use_arg a 3 (use_arg a 2 (use_arg a 1 (use_mem a 0 u)))"
| "use_GCMov GCMov_cmov_slt a u = use_arg a 3 (use_arg a 2 (use_arg a 1 (use_mem a 0 u)))"
| "use_GCMov GCMov_cmov_ult a u = use_arg a 3 (use_arg a 2 (use_arg a 1 (use_mem a 0 u)))"
| "use_GCMov GCMov_cmov_sge a u = use_arg a 3 (use_arg a 2 (use_arg a 1 (use_mem a 0 u)))"
| "use_GCMov GCMov_cmov_sle a u = use_arg a 3 (use_arg a 2 (use_arg a 1 (use_mem a 0 u)))"
| "use_GCMov GCMov_cmov_ne a u = use_arg a 3 (use_arg a 2 (use_arg a 1 (use_mem a 0 u)))"
| "use_GCMov GCMov_cmov_eq a u = use_arg a 3 (use_arg a 2 (use_arg a 1 (use_mem a 0 u)))"
| "use_GCMov GCMov_cmov_ugt a u = use_arg a 3 (use_arg a 2 (use_arg a 1 (use_mem a 0 u)))"
| "use_GCMov GCMov_cmov_uge a u = use_arg a 3 (use_arg a 2 (use_arg a 1 (use_mem a 0 u)))"
| "use_GCMov GCMov_cmov_ule a u = use_arg a 3 (use_arg a 2 (use_arg a 1 (use_mem a 0 u)))"

primrec use_GConv :: "GConvSubtype \<Rightarrow> MArgument list \<Rightarrow> bitset \<Rightarrow> bitset" where
  "use_GConv GConv_INVALID a u = u"
| "use_GConv GConv_SI2FL a u = use_arg a 1 (use_mem a 0 u)"
| "use_GConv GConv_UI2FL a u = use_arg a 1 (use_mem a 0 u)"
| "use_GConv GConv_FL2SI a u = use_arg a 1 (use_mem a 0 u)"
| "use_GConv GConv_FL2UI a u = use_arg a 1 (use_mem a 0 u)"
| "use_GConv GConv_itrunc a u = use_arg a 1 (use_mem a 0 u)"
| "use_GConv GConv_F64_ext a u = use_arg a 1 (use_mem a 0 u)"
| "use_GConv GConv_F32_trunc a u = use_arg a 1 (use_mem a 0 u)"
| "use_GConv GConv_mov_zx a u = use_arg a 1 (use_mem a 0 u)"
| "use_GConv GConv_mov_sx a u = use_arg a 1 (use_mem a 0 u)"

primrec use_GArith :: "GArithSubtype \<Rightarrow> MArgument list \<Rightarrow> bitset \<Rightarrow> bitset" where
  "use_GArith GArith_INVALID a u = u"
| "use_GArith GArith_abs a u = use_arg a 1 (use_mem a 0 u)"
| "use_GArith GArith_lxor2 a u = (if isReg (a ! 0) \<and> isReg (a ! 1) \<and> vreg_eq (ma_reg (a ! 0)) (ma_reg (a ! 1)) then u else use_arg a 1 (use_arg a 0 u))"
| "use_GArith GArith_shl2 a u = use_arg a 1 (use_arg a 0 u)"
| "use_GArith GArith_shr2 a u = use_arg a 1 (use_arg a 0 u)"
| "use_GArith GArith_sar2 a u = use_arg a 1 (use_arg a 0 u)"
| "use_GArith GArith_land2 a u = use_arg a 1 (use_arg a 0 u)"
| "use_GArith GArith_lor2 a u = use_arg a 1 (use_arg a 0 u)"
| "use_GArith GArith_add2 a u = use_arg a 1 (use_arg a 0 u)"
| "use_GArith GArith_sub2 a u = use_arg a 1 (use_arg a 0 u)"
| "use_GArith GArith_mul2 a u = use_arg a 1 (use_arg a 0 u)"
| "use_GArith GArith_not1 a u = use_arg a 0 u"
| "use_GArith GArith_neg1 a u = use_arg a 0 u"
| "use_GArith GArith_idiv a u = use_arg a 3 (use_arg a 2 u)"
| "use_GArith GArith_udiv a u = use_arg a 3 (use_arg a 2 u)"
| "use_GArith GArith_umulh a u = use_arg a 3 (use_arg a 2 u)"
| "use_GArith GArith_smulh a u = use_arg a 3 (use_arg a 2 u)"
| "use_GArith GArith_smul3 a u = use_arg a 2 (use_arg a 1 (use_mem a 0 u))"

primrec use_GVec :: "GVecSubtype \<Rightarrow> MArgument list \<Rightarrow> bitset \<Rightarrow> bitset" where
  "use_GVec GVec_INVALID a u = u"
| "use_GVec GVec_ffmadd a u = use_arg a 3 (use_arg a 2 (use_arg a 1 (use_mem a 0 u)))"
| "use_GVec GVec_vXor a u = (if isReg (a ! 1) \<and> isReg (a ! 2) \<and> vreg_eq (ma_reg (a ! 1)) (ma_reg (a ! 2)) then use_mem a 0 u else use_arg a 2 (use_arg a 1 (use_mem a 0 u)))"
| "use_GVec GVec_fMax a u = use_arg a 2 (use_arg a 1 (use_mem a 0 u))"
| "use_GVec GVec_fMin a u = use_arg a 2 (use_arg a 1 (use_mem a 0 u))"
| "use_GVec GVec_vSMin a u = use_arg a 2 (use_arg a 1 (use_mem a 0 u))"
| "use_GVec GVec_vSMax a u = use_arg a 2 (use_arg a 1 (use_mem a 0 u))"
| "use_GVec GVec_vUMin a u = use_arg a 2 (use_arg a 1 (use_mem a 0 u))"
| "use_GVec GVec_vUMax a u = use_arg a 2 (use_arg a 1 (use_mem a 0 u))"
| "use_GVec GVec_vadd a u = use_arg a 2 (use_arg a 1 (use_mem a 0 u))"
| "use_GVec GVec_vsub a u = use_arg a 2 (use_arg a 1 (use_mem a 0 u))"
| "use_GVec GVec_vmul a u = use_arg a 2 (use_arg a 1 (use_mem a 0 u))"
| "use_GVec GVec_vdiv a u = use_arg a 2 (use_arg a 1 (use_mem a 0 u))"
| "use_GVec GVec_vAnd a u = use_arg a 2 (use_arg a 1 (use_mem a 0 u))"
| "use_GVec GVec_vOr a u = use_arg a 2 (use_arg a 1 (use_mem a 0 u))"
| "use_GVec GVec_vShl a u = use_arg a 2 (use_arg a 1 (use_mem a 0 u))"
| "use_GVec GVec_vShr a u = use_arg a 2 (use_arg a 1 (use_mem a 0 u))"
| "use_GVec GVec_vSar a u = use_arg a 2 (use_arg a 1 (use_mem a 0 u))"

primrec use_GBase :: "GBaseSubtype \<Rightarrow> nat \<Rightarrow> MArgument list \<Rightarrow> bitset \<Rightarrow> bitset" where
  "use_GBase GBase_INVALID n a u = u"
| "use_GBase GBase_unreach n a u = u"
| "use_GBase GBase_stack_arg_load n a u = use_arg a 1 (use_mem a 0 u)"
| "use_GBase GBase_mov n a u = use_arg a 1 (use_mem a 0 u)"
| "use_GBase GBase_call n a u = use_arg a 0 (set_sp u)"
| "use_GBase GBase_invoke n a u = use_arg a 0 (set_sp u)"
| "use_GBase GBase_inline_asm n a u = u"
| "use_GBase GBase_asm_in n a u = use_arg a 0 u"
| "use_GBase GBase_ret_setup n a u = use_mem a 0 u"
| "use_GBase GBase_asm_out n a u = use_mem a 0 u"
| "use_GBase GBase_pop n a u = use_mem a 0 (set_sp u)"
| "use_GBase GBase_push n a u = use_arg a 0 (set_sp u)"
| "use_GBase GBase_ret n a u = fold (use_arg a) [0..<n] u"
| "use_GBase GBase_arg_setup n a u = use_arg a 0 ((if 1 < n then use_mem a 1 else (\<lambda>x. x)) u)"

primrec use_X86 :: "X86Subtype \<Rightarrow> MArgument list \<Rightarrow> bitset \<Rightarrow> bitset" where
  "use_X86 X86_INVALID a u = u"
| "use_X86 X86_vzeroupper a u = u"
| "use_X86 X86_mfence a u = u"
| "use_X86 X86_tls_base a u = u"
| "use_X86 X86_LockXAdd2 a u = use_arg a 1 (use_arg a 0 u)"
| "use_X86 X86_Xchg2 a u = use_arg a 1 (use_arg a 0 u)"
| "use_X86 X86_LockAdd2 a u = use_arg a 1 (use_arg a 0 u)"
| "use_X86 X86_LockSub2 a u = use_arg a 1 (use_arg a 0 u)"
| "use_X86 X86_LockAnd2 a u = use_arg a 1 (use_arg a 0 u)"
| "use_X86 X86_LockOr2 a u = use_arg a 1 (use_arg a 0 u)"
| "use_X86 X86_LockXor2 a u = use_arg a 1 (use_arg a 0 u)"
| "use_X86 X86_LockCmpXchg3 a u = use_arg a 2 (use_arg a 1 (use_arg a 0 u))"
| "use_X86 X86_lea a u = use_arg a 1 (use_mem a 0 u)"
| "use_X86 X86_popcnt a u = use_arg a 1 (use_mem a 0 u)"
| "use_X86 X86_bswap a u = use_arg a 1 (use_mem a 0 u)"
| "use_X86 X86_tzcnt a u = use_arg a 1 (use_mem a 0 u)"
| "use_X86 X86_lzcnt a u = use_arg a 1 (use_mem a 0 u)"
| "use_X86 X86_HAdd a u = use_arg a 1 (use_mem a 0 u)"
| "use_X86 X86_sqrt a u = use_arg a 1 (use_mem a 0 u)"
| "use_X86 X86_vpabs a u = use_arg a 1 (use_mem a 0 u)"
| "use_X86 X86_vmovmsk a u = use_arg a 1 (use_mem a 0 u)"
| "use_X86 X86_vmovshdup a u = use_arg a 1 (use_mem a 0 u)"
| "use_X86 X86_movhlps a u = use_arg a 2 (use_arg a 1 (use_mem a 0 u))"
| "use_X86 X86_movlhps a u = use_arg a 2 (use_arg a 1 (use_mem a 0 u))"
| "use_X86 X86_vpermil a u = use_arg a 2 (use_arg a 1 (use_mem a 0 u))"
| "use_X86 X86_punpckl a u = use_arg a 2 (use_arg a 1 (use_mem a 0 u))"
| "use_X86 X86_vextractf64x2 a u = use_arg a 2 (use_arg a 1 (use_mem a 0 u))"
| "use_X86 X86_vextractf64x4 a u = use_arg a 2 (use_arg a 1 (use_mem a 0 u))"
| "use_X86 X86_vextract128 a u = use_arg a 2 (use_arg a 1 (use_mem a 0 u))"
| "use_X86 X86_vinsert128 a u = use_arg a 2 (use_arg a 1 (use_mem a 0 u))"
| "use_X86 X86_vinsertps a u = use_arg a 2 (use_arg a 1 (use_mem a 0 u))"
| "use_X86 X86_vpshuf a u = use_arg a 2 (use_arg a 1 (use_mem a 0 u))"
| "use_X86 X86_vpshufb a u = use_arg a 2 (use_arg a 1 (use_mem a 0 u))"
| "use_X86 X86_vbroadcast a u = use_arg a 2 (use_arg a 1 (use_mem a 0 u))"
| "use_X86 X86_vpextr a u = use_arg a 2 (use_arg a 1 (use_mem a 0 u))"
| "use_X86 X86_vpinsr a u = use_arg a 2 (use_arg a 1 (use_mem a 0 u))"
| "use_X86 X86_vgatherq a u = use_arg a 2 (use_arg a 1 (use_mem a 0 u))"
| "use_X86 X86_vpcmpeq a u = use_arg a 2 (use_arg a 1 (use_mem a 0 u))"
| "use_X86 X86_vpack a u = use_arg a 2 (use_arg a 1 (use_mem a 0 u))"
| "use_X86 X86_vpacks a u = use_arg a 2 (use_arg a 1 (use_mem a 0 u))"
| "use_X86 X86_vpmulhw a u = use_arg a 2 (use_arg a 1 (use_mem a 0 u))"
| "use_X86 X86_vpmaddwd a u = use_arg a 2 (use_arg a 1 (use_mem a 0 u))"
| "use_X86 X86_vpmaddubsw a u = use_arg a 2 (use_arg a 1 (use_mem a 0 u))"
| "use_X86 X86_vpermd a u = use_arg a 2 (use_arg a 1 (use_mem a 0 u))"
| "use_X86 X86_vpcmpgt a u = use_arg a 2 (use_arg a 1 (use_mem a 0 u))"
| "use_X86 X86_vmaskload a u = use_arg a 2 (use_arg a 1 (use_mem a 0 u))"
| "use_X86 X86_vmaskstore a u = use_arg a 2 (use_arg a 1 (use_mem a 0 u))"
| "use_X86 X86_vround a u = use_arg a 2 (use_arg a 1 (use_mem a 0 u))"
| "use_X86 X86_psrl a u = use_arg a 2 (use_arg a 1 (use_mem a 0 u))"
| "use_X86 X86_psll a u = use_arg a 2 (use_arg a 1 (use_mem a 0 u))"
| "use_X86 X86_psra a u = use_arg a 2 (use_arg a 1 (use_mem a 0 u))"
| "use_X86 X86_pmuludq a u = use_arg a 2 (use_arg a 1 (use_mem a 0 u))"
| "use_X86 X86_padd a u = use_arg a 2 (use_arg a 1 (use_mem a 0 u))"
| "use_X86 X86_vgather a u = use_arg a 2 (use_arg a 1 (use_arg a 0 u))"
| "use_X86 X86_ffmadd132 a u = use_arg a 2 (use_arg a 1 (use_arg a 0 u))"
| "use_X86 X86_ffmadd213 a u = use_arg a 2 (use_arg a 1 (use_arg a 0 u))"
| "use_X86 X86_ffmadd231 a u = use_arg a 2 (use_arg a 1 (use_arg a 0 u))"
| "use_X86 X86_vblendv a u = use_arg a 3 (use_arg a 2 (use_arg a 1 (use_mem a 0 u)))"
| "use_X86 X86_vcmp a u = use_arg a 3 (use_arg a 2 (use_arg a 1 (use_mem a 0 u)))"
| "use_X86 X86_vshufps a u = use_arg a 3 (use_arg a 2 (use_arg a 1 (use_mem a 0 u)))"
| "use_X86 X86_vpclmul a u = use_arg a 3 (use_arg a 2 (use_arg a 1 (use_mem a 0 u)))"

definition update_uses :: "MInstr \<Rightarrow> bitset \<Rightarrow> bitset" where
  "update_uses x u = (case mi_op x of
     GJmp s \<Rightarrow> use_GJmp s (mi_args x) u
   | GCMov s \<Rightarrow> use_GCMov s (mi_args x) u
   | GConv s \<Rightarrow> use_GConv s (mi_args x) u
   | GArith s \<Rightarrow> use_GArith s (mi_args x) u
   | GVec s \<Rightarrow> use_GVec s (mi_args x) u
   | GBase s \<Rightarrow> use_GBase s (mi_n_args x) (mi_args x) u
   | X86 s \<Rightarrow> use_X86 s (mi_args x) u)"

section \<open>What the bit set operations add\<close>

definition arg_uids :: "MArgument \<Rightarrow> nat set" where "arg_uids a = reg_to_uid ` set (arg_regs a)"

abbreviation sp_uid :: nat where "sp_uid \<equiv> reg_to_uid (ConcR Ty_Int64 CReg_SP)"

definition bs_wf :: "bitset \<Rightarrow> bool" where "bs_wf u \<longleftrightarrow> bs_ok (bs_size u) u"

text \<open>Every register an operand of the instruction names has a bit, and so have the concrete ones.\<close>

definition args_fit :: "nat \<Rightarrow> MArgument list \<Rightarrow> bool" where
  "args_fit n a \<longleftrightarrow> numRegs \<le> n \<and> (\<forall>k < 4. reg_to_uid (ma_reg (a ! k)) < n \<and> reg_to_uid (ma_indx (a ! k)) < n)"

lemma bs_size_set [simp]: "bs_size (bs_set k v u) = bs_size u"
  by (simp add: bs_set_def)

lemma bs_wf_set [simp]: "bs_wf u \<Longrightarrow> bs_wf (bs_set k v u)"
  by (simp add: bs_wf_def bs_ok_set)

lemma bs_wf_alpha_set:
  "bs_wf u \<Longrightarrow> k < bs_size u \<Longrightarrow> bs_alpha (bs_set k True u) = insert k (bs_alpha u)"
  by (simp add: bs_wf_def bs_alpha_set)

lemma sp_fits: "args_fit n a \<Longrightarrow> sp_uid < n"
  by (simp add: args_fit_def reg_to_uid_def numRegs_def)

lemma update_uses_arg_size [simp]: "bs_size (update_uses_arg arg u) = bs_size u"
  by (simp add: update_uses_arg_def split: ArgumentType.split)

lemma update_uses_arg_wf [simp]: "bs_wf u \<Longrightarrow> bs_wf (update_uses_arg arg u)"
  by (simp add: update_uses_arg_def split: ArgumentType.split)

lemma update_uses_arg_alpha:
  assumes "bs_wf u" "reg_to_uid (ma_reg arg) < bs_size u" "reg_to_uid (ma_indx arg) < bs_size u"
  shows "bs_alpha (update_uses_arg arg u) = bs_alpha u \<union> arg_uids arg"
  using assms by (cases "ma_type arg")
    (auto simp: update_uses_arg_def bs_wf_alpha_set arg_uids_def arg_regs_def)

lemma use_arg_simps [simp]:
  "bs_size (use_arg a k u) = bs_size u" "bs_size (use_mem a k u) = bs_size u"
  "bs_size (set_sp u) = bs_size u" "bs_size (def_reg a k u) = bs_size u" "bs_size (def_arg a k u) = bs_size u"
  "bs_wf u \<Longrightarrow> bs_wf (use_arg a k u)" "bs_wf u \<Longrightarrow> bs_wf (use_mem a k u)" "bs_wf u \<Longrightarrow> bs_wf (set_sp u)"
  "bs_wf u \<Longrightarrow> bs_wf (def_reg a k u)" "bs_wf u \<Longrightarrow> bs_wf (def_arg a k u)"
  by (simp_all add: use_arg_def use_mem_def set_sp_def def_reg_def def_arg_def)

lemma use_arg_alpha [simp]:
  "bs_wf u \<Longrightarrow> args_fit (bs_size u) a \<Longrightarrow> k < 4 \<Longrightarrow> bs_alpha (use_arg a k u) = bs_alpha u \<union> arg_uids (a ! k)"
  by (simp add: use_arg_def update_uses_arg_alpha args_fit_def)

lemma use_mem_alpha [simp]:
  "bs_wf u \<Longrightarrow> args_fit (bs_size u) a \<Longrightarrow> k < 4 \<Longrightarrow>
    bs_alpha (use_mem a k u) = bs_alpha u \<union> (if isReg (a ! k) then {} else arg_uids (a ! k))"
  by (simp add: use_mem_def)

lemma def_reg_alpha [simp]:
  "bs_wf u \<Longrightarrow> args_fit (bs_size u) a \<Longrightarrow> k < 4 \<Longrightarrow>
    bs_alpha (def_reg a k u) = insert (reg_to_uid (ma_reg (a ! k))) (bs_alpha u)"
  by (simp add: def_reg_def bs_wf_alpha_set args_fit_def)

lemma def_arg_alpha [simp]:
  "bs_wf u \<Longrightarrow> args_fit (bs_size u) a \<Longrightarrow> k < 4 \<Longrightarrow>
    bs_alpha (def_arg a k u) = bs_alpha u \<union> (if isReg (a ! k) then {reg_to_uid (ma_reg (a ! k))} else {})"
  by (simp add: def_arg_def)

lemma set_sp_alpha [simp]:
  "bs_wf u \<Longrightarrow> args_fit (bs_size u) a \<Longrightarrow> bs_alpha (set_sp u) = insert sp_uid (bs_alpha u)"
  by (simp add: set_sp_def bs_wf_alpha_set sp_fits)

section \<open>The two pairs of tables\<close>

text \<open>The registers the operand tables of \<^verbatim>\<open>instr.cpp\<close> call written and read: an operand that is
  written but no register still reads its address registers.\<close>

definition written_uids :: "MInstr \<Rightarrow> nat set" where
  "written_uids x = reg_to_uid ` written_regs x"

definition read_uids :: "MInstr \<Rightarrow> nat set" where
  "read_uids x = reg_to_uid ` needed_regs x"

text \<open>
  The operand forms the emitters produce: results of divisions and of atomic exchanges are
  registers, the target of a locked operation is memory.
\<close>

definition operands_ok :: "MInstr \<Rightarrow> bool" where
  "operands_ok x \<longleftrightarrow> (let a = mi_args x in
     (mi_op x \<in> {GArith GArith_idiv, GArith GArith_udiv, GArith GArith_umulh, GArith GArith_smulh} \<longrightarrow>
        isReg (a ! 0) \<and> isReg (a ! 1)) \<and>
     (mi_op x \<in> {X86 X86_LockXAdd2, X86 X86_Xchg2} \<longrightarrow> isReg (a ! 1)) \<and>
     (mi_op x \<in> {X86 X86_LockAdd2, X86 X86_LockSub2, X86 X86_LockAnd2, X86 X86_LockOr2, X86 X86_LockXor2,
        X86 X86_LockCmpXchg3} \<longrightarrow> \<not> isReg (a ! 0)) \<and>
     (mi_op x = X86 X86_LockCmpXchg3 \<longrightarrow> isReg (a ! 2)) \<and>
     (mi_op x = X86 X86_tls_base \<longrightarrow> isReg (a ! 0)) \<and>
     (mi_op x = GBase GBase_arg_setup \<and> 1 < mi_n_args x \<longrightarrow> isReg (a ! 1)))"

text \<open>
  Where the two descriptions of the reads differ: the self cancelling idioms (\<^verbatim>\<open>read_args\<close> makes an
  exception for \<^verbatim>\<open>or r, r\<close>, \<^verbatim>\<open>update_uses\<close> for \<^verbatim>\<open>xor r, r\<close>), and the destinations that keep part of
  their old value.
\<close>

definition reads_differ :: "MInstr \<Rightarrow> bool" where
  "reads_differ x \<longleftrightarrow> (let a = mi_args x in
     (mi_op x = GArith GArith_lor2 \<and> marg_eq (a ! 0) (a ! 1)) \<or>
     (mi_op x = GArith GArith_lxor2 \<and> isReg (a ! 0) \<and> isReg (a ! 1) \<and> vreg_eq (ma_reg (a ! 0)) (ma_reg (a ! 1))) \<or>
     (mi_op x = GVec GVec_vXor \<and> marg_eq (a ! 1) (a ! 2)
        \<noteq> (isReg (a ! 1) \<and> isReg (a ! 2) \<and> vreg_eq (ma_reg (a ! 1)) (ma_reg (a ! 2)))) \<or>
     ((\<exists>s. mi_op x = GCMov s \<and> s \<noteq> GCMov_INVALID) \<and> isReg (a ! 0)) \<or>
     mi_op x = GVec GVec_ffmadd \<or> (mi_op x = X86 X86_vgatherq \<and> isReg (a ! 0)))"

lemma written_uids_eq:
  "written_uids x = (\<lambda>d. reg_to_uid (ma_reg (snd d))) ` set (filter (\<lambda>d. isReg (snd d)) (written_args x))"
  by (simp add: written_uids_def written_regs_def image_image)

lemma update_def_wf: "bs_wf d \<Longrightarrow> bs_wf (update_def x d)" "bs_size (update_def x d) = bs_size d"
proof -
  show "bs_wf d \<Longrightarrow> bs_wf (update_def x d)"
    by (cases "mi_op x"; simp add: update_def_def; rename_tac s, case_tac s; simp)
  show "bs_size (update_def x d) = bs_size d"
    by (cases "mi_op x"; simp add: update_def_def; rename_tac s, case_tac s; simp)
qed

lemma update_def_alpha:
  assumes "bs_wf d" "args_fit (bs_size d) (mi_args x)" "operands_ok x"
  shows "bs_alpha (update_def x d) = bs_alpha d \<union> written_uids x
    \<union> (if mi_op x \<in> {GBase GBase_push, GBase GBase_pop} then {sp_uid} else {})"
proof (cases "mi_op x")
  case (GBase s)
  then show ?thesis using assms by (cases s) (auto simp: update_def_def written_uids_eq written_args_def)
next
  case (GJmp s)
  then show ?thesis using assms by (cases s) (auto simp: update_def_def written_uids_eq written_args_def)
next
  case (GConv s)
  then show ?thesis using assms by (cases s) (auto simp: update_def_def written_uids_eq written_args_def)
next
  case (GArith s)
  then show ?thesis using assms
    by (cases s) (auto simp: update_def_def written_uids_eq written_args_def operands_ok_def)
next
  case (GCMov s)
  then show ?thesis using assms by (cases s) (auto simp: update_def_def written_uids_eq written_args_def)
next
  case (GVec s)
  then show ?thesis using assms by (cases s) (auto simp: update_def_def written_uids_eq written_args_def)
next
  case (X86 s)
  then show ?thesis using assms
    by (cases s) (auto simp: update_def_def written_uids_eq written_args_def operands_ok_def)
qed

lemma fold_use_arg:
  "bs_wf u \<Longrightarrow> args_fit (bs_size u) a \<Longrightarrow> n \<le> 4 \<Longrightarrow>
    bs_alpha (fold (use_arg a) [0..<n] u) = bs_alpha u \<union> (\<Union>k < n. arg_uids (a ! k))
    \<and> bs_wf (fold (use_arg a) [0..<n] u) \<and> bs_size (fold (use_arg a) [0..<n] u) = bs_size u"
  by (induction n) (auto simp: lessThan_Suc)

lemma fold_use_arg_wf:
  "bs_wf u \<Longrightarrow> bs_wf (fold (use_arg a) ks u)" "bs_size (fold (use_arg a) ks u) = bs_size u"
  by (induction ks arbitrary: u) simp_all

lemma update_uses_wf: "bs_wf u \<Longrightarrow> bs_wf (update_uses x u)" "bs_size (update_uses x u) = bs_size u"
proof -
  show "bs_wf u \<Longrightarrow> bs_wf (update_uses x u)"
    by (cases "mi_op x"; simp add: update_uses_def; rename_tac s, case_tac s; simp add: fold_use_arg_wf)
  show "bs_size (update_uses x u) = bs_size u"
    by (cases "mi_op x"; simp add: update_uses_def; rename_tac s, case_tac s; simp add: fold_use_arg_wf)
qed

definition stack_op :: "GOpcode \<Rightarrow> bool" where
  "stack_op op \<longleftrightarrow> op \<in> {GBase GBase_push, GBase GBase_pop, GBase GBase_call, GBase GBase_invoke}"

lemma read_uids_eq:
  "read_uids x = (\<Union>d \<in> set (read_args x). arg_uids (snd d))
     \<union> (\<Union>d \<in> set (filter (\<lambda>d. \<not> isReg (snd d)) (written_args x)). arg_uids (snd d))"
  by (simp add: read_uids_def needed_regs_def arg_uids_def image_Un image_UN)

lemma update_uses_alpha:
  assumes "bs_wf u" "args_fit (bs_size u) (mi_args x)" "operands_ok x" "mi_n_args x \<le> 4" "\<not> reads_differ x"
  shows "bs_alpha (update_uses x u) = bs_alpha u \<union> read_uids x \<union> (if stack_op (mi_op x) then {sp_uid} else {})"
proof (cases "mi_op x")
  case (GBase s)
  then show ?thesis using assms fold_use_arg[OF assms(1,2,4)]
    by (cases s) (auto simp: update_uses_def read_uids_eq read_args_def written_args_def stack_op_def operands_ok_def
        Let_def)
next
  case (GJmp s)
  then show ?thesis using assms
    by (cases s) (auto simp: update_uses_def read_uids_eq read_args_def written_args_def stack_op_def)
next
  case (GConv s)
  then show ?thesis using assms
    by (cases s) (auto simp: update_uses_def read_uids_eq read_args_def written_args_def stack_op_def)
next
  case (GArith s)
  then show ?thesis using assms
    by (cases s) (auto simp: update_uses_def read_uids_eq read_args_def written_args_def stack_op_def operands_ok_def
        reads_differ_def Let_def)
next
  case (GCMov s)
  then show ?thesis using assms
    by (cases s) (auto simp: update_uses_def read_uids_eq read_args_def written_args_def stack_op_def
        reads_differ_def Let_def)
next
  case (GVec s)
  let ?same = "isReg (mi_args x ! 1) \<and> isReg (mi_args x ! 2) \<and> vreg_eq (ma_reg (mi_args x ! 1)) (ma_reg (mi_args x ! 2))"
  have e: "marg_eq (mi_args x ! 1) (mi_args x ! 2) = ?same" if "s = GVec_vXor"
    using assms(5) GVec that by (auto simp: reads_differ_def Let_def)
  have "s \<noteq> GVec_ffmadd" using assms(5) GVec by (auto simp: reads_differ_def Let_def)
  then show ?thesis using assms(1,2) GVec e
    by (cases s; cases ?same) (auto simp: update_uses_def read_uids_eq read_args_def written_args_def stack_op_def)
next
  case (X86 s)
  then show ?thesis using assms
    by (cases s) (auto simp: update_uses_def read_uids_eq read_args_def written_args_def stack_op_def operands_ok_def
        reads_differ_def Let_def)
qed

section \<open>The divergences\<close>

text \<open>\<^verbatim>\<open>or r, r\<close> needs the value of \<^verbatim>\<open>r\<close>, but \<^verbatim>\<open>read_args\<close> lists no read; \<^verbatim>\<open>xor r, r\<close>, for which that
  would be right, lists two.\<close>

lemma or_self_reads:
  "read_args (mk_instr (GArith GArith_lor2) [r, r]) = []
    \<and> read_args (mk_instr (GArith GArith_lxor2) [r, r]) = [(0, r), (1, r)]"
  by (simp add: read_args_def mk_instr_def)

text \<open>A conditional move keeps its destination when the condition fails and \<^verbatim>\<open>read_args\<close> lists the
  destination as read; \<^verbatim>\<open>update_uses\<close> does not mark it.\<close>

lemma cmov_destination:
  assumes "isReg dst" "isReg c" "isReg v" "bs_wf u" "args_fit (bs_size u) [dst, c, v, marg0]"
  shows "(0, dst) \<in> set (read_args (mk_instr (GCMov GCMov_cmov) [dst, c, v]))
    \<and> bs_alpha (update_uses (mk_instr (GCMov GCMov_cmov) [dst, c, v]) u)
        = bs_alpha u \<union> {reg_to_uid (ma_reg c), reg_to_uid (ma_reg v)}"
  using assms use_arg_alpha[of u "[dst, c, v, marg0]" 1] use_arg_alpha[of "use_arg [dst, c, v, marg0] 1 u" "[dst, c, v, marg0]" 2]
  by (auto simp: read_args_def update_uses_def mk_instr_def use_mem_def arg_uids_def isReg_regs)

section \<open>Properties\<close>

text \<open>C38: the registers \<^verbatim>\<open>update_def\<close> marks are the register operands \<^verbatim>\<open>written_args\<close> lists, and the
  stack pointer for a push or a pop, on every opcode (for the operand forms \<open>operands_ok\<close>); marks
  made before stay.\<close>

theorem defs_match_written_args:
  assumes "bs_wf d" "args_fit (bs_size d) (mi_args x)" "operands_ok x"
  shows "bs_alpha (update_def x d) = bs_alpha d \<union> reg_to_uid ` written_regs x
    \<union> (if mi_op x \<in> {GBase GBase_push, GBase GBase_pop} then {sp_uid} else {})"
  using update_def_alpha[OF assms] by (simp only: written_uids_def)

definition sample_instr :: MInstr where
  "sample_instr = mk_instr (GArith GArith_add2) [MReg (VirtR Ty_Int64 1) Ty_Int64, MReg (VirtR Ty_Int64 2) Ty_Int64]"

lemma sample_instr_fits:
  "args_fit 40 (mi_args sample_instr)" "operands_ok sample_instr" "mi_n_args sample_instr \<le> 4"
  "\<not> reads_differ sample_instr" "bs_wf (bs_new 40 False)" "bs_size (bs_new 40 False) = 40"
  by (auto simp: args_fit_def sample_instr_def mk_instr_def MReg_def marg0_def vreg0_def retype_def reg_to_uid_def
      numRegs_def operands_ok_def reads_differ_def bs_wf_def bs_new_def bs_reset_def bs_ok_def less_Suc_eq nth_Cons'
      numeral_eq_Suc)

lemma sample_instr_regs:
  "mi_op sample_instr = GArith GArith_add2" "written_regs sample_instr = {VirtR Ty_Int64 1}"
  "needed_regs sample_instr = {VirtR Ty_Int64 1, VirtR Ty_Int64 2}"
  by (auto simp: sample_instr_def needed_regs_def written_regs_def written_args_def read_args_def mk_instr_def
      MReg_def marg0_def isReg_def arg_regs_def retype_def)

theorem defs_match_written_args_witness: "bs_alpha (update_def sample_instr (bs_new 40 False)) = {34}"
  using defs_match_written_args[of "bs_new 40 False" sample_instr] sample_instr_fits
  by (simp add: bs_alpha_new sample_instr_regs reg_to_uid_def numRegs_def)

text \<open>C39: the registers \<^verbatim>\<open>update_uses\<close> marks are the registers of the operands \<^verbatim>\<open>read_args\<close> lists, the
  address registers of a written memory operand, and the stack pointer for a push, a pop or a call,
  on every opcode outside the listed divergences (\<open>reads_differ\<close>).\<close>

theorem uses_match_read_args:
  assumes "bs_wf u" "args_fit (bs_size u) (mi_args x)" "operands_ok x" "mi_n_args x \<le> 4" "\<not> reads_differ x"
  shows "bs_alpha (update_uses x u) = bs_alpha u \<union> reg_to_uid ` needed_regs x
    \<union> (if mi_op x \<in> {GBase GBase_push, GBase GBase_pop, GBase GBase_call, GBase GBase_invoke} then {sp_uid} else {})"
  using update_uses_alpha[OF assms] by (simp only: read_uids_def stack_op_def)

theorem uses_match_read_args_witness: "bs_alpha (update_uses sample_instr (bs_new 40 False)) = {34, 35}"
  using uses_match_read_args[of "bs_new 40 False" sample_instr] sample_instr_fits
  by (simp add: bs_alpha_new sample_instr_regs reg_to_uid_def numRegs_def)

end
