(* ===== verification/Dataflow.thy ===== *)
theory Dataflow
  imports Main "HOL-Library.While_Combinator"
begin

text \<open>
  The specification side of the worklist analyses: a backward may analysis over the blocks of a
  control flow graph. \<open>live_path\<close> says what the analysis should find, by paths; \<open>flow_step\<close> is the
  worklist step on sets of numbers. The locale proves that iterating the step ends and computes
  exactly the path property, for any graph whose predecessor lists cover its successor lists.
\<close>

text \<open>A number is live at a block when some path leads to a block that generates it and no block before
  that one kills it.\<close>

inductive live_path :: "(nat \<Rightarrow> nat list) \<Rightarrow> (nat \<Rightarrow> nat set) \<Rightarrow> (nat \<Rightarrow> nat set) \<Rightarrow> nat \<Rightarrow> nat \<Rightarrow> bool"
  for succs gen kill where
  live_here: "r \<in> gen b \<Longrightarrow> live_path succs gen kill b r"
| live_later: "c \<in> set (succs b) \<Longrightarrow> live_path succs gen kill c r \<Longrightarrow> r \<notin> kill b \<Longrightarrow> live_path succs gen kill b r"

inductive_simps live_path_iff: "live_path succs gen kill b r"

type_synonym flow_state = "(nat \<Rightarrow> nat set) \<times> (nat \<Rightarrow> nat set) \<times> nat list"

definition flow_out :: "(nat \<Rightarrow> nat list) \<Rightarrow> (nat \<Rightarrow> nat set) \<Rightarrow> nat \<Rightarrow> nat set" where
  "flow_out succs I b = (\<Union>s \<in> set (succs b). I s)"

fun flow_step :: "(nat \<Rightarrow> nat list) \<Rightarrow> (nat \<Rightarrow> nat list) \<Rightarrow> (nat \<Rightarrow> nat set) \<Rightarrow> (nat \<Rightarrow> nat set)
    \<Rightarrow> flow_state \<Rightarrow> flow_state" where
  "flow_step succs preds gen kill (I, U, []) = (I, U, [])"
| "flow_step succs preds gen kill (I, U, c # ws) =
     (let out = flow_out succs I c; inn = (out - kill c) \<union> gen c
      in (I(c := inn), U(c := out), if inn \<noteq> I c then ws @ preds c else ws))"

definition flow_pending :: "flow_state \<Rightarrow> bool" where "flow_pending s = (snd (snd s) \<noteq> [])"

definition flow_init :: "nat \<Rightarrow> flow_state" where
  "flow_init n = (\<lambda>_. {}, \<lambda>_. {}, rev [0..<n])"

locale backward_flow =
  fixes n bound :: nat
    and succs preds :: "nat \<Rightarrow> nat list"
    and gen kill :: "nat \<Rightarrow> nat set"
  assumes succs_in: "b < n \<Longrightarrow> set (succs b) \<subseteq> {..<n}"
    and preds_in: "b < n \<Longrightarrow> set (preds b) \<subseteq> {..<n}"
    and preds_cover: "b < n \<Longrightarrow> c \<in> set (succs b) \<Longrightarrow> b \<in> set (preds c)"
    and gen_in: "b < n \<Longrightarrow> gen b \<subseteq> {..<bound}"
begin

definition transfer_set :: "(nat \<Rightarrow> nat set) \<Rightarrow> nat \<Rightarrow> nat set" where
  "transfer_set I b = (flow_out succs I b - kill b) \<union> gen b"

lemma transfer_mono: "(\<And>b. I b \<subseteq> J b) \<Longrightarrow> transfer_set I b \<subseteq> transfer_set J b"
  by (fastforce simp: transfer_set_def flow_out_def)

definition flow_inv :: "flow_state \<Rightarrow> bool" where
  "flow_inv s = (case s of (I, U, ws) \<Rightarrow>
     set ws \<subseteq> {..<n}
     \<and> (\<forall>b. I b \<subseteq> {r. live_path succs gen kill b r})
     \<and> (\<forall>b < n. b \<notin> set ws \<longrightarrow> I b = transfer_set I b \<and> U b = flow_out succs I b)
     \<and> (\<forall>b < n. I b \<subseteq> transfer_set I b)
     \<and> (\<forall>b < n. I b \<subseteq> {..<bound}))"

lemma flow_inv_init: "flow_inv (flow_init n)"
  by (auto simp: flow_inv_def flow_init_def)

lemma transfer_live:
  "(\<And>b. I b \<subseteq> {r. live_path succs gen kill b r}) \<Longrightarrow> transfer_set I b \<subseteq> {r. live_path succs gen kill b r}"
  by (auto simp: transfer_set_def flow_out_def intro: live_path.intros)

lemma transfer_bound: "b < n \<Longrightarrow> (\<forall>c < n. I c \<subseteq> {..<bound}) \<Longrightarrow> transfer_set I b \<subseteq> {..<bound}"
  using succs_in[of b] gen_in[of b] unfolding transfer_set_def flow_out_def by fastforce

lemma transfer_upd_eq: "c \<notin> set (succs b) \<Longrightarrow> transfer_set (I(c := S)) b = transfer_set I b"
  "c \<notin> set (succs b) \<Longrightarrow> flow_out succs (I(c := S)) b = flow_out succs I b"
  by (auto simp: transfer_set_def flow_out_def)

lemma flow_inv_step:
  assumes "flow_inv (I, U, c # ws)"
  shows "flow_inv (flow_step succs preds gen kill (I, U, c # ws))"
proof -
  let ?inn = "transfer_set I c" and ?out = "flow_out succs I c"
  let ?I = "I(c := ?inn)" and ?U = "U(c := ?out)" and ?ws = "if ?inn \<noteq> I c then ws @ preds c else ws"
  have step: "flow_step succs preds gen kill (I, U, c # ws) = (?I, ?U, ?ws)"
    by (simp add: Let_def transfer_set_def)
  from assms have ws: "c < n" "set ws \<subseteq> {..<n}" and live: "\<And>b. I b \<subseteq> {r. live_path succs gen kill b r}"
    and eqs: "\<And>b. b < n \<Longrightarrow> b \<notin> set (c # ws) \<Longrightarrow> I b = transfer_set I b \<and> U b = flow_out succs I b"
    and grow: "\<And>b. b < n \<Longrightarrow> I b \<subseteq> transfer_set I b" and bnd: "\<forall>b < n. I b \<subseteq> {..<bound}"
    by (auto simp: flow_inv_def)
  have up: "I b \<subseteq> ?I b" for b using grow[OF ws(1)] by auto
  have "set ?ws \<subseteq> {..<n}" using ws preds_in[OF ws(1)] by auto
  moreover have "?I b \<subseteq> {r. live_path succs gen kill b r}" for b using live transfer_live[OF live] by auto
  moreover have "?I b = transfer_set ?I b \<and> ?U b = flow_out succs ?I b" if b: "b < n" "b \<notin> set ?ws" for b
  proof (cases "?inn = I c")
    case True
    then have "?I = I" by auto
    then show ?thesis using eqs[of b] b True by auto
  next
    case False
    then have "c \<notin> set (succs b)" using b preds_cover[OF b(1)] by auto
    then show ?thesis using eqs[of b] b False by (auto simp: transfer_upd_eq)
  qed
  moreover have "?I b \<subseteq> transfer_set ?I b" if "b < n" for b
    using grow[OF that] transfer_mono[of I ?I b, OF up] by auto
  moreover have "?I b \<subseteq> {..<bound}" if "b < n" for b
    using bnd that transfer_bound[OF ws(1) bnd] by auto
  ultimately show ?thesis unfolding step by (simp add: flow_inv_def)
qed

definition room :: "flow_state \<Rightarrow> nat" where
  "room s = (\<Sum>b < n. bound - card (fst s b))"

lemma room_step:
  assumes "flow_inv (I, U, c # ws)"
  shows "(flow_step succs preds gen kill (I, U, c # ws), (I, U, c # ws)) \<in> measures [room, \<lambda>s. length (snd (snd s))]"
proof -
  let ?inn = "transfer_set I c"
  from assms have c: "c < n" and grow: "I c \<subseteq> ?inn" and bnd: "\<forall>b < n. I b \<subseteq> {..<bound}"
    by (auto simp: flow_inv_def)
  have inb: "?inn \<subseteq> {..<bound}" by (rule transfer_bound[OF c bnd])
  show ?thesis
  proof (cases "?inn = I c")
    case True
    then have "I(c := ?inn) = I" by auto
    then show ?thesis using True by (simp add: Let_def transfer_set_def room_def)
  next
    case False
    with grow have "card (I c) < card ?inn" using inb by (intro psubset_card_mono) (auto intro: finite_subset)
    moreover have "card ?inn \<le> bound" using card_mono[OF _ inb] by simp
    ultimately have "bound - card ?inn < bound - card (I c)" by simp
    then have "room (I(c := ?inn), U', ws') < room (I, U, c # ws)" for U' ws'
      unfolding room_def using c by (intro sum_strict_mono_ex1) auto
    then show ?thesis by (simp add: Let_def transfer_set_def)
  qed
qed

lemma flow_terminates:
  "\<exists>I U. while_option flow_pending (flow_step succs preds gen kill) (flow_init n) = Some (I, U, []) \<and> flow_inv (I, U, [])"
proof -
  have cons: "\<exists>I U c ws. s = (I, U, c # ws)" if "flow_pending s" for s
    using that by (cases s) (auto simp: flow_pending_def neq_Nil_conv)
  have "\<exists>t. while_option flow_pending (flow_step succs preds gen kill) (flow_init n) = Some t"
  proof (rule wf_rel_while_option_Some[where P = flow_inv])
    show "wf (measures [room, \<lambda>s. length (snd (snd s))])" by simp
    show "(flow_step succs preds gen kill s, s) \<in> measures [room, \<lambda>s. length (snd (snd s))]"
      if "flow_inv s \<and> flow_pending s" for s using that cons[of s] room_step by blast
    show "flow_inv (flow_step succs preds gen kill s)" if "flow_inv s \<and> flow_pending s" for s
      using that cons[of s] flow_inv_step by blast
  qed (rule flow_inv_init)
  then obtain t where t: "while_option flow_pending (flow_step succs preds gen kill) (flow_init n) = Some t" ..
  have "flow_inv t"
    by (rule while_option_rule[where P = flow_inv, OF _ t flow_inv_init]) (use cons flow_inv_step in blast)
  moreover have "snd (snd t) = []" using while_option_stop[OF t] by (simp add: flow_pending_def)
  ultimately show ?thesis using t by (cases t) auto
qed

lemma flow_solution:
  assumes "flow_inv (I, U, [])" "b < n"
  shows "I b = {r. live_path succs gen kill b r}" "U b = flow_out succs I b"
proof -
  have eqs: "I b = transfer_set I b \<and> U b = flow_out succs I b" if "b < n" for b
    using assms(1) that by (auto simp: flow_inv_def)
  show "U b = flow_out succs I b" using eqs[OF assms(2)] by simp
  have "live_path succs gen kill b r \<Longrightarrow> b < n \<longrightarrow> r \<in> I b" for b r
  proof (induction rule: live_path.induct)
    case (live_here r b)
    then show ?case using eqs[of b] by (auto simp: transfer_set_def)
  next
    case (live_later c b r)
    show ?case
    proof
      assume b: "b < n"
      then have "r \<in> flow_out succs I b" using live_later succs_in[of b] by (auto simp: flow_out_def)
      then show "r \<in> I b" using eqs[OF b] live_later by (auto simp: transfer_set_def)
    qed
  qed
  then have "{r. live_path succs gen kill b r} \<subseteq> I b" using assms(2) by blast
  moreover have "I b \<subseteq> {r. live_path succs gen kill b r}" using assms(1) unfolding flow_inv_def by simp
  ultimately show "I b = {r. live_path succs gen kill b r}" by (rule equalityI[rotated])
qed

end

end
