(* ===== verification/MIRLive.thy ===== *)
theory MIRLive
  imports MIRDefUse Dataflow
begin

text \<open>
  Live registers of the machine IR: the control flow graph (\<^verbatim>\<open>src/src/mir/analysis/cfg.hpp\<close>) and
  \<^verbatim>\<open>LiveVariables::update\<close> (\<^verbatim>\<open>src/src/mir/analysis/live_variables.cpp\<close>) with its worklist, on the bit
  sets of \<open>BitSet\<close>. The main result says which registers the analysis calls live: exactly those with
  a path to an instruction that uses them and no definition before it.
\<close>

section \<open>The control flow graph\<close>

record cfg_node =
  cfg_pred :: "nat list"
  cfg_succ :: "nat list"

record CFG =
  cfg_bbrs :: "cfg_node list"
  cfg_is_reversed :: bool

definition cfg_add_edge :: "nat \<Rightarrow> nat \<Rightarrow> cfg_node list \<Rightarrow> cfg_node list" where
  "cfg_add_edge src dst ns =
     (let ns1 = ns[src := (ns ! src)\<lparr>cfg_succ := cfg_succ (ns ! src) @ [dst]\<rparr>]
      in ns1[dst := (ns1 ! dst)\<lparr>cfg_pred := cfg_pred (ns1 ! dst) @ [src]\<rparr>])"

definition cfg_add_instr :: "nat \<Rightarrow> MInstr \<Rightarrow> cfg_node list \<Rightarrow> cfg_node list" where
  "cfg_add_instr src x ns = (if mi_has_bb_ref x then cfg_add_edge src (mi_bb_ref x) ns else ns)"

definition cfg_edges :: "MFunc \<Rightarrow> cfg_node list" where
  "cfg_edges f =
     (let bbs = mf_bbs f
      in fold (\<lambda>src. fold (cfg_add_instr src) (bb_instrs (bbs ! src))) [0..<length bbs]
           (replicate (length bbs) \<lparr>cfg_pred = [], cfg_succ = []\<rparr>))"

definition cfg_swap :: "cfg_node \<Rightarrow> cfg_node" where
  "cfg_swap nd = \<lparr>cfg_pred = cfg_succ nd, cfg_succ = cfg_pred nd\<rparr>"

definition cfg_update :: "MFunc \<Rightarrow> bool \<Rightarrow> CFG" where
  "cfg_update f reverse =
     \<lparr>cfg_bbrs = (if reverse then map cfg_swap (cfg_edges f) else cfg_edges f), cfg_is_reversed = reverse\<rparr>"

section \<open>The analysis\<close>

definition max_if_virtual :: "VReg \<Rightarrow> nat \<Rightarrow> nat" where
  "max_if_virtual r m = (if \<not> is_concrete r then max m (virt_id r) else m)"

definition max_arg_id :: "MArgument \<Rightarrow> nat \<Rightarrow> nat" where
  "max_arg_id a m = (case ma_type a of
     AT_VReg \<Rightarrow> max_if_virtual (ma_reg a) m
   | AT_MemVReg \<Rightarrow> max_if_virtual (ma_reg a) m
   | AT_MemImmVReg \<Rightarrow> max_if_virtual (ma_reg a) m
   | AT_MemVRegVReg \<Rightarrow> max_if_virtual (ma_indx a) (max_if_virtual (ma_reg a) m)
   | AT_MemImmVRegVReg \<Rightarrow> max_if_virtual (ma_indx a) (max_if_virtual (ma_reg a) m)
   | AT_MemVRegVRegScale \<Rightarrow> max_if_virtual (ma_indx a) (max_if_virtual (ma_reg a) m)
   | AT_MemImmVRegScale \<Rightarrow> max_if_virtual (ma_indx a) (max_if_virtual (ma_reg a) m)
   | AT_MemImmVRegVRegScale \<Rightarrow> max_if_virtual (ma_indx a) (max_if_virtual (ma_reg a) m)
   | _ \<Rightarrow> m)"

definition max_vreg_id :: "MFunc \<Rightarrow> nat" where
  "max_vreg_id f =
     fold (\<lambda>bb. fold (\<lambda>x. fold (\<lambda>i. max_arg_id (mi_args x ! i)) [0..<mi_n_args x]) (bb_instrs bb)) (mf_bbs f) 0"

definition n_unique_regs :: "MFunc \<Rightarrow> nat" where
  "n_unique_regs f = numRegs + max_vreg_id f + 1"

text \<open>One instruction of the first pass: the upward exposed uses and the definitions of its block, and
  the bit set \<^verbatim>\<open>helper\<close> that the passes share.\<close>

type_synonym scan_state = "bitset \<times> bitset \<times> bitset"

definition scan_instr :: "MInstr \<Rightarrow> scan_state \<Rightarrow> scan_state" where
  "scan_instr x s = (case s of (upw, def, helper) \<Rightarrow>
     (let helper = bs_reset False helper;
          helper = update_uses x helper;
          helper = bs_mul_not helper def;
          upw = bs_add upw helper
      in (upw, update_def x def, helper)))"

record live_tables =
  lt_upwExp :: "bitset list"
  lt_defs :: "bitset list"
  lt_helper :: bitset
  lt_worklist :: "nat list"

definition scan_bb :: "MFunc \<Rightarrow> nat \<Rightarrow> live_tables \<Rightarrow> live_tables" where
  "scan_bb f b t =
     (case fold scan_instr (bb_instrs (mf_bbs f ! b)) (lt_upwExp t ! b, lt_defs t ! b, lt_helper t) of
        (upw, def, helper) \<Rightarrow>
          \<lparr>lt_upwExp = (lt_upwExp t)[b := upw], lt_defs = (lt_defs t)[b := def], lt_helper = helper,
            lt_worklist = b # lt_worklist t\<rparr>)"

definition scan_func :: "MFunc \<Rightarrow> live_tables" where
  "scan_func f =
     (let n = n_unique_regs f; k = length (mf_bbs f)
      in fold (scan_bb f) [0..<k]
           \<lparr>lt_upwExp = replicate k (bs_new n False), lt_defs = replicate k (bs_new n False),
             lt_helper = bs_new n False, lt_worklist = []\<rparr>)"

text \<open>The state of the worklist loop, with its two temporaries.\<close>

record live_state =
  ls_liveIn :: "bitset list"
  ls_liveOut :: "bitset list"
  ls_new_out :: bitset
  ls_new_in :: bitset
  ls_worklist :: "nat list"

definition live_step :: "CFG \<Rightarrow> live_tables \<Rightarrow> live_state \<Rightarrow> live_state" where
  "live_step cfg t s = (case ls_worklist s of
     [] \<Rightarrow> s
   | cur # ws \<Rightarrow>
       (let node = cfg_bbrs cfg ! cur;
            out = bs_reset False (ls_new_out s);
            out = fold (\<lambda>succ acc. bs_add acc (ls_liveIn s ! succ)) (cfg_succ node) out;
            inn = bs_add (bs_mul_not (bs_assign (ls_new_in s) out) (lt_defs t ! cur)) (lt_upwExp t ! cur);
            liveOut = (if \<not> bs_eq out (ls_liveOut s ! cur)
                       then (ls_liveOut s)[cur := bs_assign (ls_liveOut s ! cur) out] else ls_liveOut s);
            changed = \<not> bs_eq inn (ls_liveIn s ! cur);
            liveIn = (if changed then (ls_liveIn s)[cur := bs_assign (ls_liveIn s ! cur) inn] else ls_liveIn s)
        in \<lparr>ls_liveIn = liveIn, ls_liveOut = liveOut, ls_new_out = out, ls_new_in = inn,
             ls_worklist = (if changed then ws @ cfg_pred node else ws)\<rparr>))"

definition live_pending :: "live_state \<Rightarrow> bool" where "live_pending s = (ls_worklist s \<noteq> [])"

definition live_init :: "MFunc \<Rightarrow> live_tables \<Rightarrow> live_state" where
  "live_init f t =
     (let n = n_unique_regs f; k = length (mf_bbs f)
      in \<lparr>ls_liveIn = replicate k (bs_new n False), ls_liveOut = replicate k (bs_new n False),
           ls_new_out = bs_new n False, ls_new_in = bs_new n False, ls_worklist = lt_worklist t\<rparr>)"

record LiveVariables =
  lv_live :: "bitset list"
  lv_liveIn :: "bitset list"
  lv_liveOut :: "bitset list"

text \<open>\<^verbatim>\<open>update\<close>: the first pass, the loop, and the summary of each block. The loop has no bound in the
  code; \<open>None\<close> would mean that it does not end.\<close>

definition live_update :: "CFG \<Rightarrow> MFunc \<Rightarrow> LiveVariables option" where
  "live_update cfg f =
     (let t = scan_func f; n = n_unique_regs f
      in case while_option live_pending (live_step cfg t) (live_init f t) of
           None \<Rightarrow> None
         | Some s \<Rightarrow> Some \<lparr>
             lv_live = map (\<lambda>i. bs_add (bs_add (bs_assign (bs_new n False) (ls_liveIn s ! i)) (ls_liveOut s ! i)) (lt_defs t ! i))
               [0..<length (cfg_bbrs cfg)],
             lv_liveIn = ls_liveIn s, lv_liveOut = ls_liveOut s\<rparr>)"

definition isAlive :: "LiveVariables \<Rightarrow> VReg \<Rightarrow> nat \<Rightarrow> bool option" where
  "isAlive lv r b =
     (if reg_to_uid r \<ge> bs_size (lv_live lv ! b) then None else Some (bs_get (lv_live lv ! b) (reg_to_uid r)))"

section \<open>Edges\<close>

definition targets :: "MInstr list \<Rightarrow> nat list" where
  "targets xs = map mi_bb_ref (filter mi_has_bb_ref xs)"

lemma cfg_add_edge_len [simp]: "length (cfg_add_edge src dst ns) = length ns"
  by (simp add: cfg_add_edge_def Let_def)

lemma cfg_add_edge_nth:
  assumes "src < length ns" "i < length ns"
  shows "cfg_succ (cfg_add_edge src dst ns ! i) = cfg_succ (ns ! i) @ (if i = src then [dst] else [])"
    "cfg_pred (cfg_add_edge src dst ns ! i) = cfg_pred (ns ! i) @ (if i = dst then [src] else [])"
  using assms by (cases "dst < length ns"; auto simp: cfg_add_edge_def Let_def nth_list_update list_update_beyond)+

lemma cfg_add_instr_len [simp]: "length (cfg_add_instr src x ns) = length ns"
  by (simp add: cfg_add_instr_def)

lemma fold_cfg_add_len [simp]: "length (fold (cfg_add_instr src) xs ns) = length ns"
  by (induction xs arbitrary: ns) simp_all

lemma fold_cfg_add_nth:
  assumes "src < length ns" "i < length ns"
  shows "cfg_succ (fold (cfg_add_instr src) xs ns ! i) = cfg_succ (ns ! i) @ (if i = src then targets xs else [])
    \<and> set (cfg_pred (fold (cfg_add_instr src) xs ns ! i)) = set (cfg_pred (ns ! i)) \<union> (if i \<in> set (targets xs) then {src} else {})"
  using assms
proof (induction xs arbitrary: ns)
  case (Cons x xs)
  then show ?case
    by (cases "mi_has_bb_ref x") (auto simp: cfg_add_instr_def targets_def cfg_add_edge_nth)
qed (simp add: targets_def)

lemma fold_bbs_nth:
  assumes "i < length ns" "m \<le> length ns"
  shows "length (fold (\<lambda>src. fold (cfg_add_instr src) (g src)) [0..<m] ns) = length ns
    \<and> cfg_succ (fold (\<lambda>src. fold (cfg_add_instr src) (g src)) [0..<m] ns ! i)
        = cfg_succ (ns ! i) @ (if i < m then targets (g i) else [])
    \<and> set (cfg_pred (fold (\<lambda>src. fold (cfg_add_instr src) (g src)) [0..<m] ns ! i))
        = set (cfg_pred (ns ! i)) \<union> {b. b < m \<and> i \<in> set (targets (g b))}"
  using assms(2)
proof (induction m)
  case (Suc m)
  then have IH: "length (fold (\<lambda>src. fold (cfg_add_instr src) (g src)) [0..<m] ns) = length ns" by simp
  show ?case
    using Suc fold_cfg_add_nth[of m "fold (\<lambda>src. fold (cfg_add_instr src) (g src)) [0..<m] ns" i "g m"] assms(1) IH
    by (auto simp: less_Suc_eq split: if_splits)
qed simp

definition bb_code :: "MFunc \<Rightarrow> nat \<Rightarrow> MInstr list" where
  "bb_code f b = bb_instrs (mf_bbs f ! b)"

lemma cfg_edges_nth:
  assumes "b < length (mf_bbs f)"
  shows "length (cfg_edges f) = length (mf_bbs f)" "cfg_succ (cfg_edges f ! b) = targets (bb_code f b)"
    "set (cfg_pred (cfg_edges f ! b)) = {a. a < length (mf_bbs f) \<and> b \<in> set (targets (bb_code f a))}"
  using fold_bbs_nth[of b "replicate (length (mf_bbs f)) \<lparr>cfg_pred = [], cfg_succ = []\<rparr>" "length (mf_bbs f)" "bb_code f"] assms
  by (simp_all add: cfg_edges_def Let_def bb_code_def)

section \<open>One block\<close>

definition use_set :: "nat \<Rightarrow> MInstr \<Rightarrow> nat set" where
  "use_set n x = bs_alpha (update_uses x (bs_new n False))"

definition def_set :: "nat \<Rightarrow> MInstr \<Rightarrow> nat set" where
  "def_set n x = bs_alpha (update_def x (bs_new n False))"

lemma bs_size_new [simp]: "bs_size (bs_new n v) = n"
  by (simp add: bs_new_def bs_reset_def)

lemma bs_wf_new [simp]: "bs_wf (bs_new n v)"
  by (simp add: bs_wf_def)

lemma use_set_bound: "use_set n x \<subseteq> {..<n}"
  using update_uses_wf(2)[of x "bs_new n False"] by (auto simp: use_set_def bs_alpha_def)

lemma def_set_bound: "def_set n x \<subseteq> {..<n}"
  using update_def_wf(2)[of x "bs_new n False"] by (auto simp: def_set_def bs_alpha_def)

lemma bs_reset_new: "bs_size s = n \<Longrightarrow> bs_reset v s = bs_new n v"
  by (cases s) (simp add: bs_new_def bs_reset_def)

lemma bs_ok_wf: "bs_ok n s \<longleftrightarrow> bs_wf s \<and> bs_size s = n"
  by (auto simp: bs_wf_def bs_ok_def)

lemma update_def_add:
  assumes "bs_wf d" "args_fit (bs_size d) (mi_args x)"
  shows "bs_alpha (update_def x d) = bs_alpha d \<union> def_set (bs_size d) x"
  using assms
  by (cases "mi_op x"; simp add: update_def_def def_set_def; rename_tac s, case_tac s; auto simp: bs_alpha_new)

fun exposed :: "nat \<Rightarrow> nat set \<Rightarrow> MInstr list \<Rightarrow> nat set" where
  "exposed n D [] = {}"
| "exposed n D (x # xs) = (use_set n x - D) \<union> exposed n (D \<union> def_set n x) xs"

definition killed :: "nat \<Rightarrow> MInstr list \<Rightarrow> nat set" where
  "killed n xs = (\<Union>x \<in> set xs. def_set n x)"

lemma exposed_minus: "exposed n D xs = exposed n {} xs - D"
proof (induction xs arbitrary: D)
  case (Cons x xs)
  from Cons[of "D \<union> def_set n x"] Cons[of "def_set n x"] show ?case by auto
qed simp

lemma exposed_Cons: "exposed n {} (x # xs) = use_set n x \<union> (exposed n {} xs - def_set n x)"
  using exposed_minus[of n "def_set n x" xs] by simp

lemma exposed_bound: "exposed n D xs \<subseteq> {..<n}"
  by (induction xs arbitrary: D) (auto dest: subsetD[OF use_set_bound])

lemma scan_instr_step:
  assumes "bs_ok n upw" "bs_ok n d" "bs_ok n h" "args_fit n (mi_args x)" "scan_instr x (upw, d, h) = (upw', d', h')"
  shows "bs_ok n upw' \<and> bs_ok n d' \<and> bs_ok n h' \<and> bs_alpha upw' = bs_alpha upw \<union> (use_set n x - bs_alpha d)
    \<and> bs_alpha d' = bs_alpha d \<union> def_set n x"
proof -
  have sz: "bs_size h = n" "bs_wf d" "bs_size d = n" using assms by (simp_all add: bs_ok_wf)
  have u: "bs_ok n (update_uses x (bs_new n False))" by (simp add: bs_ok_wf update_uses_wf)
  have d: "bs_ok n (update_def x d)" using assms(2) by (simp add: bs_ok_wf update_def_wf)
  have "bs_alpha (update_def x d) = bs_alpha d \<union> def_set n x"
    using update_def_add[of d x] sz assms(4) by simp
  moreover have m: "bs_alpha (bs_mul_not (update_uses x (bs_new n False)) d) = use_set n x - bs_alpha d"
    using bs.alpha_minus[OF u assms(2)] by (simp add: use_set_def)
  ultimately show ?thesis
    using assms(5) bs.ok_minus[OF u assms(2)] d bs.ok_union[OF assms(1) bs.ok_minus[OF u assms(2)]]
      bs.alpha_union[OF assms(1) bs.ok_minus[OF u assms(2)]]
    by (auto simp: scan_instr_def Let_def bs_reset_new[OF sz(1)])
qed

lemma scan_fold:
  assumes "bs_ok n upw" "bs_ok n d" "bs_ok n h" "\<forall>x \<in> set xs. args_fit n (mi_args x)"
    "fold scan_instr xs (upw, d, h) = (upw', d', h')"
  shows "bs_ok n upw' \<and> bs_ok n d' \<and> bs_ok n h' \<and> bs_alpha upw' = bs_alpha upw \<union> exposed n (bs_alpha d) xs
    \<and> bs_alpha d' = bs_alpha d \<union> killed n xs"
  using assms
proof (induction xs arbitrary: upw d h)
  case Nil
  then show ?case by (simp add: killed_def)
next
  case (Cons x xs)
  obtain upw1 d1 h1 where s: "scan_instr x (upw, d, h) = (upw1, d1, h1)" by (metis prod_cases3)
  have st: "bs_ok n upw1 \<and> bs_ok n d1 \<and> bs_ok n h1 \<and> bs_alpha upw1 = bs_alpha upw \<union> (use_set n x - bs_alpha d)
      \<and> bs_alpha d1 = bs_alpha d \<union> def_set n x"
    using scan_instr_step[OF Cons.prems(1-3) _ s] Cons.prems(4) by simp
  then have "bs_ok n upw' \<and> bs_ok n d' \<and> bs_ok n h' \<and> bs_alpha upw' = bs_alpha upw1 \<union> exposed n (bs_alpha d1) xs
      \<and> bs_alpha d' = bs_alpha d1 \<union> killed n xs"
    using Cons.prems(4,5) s by (intro Cons.IH) auto
  then show ?case using st by (auto simp: killed_def)
qed

section \<open>All blocks\<close>

text \<open>Every register has a number below the size of the bit sets, and every branch target exists.\<close>

definition func_fits :: "MFunc \<Rightarrow> bool" where
  "func_fits f \<longleftrightarrow> (\<forall>x \<in> set (all_instrs f). args_fit (n_unique_regs f) (mi_args x)
     \<and> (mi_has_bb_ref x \<longrightarrow> mi_bb_ref x < length (mf_bbs f)))"

definition bb_gen :: "MFunc \<Rightarrow> nat \<Rightarrow> nat set" where
  "bb_gen f b = exposed (n_unique_regs f) {} (bb_code f b)"

definition bb_kill :: "MFunc \<Rightarrow> nat \<Rightarrow> nat set" where
  "bb_kill f b = killed (n_unique_regs f) (bb_code f b)"

definition bb_succs :: "MFunc \<Rightarrow> nat \<Rightarrow> nat list" where
  "bb_succs f b = (if b < length (mf_bbs f) then filter (\<lambda>c. c < length (mf_bbs f)) (targets (bb_code f b)) else [])"

definition bb_preds :: "MFunc \<Rightarrow> nat \<Rightarrow> nat list" where
  "bb_preds f b = (if b < length (mf_bbs f) then cfg_pred (cfg_edges f ! b) else [])"

interpretation flow: backward_flow "length (mf_bbs f)" "n_unique_regs f" "bb_succs f" "bb_preds f" "bb_gen f" "bb_kill f"
  for f
proof
  fix b c
  assume b: "b < length (mf_bbs f)"
  show "set (bb_succs f b) \<subseteq> {..<length (mf_bbs f)}" by (auto simp: bb_succs_def)
  show "set (bb_preds f b) \<subseteq> {..<length (mf_bbs f)}" using b by (auto simp: bb_preds_def cfg_edges_nth(3))
  show "c \<in> set (bb_succs f b) \<Longrightarrow> b \<in> set (bb_preds f c)"
    using b by (auto simp: bb_succs_def bb_preds_def cfg_edges_nth(3))
  show "bb_gen f b \<subseteq> {..<n_unique_regs f}" by (simp add: bb_gen_def exposed_bound)
qed

lemma func_fits_bb:
  assumes "func_fits f" "b < length (mf_bbs f)"
  shows "\<forall>x \<in> set (bb_code f b). args_fit (n_unique_regs f) (mi_args x)" "bb_succs f b = targets (bb_code f b)"
proof -
  have sub: "set (bb_code f b) \<subseteq> set (all_instrs f)"
    using nth_mem[OF assms(2)] by (auto simp: bb_code_def all_instrs_def)
  then show "\<forall>x \<in> set (bb_code f b). args_fit (n_unique_regs f) (mi_args x)"
    using assms(1) by (auto simp: func_fits_def)
  have "\<forall>c \<in> set (targets (bb_code f b)). c < length (mf_bbs f)"
    using assms(1) sub by (auto simp: func_fits_def targets_def)
  then show "bb_succs f b = targets (bb_code f b)" using assms(2) by (simp add: bb_succs_def)
qed

definition tables_ok :: "MFunc \<Rightarrow> nat \<Rightarrow> live_tables \<Rightarrow> bool" where
  "tables_ok f m t \<longleftrightarrow> (let n = n_unique_regs f; k = length (mf_bbs f) in
     length (lt_upwExp t) = k \<and> length (lt_defs t) = k \<and> bs_ok n (lt_helper t) \<and> lt_worklist t = rev [0..<m]
     \<and> (\<forall>b < k. bs_ok n (lt_upwExp t ! b) \<and> bs_ok n (lt_defs t ! b)
        \<and> bs_alpha (lt_upwExp t ! b) = (if b < m then bb_gen f b else {})
        \<and> bs_alpha (lt_defs t ! b) = (if b < m then bb_kill f b else {})))"

lemma scan_bb_ok:
  assumes "tables_ok f m t" "m < length (mf_bbs f)" "func_fits f"
  shows "tables_ok f (Suc m) (scan_bb f m t)"
proof -
  let ?n = "n_unique_regs f"
  obtain upw d h where r: "fold scan_instr (bb_instrs (mf_bbs f ! m)) (lt_upwExp t ! m, lt_defs t ! m, lt_helper t) = (upw, d, h)"
    by (metis prod_cases3)
  have m: "bs_ok ?n (lt_upwExp t ! m)" "bs_ok ?n (lt_defs t ! m)" "bs_ok ?n (lt_helper t)"
    "bs_alpha (lt_upwExp t ! m) = {}" "bs_alpha (lt_defs t ! m) = {}"
    using assms(1,2) by (simp_all add: tables_ok_def Let_def)
  have res: "bs_ok ?n upw \<and> bs_ok ?n d \<and> bs_ok ?n h \<and> bs_alpha upw = bb_gen f m \<and> bs_alpha d = bb_kill f m"
    using scan_fold[OF m(1-3) _ r] func_fits_bb(1)[OF assms(3,2)] m(4,5)
    by (simp add: bb_gen_def bb_kill_def bb_code_def)
  show ?thesis
    using assms(1,2) res by (auto simp: tables_ok_def Let_def scan_bb_def r nth_list_update)
qed

lemma scan_func_ok:
  assumes "func_fits f"
  shows "tables_ok f (length (mf_bbs f)) (scan_func f)"
proof -
  let ?k = "length (mf_bbs f)" and ?n = "n_unique_regs f"
  let ?t = "\<lparr>lt_upwExp = replicate ?k (bs_new ?n False), lt_defs = replicate ?k (bs_new ?n False),
    lt_helper = bs_new ?n False, lt_worklist = []\<rparr>"
  have "m \<le> ?k \<Longrightarrow> tables_ok f m (fold (scan_bb f) [0..<m] ?t)" for m
  proof (induction m)
    case 0
    then show ?case by (simp add: tables_ok_def Let_def bs_alpha_new)
  next
    case (Suc m)
    then show ?case using scan_bb_ok[OF _ _ assms, of m] by simp
  qed
  from this[of ?k] show ?thesis by (simp add: scan_func_def Let_def)
qed

section \<open>The loop refines the step on sets\<close>

definition live_ok :: "MFunc \<Rightarrow> live_state \<Rightarrow> bool" where
  "live_ok f s \<longleftrightarrow> (let n = n_unique_regs f; k = length (mf_bbs f) in
     length (ls_liveIn s) = k \<and> length (ls_liveOut s) = k \<and> bs_ok n (ls_new_out s) \<and> bs_ok n (ls_new_in s)
     \<and> set (ls_worklist s) \<subseteq> {..<k} \<and> (\<forall>b < k. bs_ok n (ls_liveIn s ! b) \<and> bs_ok n (ls_liveOut s ! b)))"

definition vec_alpha :: "bitset list \<Rightarrow> nat \<Rightarrow> nat set" where
  "vec_alpha v b = (if b < length v then bs_alpha (v ! b) else {})"

definition live_abs :: "live_state \<Rightarrow> flow_state" where
  "live_abs s = (vec_alpha (ls_liveIn s), vec_alpha (ls_liveOut s), ls_worklist s)"

lemma vec_alpha_upd: "c < length v \<Longrightarrow> vec_alpha (v[c := s]) = (vec_alpha v)(c := bs_alpha s)"
  by (auto simp: vec_alpha_def fun_eq_iff nth_list_update)

lemma live_step_ok:
  assumes "live_ok f s" "ls_worklist s = c # ws" "func_fits f"
  shows "live_ok f (live_step (cfg_update f False) (scan_func f) s)
    \<and> live_abs (live_step (cfg_update f False) (scan_func f) s)
      = flow_step (bb_succs f) (bb_preds f) (bb_gen f) (bb_kill f) (live_abs s)"
proof -
  let ?n = "n_unique_regs f" and ?k = "length (mf_bbs f)" and ?t = "scan_func f"
  let ?I = "vec_alpha (ls_liveIn s)" and ?U = "vec_alpha (ls_liveOut s)"
  have len: "length (ls_liveIn s) = ?k" "length (ls_liveOut s) = ?k" and c: "c < ?k" and ws: "set ws \<subseteq> {..<?k}"
    and tmp: "bs_ok ?n (ls_new_out s)" "bs_ok ?n (ls_new_in s)"
    and I: "\<And>b. b < ?k \<Longrightarrow> bs_ok ?n (ls_liveIn s ! b)" and U: "\<And>b. b < ?k \<Longrightarrow> bs_ok ?n (ls_liveOut s ! b)"
    using assms(1,2) by (auto simp: live_ok_def Let_def)
  have tab: "bs_ok ?n (lt_defs ?t ! c)" "bs_alpha (lt_defs ?t ! c) = bb_kill f c"
    "bs_ok ?n (lt_upwExp ?t ! c)" "bs_alpha (lt_upwExp ?t ! c) = bb_gen f c"
    using scan_func_ok[OF assms(3)] c by (simp_all add: tables_ok_def Let_def)
  have node: "cfg_succ (cfg_bbrs (cfg_update f False) ! c) = bb_succs f c"
    "cfg_pred (cfg_bbrs (cfg_update f False) ! c) = bb_preds f c"
    using c func_fits_bb(2)[OF assms(3) c] by (simp_all add: cfg_update_def cfg_edges_nth(2) bb_preds_def)
  let ?out = "fold (\<lambda>b acc. bs_add acc (ls_liveIn s ! b)) (bb_succs f c) (bs_reset False (ls_new_out s))"
  let ?inn = "bs_add (bs_mul_not (bs_assign (ls_new_in s) ?out) (lt_defs ?t ! c)) (lt_upwExp ?t ! c)"
  have rst: "bs_ok ?n (bs_reset False (ls_new_out s))" "bs_alpha (bs_reset False (ls_new_out s)) = {}"
    using tmp(1) by (simp_all add: bs_ok_reset bs_alpha_reset)
  have succ_in: "b < ?k" if "b \<in> set (bb_succs f c)" for b using that by (auto simp: bb_succs_def split: if_splits)
  have "bs_ok ?n ?out \<and> bs_alpha ?out = {} \<union> (\<Union>b \<in> set (bb_succs f c). bs_alpha (ls_liveIn s ! b))"
    using bs.fold_union[OF rst(1), of "bb_succs f c" "\<lambda>b. ls_liveIn s ! b"] rst(2) I succ_in by simp
  then have out: "bs_ok ?n ?out" "bs_alpha ?out = flow_out (bb_succs f) ?I c"
    using succ_in len by (auto simp: flow_out_def vec_alpha_def)
  have inn: "bs_ok ?n ?inn" "bs_alpha ?inn = (flow_out (bb_succs f) ?I c - bb_kill f c) \<union> bb_gen f c"
    using bs.transfer[OF tmp(2) out(1) tab(1,3)] tab(2,4) out(2) by simp_all
  have eqs: "bs_eq ?out (ls_liveOut s ! c) \<longleftrightarrow> bs_alpha ?out = ?U c" "bs_eq ?inn (ls_liveIn s ! c) \<longleftrightarrow> bs_alpha ?inn = ?I c"
    using bs.same_iff[OF out(1) U[OF c]] bs.same_iff[OF inn(1) I[OF c]] c len by (simp_all add: vec_alpha_def)
  have assign: "bs_assign (ls_liveOut s ! c) ?out = ?out" "bs_assign (ls_liveIn s ! c) ?inn = ?inn"
    using bs.assign_eq[OF U[OF c] out(1)] bs.assign_eq[OF I[OF c] inn(1)] by simp_all
  let ?s' = "live_step (cfg_update f False) ?t s"
  have s': "?s' = \<lparr>ls_liveIn = (if bs_alpha ?inn \<noteq> ?I c then (ls_liveIn s)[c := ?inn] else ls_liveIn s),
      ls_liveOut = (if bs_alpha ?out \<noteq> ?U c then (ls_liveOut s)[c := ?out] else ls_liveOut s),
      ls_new_out = ?out, ls_new_in = ?inn,
      ls_worklist = (if bs_alpha ?inn \<noteq> ?I c then ws @ bb_preds f c else ws)\<rparr>"
    unfolding live_step_def assms(2) Let_def list.case node eqs assign by (simp only: if_not_P not_not)
  have "set (bb_preds f c) \<subseteq> {..<?k}" by (rule flow.preds_in[OF c])
  then have "live_ok f ?s'"
    unfolding s' live_ok_def Let_def using len c ws out(1) inn(1) I U by (auto simp: nth_list_update)
  moreover have "live_abs ?s' = flow_step (bb_succs f) (bb_preds f) (bb_gen f) (bb_kill f) (live_abs s)"
    unfolding s' live_abs_def assms(2) using len c inn(2) out(2)
    by (auto simp: vec_alpha_upd Let_def fun_upd_idem)
  ultimately show ?thesis by simp
qed

text \<open>The loop ends, and its vectors are the solution of the dataflow equations.\<close>

lemma live_loop:
  assumes "func_fits f"
  shows "\<exists>s. while_option live_pending (live_step (cfg_update f False) (scan_func f)) (live_init f (scan_func f)) = Some s
    \<and> live_ok f s \<and> (\<forall>b < length (mf_bbs f).
        bs_alpha (ls_liveIn s ! b) = {r. live_path (bb_succs f) (bb_gen f) (bb_kill f) b r}
        \<and> bs_alpha (ls_liveOut s ! b) = (\<Union>c \<in> set (bb_succs f b). bs_alpha (ls_liveIn s ! c)))"
proof -
  let ?k = "length (mf_bbs f)" and ?n = "n_unique_regs f"
  let ?c = "live_step (cfg_update f False) (scan_func f)" and ?s0 = "live_init f (scan_func f)"
  let ?F = "flow_step (bb_succs f) (bb_preds f) (bb_gen f) (bb_kill f)"
  have wl: "lt_worklist (scan_func f) = rev [0..<?k]"
    using scan_func_ok[OF assms] by (simp add: tables_ok_def Let_def)
  then have init: "live_ok f ?s0" by (auto simp: live_ok_def live_init_def Let_def)
  have abs0: "live_abs ?s0 = flow_init ?k"
    using wl by (auto simp: live_abs_def live_init_def flow_init_def Let_def vec_alpha_def bs_alpha_new fun_eq_iff)
  have step: "live_ok f (?c s) \<and> live_abs (?c s) = ?F (live_abs s)" if "live_ok f s" "live_pending s" for s
    using that live_step_ok[OF that(1) _ assms] by (cases "ls_worklist s") (auto simp: live_pending_def)
  have pend: "live_pending s = flow_pending (live_abs s)" for s
    by (simp add: live_pending_def flow_pending_def live_abs_def)
  have com: "map_option live_abs (while_option live_pending ?c ?s0) = while_option flow_pending ?F (live_abs ?s0)"
    by (rule while_option_commute_invariant[where P = "live_ok f"]) (use step pend init in auto)
  obtain I U where fin: "while_option flow_pending ?F (flow_init ?k) = Some (I, U, [])" "flow.flow_inv f (I, U, [])"
    using flow.flow_terminates[of f] by blast
  then obtain s where s: "while_option live_pending ?c ?s0 = Some s" "live_abs s = (I, U, [])"
    using com abs0 by auto
  have ok: "live_ok f s"
    by (rule while_option_rule[where P = "live_ok f", OF _ s(1) init]) (use step in blast)
  have len: "length (ls_liveIn s) = ?k" "length (ls_liveOut s) = ?k" using ok by (simp_all add: live_ok_def Let_def)
  have IU: "I = vec_alpha (ls_liveIn s)" "U = vec_alpha (ls_liveOut s)" using s(2) by (simp_all add: live_abs_def)
  have "bs_alpha (ls_liveIn s ! b) = {r. live_path (bb_succs f) (bb_gen f) (bb_kill f) b r}
      \<and> bs_alpha (ls_liveOut s ! b) = (\<Union>c \<in> set (bb_succs f b). bs_alpha (ls_liveIn s ! c))" if "b < ?k" for b
  proof -
    have "c < ?k" if "c \<in> set (bb_succs f b)" for c using that flow.succs_in[OF \<open>b < ?k\<close>] by auto
    then show ?thesis
      using flow.flow_solution[OF fin(2) that] that len by (auto simp: IU vec_alpha_def flow_out_def)
  qed
  then show ?thesis using s(1) ok by blast
qed

section \<open>Paths of instructions\<close>

text \<open>
  A register is live before instruction \<open>i\<close> of block \<open>b\<close> when some path from there reaches an
  instruction that uses it before one that overwrites it. A path goes through a block to its end and on
  to a block some branch of it names: the control flow graph has no other edges.
\<close>

inductive live_at :: "MFunc \<Rightarrow> nat \<Rightarrow> nat \<Rightarrow> nat \<Rightarrow> bool" for f where
  at_use: "i < length (bb_code f b) \<Longrightarrow> r \<in> use_set (n_unique_regs f) (bb_code f b ! i) \<Longrightarrow> live_at f b i r"
| at_next: "i < length (bb_code f b) \<Longrightarrow> r \<notin> def_set (n_unique_regs f) (bb_code f b ! i) \<Longrightarrow>
    live_at f b (Suc i) r \<Longrightarrow> live_at f b i r"
| at_edge: "c \<in> set (targets (bb_code f b)) \<Longrightarrow> live_at f c 0 r \<Longrightarrow> live_at f b (length (bb_code f b)) r"

lemma killed_Cons: "killed n (x # xs) = def_set n x \<union> killed n xs"
  by (simp add: killed_def)

lemma live_at_path:
  assumes "func_fits f"
  shows "live_at f b i r \<Longrightarrow> b < length (mf_bbs f) \<Longrightarrow> i \<le> length (bb_code f b) \<Longrightarrow>
    r \<in> exposed (n_unique_regs f) {} (drop i (bb_code f b)) \<or>
    (r \<notin> killed (n_unique_regs f) (drop i (bb_code f b)) \<and>
      (\<exists>c \<in> set (bb_succs f b). live_path (bb_succs f) (bb_gen f) (bb_kill f) c r))"
proof (induction rule: live_at.induct)
  case (at_use i b r)
  then show ?case by (simp add: Cons_nth_drop_Suc[symmetric] exposed_Cons del: exposed.simps)
next
  case (at_next i b r)
  then show ?case by (auto simp: Cons_nth_drop_Suc[symmetric] exposed_Cons killed_Cons simp del: exposed.simps)
next
  case (at_edge c b r)
  have succ: "c \<in> set (bb_succs f b)" using at_edge func_fits_bb(2)[OF assms] by simp
  then have "c < length (mf_bbs f)" by (auto simp: bb_succs_def split: if_splits)
  then have "r \<in> bb_gen f c \<or> r \<notin> bb_kill f c \<and> (\<exists>d \<in> set (bb_succs f c). live_path (bb_succs f) (bb_gen f) (bb_kill f) d r)"
    using at_edge.IH unfolding bb_gen_def[of f c] bb_kill_def[of f c] by simp
  then have "live_path (bb_succs f) (bb_gen f) (bb_kill f) c r" by (auto intro: live_path.intros)
  then show ?case using succ by (auto simp: killed_def)
qed

lemma exposed_live_at:
  "i \<le> length (bb_code f b) \<Longrightarrow> r \<in> exposed (n_unique_regs f) {} (drop i (bb_code f b)) \<Longrightarrow> live_at f b i r"
proof (induction "length (bb_code f b) - i" arbitrary: i)
  case (Suc m)
  then have "i < length (bb_code f b)" by simp
  then show ?case
    using Suc.prems Suc.hyps(1)[of "Suc i"] Suc.hyps(2)
    by (auto simp: Cons_nth_drop_Suc[symmetric] exposed_Cons simp del: exposed.simps intro: live_at.intros)
qed simp

lemma passed_live_at:
  "i \<le> length (bb_code f b) \<Longrightarrow> r \<notin> killed (n_unique_regs f) (drop i (bb_code f b)) \<Longrightarrow>
    live_at f b (length (bb_code f b)) r \<Longrightarrow> live_at f b i r"
proof (induction "length (bb_code f b) - i" arbitrary: i)
  case (Suc m)
  then have "i < length (bb_code f b)" by simp
  then show ?case
    using Suc.prems Suc.hyps(1)[of "Suc i"] Suc.hyps(2)
    by (auto simp: Cons_nth_drop_Suc[symmetric] killed_Cons intro: live_at.intros)
qed simp

lemma live_path_at:
  "live_path (bb_succs f) (bb_gen f) (bb_kill f) b r \<Longrightarrow> live_at f b 0 r"
proof (induction rule: live_path.induct)
  case (live_here r b)
  then show ?case using exposed_live_at[of 0 f b r] by (simp add: bb_gen_def)
next
  case (live_later c b r)
  then have "live_at f b (length (bb_code f b)) r" by (auto simp: bb_succs_def split: if_splits intro: at_edge)
  then show ?case using passed_live_at[of 0 f b r] live_later by (simp add: bb_kill_def)
qed

lemma live_path_iff_at:
  assumes "func_fits f" "b < length (mf_bbs f)"
  shows "live_path (bb_succs f) (bb_gen f) (bb_kill f) b r \<longleftrightarrow> live_at f b 0 r"
proof
  assume "live_at f b 0 r"
  from live_at_path[OF assms(1) this assms(2)]
  have "r \<in> bb_gen f b \<or> r \<notin> bb_kill f b \<and> (\<exists>d \<in> set (bb_succs f b). live_path (bb_succs f) (bb_gen f) (bb_kill f) d r)"
    unfolding bb_gen_def[of f b] bb_kill_def[of f b] by simp
  then show "live_path (bb_succs f) (bb_gen f) (bb_kill f) b r" by (auto intro: live_path.intros)
qed (rule live_path_at)

inductive_cases live_at_endE: "live_at f b (length (bb_code f b)) r"

lemma live_at_end_iff:
  "live_at f b (length (bb_code f b)) r \<longleftrightarrow> (\<exists>c \<in> set (targets (bb_code f b)). live_at f c 0 r)"
  by (auto elim: live_at_endE intro: at_edge)

lemma live_update_correct:
  assumes "func_fits f"
  shows "\<exists>lv. live_update (cfg_update f False) f = Some lv
    \<and> length (lv_liveIn lv) = length (mf_bbs f) \<and> length (lv_liveOut lv) = length (mf_bbs f)
    \<and> (\<forall>b < length (mf_bbs f).
        bs_ok (n_unique_regs f) (lv_liveIn lv ! b) \<and> bs_ok (n_unique_regs f) (lv_liveOut lv ! b)
        \<and> bs_alpha (lv_liveIn lv ! b) = {r. live_at f b 0 r}
        \<and> bs_alpha (lv_liveOut lv ! b) = {r. live_at f b (length (bb_code f b)) r}
        \<and> bs_ok (n_unique_regs f) (lv_live lv ! b)
        \<and> bs_alpha (lv_live lv ! b) = bs_alpha (lv_liveIn lv ! b) \<union> bs_alpha (lv_liveOut lv ! b) \<union> bb_kill f b)"
proof -
  let ?n = "n_unique_regs f" and ?k = "length (mf_bbs f)" and ?t = "scan_func f"
  obtain s where s: "while_option live_pending (live_step (cfg_update f False) ?t) (live_init f ?t) = Some s"
    and ok: "live_ok f s"
    and sol: "\<forall>b < ?k. bs_alpha (ls_liveIn s ! b) = {r. live_path (bb_succs f) (bb_gen f) (bb_kill f) b r}
        \<and> bs_alpha (ls_liveOut s ! b) = (\<Union>c \<in> set (bb_succs f b). bs_alpha (ls_liveIn s ! c))"
    using live_loop[OF assms] by blast
  let ?live = "\<lambda>i. bs_add (bs_add (bs_assign (bs_new ?n False) (ls_liveIn s ! i)) (ls_liveOut s ! i)) (lt_defs ?t ! i)"
  have upd: "live_update (cfg_update f False) f = Some \<lparr>lv_live = map ?live [0..<length (cfg_bbrs (cfg_update f False))],
      lv_liveIn = ls_liveIn s, lv_liveOut = ls_liveOut s\<rparr>"
    by (simp add: live_update_def Let_def s)
  have len: "length (ls_liveIn s) = ?k" "length (ls_liveOut s) = ?k"
    and oks: "\<And>b. b < ?k \<Longrightarrow> bs_ok ?n (ls_liveIn s ! b)" "\<And>b. b < ?k \<Longrightarrow> bs_ok ?n (ls_liveOut s ! b)"
    using ok by (simp_all add: live_ok_def Let_def)
  have "bs_alpha (ls_liveIn s ! b) = {r. live_at f b 0 r}
      \<and> bs_alpha (ls_liveOut s ! b) = {r. live_at f b (length (bb_code f b)) r}
      \<and> bs_ok ?n (map ?live [0..<length (cfg_bbrs (cfg_update f False))] ! b)
      \<and> bs_alpha (map ?live [0..<length (cfg_bbrs (cfg_update f False))] ! b)
          = bs_alpha (ls_liveIn s ! b) \<union> bs_alpha (ls_liveOut s ! b) \<union> bb_kill f b" if b: "b < ?k" for b
  proof -
    have succs: "bb_succs f b = targets (bb_code f b)" by (rule func_fits_bb(2)[OF assms b])
    have cin: "c < ?k" if "c \<in> set (bb_succs f b)" for c using that by (auto simp: bb_succs_def split: if_splits)
    have inn: "bs_alpha (ls_liveIn s ! c) = {r. live_at f c 0 r}" if "c < ?k" for c
      using sol that by (simp add: live_path_iff_at[OF assms that])
    have "bs_alpha (ls_liveOut s ! b) = (\<Union>c \<in> set (bb_succs f b). bs_alpha (ls_liveIn s ! c))" using sol b by blast
    also have "\<dots> = {r. live_at f b (length (bb_code f b)) r}"
      using inn cin by (auto simp: live_at_end_iff succs)
    finally have out: "bs_alpha (ls_liveOut s ! b) = {r. live_at f b (length (bb_code f b)) r}" .
    have lenc: "length (cfg_bbrs (cfg_update f False)) = ?k" using b by (simp add: cfg_update_def cfg_edges_nth(1))
    have d: "bs_ok ?n (lt_defs ?t ! b)" "bs_alpha (lt_defs ?t ! b) = bb_kill f b"
      using scan_func_ok[OF assms] b by (simp_all add: tables_ok_def Let_def)
    have as: "bs_assign (bs_new ?n False) (ls_liveIn s ! b) = ls_liveIn s ! b"
      by (rule bs.assign_eq[OF bs.ok_fresh oks(1)[OF b]])
    show ?thesis
      using inn[OF b] out b d bs.ok_union[OF bs.ok_union[OF oks(1)[OF b] oks(2)[OF b]] d(1)]
        bs.alpha_union[OF bs.ok_union[OF oks(1)[OF b] oks(2)[OF b]] d(1)] bs.alpha_union[OF oks(1)[OF b] oks(2)[OF b]]
      by (simp add: lenc as)
  qed
  then show ?thesis unfolding upd using len oks by simp
qed

end
