(* ===== verification/MIRMachine.thy ===== *)
theory MIRMachine
  imports MIRLive
begin

text \<open>
  The machine the analyses are about. It is a parameter: \<open>sem x rs m\<close> gives the registers and the rest of
  the state after instruction \<open>x\<close> and whether it leaves the block through its branch. What it may read
  and write is said here from the documentation of the instructions (the operand tables and comments of
  \<^verbatim>\<open>instr.cpp\<close> and \<^verbatim>\<open>instr.hpp\<close>), not from \<^verbatim>\<open>update_uses\<close>: a conditional move reads its
  destination. The registers needed on such a machine are compared with the ones the analysis calls live.
\<close>

section \<open>What an instruction reads and writes\<close>

type_synonym 'v regs = "nat \<Rightarrow> 'v"
type_synonym ('v, 'm) machine = "MInstr \<Rightarrow> 'v regs \<Rightarrow> 'm \<Rightarrow> 'v regs \<times> 'm \<times> bool"

definition agree :: "nat set \<Rightarrow> 'v regs \<Rightarrow> 'v regs \<Rightarrow> bool" where
  "agree A rs rs' \<longleftrightarrow> (\<forall>r \<in> A. rs r = rs' r)"

text \<open>Exclusive or of a register with itself: its result does not depend on the register.\<close>

definition self_xor :: "MInstr \<Rightarrow> bool" where
  "self_xor x \<longleftrightarrow> (let a = mi_args x; same = (\<lambda>j k. isReg (a ! j) \<and> isReg (a ! k) \<and> vreg_eq (ma_reg (a ! j)) (ma_reg (a ! k)))
     in mi_op x = GArith GArith_lxor2 \<and> same 0 1 \<or> mi_op x = GVec GVec_vXor \<and> same 1 2)"

text \<open>
  The operands whose values an instruction needs: those \<^verbatim>\<open>read_args\<close> lists (the destination of a conditional
  move and of a gather among them), and the ones it should list: both operands of \<^verbatim>\<open>or\<close>, of \<^verbatim>\<open>vXor\<close>, and
  all of \<^verbatim>\<open>ffmadd\<close>.
\<close>

definition source_args :: "MInstr \<Rightarrow> MArgument list" where
  "source_args x = (let a = mi_args x in
     if self_xor x then []
     else if mi_op x = GArith GArith_lor2 then [a ! 0, a ! 1]
     else if mi_op x = GVec GVec_vXor then [a ! 1, a ! 2]
     else if mi_op x = GVec GVec_ffmadd then [a ! 0, a ! 1, a ! 2, a ! 3]
     else map snd (read_args x))"

text \<open>A physical call uses and destroys registers of the calling convention.\<close>

definition is_physical_call :: "MInstr \<Rightarrow> bool" where
  "is_physical_call x \<longleftrightarrow> mi_op x = GBase GBase_call"

definition is_gather :: "MInstr \<Rightarrow> bool" where
  "is_gather x \<longleftrightarrow> mi_op x \<in> {X86 X86_vgather, X86 X86_vgatherq}"

text \<open>
  The registers an instruction may read: those of the operands above, the address registers of a memory operand it
  writes, the stack pointer for the stack operations.
\<close>

definition machine_reads :: "MInstr \<Rightarrow> nat set" where
  "machine_reads x = (\<Union>a \<in> set (source_args x). arg_uids a)
     \<union> (\<Union>d \<in> set (filter (\<lambda>d. \<not> isReg (snd d)) (written_args x)). arg_uids (snd d))
     \<union> (if stack_op (mi_op x) then {sp_uid} else {})
     \<union> (if is_physical_call x then {..<numRegs} else {})"

text \<open>And the ones it may write: a gather clears its mask, the third operand.\<close>

definition machine_writes :: "MInstr \<Rightarrow> nat set" where
  "machine_writes x = written_uids x
     \<union> (if mi_op x \<in> {GBase GBase_push, GBase GBase_pop} then {sp_uid} else {})
     \<union> (if is_gather x then arg_uids (mi_args x ! 2) else {})
     \<union> (if is_physical_call x then {..<numRegs} else {})"

text \<open>
  The documented machine: what an instruction does to the rest of the state, whether it leaves the block and what it
  stores in the registers it writes depends on the registers it reads only, and it keeps the other registers.
  It is asked of every instruction. A register holds the value of the type it is written with; the stack pointer counts
  for the stack operations only, the return of a function does not use it before its frame is laid out.
\<close>

definition documented_machine :: "('v, 'm) machine \<Rightarrow> bool" where
  "documented_machine sem \<longleftrightarrow> (\<forall>x rs rs' m. agree (machine_reads x) rs rs' \<longrightarrow>
     snd (sem x rs m) = snd (sem x rs' m) \<and> agree (machine_writes x) (fst (sem x rs m)) (fst (sem x rs' m)))
   \<and> (\<forall>x rs m. agree (- machine_writes x) (fst (sem x rs m)) rs)"

section \<open>Code the analyses fit\<close>

text \<open>
  The code the passes get before the second stage of the calling convention: calls are still \<^verbatim>\<open>invoke\<close>, whose
  registers are saved around it later, and there is no gather (the tables do not list its mask as written).
\<close>

definition writes_listed :: "MInstr \<Rightarrow> bool" where
  "writes_listed x \<longleftrightarrow> operands_ok x \<and> \<not> is_physical_call x \<and> \<not> is_gather x"

text \<open>
  A register that an instruction reads without \<^verbatim>\<open>update_uses\<close> saying so (the destination of a conditional move)
  occurs in the block before: it is used or defined there. \<open>D\<close> has the registers seen so far.
\<close>

primrec reads_marked :: "nat \<Rightarrow> nat set \<Rightarrow> MInstr list \<Rightarrow> bool" where
  "reads_marked n D [] = True"
| "reads_marked n D (x # xs) \<longleftrightarrow> machine_reads x \<subseteq> use_set n x \<union> D \<and> reads_marked n (D \<union> use_set n x \<union> def_set n x) xs"

definition machine_code :: "MFunc \<Rightarrow> bool" where
  "machine_code f \<longleftrightarrow> (\<forall>x \<in> set (all_instrs f). writes_listed x)
     \<and> (\<forall>bb \<in> set (mf_bbs f). reads_marked (n_unique_regs f) {} (bb_instrs bb))"

lemma def_set_machine:
  assumes "args_fit n (mi_args x)" "writes_listed x"
  shows "def_set n x = machine_writes x"
  using update_def_alpha[of "bs_new n False" x] assms
  by (simp add: def_set_def machine_writes_def writes_listed_def bs_alpha_new)

text \<open>Only the destinations that keep their old value are read without being marked.\<close>

definition keeps_destination :: "MInstr \<Rightarrow> bool" where
  "keeps_destination x \<longleftrightarrow> isReg (mi_args x ! 0)
     \<and> ((\<exists>s. mi_op x = GCMov s \<and> s \<noteq> GCMov_INVALID) \<or> mi_op x = GVec GVec_ffmadd \<or> mi_op x = X86 X86_vgatherq)"

lemma read_args_machine:
  "\<not> reads_differ x \<Longrightarrow> \<not> is_physical_call x \<Longrightarrow>
    machine_reads x \<subseteq> read_uids x \<union> (if stack_op (mi_op x) then {sp_uid} else {})"
  by (cases "mi_op x = GVec GVec_vXor")
    (auto simp: machine_reads_def source_args_def read_uids_eq reads_differ_def Let_def self_xor_def read_args_def)

lemma reads_machine:
  assumes "args_fit n (mi_args x)" "writes_listed x" "mi_n_args x \<le> 4" "\<not> keeps_destination x"
  shows "machine_reads x \<subseteq> use_set n x"
proof (cases "reads_differ x")
  case False
  then show ?thesis
    using update_uses_alpha[of "bs_new n False" x] read_args_machine[OF False] assms
    by (simp add: use_set_def writes_listed_def bs_alpha_new)
next
  case True
  then show ?thesis
    using assms
    by (auto simp: reads_differ_def keeps_destination_def Let_def machine_reads_def source_args_def self_xor_def use_set_def
        update_uses_def written_args_def stack_op_def writes_listed_def is_gather_def is_physical_call_def bs_alpha_new)
qed

lemma reads_marked_plain:
  "\<forall>x \<in> set xs. machine_reads x \<subseteq> use_set n x \<Longrightarrow> reads_marked n D xs"
  by (induction xs arbitrary: D) auto

section \<open>Registers a machine needs\<close>

definition need_set :: "nat \<Rightarrow> MInstr \<Rightarrow> nat set" where
  "need_set n x = use_set n x \<union> machine_reads x"

text \<open>Liveness as \<open>live_at\<close> has it, with the registers the machine reads among the used ones.\<close>

inductive needed_at :: "MFunc \<Rightarrow> nat \<Rightarrow> nat \<Rightarrow> nat \<Rightarrow> bool" for f where
  nd_use: "i < length (bb_code f b) \<Longrightarrow> r \<in> need_set (n_unique_regs f) (bb_code f b ! i) \<Longrightarrow> needed_at f b i r"
| nd_next: "i < length (bb_code f b) \<Longrightarrow> r \<notin> def_set (n_unique_regs f) (bb_code f b ! i) \<Longrightarrow>
    needed_at f b (Suc i) r \<Longrightarrow> needed_at f b i r"
| nd_edge: "c \<in> set (targets (bb_code f b)) \<Longrightarrow> needed_at f c 0 r \<Longrightarrow> needed_at f b (length (bb_code f b)) r"

lemma live_at_needed: "live_at f b i r \<Longrightarrow> needed_at f b i r"
  by (induction rule: live_at.induct) (auto intro: needed_at.intros simp: need_set_def)

lemma passed_needed_at:
  "i \<le> length (bb_code f b) \<Longrightarrow> r \<notin> killed (n_unique_regs f) (drop i (bb_code f b)) \<Longrightarrow>
    needed_at f b (length (bb_code f b)) r \<Longrightarrow> needed_at f b i r"
proof (induction "length (bb_code f b) - i" arbitrary: i)
  case (Suc m)
  then have "i < length (bb_code f b)" by simp
  then show ?case
    using Suc.prems Suc.hyps(1)[of "Suc i"] Suc.hyps(2)
    by (auto simp: Cons_nth_drop_Suc[symmetric] killed_Cons intro: needed_at.intros)
qed simp

text \<open>A read that is not marked, with no occurrence of the register on the way to it.\<close>

definition hidden_read :: "nat \<Rightarrow> MInstr list \<Rightarrow> nat \<Rightarrow> nat \<Rightarrow> bool" where
  "hidden_read n xs i r \<longleftrightarrow> (\<exists>j. i \<le> j \<and> j < length xs \<and> r \<in> machine_reads (xs ! j) \<and> r \<notin> use_set n (xs ! j)
     \<and> (\<forall>k. i \<le> k \<and> k < j \<longrightarrow> r \<notin> use_set n (xs ! k) \<and> r \<notin> def_set n (xs ! k)))"

lemma reads_marked_hidden: "reads_marked n D xs \<Longrightarrow> hidden_read n xs 0 r \<Longrightarrow> r \<in> D"
proof (induction xs arbitrary: D)
  case (Cons x xs)
  obtain j where j: "j < length (x # xs)" "r \<in> machine_reads ((x # xs) ! j)" "r \<notin> use_set n ((x # xs) ! j)"
    "\<forall>k < j. r \<notin> use_set n ((x # xs) ! k) \<and> r \<notin> def_set n ((x # xs) ! k)"
    using Cons.prems(2) unfolding hidden_read_def by auto
  show ?case
  proof (cases j)
    case 0
    then show ?thesis using j Cons.prems(1) by auto
  next
    case (Suc i)
    have "hidden_read n xs 0 r"
      unfolding hidden_read_def by (rule exI[of _ i]) (use j Suc in force)
    then have "r \<in> D \<union> use_set n x \<union> def_set n x" using Cons.IH[of "D \<union> use_set n x \<union> def_set n x"] Cons.prems(1) by simp
    moreover have "r \<notin> use_set n x" "r \<notin> def_set n x" using j(4) Suc by auto
    ultimately show ?thesis by blast
  qed
qed (simp add: hidden_read_def)

lemma hidden_read_next:
  assumes "hidden_read n xs (Suc i) r" "r \<notin> use_set n (xs ! i)" "r \<notin> def_set n (xs ! i)"
  shows "hidden_read n xs i r"
proof -
  obtain j where j: "Suc i \<le> j" "j < length xs" "r \<in> machine_reads (xs ! j)" "r \<notin> use_set n (xs ! j)"
    "\<forall>k. Suc i \<le> k \<and> k < j \<longrightarrow> r \<notin> use_set n (xs ! k) \<and> r \<notin> def_set n (xs ! k)"
    using assms(1) unfolding hidden_read_def by blast
  have "r \<notin> use_set n (xs ! k) \<and> r \<notin> def_set n (xs ! k)" if "i \<le> k" "k < j" for k
    using that j(5) assms(2,3) by (cases "k = i") auto
  then show ?thesis using j(1-4) unfolding hidden_read_def by (intro exI[of _ j]) simp
qed

lemma needed_at_cases:
  assumes f: "func_fits f" "machine_code f"
  shows "needed_at f b i r \<Longrightarrow> b < length (mf_bbs f) \<Longrightarrow> live_at f b i r \<or> hidden_read (n_unique_regs f) (bb_code f b) i r"
proof (induction rule: needed_at.induct)
  case (nd_use i b r)
  show ?case
  proof (cases "r \<in> use_set (n_unique_regs f) (bb_code f b ! i)")
    case True
    then show ?thesis using nd_use.hyps(1) at_use by blast
  next
    case False
    then have "hidden_read (n_unique_regs f) (bb_code f b) i r"
      unfolding hidden_read_def by (intro exI[of _ i]) (use nd_use.hyps in \<open>auto simp: need_set_def\<close>)
    then show ?thesis ..
  qed
next
  case (nd_next i b r)
  then show ?case using at_use at_next hidden_read_next by blast
next
  case (nd_edge c b r)
  have c: "c < length (mf_bbs f)"
    using nd_edge.hyps(1) func_fits_bb(2)[OF f(1) nd_edge.prems] flow.succs_in[OF nd_edge.prems] by auto
  have "\<not> hidden_read (n_unique_regs f) (bb_code f c) 0 r"
    using reads_marked_hidden[of "n_unique_regs f" "{}" "bb_code f c" r] f(2) c nth_mem[OF c]
    by (auto simp: machine_code_def bb_code_def)
  then show ?case using nd_edge.IH c nd_edge.hyps(1) at_edge by blast
qed

text \<open>At the entry of a block, and at its end, the registers a machine needs are the live ones.\<close>

lemma needed_at_entry:
  assumes "func_fits f" "machine_code f" "b < length (mf_bbs f)"
  shows "needed_at f b 0 r \<longleftrightarrow> live_at f b 0 r"
  using needed_at_cases[OF assms(1,2) _ assms(3), of 0 r] live_at_needed[of f b 0 r] assms(2,3)
    reads_marked_hidden[of "n_unique_regs f" "{}" "bb_code f b" r]
  by (auto simp: machine_code_def bb_code_def)

inductive_cases needed_at_E: "needed_at f b i r"

lemma needed_at_end:
  assumes "func_fits f" "machine_code f" "b < length (mf_bbs f)"
  shows "needed_at f b (length (bb_code f b)) r \<longleftrightarrow> live_at f b (length (bb_code f b)) r"
proof
  assume "needed_at f b (length (bb_code f b)) r"
  then obtain c where c: "c \<in> set (targets (bb_code f b))" "needed_at f c 0 r" by (auto elim: needed_at_E)
  then have "c < length (mf_bbs f)" using func_fits_bb(2)[OF assms(1,3)] flow.succs_in[OF assms(3)] by auto
  then show "live_at f b (length (bb_code f b)) r" using c needed_at_entry[OF assms(1,2)] at_edge by blast
qed (rule live_at_needed)

section \<open>The instructions of a function\<close>

definition instr_respects :: "nat \<Rightarrow> ('v, 'm) machine \<Rightarrow> MInstr \<Rightarrow> bool" where
  "instr_respects n sem x \<longleftrightarrow> (\<forall>rs rs' m. agree (need_set n x) rs rs' \<longrightarrow>
     snd (sem x rs m) = snd (sem x rs' m) \<and> agree (def_set n x) (fst (sem x rs m)) (fst (sem x rs' m)))
   \<and> (\<forall>rs m. agree (- def_set n x) (fst (sem x rs m)) rs)"

lemma documented_respects:
  assumes "documented_machine sem" "args_fit n (mi_args x)" "writes_listed x"
  shows "instr_respects n sem x"
proof -
  have "agree (need_set n x) rs rs' \<Longrightarrow> agree (machine_reads x) rs rs'" for rs rs'
    by (auto simp: agree_def need_set_def)
  then show ?thesis
    using assms(1) unfolding instr_respects_def documented_machine_def def_set_machine[OF assms(2,3)] by blast
qed

lemma bb_code_instr: "b < length (mf_bbs f) \<Longrightarrow> x \<in> set (bb_code f b) \<Longrightarrow> x \<in> set (all_instrs f)"
  using nth_mem by (auto simp: bb_code_def all_instrs_def)

lemma machine_code_respects:
  assumes "documented_machine sem" "func_fits f" "machine_code f" "x \<in> set (all_instrs f)"
  shows "instr_respects (n_unique_regs f) sem x"
  using assms by (auto simp: func_fits_def machine_code_def intro: documented_respects)

lemma respects_step:
  assumes "instr_respects n sem x" "agree (need_set n x) rs rs'" "sem x rs m = (rs1, m1, l1)" "sem x rs' m = (rs2, m2, l2)"
  shows "m2 = m1" "l2 = l1" "agree (def_set n x) rs1 rs2" "agree (- def_set n x) rs1 rs" "agree (- def_set n x) rs2 rs'"
  using assms unfolding instr_respects_def by (metis fst_conv snd_conv prod.inject)+

text \<open>A machine that adds up what it reads.\<close>

definition toy_machine :: "(nat, nat) machine" where
  "toy_machine x rs m =
     (let v = (\<Sum>r \<in> machine_reads x. rs r) in (\<lambda>r. if r \<in> machine_writes x then Suc v else rs r, m + v, v < m))"

lemma toy_machine_documented: "documented_machine toy_machine"
proof -
  have "(\<Sum>r \<in> machine_reads x. rs r) = (\<Sum>r \<in> machine_reads x. rs' r)" if "agree (machine_reads x) rs rs'"
    for x and rs rs' :: "nat \<Rightarrow> nat"
    using that by (intro sum.cong) (auto simp: agree_def)
  then show ?thesis by (auto simp: documented_machine_def toy_machine_def Let_def agree_def)
qed

end
