(* ===== verification/MIRLiveSpec.thy ===== *)
theory MIRLiveSpec
  imports MIRMachine
begin

text \<open>
  The properties of the control flow graph and of \<^verbatim>\<open>LiveVariables\<close>: consistency of the edges, the
  analysis returns, its sets are exactly the live registers, branches inside a block, and what
  liveness means for the values of registers.
\<close>

section \<open>Branches inside a block\<close>

text \<open>
  Paths as the machine takes them: a branch leaves the block where it stands. The analysis instead
  lets every branch leave at the end of its block.
\<close>

inductive live_exec :: "MFunc \<Rightarrow> nat \<Rightarrow> nat \<Rightarrow> nat \<Rightarrow> bool" for f where
  ex_use: "i < length (bb_code f b) \<Longrightarrow> r \<in> use_set (n_unique_regs f) (bb_code f b ! i) \<Longrightarrow> live_exec f b i r"
| ex_next: "i < length (bb_code f b) \<Longrightarrow> r \<notin> def_set (n_unique_regs f) (bb_code f b ! i) \<Longrightarrow>
    live_exec f b (Suc i) r \<Longrightarrow> live_exec f b i r"
| ex_branch: "i < length (bb_code f b) \<Longrightarrow> mi_has_bb_ref (bb_code f b ! i) \<Longrightarrow>
    r \<notin> def_set (n_unique_regs f) (bb_code f b ! i) \<Longrightarrow>
    live_exec f (mi_bb_ref (bb_code f b ! i)) 0 r \<Longrightarrow> live_exec f b i r"

text \<open>The form \<^verbatim>\<open>LegalizeBBForm\<close> establishes: from the first branch of a block on, nothing is defined.\<close>

primrec code_branches_last :: "nat \<Rightarrow> MInstr list \<Rightarrow> bool" where
  "code_branches_last n [] = True"
| "code_branches_last n (x # xs) = (if mi_has_bb_ref x then killed n (x # xs) = {} else code_branches_last n xs)"

definition branches_last :: "MFunc \<Rightarrow> bool" where
  "branches_last f \<longleftrightarrow> (\<forall>bb \<in> set (mf_bbs f). code_branches_last (n_unique_regs f) (bb_instrs bb))"

lemma code_branches_last_drop:
  "code_branches_last n xs \<Longrightarrow> i < length xs \<Longrightarrow> mi_has_bb_ref (xs ! i) \<Longrightarrow> killed n (drop i xs) = {}"
proof (induction xs arbitrary: i)
  case (Cons x xs)
  show ?case
  proof (cases i)
    case 0
    then show ?thesis using Cons.prems by simp
  next
    case (Suc j)
    show ?thesis
    proof (cases "mi_has_bb_ref x")
      case True
      then have "killed n xs = {}" using Cons.prems(1) by (simp add: killed_def)
      then show ?thesis using Suc set_drop_subset[of j xs] by (auto simp: killed_def)
    qed (use Cons Suc in simp)
  qed
qed simp

lemma target_nth: "i < length xs \<Longrightarrow> mi_has_bb_ref (xs ! i) \<Longrightarrow> mi_bb_ref (xs ! i) \<in> set (targets xs)"
  by (auto simp: targets_def)

lemma live_exec_at:
  assumes "branches_last f" "func_fits f"
  shows "live_exec f b i r \<Longrightarrow> b < length (mf_bbs f) \<Longrightarrow> live_at f b i r"
proof (induction rule: live_exec.induct)
  case (ex_branch i b r)
  have t: "mi_bb_ref (bb_code f b ! i) \<in> set (targets (bb_code f b))"
    by (rule target_nth[OF ex_branch.hyps(1,2)])
  then have "mi_bb_ref (bb_code f b ! i) < length (mf_bbs f)"
    using func_fits_bb(2)[OF assms(2) ex_branch.prems] flow.succs_in[OF ex_branch.prems] by auto
  then have "live_at f b (length (bb_code f b)) r" using t ex_branch.IH by (intro at_edge)
  moreover have "killed (n_unique_regs f) (drop i (bb_code f b)) = {}"
    using assms(1) ex_branch.prems ex_branch.hyps(1,2)
    by (intro code_branches_last_drop) (auto simp: branches_last_def bb_code_def)
  ultimately show ?case using passed_live_at[of i f b r] ex_branch.hyps(1) by simp
qed (auto intro: live_at.intros)

text \<open>A path that is free of definitions up to \<open>j\<close> extends backwards to the entry of the block.\<close>

lemma live_exec_back:
  "\<forall>k < j. r \<notin> def_set (n_unique_regs f) (bb_code f b ! k) \<Longrightarrow> j < length (bb_code f b) \<Longrightarrow>
    live_exec f b j r \<Longrightarrow> live_exec f b 0 r"
proof (induction j)
  case (Suc j)
  have "live_exec f b j r" by (rule ex_next) (use Suc.prems in simp_all)
  then show ?case using Suc.prems by (intro Suc.IH) simp_all
qed simp

definition local_use :: "MFunc \<Rightarrow> nat \<Rightarrow> nat \<Rightarrow> nat \<Rightarrow> bool" where
  "local_use f b i r \<longleftrightarrow> (\<exists>j. i \<le> j \<and> j < length (bb_code f b) \<and> r \<in> use_set (n_unique_regs f) (bb_code f b ! j)
     \<and> (\<forall>k. i \<le> k \<and> k < j \<longrightarrow> r \<notin> def_set (n_unique_regs f) (bb_code f b ! k)))"

definition passes :: "MFunc \<Rightarrow> nat \<Rightarrow> nat \<Rightarrow> nat \<Rightarrow> bool" where
  "passes f b i r \<longleftrightarrow> (\<forall>k. i \<le> k \<and> k < length (bb_code f b) \<longrightarrow> r \<notin> def_set (n_unique_regs f) (bb_code f b ! k))"

lemma local_use_here: "i < length (bb_code f b) \<Longrightarrow> r \<in> use_set (n_unique_regs f) (bb_code f b ! i) \<Longrightarrow> local_use f b i r"
  unfolding local_use_def by (intro exI[of _ i]) auto

lemma not_def_split: "r \<notin> D i \<Longrightarrow> \<forall>k. Suc i \<le> k \<and> k < j \<longrightarrow> r \<notin> D k \<Longrightarrow> \<forall>k. i \<le> k \<and> k < j \<longrightarrow> r \<notin> D k"
  using Suc_leI by (metis le_neq_implies_less)

lemma local_use_next:
  assumes "r \<notin> def_set (n_unique_regs f) (bb_code f b ! i)" "local_use f b (Suc i) r"
  shows "local_use f b i r"
proof -
  obtain j where j: "Suc i \<le> j" "j < length (bb_code f b)" "r \<in> use_set (n_unique_regs f) (bb_code f b ! j)"
    "\<forall>k. Suc i \<le> k \<and> k < j \<longrightarrow> r \<notin> def_set (n_unique_regs f) (bb_code f b ! k)"
    using assms(2) unfolding local_use_def by blast
  then show ?thesis
    unfolding local_use_def
    using not_def_split[of r "\<lambda>k. def_set (n_unique_regs f) (bb_code f b ! k)" i j] assms(1)
    by (intro exI[of _ j]) simp
qed

lemma passes_next:
  "r \<notin> def_set (n_unique_regs f) (bb_code f b ! i) \<Longrightarrow> passes f b (Suc i) r \<Longrightarrow> passes f b i r"
  unfolding passes_def by (rule not_def_split[where D = "\<lambda>k. def_set (n_unique_regs f) (bb_code f b ! k)"])

lemma live_exec_entry:
  assumes "local_use f b 0 r \<or> passes f b 0 r \<and> (\<exists>c \<in> set (targets (bb_code f b)). live_exec f c 0 r)"
  shows "live_exec f b 0 r"
  using assms
proof (elim disjE conjE bexE)
  assume "local_use f b 0 r"
  then obtain j where "j < length (bb_code f b)" "r \<in> use_set (n_unique_regs f) (bb_code f b ! j)"
    "\<forall>k < j. r \<notin> def_set (n_unique_regs f) (bb_code f b ! k)"
    unfolding local_use_def by auto
  then show ?thesis using live_exec_back[of j r f b] ex_use[of j f b r] by blast
next
  fix c
  assume p: "passes f b 0 r" and c: "c \<in> set (targets (bb_code f b))" "live_exec f c 0 r"
  from c(1) obtain j where j: "j < length (bb_code f b)" "mi_has_bb_ref (bb_code f b ! j)" "c = mi_bb_ref (bb_code f b ! j)"
    by (auto simp: targets_def in_set_conv_nth)
  have nd: "r \<notin> def_set (n_unique_regs f) (bb_code f b ! k)" if "k < length (bb_code f b)" for k
    using p that by (simp add: passes_def)
  then show ?thesis
    using live_exec_back[of j r f b] ex_branch[of j f b r] j c(2) by simp
qed

lemma live_at_split:
  "live_at f b i r \<Longrightarrow> local_use f b i r \<or> passes f b i r \<and> (\<exists>c \<in> set (targets (bb_code f b)). live_exec f c 0 r)"
proof (induction rule: live_at.induct)
  case (at_use i b r)
  then show ?case by (simp add: local_use_here)
next
  case (at_next i b r)
  then show ?case using local_use_next passes_next by blast
next
  case (at_edge c b r)
  then have "live_exec f c 0 r" by (intro live_exec_entry) blast
  then show ?case using at_edge.hyps(1) by (auto simp: passes_def)
qed

lemma live_at_exec: "live_at f b 0 r \<Longrightarrow> live_exec f b 0 r"
  by (rule live_exec_entry) (rule live_at_split)

section \<open>A sample\<close>

definition live_sample :: MFunc where
  "live_sample = \<lparr>mf_bbs =
     [\<lparr>bb_instrs = [mk_instr (GArith GArith_add2) [MReg (VirtR Ty_Int64 2) Ty_Int64, MImm64 5], MInstr_jmp 1]\<rparr>,
      \<lparr>bb_instrs = [mk_instr (GArith GArith_add2) [MReg (VirtR Ty_Int64 1) Ty_Int64, MReg (VirtR Ty_Int64 2) Ty_Int64],
         mk_instr (GBase GBase_ret) [MReg (VirtR Ty_Int64 1) Ty_Int64]]\<rparr>],
     mf_args = [VirtR Ty_Int64 1, VirtR Ty_Int64 2]\<rparr>"

lemmas sample_defs = live_sample_def mk_instr_def MInstr_jmp_def MReg_def MImm64_def marg0_def retype_def

lemma live_sample_regs: "n_unique_regs live_sample = numRegs + 3"
  by (simp add: n_unique_regs_def max_vreg_id_def sample_defs max_arg_id_def max_if_virtual_def is_concrete_def
      upt_conv_Cons numeral_2_eq_2)

lemma live_sample_fits: "func_fits live_sample"
  unfolding func_fits_def live_sample_regs
  by (auto simp: all_instrs_def sample_defs args_fit_def reg_to_uid_def numRegs_def less_Suc_eq
      numeral_eq_Suc vreg0_def)

lemma live_sample_last: "branches_last live_sample"
  unfolding branches_last_def live_sample_regs
  by (simp add: sample_defs killed_def def_set_def update_def_def bs_alpha_new)

section \<open>What liveness means for the values of registers\<close>

text \<open>The function on a machine: at an instruction of a block, with registers and the rest of the state.\<close>

fun machine_step :: "('v, 'm) machine \<Rightarrow> MFunc \<Rightarrow> nat \<times> nat \<times> 'v regs \<times> 'm \<Rightarrow> (nat \<times> nat \<times> 'v regs \<times> 'm) option" where
  "machine_step sem f (b, i, rs, m) =
     (if i < length (bb_code f b)
      then (let x = bb_code f b ! i; (rs', m', leave) = sem x rs m
            in if leave \<and> mi_has_bb_ref x then Some (mi_bb_ref x, 0, rs', m') else Some (b, Suc i, rs', m'))
      else None)"

fun machine_run :: "('v, 'm) machine \<Rightarrow> MFunc \<Rightarrow> nat \<Rightarrow> nat \<times> nat \<times> 'v regs \<times> 'm \<Rightarrow> (nat \<times> nat \<times> 'v regs \<times> 'm) option" where
  "machine_run sem f 0 s = Some s"
| "machine_run sem f (Suc k) s = (case machine_step sem f s of None \<Rightarrow> None | Some s' \<Rightarrow> machine_run sem f k s')"

fun observe :: "nat \<times> nat \<times> 'v regs \<times> 'm \<Rightarrow> nat \<times> nat \<times> 'm" where
  "observe (b, i, rs, m) = (b, i, m)"

text \<open>The registers needed along the paths of the machine, for a fixed number of registers: a branch leaves where it
  stands.\<close>

inductive flows :: "nat \<Rightarrow> MFunc \<Rightarrow> nat \<Rightarrow> nat \<Rightarrow> nat \<Rightarrow> bool" for n f where
  fl_use: "i < length (bb_code f b) \<Longrightarrow> r \<in> need_set n (bb_code f b ! i) \<Longrightarrow> flows n f b i r"
| fl_next: "i < length (bb_code f b) \<Longrightarrow> r \<notin> def_set n (bb_code f b ! i) \<Longrightarrow> flows n f b (Suc i) r \<Longrightarrow> flows n f b i r"
| fl_branch: "i < length (bb_code f b) \<Longrightarrow> mi_has_bb_ref (bb_code f b ! i) \<Longrightarrow> r \<notin> def_set n (bb_code f b ! i) \<Longrightarrow>
    flows n f (mi_bb_ref (bb_code f b ! i)) 0 r \<Longrightarrow> flows n f b i r"

lemma flows_needed_at:
  assumes "branches_last f" "func_fits f"
  shows "flows (n_unique_regs f) f b i r \<Longrightarrow> b < length (mf_bbs f) \<Longrightarrow> needed_at f b i r"
proof (induction rule: flows.induct)
  case (fl_branch i b r)
  have t: "mi_bb_ref (bb_code f b ! i) \<in> set (targets (bb_code f b))"
    by (rule target_nth[OF fl_branch.hyps(1,2)])
  then have "mi_bb_ref (bb_code f b ! i) < length (mf_bbs f)"
    using func_fits_bb(2)[OF assms(2) fl_branch.prems] flow.succs_in[OF fl_branch.prems] by auto
  then have "needed_at f b (length (bb_code f b)) r" using t fl_branch.IH by (intro nd_edge)
  moreover have "killed (n_unique_regs f) (drop i (bb_code f b)) = {}"
    using assms(1) fl_branch.prems fl_branch.hyps(1,2)
    by (intro code_branches_last_drop) (auto simp: branches_last_def bb_code_def)
  ultimately show ?case using passed_needed_at[of i f b r] fl_branch.hyps(1) by simp
qed (auto intro: needed_at.intros)

lemma branch_in_range:
  assumes "func_fits f" "b < length (mf_bbs f)" "i < length (bb_code f b)" "mi_has_bb_ref (bb_code f b ! i)"
  shows "mi_bb_ref (bb_code f b ! i) < length (mf_bbs f)"
  using target_nth[OF assms(3,4)] func_fits_bb(2)[OF assms(1,2)] flow.succs_in[OF assms(2)] by auto

lemma machine_run_agree:
  assumes f: "func_fits f" and sem: "\<forall>x \<in> set (all_instrs f). instr_respects (n_unique_regs f) sem x"
  shows "b < length (mf_bbs f) \<Longrightarrow> agree {r. flows (n_unique_regs f) f b i r} rs rs' \<Longrightarrow>
    map_option observe (machine_run sem f k (b, i, rs, m)) = map_option observe (machine_run sem f k (b, i, rs', m))"
proof (induction k arbitrary: b i rs rs' m)
  case (Suc k)
  let ?n = "n_unique_regs f" and ?x = "bb_code f b ! i"
  show ?case
  proof (cases "i < length (bb_code f b)")
    case True
    obtain rs1 m1 l where s: "sem ?x rs m = (rs1, m1, l)" by (metis prod_cases3)
    obtain rs2 m2 l' where s': "sem ?x rs' m = (rs2, m2, l')" by (metis prod_cases3)
    have x: "instr_respects ?n sem ?x" using sem bb_code_instr[OF Suc.prems(1)] True by simp
    have "agree (need_set ?n ?x) rs rs'" using Suc.prems(2) True by (auto simp: agree_def intro: fl_use)
    note same = respects_step[OF x this s s']
    have next_ok: "agree A rs1 rs2" if "A - def_set ?n ?x \<subseteq> {r. flows ?n f b i r}" for A
      using that same(3-5) Suc.prems(2) unfolding agree_def by (metis ComplI DiffI mem_Collect_eq subsetD)
    show ?thesis
    proof (cases "l \<and> mi_has_bb_ref ?x")
      case leave: True
      have "agree {r. flows ?n f (mi_bb_ref ?x) 0 r} rs1 rs2"
        by (rule next_ok) (use True leave in \<open>auto intro: fl_branch\<close>)
      from Suc.IH[OF branch_in_range[OF f Suc.prems(1) True] this, of m1] show ?thesis
        using True leave same(1,2) by (simp add: s s' Let_def)
    next
      case stay: False
      have "agree {r. flows ?n f b (Suc i) r} rs1 rs2"
        by (rule next_ok) (use True in \<open>auto intro: fl_next\<close>)
      from Suc.IH[OF Suc.prems(1) this, of m1] show ?thesis using True stay same(1,2) by (auto simp add: s s' Let_def)
    qed
  qed simp
qed simp

section \<open>Properties\<close>

lemma live_at_used:
  assumes "func_fits f"
  shows "live_at f b i r \<Longrightarrow> b < length (mf_bbs f) \<Longrightarrow>
    \<exists>b' i'. b' < length (mf_bbs f) \<and> i' < length (bb_code f b') \<and> r \<in> use_set (n_unique_regs f) (bb_code f b' ! i')"
proof (induction rule: live_at.induct)
  case (at_edge c b r)
  then show ?case using func_fits_bb(2)[OF assms at_edge.prems] flow.succs_in[OF at_edge.prems] by auto
qed blast+

text \<open>The control flow graph is consistent in both directions, and in both orientations: block \<open>c\<close> is
  a successor of \<open>b\<close> exactly when \<open>b\<close> is a predecessor of \<open>c\<close>, exactly when a branch of \<open>b\<close> names \<open>c\<close>
  (of \<open>c\<close> names \<open>b\<close>, when the graph is built reversed).\<close>

theorem cfg_edges_mirror:
  assumes "b < length (mf_bbs f)" "c < length (mf_bbs f)"
  shows "(c \<in> set (cfg_succ (cfg_bbrs (cfg_update f reverse) ! b)) \<longleftrightarrow> b \<in> set (cfg_pred (cfg_bbrs (cfg_update f reverse) ! c)))
    \<and> (c \<in> set (cfg_succ (cfg_bbrs (cfg_update f reverse) ! b)) \<longleftrightarrow>
        (if reverse then b \<in> set (targets (bb_code f c)) else c \<in> set (targets (bb_code f b))))
    \<and> length (cfg_bbrs (cfg_update f reverse)) = length (mf_bbs f)"
  using assms by (auto simp: cfg_update_def cfg_edges_nth cfg_swap_def)

theorem cfg_edges_mirror_witness:
  "1 \<in> set (cfg_succ (cfg_bbrs (cfg_update live_sample False) ! 0))
   \<and> 0 \<in> set (cfg_succ (cfg_bbrs (cfg_update live_sample True) ! 1))"
proof -
  have n: "0 < length (mf_bbs live_sample)" "1 < length (mf_bbs live_sample)" by (simp_all add: live_sample_def)
  have "1 \<in> set (targets (bb_code live_sample 0))" by (simp add: targets_def bb_code_def sample_defs)
  then show ?thesis
    using cfg_edges_mirror[OF n, of False] cfg_edges_mirror[OF n(2,1), of True] by auto
qed

text \<open>C13: The worklist loop of \<^verbatim>\<open>LiveVariables::update\<close> ends, for any control flow graph with loops
  in it, and its result is exact: at the entry of each block the analysis has the registers with a path to
  a use that meets no definition before it, at the exit the ones such paths start from behind the block;
  \<open>live\<close> adds the ones the block defines. Registers must have a bit and branch targets must exist.\<close>

theorem live_variables_exact:
  assumes "func_fits f"
  shows "\<exists>lv. live_update (cfg_update f False) f = Some lv \<and> (\<forall>b < length (mf_bbs f).
     bs_alpha (lv_liveIn lv ! b) = {r. live_at f b 0 r}
     \<and> bs_alpha (lv_liveOut lv ! b) = {r. live_at f b (length (bb_code f b)) r}
     \<and> bs_alpha (lv_live lv ! b) = {r. live_at f b 0 r \<or> live_at f b (length (bb_code f b)) r
         \<or> r \<in> killed (n_unique_regs f) (bb_code f b)})"
proof -
  have "A = {r. P r} \<Longrightarrow> B = {r. Q r} \<Longrightarrow> C = A \<union> B \<union> K \<Longrightarrow> C = {r. P r \<or> Q r \<or> r \<in> K}"
    for A B C K :: "nat set" and P Q by auto
  then show ?thesis
    using live_update_correct[OF assms] unfolding bb_kill_def by metis
qed

lemma sample_uses:
  "use_set (n_unique_regs live_sample) (bb_code live_sample 0 ! 0) = {reg_to_uid (VirtR Ty_Int64 2)}"
  "use_set (n_unique_regs live_sample) (bb_code live_sample 0 ! 1) = {}"
  "use_set (n_unique_regs live_sample) (bb_code live_sample 1 ! 0) = {reg_to_uid (VirtR Ty_Int64 1), reg_to_uid (VirtR Ty_Int64 2)}"
  "use_set (n_unique_regs live_sample) (bb_code live_sample 1 ! 1) \<subseteq> {reg_to_uid (VirtR Ty_Int64 1), sp_uid}"
  unfolding live_sample_regs
  by (auto simp: bb_code_def sample_defs use_set_def update_uses_def use_arg_def use_mem_def set_sp_def update_uses_arg_def
      bs_wf_alpha_set bs_alpha_new reg_to_uid_def numRegs_def)

lemma sample_live:
  assumes "live_at live_sample b i r" "b < 2"
  shows "r \<in> {reg_to_uid (VirtR Ty_Int64 1), reg_to_uid (VirtR Ty_Int64 2), sp_uid}"
proof -
  have len: "length (mf_bbs live_sample) = 2" "length (bb_code live_sample 0) = 2" "length (bb_code live_sample 1) = 2"
    by (simp_all add: live_sample_def bb_code_def)
  obtain b' i' where *: "b' < 2" "i' < length (bb_code live_sample b')"
    "r \<in> use_set (n_unique_regs live_sample) (bb_code live_sample b' ! i')"
    using live_at_used[OF live_sample_fits assms(1)] assms(2) unfolding len by blast
  then consider "b' = 0" "i' = 0" | "b' = 0" "i' = 1" | "b' = 1" "i' = 0" | "b' = 1" "i' = 1"
    using len by (auto simp: less_2_cases_iff)
  then show ?thesis using *(3) sample_uses by cases auto
qed

theorem live_variables_exact_witness:
  "\<exists>lv. live_update (cfg_update live_sample False) live_sample = Some lv
     \<and> reg_to_uid (VirtR Ty_Int64 1) \<in> bs_alpha (lv_liveIn lv ! 1) \<and> reg_to_uid (VirtR Ty_Int64 1) \<in> bs_alpha (lv_live lv ! 1)"
proof -
  have n: "1 < length (mf_bbs live_sample)" by (simp add: live_sample_def)
  have "live_at live_sample 1 0 (reg_to_uid (VirtR Ty_Int64 1))"
    by (rule at_use) (simp add: bb_code_def live_sample_def, simp only: sample_uses(3) insertI1)
  then show ?thesis using live_variables_exact[OF live_sample_fits] n by auto
qed

text \<open>C15: A branch in the middle of a block is treated as if it left at the end of the block. That is exact for
  the blocks \<^verbatim>\<open>LegalizeBBForm\<close> makes, where nothing is defined from the first branch on: the live
  registers at the entry of a block are those of the paths the machine takes, a branch leaving where it
  stands.\<close>

theorem live_in_machine_paths:
  assumes "func_fits f" "branches_last f" "b < length (mf_bbs f)" "live_update (cfg_update f False) f = Some lv"
  shows "bs_alpha (lv_liveIn lv ! b) = {r. live_exec f b 0 r}"
proof -
  have "bs_alpha (lv_liveIn lv ! b) = {r. live_at f b 0 r}"
    using live_update_correct[OF assms(1)] assms(3,4) by auto
  then show ?thesis using live_exec_at[OF assms(2,1) _ assms(3)] live_at_exec by blast
qed

theorem live_in_machine_paths_witness:
  "\<exists>lv. live_update (cfg_update live_sample False) live_sample = Some lv
     \<and> bs_alpha (lv_liveIn lv ! 0) = {r. live_exec live_sample 0 0 r}"
proof -
  have n: "0 < length (mf_bbs live_sample)" by (simp add: live_sample_def)
  obtain lv where "live_update (cfg_update live_sample False) live_sample = Some lv"
    using live_update_correct[OF live_sample_fits] by blast
  then show ?thesis using live_in_machine_paths[OF live_sample_fits live_sample_last n] by blast
qed

text \<open>C14: Only the registers the analysis calls live matter: from the entry of a block, two register files
  that agree on its \<open>liveIn\<close> give runs that take the same path and have the same effects, however many steps
  they make, on any machine whose instructions read and write the registers the documentation of the instructions
  names (\<open>documented_machine\<close>, defined without the liveness tables; a conditional move reads its destination). So a
  register that is not live at the entry may be reused there. The code must name the destination of a conditional move
  in its block before the move, and have no gather and no physical call (\<open>machine_code\<close>): \<^verbatim>\<open>update_uses\<close> does
  not mark that destination.\<close>

theorem dead_registers_irrelevant:
  assumes "func_fits f" "branches_last f" "machine_code f" "b < length (mf_bbs f)"
    "live_update (cfg_update f False) f = Some lv"
    "documented_machine sem" "agree (bs_alpha (lv_liveIn lv ! b)) rs rs'"
  shows "map_option observe (machine_run sem f k (b, 0, rs, m)) = map_option observe (machine_run sem f k (b, 0, rs', m))"
proof -
  have "bs_alpha (lv_liveIn lv ! b) = {r. live_at f b 0 r}"
    using live_update_correct[OF assms(1)] assms(4,5) by auto
  then have "flows (n_unique_regs f) f b 0 r \<Longrightarrow> r \<in> bs_alpha (lv_liveIn lv ! b)" for r
    using flows_needed_at[OF assms(2,1) _ assms(4)] needed_at_entry[OF assms(1,3,4)] by blast
  then have "agree {r. flows (n_unique_regs f) f b 0 r} rs rs'" using assms(7) by (auto simp: agree_def)
  moreover have "\<forall>x \<in> set (all_instrs f). instr_respects (n_unique_regs f) sem x"
    using machine_code_respects[OF assms(6,1,3)] by blast
  ultimately show ?thesis by (intro machine_run_agree[OF assms(1) _ assms(4)])
qed

lemma sample_instrs:
  "all_instrs live_sample = [mk_instr (GArith GArith_add2) [MReg (VirtR Ty_Int64 2) Ty_Int64, MImm64 5], MInstr_jmp 1,
     mk_instr (GArith GArith_add2) [MReg (VirtR Ty_Int64 1) Ty_Int64, MReg (VirtR Ty_Int64 2) Ty_Int64],
     mk_instr (GBase GBase_ret) [MReg (VirtR Ty_Int64 1) Ty_Int64]]"
  by (simp add: all_instrs_def live_sample_def)

lemma live_sample_machine: "machine_code live_sample"
proof -
  have w: "writes_listed x \<and> mi_n_args x \<le> 4 \<and> \<not> keeps_destination x" if "x \<in> set (all_instrs live_sample)" for x
    using that unfolding sample_instrs
    by (auto simp: writes_listed_def operands_ok_def is_physical_call_def is_gather_def keeps_destination_def mk_instr_def
        MInstr_jmp_def)
  then have "machine_reads x \<subseteq> use_set (n_unique_regs live_sample) x" if "x \<in> set (all_instrs live_sample)" for x
    using live_sample_fits that by (intro reads_machine) (auto simp: func_fits_def)
  then show ?thesis using w by (auto simp: machine_code_def all_instrs_def intro!: reads_marked_plain)
qed

theorem dead_registers_irrelevant_witness:
  "map_option observe (machine_run toy_machine live_sample 3 (0, 0, \<lambda>_. 7, 1))
   = map_option observe (machine_run toy_machine live_sample 3 (0, 0, (\<lambda>_. 7)(reg_to_uid (ConcR Ty_Int64 CReg_A) := 9), 1))"
proof -
  have n: "0 < length (mf_bbs live_sample)" by (simp add: live_sample_def)
  obtain lv where lv: "live_update (cfg_update live_sample False) live_sample = Some lv"
    "bs_alpha (lv_liveIn lv ! 0) = {r. live_at live_sample 0 0 r}"
    using live_update_correct[OF live_sample_fits] n by blast
  have "agree (bs_alpha (lv_liveIn lv ! 0)) (\<lambda>_. 7) ((\<lambda>_. 7)(reg_to_uid (ConcR Ty_Int64 CReg_A) := (9::nat)))"
    using sample_live[of 0 0 "reg_to_uid (ConcR Ty_Int64 CReg_A)"]
    by (auto simp: agree_def lv(2) reg_to_uid_def numRegs_def)
  then show ?thesis
    by (rule dead_registers_irrelevant[OF live_sample_fits live_sample_last live_sample_machine n lv(1) toy_machine_documented])
qed

lemma fold_mono_max:
  fixes g :: "'a \<Rightarrow> nat \<Rightarrow> nat"
  assumes "\<And>x m. m \<le> g x m"
  shows "m \<le> fold g xs m" "x \<in> set xs \<Longrightarrow> (\<And>m. v \<le> g x m) \<Longrightarrow> v \<le> fold g xs m"
proof -
  show up: "m \<le> fold g xs m" for m xs
    by (induction xs arbitrary: m) (auto intro: order_trans[OF assms])
  show "x \<in> set xs \<Longrightarrow> (\<And>m. v \<le> g x m) \<Longrightarrow> v \<le> fold g xs m"
    by (induction xs arbitrary: m) (auto intro: order_trans[OF _ up])
qed

lemma max_arg_id_mono: "m \<le> max_arg_id a m"
  by (simp add: max_arg_id_def max_if_virtual_def le_max_iff_disj split: ArgumentType.split)

lemma max_arg_id_covers:
  "ma_type a \<notin> {AT_MemLabelVreg, AT_MemLabelVregScale} \<Longrightarrow> r \<in> set (arg_regs a) \<Longrightarrow> \<not> is_concrete r \<Longrightarrow> virt_id r \<le> max_arg_id a m"
  by (auto simp: max_arg_id_def max_if_virtual_def arg_regs_def split: ArgumentType.splits if_splits)

lemma concrete_uid: "is_concrete r \<Longrightarrow> reg_to_uid r < numRegs"
  by (cases r; rename_tac t c; case_tac c) (auto simp: is_concrete_def reg_to_uid_def numRegs_def)

definition label_sample :: MFunc where
  "label_sample = \<lparr>mf_bbs = [\<lparr>bb_instrs =
     [mk_instr (GBase GBase_mov) [MReg (VirtR Ty_Int64 1) Ty_Int64, MemLI ''tbl'' (VirtR Ty_Int64 5) Ty_Int64]]\<rparr>],
     mf_args = []\<rparr>"

text \<open>C16: The bit sets have a bit for every register an operand names: the largest virtual number is found in
  every kind of operand but a label with an index register, which \<^verbatim>\<open>max_vreg_id\<close> does not look at
  although \<^verbatim>\<open>update_uses\<close> sets the bit of that register; the sample shows one beyond the end of the
  sets.\<close>

theorem unique_regs_cover:
  assumes "x \<in> set (all_instrs f)" "i < mi_n_args x" "r \<in> set (arg_regs (mi_args x ! i))"
  shows "(ma_type (mi_args x ! i) \<notin> {AT_MemLabelVreg, AT_MemLabelVregScale} \<longrightarrow> reg_to_uid r < n_unique_regs f)
    \<and> \<not> reg_to_uid (VirtR Ty_Int64 5) < n_unique_regs label_sample"
proof -
  let ?gi = "\<lambda>x i. max_arg_id (mi_args x ! i)"
  let ?gx = "\<lambda>x. fold (?gi x) [0..<mi_n_args x]"
  let ?gb = "\<lambda>bb. fold ?gx (bb_instrs bb)"
  have mono: "m \<le> ?gx x m" "m \<le> ?gb bb m" for m x bb
    by (rule fold_mono_max, rule max_arg_id_mono, rule fold_mono_max, rule fold_mono_max, rule max_arg_id_mono)
  obtain bb where bb: "bb \<in> set (mf_bbs f)" "x \<in> set (bb_instrs bb)"
    using assms(1) by (auto simp: all_instrs_def)
  have "virt_id r \<le> max_vreg_id f" if "ma_type (mi_args x ! i) \<notin> {AT_MemLabelVreg, AT_MemLabelVregScale}" "\<not> is_concrete r"
  proof -
    have "virt_id r \<le> ?gx x m" for m
      using assms(2) max_arg_id_covers[OF that(1) assms(3) that(2)]
      by (intro fold_mono_max(2)[where g = "?gi x" and x = i] max_arg_id_mono) simp_all
    then have "virt_id r \<le> ?gb bb m" for m by (intro fold_mono_max(2)[OF mono(1) bb(2)])
    then show ?thesis unfolding max_vreg_id_def by (intro fold_mono_max(2)[OF mono(2) bb(1)])
  qed
  then have "ma_type (mi_args x ! i) \<notin> {AT_MemLabelVreg, AT_MemLabelVregScale} \<longrightarrow> reg_to_uid r < n_unique_regs f"
    using concrete_uid[of r] by (cases r) (auto simp: reg_to_uid_def n_unique_regs_def is_concrete_def)
  moreover have "n_unique_regs label_sample = numRegs + 2"
    by (simp add: n_unique_regs_def max_vreg_id_def sample_defs label_sample_def MemLI_def max_arg_id_def max_if_virtual_def
        is_concrete_def upt_conv_Cons numeral_2_eq_2)
  ultimately show ?thesis by (simp add: reg_to_uid_def)
qed

theorem unique_regs_cover_witness: "reg_to_uid (VirtR Ty_Int64 1) < n_unique_regs live_sample"
proof -
  let ?x = "mk_instr (GArith GArith_add2) [MReg (VirtR Ty_Int64 1) Ty_Int64, MReg (VirtR Ty_Int64 2) Ty_Int64]"
  have "?x \<in> set (all_instrs live_sample)" by (simp add: all_instrs_def live_sample_def)
  moreover have "0 < mi_n_args ?x" "VirtR Ty_Int64 1 \<in> set (arg_regs (mi_args ?x ! 0))"
    "ma_type (mi_args ?x ! 0) \<notin> {AT_MemLabelVreg, AT_MemLabelVregScale}"
    by (simp_all add: sample_defs arg_regs_def)
  ultimately show ?thesis using unique_regs_cover[of ?x live_sample 0] by blast
qed

end
