(* ===== verification/RegColl.thy ===== *)
theory RegColl
  imports MIRMachine
begin

text \<open>
  The interference graph of the register allocator: \<^verbatim>\<open>reg_coll\<close> of
  \<^verbatim>\<open>src/src/mir/analysis/live_variables.cpp\<close>, which walks every block backwards from its live
  registers. The main results: the graph is symmetric, and a register that an instruction writes is joined
  to every register that is live behind the instruction.
\<close>

section \<open>The graph\<close>

text \<open>\<^verbatim>\<open>TMap<VReg, TSet<size_t>>\<close>. Keys are compared with \<^verbatim>\<open>VReg::operator==\<close>, that is by register number;
  \<^verbatim>\<open>operator[]\<close> inserts an empty set where there is none.\<close>

type_synonym collisions = "nat \<Rightarrow> nat set option"

definition coll_at :: "collisions \<Rightarrow> VReg \<Rightarrow> nat set" where
  "coll_at m r = (case m (reg_to_uid r) of None \<Rightarrow> {} | Some s \<Rightarrow> s)"

definition coll_touch :: "VReg \<Rightarrow> collisions \<Rightarrow> collisions" where
  "coll_touch r m = m(reg_to_uid r \<mapsto> coll_at m r)"

definition coll_insert :: "VReg \<Rightarrow> nat \<Rightarrow> collisions \<Rightarrow> collisions" where
  "coll_insert r k m = m(reg_to_uid r \<mapsto> insert k (coll_at m r))"

definition coll_used :: "MArgument \<Rightarrow> collisions \<Rightarrow> collisions" where
  "coll_used a m = (case ma_type a of
     AT_Imm \<Rightarrow> m | AT_Label \<Rightarrow> m | AT_MemLabel \<Rightarrow> m | AT_MemImmLabel \<Rightarrow> m | AT_MemImm \<Rightarrow> m | AT_StackSlot \<Rightarrow> m
   | AT_VReg \<Rightarrow> coll_touch (ma_reg a) m | AT_MemVReg \<Rightarrow> coll_touch (ma_reg a) m | AT_MemImmVReg \<Rightarrow> coll_touch (ma_reg a) m
   | AT_MemVRegVReg \<Rightarrow> coll_touch (ma_indx a) (coll_touch (ma_reg a) m)
   | AT_MemImmVRegVReg \<Rightarrow> coll_touch (ma_indx a) (coll_touch (ma_reg a) m)
   | AT_MemVRegVRegScale \<Rightarrow> coll_touch (ma_indx a) (coll_touch (ma_reg a) m)
   | AT_MemImmVRegVRegScale \<Rightarrow> coll_touch (ma_indx a) (coll_touch (ma_reg a) m)
   | AT_MemLabelVregScale \<Rightarrow> coll_touch (ma_indx a) m | AT_MemLabelVreg \<Rightarrow> coll_touch (ma_indx a) m
   | AT_MemImmVRegScale \<Rightarrow> coll_touch (ma_indx a) m)"

definition coll_init :: "MFunc \<Rightarrow> collisions" where
  "coll_init f =
     fold (\<lambda>bb. fold (\<lambda>x. fold (\<lambda>i. coll_used (mi_args x ! i)) [0..<mi_n_args x]) (bb_instrs bb)) (mf_bbs f) Map.empty"

section \<open>One instruction, backwards\<close>

text \<open>The graph, \<^verbatim>\<open>curr_live\<close>, the blocks whose weight is added to \<^verbatim>\<open>call_crossings\<close> of a register (their
  sum is a float), and whether no assertion failed.\<close>

record coll_state =
  cs_ranges :: collisions
  cs_live :: bitset
  cs_cross :: "nat \<Rightarrow> nat list"
  cs_ok :: bool

text \<open>\<^verbatim>\<open>for (auto r : curr_live) { ranges[uid_to_reg(r)].insert(reg_to_uid(w)); ranges[w].insert(r); }\<close>\<close>

definition coll_edges :: "VReg \<Rightarrow> bitset \<Rightarrow> collisions \<Rightarrow> collisions" where
  "coll_edges w live m = fold (\<lambda>r m. coll_insert w r (coll_insert (uid_to_reg r) (reg_to_uid w) m)) (bs_elems live) m"

definition coll_edges2 :: "VReg \<Rightarrow> VReg \<Rightarrow> bitset \<Rightarrow> collisions \<Rightarrow> collisions" where
  "coll_edges2 v w live m =
     fold (\<lambda>r m. coll_insert w r (coll_insert v r
       (coll_insert (uid_to_reg r) (reg_to_uid w) (coll_insert (uid_to_reg r) (reg_to_uid v) m)))) (bs_elems live) m"

definition coll_pair :: "VReg \<Rightarrow> VReg \<Rightarrow> collisions \<Rightarrow> collisions" where
  "coll_pair v w m = coll_insert w (reg_to_uid v) (coll_insert v (reg_to_uid w) m)"

definition is_block_jump :: "GOpcode \<Rightarrow> bool" where
  "is_block_jump op = (op \<in> GJmp ` {GJmp_cjmp_int_slt, GJmp_cjmp_int_sge, GJmp_cjmp_int_sle, GJmp_cjmp_int_sgt,
     GJmp_cjmp_int_ult, GJmp_cjmp_int_ule, GJmp_cjmp_int_ugt, GJmp_cjmp_int_uge, GJmp_cjmp_int_ne, GJmp_cjmp_int_eq,
     GJmp_cjmp_flt_oeq, GJmp_cjmp_flt_ogt, GJmp_cjmp_flt_oge, GJmp_cjmp_flt_olt, GJmp_cjmp_flt_ole, GJmp_cjmp_flt_one,
     GJmp_cjmp_flt_ord, GJmp_cjmp_flt_uno, GJmp_cjmp_flt_ueq, GJmp_cjmp_flt_ugt, GJmp_cjmp_flt_uge, GJmp_cjmp_flt_ult,
     GJmp_cjmp_flt_ule, GJmp_cjmp_flt_une, GJmp_cjmp, GJmp_jmp})"

definition is_call :: "MInstr \<Rightarrow> bool" where
  "is_call x = (mi_op x = GBase GBase_call \<or> mi_op x = GBase GBase_invoke)"

definition coll_jump :: "MInstr \<Rightarrow> bitset \<Rightarrow> coll_state \<Rightarrow> coll_state" where
  "coll_jump x aliveOut s = (if is_block_jump (mi_op x) then s\<lparr>cs_live := bs_add (cs_live s) aliveOut\<rparr> else s)"

definition coll_cross :: "MInstr \<Rightarrow> nat \<Rightarrow> coll_state \<Rightarrow> coll_state" where
  "coll_cross x b s =
     (if is_call x
      then s\<lparr>cs_cross := fold (\<lambda>r m. if \<not> is_concrete (uid_to_reg r) then m(r := m r @ [b]) else m) (bs_elems (cs_live s)) (cs_cross s)\<rparr>
      else s)"

text \<open>The \<^verbatim>\<open>ret_setup\<close> instructions behind this one pin their return registers.\<close>

definition coll_ret_setup :: "MInstr \<Rightarrow> MInstr list \<Rightarrow> coll_state \<Rightarrow> coll_state" where
  "coll_ret_setup x behind s =
     (if mi_op x = GBase GBase_ret_setup \<and> isReg (mi_args x ! 0) \<and> \<not> is_concrete (ma_reg (mi_args x ! 0))
      then s\<lparr>cs_ranges := fold (\<lambda>later m. if mi_n_args later > 1 \<and> isReg (mi_args later ! 1)
               then coll_pair (ma_reg (mi_args x ! 0)) (ma_reg (mi_args later ! 1)) m else m)
             (takeWhile (\<lambda>y. mi_op y = GBase GBase_ret_setup) behind) (cs_ranges s)\<rparr>
      else s)"

definition coll_def :: "ArgData \<Rightarrow> coll_state \<Rightarrow> coll_state" where
  "coll_def d s =
     (if isReg (snd d)
      then s\<lparr>cs_ranges := coll_edges (ma_reg (snd d)) (cs_live s) (cs_ranges s),
             cs_live := bs_set (reg_to_uid (ma_reg (snd d))) False (cs_live s)\<rparr>
      else s)"

text \<open>The arguments of an indirect call are read at the call; \<open>before\<close> are the instructions in front, last first.\<close>

definition coll_call_arg :: "MInstr \<Rightarrow> coll_state \<Rightarrow> coll_state" where
  "coll_call_arg y s =
     (if mi_n_args y > 1
      then s\<lparr>cs_ok := cs_ok s \<and> isReg (mi_args y ! 1), cs_live := bs_set (reg_to_uid (ma_reg (mi_args y ! 1))) True (cs_live s)\<rparr>
      else s)"

definition coll_call :: "MInstr \<Rightarrow> MInstr list \<Rightarrow> coll_state \<Rightarrow> coll_state" where
  "coll_call x before s =
     (if is_call x \<and> isReg (mi_args x ! 0)
      then fold coll_call_arg (takeWhile (\<lambda>y. mi_op y = GBase GBase_arg_setup) before) s else s)"

definition coll_abs :: "MInstr \<Rightarrow> coll_state \<Rightarrow> coll_state" where
  "coll_abs x s =
     (if mi_op x = GArith GArith_abs \<and> isReg (mi_args x ! 0) \<and> isReg (mi_args x ! 1)
      then s\<lparr>cs_ranges := coll_pair (ma_reg (mi_args x ! 0)) (ma_reg (mi_args x ! 1)) (cs_ranges s)\<rparr> else s)"

definition coll_use_reg :: "VReg \<Rightarrow> coll_state \<Rightarrow> coll_state" where
  "coll_use_reg r s =
     s\<lparr>cs_ranges := coll_edges r (cs_live s) (cs_ranges s), cs_live := bs_set (reg_to_uid r) True (cs_live s)\<rparr>"

definition coll_use_regs :: "VReg \<Rightarrow> VReg \<Rightarrow> coll_state \<Rightarrow> coll_state" where
  "coll_use_regs v w s =
     s\<lparr>cs_ranges := coll_pair v w (coll_edges2 v w (cs_live s) (cs_ranges s)),
       cs_live := bs_set (reg_to_uid w) True (bs_set (reg_to_uid v) True (cs_live s))\<rparr>"

definition coll_use_mem :: "ArgData \<Rightarrow> coll_state \<Rightarrow> coll_state" where
  "coll_use_mem d s = (let a = snd d in case ma_type a of
     AT_Imm \<Rightarrow> s | AT_Label \<Rightarrow> s | AT_MemLabel \<Rightarrow> s | AT_MemImmLabel \<Rightarrow> s | AT_MemImm \<Rightarrow> s | AT_VReg \<Rightarrow> s | AT_StackSlot \<Rightarrow> s
   | AT_MemVReg \<Rightarrow> coll_use_reg (ma_reg a) s | AT_MemImmVReg \<Rightarrow> coll_use_reg (ma_reg a) s
   | AT_MemLabelVregScale \<Rightarrow> coll_use_reg (ma_indx a) s | AT_MemLabelVreg \<Rightarrow> coll_use_reg (ma_indx a) s
   | AT_MemImmVRegScale \<Rightarrow> coll_use_reg (ma_indx a) s
   | AT_MemVRegVReg \<Rightarrow> coll_use_regs (ma_reg a) (ma_indx a) s
   | AT_MemImmVRegVReg \<Rightarrow> coll_use_regs (ma_reg a) (ma_indx a) s
   | AT_MemVRegVRegScale \<Rightarrow> coll_use_regs (ma_reg a) (ma_indx a) s
   | AT_MemImmVRegVRegScale \<Rightarrow> coll_use_regs (ma_reg a) (ma_indx a) s)"

definition coll_use :: "ArgData \<Rightarrow> coll_state \<Rightarrow> coll_state" where
  "coll_use d s = (let a = snd d in case ma_type a of
     AT_Imm \<Rightarrow> s | AT_Label \<Rightarrow> s | AT_MemLabel \<Rightarrow> s | AT_MemImmLabel \<Rightarrow> s | AT_MemImm \<Rightarrow> s | AT_StackSlot \<Rightarrow> s
   | AT_VReg \<Rightarrow> coll_use_reg (ma_reg a) s | AT_MemVReg \<Rightarrow> coll_use_reg (ma_reg a) s | AT_MemImmVReg \<Rightarrow> coll_use_reg (ma_reg a) s
   | AT_MemLabelVregScale \<Rightarrow> coll_use_reg (ma_indx a) s | AT_MemLabelVreg \<Rightarrow> coll_use_reg (ma_indx a) s
   | AT_MemImmVRegScale \<Rightarrow> coll_use_reg (ma_indx a) s
   | AT_MemVRegVReg \<Rightarrow> coll_use_regs (ma_reg a) (ma_indx a) s
   | AT_MemImmVRegVReg \<Rightarrow> coll_use_regs (ma_reg a) (ma_indx a) s
   | AT_MemVRegVRegScale \<Rightarrow> coll_use_regs (ma_reg a) (ma_indx a) s
   | AT_MemImmVRegVRegScale \<Rightarrow> coll_use_regs (ma_reg a) (ma_indx a) s)"

definition coll_instr :: "nat \<Rightarrow> bitset \<Rightarrow> MInstr list \<Rightarrow> nat \<Rightarrow> coll_state \<Rightarrow> coll_state" where
  "coll_instr b aliveOut xs i s =
     (let x = xs ! i;
          s = coll_jump x aliveOut s;
          s = coll_cross x b s;
          s = coll_ret_setup x (drop (Suc i) xs) s;
          s = fold coll_def (written_args x) s;
          s = coll_call x (rev (take i xs)) s;
          s = coll_abs x s;
          s = fold coll_use_mem (written_args x) s
      in fold coll_use (read_args x) s)"

definition coll_bb :: "LiveVariables \<Rightarrow> MFunc \<Rightarrow> nat \<Rightarrow> coll_state \<Rightarrow> coll_state" where
  "coll_bb lv f b s =
     (let xs = bb_instrs (mf_bbs f ! b); out = lv_liveOut lv ! b
      in fold (coll_instr b out xs) (rev [0..<length xs]) (s\<lparr>cs_live := out\<rparr>))"

definition reg_coll :: "MFunc \<Rightarrow> (collisions \<times> (nat \<Rightarrow> nat list)) option" where
  "reg_coll f = (case live_update (cfg_update f False) f of
     None \<Rightarrow> None
   | Some lv \<Rightarrow>
       (let s = fold (coll_bb lv f) [0..<length (mf_bbs f)]
                  \<lparr>cs_ranges = coll_init f, cs_live = bs_new (n_unique_regs f) False, cs_cross = (\<lambda>_. []), cs_ok = True\<rparr>
        in if cs_ok s then Some (cs_ranges s, cs_cross s) else None))"

section \<open>Symmetry, and what each step adds\<close>

definition nbrs :: "collisions \<Rightarrow> nat \<Rightarrow> nat set" where
  "nbrs m a = (case m a of None \<Rightarrow> {} | Some s \<Rightarrow> s)"

definition sym_coll :: "collisions \<Rightarrow> bool" where
  "sym_coll m \<longleftrightarrow> (\<forall>a c. c \<in> nbrs m a \<longleftrightarrow> a \<in> nbrs m c)"

definition reg_uids :: "nat set" where "reg_uids = range reg_to_uid"

lemma coll_at_nbrs: "coll_at m r = nbrs m (reg_to_uid r)"
  by (simp add: coll_at_def nbrs_def)

lemma nbrs_insert: "c \<in> nbrs (coll_insert r k m) a \<longleftrightarrow> c \<in> nbrs m a \<or> (a = reg_to_uid r \<and> c = k)"
  by (auto simp: nbrs_def coll_insert_def coll_at_def)

lemma nbrs_touch [simp]: "nbrs (coll_touch r m) a = nbrs m a"
  by (auto simp: nbrs_def coll_touch_def coll_at_def)

lemma nbrs_empty [simp]: "nbrs Map.empty a = {}"
  by (simp add: nbrs_def)

lemma uid_valid: "k \<in> reg_uids \<Longrightarrow> reg_to_uid (uid_to_reg k) = k"
proof -
  assume "k \<in> reg_uids"
  then obtain r where r: "k = reg_to_uid r" by (auto simp: reg_uids_def)
  show ?thesis
  proof (cases "vreg_ok r")
    case True
    then show ?thesis using reg_to_uid_eq[OF reg_uid_reg[OF True]] r by simp
  next
    case False
    then have "k = 0" using r by (cases r) (simp_all add: vreg_ok_def is_concrete_def reg_to_uid_def creg_code_0)
    then show ?thesis by (simp add: uid_to_reg_def reg_to_uid_def numRegs_def creg_code_of_code)
  qed
qed

lemma nbrs_edges:
  assumes "bs_alpha live \<subseteq> reg_uids"
  shows "c \<in> nbrs (coll_edges w live m) a \<longleftrightarrow>
    c \<in> nbrs m a \<or> (a = reg_to_uid w \<and> c \<in> bs_alpha live) \<or> (c = reg_to_uid w \<and> a \<in> bs_alpha live)"
proof -
  have "set rs \<subseteq> reg_uids \<Longrightarrow>
      c \<in> nbrs (fold (\<lambda>r m. coll_insert w r (coll_insert (uid_to_reg r) (reg_to_uid w) m)) rs m) a \<longleftrightarrow>
      c \<in> nbrs m a \<or> (a = reg_to_uid w \<and> c \<in> set rs) \<or> (c = reg_to_uid w \<and> a \<in> set rs)" for rs
    by (induction rs arbitrary: m) (auto simp: nbrs_insert uid_valid)
  from this[of "bs_elems live"] show ?thesis using assms by (simp add: coll_edges_def bs_elems_alpha)
qed

lemma nbrs_edges2:
  assumes "bs_alpha live \<subseteq> reg_uids"
  shows "c \<in> nbrs (coll_edges2 v w live m) a \<longleftrightarrow>
    c \<in> nbrs m a \<or> (a \<in> {reg_to_uid v, reg_to_uid w} \<and> c \<in> bs_alpha live) \<or> (c \<in> {reg_to_uid v, reg_to_uid w} \<and> a \<in> bs_alpha live)"
proof -
  have "set rs \<subseteq> reg_uids \<Longrightarrow>
      c \<in> nbrs (fold (\<lambda>r m. coll_insert w r (coll_insert v r
        (coll_insert (uid_to_reg r) (reg_to_uid w) (coll_insert (uid_to_reg r) (reg_to_uid v) m)))) rs m) a \<longleftrightarrow>
      c \<in> nbrs m a \<or> (a \<in> {reg_to_uid v, reg_to_uid w} \<and> c \<in> set rs) \<or> (c \<in> {reg_to_uid v, reg_to_uid w} \<and> a \<in> set rs)" for rs
  proof (induction rs arbitrary: m)
    case (Cons r rs)
    then show ?case by (simp add: nbrs_insert uid_valid) blast
  qed simp
  from this[of "bs_elems live"] show ?thesis using assms by (simp add: coll_edges2_def bs_elems_alpha)
qed

lemma nbrs_pair: "c \<in> nbrs (coll_pair v w m) a \<longleftrightarrow>
    c \<in> nbrs m a \<or> (a = reg_to_uid v \<and> c = reg_to_uid w) \<or> (a = reg_to_uid w \<and> c = reg_to_uid v)"
  by (auto simp: coll_pair_def nbrs_insert)

text \<open>The invariant of the walk, and the order on its states: the graph only grows.\<close>

definition coll_inv :: "nat \<Rightarrow> coll_state \<Rightarrow> bool" where
  "coll_inv n s \<longleftrightarrow> bs_ok n (cs_live s) \<and> bs_alpha (cs_live s) \<subseteq> reg_uids \<and> sym_coll (cs_ranges s) \<and> cs_ok s"

definition coll_le :: "coll_state \<Rightarrow> coll_state \<Rightarrow> bool" where
  "coll_le s s' \<longleftrightarrow> (\<forall>a. nbrs (cs_ranges s) a \<subseteq> nbrs (cs_ranges s') a)"

lemma coll_le_refl [simp]: "coll_le s s"
  by (simp add: coll_le_def)

lemma coll_le_trans: "coll_le s t \<Longrightarrow> coll_le t u \<Longrightarrow> coll_le s u"
  unfolding coll_le_def by (meson subset_trans)

lemma sym_edges: "bs_alpha live \<subseteq> reg_uids \<Longrightarrow> sym_coll m \<Longrightarrow> sym_coll (coll_edges w live m)"
  by (auto simp: sym_coll_def nbrs_edges)

lemma sym_edges2: "bs_alpha live \<subseteq> reg_uids \<Longrightarrow> sym_coll m \<Longrightarrow> sym_coll (coll_edges2 v w live m)"
  by (auto simp: sym_coll_def nbrs_edges2)

lemma sym_pair: "sym_coll m \<Longrightarrow> sym_coll (coll_pair v w m)"
  by (auto simp: sym_coll_def nbrs_pair)

definition reg_fits :: "nat \<Rightarrow> VReg \<Rightarrow> bool" where "reg_fits n r \<longleftrightarrow> reg_to_uid r < n"

lemma uid_in [simp]: "reg_to_uid r \<in> reg_uids"
  by (simp add: reg_uids_def)

lemma coll_use_reg_step:
  assumes "coll_inv n s" "reg_to_uid r < n"
  shows "coll_inv n (coll_use_reg r s)" "coll_le s (coll_use_reg r s)"
    "bs_alpha (cs_live (coll_use_reg r s)) = insert (reg_to_uid r) (bs_alpha (cs_live s))"
proof -
  show live: "bs_alpha (cs_live (coll_use_reg r s)) = insert (reg_to_uid r) (bs_alpha (cs_live s))"
    using assms by (simp add: coll_use_reg_def coll_inv_def bs_alpha_set[of n])
  show "coll_inv n (coll_use_reg r s)"
    using assms live by (simp add: coll_inv_def bs_ok_set sym_edges coll_use_reg_def)
  show "coll_le s (coll_use_reg r s)"
    using assms(1) by (auto simp: coll_le_def coll_use_reg_def coll_inv_def nbrs_edges)
qed

lemma coll_use_regs_step:
  assumes "coll_inv n s" "reg_to_uid v < n" "reg_to_uid w < n"
  shows "coll_inv n (coll_use_regs v w s)" "coll_le s (coll_use_regs v w s)"
    "bs_alpha (cs_live (coll_use_regs v w s)) = {reg_to_uid v, reg_to_uid w} \<union> bs_alpha (cs_live s)"
proof -
  show live: "bs_alpha (cs_live (coll_use_regs v w s)) = {reg_to_uid v, reg_to_uid w} \<union> bs_alpha (cs_live s)"
    using assms by (auto simp: coll_use_regs_def coll_inv_def bs_alpha_set[of n] bs_ok_set)
  show "coll_inv n (coll_use_regs v w s)"
    using assms live by (simp add: coll_inv_def bs_ok_set sym_edges2 sym_pair coll_use_regs_def)
  show "coll_le s (coll_use_regs v w s)"
    using assms(1) by (auto simp: coll_le_def coll_use_regs_def coll_inv_def nbrs_edges2 nbrs_pair)
qed

definition arg_in :: "nat \<Rightarrow> MArgument \<Rightarrow> bool" where
  "arg_in n a \<longleftrightarrow> reg_to_uid (ma_reg a) < n \<and> reg_to_uid (ma_indx a) < n"

lemma coll_use_step:
  assumes "coll_inv n s" "arg_in n (snd d)"
  shows "coll_inv n (coll_use d s) \<and> coll_le s (coll_use d s)
    \<and> bs_alpha (cs_live (coll_use d s)) = arg_uids (snd d) \<union> bs_alpha (cs_live s)"
  using assms coll_use_reg_step[OF assms(1)] coll_use_regs_step[OF assms(1)]
  by (cases "ma_type (snd d)") (simp_all add: coll_use_def Let_def arg_in_def arg_uids_def arg_regs_def)

lemma coll_use_mem_step:
  assumes "coll_inv n s" "arg_in n (snd d)"
  shows "coll_inv n (coll_use_mem d s) \<and> coll_le s (coll_use_mem d s)
    \<and> bs_alpha (cs_live (coll_use_mem d s)) = (if isReg (snd d) then {} else arg_uids (snd d)) \<union> bs_alpha (cs_live s)"
  using assms coll_use_reg_step[OF assms(1)] coll_use_regs_step[OF assms(1)]
  by (cases "ma_type (snd d)") (simp_all add: coll_use_mem_def Let_def arg_in_def arg_uids_def arg_regs_def isReg_def)

text \<open>Folds of such steps.\<close>

lemma coll_fold_step:
  assumes "\<And>d s. d \<in> set ds \<Longrightarrow> coll_inv n s \<Longrightarrow> coll_inv n (g d s) \<and> coll_le s (g d s)
      \<and> bs_alpha (cs_live (g d s)) = A d \<union> bs_alpha (cs_live s)" "coll_inv n s"
  shows "coll_inv n (fold g ds s) \<and> coll_le s (fold g ds s)
    \<and> bs_alpha (cs_live (fold g ds s)) = (\<Union>d \<in> set ds. A d) \<union> bs_alpha (cs_live s)"
  using assms
proof (induction ds arbitrary: s)
  case (Cons d ds)
  have 1: "coll_inv n (g d s) \<and> coll_le s (g d s) \<and> bs_alpha (cs_live (g d s)) = A d \<union> bs_alpha (cs_live s)"
    using Cons.prems by simp
  then have "coll_inv n (fold g ds (g d s)) \<and> coll_le (g d s) (fold g ds (g d s))
      \<and> bs_alpha (cs_live (fold g ds (g d s))) = (\<Union>d \<in> set ds. A d) \<union> bs_alpha (cs_live (g d s))"
    using Cons.prems(1) by (intro Cons.IH) simp_all
  then show ?case using 1 coll_le_trans by auto
qed simp

text \<open>The definitions of an instruction, one after the other: a written register leaves the live set, so it is joined
  with the ones written behind it only if those are live.\<close>

definition def_uids :: "ArgData list \<Rightarrow> nat set" where
  "def_uids ds = (\<lambda>d. reg_to_uid (ma_reg (snd d))) ` {d \<in> set ds. isReg (snd d)}"

lemma def_uids_Cons: "def_uids (d # ds) = (if isReg (snd d) then {reg_to_uid (ma_reg (snd d))} else {}) \<union> def_uids ds"
  by (auto simp: def_uids_def)

lemma coll_def_step:
  assumes "coll_inv n s" "arg_in n (snd d)"
  shows "coll_inv n (coll_def d s)" "coll_le s (coll_def d s)"
    "bs_alpha (cs_live (coll_def d s)) = bs_alpha (cs_live s) - def_uids [d]"
    "a \<in> def_uids [d] \<Longrightarrow> r \<in> bs_alpha (cs_live s) \<Longrightarrow> r \<in> nbrs (cs_ranges (coll_def d s)) a"
proof -
  show live: "bs_alpha (cs_live (coll_def d s)) = bs_alpha (cs_live s) - def_uids [d]"
    using assms by (auto simp: coll_def_def coll_inv_def arg_in_def bs_alpha_set[of n] def_uids_def)
  show "coll_inv n (coll_def d s)"
    using assms live by (auto simp add: coll_inv_def bs_ok_set sym_edges coll_def_def)
  show "coll_le s (coll_def d s)"
    using assms(1) by (auto simp: coll_le_def coll_def_def coll_inv_def nbrs_edges)
  show "a \<in> def_uids [d] \<Longrightarrow> r \<in> bs_alpha (cs_live s) \<Longrightarrow> r \<in> nbrs (cs_ranges (coll_def d s)) a"
    using assms(1) by (auto simp: coll_def_def coll_inv_def nbrs_edges def_uids_def)
qed

lemma coll_defs:
  assumes "coll_inv n s" "\<forall>d \<in> set ds. arg_in n (snd d)"
  shows "coll_inv n (fold coll_def ds s) \<and> coll_le s (fold coll_def ds s)
    \<and> bs_alpha (cs_live (fold coll_def ds s)) = bs_alpha (cs_live s) - def_uids ds
    \<and> (\<forall>a \<in> def_uids ds. \<forall>r \<in> bs_alpha (cs_live s). r \<notin> def_uids ds \<or> a \<in> bs_alpha (cs_live s) \<longrightarrow>
         r \<in> nbrs (cs_ranges (fold coll_def ds s)) a)"
  using assms
proof (induction ds arbitrary: s)
  case Nil
  then show ?case by (simp add: def_uids_def)
next
  case (Cons d ds)
  let ?s1 = "coll_def d s" and ?s2 = "fold coll_def ds (coll_def d s)"
  have d: "arg_in n (snd d)" using Cons.prems(2) by simp
  note st = coll_def_step[OF Cons.prems(1) d]
  have IH: "coll_inv n ?s2" "coll_le ?s1 ?s2" "bs_alpha (cs_live ?s2) = bs_alpha (cs_live ?s1) - def_uids ds"
    "\<And>a r. a \<in> def_uids ds \<Longrightarrow> r \<in> bs_alpha (cs_live ?s1) \<Longrightarrow> r \<notin> def_uids ds \<or> a \<in> bs_alpha (cs_live ?s1) \<Longrightarrow>
       r \<in> nbrs (cs_ranges ?s2) a"
    using Cons.IH[OF st(1)] Cons.prems(2) by auto
  have grow: "nbrs (cs_ranges ?s1) a \<subseteq> nbrs (cs_ranges ?s2) a" for a using IH(2) by (simp add: coll_le_def)
  have sym: "sym_coll (cs_ranges ?s2)" using IH(1) by (simp add: coll_inv_def)
  have edge: "r \<in> nbrs (cs_ranges ?s2) a"
    if a: "a \<in> def_uids (d # ds)" and r: "r \<in> bs_alpha (cs_live s)" and ar: "r \<notin> def_uids (d # ds) \<or> a \<in> bs_alpha (cs_live s)" for a r
  proof (cases "a \<in> def_uids [d]")
    case True
    then show ?thesis using st(4)[OF True r] grow by blast
  next
    case a1: False
    then have a2: "a \<in> def_uids ds" using a by (auto simp: def_uids_def)
    show ?thesis
    proof (cases "r \<in> def_uids [d]")
      case True
      then have "a \<in> bs_alpha (cs_live s)" using ar by (auto simp: def_uids_def)
      then have "a \<in> nbrs (cs_ranges ?s2) r" using st(4)[OF True] grow by blast
      then show ?thesis using sym by (simp add: sym_coll_def)
    next
      case False
      then show ?thesis using a1 a2 r ar st(3) by (intro IH(4)) (auto simp: def_uids_Cons)
    qed
  qed
  have "def_uids (d # ds) = def_uids [d] \<union> def_uids ds" by (auto simp: def_uids_def)
  then show ?case using IH(1,3) st(2,3) edge coll_le_trans[OF st(2) IH(2)] by auto
qed

text \<open>The other parts of the step.\<close>

lemma coll_quiet:
  assumes "coll_inv n s"
  shows "bs_ok n out \<Longrightarrow> bs_alpha out \<subseteq> reg_uids \<Longrightarrow>
      coll_inv n (coll_jump x out s) \<and> coll_le s (coll_jump x out s) \<and> bs_alpha (cs_live s) \<subseteq> bs_alpha (cs_live (coll_jump x out s))"
    "coll_inv n (coll_cross x b s) \<and> coll_le s (coll_cross x b s) \<and> cs_live (coll_cross x b s) = cs_live s"
    "coll_inv n (coll_abs x s) \<and> coll_le s (coll_abs x s) \<and> cs_live (coll_abs x s) = cs_live s"
proof -
  show "bs_ok n out \<Longrightarrow> bs_alpha out \<subseteq> reg_uids \<Longrightarrow>
      coll_inv n (coll_jump x out s) \<and> coll_le s (coll_jump x out s) \<and> bs_alpha (cs_live s) \<subseteq> bs_alpha (cs_live (coll_jump x out s))"
    using assms bs.ok_union[of n "cs_live s" out] bs.alpha_union[of n "cs_live s" out]
    by (auto simp: coll_jump_def coll_inv_def coll_le_def)
  show "coll_inv n (coll_cross x b s) \<and> coll_le s (coll_cross x b s) \<and> cs_live (coll_cross x b s) = cs_live s"
    using assms by (simp add: coll_cross_def coll_inv_def coll_le_def)
  show "coll_inv n (coll_abs x s) \<and> coll_le s (coll_abs x s) \<and> cs_live (coll_abs x s) = cs_live s"
    using assms by (auto simp: coll_abs_def coll_inv_def coll_le_def sym_pair nbrs_pair)
qed

lemma coll_ret_setup_step:
  assumes "coll_inv n s"
  shows "coll_inv n (coll_ret_setup x ys s) \<and> coll_le s (coll_ret_setup x ys s) \<and> cs_live (coll_ret_setup x ys s) = cs_live s"
proof -
  let ?g = "\<lambda>later m. if mi_n_args later > 1 \<and> isReg (mi_args later ! 1)
    then coll_pair (ma_reg (mi_args x ! 0)) (ma_reg (mi_args later ! 1)) m else m"
  have "sym_coll m \<Longrightarrow> sym_coll (fold ?g zs m) \<and> (\<forall>a. nbrs m a \<subseteq> nbrs (fold ?g zs m) a)" for zs m
  proof (induction zs arbitrary: m)
    case (Cons z zs)
    have "sym_coll (?g z m)" "\<forall>a. nbrs m a \<subseteq> nbrs (?g z m) a" using Cons.prems by (auto simp: sym_pair nbrs_pair)
    moreover from this(1) have "sym_coll (fold ?g zs (?g z m)) \<and> (\<forall>a. nbrs (?g z m) a \<subseteq> nbrs (fold ?g zs (?g z m)) a)"
      by (rule Cons.IH)
    ultimately show ?case unfolding fold_Cons comp_def by (meson subset_trans)
  qed simp
  then show ?thesis using assms by (auto simp: coll_ret_setup_def coll_inv_def coll_le_def)
qed

lemma coll_call_step:
  assumes "coll_inv n s" "\<forall>y \<in> set ys. arg_in n (mi_args y ! 1) \<and> operands_ok y"
  shows "coll_inv n (coll_call x ys s) \<and> coll_le s (coll_call x ys s) \<and> bs_alpha (cs_live s) \<subseteq> bs_alpha (cs_live (coll_call x ys s))"
proof -
  let ?A = "\<lambda>y. if mi_n_args y > 1 then {reg_to_uid (ma_reg (mi_args y ! 1))} else {}"
  have "coll_inv n (coll_call_arg y t) \<and> coll_le t (coll_call_arg y t)
      \<and> bs_alpha (cs_live (coll_call_arg y t)) = ?A y \<union> bs_alpha (cs_live t)"
    if "coll_inv n t" "y \<in> set (takeWhile (\<lambda>y. mi_op y = GBase GBase_arg_setup) ys)" for y t
  proof -
    have "y \<in> set ys" "mi_op y = GBase GBase_arg_setup" using that(2) by (auto dest: set_takeWhileD)
    then have "reg_to_uid (ma_reg (mi_args y ! 1)) < n" "1 < mi_n_args y \<longrightarrow> isReg (mi_args y ! 1)"
      using assms(2) by (auto simp: arg_in_def operands_ok_def Let_def)
    then show ?thesis
      using that(1) by (auto simp: coll_call_arg_def coll_inv_def coll_le_def bs_alpha_set[of n] bs_ok_set)
  qed
  then show ?thesis
    using coll_fold_step[where g = coll_call_arg and A = ?A and ds = "takeWhile (\<lambda>y. mi_op y = GBase GBase_arg_setup) ys" and n = n and s = s]
      assms(1) by (auto simp: coll_call_def)
qed

section \<open>Operands\<close>

definition operands :: "MInstr \<Rightarrow> MArgument set" where "operands x = (\<lambda>k. mi_args x ! k) ` {..<4}"

lemma operands_simps [simp]:
  "mi_args x ! 0 \<in> operands x" "mi_args x ! Suc 0 \<in> operands x" "mi_args x ! 2 \<in> operands x" "mi_args x ! 3 \<in> operands x"
  "k < mi_n_args x \<Longrightarrow> mi_n_args x \<le> 4 \<Longrightarrow> mi_args x ! k \<in> operands x"
  by (auto simp: operands_def)

lemma written_args_in: "d \<in> set (written_args x) \<Longrightarrow> snd d \<in> operands x"
  by (cases "mi_op x"; rename_tac s, case_tac s) (auto simp: written_args_def split: if_splits)

lemma read_args_in: "d \<in> set (read_args x) \<Longrightarrow> mi_n_args x \<le> 4 \<Longrightarrow> snd d \<in> operands x"
  by (cases "mi_op x"; rename_tac s, case_tac s) (auto simp: read_args_def split: if_splits)

text \<open>
  Operands that \<^verbatim>\<open>update_uses\<close> marks and \<^verbatim>\<open>read_args\<close> does not list: those of \<^verbatim>\<open>or r, r\<close>, of a
  \<^verbatim>\<open>vXor\<close> of two equal memory operands, and a fourth operand of \<^verbatim>\<open>ffmadd\<close>.
\<close>

definition reads_lost :: "MInstr \<Rightarrow> bool" where
  "reads_lost x \<longleftrightarrow> (let a = mi_args x in
     (mi_op x = GArith GArith_lor2 \<and> marg_eq (a ! 0) (a ! 1)) \<or>
     (mi_op x = GVec GVec_vXor \<and> marg_eq (a ! 1) (a ! 2)
        \<and> \<not> (isReg (a ! 1) \<and> isReg (a ! 2) \<and> vreg_eq (ma_reg (a ! 1)) (ma_reg (a ! 2)))) \<or>
     (mi_op x = GVec GVec_ffmadd \<and> arg_regs (a ! 3) \<noteq> []))"

lemma update_uses_sub:
  assumes "bs_wf u" "args_fit (bs_size u) (mi_args x)" "operands_ok x" "mi_n_args x \<le> 4" "\<not> reads_lost x"
  shows "bs_alpha (update_uses x u) \<subseteq> bs_alpha u \<union> read_uids x \<union> (if stack_op (mi_op x) then {sp_uid} else {})"
proof (cases "reads_differ x")
  case False
  then show ?thesis using update_uses_alpha[OF assms(1-4)] by auto
next
  case True
  note defs = reads_lost_def Let_def update_uses_def read_uids_eq read_args_def written_args_def
  show ?thesis
  proof (cases "mi_op x")
    case (GArith s)
    then show ?thesis using True assms by (cases s) (auto simp: reads_differ_def defs)
  next
    case (GCMov s)
    then show ?thesis using True assms by (cases s) (auto simp: reads_differ_def defs)
  next
    case (GVec s)
    then show ?thesis using True assms by (cases s) (auto simp: reads_differ_def defs arg_uids_def)
  next
    case (X86 s)
    then show ?thesis using True assms by (cases s) (auto simp: reads_differ_def defs)
  qed (use True in \<open>auto simp: reads_differ_def Let_def\<close>)
qed

section \<open>One instruction\<close>

definition code_fits :: "nat \<Rightarrow> MInstr \<Rightarrow> bool" where
  "code_fits n x \<longleftrightarrow> args_fit n (mi_args x) \<and> operands_ok x \<and> mi_n_args x \<le> 4 \<and> \<not> reads_lost x"

lemma code_fits_in: "code_fits n x \<Longrightarrow> a \<in> operands x \<Longrightarrow> arg_in n a"
  by (auto simp: code_fits_def operands_def arg_in_def args_fit_def)

lemma use_set_reads: "code_fits n x \<Longrightarrow> use_set n x \<subseteq> read_uids x \<union> (if stack_op (mi_op x) then {sp_uid} else {})"
  using update_uses_sub[of "bs_new n False" x] by (simp add: code_fits_def use_set_def bs_alpha_new)

lemma use_set_sub: "code_fits n x \<Longrightarrow> use_set n x \<subseteq> read_uids x \<union> {sp_uid}"
  using use_set_reads[of n x] by (auto split: if_splits)

lemma def_set_sub: "code_fits n x \<Longrightarrow> written_uids x \<subseteq> def_set n x"
  using update_def_alpha[of "bs_new n False" x] by (auto simp: code_fits_def def_set_def bs_alpha_new)

lemma def_uids_written: "def_uids (written_args x) = written_uids x"
  by (auto simp: def_uids_def written_uids_eq)

lemma source_args_listed:
  assumes "\<not> reads_lost x"
  shows "(\<Union>a \<in> set (source_args x). arg_uids a) \<subseteq> (\<Union>d \<in> set (read_args x). arg_uids (snd d))"
proof (cases "self_xor x")
  case False
  note defs = source_args_def read_args_def Let_def
  consider "mi_op x = GArith GArith_lor2" | "mi_op x = GVec GVec_vXor" | "mi_op x = GVec GVec_ffmadd"
    | "mi_op x \<notin> {GArith GArith_lor2, GVec GVec_vXor, GVec GVec_ffmadd}" by blast
  then show ?thesis
  proof cases
    case 1
    then show ?thesis using assms by (simp add: defs reads_lost_def self_xor_def)
  next
    case 2
    then show ?thesis using assms False by (auto simp: defs reads_lost_def self_xor_def)
  next
    case 3
    then show ?thesis using assms by (simp add: defs reads_lost_def self_xor_def arg_uids_def)
  next
    case 4
    then have "source_args x = map snd (read_args x)" using False by (simp add: source_args_def Let_def)
    then show ?thesis by simp
  qed
qed (simp add: source_args_def Let_def)

lemma need_set_sub:
  assumes "code_fits n x" "writes_listed x"
  shows "need_set n x \<subseteq> read_uids x \<union> {sp_uid}"
proof -
  have "\<not> reads_lost x" "\<not> is_physical_call x" using assms by (simp_all add: code_fits_def writes_listed_def)
  then have "machine_reads x \<subseteq> read_uids x \<union> {sp_uid}"
    using source_args_listed[of x] unfolding machine_reads_def read_uids_eq by (simp add: subset_iff split: if_splits)
  then show ?thesis using use_set_sub[OF assms(1)] by (simp add: need_set_def)
qed

lemma use_set_regs: "code_fits n x \<Longrightarrow> use_set n x \<subseteq> reg_uids"
  using use_set_sub[of n x] by (auto simp: read_uids_def)

lemma coll_instr_step:
  assumes inv: "coll_inv n s" and out: "bs_ok n out" "bs_alpha out \<subseteq> reg_uids"
    and code: "\<forall>y \<in> set xs. code_fits n y" and i: "i < length xs"
  shows "coll_inv n (coll_instr b out xs i s) \<and> coll_le s (coll_instr b out xs i s)
    \<and> (bs_alpha (cs_live s) - written_uids (xs ! i)) \<union> read_uids (xs ! i) \<subseteq> bs_alpha (cs_live (coll_instr b out xs i s))
    \<and> (\<forall>a \<in> written_uids (xs ! i). \<forall>r \<in> bs_alpha (cs_live s). r \<notin> written_uids (xs ! i) \<or> a \<in> bs_alpha (cs_live s) \<longrightarrow>
         r \<in> nbrs (cs_ranges (coll_instr b out xs i s)) a)"
proof -
  let ?x = "xs ! i"
  define s1 where "s1 = coll_jump ?x out s"
  define s2 where "s2 = coll_cross ?x b s1"
  define s3 where "s3 = coll_ret_setup ?x (drop (Suc i) xs) s2"
  define s4 where "s4 = fold coll_def (written_args ?x) s3"
  define s5 where "s5 = coll_call ?x (rev (take i xs)) s4"
  define s6 where "s6 = coll_abs ?x s5"
  define s7 where "s7 = fold coll_use_mem (written_args ?x) s6"
  define s8 where "s8 = fold coll_use (read_args ?x) s7"
  have res: "coll_instr b out xs i s = s8"
    by (simp add: coll_instr_def Let_def s1_def s2_def s3_def s4_def s5_def s6_def s7_def s8_def)
  have x: "code_fits n ?x" using code i by simp
  then have ops: "\<And>a. a \<in> operands ?x \<Longrightarrow> arg_in n a" and n4: "mi_n_args ?x \<le> 4"
    by (simp_all add: code_fits_in) (simp add: code_fits_def)
  have 1: "coll_inv n s1" "coll_le s s1" "bs_alpha (cs_live s) \<subseteq> bs_alpha (cs_live s1)"
    using coll_quiet(1)[OF inv out, of ?x] by (simp_all add: s1_def)
  have 2: "coll_inv n s2" "coll_le s1 s2" "cs_live s2 = cs_live s1" using coll_quiet(2)[OF 1(1), of ?x b] by (simp_all add: s2_def)
  have 3: "coll_inv n s3" "coll_le s2 s3" "cs_live s3 = cs_live s2"
    using coll_ret_setup_step[OF 2(1), of ?x "drop (Suc i) xs"] by (simp_all add: s3_def)
  have 4: "coll_inv n s4" "coll_le s3 s4" "bs_alpha (cs_live s4) = bs_alpha (cs_live s3) - written_uids ?x"
    "\<And>a r. a \<in> written_uids ?x \<Longrightarrow> r \<in> bs_alpha (cs_live s3) \<Longrightarrow> r \<notin> written_uids ?x \<or> a \<in> bs_alpha (cs_live s3) \<Longrightarrow>
       r \<in> nbrs (cs_ranges s4) a"
    using coll_defs[OF 3(1), of "written_args ?x"] ops written_args_in by (auto simp: s4_def def_uids_written)
  have "\<forall>y \<in> set (rev (take i xs)). arg_in n (mi_args y ! 1) \<and> operands_ok y"
  proof
    fix y
    assume "y \<in> set (rev (take i xs))"
    then have y: "code_fits n y" using code by (auto dest: in_set_takeD)
    then show "arg_in n (mi_args y ! 1) \<and> operands_ok y"
      using code_fits_in[OF y, of "mi_args y ! 1"] by (simp add: code_fits_def)
  qed
  from coll_call_step[OF 4(1) this, of ?x]
  have 5: "coll_inv n s5" "coll_le s4 s5" "bs_alpha (cs_live s4) \<subseteq> bs_alpha (cs_live s5)" by (simp_all add: s5_def)
  have 6: "coll_inv n s6" "coll_le s5 s6" "cs_live s6 = cs_live s5" using coll_quiet(3)[OF 5(1), of ?x] by (simp_all add: s6_def)
  have 7: "coll_inv n s7 \<and> coll_le s6 s7 \<and> bs_alpha (cs_live s7) =
      (\<Union>d \<in> set (written_args ?x). if isReg (snd d) then {} else arg_uids (snd d)) \<union> bs_alpha (cs_live s6)"
    unfolding s7_def by (rule coll_fold_step[OF _ 6(1)], rule coll_use_mem_step) (simp_all add: ops written_args_in)
  have 8: "coll_inv n s8 \<and> coll_le s7 s8 \<and> bs_alpha (cs_live s8) = (\<Union>d \<in> set (read_args ?x). arg_uids (snd d)) \<union> bs_alpha (cs_live s7)"
    unfolding s8_def by (rule coll_fold_step[OF _ 7[THEN conjunct1]], rule coll_use_step) (simp_all add: ops read_args_in[OF _ n4])
  have le: "coll_le s4 s8"
    using coll_le_trans[OF coll_le_trans[OF 5(2) 6(2)] coll_le_trans[OF 7[THEN conjunct2, THEN conjunct1] 8[THEN conjunct2, THEN conjunct1]]] .
  have "read_uids ?x \<subseteq> bs_alpha (cs_live s8)" using 7 8 by (auto simp: read_uids_eq)
  moreover have "bs_alpha (cs_live s) - written_uids ?x \<subseteq> bs_alpha (cs_live s8)"
    using 1(3) 2(3) 3(3) 4(3) 5(3) 6(3) 7 8 by auto
  moreover have "r \<in> nbrs (cs_ranges s8) a"
    if "a \<in> written_uids ?x" "r \<in> bs_alpha (cs_live s)" "r \<notin> written_uids ?x \<or> a \<in> bs_alpha (cs_live s)" for a r
  proof -
    have "r \<in> nbrs (cs_ranges s4) a" using that 1(3) 2(3) 3(3) by (intro 4(4)) auto
    then show ?thesis using le by (auto simp: coll_le_def)
  qed
  moreover have "coll_le s s8"
    using coll_le_trans[OF coll_le_trans[OF coll_le_trans[OF 1(2) 2(2)] coll_le_trans[OF 3(2) 4(2)]] le] .
  ultimately show ?thesis unfolding res using 8[THEN conjunct1] by simp
qed

section \<open>One block, and the function\<close>

inductive_cases live_at_E: "live_at f b i r"

text \<open>
  The walk sees the registers \<^verbatim>\<open>read_args\<close> lists, so its graph serves every notion of liveness that agrees with
  the analysis at the end of the blocks and asks for listed registers inside them: the one of the analysis
  (\<open>live_at\<close>) and the one of the machine (\<open>needed_at\<close>).
\<close>

definition tracked :: "MFunc \<Rightarrow> (nat \<Rightarrow> nat \<Rightarrow> nat \<Rightarrow> bool) \<Rightarrow> bool" where
  "tracked f L \<longleftrightarrow> (\<forall>b < length (mf_bbs f). (\<forall>r. L b (length (bb_code f b)) r \<longleftrightarrow> live_at f b (length (bb_code f b)) r)
     \<and> (\<forall>i < length (bb_code f b). \<forall>r. L b i r \<longrightarrow> r \<in> read_uids (bb_code f b ! i) \<union> {sp_uid}
          \<or> r \<notin> def_set (n_unique_regs f) (bb_code f b ! i) \<and> L b (Suc i) r))"

lemma tracked_live:
  assumes "\<forall>x \<in> set (all_instrs f). code_fits (n_unique_regs f) x"
  shows "tracked f (live_at f)"
proof -
  have "r \<in> read_uids (bb_code f b ! i) \<union> {sp_uid} \<or> r \<notin> def_set (n_unique_regs f) (bb_code f b ! i) \<and> live_at f b (Suc i) r"
    if b: "b < length (mf_bbs f)" "i < length (bb_code f b)" and l: "live_at f b i r" for b i r
  proof -
    have "code_fits (n_unique_regs f) (bb_code f b ! i)" using assms b bb_code_instr[OF b(1)] nth_mem by blast
    from use_set_sub[OF this] show ?thesis using l by (rule_tac live_at_E) (use b(2) in auto)
  qed
  then show ?thesis by (simp add: tracked_def)
qed

lemma tracked_needed:
  assumes "func_fits f" "machine_code f" "\<forall>x \<in> set (all_instrs f). code_fits (n_unique_regs f) x"
  shows "tracked f (needed_at f)"
proof -
  have "r \<in> read_uids (bb_code f b ! i) \<union> {sp_uid} \<or> r \<notin> def_set (n_unique_regs f) (bb_code f b ! i) \<and> needed_at f b (Suc i) r"
    if b: "b < length (mf_bbs f)" "i < length (bb_code f b)" and l: "needed_at f b i r" for b i r
  proof -
    have x: "bb_code f b ! i \<in> set (all_instrs f)" using b bb_code_instr[OF b(1)] nth_mem by blast
    then have "need_set (n_unique_regs f) (bb_code f b ! i) \<subseteq> read_uids (bb_code f b ! i) \<union> {sp_uid}"
      using assms(2,3) by (intro need_set_sub) (auto simp: machine_code_def)
    then show ?thesis using l by (rule_tac needed_at_E) (use b(2) in auto)
  qed
  then show ?thesis using needed_at_end[OF assms(1,2)] by (simp add: tracked_def)
qed

text \<open>What the graph must have for the instruction at \<open>j\<close> of block \<open>b\<close>: the written register is joined with every
  register live behind the instruction; two registers that are both written only when both of them are live there.
  The stack pointer is not tracked.\<close>

definition joined :: "MFunc \<Rightarrow> (nat \<Rightarrow> nat \<Rightarrow> nat \<Rightarrow> bool) \<Rightarrow> collisions \<Rightarrow> nat \<Rightarrow> nat \<Rightarrow> bool" where
  "joined f L m b j \<longleftrightarrow> (\<forall>a \<in> written_uids (bb_code f b ! j). \<forall>r. L b (Suc j) r \<and> r \<noteq> sp_uid
     \<and> (r \<notin> written_uids (bb_code f b ! j) \<or> L b (Suc j) a \<and> a \<noteq> sp_uid) \<longrightarrow> r \<in> nbrs m a)"

lemma joined_le: "joined f L (cs_ranges s) b j \<Longrightarrow> coll_le s s' \<Longrightarrow> joined f L (cs_ranges s') b j"
  unfolding joined_def coll_le_def by blast

lemma coll_bb_walk:
  fixes f b
  defines "n \<equiv> n_unique_regs f" and "xs \<equiv> bb_code f b"
  assumes L: "tracked f L" "b < length (mf_bbs f)"
    and inv: "coll_inv n s" and out: "bs_ok n out" "bs_alpha out = {r. live_at f b (length xs) r}" "bs_alpha out \<subseteq> reg_uids"
    and code: "\<forall>y \<in> set xs. code_fits n y" and i: "i \<le> length xs"
  shows "coll_inv n (fold (coll_instr b out xs) (rev [i..<length xs]) (s\<lparr>cs_live := out\<rparr>))
    \<and> coll_le s (fold (coll_instr b out xs) (rev [i..<length xs]) (s\<lparr>cs_live := out\<rparr>))
    \<and> {r. L b i r} - {sp_uid} \<subseteq> bs_alpha (cs_live (fold (coll_instr b out xs) (rev [i..<length xs]) (s\<lparr>cs_live := out\<rparr>)))
    \<and> (\<forall>j. i \<le> j \<and> j < length xs \<longrightarrow> joined f L (cs_ranges (fold (coll_instr b out xs) (rev [i..<length xs]) (s\<lparr>cs_live := out\<rparr>))) b j)"
  using i
proof (induction "length xs - i" arbitrary: i)
  case 0
  then have "i = length xs" by simp
  moreover have "{r. L b (length xs) r} = bs_alpha out" using L out(2) by (simp add: tracked_def xs_def)
  ultimately show ?case using inv out by (auto simp: coll_inv_def coll_le_def)
next
  case (Suc k)
  then have i: "i < length xs" by simp
  let ?t = "fold (coll_instr b out xs) (rev [Suc i..<length xs]) (s\<lparr>cs_live := out\<rparr>)"
  let ?u = "coll_instr b out xs i ?t"
  have u: "fold (coll_instr b out xs) (rev [i..<length xs]) (s\<lparr>cs_live := out\<rparr>) = ?u"
    using i by (simp add: upt_conv_Cons)
  have IH: "coll_inv n ?t" "coll_le s ?t" "{r. L b (Suc i) r} - {sp_uid} \<subseteq> bs_alpha (cs_live ?t)"
    "\<And>j. Suc i \<le> j \<Longrightarrow> j < length xs \<Longrightarrow> joined f L (cs_ranges ?t) b j"
    using Suc.hyps(1)[of "Suc i"] Suc.hyps(2) i by auto
  note st = coll_instr_step[OF IH(1) out(1,3) code i, of b]
  have x: "code_fits n (xs ! i)" using code i by simp
  have "{r. L b i r} - {sp_uid} \<subseteq> (bs_alpha (cs_live ?t) - written_uids (xs ! i)) \<union> read_uids (xs ! i)"
  proof
    fix r
    assume "r \<in> {r. L b i r} - {sp_uid}"
    then have "r \<in> read_uids (xs ! i) \<or> r \<notin> def_set n (xs ! i) \<and> L b (Suc i) r" "r \<noteq> sp_uid"
      using L i unfolding tracked_def xs_def n_def by auto
    then show "r \<in> (bs_alpha (cs_live ?t) - written_uids (xs ! i)) \<union> read_uids (xs ! i)" using IH(3) def_set_sub[OF x] by auto
  qed
  moreover have "joined f L (cs_ranges ?u) b i"
    using st[THEN conjunct2, THEN conjunct2, THEN conjunct2] IH(3) unfolding joined_def xs_def by blast
  moreover have "joined f L (cs_ranges ?u) b j" if "Suc i \<le> j" "j < length xs" for j
    using joined_le[OF IH(4)[OF that]] st by blast
  moreover have "i \<le> j \<Longrightarrow> j = i \<or> Suc i \<le> j" for j by auto
  ultimately show ?case unfolding u using st coll_le_trans[OF IH(2)] by blast
qed

lemma bb_code_fits:
  assumes "\<forall>x \<in> set (all_instrs f). code_fits n x" "b < length (mf_bbs f)"
  shows "\<forall>x \<in> set (bb_code f b). code_fits n x"
  using assms nth_mem[OF assms(2)] by (auto simp: all_instrs_def bb_code_def)

lemma live_at_regs:
  assumes "func_fits f" "\<forall>x \<in> set (all_instrs f). code_fits (n_unique_regs f) x"
  shows "live_at f b i r \<Longrightarrow> b < length (mf_bbs f) \<Longrightarrow> r \<in> reg_uids"
proof (induction rule: live_at.induct)
  case (at_use i b r)
  then have "code_fits (n_unique_regs f) (bb_code f b ! i)" using bb_code_fits[OF assms(2)] by simp
  then show ?case using use_set_regs at_use by blast
next
  case (at_edge c b r)
  then show ?case using func_fits_bb(2)[OF assms(1) at_edge.prems] flow.succs_in[OF at_edge.prems] by auto
qed blast

lemma coll_init_nbrs [simp]: "nbrs (coll_init f) a = {}"
proof -
  have used: "nbrs (coll_used x m) a = nbrs m a" for x m
    by (simp add: coll_used_def split: ArgumentType.split)
  have 1: "nbrs (fold (\<lambda>i. coll_used (mi_args x ! i)) is m) a = nbrs m a" for x m and "is" :: "nat list"
    by (induction "is" arbitrary: m) (simp_all add: used)
  have 2: "nbrs (fold (\<lambda>x. fold (\<lambda>i. coll_used (mi_args x ! i)) [0..<mi_n_args x]) xs m) a = nbrs m a" for xs m
    by (induction xs arbitrary: m) (simp_all add: 1)
  have "nbrs (fold (\<lambda>bb. fold (\<lambda>x. fold (\<lambda>i. coll_used (mi_args x ! i)) [0..<mi_n_args x]) (bb_instrs bb)) bbs m) a = nbrs m a" for bbs m
    by (induction bbs arbitrary: m) (simp_all add: 2)
  from this[of "mf_bbs f" Map.empty] show ?thesis by (simp only: coll_init_def nbrs_empty)
qed

lemma reg_coll_tracks:
  assumes fits: "func_fits f" "\<forall>x \<in> set (all_instrs f). code_fits (n_unique_regs f) x" and L: "tracked f L"
  shows "\<exists>m cross. reg_coll f = Some (m, cross) \<and> sym_coll m
    \<and> (\<forall>b < length (mf_bbs f). \<forall>j < length (bb_code f b). joined f L m b j)"
proof -
  let ?n = "n_unique_regs f" and ?k = "length (mf_bbs f)"
  obtain lv where lv: "live_update (cfg_update f False) f = Some lv"
    "\<And>b. b < ?k \<Longrightarrow> bs_ok ?n (lv_liveOut lv ! b)"
    "\<And>b. b < ?k \<Longrightarrow> bs_alpha (lv_liveOut lv ! b) = {r. live_at f b (length (bb_code f b)) r}"
    using live_update_correct[OF fits(1)] by blast
  let ?s0 = "\<lparr>cs_ranges = coll_init f, cs_live = bs_new ?n False, cs_cross = (\<lambda>_. []), cs_ok = True\<rparr>"
  have "k \<le> ?k \<Longrightarrow> coll_inv ?n (fold (coll_bb lv f) [0..<k] ?s0)
      \<and> (\<forall>b < k. \<forall>j < length (bb_code f b). joined f L (cs_ranges (fold (coll_bb lv f) [0..<k] ?s0)) b j)" for k
  proof (induction k)
    case 0
    then show ?case by (simp add: coll_inv_def sym_coll_def bs_alpha_new)
  next
    case (Suc k)
    let ?t = "fold (coll_bb lv f) [0..<k] ?s0"
    have k: "k < ?k" using Suc.prems by simp
    have regs: "bs_alpha (lv_liveOut lv ! k) \<subseteq> reg_uids"
      using live_at_regs[OF fits _ k] lv(3)[OF k] by auto
    have IH: "coll_inv ?n ?t" "\<And>b j. b < k \<Longrightarrow> j < length (bb_code f b) \<Longrightarrow> joined f L (cs_ranges ?t) b j"
      using Suc by simp_all
    note w = coll_bb_walk[OF L k IH(1) lv(2)[OF k] lv(3)[OF k] regs bb_code_fits[OF fits(2) k] le0]
    have u: "fold (coll_instr k (lv_liveOut lv ! k) (bb_code f k)) (rev [0..<length (bb_code f k)]) (?t\<lparr>cs_live := lv_liveOut lv ! k\<rparr>)
        = coll_bb lv f k ?t"
      by (simp add: coll_bb_def bb_code_def Let_def)
    note w' = w[unfolded u]
    have "joined f L (cs_ranges (coll_bb lv f k ?t)) b j" if "b < Suc k" "j < length (bb_code f b)" for b j
    proof (cases "b = k")
      case True
      then show ?thesis using w' that(2) by blast
    next
      case False
      then have "joined f L (cs_ranges ?t) b j" using IH(2) that by simp
      then show ?thesis by (rule joined_le) (use w' in blast)
    qed
    then show ?case using w' by simp
  qed
  from this[of ?k] have fin: "coll_inv ?n (fold (coll_bb lv f) [0..<?k] ?s0)"
    "\<forall>b < ?k. \<forall>j < length (bb_code f b). joined f L (cs_ranges (fold (coll_bb lv f) [0..<?k] ?s0)) b j" by simp_all
  then show ?thesis by (simp add: reg_coll_def lv(1) Let_def coll_inv_def)
qed

lemma reg_coll_correct:
  assumes "func_fits f" "\<forall>x \<in> set (all_instrs f). code_fits (n_unique_regs f) x"
  shows "\<exists>m cross. reg_coll f = Some (m, cross) \<and> sym_coll m
    \<and> (\<forall>b < length (mf_bbs f). \<forall>j < length (bb_code f b). joined f (live_at f) m b j)"
  by (rule reg_coll_tracks[OF assms tracked_live[OF assms(2)]])

lemma reg_coll_needed:
  assumes "func_fits f" "machine_code f" "\<forall>x \<in> set (all_instrs f). code_fits (n_unique_regs f) x" "reg_coll f = Some (m, cross)"
  shows "\<forall>b < length (mf_bbs f). \<forall>j < length (bb_code f b). joined f (needed_at f) m b j"
  using reg_coll_tracks[OF assms(1,3) tracked_needed[OF assms(1-3)]] assms(4) by auto

end
