(* ===== verification/RegCollSpec.thy ===== *)
theory RegCollSpec
  imports MIRLiveSpec RegColl
begin

text \<open>
  What the interference graph is for: an assignment of registers that gives joined registers different
  places runs the function as it was.
\<close>

section \<open>Running with assigned registers\<close>

text \<open>The instruction reads its registers where they were put, and stores the ones it defines there.\<close>

definition put_back :: "(nat \<Rightarrow> nat) \<Rightarrow> nat set \<Rightarrow> 'v regs \<Rightarrow> 'v regs \<Rightarrow> 'v regs" where
  "put_back place D new ps = fold (\<lambda>d ps. ps(place d := new d)) (sorted_list_of_set D) ps"

definition place_sem :: "nat \<Rightarrow> (nat \<Rightarrow> nat) \<Rightarrow> ('v, 'm) machine \<Rightarrow> ('v, 'm) machine" where
  "place_sem n place sem x ps m =
     (let (rs, m', leave) = sem x (\<lambda>r. ps (place r)) m in (put_back place (def_set n x) rs ps, m', leave))"

lemma finite_def_set: "finite (def_set n x)"
  using def_set_bound finite_subset by blast

lemma put_back_apply:
  assumes "finite D"
  shows "p \<notin> place ` D \<Longrightarrow> put_back place D new ps p = ps p"
    "inj_on place D \<Longrightarrow> d \<in> D \<Longrightarrow> put_back place D new ps (place d) = new d"
proof -
  have 1: "p \<notin> place ` set ds \<Longrightarrow> fold (\<lambda>d ps. ps(place d := new d)) ds ps p = ps p" for ds ps p
    by (induction ds arbitrary: ps) auto
  have 2: "inj_on place (set ds) \<Longrightarrow> d \<in> set ds \<Longrightarrow> fold (\<lambda>d ps. ps(place d := new d)) ds ps (place d) = new d" for ds ps
  proof (induction ds arbitrary: ps)
    case (Cons e ds)
    show ?case
    proof (cases "d \<in> set ds")
      case True
      then show ?thesis using Cons by (auto simp: inj_on_def)
    next
      case False
      then have "d = e" using Cons.prems(2) by simp
      then show ?thesis using False Cons.prems(1) by (subst fold_Cons, simp, subst 1) (auto simp: inj_on_def)
    qed
  qed simp
  show "p \<notin> place ` D \<Longrightarrow> put_back place D new ps p = ps p" using 1[of p "sorted_list_of_set D"] assms by (simp add: put_back_def)
  show "inj_on place D \<Longrightarrow> d \<in> D \<Longrightarrow> put_back place D new ps (place d) = new d"
    using 2[of "sorted_list_of_set D"] assms by (simp add: put_back_def)
qed

text \<open>An assignment that respects the graph: joined registers are apart, so are the ones an instruction defines,
  and nothing else is put into the stack pointer.\<close>

definition keeps_apart :: "MFunc \<Rightarrow> collisions \<Rightarrow> (nat \<Rightarrow> nat) \<Rightarrow> bool" where
  "keeps_apart f m place \<longleftrightarrow> (\<forall>a c. c \<in> nbrs m a \<and> c \<noteq> a \<longrightarrow> place c \<noteq> place a)
     \<and> (\<forall>x \<in> set (all_instrs f). inj_on place (def_set (n_unique_regs f) x))
     \<and> (\<forall>r. r \<noteq> sp_uid \<longrightarrow> place r \<noteq> place sp_uid)"

lemma def_set_written: "code_fits n x \<Longrightarrow> def_set n x \<subseteq> written_uids x \<union> {sp_uid}"
  using update_def_alpha[of "bs_new n False" x] by (auto simp: code_fits_def def_set_def bs_alpha_new)

lemma place_apart:
  assumes m: "joined f (needed_at f) m b i" "keeps_apart f m place" and x: "code_fits (n_unique_regs f) (bb_code f b ! i)"
    and r: "needed_at f b (Suc i) r" "r \<notin> def_set (n_unique_regs f) (bb_code f b ! i)"
  shows "place r \<notin> place ` def_set (n_unique_regs f) (bb_code f b ! i)"
proof
  assume "place r \<in> place ` def_set (n_unique_regs f) (bb_code f b ! i)"
  then obtain d where d: "d \<in> def_set (n_unique_regs f) (bb_code f b ! i)" "place r = place d" by auto
  have rd: "r \<noteq> d" using r(2) d(1) by blast
  have sp: "r \<noteq> sp_uid" "d \<noteq> sp_uid" using m(2) d(2) rd unfolding keeps_apart_def by metis+
  then have "d \<in> written_uids (bb_code f b ! i)" "r \<notin> written_uids (bb_code f b ! i)"
    using def_set_written[OF x] def_set_sub[OF x] d(1) r(2) by auto
  then have "r \<in> nbrs m d" using m(1) r(1) sp(1) unfolding joined_def by blast
  then show False using m(2) d(2) rd unfolding keeps_apart_def by metis
qed

lemma place_run:
  assumes f: "func_fits f" "branches_last f" "\<forall>x \<in> set (all_instrs f). code_fits (n_unique_regs f) x"
    and m: "\<forall>b < length (mf_bbs f). \<forall>j < length (bb_code f b). joined f (needed_at f) m b j" "keeps_apart f m place"
    and sem: "\<forall>x \<in> set (all_instrs f). instr_respects (n_unique_regs f) sem x"
  shows "b < length (mf_bbs f) \<Longrightarrow> \<forall>r. needed_at f b i r \<longrightarrow> ps (place r) = rs r \<Longrightarrow>
    map_option observe (machine_run sem f k (b, i, rs, mem))
      = map_option observe (machine_run (place_sem (n_unique_regs f) place sem) f k (b, i, ps, mem))"
proof (induction k arbitrary: b i rs ps mem)
  case (Suc k)
  let ?n = "n_unique_regs f" and ?x = "bb_code f b ! i" and ?v = "\<lambda>r. ps (place r)"
  show ?case
  proof (cases "i < length (bb_code f b)")
    case True
    have x: "code_fits ?n ?x" using bb_code_fits[OF f(3) Suc.prems(1)] True by simp
    have mem_x: "?x \<in> set (all_instrs f)"
      using True Suc.prems(1) by (auto simp: all_instrs_def bb_code_def intro!: bexI[of _ "mf_bbs f ! b"])
    obtain rs1 m1 l where s: "sem ?x rs mem = (rs1, m1, l)" by (metis prod_cases3)
    obtain v1 m2 l' where s': "sem ?x ?v mem = (v1, m2, l')" by (metis prod_cases3)
    have "agree (need_set ?n ?x) rs ?v" using Suc.prems(2) True by (auto simp: agree_def intro: nd_use)
    note same = respects_step(1-3)[OF bspec[OF sem mem_x] this s s'] and keep = respects_step(4)[OF bspec[OF sem mem_x] this s s']
    let ?ps1 = "put_back place (def_set ?n ?x) v1 ps"
    have next_ok: "?ps1 (place r) = rs1 r" if r: "needed_at f b (Suc i) r" for r
    proof (cases "r \<in> def_set ?n ?x")
      case in_def: True
      have "inj_on place (def_set ?n ?x)" using m(2) mem_x by (simp add: keeps_apart_def)
      then show ?thesis using put_back_apply(2)[OF finite_def_set _ in_def] same(3) in_def by (simp add: agree_def)
    next
      case out_def: False
      have "needed_at f b i r" using nd_next[OF True out_def r] .
      then have "ps (place r) = rs r" using Suc.prems(2) by blast
      moreover have "?ps1 (place r) = ps (place r)"
        using place_apart[OF _ m(2) x r out_def] m(1) Suc.prems(1) True by (intro put_back_apply(1) finite_def_set) blast
      ultimately show ?thesis using keep out_def by (simp add: agree_def)
    qed
    show ?thesis
    proof (cases "l \<and> mi_has_bb_ref ?x")
      case leave: True
      have t: "mi_bb_ref ?x \<in> set (targets (bb_code f b))" using leave True by (intro target_nth) simp_all
      have c: "mi_bb_ref ?x < length (mf_bbs f)"
        using t func_fits_bb(2)[OF f(1) Suc.prems(1)] flow.succs_in[OF Suc.prems(1)] by auto
      have "killed ?n (drop i (bb_code f b)) = {}"
        using f(2) Suc.prems(1) True leave by (intro code_branches_last_drop) (auto simp: branches_last_def bb_code_def)
      then have "killed ?n (drop (Suc i) (bb_code f b)) = {}"
        using True by (simp add: Cons_nth_drop_Suc[symmetric] killed_Cons)
      then have "needed_at f (mi_bb_ref ?x) 0 r \<Longrightarrow> needed_at f b (Suc i) r" for r
        using passed_needed_at[of "Suc i" f b r] nd_edge[OF t, of r] True by simp
      then have "\<forall>r. needed_at f (mi_bb_ref ?x) 0 r \<longrightarrow> ?ps1 (place r) = rs1 r" using next_ok by blast
      from Suc.IH[OF c this, of m1] show ?thesis
        using True leave same(1,2) by (simp add: s s' place_sem_def Let_def)
    next
      case stay: False
      have "\<forall>r. needed_at f b (Suc i) r \<longrightarrow> ?ps1 (place r) = rs1 r" using next_ok by blast
      from Suc.IH[OF Suc.prems(1) this, of m1] show ?thesis
        using True stay same(1,2) by (auto simp add: s s' place_sem_def Let_def)
    qed
  qed simp
qed simp

section \<open>Properties\<close>


lemma live_sample_code: "\<forall>x \<in> set (all_instrs live_sample). code_fits (n_unique_regs live_sample) x"
  using live_sample_fits unfolding func_fits_def
  by (auto simp: code_fits_def all_instrs_def live_sample_def MInstr_jmp_def mk_instr_def operands_ok_def reads_lost_def)

lemma live_sample_len: "length (mf_bbs live_sample) = 2" "length (bb_code live_sample 0) = 2"
  by (simp_all add: live_sample_def bb_code_def)

lemma live_sample_v1: "live_at live_sample 0 (Suc 0) (reg_to_uid (VirtR Ty_Int64 1))"
proof -
  have 1: "live_at live_sample 1 0 (reg_to_uid (VirtR Ty_Int64 1))"
    by (rule at_use) (simp add: bb_code_def live_sample_def, simp only: sample_uses(3) insertI1)
  have "1 \<in> set (targets (bb_code live_sample 0))" by (simp add: targets_def bb_code_def sample_defs)
  from at_edge[OF this 1] have "live_at live_sample 0 2 (reg_to_uid (VirtR Ty_Int64 1))" by (simp add: live_sample_len)
  then have "live_at live_sample 0 (Suc (Suc 0)) (reg_to_uid (VirtR Ty_Int64 1))" by (simp only: numeral_2_eq_2)
  then show ?thesis
    by (rule at_next[rotated 2])
      (simp_all add: live_sample_len, simp add: bb_code_def sample_defs def_set_def update_def_def bs_alpha_new)
qed

lemma live_sample_writes: "written_uids (bb_code live_sample 0 ! 0) = {reg_to_uid (VirtR Ty_Int64 2)}"
  by (simp add: bb_code_def sample_defs written_uids_eq written_args_def isReg_def)




end
