(* ===== verification/MIRDce.thy ===== *)
theory MIRDce
  imports RegColl MIRLiveSpec
begin

text \<open>
  Dead code elimination on the machine IR: \<^verbatim>\<open>find_next_use\<close> of
  \<^verbatim>\<open>src/src/mir/analysis/live_variables.cpp\<close> and the pass \<^verbatim>\<open>DeadCodeElim\<close> of
  \<^verbatim>\<open>src/src/mir/optim/dce.cpp\<close>, with the lemmas that say what their answers mean for the paths of a
  block. \<open>MIRDceSpec\<close> shows that the pass keeps the behaviour of a function.
\<close>

section \<open>The next use of a register\<close>

record NextUseResult =
  nu_write :: bool
  nu_read :: bool
  nu_index :: nat

definition nu_start :: NextUseResult where
  "nu_start = \<lparr>nu_write = False, nu_read = False, nu_index = 0\<rparr>"

definition nu_stack :: "MInstr \<Rightarrow> nat \<Rightarrow> nat \<Rightarrow> NextUseResult \<Rightarrow> NextUseResult" where
  "nu_stack x uid i res =
     (if mi_op x \<in> {GBase GBase_push, GBase GBase_pop, GBase GBase_ret} \<and> uid = sp_uid
      then \<lparr>nu_write = True, nu_read = True, nu_index = i\<rparr> else res)"

definition nu_call :: "MInstr \<Rightarrow> nat \<Rightarrow> nat \<Rightarrow> NextUseResult \<Rightarrow> NextUseResult" where
  "nu_call x uid i res =
     (if is_call x
      then (let res = (if uid = sp_uid then res\<lparr>nu_read := True, nu_index := i\<rparr> else res);
                res = (if nu_write res then res\<lparr>nu_index := i\<rparr> else res);
                callee = mi_args x ! 0
            in if isReg callee \<and> reg_to_uid (ma_reg callee) = uid then res\<lparr>nu_read := True, nu_index := i\<rparr> else res)
      else res)"

text \<open>The operands \<^verbatim>\<open>written_args\<close> and \<^verbatim>\<open>read_args\<close> list, when they are the register itself.\<close>

definition nu_written :: "nat \<Rightarrow> nat \<Rightarrow> ArgData \<Rightarrow> NextUseResult \<Rightarrow> NextUseResult" where
  "nu_written uid i d res =
     (if isReg (snd d) \<and> reg_to_uid (ma_reg (snd d)) = uid then res\<lparr>nu_write := True, nu_index := i\<rparr> else res)"

definition nu_read_arg :: "nat \<Rightarrow> nat \<Rightarrow> ArgData \<Rightarrow> NextUseResult \<Rightarrow> NextUseResult" where
  "nu_read_arg uid i d res =
     (if isReg (snd d) \<and> reg_to_uid (ma_reg (snd d)) = uid then res\<lparr>nu_read := True, nu_index := i\<rparr> else res)"

text \<open>The address registers of a memory operand.\<close>

definition nu_addr :: "nat \<Rightarrow> nat \<Rightarrow> MArgument \<Rightarrow> NextUseResult \<Rightarrow> NextUseResult" where
  "nu_addr uid i arg res =
     (let hit = (case ma_type arg of
           AT_Imm \<Rightarrow> False | AT_MemImm \<Rightarrow> False | AT_Label \<Rightarrow> False | AT_MemLabel \<Rightarrow> False
         | AT_StackSlot \<Rightarrow> False | AT_MemImmLabel \<Rightarrow> False | AT_VReg \<Rightarrow> False
         | AT_MemVReg \<Rightarrow> reg_to_uid (ma_reg arg) = uid
         | AT_MemImmVReg \<Rightarrow> reg_to_uid (ma_reg arg) = uid
         | AT_MemVRegVReg \<Rightarrow> reg_to_uid (ma_reg arg) = uid \<or> reg_to_uid (ma_indx arg) = uid
         | AT_MemImmVRegVReg \<Rightarrow> reg_to_uid (ma_reg arg) = uid \<or> reg_to_uid (ma_indx arg) = uid
         | AT_MemVRegVRegScale \<Rightarrow> reg_to_uid (ma_reg arg) = uid \<or> reg_to_uid (ma_indx arg) = uid
         | AT_MemImmVRegVRegScale \<Rightarrow> reg_to_uid (ma_reg arg) = uid \<or> reg_to_uid (ma_indx arg) = uid
         | AT_MemLabelVregScale \<Rightarrow> reg_to_uid (ma_indx arg) = uid
         | AT_MemLabelVreg \<Rightarrow> reg_to_uid (ma_indx arg) = uid
         | AT_MemImmVRegScale \<Rightarrow> reg_to_uid (ma_indx arg) = uid)
      in if hit then res\<lparr>nu_read := True, nu_index := i\<rparr> else res)"

text \<open>The self cancelling idioms. The second one compares the operands 1 and 2 of an instruction that has
  the operands 0 and 1.\<close>

definition nu_idioms :: "MInstr \<Rightarrow> nat \<Rightarrow> NextUseResult \<Rightarrow> NextUseResult" where
  "nu_idioms x uid res =
     (let a = mi_args x;
          res = (if mi_op x = GVec GVec_vXor \<and> isReg (a ! 1) \<and> reg_to_uid (ma_reg (a ! 1)) = uid \<and> marg_eq (a ! 1) (a ! 2)
                 then res\<lparr>nu_read := False\<rparr> else res)
      in if mi_op x = GArith GArith_lxor2 \<and> isReg (a ! 0) \<and> reg_to_uid (ma_reg (a ! 0)) = uid \<and> marg_eq (a ! 1) (a ! 2)
         then res\<lparr>nu_read := False\<rparr> else res)"

text \<open>One round of the loop, and the loop with its break. A limit of 0 stands for the end of the block.\<close>

definition next_use_instr :: "MInstr \<Rightarrow> nat \<Rightarrow> nat \<Rightarrow> NextUseResult \<Rightarrow> NextUseResult" where
  "next_use_instr x uid i res =
     (let res = nu_call x uid i (nu_stack x uid i res);
          res = (if \<not> nu_write res then fold (nu_written uid i) (written_args x) res else res);
          res = (if \<not> nu_read res then fold (\<lambda>k. nu_addr uid i (mi_args x ! k)) [0..<mi_n_args x] res else res);
          res = (if \<not> nu_read res then fold (nu_read_arg uid i) (read_args x) res else res)
      in if nu_read res then nu_idioms x uid res else res)"

primrec next_use_loop :: "MInstr list \<Rightarrow> nat \<Rightarrow> nat \<Rightarrow> NextUseResult \<Rightarrow> NextUseResult" where
  "next_use_loop [] uid i res = res"
| "next_use_loop (x # xs) uid i res =
     (let res = next_use_instr x uid i res
      in if nu_read res \<or> nu_write res then res else next_use_loop xs uid (Suc i) res)"

definition find_next_use :: "MInstr list \<Rightarrow> nat \<Rightarrow> nat \<Rightarrow> nat \<Rightarrow> NextUseResult" where
  "find_next_use instrs uid start max_index =
     (let end_index = (if max_index = 0 then length instrs else max_index)
      in next_use_loop (drop start (take end_index instrs)) uid start nu_start)"

section \<open>The pass\<close>

text \<open>\<^verbatim>\<open>is_applicable\<close>: the instructions that have no effect but their result.\<close>

primrec applicable_GBase :: "GBaseSubtype \<Rightarrow> bool" where
  "applicable_GBase GBase_INVALID = True"
| "applicable_GBase GBase_mov = True"
| "applicable_GBase GBase_stack_arg_load = True"
| "applicable_GBase GBase_push = False"
| "applicable_GBase GBase_pop = False"
| "applicable_GBase GBase_call = False"
| "applicable_GBase GBase_unreach = False"
| "applicable_GBase GBase_ret = False"
| "applicable_GBase GBase_arg_setup = False"
| "applicable_GBase GBase_ret_setup = False"
| "applicable_GBase GBase_invoke = False"
| "applicable_GBase GBase_asm_in = False"
| "applicable_GBase GBase_inline_asm = False"
| "applicable_GBase GBase_asm_out = False"

definition applicable_GJmp :: "GJumpSubtype \<Rightarrow> bool" where
  "applicable_GJmp s \<longleftrightarrow> s \<in> set
     [GJmp_icmp_slt, GJmp_icmp_eq, GJmp_icmp_ult, GJmp_icmp_ne, GJmp_icmp_sgt, GJmp_icmp_ugt, GJmp_icmp_uge,
      GJmp_icmp_ule, GJmp_icmp_sge, GJmp_icmp_sle, GJmp_fcmp_oeq, GJmp_fcmp_ogt, GJmp_fcmp_oge, GJmp_fcmp_olt,
      GJmp_fcmp_ole, GJmp_fcmp_one, GJmp_fcmp_ord, GJmp_fcmp_uno, GJmp_fcmp_ueq, GJmp_fcmp_ugt, GJmp_fcmp_uge,
      GJmp_fcmp_ult, GJmp_fcmp_ule, GJmp_fcmp_une]"

definition applicable_X86 :: "X86Subtype \<Rightarrow> bool" where
  "applicable_X86 s \<longleftrightarrow> s \<notin> set
     [X86_LockXAdd2, X86_Xchg2, X86_LockAdd2, X86_LockSub2, X86_LockAnd2, X86_LockOr2, X86_LockXor2,
      X86_LockCmpXchg3, X86_vzeroupper, X86_mfence, X86_vmaskstore]"

primrec is_applicable :: "GOpcode \<Rightarrow> bool" where
  "is_applicable (GJmp s) = applicable_GJmp s"
| "is_applicable (GConv s) = True"
| "is_applicable (GArith s) = True"
| "is_applicable (GCMov s) = True"
| "is_applicable (GVec s) = True"
| "is_applicable (GBase s) = applicable_GBase s"
| "is_applicable (X86 s) = applicable_X86 s"

text \<open>The only written operand, when it is a register.\<close>

definition only_target :: "MInstr \<Rightarrow> nat option" where
  "only_target x = (case written_args x of
     [d] \<Rightarrow> if isReg (snd d) then Some (reg_to_uid (ma_reg (snd d))) else None
   | _ \<Rightarrow> None)"

definition erase_at :: "nat \<Rightarrow> 'a list \<Rightarrow> 'a list" where
  "erase_at i xs = take i xs @ drop (Suc i) xs"

definition dce_instr :: "LiveVariables \<Rightarrow> nat \<Rightarrow> nat \<Rightarrow> MInstr list \<Rightarrow> MInstr list" where
  "dce_instr lv b i xs =
     (if \<not> is_applicable (mi_op (xs ! i)) then xs
      else case only_target (xs ! i) of
        None \<Rightarrow> xs
      | Some uid \<Rightarrow>
          (let nu = find_next_use xs uid (i + 1) 0;
               is_read = (bs_get (lv_liveIn lv ! b) uid \<or> bs_get (lv_liveOut lv ! b) uid \<or> nu_read nu)
           in if (nu_write nu \<and> \<not> nu_read nu) \<or> \<not> is_read then erase_at i xs else xs))"

definition dce_bb :: "LiveVariables \<Rightarrow> nat \<Rightarrow> MBB \<Rightarrow> MBB" where
  "dce_bb lv b bb = bb\<lparr>bb_instrs := fold (dce_instr lv b) (rev [0..<length (bb_instrs bb)]) (bb_instrs bb)\<rparr>"

definition dce_apply :: "MFunc \<Rightarrow> MFunc option" where
  "dce_apply f = (case live_update (cfg_update f False) f of
     None \<Rightarrow> None
   | Some lv \<Rightarrow> Some (fold (\<lambda>b f. f\<lparr>mf_bbs := (mf_bbs f)[b := dce_bb lv b (mf_bbs f ! b)]\<rparr>) [0..<length (mf_bbs f)] f))"

section \<open>What the answers mean\<close>

text \<open>
  The shape of the operands behind the answers: no register is named behind the operand count, a vector xor
  writes a register, and a scalar xor has no third operand that could equal its second.
\<close>

definition operands_plain :: "MInstr \<Rightarrow> bool" where
  "operands_plain x \<longleftrightarrow> (\<forall>k. mi_n_args x \<le> k \<and> k < 4 \<longrightarrow> arg_regs (mi_args x ! k) = [])
     \<and> (mi_op x = GVec GVec_vXor \<longrightarrow> isReg (mi_args x ! 0))
     \<and> (mi_op x = GArith GArith_lxor2 \<longrightarrow> \<not> marg_eq (mi_args x ! 1) (mi_args x ! 2))"

lemma nu_written_fold:
  "nu_write (fold (nu_written uid i) ds res) \<longleftrightarrow> nu_write res \<or> uid \<in> def_uids ds"
  "nu_read (fold (nu_written uid i) ds res) = nu_read res"
  by (induction ds arbitrary: res) (auto simp: nu_written_def def_uids_def)

lemma nu_read_arg_fold:
  "nu_read (fold (nu_read_arg uid i) ds res) \<longleftrightarrow> nu_read res \<or> uid \<in> def_uids ds"
  "nu_write (fold (nu_read_arg uid i) ds res) = nu_write res"
  by (induction ds arbitrary: res) (auto simp: nu_read_arg_def def_uids_def)

lemma nu_addr_hit:
  "nu_read (nu_addr uid i a res) \<longleftrightarrow> nu_read res \<or> (\<not> isReg a \<and> uid \<in> arg_uids a)"
  "nu_write (nu_addr uid i a res) = nu_write res"
  by (cases "ma_type a"; auto simp: nu_addr_def isReg_def arg_uids_def arg_regs_def)+

lemma nu_addr_fold:
  "nu_read (fold (\<lambda>k. nu_addr uid i (a ! k)) ks res) \<longleftrightarrow> nu_read res \<or> (\<exists>k \<in> set ks. \<not> isReg (a ! k) \<and> uid \<in> arg_uids (a ! k))"
  "nu_write (fold (\<lambda>k. nu_addr uid i (a ! k)) ks res) = nu_write res"
  by (induction ks arbitrary: res) (auto simp: nu_addr_hit)

lemma nu_idioms_flags:
  "nu_write (nu_idioms x uid res) = nu_write res"
  "nu_read (nu_idioms x uid res) \<longleftrightarrow> nu_read res
     \<and> \<not> (mi_op x = GVec GVec_vXor \<and> isReg (mi_args x ! 1) \<and> reg_to_uid (ma_reg (mi_args x ! 1)) = uid \<and> marg_eq (mi_args x ! 1) (mi_args x ! 2))
     \<and> \<not> (mi_op x = GArith GArith_lxor2 \<and> isReg (mi_args x ! 0) \<and> reg_to_uid (ma_reg (mi_args x ! 0)) = uid \<and> marg_eq (mi_args x ! 1) (mi_args x ! 2))"
  by (auto simp: nu_idioms_def Let_def)

lemma nu_stack_call:
  assumes "\<not> nu_write res" "\<not> nu_read res"
  shows "nu_write (nu_call x uid i (nu_stack x uid i res))
      \<longleftrightarrow> mi_op x \<in> {GBase GBase_push, GBase GBase_pop, GBase GBase_ret} \<and> uid = sp_uid"
    "nu_read (nu_call x uid i (nu_stack x uid i res))
      \<longleftrightarrow> (stack_op (mi_op x) \<or> mi_op x = GBase GBase_ret) \<and> uid = sp_uid
        \<or> is_call x \<and> isReg (mi_args x ! 0) \<and> reg_to_uid (ma_reg (mi_args x ! 0)) = uid"
  using assms by (auto simp: nu_stack_def nu_call_def Let_def stack_op_def is_call_def)

text \<open>
  The registers the answer about one instruction calls read: those \<^verbatim>\<open>read_args\<close> lists, the address registers of
  every memory operand, the stack pointer for the stack operations and a return; without the operand of a self
  cancelling idiom. And the ones it calls written.
\<close>

definition next_cancelled :: "MInstr \<Rightarrow> nat set" where
  "next_cancelled x = (let a = mi_args x in
     (if mi_op x = GVec GVec_vXor \<and> isReg (a ! 1) \<and> marg_eq (a ! 1) (a ! 2) then {reg_to_uid (ma_reg (a ! 1))} else {})
   \<union> (if mi_op x = GArith GArith_lxor2 \<and> isReg (a ! 0) \<and> marg_eq (a ! 1) (a ! 2) then {reg_to_uid (ma_reg (a ! 0))} else {}))"

definition next_reads :: "MInstr \<Rightarrow> nat set" where
  "next_reads x = (def_uids (read_args x) \<union> (\<Union>k < mi_n_args x. if isReg (mi_args x ! k) then {} else arg_uids (mi_args x ! k))
     \<union> (if stack_op (mi_op x) \<or> mi_op x = GBase GBase_ret then {sp_uid} else {})) - next_cancelled x"

definition next_writes :: "MInstr \<Rightarrow> nat set" where
  "next_writes x = written_uids x
     \<union> (if mi_op x \<in> {GBase GBase_push, GBase GBase_pop, GBase GBase_ret} then {sp_uid} else {})"

lemma next_use_instr_exact:
  assumes res: "\<not> nu_write res" "\<not> nu_read res"
  shows "nu_write (next_use_instr x uid i res) \<longleftrightarrow> uid \<in> next_writes x"
    "nu_read (next_use_instr x uid i res) \<longleftrightarrow> uid \<in> next_reads x"
proof -
  define s0 where "s0 = nu_call x uid i (nu_stack x uid i res)"
  define s1 where "s1 = (if \<not> nu_write s0 then fold (nu_written uid i) (written_args x) s0 else s0)"
  define s2 where "s2 = (if \<not> nu_read s1 then fold (\<lambda>k. nu_addr uid i (mi_args x ! k)) [0..<mi_n_args x] s1 else s1)"
  define s3 where "s3 = (if \<not> nu_read s2 then fold (nu_read_arg uid i) (read_args x) s2 else s2)"
  have eq: "next_use_instr x uid i res = (if nu_read s3 then nu_idioms x uid s3 else s3)"
    by (simp add: next_use_instr_def Let_def s0_def s1_def s2_def s3_def)
  note s0 = nu_stack_call[OF res, of x uid i, folded s0_def]
  have w: "nu_write s3 \<longleftrightarrow> nu_write s0 \<or> uid \<in> written_uids x"
    unfolding s3_def s2_def s1_def by (auto simp: nu_written_fold nu_addr_fold nu_read_arg_fold def_uids_written[symmetric])
  have r: "nu_read s3 \<longleftrightarrow> nu_read s0 \<or> uid \<in> def_uids (read_args x)
      \<or> (\<exists>k < mi_n_args x. \<not> isReg (mi_args x ! k) \<and> uid \<in> arg_uids (mi_args x ! k))"
    unfolding s3_def s2_def s1_def by (auto simp: nu_written_fold nu_addr_fold nu_read_arg_fold)
  have call: "uid \<in> def_uids (read_args x)"
    if "is_call x" "isReg (mi_args x ! 0)" "reg_to_uid (ma_reg (mi_args x ! 0)) = uid"
    using that by (force simp: is_call_def read_args_def def_uids_def)
  have addr: "uid \<in> (\<Union>k < mi_n_args x. if isReg (mi_args x ! k) then {} else arg_uids (mi_args x ! k))
      \<longleftrightarrow> (\<exists>k < mi_n_args x. \<not> isReg (mi_args x ! k) \<and> uid \<in> arg_uids (mi_args x ! k))" by auto
  have c: "nu_read (nu_idioms x uid s3) \<longleftrightarrow> nu_read s3 \<and> uid \<notin> next_cancelled x"
    by (auto simp: nu_idioms_flags next_cancelled_def Let_def)
  have w0: "nu_write s0 \<longleftrightarrow> mi_op x \<in> {GBase GBase_push, GBase GBase_pop, GBase GBase_ret} \<and> uid = sp_uid" by (rule s0(1))
  have r0: "nu_read s3 \<longleftrightarrow> uid \<in> def_uids (read_args x)
      \<or> uid \<in> (\<Union>k < mi_n_args x. if isReg (mi_args x ! k) then {} else arg_uids (mi_args x ! k))
      \<or> (stack_op (mi_op x) \<or> mi_op x = GBase GBase_ret) \<and> uid = sp_uid"
    unfolding r addr s0(2) using call by blast
  show "nu_write (next_use_instr x uid i res) \<longleftrightarrow> uid \<in> next_writes x"
    unfolding eq next_writes_def using w w0 by (simp add: nu_idioms_flags) blast
  show "nu_read (next_use_instr x uid i res) \<longleftrightarrow> uid \<in> next_reads x"
    unfolding eq next_reads_def using r0 c by (simp split: if_split)
qed

lemma use_set_xor:
  assumes "code_fits n x" "operands_plain x" "mi_op x = GVec GVec_vXor" "isReg (mi_args x ! 1)" "marg_eq (mi_args x ! 1) (mi_args x ! 2)"
  shows "use_set n x = {}"
proof -
  have "isReg (mi_args x ! 2)" "vreg_eq (ma_reg (mi_args x ! 1)) (ma_reg (mi_args x ! 2))"
    using assms(4,5) by (auto simp: marg_eq_def isReg_def)
  then show ?thesis
    using assms by (simp add: use_set_def update_uses_def use_mem_def operands_plain_def bs_alpha_new)
qed

lemma read_uids_seen:
  assumes "code_fits n x" "operands_plain x" "uid \<in> read_uids x"
  shows "uid \<in> def_uids (read_args x) \<or> (\<exists>k < mi_n_args x. \<not> isReg (mi_args x ! k) \<and> uid \<in> arg_uids (mi_args x ! k))"
proof -
  have n4: "mi_n_args x \<le> 4" using assms(1) by (simp add: code_fits_def)
  have mem: "\<exists>k < mi_n_args x. \<not> isReg (mi_args x ! k) \<and> uid \<in> arg_uids (mi_args x ! k)"
    if a: "a \<in> operands x" "\<not> isReg a" "uid \<in> arg_uids a" for a
  proof -
    obtain k where k: "k < 4" "a = mi_args x ! k" using a(1) by (auto simp: operands_def)
    then have "k < mi_n_args x" using a(3) assms(2) unfolding operands_plain_def arg_uids_def
      by (metis empty_iff image_empty list.set(1) not_le)
    then show ?thesis using k a by blast
  qed
  consider d where "d \<in> set (read_args x)" "uid \<in> arg_uids (snd d)"
    | d where "d \<in> set (written_args x)" "\<not> isReg (snd d)" "uid \<in> arg_uids (snd d)"
    using assms(3) by (auto simp: read_uids_eq)
  then show ?thesis
  proof cases
    case 1
    show ?thesis
    proof (cases "isReg (snd d)")
      case True
      then show ?thesis using 1 by (auto simp: def_uids_def arg_uids_def isReg_regs)
    next
      case False
      then show ?thesis using mem[OF read_args_in[OF 1(1) n4] _ 1(2)] by blast
    qed
  next
    case 2
    then show ?thesis using mem[OF written_args_in] by blast
  qed
qed

text \<open>Every register the liveness tables or the machine call used is called read, and the registers called written are
  the defined ones but for the stack pointer.\<close>

lemma next_reads_need:
  assumes x: "code_fits n x" "operands_plain x"
  shows "use_set n x \<subseteq> next_reads x" "writes_listed x \<Longrightarrow> need_set n x \<subseteq> next_reads x"
proof -
  have no_lxor: "mi_op x \<noteq> GArith GArith_lxor2 \<or> \<not> marg_eq (mi_args x ! 1) (mi_args x ! 2)"
    using x(2) by (auto simp: operands_plain_def)
  have xor: "A \<subseteq> next_reads x"
    if A: "A \<subseteq> read_uids x \<union> (if stack_op (mi_op x) then {sp_uid} else {})"
      "mi_op x = GVec GVec_vXor \<Longrightarrow> isReg (mi_args x ! 1) \<Longrightarrow> marg_eq (mi_args x ! 1) (mi_args x ! 2) \<Longrightarrow> A = {}" for A
  proof
    fix uid
    assume u: "uid \<in> A"
    then have "uid \<notin> next_cancelled x" using A(2) no_lxor by (auto simp: next_cancelled_def Let_def)
    moreover have "uid \<in> def_uids (read_args x)
        \<or> uid \<in> (\<Union>k < mi_n_args x. if isReg (mi_args x ! k) then {} else arg_uids (mi_args x ! k)) \<or> stack_op (mi_op x) \<and> uid = sp_uid"
      using u A(1) read_uids_seen[OF x, of uid] by (auto split: if_splits)
    ultimately show "uid \<in> next_reads x" by (auto simp: next_reads_def)
  qed
  show use: "use_set n x \<subseteq> next_reads x" by (rule xor[OF use_set_reads[OF x(1)]]) (rule use_set_xor[OF x])
  show "need_set n x \<subseteq> next_reads x" if w: "writes_listed x"
  proof -
    have l: "\<not> reads_lost x" "\<not> is_physical_call x" using x(1) w by (simp_all add: code_fits_def writes_listed_def)
    have "machine_reads x \<subseteq> read_uids x \<union> (if stack_op (mi_op x) then {sp_uid} else {})"
      using source_args_listed[OF l(1)] l(2) unfolding machine_reads_def read_uids_eq by (simp add: subset_iff split: if_splits)
    moreover have "machine_reads x = {}"
      if v: "mi_op x = GVec GVec_vXor" "isReg (mi_args x ! 1)" "marg_eq (mi_args x ! 1) (mi_args x ! 2)"
    proof -
      have "isReg (mi_args x ! 2)" "vreg_eq (ma_reg (mi_args x ! 1)) (ma_reg (mi_args x ! 2))"
        using v(2,3) by (auto simp: marg_eq_def isReg_def)
      then have "source_args x = []" using v by (simp add: source_args_def self_xor_def Let_def)
      then show ?thesis using v(1) x(2) l(2) by (simp add: machine_reads_def written_args_def operands_plain_def stack_op_def)
    qed
    ultimately show ?thesis using use xor[of "machine_reads x"] by (auto simp: need_set_def)
  qed
qed

lemma next_writes_defs:
  assumes "code_fits n x"
  shows "written_uids x \<subseteq> next_writes x" "next_writes x - {sp_uid} = def_set n x - {sp_uid}"
    "next_writes x - next_reads x \<subseteq> def_set n x"
proof -
  let ?sp = "if mi_op x \<in> {GBase GBase_push, GBase GBase_pop} then {sp_uid} else {}"
  have d: "def_set n x = written_uids x \<union> ?sp"
    using update_def_alpha[of "bs_new n False" x] assms by (simp add: code_fits_def def_set_def bs_alpha_new)
  show "written_uids x \<subseteq> next_writes x" "next_writes x - {sp_uid} = def_set n x - {sp_uid}"
    unfolding d next_writes_def by auto
  have "uid \<in> written_uids x \<or> uid = sp_uid \<and> mi_op x \<in> {GBase GBase_push, GBase GBase_pop, GBase GBase_ret}"
    if "uid \<in> next_writes x" for uid
    using that by (auto simp: next_writes_def split: if_splits)
  moreover have "sp_uid \<in> next_reads x" if "mi_op x \<in> {GBase GBase_push, GBase GBase_pop, GBase GBase_ret}"
    using that by (auto simp: next_reads_def stack_op_def next_cancelled_def Let_def)
  ultimately show "next_writes x - next_reads x \<subseteq> def_set n x" unfolding d by blast
qed

text \<open>The index is the one of the instruction the answer is about.\<close>

definition nu_marked :: "nat \<Rightarrow> NextUseResult \<Rightarrow> bool" where
  "nu_marked i res \<longleftrightarrow> (nu_write res \<or> nu_read res \<longrightarrow> nu_index res = i)"

lemma fold_marked: "(\<And>d r. nu_marked i r \<Longrightarrow> nu_marked i (g d r)) \<Longrightarrow> nu_marked i res \<Longrightarrow> nu_marked i (fold g ds res)"
  by (induction ds arbitrary: res) simp_all

lemma nu_marked_steps:
  "nu_marked i res \<Longrightarrow> nu_marked i (nu_written uid i d res)" "nu_marked i res \<Longrightarrow> nu_marked i (nu_read_arg uid i d res)"
  "nu_marked i res \<Longrightarrow> nu_marked i (nu_addr uid i a res)" "nu_marked i res \<Longrightarrow> nu_marked i (nu_stack x uid i res)"
  "nu_marked i res \<Longrightarrow> nu_marked i (nu_call x uid i res)" "nu_marked i res \<Longrightarrow> nu_marked i (nu_idioms x uid res)"
  by (auto simp: nu_marked_def nu_written_def nu_read_arg_def nu_addr_def nu_stack_def nu_call_def nu_idioms_def Let_def)

lemma next_use_instr_marked: "nu_marked i res \<Longrightarrow> nu_marked i (next_use_instr x uid i res)"
  by (auto simp: next_use_instr_def Let_def intro!: fold_marked nu_marked_steps)

definition code_plain :: "nat \<Rightarrow> MInstr list \<Rightarrow> bool" where
  "code_plain n xs \<longleftrightarrow> (\<forall>x \<in> set xs. code_fits n x \<and> operands_plain x)"

lemma code_plain_Cons: "code_plain n (x # xs) \<longleftrightarrow> code_fits n x \<and> operands_plain x \<and> code_plain n xs"
  by (auto simp: code_plain_def)

text \<open>The answer of the loop about the instructions it looks at, the first of which has the index \<open>i\<close>: it is about the
  first one that reads or writes the register.\<close>

definition next_hit :: "nat \<Rightarrow> MInstr \<Rightarrow> bool" where
  "next_hit uid x \<longleftrightarrow> uid \<in> next_reads x \<union> next_writes x"

definition next_use_ok :: "MInstr list \<Rightarrow> nat \<Rightarrow> nat \<Rightarrow> NextUseResult \<Rightarrow> bool" where
  "next_use_ok ys uid i nu \<longleftrightarrow>
     (\<forall>k < length ys. next_hit uid (ys ! k) \<and> (\<forall>l < k. \<not> next_hit uid (ys ! l)) \<longrightarrow> nu_index nu = i + k
        \<and> (nu_read nu \<longleftrightarrow> uid \<in> next_reads (ys ! k)) \<and> (nu_write nu \<longleftrightarrow> uid \<in> next_writes (ys ! k)))
   \<and> ((\<forall>l < length ys. \<not> next_hit uid (ys ! l)) \<longrightarrow> \<not> nu_read nu \<and> \<not> nu_write nu)"

lemma all_less_Cons: "(\<forall>l < Suc k. P ((x # xs) ! l)) \<longleftrightarrow> P x \<and> (\<forall>l < k. P (xs ! l))"
  by (auto simp: less_Suc_eq_0_disj)

lemma next_use_ok_here:
  assumes "next_hit uid x" "nu_index nu = i" "nu_read nu \<longleftrightarrow> uid \<in> next_reads x" "nu_write nu \<longleftrightarrow> uid \<in> next_writes x"
  shows "next_use_ok (x # xs) uid i nu"
proof -
  have "k = 0" if "\<forall>l < k. \<not> next_hit uid ((x # xs) ! l)" for k
    using that assms(1) by (metis gr0I nth_Cons_0)
  then have "nu_index nu = i + k \<and> (nu_read nu \<longleftrightarrow> uid \<in> next_reads ((x # xs) ! k)) \<and> (nu_write nu \<longleftrightarrow> uid \<in> next_writes ((x # xs) ! k))"
    if "\<forall>l < k. \<not> next_hit uid ((x # xs) ! l)" for k
    using that assms(2-4) by fastforce
  moreover have "\<not> (\<forall>l < length (x # xs). \<not> next_hit uid ((x # xs) ! l))" using assms(1) by auto
  ultimately show ?thesis unfolding next_use_ok_def by blast
qed

lemma next_use_ok_later:
  assumes "next_use_ok xs uid (Suc i) nu" "\<not> next_hit uid x"
  shows "next_use_ok (x # xs) uid i nu"
  unfolding next_use_ok_def
proof (intro conjI allI impI)
  fix k
  assume k: "k < length (x # xs)" "next_hit uid ((x # xs) ! k) \<and> (\<forall>l < k. \<not> next_hit uid ((x # xs) ! l))"
  obtain j where j: "k = Suc j" using k(2) assms(2) by (cases k) auto
  then have h: "j < length xs" "next_hit uid (xs ! j)" "\<forall>l < j. \<not> next_hit uid (xs ! l)"
    using k by (simp_all add: all_less_Cons[where P = "\<lambda>y. \<not> next_hit uid y"])
  have "nu_index nu = Suc i + j \<and> (nu_read nu \<longleftrightarrow> uid \<in> next_reads (xs ! j)) \<and> (nu_write nu \<longleftrightarrow> uid \<in> next_writes (xs ! j))"
    using assms(1) h unfolding next_use_ok_def by blast
  then show "nu_index nu = i + k" "nu_read nu \<longleftrightarrow> uid \<in> next_reads ((x # xs) ! k)"
    "nu_write nu \<longleftrightarrow> uid \<in> next_writes ((x # xs) ! k)" by (simp_all add: j)
next
  assume "\<forall>l < length (x # xs). \<not> next_hit uid ((x # xs) ! l)"
  then have "\<forall>l < length xs. \<not> next_hit uid (xs ! l)" by (simp add: all_less_Cons[where P = "\<lambda>y. \<not> next_hit uid y"])
  then show "\<not> nu_read nu" "\<not> nu_write nu" using assms(1) unfolding next_use_ok_def by blast+
qed

lemma next_use_loop_ok:
  assumes "\<not> nu_write res" "\<not> nu_read res"
  shows "next_use_ok xs uid i (next_use_loop xs uid i res)"
  using assms
proof (induction xs arbitrary: i res)
  case (Cons x xs)
  let ?res = "next_use_instr x uid i res"
  note s = next_use_instr_exact[OF Cons.prems, of x uid i]
  show ?case
  proof (cases "next_hit uid x")
    case True
    then have set: "nu_write ?res \<or> nu_read ?res" using s by (auto simp: next_hit_def)
    have "nu_marked i ?res" by (rule next_use_instr_marked) (simp add: nu_marked_def Cons.prems)
    then have "nu_index ?res = i" using set by (simp add: nu_marked_def)
    then have "next_use_ok (x # xs) uid i ?res" using True s by (intro next_use_ok_here)
    then show ?thesis using set by (auto simp: Let_def)
  next
    case False
    then have none: "\<not> nu_write ?res" "\<not> nu_read ?res" using s by (auto simp: next_hit_def)
    then show ?thesis using next_use_ok_later[OF Cons.IH[OF none] False] by (auto simp: Let_def)
  qed
qed (simp add: next_use_ok_def)

lemma nu_start_flags [simp]: "\<not> nu_write nu_start" "\<not> nu_read nu_start"
  by (simp_all add: nu_start_def)

lemma code_plain_drop: "code_plain n xs \<Longrightarrow> code_plain n (drop i xs)"
  by (auto simp: code_plain_def dest: in_set_dropD)

lemma find_next_use_ok:
  "next_use_ok (drop i (take (if m = 0 then length xs else m) xs)) uid i (find_next_use xs uid i m)"
  by (simp add: find_next_use_def next_use_loop_ok)

text \<open>What the pass relies on: a needed register that no definition precedes is reported as a read; a write that is no
  read is a definition.\<close>

lemma first_hit: "l < n \<Longrightarrow> P l \<Longrightarrow> \<exists>k < n. P k \<and> (\<forall>j < k. \<not> P j)" for n :: nat
  by (rule exI[of _ "LEAST k. P k"]) (meson LeastI Least_le le_less_trans not_less_Least)

lemma next_use_first:
  assumes "nu_write (find_next_use xs uid i 0) \<or> nu_read (find_next_use xs uid i 0) \<or> i \<le> l \<and> l < length xs \<and> next_hit uid (xs ! l)"
  obtains k where "i \<le> k" "k < length xs" "\<And>j. i \<le> j \<Longrightarrow> j < k \<Longrightarrow> \<not> next_hit uid (xs ! j)"
    "nu_read (find_next_use xs uid i 0) \<longleftrightarrow> uid \<in> next_reads (xs ! k)" "nu_write (find_next_use xs uid i 0) \<longleftrightarrow> uid \<in> next_writes (xs ! k)"
    "next_hit uid (xs ! k)"
proof -
  have ok: "next_use_ok (drop i xs) uid i (find_next_use xs uid i 0)" using find_next_use_ok[of i 0 xs uid] by simp
  have "\<exists>j < length (drop i xs). next_hit uid (drop i xs ! j)"
  proof (cases "i \<le> l \<and> l < length xs \<and> next_hit uid (xs ! l)")
    case True
    then show ?thesis by (intro exI[of _ "l - i"]) (simp add: diff_less_mono)
  next
    case False
    then show ?thesis using assms ok unfolding next_use_ok_def by blast
  qed
  then obtain j where "j < length (drop i xs)" "next_hit uid (drop i xs ! j)" by blast
  from first_hit[where P = "\<lambda>j. next_hit uid (drop i xs ! j)", OF this]
  obtain k where k: "k < length (drop i xs)" "next_hit uid (drop i xs ! k)" "\<forall>j < k. \<not> next_hit uid (drop i xs ! j)" by blast
  then have "(nu_read (find_next_use xs uid i 0) \<longleftrightarrow> uid \<in> next_reads (drop i xs ! k))
      \<and> (nu_write (find_next_use xs uid i 0) \<longleftrightarrow> uid \<in> next_writes (drop i xs ! k))"
    using ok unfolding next_use_ok_def by blast
  moreover have "\<not> next_hit uid (xs ! j)" if "i \<le> j" "j < i + k" for j
    using k(3)[rule_format, of "j - i"] that k(1) by simp
  ultimately show thesis using k(1,2) by (intro that[of "i + k"]) simp_all
qed

definition listed_code :: "nat \<Rightarrow> MInstr list \<Rightarrow> bool" where
  "listed_code n xs \<longleftrightarrow> code_plain n xs \<and> (\<forall>x \<in> set xs. writes_listed x)"

lemma listed_code_nth:
  assumes "listed_code n xs" "k < length xs"
  shows "need_set n (xs ! k) \<subseteq> next_reads (xs ! k)" "next_writes (xs ! k) - next_reads (xs ! k) \<subseteq> def_set n (xs ! k)"
  using next_reads_need(2)[of n "xs ! k"] next_writes_defs(3)[of n "xs ! k"] assms
  by (auto simp: listed_code_def code_plain_def)

lemma find_next_use_write:
  assumes "listed_code n xs" "nu_write (find_next_use xs uid i 0)" "\<not> nu_read (find_next_use xs uid i 0)"
  shows "\<exists>k. i \<le> k \<and> k < length xs \<and> uid \<in> def_set n (xs ! k) \<and> (\<forall>l. i \<le> l \<and> l \<le> k \<longrightarrow> uid \<notin> need_set n (xs ! l))"
proof -
  obtain k where k: "i \<le> k" "k < length xs" "\<And>j. i \<le> j \<Longrightarrow> j < k \<Longrightarrow> \<not> next_hit uid (xs ! j)"
    "uid \<notin> next_reads (xs ! k)" "uid \<in> next_writes (xs ! k)"
    using next_use_first[of xs uid i 0] assms(2,3) by metis
  have "uid \<notin> next_reads (xs ! l)" if "i \<le> l" "l \<le> k" for l
    using k(3)[of l] k(4) that by (cases "l = k") (auto simp: next_hit_def)
  then have "uid \<notin> need_set n (xs ! l)" if "i \<le> l" "l \<le> k" for l
    using that listed_code_nth(1)[OF assms(1), of l] k(2) by auto
  then show ?thesis using k listed_code_nth(2)[OF assms(1) k(2)] by blast
qed

lemma find_next_use_read:
  assumes "listed_code n xs" "i \<le> j" "j < length xs" "uid \<in> need_set n (xs ! j)" "\<forall>k. i \<le> k \<and> k < j \<longrightarrow> uid \<notin> def_set n (xs ! k)"
  shows "nu_read (find_next_use xs uid i 0)"
proof -
  have j: "uid \<in> next_reads (xs ! j)" using listed_code_nth(1)[OF assms(1,3)] assms(4) by blast
  then have "next_hit uid (xs ! j)" by (simp add: next_hit_def)
  then obtain k where k: "i \<le> k" "k < length xs" "\<And>l. i \<le> l \<Longrightarrow> l < k \<Longrightarrow> \<not> next_hit uid (xs ! l)"
    "nu_read (find_next_use xs uid i 0) \<longleftrightarrow> uid \<in> next_reads (xs ! k)" "next_hit uid (xs ! k)"
    using next_use_first[of xs uid i j] assms(2,3) by metis
  have "k \<le> j" using k(3)[OF assms(2)] \<open>next_hit uid (xs ! j)\<close> by (meson not_le_imp_less)
  then have "k = j \<or> uid \<notin> def_set n (xs ! k)" using assms(5) k(1) by (auto simp: le_less)
  then have "uid \<in> next_reads (xs ! k)"
    using j k(5) listed_code_nth(2)[OF assms(1) k(2)] by (auto simp: next_hit_def)
  then show ?thesis using k(4) by simp
qed

end
