(* ===== verification/MIRErase.thy ===== *)
theory MIRErase
  imports MIRDce
begin

text \<open>
  Removing one instruction from a function: when its result is dead behind it and it does nothing else, the
  function behaves as before. The lemmas are about single removals, and about the liveness along the machine's
  paths that they change; a pass that removes many instructions is a chain of them.
\<close>

section \<open>Liveness along the machine's paths\<close>

text \<open>Where a live register is needed: at a use further down the block, or behind a branch of it.\<close>

lemma flows_reason:
  "flows n f b i r \<Longrightarrow> \<exists>j. i \<le> j \<and> j < length (bb_code f b) \<and> (\<forall>k. i \<le> k \<and> k < j \<longrightarrow> r \<notin> def_set n (bb_code f b ! k))
     \<and> (r \<in> need_set n (bb_code f b ! j) \<or> (mi_has_bb_ref (bb_code f b ! j) \<and> r \<notin> def_set n (bb_code f b ! j)
          \<and> flows n f (mi_bb_ref (bb_code f b ! j)) 0 r))"
proof (induction rule: flows.induct)
  case (fl_next i b r)
  then obtain j where j: "Suc i \<le> j" "j < length (bb_code f b)" "\<forall>k. Suc i \<le> k \<and> k < j \<longrightarrow> r \<notin> def_set n (bb_code f b ! k)"
    "r \<in> need_set n (bb_code f b ! j) \<or> (mi_has_bb_ref (bb_code f b ! j) \<and> r \<notin> def_set n (bb_code f b ! j)
       \<and> flows n f (mi_bb_ref (bb_code f b ! j)) 0 r)" by blast
  then show ?case
    using not_def_split[of r "\<lambda>k. def_set n (bb_code f b ! k)" i j] fl_next.hyps(2) by (intro exI[of _ j]) simp
qed (use order_refl less_le_not_le in blast)+

section \<open>One removal\<close>

lemma erase_at_nth:
  assumes "i < length xs"
  shows "length (erase_at i xs) = length xs - 1"
    "j < length xs - 1 \<Longrightarrow> erase_at i xs ! j = xs ! (if i \<le> j then Suc j else j)"
  using assms by (auto simp: erase_at_def nth_append min_def)

definition pure_instr :: "('v, 'm) machine \<Rightarrow> MInstr \<Rightarrow> bool" where
  "pure_instr sem x \<longleftrightarrow> (\<forall>rs m. snd (sem x rs m) = (m, False))"

definition removable :: "nat \<Rightarrow> ('v, 'm) machine \<Rightarrow> MFunc \<Rightarrow> nat \<Rightarrow> nat \<Rightarrow> bool" where
  "removable n sem f b i \<longleftrightarrow> i < length (bb_code f b) \<and> \<not> mi_has_bb_ref (bb_code f b ! i)
     \<and> pure_instr sem (bb_code f b ! i) \<and> (\<forall>r \<in> def_set n (bb_code f b ! i). \<not> flows n f b (Suc i) r)"

definition erased :: "MFunc \<Rightarrow> nat \<Rightarrow> nat \<Rightarrow> MFunc \<Rightarrow> bool" where
  "erased f b i g \<longleftrightarrow> bb_code g = (bb_code f)(b := erase_at i (bb_code f b))"

text \<open>The position an instruction of the new function had in the old one.\<close>

definition old_pos :: "nat \<Rightarrow> nat \<Rightarrow> nat \<Rightarrow> nat \<Rightarrow> nat" where
  "old_pos b i c j = (if c = b \<and> i \<le> j then Suc j else j)"

lemma erased_nth:
  assumes "erased f b i g" "i < length (bb_code f b)"
  shows "j < length (bb_code g c) \<longleftrightarrow> old_pos b i c j < length (bb_code f c)"
    "j < length (bb_code g c) \<Longrightarrow> bb_code g c ! j = bb_code f c ! old_pos b i c j"
  using assms(1) erase_at_nth[OF assms(2)] assms(2) by (auto simp: erased_def old_pos_def)

lemma removable_flows:
  assumes "removable n sem f b i" "flows n f b (Suc i) r"
  shows "flows n f b i r"
  using assms by (auto simp: removable_def intro: fl_next)

text \<open>A removal makes no register live.\<close>

lemma erased_flows:
  assumes e: "erased f b i g" and rm: "removable n sem f b i"
  shows "flows n g c j r \<Longrightarrow> flows n f c (old_pos b i c j) r"
proof (induction rule: flows.induct)
  case (fl_use j c r)
  have i: "i < length (bb_code f b)" using rm by (simp add: removable_def)
  show ?case using fl_use erased_nth[OF e i] by (auto intro: flows.fl_use)
next
  case (fl_next j c r)
  have i: "i < length (bb_code f b)" using rm by (simp add: removable_def)
  have "flows n f c (Suc (old_pos b i c j)) r"
  proof (cases "c = b \<and> i = Suc j")
    case True
    then show ?thesis using removable_flows[OF rm] fl_next.IH by (simp add: old_pos_def)
  next
    case False
    then have "old_pos b i c (Suc j) = Suc (old_pos b i c j)" by (auto simp: old_pos_def)
    then show ?thesis using fl_next.IH by simp
  qed
  then show ?case using fl_next.hyps erased_nth[OF e i] by (auto intro: flows.fl_next)
next
  case (fl_branch j c r)
  have i: "i < length (bb_code f b)" using rm by (simp add: removable_def)
  let ?d = "mi_bb_ref (bb_code g c ! j)"
  have "flows n f ?d 0 r"
    using fl_branch.IH removable_flows[OF rm] by (auto simp: old_pos_def split: if_splits)
  then show ?case using fl_branch.hyps erased_nth[OF e i] by (auto intro: flows.fl_branch)
qed

lemma erased_flows_entry:
  assumes "erased f b i g" "removable n sem f b i" "flows n g c 0 r"
  shows "flows n f c 0 r"
  using erased_flows[OF assms] removable_flows[OF assms(2)] by (auto simp: old_pos_def split: if_splits)

text \<open>The instructions of the function respect their registers, and its branches name blocks of it.\<close>

definition code_respects :: "nat \<Rightarrow> ('v, 'm) machine \<Rightarrow> MFunc \<Rightarrow> bool" where
  "code_respects n sem f \<longleftrightarrow> (\<forall>b < length (mf_bbs f). \<forall>x \<in> set (bb_code f b).
     instr_respects n sem x \<and> (mi_has_bb_ref x \<longrightarrow> mi_bb_ref x < length (mf_bbs f)))"

lemma code_respects_nth:
  assumes "code_respects n sem f" "b < length (mf_bbs f)" "i < length (bb_code f b)"
  shows "instr_respects n sem (bb_code f b ! i)" "mi_has_bb_ref (bb_code f b ! i) \<Longrightarrow> mi_bb_ref (bb_code f b ! i) < length (mf_bbs f)"
  using assms nth_mem[OF assms(3)] by (simp_all add: code_respects_def)

text \<open>Related states: at the same instruction, the removed one counting as the one behind it, with the same
  memory and the same live registers.\<close>

fun erase_sim :: "nat \<Rightarrow> MFunc \<Rightarrow> nat \<Rightarrow> nat \<Rightarrow> nat \<times> nat \<times> 'v regs \<times> 'm \<Rightarrow> nat \<times> nat \<times> 'v regs \<times> 'm \<Rightarrow> bool" where
  "erase_sim n f b i (c, j, rs, m) (c', j', rs', m') \<longleftrightarrow>
     c' = c \<and> c < length (mf_bbs f) \<and> m' = m \<and> j' = (if c = b \<and> i < j then j - 1 else j) \<and> agree {r. flows n f c j r} rs rs'"

fun at_pos :: "nat \<Rightarrow> nat \<Rightarrow> nat \<times> nat \<times> 'v regs \<times> 'm \<Rightarrow> bool" where
  "at_pos b i (c, j, rs, m) \<longleftrightarrow> c = b \<and> j = i"

lemma old_pos_back:
  assumes "\<not> (c = b \<and> j = i)"
  shows "old_pos b i c (if c = b \<and> i < j then j - 1 else j) = j"
  using assms by (auto simp: old_pos_def)

lemma sim_skip:
  assumes rm: "removable n sem f b i" and sem: "code_respects n sem f" and s: "at_pos b i s" "erase_sim n f b i s t"
  shows "\<exists>u. machine_step sem f s = Some u \<and> erase_sim n f b i u t \<and> \<not> at_pos b i u"
proof -
  obtain rs m rs' where st: "s = (b, i, rs, m)" "t = (b, i, rs', m)" "agree {r. flows n f b i r} rs rs'" "b < length (mf_bbs f)"
    using s by (cases s; cases t) auto
  let ?x = "bb_code f b ! i"
  obtain rs1 where x: "sem ?x rs m = (rs1, m, False)"
    using rm by (metis pure_instr_def removable_def prod.collapse)
  have i: "i < length (bb_code f b)" using rm by (simp add: removable_def)
  have keep: "agree (- def_set n ?x) rs1 rs"
    using code_respects_nth(1)[OF sem st(4) i] x unfolding instr_respects_def by (metis fst_conv)
  have "agree {r. flows n f b (Suc i) r} rs1 rs'"
    using rm removable_flows[OF rm] keep st(3) by (auto simp: agree_def removable_def)
  then show ?thesis using rm st x by (simp add: removable_def)
qed

lemma sim_step:
  assumes e: "erased f b i g" and rm: "removable n sem f b i" and sem: "code_respects n sem f"
    and s: "\<not> at_pos b i s" "erase_sim n f b i s t"
  shows "(machine_step sem f s = None \<and> machine_step sem g t = None)
    \<or> (\<exists>u v. machine_step sem f s = Some u \<and> machine_step sem g t = Some v \<and> erase_sim n f b i u v)"
proof -
  obtain c j rs m where s': "s = (c, j, rs, m)" by (cases s)
  let ?j = "if c = b \<and> i < j then j - 1 else j" and ?x = "bb_code f c ! j"
  obtain rs' where t: "t = (c, ?j, rs', m)" and ag: "agree {r. flows n f c j r} rs rs'" and c: "c < length (mf_bbs f)"
    using s(2) s' by (cases t) auto
  have i: "i < length (bb_code f b)" using rm by (simp add: removable_def)
  have nat_at: "\<not> (c = b \<and> j = i)" using s(1) s' by simp
  note pos = old_pos_back[OF nat_at]
  have len: "?j < length (bb_code g c) \<longleftrightarrow> j < length (bb_code f c)" using erased_nth(1)[OF e i, of ?j c] pos by simp
  show ?thesis
  proof (cases "j < length (bb_code f c)")
    case False
    then show ?thesis using s' t len by simp
  next
    case True
    have same_x: "bb_code g c ! ?j = ?x" using erased_nth(2)[OF e i, of ?j c] len True pos by simp
    obtain rs1 m1 l where x: "sem ?x rs m = (rs1, m1, l)" by (metis prod_cases3)
    obtain rs2 m2 l' where x': "sem ?x rs' m = (rs2, m2, l')" by (metis prod_cases3)
    have "agree (need_set n ?x) rs rs'" using ag True by (auto simp: agree_def intro: fl_use)
    note step = respects_step[OF code_respects_nth(1)[OF sem c True] this x x']
    note same = step(1-3) and keep = step(4,5)
    have next_ok: "agree A rs1 rs2" if A: "\<And>r. r \<in> A \<Longrightarrow> r \<notin> def_set n ?x \<Longrightarrow> flows n f c j r" for A
      unfolding agree_def
    proof
      fix r
      assume "r \<in> A"
      then show "rs1 r = rs2 r"
        using A same(3) keep ag unfolding agree_def by (cases "r \<in> def_set n ?x") auto
    qed
    have f: "machine_step sem f s = Some (if l \<and> mi_has_bb_ref ?x then (mi_bb_ref ?x, 0, rs1, m1) else (c, Suc j, rs1, m1))"
      using True x s' by (simp add: Let_def)
    have "machine_step sem g t = Some (if l \<and> mi_has_bb_ref ?x then (mi_bb_ref ?x, 0, rs2, m1) else (c, Suc ?j, rs2, m1))"
      unfolding t using len True x' same(1,2) by (simp add: Let_def same_x del: if_split)
    moreover have "erase_sim n f b i (if l \<and> mi_has_bb_ref ?x then (mi_bb_ref ?x, 0, rs1, m1) else (c, Suc j, rs1, m1))
        (if l \<and> mi_has_bb_ref ?x then (mi_bb_ref ?x, 0, rs2, m1) else (c, Suc ?j, rs2, m1))"
    proof (cases "l \<and> mi_has_bb_ref ?x")
      case leave: True
      have "agree {r. flows n f (mi_bb_ref ?x) 0 r} rs1 rs2"
        by (rule next_ok) (use True leave in \<open>auto intro: fl_branch\<close>)
      then show ?thesis using leave code_respects_nth(2)[OF sem c True] by simp
    next
      case stay: False
      have "agree {r. flows n f c (Suc j) r} rs1 rs2" by (rule next_ok) (use True in \<open>auto intro: fl_next\<close>)
      then show ?thesis using stay nat_at c by auto
    qed
    ultimately show ?thesis using f by blast
  qed
qed

section \<open>Behaviour\<close>

text \<open>What a run shows: the blocks it visits with the memory it has there, and where it ends.\<close>

definition visits :: "('v, 'm) machine \<Rightarrow> MFunc \<Rightarrow> nat \<times> nat \<times> 'v regs \<times> 'm \<Rightarrow> nat \<Rightarrow> 'm \<Rightarrow> bool" where
  "visits sem f s c m \<longleftrightarrow> (\<exists>k i rs. machine_run sem f k s = Some (c, i, rs, m))"

definition ends :: "('v, 'm) machine \<Rightarrow> MFunc \<Rightarrow> nat \<times> nat \<times> 'v regs \<times> 'm \<Rightarrow> nat \<Rightarrow> 'm \<Rightarrow> bool" where
  "ends sem f s c m \<longleftrightarrow> (\<exists>k i rs. machine_run sem f k s = Some (c, i, rs, m) \<and> machine_step sem f (c, i, rs, m) = None)"

definition same_behaviour :: "('v, 'm) machine \<Rightarrow> MFunc \<Rightarrow> MFunc \<Rightarrow> nat \<times> nat \<times> 'v regs \<times> 'm \<Rightarrow> bool" where
  "same_behaviour sem f g s \<longleftrightarrow> (\<forall>c m. (visits sem f s c m \<longleftrightarrow> visits sem g s c m) \<and> (ends sem f s c m \<longleftrightarrow> ends sem g s c m))"

lemma same_behaviour_refl [simp]: "same_behaviour sem f f s"
  by (simp add: same_behaviour_def)

lemma same_behaviour_trans: "same_behaviour sem f g s \<Longrightarrow> same_behaviour sem g h s \<Longrightarrow> same_behaviour sem f h s"
  by (simp add: same_behaviour_def)

lemma run_snoc:
  "machine_run sem f k s = Some u \<Longrightarrow> machine_step sem f u = Some v \<Longrightarrow> machine_run sem f (Suc k) s = Some v"
proof (induction k arbitrary: s)
  case (Suc k)
  obtain s' where s': "machine_step sem f s = Some s'" "machine_run sem f k s' = Some u"
    using Suc.prems(1) by (auto simp del: machine_step.simps split: option.splits)
  then show ?case using Suc.IH[OF s'(2) Suc.prems(2)] machine_run.simps(2)[of sem f "Suc k" s] by simp
qed simp

lemma run_last:
  assumes "machine_run sem f (Suc k) s = Some v"
  obtains w where "machine_run sem f k s = Some w" "machine_step sem f w = Some v"
  using assms
proof (induction k arbitrary: s thesis)
  case (Suc k)
  then obtain s' where s': "machine_step sem f s = Some s'" "machine_run sem f (Suc k) s' = Some v"
    by (auto simp del: machine_step.simps split: option.splits)
  obtain w where "machine_run sem f k s' = Some w" "machine_step sem f w = Some v" using Suc.IH[OF _ s'(2)] by blast
  then show ?case using Suc.prems(1)[of w] s'(1) by simp
qed (auto simp del: machine_step.simps split: option.splits)

lemma run_forward:
  assumes "erased f b i g" "removable n sem f b i" "code_respects n sem f"
  shows "erase_sim n f b i s t \<Longrightarrow> machine_run sem f k s = Some u \<Longrightarrow>
    \<exists>k' v. machine_run sem g k' t = Some v \<and> erase_sim n f b i u v"
proof (induction k arbitrary: s t)
  case 0
  then show ?case by (intro exI[of _ 0] exI[of _ t]) simp
next
  case (Suc k)
  obtain s' where s': "machine_step sem f s = Some s'" "machine_run sem f k s' = Some u"
    using Suc.prems(2) by (auto split: option.splits)
  show ?case
  proof (cases "at_pos b i s")
    case True
    then show ?thesis using sim_skip[OF assms(2,3) True Suc.prems(1)] s' Suc.IH[of s' t] by auto
  next
    case False
    obtain t' where t': "machine_step sem g t = Some t'" "erase_sim n f b i s' t'"
      using sim_step[OF assms False Suc.prems(1)] s'(1) by auto
    then obtain k' v where "machine_run sem g k' t' = Some v" "erase_sim n f b i u v" using Suc.IH[OF _ s'(2)] by blast
    then show ?thesis using t'(1) by (intro exI[of _ "Suc k'"]) simp
  qed
qed

lemma run_backward:
  assumes "erased f b i g" "removable n sem f b i" "code_respects n sem f"
  shows "erase_sim n f b i s t \<Longrightarrow> machine_run sem g k t = Some v \<Longrightarrow>
    \<exists>k' u. machine_run sem f k' s = Some u \<and> erase_sim n f b i u v"
proof (induction k arbitrary: v)
  case 0
  then show ?case by (intro exI[of _ 0] exI[of _ s]) simp
next
  case (Suc k)
  obtain w where w: "machine_run sem g k t = Some w" "machine_step sem g w = Some v"
    using Suc.prems(2) by (rule run_last)
  obtain k' u where u: "machine_run sem f k' s = Some u" "erase_sim n f b i u w" using Suc.IH[OF Suc.prems(1) w(1)] by blast
  have "\<exists>k' u. machine_run sem f k' s = Some u \<and> erase_sim n f b i u w \<and> \<not> at_pos b i u"
    using u sim_skip[OF assms(2,3) _ u(2)] run_snoc[OF u(1)] by blast
  then obtain k' u where u: "machine_run sem f k' s = Some u" "erase_sim n f b i u w" "\<not> at_pos b i u" by blast
  then obtain u' where "machine_step sem f u = Some u'" "erase_sim n f b i u' v"
    using sim_step[OF assms u(3,2)] w(2) by auto
  then show ?case using run_snoc[OF u(1)] by blast
qed

lemma erased_same_behaviour:
  assumes e: "erased f b i g" and rm: "removable n sem f b i" and sem: "code_respects n sem f"
    and c: "c < length (mf_bbs f)"
  shows "same_behaviour sem f g (c, 0, rs, m)"
proof -
  let ?s = "(c, 0, rs, m)"
  have start: "erase_sim n f b i ?s ?s" using c by (simp add: agree_def)
  have off: "\<exists>k u. machine_run sem f k ?s = Some u \<and> erase_sim n f b i u v \<and> \<not> at_pos b i u"
    if v: "machine_run sem g k ?s = Some v" for k v
  proof -
    obtain k' u where u: "machine_run sem f k' ?s = Some u" "erase_sim n f b i u v"
      using run_backward[OF e rm sem start v] by blast
    then show ?thesis using sim_skip[OF rm sem _ u(2)] run_snoc[OF u(1)] by blast
  qed
  have last_at: "\<not> at_pos b i u" if "machine_step sem f u = None" for u
    using that rm by (cases u) (auto simp: removable_def Let_def split: if_splits prod.splits)
  show ?thesis
    unfolding same_behaviour_def
  proof (intro allI conjI iffI)
    fix c' m'
    show "visits sem g ?s c' m'" if "visits sem f ?s c' m'"
      using that run_forward[OF e rm sem start] unfolding visits_def by fastforce
    show "visits sem f ?s c' m'" if "visits sem g ?s c' m'"
      using that run_backward[OF e rm sem start] unfolding visits_def by fastforce
    show "ends sem g ?s c' m'" if en: "ends sem f ?s c' m'"
    proof -
      obtain k j rs1 where u: "machine_run sem f k ?s = Some (c', j, rs1, m')" "machine_step sem f (c', j, rs1, m') = None"
        using en by (auto simp only: ends_def)
      obtain k' v where v: "machine_run sem g k' ?s = Some v" "erase_sim n f b i (c', j, rs1, m') v"
        using run_forward[OF e rm sem start u(1)] by blast
      moreover have "machine_step sem g v = None" using sim_step[OF e rm sem last_at[OF u(2)] v(2)] u(2) by simp
      ultimately show ?thesis unfolding ends_def by (cases v) (auto simp del: machine_step.simps)
    qed
    show "ends sem f ?s c' m'" if en: "ends sem g ?s c' m'"
    proof -
      obtain k j rs1 where v: "machine_run sem g k ?s = Some (c', j, rs1, m')" "machine_step sem g (c', j, rs1, m') = None"
        using en by (auto simp only: ends_def)
      obtain k' u where u: "machine_run sem f k' ?s = Some u" "erase_sim n f b i u (c', j, rs1, m')" "\<not> at_pos b i u"
        using off[OF v(1)] by blast
      moreover have "machine_step sem f u = None" using sim_step[OF e rm sem u(3,2)] v(2) by simp
      ultimately show ?thesis unfolding ends_def by (cases u) (auto simp del: machine_step.simps)
    qed
  qed
qed

end
