(* ===== verification/MIRDceSpec.thy ===== *)
theory MIRDceSpec
  imports MIRErase RegCollSpec "HOL-Library.Sublist"
begin

text \<open>
  \<^verbatim>\<open>DeadCodeElim\<close> keeps the behaviour of a function: the pass is a chain of removals, each of them
  allowed by the liveness of the original function, which over-approximates the one of every function on the way.
\<close>

section \<open>One decision\<close>

text \<open>What the pass expects of the code: the operand forms of the tables, and that a branch is never called
  applicable.\<close>

definition dce_code :: "nat \<Rightarrow> MInstr list \<Rightarrow> bool" where
  "dce_code n xs \<longleftrightarrow> code_plain n xs \<and> (\<forall>x \<in> set xs. is_applicable (mi_op x) \<longrightarrow> \<not> mi_has_bb_ref x)"

text \<open>What it expects of the machine: an applicable instruction that writes one register does nothing else.\<close>

definition dce_pure :: "('v, 'm) machine \<Rightarrow> bool" where
  "dce_pure sem \<longleftrightarrow> (\<forall>x. is_applicable (mi_op x) \<and> only_target x \<noteq> None \<longrightarrow> pure_instr sem x)"

lemma only_target_def_set:
  assumes "code_fits n x" "is_applicable (mi_op x)" "only_target x = Some uid"
  shows "def_set n x = {uid}"
proof -
  obtain d where d: "written_args x = [d]" "isReg (snd d)" "uid = reg_to_uid (ma_reg (snd d))"
    using assms(3) by (auto simp: only_target_def split: list.splits if_splits)
  have "written_uids x = {uid}" using d by (simp add: written_uids_eq)
  moreover have "mi_op x \<notin> {GBase GBase_push, GBase GBase_pop}" using assms(2) by auto
  ultimately show ?thesis
    using update_def_alpha[of "bs_new n False" x] assms(1) by (simp add: code_fits_def def_set_def bs_alpha_new)
qed

text \<open>The function on the way, and what is known of it.\<close>

definition dce_inv :: "nat \<Rightarrow> ('v, 'm) machine \<Rightarrow> MFunc \<Rightarrow> MFunc \<Rightarrow> bool" where
  "dce_inv n sem f g \<longleftrightarrow> length (mf_bbs g) = length (mf_bbs f)
     \<and> (\<forall>c < length (mf_bbs f). subseq (bb_code g c) (bb_code f c)
          \<and> set (targets (bb_code g c)) = set (targets (bb_code f c)) \<and> code_branches_last n (bb_code g c))
     \<and> (\<forall>c r. flows n g c 0 r \<longrightarrow> flows n f c 0 r)
     \<and> (\<forall>c < length (mf_bbs f). \<forall>rs m. same_behaviour sem f g (c, 0, rs, m))"

lemma subseq_set: "subseq xs ys \<Longrightarrow> set xs \<subseteq> set ys"
  by (auto dest: list_emb_set)

lemma dce_code_subseq: "dce_code n ys \<Longrightarrow> subseq xs ys \<Longrightarrow> dce_code n xs"
  using subseq_set[of xs ys] by (auto simp: dce_code_def code_plain_def)

lemma erase_at_subseq: "subseq (erase_at i xs) xs"
proof (induction xs arbitrary: i)
  case (Cons x xs)
  then show ?case by (cases i) (auto simp: erase_at_def intro: list_emb_Cons)
qed (simp add: erase_at_def)

lemma erase_at_split: "i < length xs \<Longrightarrow> \<exists>us vs. xs = us @ xs ! i # vs \<and> erase_at i xs = us @ vs \<and> length us = i"
  by (intro exI[of _ "take i xs"] exI[of _ "drop (Suc i) xs"]) (simp add: erase_at_def id_take_nth_drop)

lemma erase_targets:
  assumes "i < length xs" "\<not> mi_has_bb_ref (xs ! i)"
  shows "targets (erase_at i xs) = targets xs"
proof -
  obtain us vs where "xs = us @ xs ! i # vs" "erase_at i xs = us @ vs" using erase_at_split[OF assms(1)] by blast
  then show ?thesis using assms(2) by (metis filter.simps(2) filter_append targets_def)
qed

lemma branches_last_append:
  "code_branches_last n (us @ x # vs) \<Longrightarrow> \<not> mi_has_bb_ref x \<Longrightarrow> code_branches_last n (us @ vs)"
  by (induction us) (auto simp: killed_def split: if_splits)

lemma erase_branches_last:
  assumes "i < length xs" "\<not> mi_has_bb_ref (xs ! i)" "code_branches_last n xs"
  shows "code_branches_last n (erase_at i xs)"
  using erase_at_split[OF assms(1)] assms(2,3) branches_last_append by metis

lemma dce_inv_respects:
  assumes "dce_inv n sem f g" "code_respects n sem f"
  shows "code_respects n sem g"
  using assms subseq_set unfolding dce_inv_def code_respects_def by (metis subsetD)

lemma dce_inv_erase:
  assumes inv: "dce_inv n sem f g" and e: "erased g b i h" and b: "b < length (mf_bbs f)" "length (mf_bbs h) = length (mf_bbs f)"
    and rm: "removable n sem g b i" and sem: "code_respects n sem f"
  shows "dce_inv n sem f h"
proof -
  have i: "i < length (bb_code g b)" "\<not> mi_has_bb_ref (bb_code g b ! i)" using rm by (simp_all add: removable_def)
  have code: "bb_code h c = (if c = b then erase_at i (bb_code g b) else bb_code g c)" for c
    using e by (simp add: erased_def)
  have "subseq (bb_code h c) (bb_code f c) \<and> set (targets (bb_code h c)) = set (targets (bb_code f c))
      \<and> code_branches_last n (bb_code h c)" if "c < length (mf_bbs f)" for c
    using inv that erase_targets[OF i] erase_branches_last[OF i, of n] subseq_order.trans[OF erase_at_subseq, of "bb_code g b" "bb_code f b" i]
    by (simp add: code dce_inv_def)
  moreover have "flows n f c 0 r" if "flows n h c 0 r" for c r
    using erased_flows_entry[OF e rm that] inv by (simp add: dce_inv_def)
  moreover have "same_behaviour sem f h (c, 0, rs, m)" if "c < length (mf_bbs f)" for c rs m
    using same_behaviour_trans[OF _ erased_same_behaviour[OF e rm dce_inv_respects[OF inv sem]]] inv that
    by (auto simp: dce_inv_def)
  ultimately show ?thesis using b(2) by (simp add: dce_inv_def)
qed

lemma bb_code_in: "b < length (mf_bbs f) \<Longrightarrow> set (bb_code f b) \<subseteq> set (all_instrs f)"
  using nth_mem by (auto simp: bb_code_def all_instrs_def)

text \<open>What the pass removes is removable.\<close>

lemma dce_removes_dead:
  assumes f: "func_fits f" "branches_last f" "machine_code f" and lv: "live_update (cfg_update f False) f = Some lv"
    and inv: "dce_inv (n_unique_regs f) sem f g" and b: "b < length (mf_bbs f)" "i < length (bb_code g b)"
    and code: "dce_code (n_unique_regs f) (bb_code g b)" and sem: "dce_pure sem"
    and app: "is_applicable (mi_op (bb_code g b ! i))" "only_target (bb_code g b ! i) = Some uid"
    and hit: "(nu_write (find_next_use (bb_code g b) uid (Suc i) 0) \<and> \<not> nu_read (find_next_use (bb_code g b) uid (Suc i) 0))
      \<or> \<not> (bs_get (lv_liveOut lv ! b) uid \<or> nu_read (find_next_use (bb_code g b) uid (Suc i) 0))"
  shows "removable (n_unique_regs f) sem g b i"
proof -
  let ?n = "n_unique_regs f" and ?xs = "bb_code g b"
  let ?nu = "find_next_use ?xs uid (Suc i) 0"
  have x: "code_fits ?n (?xs ! i)" "\<not> mi_has_bb_ref (?xs ! i)"
    using code b(2) app(1) nth_mem[OF b(2)] by (auto simp: dce_code_def code_plain_def)
  have plain: "code_plain ?n ?xs" using code by (simp add: dce_code_def)
  have "subseq ?xs (bb_code f b)" using inv b(1) by (simp add: dce_inv_def)
  then have "set ?xs \<subseteq> set (all_instrs f)" using subseq_set bb_code_in[OF b(1)] by blast
  then have listed: "listed_code ?n ?xs" using plain f(3) unfolding listed_code_def machine_code_def by blast
  have d: "def_set ?n (?xs ! i) = {uid}" by (rule only_target_def_set[OF x(1) app])
  have "\<not> flows ?n g b (Suc i) uid"
  proof
    assume "flows ?n g b (Suc i) uid"
    from flows_reason[OF this] obtain j where j: "Suc i \<le> j" "j < length ?xs"
      "\<forall>k. Suc i \<le> k \<and> k < j \<longrightarrow> uid \<notin> def_set ?n (?xs ! k)"
      "uid \<in> need_set ?n (?xs ! j) \<or> (mi_has_bb_ref (?xs ! j) \<and> uid \<notin> def_set ?n (?xs ! j)
         \<and> flows ?n g (mi_bb_ref (?xs ! j)) 0 uid)" by blast
    show False
    proof (cases "nu_read ?nu")
      case True
      then show False using hit by blast
    next
      case False
      then have "uid \<notin> need_set ?n (?xs ! j)" using find_next_use_read[OF listed j(1,2) _ j(3)] by blast
      then have br: "mi_has_bb_ref (?xs ! j)" "uid \<notin> def_set ?n (?xs ! j)" "flows ?n g (mi_bb_ref (?xs ! j)) 0 uid"
        using j(4) by blast+
      have "code_branches_last ?n ?xs" using inv b(1) by (simp add: dce_inv_def)
      then have kill: "killed ?n (drop j ?xs) = {}" using code_branches_last_drop j(2) br(1) by blast
      show False
      proof (cases "nu_write ?nu")
        case True
        then obtain k where k: "Suc i \<le> k" "k < length ?xs" "uid \<in> def_set ?n (?xs ! k)"
          using find_next_use_write[OF listed _ False] by blast
        then have "j \<le> k" using j(3) by (meson not_le_imp_less)
        then have "?xs ! k \<in> set (drop j ?xs)" using k(2) nth_mem[of "k - j" "drop j ?xs"] by simp
        then show False using kill k(3) by (auto simp: killed_def)
      next
        case nw: False
        have t: "mi_bb_ref (?xs ! j) \<in> set (targets (bb_code f b))"
          using target_nth[OF j(2) br(1)] inv b(1) by (simp add: dce_inv_def)
        then have "mi_bb_ref (?xs ! j) < length (mf_bbs f)"
          using func_fits_bb(2)[OF f(1) b(1)] flow.succs_in[OF b(1)] by auto
        moreover have "flows ?n f (mi_bb_ref (?xs ! j)) 0 uid" using inv br(3) by (simp add: dce_inv_def)
        ultimately have "live_at f (mi_bb_ref (?xs ! j)) 0 uid"
          using flows_needed_at[OF f(2,1)] needed_at_entry[OF f(1,3)] by blast
        then have "live_at f b (length (bb_code f b)) uid" using t by (intro at_edge)
        then have "uid \<in> bs_alpha (lv_liveOut lv ! b)" using live_update_correct[OF f(1)] lv b(1) by auto
        then show False using hit nw False by (simp add: bs_alpha_def)
      qed
    qed
  qed
  then show ?thesis using x(2) d sem app b(2) by (simp add: removable_def dce_pure_def)
qed

section \<open>The pass\<close>

definition with_code :: "MFunc \<Rightarrow> nat \<Rightarrow> MInstr list \<Rightarrow> MFunc" where
  "with_code g b xs = g\<lparr>mf_bbs := (mf_bbs g)[b := (mf_bbs g ! b)\<lparr>bb_instrs := xs\<rparr>]\<rparr>"

lemma with_code_simps [simp]:
  "length (mf_bbs (with_code g b xs)) = length (mf_bbs g)"
  "b < length (mf_bbs g) \<Longrightarrow> bb_code (with_code g b xs) = (bb_code g)(b := xs)"
  by (auto simp: with_code_def bb_code_def fun_eq_iff nth_list_update)

lemma with_code_erased:
  "b < length (mf_bbs g) \<Longrightarrow> erased (with_code g b xs) b i (with_code g b (erase_at i xs))"
  by (simp add: erased_def)

lemma dce_code_bb: "dce_code n (all_instrs f) \<Longrightarrow> b < length (mf_bbs f) \<Longrightarrow> dce_code n (bb_code f b)"
  using bb_code_in[of b f] by (auto simp: dce_code_def code_plain_def)

lemma dce_instr_inv:
  assumes f: "func_fits f" "branches_last f" "machine_code f" "dce_code (n_unique_regs f) (all_instrs f)"
    and lv: "live_update (cfg_update f False) f = Some lv"
    and sem: "code_respects (n_unique_regs f) sem f" "dce_pure sem"
    and b: "b < length (mf_bbs f)" "length (mf_bbs g) = length (mf_bbs f)" "i < length xs"
    and inv: "dce_inv (n_unique_regs f) sem f (with_code g b xs)"
  shows "dce_inv (n_unique_regs f) sem f (with_code g b (dce_instr lv b i xs))"
proof (cases "dce_instr lv b i xs = xs")
  case True
  then show ?thesis using inv by simp
next
  case False
  then obtain uid where app: "is_applicable (mi_op (xs ! i))" "only_target (xs ! i) = Some uid"
    and hit: "(nu_write (find_next_use xs uid (Suc i) 0) \<and> \<not> nu_read (find_next_use xs uid (Suc i) 0))
      \<or> \<not> (bs_get (lv_liveOut lv ! b) uid \<or> nu_read (find_next_use xs uid (Suc i) 0))"
    and res: "dce_instr lv b i xs = erase_at i xs"
    by (auto simp: dce_instr_def Let_def split: if_splits option.splits)
  have code: "bb_code (with_code g b xs) b = xs" using b by simp
  have "subseq xs (bb_code f b)" using inv b(1) code by (auto simp: dce_inv_def)
  then have "dce_code (n_unique_regs f) xs" using dce_code_subseq dce_code_bb[OF f(4) b(1)] by blast
  then have "removable (n_unique_regs f) sem (with_code g b xs) b i"
    using dce_removes_dead[OF f(1-3) lv inv b(1) _ _ sem(2)] app hit b(3) unfolding code by blast
  then show ?thesis
    unfolding res using dce_inv_erase[OF inv with_code_erased b(1) _ _ sem(1)] b(1,2) by simp
qed

lemma dce_instr_len: "i < length xs \<Longrightarrow> i \<le> length (dce_instr lv b i xs)"
  by (auto simp: dce_instr_def Let_def erase_at_nth split: option.split)

lemma dce_walk:
  assumes f: "func_fits f" "branches_last f" "machine_code f" "dce_code (n_unique_regs f) (all_instrs f)"
    and lv: "live_update (cfg_update f False) f = Some lv"
    and sem: "code_respects (n_unique_regs f) sem f" "dce_pure sem"
    and b: "b < length (mf_bbs f)" "length (mf_bbs g) = length (mf_bbs f)"
  shows "i \<le> length xs \<Longrightarrow> dce_inv (n_unique_regs f) sem f (with_code g b xs) \<Longrightarrow>
    dce_inv (n_unique_regs f) sem f (with_code g b (fold (dce_instr lv b) (rev [0..<i]) xs))"
proof (induction i arbitrary: xs)
  case (Suc i)
  then have "i < length xs" by simp
  from dce_instr_inv[OF f lv sem b this Suc.prems(2)] Suc.IH[OF dce_instr_len[OF this]] show ?case by simp
qed simp

lemma with_code_self: "with_code g b (bb_code g b) = g"
  by (simp add: with_code_def bb_code_def)

lemma dce_bb_code: "g\<lparr>mf_bbs := (mf_bbs g)[b := dce_bb lv b (mf_bbs g ! b)]\<rparr>
    = with_code g b (fold (dce_instr lv b) (rev [0..<length (bb_code g b)]) (bb_code g b))"
  by (simp add: with_code_def dce_bb_def bb_code_def)

lemma dce_inv_start: "branches_last f \<Longrightarrow> dce_inv (n_unique_regs f) sem f f"
  by (auto simp: dce_inv_def branches_last_def bb_code_def)

lemma dce_blocks:
  assumes f: "func_fits f" "branches_last f" "machine_code f" "dce_code (n_unique_regs f) (all_instrs f)"
    and lv: "live_update (cfg_update f False) f = Some lv"
    and sem: "code_respects (n_unique_regs f) sem f" "dce_pure sem"
  shows "k \<le> length (mf_bbs f) \<Longrightarrow> dce_inv (n_unique_regs f) sem f
    (fold (\<lambda>b f. f\<lparr>mf_bbs := (mf_bbs f)[b := dce_bb lv b (mf_bbs f ! b)]\<rparr>) [0..<k] f)"
proof (induction k)
  case 0
  then show ?case using dce_inv_start[OF f(2)] by simp
next
  case (Suc k)
  let ?g = "fold (\<lambda>b f. f\<lparr>mf_bbs := (mf_bbs f)[b := dce_bb lv b (mf_bbs f ! b)]\<rparr>) [0..<k] f"
  have inv: "dce_inv (n_unique_regs f) sem f ?g" using Suc by simp
  then have len: "length (mf_bbs ?g) = length (mf_bbs f)" by (simp add: dce_inv_def)
  have "k < length (mf_bbs f)" using Suc.prems by simp
  from dce_walk[OF f lv sem this len order_refl, of "bb_code ?g k"] show ?case
    using inv by (simp add: dce_bb_code with_code_self del: fun_upd_apply)
qed

section \<open>Properties\<close>


text \<open>A machine on which applicable instructions only compute.\<close>

definition calm_machine :: "(nat, nat) machine" where
  "calm_machine x rs m = (case toy_machine x rs m of (rs', m', leave) \<Rightarrow>
     if is_applicable (mi_op x) then (rs', m, False) else (rs', m', leave))"

lemma calm_machine_ok: "documented_machine calm_machine" "dce_pure calm_machine"
proof -
  have split: "calm_machine x rs m = (fst (toy_machine x rs m),
      if is_applicable (mi_op x) then (m, False) else snd (toy_machine x rs m))" for x rs m
    by (simp add: calm_machine_def split: prod.split)
  show "documented_machine calm_machine"
    using toy_machine_documented unfolding documented_machine_def split by (simp split: if_split)
  show "dce_pure calm_machine" by (simp add: dce_pure_def pure_instr_def split)
qed

lemma live_sample_dce: "dce_code (n_unique_regs live_sample) (all_instrs live_sample)"
  using live_sample_code
  by (auto simp: dce_code_def code_plain_def all_instrs_def live_sample_def MInstr_jmp_def mk_instr_def MReg_def
      MImm64_def marg0_def operands_plain_def arg_regs_def applicable_GJmp_def less_Suc_eq numeral_eq_Suc)


text \<open>A conditional move in the next block keeps its destination, but \<^verbatim>\<open>update_uses\<close> does not mark it, so the pass
  removes the instruction that sets it.\<close>

definition cmov_sample :: MFunc where
  "cmov_sample = \<lparr>mf_bbs =
     [\<lparr>bb_instrs = [mk_instr (GBase GBase_mov) [MReg (VirtR Ty_Int64 1) Ty_Int64, MImm64 5], MInstr_jmp 1]\<rparr>,
      \<lparr>bb_instrs = [mk_instr (GCMov GCMov_cmov) [MReg (VirtR Ty_Int64 1) Ty_Int64, MReg (VirtR Ty_Int64 3) Ty_Int64,
           MReg (VirtR Ty_Int64 2) Ty_Int64],
         mk_instr (GBase GBase_ret) [MReg (VirtR Ty_Int64 1) Ty_Int64]]\<rparr>],
     mf_args = [VirtR Ty_Int64 2, VirtR Ty_Int64 3]\<rparr>"

lemma cmov_start_lost: "map_option (\<lambda>g. map (map mi_op \<circ> bb_instrs) (mf_bbs g)) (dce_apply cmov_sample)
    = Some [[GJmp GJmp_jmp], [GCMov GCMov_cmov, GBase GBase_ret]]"
  by code_simp

text \<open>That function is outside of \<open>machine_code\<close>; with the move in the block of the conditional move it is inside.\<close>

definition cmov_inside :: MFunc where
  "cmov_inside = \<lparr>mf_bbs = [\<lparr>bb_instrs = [mk_instr (GBase GBase_mov) [MReg (VirtR Ty_Int64 1) Ty_Int64, MImm64 5],
       mk_instr (GCMov GCMov_cmov) [MReg (VirtR Ty_Int64 1) Ty_Int64, MReg (VirtR Ty_Int64 3) Ty_Int64, MReg (VirtR Ty_Int64 2) Ty_Int64],
       mk_instr (GBase GBase_ret) [MReg (VirtR Ty_Int64 1) Ty_Int64]]\<rparr>],
     mf_args = [VirtR Ty_Int64 2, VirtR Ty_Int64 3]\<rparr>"

lemma cmov_regs: "n_unique_regs cmov_sample = numRegs + 4" "n_unique_regs cmov_inside = numRegs + 4"
  by (simp_all add: n_unique_regs_def max_vreg_id_def cmov_sample_def cmov_inside_def sample_defs max_arg_id_def max_if_virtual_def
      is_concrete_def upt_conv_Cons numeral_eq_Suc)

lemma cmov_code: "\<not> machine_code cmov_sample" "machine_code cmov_inside"
proof -
  note sets = machine_reads_def source_args_def self_xor_def read_args_def written_args_def is_physical_call_def stack_op_def use_set_def
    def_set_def update_uses_def update_def_def use_mem_def use_arg_def def_arg_def def_reg_def update_uses_arg_def arg_uids_def arg_regs_def
    isReg_def bs_wf_alpha_set bs_alpha_new reg_to_uid_def numRegs_def mk_instr_def MReg_def MImm64_def retype_def marg0_def
    upt_conv_Cons numeral_eq_Suc MInstr_jmp_def
  show "\<not> machine_code cmov_sample"
    unfolding machine_code_def cmov_regs by (simp add: cmov_sample_def sets)
  show "machine_code cmov_inside"
    unfolding machine_code_def cmov_regs
    by (simp add: cmov_inside_def all_instrs_def writes_listed_def operands_ok_def is_gather_def sets)
qed


definition next_use_sample :: "MInstr list" where
  "next_use_sample = [mk_instr (GBase GBase_mov) [MReg (VirtR Ty_Int64 1) Ty_Int64, MImm64 5],
     mk_instr (GBase GBase_mov) [MReg (VirtR Ty_Int64 2) Ty_Int64, MReg (VirtR Ty_Int64 1) Ty_Int64],
     mk_instr (GBase GBase_mov) [MReg (VirtR Ty_Int64 1) Ty_Int64, MImm64 7]]"

lemma next_use_sample_plain: "code_plain 40 next_use_sample"
  by (auto simp: code_plain_def next_use_sample_def code_fits_def args_fit_def operands_plain_def operands_ok_def reads_lost_def
      mk_instr_def MReg_def MImm64_def marg0_def retype_def reg_to_uid_def numRegs_def vreg0_def arg_regs_def less_Suc_eq numeral_eq_Suc)

lemma next_use_sample_runs:
  "length next_use_sample = 3"
  "find_next_use next_use_sample 34 2 0 = \<lparr>nu_write = True, nu_read = False, nu_index = 2\<rparr>"
  "find_next_use next_use_sample 34 1 0 = \<lparr>nu_write = False, nu_read = True, nu_index = 1\<rparr>"
  by (simp add: next_use_sample_def) code_simp+

lemma next_use_sample_sets: "next_reads (next_use_sample ! 1) = {34}" "next_writes (next_use_sample ! 1) = {35}"
  by (auto simp: next_use_sample_def next_reads_def next_writes_def next_cancelled_def def_uids_def written_uids_eq read_args_def
      written_args_def mk_instr_def MReg_def MImm64_def retype_def marg0_def isReg_def arg_uids_def arg_regs_def stack_op_def
      reg_to_uid_def numRegs_def lessThan_Suc numeral_2_eq_2)


end
