(* ===== verification/RegDomains.thy ===== *)
theory RegDomains
  imports MIRTables Complex_Main
begin

text \<open>
  The data of the register assignment solver, \<^verbatim>\<open>src/src/mir/optim/reg_alloc_solver.hpp\<close>: costs, the
  register domain of every kind of node, cost vectors, the cost model and edge matrices. The main results are the
  tables of the domains (they fit, they are sorted, and \<^verbatim>\<open>local\<close> inverts \<^verbatim>\<open>regs\<close>) and that a stored
  matrix reads back what was stored.
\<close>

section \<open>Costs\<close>

text \<open>
  An \<^verbatim>\<open>f32\<close> that is a number or plus infinity. The rounding of an operation is a parameter: it takes the
  exact result to an \<^verbatim>\<open>f32\<close>, infinity where it overflows. NaN and minus infinity are not values of the model: no
  operation of the solver subtracts or multiplies infinities, and only the copy discounts are negative.
\<close>

datatype (plugins only: code) f32 = Fin rat | Inf

type_synonym rounding = "rat \<Rightarrow> f32"

primrec f32_le :: "f32 \<Rightarrow> f32 \<Rightarrow> bool" where
  "f32_le Inf y = (y = Inf)"
| "f32_le (Fin a) y = (case y of Fin b \<Rightarrow> a \<le> b | Inf \<Rightarrow> True)"

primrec f32_add :: "rounding \<Rightarrow> f32 \<Rightarrow> f32 \<Rightarrow> f32" where
  "f32_add rnd Inf y = Inf"
| "f32_add rnd (Fin a) y = (case y of Fin b \<Rightarrow> rnd (a + b) | Inf \<Rightarrow> Inf)"

text \<open>The factor and the divisor are positive numbers wherever the solver multiplies and divides.\<close>

definition f32_mul :: "rounding \<Rightarrow> rat \<Rightarrow> f32 \<Rightarrow> f32" where
  "f32_mul rnd q x = (case x of Fin a \<Rightarrow> rnd (q * a) | Inf \<Rightarrow> Inf)"

definition f32_div :: "rounding \<Rightarrow> f32 \<Rightarrow> rat \<Rightarrow> f32" where
  "f32_div rnd x q = (case x of Fin a \<Rightarrow> rnd (a / q) | Inf \<Rightarrow> Inf)"

definition f32_max :: f32 where "f32_max = Fin ((2 - 1 / 2 ^ 23) * 2 ^ 127)"

text \<open>Exact addition makes the costs an ordered monoid.\<close>

lemma exact_sum: "f32_add Fin (f32_add Fin p q) r = f32_add Fin p (f32_add Fin q r)" "f32_add Fin p q = f32_add Fin q p"
  "f32_add Fin (Fin 0) p = p"
  by ((cases p; cases q; cases r), auto)+

lemma cost_order: "f32_le p p" "f32_le p q \<Longrightarrow> f32_le q r \<Longrightarrow> f32_le p r" "f32_le p q \<Longrightarrow> f32_le q p \<Longrightarrow> p = q"
  "f32_le p q \<or> f32_le q p" "f32_le p q \<Longrightarrow> f32_le (f32_add Fin r p) (f32_add Fin r q)"
  by ((cases p; cases q; cases r), auto)+

instantiation f32 :: "{linorder, ordered_comm_monoid_add}"
begin

definition less_eq_f32 :: "f32 \<Rightarrow> f32 \<Rightarrow> bool" where "p \<le> q \<longleftrightarrow> f32_le p q"

definition less_f32 :: "f32 \<Rightarrow> f32 \<Rightarrow> bool" where "p < q \<longleftrightarrow> f32_le p q \<and> \<not> f32_le q p"

definition zero_f32 :: f32 where "0 = Fin 0"

definition plus_f32 :: "f32 \<Rightarrow> f32 \<Rightarrow> f32" where "p + q = f32_add Fin p q"

instance
  apply intro_classes
          apply (simp_all only: less_eq_f32_def less_f32_def zero_f32_def plus_f32_def exact_sum(1,3) cost_order(1,5))
     apply (rule exact_sum(2) | erule (1) cost_order(2,3) | rule cost_order(4))+
  done

end

lemma f32_add_Inf [simp]: "f32_add rnd x Inf = Inf"
  by (cases x) simp_all

lemma f32_plus [simp]: "Fin a + Fin b = Fin (a + b)" "Inf + x = Inf" "x + Inf = (Inf :: f32)"
  by (simp_all add: plus_f32_def)

lemma f32_order [simp]: "Fin a \<le> Fin b \<longleftrightarrow> a \<le> b" "x \<le> Inf" "Inf \<le> x \<longleftrightarrow> x = Inf"
    "Fin a < Fin b \<longleftrightarrow> a < b" "x < Inf \<longleftrightarrow> x \<noteq> Inf" "\<not> Inf < x"
  by (auto simp: less_eq_f32_def less_f32_def split: f32.splits) (cases x; simp)+

lemma f32_add_exact: "f32_add Fin x y = x + y"
  by (simp add: plus_f32_def)

section \<open>Register domains\<close>

definition kAllocatableGPRegs :: "CReg list" where
  "kAllocatableGPRegs = [CReg_A, CReg_B, CReg_C, CReg_D, CReg_DI, CReg_SI, CReg_R8, CReg_R9, CReg_R10, CReg_R11,
     CReg_R12, CReg_R13, CReg_R14, CReg_R15]"

definition kAllocatableVecRegs :: "CReg list" where
  "kAllocatableVecRegs = [CReg_mm0, CReg_mm1, CReg_mm2, CReg_mm3, CReg_mm4, CReg_mm5, CReg_mm6, CReg_mm7, CReg_mm8,
     CReg_mm9, CReg_mm10, CReg_mm11, CReg_mm12, CReg_mm13, CReg_mm14, CReg_mm15]"

definition kMaxDomain :: nat where "kMaxDomain = 31"

definition kNoLocal :: nat where "kNoLocal = 255"

text \<open>The register numbers of the domain (the first \<^verbatim>\<open>size\<close> entries of \<^verbatim>\<open>regs\<close>), and the index of every
  register within it.\<close>

record DomainKind =
  dk_regs :: "nat list"
  dk_local :: "nat list"

definition dk_size :: "DomainKind \<Rightarrow> nat" where "dk_size d = length (dk_regs d)"

definition kind_Gpr :: nat where "kind_Gpr = 0"
definition kind_Vec :: nat where "kind_Vec = 1"
definition kind_GprOrVec :: nat where "kind_GprOrVec = 2"
definition ConcreteBase :: nat where "ConcreteBase = 3"
definition kind_N :: nat where "kind_N = ConcreteBase + numRegs - 1"

definition reg_bit :: "CReg \<Rightarrow> u64" where "reg_bit r = push_bit (creg_code r) 1"

definition gpr_mask :: u64 where
  "gpr_mask = fold (\<lambda>r m. m OR reg_bit r) kAllocatableGPRegs (reg_bit CReg_Virtual)"

definition vec_mask :: u64 where
  "vec_mask = fold (\<lambda>r m. m OR reg_bit r) kAllocatableVecRegs (reg_bit CReg_Virtual)"

definition domain_step :: "u64 \<Rightarrow> nat \<Rightarrow> DomainKind \<Rightarrow> DomainKind" where
  "domain_step msk r d =
     (let d = d\<lparr>dk_local := (dk_local d)[r := kNoLocal]\<rparr>
      in if drop_bit r msk AND 1 \<noteq> 0
         then d\<lparr>dk_local := (dk_local d)[r := dk_size d], dk_regs := dk_regs d @ [r]\<rparr> else d)"

definition make_domain :: "u64 \<Rightarrow> DomainKind" where
  "make_domain msk = fold (domain_step msk) [0..<numRegs] \<lparr>dk_regs = [], dk_local = replicate numRegs 0\<rparr>"

definition kKinds :: "DomainKind list" where
  "kKinds = [make_domain gpr_mask, make_domain vec_mask, make_domain (gpr_mask OR vec_mask)]
     @ map (\<lambda>r. make_domain (push_bit r 1)) [1..<numRegs]"

definition kind_of :: "VReg \<Rightarrow> nat" where
  "kind_of reg = (if is_concrete reg then ConcreteBase + creg_code (c_reg reg) - 1
     else if vreg_is_vec_reg reg then kind_Vec else kind_Gpr)"

definition kind_is_concrete :: "nat \<Rightarrow> bool" where "kind_is_concrete k = (ConcreteBase \<le> k)"

definition dom_size :: "nat \<Rightarrow> nat" where "dom_size k = dk_size (kKinds ! k)"

abbreviation dom_regs :: "nat \<Rightarrow> nat list" where "dom_regs k \<equiv> dk_regs (kKinds ! k)"

abbreviation dom_local :: "nat \<Rightarrow> nat list" where "dom_local k \<equiv> dk_local (kKinds ! k)"

definition uid_is_concrete :: "nat \<Rightarrow> bool" where "uid_is_concrete uid = (uid + 1 < numRegs)"

definition default_kind :: "nat \<Rightarrow> nat" where
  "default_kind uid = (if uid_is_concrete uid then kind_of (uid_to_reg uid) else kind_Gpr)"

section \<open>Cost vectors and the cost model\<close>

definition spillCost :: f32 where "spillCost = Fin 1000"
definition copyDiscount :: f32 where "copyDiscount = Fin (-2)"
definition kMemOpCost :: rat where "kMemOpCost = 1"
definition kMinSpillCost :: f32 where "kMinSpillCost = Fin 1"
definition kPushPopCost :: rat where "kPushPopCost = 2"
definition kCalleeSavedCost :: f32 where "kCalleeSavedCost = Fin 1"
definition kUnspillableCost :: f32 where "kUnspillableCost = Fin 1000000"

text \<open>\<^verbatim>\<open>CostVector\<close>: \<^verbatim>\<open>kMaxDomain\<close> costs.\<close>

type_synonym CostVector = "f32 list"

definition zero_costs :: CostVector where "zero_costs = replicate kMaxDomain (Fin 0)"

definition initial_costs :: "nat \<Rightarrow> CostVector" where
  "initial_costs k = fold (\<lambda>i v. v[i := if dom_regs k ! i = 0 then spillCost else Fin 0]) [0..<dom_size k] zero_costs"

datatype (plugins only: code) SaveClass = NotSaved | CallerSaved | CalleeSaved

record NodeCostInfo =
  nc_use_weight :: f32
  nc_call_crossings :: f32
  nc_unspillable :: bool

definition model_cost :: "rounding \<Rightarrow> NodeCostInfo \<Rightarrow> (nat \<Rightarrow> SaveClass) \<Rightarrow> nat \<Rightarrow> f32 \<Rightarrow> f32" where
  "model_cost rnd info save_class r c =
     (if r = 0 then (if nc_unspillable info then kUnspillableCost
                     else max (f32_mul rnd kMemOpCost (nc_use_weight info)) kMinSpillCost)
      else case save_class r of
        CallerSaved \<Rightarrow> f32_add rnd c (f32_mul rnd kPushPopCost (nc_call_crossings info))
      | CalleeSaved \<Rightarrow> f32_add rnd c kCalleeSavedCost
      | NotSaved \<Rightarrow> c)"

definition apply_cost_model :: "rounding \<Rightarrow> nat \<Rightarrow> NodeCostInfo \<Rightarrow> (nat \<Rightarrow> SaveClass) \<Rightarrow> CostVector \<Rightarrow> CostVector" where
  "apply_cost_model rnd k info save_class v =
     fold (\<lambda>l v. v[l := model_cost rnd info save_class (dom_regs k ! l) (v ! l)]) [0..<dom_size k] v"

section \<open>Edge matrices\<close>

text \<open>A \<^verbatim>\<open>DenseCosts\<close> block; \<^verbatim>\<open>cost\<close> is the null pointer for plain interference. The memory it points to is
  owned by the matrix while it is written, so it is a value here.\<close>

type_synonym DenseCosts = "nat \<Rightarrow> nat \<Rightarrow> f32"

record CostMatrix =
  cm_cost :: "f32 list option"
  cm_hard :: bool
  cm_lo :: nat
  cm_hi :: nat

definition interference :: CostMatrix where
  "interference = \<lparr>cm_cost = None, cm_hard = True, cm_lo = 0, cm_hi = 0\<rparr>"

text \<open>\<^verbatim>\<open>None\<close> is the failed assertion: a register outside the domain of its node.\<close>

definition get_cost :: "CostMatrix \<Rightarrow> bool \<Rightarrow> nat \<Rightarrow> nat \<Rightarrow> f32 option" where
  "get_cost m self_is_lo self_reg other_reg =
     (let lo_reg = (if self_is_lo then self_reg else other_reg);
          hi_reg = (if self_is_lo then other_reg else self_reg)
      in case cm_cost m of
           None \<Rightarrow> Some (if lo_reg = hi_reg \<and> 1 \<le> lo_reg then Inf else Fin 0)
         | Some cost \<Rightarrow>
             (let lo = dom_local (cm_lo m) ! lo_reg; hi = dom_local (cm_hi m) ! hi_reg
              in if lo \<noteq> kNoLocal \<and> hi \<noteq> kNoLocal then Some (cost ! (lo * dom_size (cm_hi m) + hi)) else None))"

definition to_dense :: "CostMatrix \<Rightarrow> bool \<Rightarrow> nat \<Rightarrow> nat \<Rightarrow> DenseCosts \<Rightarrow> DenseCosts" where
  "to_dense m row_is_lo kind_row kind_col out = (\<lambda>r c.
     if r < dom_size kind_row \<and> c < dom_size kind_col then
       (case cm_cost m of
          None \<Rightarrow> if dom_regs kind_row ! r = dom_regs kind_col ! c \<and> 1 \<le> dom_regs kind_row ! r then Inf else Fin 0
        | Some cost \<Rightarrow> if row_is_lo then cost ! (r * dom_size kind_col + c) else cost ! (c * dom_size kind_row + r))
     else out r c)"

definition store :: "DenseCosts \<Rightarrow> nat \<Rightarrow> nat \<Rightarrow> f32 list" where
  "store dense rows cols = concat (map (\<lambda>r. map (dense r) [0..<cols]) [0..<rows])"

section \<open>The tables of the domains\<close>

lemma test_bit_word: "drop_bit r (m :: 'a::len word) AND 1 \<noteq> 0 \<longleftrightarrow> bit m r"
  by (simp add: bit_iff_odd_drop_bit and_one_eq odd_iff_mod_2_eq_one)

lemma domain_fold:
  assumes "n \<le> numRegs"
  shows "fold (domain_step m) [0..<n] \<lparr>dk_regs = [], dk_local = replicate numRegs 0\<rparr>
    = \<lparr>dk_regs = filter (bit m) [0..<n],
       dk_local = map (\<lambda>r. if r < n then if bit m r then length (filter (bit m) [0..<r]) else kNoLocal else 0) [0..<numRegs]\<rparr>"
  using assms
proof (induction n)
  case 0
  then show ?case by (simp add: list_eq_iff_nth_eq)
next
  case (Suc n)
  then show ?case
    by (auto simp: domain_step_def test_bit_word Let_def dk_size_def list_eq_iff_nth_eq nth_list_update less_Suc_eq)
qed

lemma make_domain_regs: "dk_regs (make_domain m) = filter (bit m) [0..<numRegs]"
  by (simp add: make_domain_def domain_fold)

lemma make_domain_local: "r < numRegs \<Longrightarrow> dk_local (make_domain m) ! r
    = (if bit m r then length (filter (bit m) [0..<r]) else kNoLocal)"
  by (simp add: make_domain_def domain_fold)

lemma filter_upt_nth:
  assumes "i < length (filter P [0..<n])"
  shows "length (filter P [0..<filter P [0..<n] ! i]) = i"
  using assms
proof (induction n)
  case (Suc n)
  show ?case
  proof (cases "i < length (filter P [0..<n])")
    case True
    then show ?thesis using Suc.IH by (simp add: nth_append)
  next
    case False
    then have "P n" "i = length (filter P [0..<n])" using Suc.prems by (auto split: if_splits)
    then show ?thesis by (simp add: nth_append)
  qed
qed simp

lemma filter_upt_at:
  assumes "P r" "r < n"
  shows "length (filter P [0..<r]) < length (filter P [0..<n]) \<and> filter P [0..<n] ! length (filter P [0..<r]) = r"
  using assms(2)
proof (induction n)
  case (Suc n)
  then show ?case using assms(1) by (cases "r = n") (auto simp: nth_append less_Suc_eq)
qed simp

text \<open>The kinds, as a set of masks.\<close>

definition kind_mask :: "nat \<Rightarrow> u64" where
  "kind_mask k = (if k = 0 then gpr_mask else if k = 1 then vec_mask else if k = 2 then gpr_mask OR vec_mask
     else push_bit (k - 2) 1)"

lemma kind_N [simp]: "kind_N = 35"
  by (simp add: kind_N_def ConcreteBase_def numRegs_def)

lemma kKinds_nth: "k < kind_N \<Longrightarrow> kKinds ! k = make_domain (kind_mask k)"
  by (auto simp: kKinds_def kind_mask_def numRegs_def nth_append nth_Cons split: nat.splits)

lemma dom_regs_eq: "k < kind_N \<Longrightarrow> dom_regs k = filter (bit (kind_mask k)) [0..<numRegs]"
  by (simp add: kKinds_nth make_domain_regs)

lemma dom_regs_less: "k < kind_N \<Longrightarrow> r \<in> set (dom_regs k) \<Longrightarrow> r < numRegs"
  by (simp add: dom_regs_eq)

lemma dom_regs_distinct: "k < kind_N \<Longrightarrow> distinct (dom_regs k)"
  by (simp add: dom_regs_eq)

lemma dom_regs_sorted: "k < kind_N \<Longrightarrow> sorted_wrt (<) (dom_regs k)"
  by (simp add: dom_regs_eq sorted_wrt_filter)

lemma dom_local_nth: "k < kind_N \<Longrightarrow> i < dom_size k \<Longrightarrow> dom_local k ! (dom_regs k ! i) = i"
  using filter_upt_nth[of i "bit (kind_mask k)" numRegs] nth_mem[of i "filter (bit (kind_mask k)) [0..<numRegs]"]
  by (simp add: kKinds_nth make_domain_local make_domain_regs dom_size_def dk_size_def)

lemma dom_local_in:
  assumes "k < kind_N" "r \<in> set (dom_regs k)"
  shows "dom_local k ! r < dom_size k" "dom_regs k ! (dom_local k ! r) = r"
  using filter_upt_at[of "bit (kind_mask k)" r numRegs] assms
  by (simp_all add: kKinds_nth make_domain_local make_domain_regs dom_size_def dk_size_def)

lemma dom_local_out: "k < kind_N \<Longrightarrow> r < numRegs \<Longrightarrow> r \<notin> set (dom_regs k) \<Longrightarrow> dom_local k ! r = kNoLocal"
  by (simp add: kKinds_nth make_domain_local make_domain_regs)

lemma filter_upt_eq: "s < n \<Longrightarrow> filter (\<lambda>i. i = s) [0..<n] = [s]"
proof (induction n)
  case (Suc n)
  then show ?case by (cases "s = n") (simp_all add: filter_empty_conv)
qed simp

lemma concrete_regs: "r < 32 \<Longrightarrow> dom_regs (ConcreteBase + r) = [r + 1]"
proof -
  assume r: "r < 32"
  have "filter (bit (push_bit (Suc r) 1 :: u64)) [0..<33] = filter (\<lambda>i. i = Suc r) [0..<33]"
    using r by (intro filter_cong refl) (auto simp: bit_simps)
  also have "\<dots> = [Suc r]" using r by (simp add: filter_upt_eq)
  finally show ?thesis using r by (simp add: dom_regs_eq ConcreteBase_def kind_mask_def numRegs_def eval_nat_numeral)
qed

lemma bit_reg_bit: "bit (reg_bit r) i \<longleftrightarrow> i = creg_code r"
  using creg_code_less[of r] by (auto simp: reg_bit_def bit_simps numRegs_def)

lemma bit_gpr_mask: "bit gpr_mask i \<longleftrightarrow> i \<in> set [0, 1, 2, 3, 4, 6, 5, 9, 10, 11, 12, 13, 14, 15, 16]"
  by (simp add: gpr_mask_def bit_or_iff bit_reg_bit kAllocatableGPRegs_def)

lemma bit_vec_mask: "bit vec_mask i \<longleftrightarrow> i \<in> set [0, 17, 18, 19, 20, 21, 22, 23, 24, 25, 26, 27, 28, 29, 30, 31, 32]"
  by (simp add: vec_mask_def bit_or_iff bit_reg_bit kAllocatableVecRegs_def)

lemma dom_regs_Gpr: "dom_regs kind_Gpr = [0, 1, 2, 3, 4, 5, 6, 9, 10, 11, 12, 13, 14, 15, 16]"
  by (simp add: dom_regs_eq kind_mask_def kind_Gpr_def bit_gpr_mask numRegs_def upt_rec)

lemma dom_regs_Vec: "dom_regs kind_Vec = [0, 17, 18, 19, 20, 21, 22, 23, 24, 25, 26, 27, 28, 29, 30, 31, 32]"
  by (simp add: dom_regs_eq kind_mask_def kind_Vec_def bit_vec_mask numRegs_def upt_rec)

lemma dom_regs_GprOrVec: "dom_regs kind_GprOrVec = [0, 1, 2, 3, 4, 5, 6, 9, 10, 11, 12, 13, 14, 15, 16, 17, 18,
    19, 20, 21, 22, 23, 24, 25, 26, 27, 28, 29, 30, 31, 32]"
  by (simp add: dom_regs_eq kind_mask_def kind_GprOrVec_def bit_or_iff bit_gpr_mask bit_vec_mask numRegs_def upt_rec)

lemma kind_cases:
  assumes "k < kind_N"
  obtains "k = kind_Gpr" | "k = kind_Vec" | "k = kind_GprOrVec" | r where "k = ConcreteBase + r" "r < 32"
proof (cases "k < 3")
  case True
  then show ?thesis using that(1-3) by (auto simp: kind_Gpr_def kind_Vec_def kind_GprOrVec_def less_Suc_eq numeral_3_eq_3)
next
  case False
  then show ?thesis using that(4)[of "k - 3"] assms by (simp add: ConcreteBase_def)
qed

lemma dom_size_bounds: "k < kind_N \<Longrightarrow> 1 \<le> dom_size k \<and> dom_size k \<le> kMaxDomain"
  by (erule kind_cases) (simp_all add: dom_size_def dk_size_def dom_regs_Gpr dom_regs_Vec dom_regs_GprOrVec
    concrete_regs kMaxDomain_def)

lemma dom_nth_regs: "i < dom_size k \<Longrightarrow> dom_regs k ! i \<in> set (dom_regs k)"
  by (simp add: dom_size_def dk_size_def)

text \<open>A kind that fits a node: the one of its register for a concrete node, a kind with a spill entry for a virtual
  one.\<close>

definition kind_fits :: "nat \<Rightarrow> nat \<Rightarrow> bool" where
  "kind_fits uid k = (if uid_is_concrete uid then k = ConcreteBase + uid else k = kind_Gpr \<or> k = kind_Vec)"

lemma kind_fits_less: "kind_fits uid k \<Longrightarrow> k < kind_N"
  by (auto simp: kind_fits_def uid_is_concrete_def numRegs_def ConcreteBase_def kind_Gpr_def kind_Vec_def split: if_splits)

lemma kind_fits_concrete: "kind_fits uid k \<Longrightarrow> uid_is_concrete uid \<Longrightarrow> dom_regs k = [uid + 1]"
  by (simp add: kind_fits_def concrete_regs uid_is_concrete_def numRegs_def)

lemma kind_fits_spill: "kind_fits uid k \<Longrightarrow> \<not> uid_is_concrete uid \<Longrightarrow> dom_regs k ! 0 = 0 \<and> 0 \<in> set (dom_regs k)"
  by (auto simp: kind_fits_def dom_regs_Gpr dom_regs_Vec)

lemma kind_fits_default: "kind_fits uid (default_kind uid)"
  by (auto simp: kind_fits_def default_kind_def kind_of_def uid_to_reg_def is_concrete_def creg_code_of_code
    uid_is_concrete_def)

lemma kind_fits_kind_of: "vreg_ok reg \<Longrightarrow> kind_fits (reg_to_uid reg) (kind_of reg)"
  using uid_less[of reg] creg_code_pos[of "c_reg reg"]
  by (cases reg) (auto simp: kind_fits_def kind_of_def uid_is_concrete_def is_concrete_def reg_to_uid_def vreg_ok_def)

lemma sp_not_allocatable: "kind_fits uid k \<Longrightarrow> \<not> uid_is_concrete uid \<Longrightarrow> 7 \<notin> set (dom_regs k) \<and> 8 \<notin> set (dom_regs k)"
  by (auto simp: kind_fits_def dom_regs_Gpr dom_regs_Vec)

section \<open>Cost vectors\<close>

lemma length_fold_update [simp]: "length (fold (\<lambda>l v. v[l := g l v]) ls v) = length v"
  by (induction ls arbitrary: v) auto

lemma fold_update_nth:
  assumes "n \<le> length v"
  shows "fold (\<lambda>l v. v[l := g l (v ! l)]) [0..<n] v ! i = (if i < n then g i (v ! i) else v ! i)"
  using assms
proof (induction n)
  case (Suc n)
  then show ?case by (auto simp: nth_list_update less_Suc_eq)
qed simp

lemma length_initial_costs [simp]: "length (initial_costs k) = kMaxDomain"
  by (simp add: initial_costs_def zero_costs_def)

lemma length_apply_cost_model [simp]: "length (apply_cost_model rnd k info sc v) = length v"
  by (simp add: apply_cost_model_def)

lemma initial_costs_nth: "k < kind_N \<Longrightarrow> i < dom_size k \<Longrightarrow>
    initial_costs k ! i = (if dom_regs k ! i = 0 then spillCost else Fin 0)"
  using fold_update_nth[of "dom_size k" zero_costs "\<lambda>i _. if dom_regs k ! i = 0 then spillCost else Fin 0" i]
    dom_size_bounds[of k]
  by (simp add: initial_costs_def zero_costs_def)

lemma apply_cost_model_nth: "dom_size k \<le> length v \<Longrightarrow> i < dom_size k \<Longrightarrow>
    apply_cost_model rnd k info sc v ! i = model_cost rnd info sc (dom_regs k ! i) (v ! i)"
  using fold_update_nth[of "dom_size k" v "\<lambda>l. model_cost rnd info sc (dom_regs k ! l)" i]
  by (simp add: apply_cost_model_def)

section \<open>Matrices\<close>

lemma length_store [simp]: "length (store d rows cols) = rows * cols"
  by (simp add: store_def length_concat comp_def sum_list_triv)

lemma store_nth: "r < rows \<Longrightarrow> c < cols \<Longrightarrow> store d rows cols ! (r * cols + c) = d r c"
proof (induction rows)
  case (Suc n)
  have s: "store d (Suc n) cols = store d n cols @ map (d n) [0..<cols]" by (simp add: store_def)
  show ?case
  proof (cases "r = n")
    case False
    then have "r < n" using Suc.prems(1) by simp
    then have "r * cols + cols \<le> n * cols" by (metis Suc_leI add.commute mult_Suc mult_le_mono1)
    then have "r * cols + c < n * cols" using Suc.prems(2) by simp
    then show ?thesis using Suc.IH \<open>r < n\<close> Suc.prems(2) by (simp add: s nth_append)
  qed (simp add: s nth_append Suc.prems(2))
qed simp

lemma cell_less: "r < rows \<Longrightarrow> c < cols \<Longrightarrow> r * cols + c < rows * (cols :: nat)"
  by (metis add_strict_left_mono add.commute less_le_trans mult_Suc mult_le_mono1 Suc_leI)

text \<open>A matrix that belongs to an edge whose lower node has the first kind.\<close>

definition matrix_ok :: "nat \<Rightarrow> nat \<Rightarrow> CostMatrix \<Rightarrow> bool" where
  "matrix_ok k_lo k_hi m \<longleftrightarrow> (\<forall>cs. cm_cost m = Some cs \<longrightarrow>
     cm_lo m = k_lo \<and> cm_hi m = k_hi \<and> length cs = dom_size k_lo * dom_size k_hi)"

lemma matrix_ok_interference [simp]: "matrix_ok k_lo k_hi interference"
  by (simp add: matrix_ok_def interference_def)

text \<open>\<open>to_dense\<close> and \<open>get_cost\<close> read the same cost.\<close>

lemma get_cost_dense:
  assumes "matrix_ok (if lo then k else k') (if lo then k' else k) m" "k < kind_N" "k' < kind_N"
    "r \<in> set (dom_regs k)" "r' \<in> set (dom_regs k')"
  shows "get_cost m lo r r' = Some (to_dense m lo k k' out (dom_local k ! r) (dom_local k' ! r'))"
proof -
  have l: "dom_local k ! r < dom_size k" "dom_local k' ! r' < dom_size k'"
    "dom_regs k ! (dom_local k ! r) = r" "dom_regs k' ! (dom_local k' ! r') = r'"
    using dom_local_in assms(2-) by auto
  then have "dom_local k ! r \<noteq> kNoLocal" "dom_local k' ! r' \<noteq> kNoLocal"
    using dom_size_bounds[of k] dom_size_bounds[of k'] assms(2,3) by (auto simp: kNoLocal_def kMaxDomain_def)
  then show ?thesis using assms(1) l
    by (cases lo; cases "cm_cost m") (auto simp: get_cost_def to_dense_def matrix_ok_def Let_def)
qed

end
