(* ===== verification/CostGraphs.thy ===== *)
theory CostGraphs
  imports RegDomains
begin

text \<open>
  The graph of the register assignment solver: \<^verbatim>\<open>CostGraph\<close> of
  \<^verbatim>\<open>src/src/mir/optim/reg_alloc_solver.hpp\<close>. The main results: the numbering of the nodes, the list of active
  nodes and the adjacency lists keep each other consistent under every operation.
\<close>

section \<open>The graph\<close>

text \<open>Node and edge numbers are natural numbers here, \<^verbatim>\<open>kNoNode\<close> is \<^verbatim>\<open>None\<close>.\<close>

record Adj =
  adj_other :: nat
  adj_edge :: nat

record CostGraph =
  uid_to_node :: "nat option list"
  node_uid :: "nat list"
  node_kind :: "nat list"
  node_costs :: "CostVector list"
  neighbours :: "Adj list list"
  edges :: "CostMatrix list"
  edge_lookup :: "nat \<Rightarrow> nat option"
  active :: "nat list"
  active_pos :: "nat list"

definition empty_graph :: CostGraph where
  "empty_graph = \<lparr>uid_to_node = [], node_uid = [], node_kind = [], node_costs = [], neighbours = [], edges = [],
     edge_lookup = Map.empty, active = [], active_pos = []\<rparr>"

definition graph_node :: "nat \<Rightarrow> CostGraph \<Rightarrow> CostGraph \<times> nat" where
  "graph_node uid g =
     (let u2n = (if length (uid_to_node g) \<le> uid
                 then uid_to_node g @ replicate (uid + 1 - length (uid_to_node g)) None else uid_to_node g)
      in case u2n ! uid of
           Some n \<Rightarrow> (g\<lparr>uid_to_node := u2n\<rparr>, n)
         | None \<Rightarrow>
             (let n = length (node_uid g)
              in (g\<lparr>uid_to_node := u2n[uid := Some n],
                    node_uid := node_uid g @ [uid],
                    node_kind := node_kind g @ [default_kind uid],
                    node_costs := node_costs g @ [zero_costs],
                    neighbours := neighbours g @ [[]],
                    active_pos := active_pos g @ [length (active g)],
                    active := active g @ [n]\<rparr>, n)))"

definition has_node :: "CostGraph \<Rightarrow> nat \<Rightarrow> bool" where
  "has_node g uid \<longleftrightarrow> uid < length (uid_to_node g) \<and> uid_to_node g ! uid \<noteq> None"

definition n_nodes :: "CostGraph \<Rightarrow> nat" where "n_nodes g = length (node_uid g)"

definition node_concrete :: "CostGraph \<Rightarrow> nat \<Rightarrow> bool" where
  "node_concrete g n = uid_is_concrete (node_uid g ! n)"

definition set_kind :: "nat \<Rightarrow> nat \<Rightarrow> CostGraph \<Rightarrow> CostGraph" where
  "set_kind n k g = g\<lparr>node_kind := (node_kind g)[n := k], node_costs := (node_costs g)[n := initial_costs k]\<rparr>"

definition edge_key :: "nat \<Rightarrow> nat \<Rightarrow> nat" where
  "edge_key a b = (if a < b then push_bit 32 b OR a else push_bit 32 a OR b)"

definition find_edge :: "CostGraph \<Rightarrow> nat \<Rightarrow> nat \<Rightarrow> nat option" where
  "find_edge g a b = edge_lookup g (edge_key a b)"

definition has_conn :: "CostGraph \<Rightarrow> nat \<Rightarrow> nat \<Rightarrow> bool" where
  "has_conn g a b \<longleftrightarrow> find_edge g a b \<noteq> None"

text \<open>\<^verbatim>\<open>emplace\<close> does not overwrite.\<close>

definition add_edge :: "nat \<Rightarrow> nat \<Rightarrow> CostMatrix \<Rightarrow> CostGraph \<Rightarrow> CostGraph \<times> nat" where
  "add_edge a b m g =
     (let idx = length (edges g);
          g = g\<lparr>edges := edges g @ [m],
                edge_lookup := (if edge_lookup g (edge_key a b) = None then (edge_lookup g)(edge_key a b \<mapsto> idx)
                                else edge_lookup g)\<rparr>;
          g = g\<lparr>neighbours := (neighbours g)[a := neighbours g ! a @ [\<lparr>adj_other = b, adj_edge = idx\<rparr>]]\<rparr>;
          g = g\<lparr>neighbours := (neighbours g)[b := neighbours g ! b @ [\<lparr>adj_other = a, adj_edge = idx\<rparr>]]\<rparr>
      in (g, idx))"

text \<open>The double loop of the discount: the cell of every pair of registers.\<close>

definition discount_cell :: "rounding \<Rightarrow> nat \<Rightarrow> nat \<Rightarrow> nat \<Rightarrow> nat \<Rightarrow> f32 list \<Rightarrow> f32 list" where
  "discount_cell rnd k_lo k_hi l h cost =
     (let i = l * dom_size k_hi + h
      in if dom_regs k_lo ! l = dom_regs k_hi ! h \<and> 1 \<le> dom_regs k_lo ! l \<and> cost ! i \<noteq> Inf
         then cost[i := f32_add rnd (cost ! i) copyDiscount] else cost)"

definition discount :: "rounding \<Rightarrow> nat \<Rightarrow> nat \<Rightarrow> f32 list \<Rightarrow> f32 list" where
  "discount rnd k_lo k_hi cost =
     fold (\<lambda>l. fold (discount_cell rnd k_lo k_hi l) [0..<dom_size k_hi]) [0..<dom_size k_lo] cost"

definition optional_edge :: "nat \<Rightarrow> nat \<Rightarrow> CostGraph \<Rightarrow> CostGraph \<times> nat" where
  "optional_edge a b g =
     (case find_edge g a b of
        Some e \<Rightarrow> (g, e)
      | None \<Rightarrow>
          (let k_lo = node_kind g ! (if a < b then a else b);
               k_hi = node_kind g ! (if a < b then b else a)
           in add_edge a b \<lparr>cm_cost = Some (store (\<lambda>_ _. Fin 0) (dom_size k_lo) (dom_size k_hi)), cm_hard = False,
                cm_lo = k_lo, cm_hi = k_hi\<rparr> g))"

definition add_copy_discount :: "rounding \<Rightarrow> nat \<Rightarrow> nat \<Rightarrow> CostGraph \<Rightarrow> CostGraph" where
  "add_copy_discount rnd a b g =
     (let (g, edge) = optional_edge a b g; m = edges g ! edge
      in case cm_cost m of
           None \<Rightarrow> g
         | Some cost \<Rightarrow>
             g\<lparr>edges := (edges g)[edge := m\<lparr>cm_cost := Some (discount rnd (cm_lo m) (cm_hi m) cost)\<rparr>]\<rparr>)"

definition remove_neighbour :: "nat \<Rightarrow> nat \<Rightarrow> CostGraph \<Rightarrow> CostGraph" where
  "remove_neighbour from to_remove g =
     g\<lparr>neighbours := (neighbours g)[from := filter (\<lambda>a. adj_other a \<noteq> to_remove) (neighbours g ! from)]\<rparr>"

definition clear_neighbours :: "nat \<Rightarrow> CostGraph \<Rightarrow> CostGraph" where
  "clear_neighbours n g = g\<lparr>neighbours := (neighbours g)[n := []]\<rparr>"

definition erase_active :: "nat \<Rightarrow> CostGraph \<Rightarrow> CostGraph" where
  "erase_active pos g =
     (let lst = last (active g); act = butlast (active g)
      in if pos < length act
         then g\<lparr>active := act[pos := lst], active_pos := (active_pos g)[lst := pos]\<rparr>
         else g\<lparr>active := act\<rparr>)"

section \<open>Well-formed graphs\<close>

text \<open>The nodes: every uid has at most one node, and every node the costs and a kind that fits.\<close>

definition nodes_ok :: "CostGraph \<Rightarrow> bool" where
  "nodes_ok g \<longleftrightarrow>
     length (node_kind g) = n_nodes g \<and> length (node_costs g) = n_nodes g \<and> length (neighbours g) = n_nodes g
   \<and> length (active_pos g) = n_nodes g \<and> distinct (node_uid g) \<and> (\<forall>u \<in> set (node_uid g). u < 2 ^ 32)
   \<and> (\<forall>n < n_nodes g. kind_fits (node_uid g ! n) (node_kind g ! n) \<and> length (node_costs g ! n) = kMaxDomain)
   \<and> (\<forall>u n. u < length (uid_to_node g) \<and> uid_to_node g ! u = Some n \<longleftrightarrow> n < n_nodes g \<and> node_uid g ! n = u)"

text \<open>The active nodes: \<^verbatim>\<open>active_pos\<close> inverts \<^verbatim>\<open>active\<close>.\<close>

definition active_ok :: "CostGraph \<Rightarrow> bool" where
  "active_ok g \<longleftrightarrow> (\<forall>i < length (active g). active g ! i < n_nodes g \<and> active_pos g ! (active g ! i) = i)"

text \<open>The edges: an adjacency is listed on both sides, once, with the edge the lookup finds, whose matrix is the one
  of the kinds of its nodes.\<close>

definition adj :: "CostGraph \<Rightarrow> nat \<Rightarrow> nat \<Rightarrow> nat \<Rightarrow> bool" where
  "adj g a b e \<longleftrightarrow> a < n_nodes g \<and> \<lparr>adj_other = b, adj_edge = e\<rparr> \<in> set (neighbours g ! a)"

definition edge_ok :: "CostGraph \<Rightarrow> nat \<Rightarrow> nat \<Rightarrow> nat \<Rightarrow> bool" where
  "edge_ok g a b e \<longleftrightarrow> b < n_nodes g \<and> a \<noteq> b \<and> e < length (edges g) \<and> adj g b a e \<and> find_edge g a b = Some e
     \<and> matrix_ok (node_kind g ! min a b) (node_kind g ! max a b) (edges g ! e)
     \<and> a \<in> set (active g) \<and> b \<in> set (active g)"

definition edges_ok :: "CostGraph \<Rightarrow> bool" where
  "edges_ok g \<longleftrightarrow> (\<forall>a b e. adj g a b e \<longrightarrow> edge_ok g a b e)
   \<and> (\<forall>a < n_nodes g. distinct (map adj_other (neighbours g ! a)))
   \<and> (\<forall>a \<in> set (active g). \<forall>b \<in> set (active g). \<forall>e. a \<noteq> b \<and> find_edge g a b = Some e \<longrightarrow> adj g a b e)
   \<and> (\<forall>k k' e. edge_lookup g k = Some e \<and> edge_lookup g k' = Some e \<longrightarrow> k = k')
   \<and> (\<forall>k e. edge_lookup g k = Some e \<longrightarrow>
        e < length (edges g) \<and> (\<exists>a < n_nodes g. \<exists>b < n_nodes g. a \<noteq> b \<and> k = edge_key a b))"

definition graph_ok :: "CostGraph \<Rightarrow> bool" where
  "graph_ok g \<longleftrightarrow> nodes_ok g \<and> active_ok g \<and> edges_ok g"

lemma edge_key_commute: "edge_key a b = edge_key b a"
  by (simp add: edge_key_def)

lemma edge_key_eq: "a < 2 ^ 32 \<Longrightarrow> b < 2 ^ 32 \<Longrightarrow> edge_key a b = max a b * 2 ^ 32 + min a b"
  by (auto simp: edge_key_def or_push_bit_nat max_def min_def)

lemma edge_key_inj:
  assumes "a < 2 ^ 32" "b < 2 ^ 32" "c < 2 ^ 32" "d < 2 ^ 32" "edge_key a b = edge_key c d"
  shows "min a b = min c d \<and> max a b = max c d"
proof -
  have e: "max a b * 2 ^ 32 + min a b = max c d * 2 ^ 32 + min c d" using assms by (simp add: edge_key_eq)
  have "(max a b * 2 ^ 32 + min a b) div 2 ^ 32 = max a b" "(max c d * 2 ^ 32 + min c d) div 2 ^ 32 = max c d"
    using assms(1-4) by (simp_all add: min_def)
  then have "max a b = max c d" using e by metis
  then show ?thesis using e by simp
qed

lemma n_nodes_bound: "nodes_ok g \<Longrightarrow> n_nodes g \<le> 2 ^ 32"
proof -
  assume g: "nodes_ok g"
  have "n_nodes g = card (set (node_uid g))" using g by (simp add: nodes_ok_def n_nodes_def distinct_card)
  also have "\<dots> \<le> card {..<2 ^ 32 :: nat}" using g by (intro card_mono) (auto simp: nodes_ok_def)
  finally show ?thesis by simp
qed

section \<open>Numbering\<close>

lemma nodes_lengths:
  assumes "nodes_ok g"
  shows "length (node_kind g) = n_nodes g" "length (node_costs g) = n_nodes g" "length (neighbours g) = n_nodes g"
    "length (active_pos g) = n_nodes g" "length (node_uid g) = n_nodes g"
  using assms by (simp_all add: nodes_ok_def n_nodes_def)

lemma node_lookup: "nodes_ok g \<Longrightarrow>
    u < length (uid_to_node g) \<and> uid_to_node g ! u = Some n \<longleftrightarrow> n < n_nodes g \<and> node_uid g ! n = u"
  by (simp add: nodes_ok_def)

lemma node_less_bound: "nodes_ok g \<Longrightarrow> n < n_nodes g \<Longrightarrow> n < 2 ^ 32"
  using n_nodes_bound[of g] by simp

definition node_of :: "CostGraph \<Rightarrow> nat \<Rightarrow> nat option" where
  "node_of g u = (if u < length (uid_to_node g) then uid_to_node g ! u else None)"

lemma node_of_iff: "nodes_ok g \<Longrightarrow> node_of g u = Some n \<longleftrightarrow> n < n_nodes g \<and> node_uid g ! n = u"
  using node_lookup[of g u n] by (auto simp: node_of_def)

lemma has_node_of: "has_node g u \<longleftrightarrow> node_of g u \<noteq> None"
  by (simp add: has_node_def node_of_def)

lemma graph_node_old:
  "node_of g u = Some n \<Longrightarrow> graph_node u g = (g, n)"
  by (auto simp: graph_node_def node_of_def Let_def split: if_splits)

lemma graph_node_new:
  assumes "node_of g u = None"
  shows "graph_node u g = (g\<lparr>uid_to_node := (if length (uid_to_node g) \<le> u
      then uid_to_node g @ replicate (u + 1 - length (uid_to_node g)) None else uid_to_node g)[u := Some (n_nodes g)],
    node_uid := node_uid g @ [u], node_kind := node_kind g @ [default_kind u], node_costs := node_costs g @ [zero_costs],
    neighbours := neighbours g @ [[]], active_pos := active_pos g @ [length (active g)],
    active := active g @ [n_nodes g]\<rparr>, n_nodes g)"
  using assms by (auto simp: graph_node_def node_of_def n_nodes_def Let_def nth_append)

lemma new_node_props:
  assumes "node_of g u = None"
  shows "n_nodes (fst (graph_node u g)) = Suc (n_nodes g)" "node_uid (fst (graph_node u g)) = node_uid g @ [u]"
    "node_kind (fst (graph_node u g)) = node_kind g @ [default_kind u]"
    "node_costs (fst (graph_node u g)) = node_costs g @ [zero_costs]"
    "neighbours (fst (graph_node u g)) = neighbours g @ [[]]"
    "active_pos (fst (graph_node u g)) = active_pos g @ [length (active g)]"
    "active (fst (graph_node u g)) = active g @ [n_nodes g]" "edges (fst (graph_node u g)) = edges g"
    "edge_lookup (fst (graph_node u g)) = edge_lookup g" "snd (graph_node u g) = n_nodes g"
    "node_of (fst (graph_node u g)) v = (if v = u then Some (n_nodes g) else node_of g v)"
  using assms by (auto simp: graph_node_new n_nodes_def node_of_def nth_append nth_list_update)

lemma nodes_ok_alt: "nodes_ok g \<longleftrightarrow>
     length (node_kind g) = n_nodes g \<and> length (node_costs g) = n_nodes g \<and> length (neighbours g) = n_nodes g
   \<and> length (active_pos g) = n_nodes g \<and> distinct (node_uid g) \<and> (\<forall>u \<in> set (node_uid g). u < 2 ^ 32)
   \<and> (\<forall>n < n_nodes g. kind_fits (node_uid g ! n) (node_kind g ! n) \<and> length (node_costs g ! n) = kMaxDomain)
   \<and> (\<forall>u n. node_of g u = Some n \<longleftrightarrow> n < n_nodes g \<and> node_uid g ! n = u)"
  unfolding nodes_ok_def node_of_def by auto

lemma nodes_ok_new:
  assumes g: "nodes_ok g" and u: "u < 2 ^ 32" "node_of g u = None"
  shows "nodes_ok (fst (graph_node u g))"
proof -
  let ?g = "fst (graph_node u g)"
  note l = nodes_lengths[OF g] and p = new_node_props[OF u(2)]
  have fresh: "\<And>i. i < n_nodes g \<Longrightarrow> node_uid g ! i \<noteq> u" using node_of_iff[OF g, of u] u(2) by auto
  have k: "kind_fits (node_uid ?g ! i) (node_kind ?g ! i) \<and> length (node_costs ?g ! i) = kMaxDomain"
    if "i < Suc (n_nodes g)" for i
  proof (cases "i = n_nodes g")
    case True
    then show ?thesis using l kind_fits_default[of u] by (simp add: p nth_append zero_costs_def)
  next
    case False
    then show ?thesis using that g l by (simp add: p nth_append nodes_ok_def)
  qed
  have look: "node_of ?g v = Some i \<longleftrightarrow> i < Suc (n_nodes g) \<and> node_uid ?g ! i = v" for v i
    using fresh[of i] node_of_iff[OF g, of v i] l(5) by (simp add: p(2,11) nth_append less_Suc_eq) auto
  have "u \<notin> set (node_uid g)" using fresh l(5) by (auto simp: in_set_conv_nth)
  moreover have "distinct (node_uid g)" "\<forall>u \<in> set (node_uid g). u < 2 ^ 32" using g by (simp_all add: nodes_ok_def)
  ultimately show ?thesis unfolding nodes_ok_alt using l k look u(1) by (simp add: p)
qed

lemma adj_new: "nodes_ok g \<Longrightarrow> adj (fst (graph_node u g)) a b e = adj g a b e"
  by (cases "node_of g u")
    (auto simp: graph_node_old graph_node_new adj_def n_nodes_def nodes_ok_def nth_append less_Suc_eq)

lemma active_ok_new: "nodes_ok g \<Longrightarrow> active_ok g \<Longrightarrow> active_ok (fst (graph_node u g))"
  by (cases "node_of g u")
    (auto simp: graph_node_old graph_node_new active_ok_def n_nodes_def nodes_ok_def nth_append less_Suc_eq)

lemma find_edge_new [simp]: "find_edge (fst (graph_node u g)) a b = find_edge g a b"
  by (cases "node_of g u") (simp_all add: graph_node_old graph_node_new find_edge_def)

section \<open>The operations keep the graph well-formed\<close>

lemma graph_okD: "graph_ok g \<Longrightarrow> nodes_ok g" "graph_ok g \<Longrightarrow> active_ok g" "graph_ok g \<Longrightarrow> edges_ok g"
  by (simp_all add: graph_ok_def)

lemma edge_ok_adj: "edges_ok g \<Longrightarrow> adj g a b e \<Longrightarrow> edge_ok g a b e"
  by (simp add: edges_ok_def)

lemma adj_less: "adj g a b e \<Longrightarrow> a < n_nodes g"
  by (simp add: adj_def)

lemma adj_unique: "edges_ok g \<Longrightarrow> adj g a b e \<Longrightarrow> adj g a b e' \<Longrightarrow> e' = e"
  using edge_ok_adj[of g a b e] edge_ok_adj[of g a b e'] by (simp add: edge_ok_def)

lemma lookup_nodes: "edges_ok g \<Longrightarrow> edge_lookup g k = Some e \<Longrightarrow>
    e < length (edges g) \<and> (\<exists>a < n_nodes g. \<exists>b < n_nodes g. a \<noteq> b \<and> k = edge_key a b)"
  unfolding edges_ok_def by blast

lemma lookup_inj: "edges_ok g \<Longrightarrow> edge_lookup g k = Some e \<Longrightarrow> edge_lookup g k' = Some e \<Longrightarrow> k = k'"
  unfolding edges_ok_def by blast

lemma find_edge_nodes:
  assumes "nodes_ok g" "edges_ok g" "find_edge g a b = Some e" "a < 2 ^ 32" "b < 2 ^ 32"
  shows "a < n_nodes g \<and> b < n_nodes g"
proof -
  obtain c d where c: "c < n_nodes g" "d < n_nodes g" "edge_key a b = edge_key c d"
    using lookup_nodes[OF assms(2)] assms(3) unfolding find_edge_def by blast
  have "min a b = min c d \<and> max a b = max c d"
    using edge_key_inj[OF assms(4,5) node_less_bound[OF assms(1) c(1)] node_less_bound[OF assms(1) c(2)] c(3)] .
  then show ?thesis using c(1,2) by (auto simp: min_def max_def split: if_splits)
qed

lemma active_less: "active_ok g \<Longrightarrow> a \<in> set (active g) \<Longrightarrow> a < n_nodes g"
  by (auto simp: active_ok_def in_set_conv_nth)

lemma active_distinct: "active_ok g \<Longrightarrow> distinct (active g)"
  unfolding active_ok_def distinct_conv_nth by metis

lemma find_edge_commute: "find_edge g a b = find_edge g b a"
  by (simp add: find_edge_def edge_key_commute)

lemma edge_ok_new:
  assumes "nodes_ok g" "edge_ok g a b e" "node_of g u = None" "a < n_nodes g"
  shows "edge_ok (fst (graph_node u g)) a b e"
proof -
  have "b < n_nodes g" using assms(2) by (simp add: edge_ok_def)
  with assms(4) have "min a b < n_nodes g" "max a b < n_nodes g" by simp_all
  then show ?thesis using assms(2) nodes_lengths(1)[OF assms(1)] adj_new[OF assms(1), of u]
    by (simp add: edge_ok_def new_node_props[OF assms(3)] nth_append)
qed

lemma edges_ok_new:
  assumes g: "graph_ok g" and u: "u < 2 ^ 32" "node_of g u = None"
  shows "edges_ok (fst (graph_node u g))"
proof -
  note ok = graph_okD[OF g] and p = new_node_props[OF u(2)]
  have bnd: "n_nodes (fst (graph_node u g)) \<le> 2 ^ 32" using n_nodes_bound[OF nodes_ok_new[OF ok(1) u]] .
  have found: "adj g a b e" if "a \<in> set (active g @ [n_nodes g])" "b \<in> set (active g @ [n_nodes g])" "a \<noteq> b" "find_edge g a b = Some e" for a b e
  proof -
    have "a \<le> n_nodes g" "b \<le> n_nodes g" using that(1,2) active_less[OF ok(2)] by (auto intro: less_imp_le)
    then have "a < 2 ^ 32" "b < 2 ^ 32" using bnd by (simp_all add: p)
    from find_edge_nodes[OF ok(1,3) that(4) this] have "a \<in> set (active g)" "b \<in> set (active g)" using that(1,2) by auto
    then show ?thesis using ok(3) that(3,4) unfolding edges_ok_def by blast
  qed
  have d: "distinct (map adj_other (neighbours (fst (graph_node u g)) ! a))" if "a < Suc (n_nodes g)" for a
    using that ok(3) nodes_lengths(3)[OF ok(1)] by (auto simp: p nth_append less_Suc_eq edges_ok_def)
  have l: "edge_lookup g k = Some e \<Longrightarrow> e < length (edges g) \<and>
      (\<exists>a < Suc (n_nodes g). \<exists>b < Suc (n_nodes g). a \<noteq> b \<and> k = edge_key a b)" for k e
    using lookup_nodes[OF ok(3), of k e] less_SucI by blast
  show ?thesis unfolding edges_ok_def p(1,7,8,9) adj_new[OF ok(1)] find_edge_new
    using edge_ok_new[OF ok(1) edge_ok_adj[OF ok(3)] u(2) adj_less] found d l lookup_inj[OF ok(3)] by blast
qed

lemma graph_ok_new: "graph_ok g \<Longrightarrow> u < 2 ^ 32 \<Longrightarrow> graph_ok (fst (graph_node u g))"
  using edges_ok_new[of g u] nodes_ok_new[of g u] active_ok_new[of g u]
  by (cases "node_of g u") (auto simp: graph_ok_def graph_node_old)

text \<open>What a graph keeps while it is built: its nodes keep their numbers.\<close>

definition grows :: "CostGraph \<Rightarrow> CostGraph \<Rightarrow> bool" where
  "grows g g' \<longleftrightarrow> (\<forall>u n. node_of g u = Some n \<longrightarrow> node_of g' u = Some n)
     \<and> (\<forall>a b e. adj g a b e \<longrightarrow> adj g' a b e \<and> (cm_cost (edges g ! e) = None \<longrightarrow> edges g' ! e = edges g ! e))"

lemma grows_refl [simp]: "grows g g"
  by (simp add: grows_def)

lemma grows_trans: "grows g g' \<Longrightarrow> grows g' g'' \<Longrightarrow> grows g g''"
  unfolding grows_def by (metis (no_types, lifting))

lemma grows_new: "nodes_ok g \<Longrightarrow> grows g (fst (graph_node u g))"
  by (cases "node_of g u") (auto simp: grows_def graph_node_old new_node_props adj_new)

lemma node_of_new: "nodes_ok g \<Longrightarrow> node_of (fst (graph_node u g)) u = Some (snd (graph_node u g))"
  by (cases "node_of g u") (auto simp: graph_node_old new_node_props)

lemma n_nodes_updates [simp]:
  "n_nodes (g\<lparr>edges := x\<rparr>) = n_nodes g" "n_nodes (g\<lparr>edge_lookup := l\<rparr>) = n_nodes g"
  "n_nodes (g\<lparr>neighbours := ns\<rparr>) = n_nodes g" "n_nodes (g\<lparr>node_kind := ks\<rparr>) = n_nodes g"
  "n_nodes (g\<lparr>node_costs := cs\<rparr>) = n_nodes g" "n_nodes (g\<lparr>active := as\<rparr>) = n_nodes g"
  "n_nodes (g\<lparr>active_pos := ps\<rparr>) = n_nodes g"
  by (simp_all add: n_nodes_def)

lemma node_of_updates [simp]:
  "node_of (g\<lparr>edges := x\<rparr>) = node_of g" "node_of (g\<lparr>edge_lookup := l\<rparr>) = node_of g"
  "node_of (g\<lparr>neighbours := ns\<rparr>) = node_of g" "node_of (g\<lparr>node_kind := ks\<rparr>) = node_of g"
  "node_of (g\<lparr>node_costs := cs\<rparr>) = node_of g" "node_of (g\<lparr>active := as\<rparr>) = node_of g"
  "node_of (g\<lparr>active_pos := ps\<rparr>) = node_of g"
  by (simp_all add: node_of_def fun_eq_iff)

lemma adj_set_kind [simp]: "adj (set_kind n k g) a b e = adj g a b e"
  by (simp add: adj_def set_kind_def)

lemma find_edge_set_kind [simp]: "find_edge (set_kind n k g) a b = find_edge g a b"
  by (simp add: find_edge_def set_kind_def)

lemma graph_ok_set_kind:
  assumes g: "graph_ok g" and n: "n < n_nodes g" "kind_fits (node_uid g ! n) k"
    and e: "\<And>b e. adj g n b e \<Longrightarrow> cm_cost (edges g ! e) = None"
  shows "graph_ok (set_kind n k g)" "grows g (set_kind n k g)"
proof -
  note ok = graph_okD[OF g] and l = nodes_lengths[OF graph_okD(1)[OF g]]
  have "edge_ok (set_kind n k g) a b x" if a: "adj g a b x" for a b x
  proof -
    have 1: "edge_ok g a b x" "edge_ok g b a x" "adj g b a x"
      using edge_ok_adj[OF ok(3)] a unfolding edge_ok_def by blast+
    show ?thesis
    proof (cases "a = n \<or> b = n")
      case True
      then have "cm_cost (edges g ! x) = None" using e a 1(3) by blast
      then show ?thesis using 1(1) by (simp add: edge_ok_def set_kind_def matrix_ok_def find_edge_def adj_def)
    next
      case False
      then have "min a b \<noteq> n" "max a b \<noteq> n" by (simp_all add: min_def max_def)
      then show ?thesis using 1(1) by (simp add: edge_ok_def set_kind_def find_edge_def adj_def)
    qed
  qed
  then have "edges_ok (set_kind n k g)"
    using ok(3) unfolding edges_ok_def adj_set_kind find_edge_set_kind by (simp add: set_kind_def)
  moreover have "nodes_ok (set_kind n k g)"
    using ok(1) n l unfolding nodes_ok_alt by (auto simp: set_kind_def nth_list_update)
  moreover have "active_ok (set_kind n k g)" using ok(2) by (simp add: active_ok_def set_kind_def)
  ultimately show "graph_ok (set_kind n k g)" by (simp add: graph_ok_def)
  show "grows g (set_kind n k g)" by (simp add: grows_def set_kind_def adj_def)
qed

lemma adj_add_edge:
  assumes "nodes_ok g" "a < n_nodes g" "b < n_nodes g" "a \<noteq> b"
  shows "adj (fst (add_edge a b m g)) x y e \<longleftrightarrow>
    adj g x y e \<or> e = length (edges g) \<and> (x = a \<and> y = b \<or> x = b \<and> y = a)"
  using assms nodes_lengths(3)[OF assms(1)] by (auto simp: adj_def add_edge_def Let_def nth_list_update)

lemma neighbours_add_edge:
  assumes "nodes_ok g" "a < n_nodes g" "b < n_nodes g" "a \<noteq> b" "x < n_nodes g"
  shows "map adj_other (neighbours (fst (add_edge a b m g)) ! x)
    = map adj_other (neighbours g ! x) @ (if x = a then [b] else if x = b then [a] else [])"
  using assms nodes_lengths(3)[OF assms(1)] by (auto simp: add_edge_def Let_def nth_list_update)

lemma add_edge_simps [simp]:
  "node_uid (fst (add_edge a b m g)) = node_uid g" "node_kind (fst (add_edge a b m g)) = node_kind g"
  "node_costs (fst (add_edge a b m g)) = node_costs g" "active (fst (add_edge a b m g)) = active g"
  "active_pos (fst (add_edge a b m g)) = active_pos g" "edges (fst (add_edge a b m g)) = edges g @ [m]"
  "snd (add_edge a b m g) = length (edges g)" "n_nodes (fst (add_edge a b m g)) = n_nodes g"
  "node_of (fst (add_edge a b m g)) = node_of g" "length (neighbours (fst (add_edge a b m g))) = length (neighbours g)"
  by (simp_all add: add_edge_def Let_def)

lemma lookup_add_edge: "find_edge g a b = None \<Longrightarrow>
    edge_lookup (fst (add_edge a b m g)) = (edge_lookup g)(edge_key a b \<mapsto> length (edges g))"
  by (simp add: add_edge_def Let_def find_edge_def)

lemma edge_key_same:
  assumes "nodes_ok g" "a < n_nodes g" "b < n_nodes g" "c < n_nodes g" "d < n_nodes g"
  shows "edge_key c d = edge_key a b \<longleftrightarrow> c = a \<and> d = b \<or> c = b \<and> d = a"
proof
  assume "edge_key c d = edge_key a b"
  then have "min c d = min a b \<and> max c d = max a b"
    using edge_key_inj[of c d a b] node_less_bound[OF assms(1)] assms(2-5) by blast
  then show "c = a \<and> d = b \<or> c = b \<and> d = a" by (auto simp: min_def max_def split: if_splits)
qed (auto simp: edge_key_commute)

lemma adj_mem: "y \<in> set (neighbours g ! a) \<Longrightarrow> a < n_nodes g \<Longrightarrow> adj g a (adj_other y) (adj_edge y)"
  by (cases y) (simp add: adj_def)

lemma not_neighbour:
  assumes "edges_ok g" "a < n_nodes g" "find_edge g a b = None"
  shows "b \<notin> set (map adj_other (neighbours g ! a))"
proof
  assume "b \<in> set (map adj_other (neighbours g ! a))"
  then obtain y where "y \<in> set (neighbours g ! a)" "adj_other y = b" by auto
  then have "edge_ok g a b (adj_edge y)" using adj_mem assms(2) edge_ok_adj[OF assms(1)] by blast
  then show False using assms(3) by (simp add: edge_ok_def)
qed

lemma neighbours_distinct_add_edge:
  assumes "nodes_ok g" "edges_ok g" "a < n_nodes g" "b < n_nodes g" "a \<noteq> b" "find_edge g a b = None" "x < n_nodes g"
  shows "distinct (map adj_other (neighbours (fst (add_edge a b m g)) ! x))"
proof -
  have "b \<notin> set (map adj_other (neighbours g ! a))" "a \<notin> set (map adj_other (neighbours g ! b))"
    using not_neighbour[OF assms(2)] assms(3,4,6) find_edge_commute[of g a b] by auto
  moreover have "distinct (map adj_other (neighbours g ! x))" using assms(2,7) by (simp add: edges_ok_def)
  ultimately have "distinct (map adj_other (neighbours g ! x) @ (if x = a then [b] else if x = b then [a] else []))"
    by (cases "x = a"; cases "x = b") (simp_all only: distinct_append if_True if_False list.set distinct.simps Int_insert_right
      Int_empty_right append_Nil2 simp_thms insert_iff empty_iff)
  then show ?thesis by (simp only: neighbours_add_edge[OF assms(1,3-5,7)])
qed

lemma graph_ok_add_edge:
  assumes g: "graph_ok g" and ab: "a \<in> set (active g)" "b \<in> set (active g)" "a \<noteq> b" "find_edge g a b = None"
    and m: "matrix_ok (node_kind g ! min a b) (node_kind g ! max a b) m"
  shows "graph_ok (fst (add_edge a b m g))" "grows g (fst (add_edge a b m g))"
proof -
  let ?g = "fst (add_edge a b m g)"
  note ok = graph_okD[OF g] and l = nodes_lengths[OF graph_okD(1)[OF g]]
  have n: "a < n_nodes g" "b < n_nodes g" using active_less[OF ok(2)] ab by blast+
  note adj' = adj_add_edge[OF ok(1) n ab(3), of m] and look = lookup_add_edge[OF ab(4), of m]
    and key = edge_key_same[OF ok(1) n]
  have fnd: "find_edge ?g c d = (if c = a \<and> d = b \<or> c = b \<and> d = a then Some (length (edges g)) else find_edge g c d)"
    if "c < n_nodes g" "d < n_nodes g" for c d
    using that key[of c d] look by (auto simp: find_edge_def)
  have keeps: "edge_ok ?g c d e" if "adj ?g c d e" for c d e
  proof (cases "adj g c d e")
    case True
    have 1: "edge_ok g c d e" using edge_ok_adj[OF ok(3) True] .
    have cd: "c < n_nodes g" "d < n_nodes g" using 1 adj_less[OF True] by (auto simp: edge_ok_def)
    have "\<not> (c = a \<and> d = b \<or> c = b \<and> d = a)"
      using 1 ab(4) find_edge_commute[of g a b] by (auto simp: edge_ok_def)
    then show ?thesis using 1 fnd[OF cd] by (auto simp: edge_ok_def adj' nth_append)
  next
    case False
    then have "e = length (edges g) \<and> (c = a \<and> d = b \<or> c = b \<and> d = a)" using that adj' by blast
    then show ?thesis using n ab(1-3) m fnd[OF n] fnd[OF n(2,1)]
      by (auto simp: edge_ok_def adj' nth_append min.commute max.commute)
  qed
  have "distinct (map adj_other (neighbours ?g ! x))" if "x < n_nodes g" for x
    using neighbours_distinct_add_edge[OF ok(1,3) n ab(3,4) that] .
  moreover have "adj ?g c d e" if "c \<in> set (active g)" "d \<in> set (active g)" "c \<noteq> d" "find_edge ?g c d = Some e" for c d e
    using that fnd[of c d] active_less[OF ok(2)] ok(3) unfolding adj' edges_ok_def
    by (metis option.inject)
  moreover have "k = k'" if "edge_lookup ?g k = Some e" "edge_lookup ?g k' = Some e" for k k' e
    using that lookup_inj[OF ok(3), of k e k'] lookup_nodes[OF ok(3), of k e] lookup_nodes[OF ok(3), of k' e]
    by (auto simp: look split: if_splits)
  moreover have "e < length (edges ?g) \<and> (\<exists>a < n_nodes ?g. \<exists>b < n_nodes ?g. a \<noteq> b \<and> k = edge_key a b)"
    if "edge_lookup ?g k = Some e" for k e
    using that lookup_nodes[OF ok(3), of k e] n ab(3) by (auto simp: look split: if_splits)
  ultimately have "edges_ok ?g" using keeps unfolding edges_ok_def by simp
  then show "graph_ok ?g" using ok l unfolding graph_ok_def nodes_ok_alt active_ok_def by simp
  show "grows g ?g"
    using edge_ok_adj[OF ok(3)] by (auto simp: grows_def adj' nth_append edge_ok_def)
qed

text \<open>The matrix of an edge is replaced.\<close>

lemma adj_edges [simp]: "adj (g\<lparr>edges := x\<rparr>) a b e = adj g a b e"
  by (simp add: adj_def)

lemma adj_same_edge:
  assumes g: "graph_ok g" "adj g a b e" "adj g c d e"
  shows "c = a \<and> d = b \<or> c = b \<and> d = a"
proof -
  note ok = graph_okD[OF g(1)]
  have "edge_ok g a b e" "edge_ok g c d e" using edge_ok_adj[OF ok(3)] g(2,3) by blast+
  then have "edge_key c d = edge_key a b" "b < n_nodes g" "d < n_nodes g"
    using lookup_inj[OF ok(3)] by (auto simp: edge_ok_def find_edge_def)
  then show ?thesis using edge_key_same[OF ok(1)] adj_less g(2,3) by blast
qed

lemma graph_ok_set_edge:
  assumes g: "graph_ok g" and e: "adj g a b e"
    and m: "matrix_ok (node_kind g ! min a b) (node_kind g ! max a b) m"
  shows "graph_ok (g\<lparr>edges := (edges g)[e := m]\<rparr>)"
proof -
  let ?g = "g\<lparr>edges := (edges g)[e := m]\<rparr>"
  note ok = graph_okD[OF g]
  have "edge_ok ?g c d x" if "adj g c d x" for c d x
  proof -
    have "edge_ok g c d x" using edge_ok_adj[OF ok(3) that] .
    moreover have "x = e \<Longrightarrow> min c d = min a b \<and> max c d = max a b"
      using adj_same_edge[OF g e, of c d] that by (auto simp: min.commute max.commute)
    ultimately show ?thesis using m by (cases "x = e") (simp_all add: edge_ok_def find_edge_def)
  qed
  then have "edges_ok ?g" using ok(3) by (simp add: edges_ok_def find_edge_def)
  then show ?thesis using ok(1,2) by (simp add: graph_ok_def nodes_ok_alt active_ok_def)
qed

lemma length_discount_cell [simp]: "length (discount_cell rnd k k' l h cs) = length cs"
  by (simp add: discount_cell_def Let_def)

lemma length_discount_row [simp]: "length (fold (discount_cell rnd k k' l) hs cs) = length cs"
  by (induction hs arbitrary: cs) simp_all

lemma length_discount [simp]: "length (discount rnd k k' cs) = length cs"
proof -
  have "length (fold (\<lambda>l. fold (discount_cell rnd k k' l) [0..<dom_size k']) ls cs) = length cs" for ls
    by (induction ls arbitrary: cs) simp_all
  then show ?thesis by (simp add: discount_def)
qed

lemma matrix_ok_discount:
  "matrix_ok k k' m \<Longrightarrow> cm_cost m = Some cs \<Longrightarrow> matrix_ok k k' (m\<lparr>cm_cost := Some (discount rnd l l' cs)\<rparr>)"
  by (simp add: matrix_ok_def)

lemma optional_edge_ok:
  assumes g: "graph_ok g" and ab: "a \<in> set (active g)" "b \<in> set (active g)" "a \<noteq> b" and o: "optional_edge a b g = (g', e)"
  shows "graph_ok g' \<and> grows g g' \<and> adj g' a b e \<and> node_uid g' = node_uid g \<and> node_kind g' = node_kind g
    \<and> active g' = active g \<and> node_of g' = node_of g"
proof (cases "find_edge g a b")
  case (Some x)
  then have "adj g a b x" using graph_okD(3)[OF g] ab unfolding edges_ok_def by blast
  then show ?thesis using Some o g by (simp add: optional_edge_def)
next
  case None
  let ?k = "node_kind g ! min a b" and ?k' = "node_kind g ! max a b"
  let ?m = "\<lparr>cm_cost = Some (store (\<lambda>_ _. Fin 0) (dom_size ?k) (dom_size ?k')), cm_hard = False, cm_lo = ?k, cm_hi = ?k'\<rparr>"
  have m: "matrix_ok ?k ?k' ?m" by (simp add: matrix_ok_def)
  have "optional_edge a b g = add_edge a b ?m g"
    using None ab(3) by (auto simp: optional_edge_def Let_def min_def max_def)
  then have g': "g' = fst (add_edge a b ?m g)" "e = length (edges g)"
    using o by (metis fst_conv, metis add_edge_simps(7) snd_conv)
  have n: "a < n_nodes g" "b < n_nodes g" using active_less[OF graph_okD(2)[OF g]] ab by blast+
  show ?thesis unfolding g'
    using graph_ok_add_edge[OF g ab None m] adj_add_edge[OF graph_okD(1)[OF g] n ab(3)] by simp
qed

lemma add_copy_discount_ok:
  assumes g: "graph_ok g" and ab: "a \<in> set (active g)" "b \<in> set (active g)" "a \<noteq> b"
  shows "graph_ok (add_copy_discount rnd a b g) \<and> grows g (add_copy_discount rnd a b g)
    \<and> node_uid (add_copy_discount rnd a b g) = node_uid g \<and> active (add_copy_discount rnd a b g) = active g
    \<and> node_of (add_copy_discount rnd a b g) = node_of g"
proof -
  obtain g' e where o: "optional_edge a b g = (g', e)" by fastforce
  note k = optional_edge_ok[OF g ab o]
  have e: "edge_ok g' a b e" using edge_ok_adj[OF graph_okD(3)] k by blast
  show ?thesis
  proof (cases "cm_cost (edges g' ! e)")
    case None
    then show ?thesis using k o by (simp add: add_copy_discount_def Let_def)
  next
    case (Some cs)
    let ?g = "g'\<lparr>edges := (edges g')[e := (edges g' ! e)\<lparr>cm_cost := Some (discount rnd
      (cm_lo (edges g' ! e)) (cm_hi (edges g' ! e)) cs)\<rparr>]\<rparr>"
    have r: "add_copy_discount rnd a b g = ?g" using o Some by (simp add: add_copy_discount_def Let_def)
    have "graph_ok ?g" using k e Some by (intro graph_ok_set_edge[of _ a b]) (auto simp: edge_ok_def intro: matrix_ok_discount)
    moreover have "grows g' ?g"
      unfolding grows_def using Some by (auto simp: adj_def) (metis nth_list_update_neq option.distinct(1))
    ultimately show ?thesis using k grows_trans unfolding r by simp blast
  qed
qed

section \<open>Taking a node out\<close>

lemma erase_active_simps [simp]:
  "node_uid (erase_active pos g) = node_uid g" "node_kind (erase_active pos g) = node_kind g"
  "node_costs (erase_active pos g) = node_costs g" "neighbours (erase_active pos g) = neighbours g"
  "edges (erase_active pos g) = edges g" "edge_lookup (erase_active pos g) = edge_lookup g"
  "uid_to_node (erase_active pos g) = uid_to_node g" "length (active_pos (erase_active pos g)) = length (active_pos g)"
  "n_nodes (erase_active pos g) = n_nodes g" "node_of (erase_active pos g) = node_of g"
  "length (active (erase_active pos g)) = length (active g) - 1"
  by (simp_all add: erase_active_def Let_def n_nodes_def node_of_def fun_eq_iff)

lemma erase_active_nth:
  assumes "pos < length (active g)" "i < length (active g) - 1"
  shows "active (erase_active pos g) ! i = (if i = pos then last (active g) else active g ! i)"
  using assms by (auto simp: erase_active_def Let_def nth_butlast nth_list_update)

lemma erase_active_set:
  assumes g: "active_ok g" and pos: "pos < length (active g)"
  shows "set (active (erase_active pos g)) = set (active g) - {active g ! pos}"
proof -
  let ?a = "active g" and ?n = "length (active g) - 1"
  have d: "distinct ?a" using active_distinct[OF g] .
  have l: "last ?a = ?a ! ?n" using pos by (intro last_conv_nth) auto
  show ?thesis
  proof (intro set_eqI iffI)
    fix x assume "x \<in> set (active (erase_active pos g))"
    then obtain i where "i < ?n" "x = (if i = pos then ?a ! ?n else ?a ! i)"
      using erase_active_nth[OF pos] l by (auto simp: in_set_conv_nth)
    moreover then have "i = pos \<Longrightarrow> ?n \<noteq> pos" by linarith
    ultimately show "x \<in> set ?a - {?a ! pos}" using d pos by (auto simp: nth_eq_iff_index_eq split: if_splits)
  next
    fix x assume "x \<in> set ?a - {?a ! pos}"
    then obtain j where j: "j < length ?a" "x = ?a ! j" "j \<noteq> pos" by (auto simp: in_set_conv_nth)
    show "x \<in> set (active (erase_active pos g))"
    proof (cases "j = ?n")
      case True
      then have "pos < ?n" using j pos by linarith
      then show ?thesis using erase_active_nth[OF pos, of pos] l True j(2)
        by (metis erase_active_simps(11) nth_mem)
    next
      case False
      then show ?thesis using erase_active_nth[OF pos, of j] j by (auto simp: in_set_conv_nth intro!: exI[of _ j])
    qed
  qed
qed

lemma erase_active_ok:
  assumes g: "active_ok g" "length (active_pos g) = n_nodes g" and pos: "pos < length (active g)"
  shows "active_ok (erase_active pos g)"
proof -
  let ?a = "active g" and ?n = "length (active g) - 1"
  have d: "distinct ?a" using active_distinct[OF g(1)] .
  have l: "last ?a = ?a ! ?n" using pos by (intro last_conv_nth) auto
  have a: "?a ! i < n_nodes g" "active_pos g ! (?a ! i) = i" if "i < length ?a" for i
    using g(1) that by (simp_all add: active_ok_def)
  have p: "active_pos (erase_active pos g) = (if pos < ?n then (active_pos g)[?a ! ?n := pos] else active_pos g)"
    using l by (simp add: erase_active_def Let_def)
  show ?thesis unfolding active_ok_def erase_active_simps
  proof (intro allI impI)
    fix i assume i: "i < ?n"
    show "active (erase_active pos g) ! i < n_nodes g
      \<and> active_pos (erase_active pos g) ! (active (erase_active pos g) ! i) = i"
      using i pos a[of i] a[of ?n] d g(2) unfolding p erase_active_nth[OF pos i] l
      by (auto simp: nth_list_update nth_eq_iff_index_eq)
  qed
qed

definition detached :: "nat \<Rightarrow> CostGraph \<Rightarrow> CostGraph \<Rightarrow> bool" where
  "detached u g g' \<longleftrightarrow> g' = g\<lparr>neighbours := neighbours g'\<rparr> \<and> length (neighbours g') = length (neighbours g)
     \<and> (\<forall>a < n_nodes g. neighbours g' ! a = (if a = u then [] else filter (\<lambda>x. adj_other x \<noteq> u) (neighbours g ! a)))"

lemma detachedD:
  assumes "detached u g g'"
  shows "node_uid g' = node_uid g" "node_kind g' = node_kind g" "node_costs g' = node_costs g" "edges g' = edges g"
    "edge_lookup g' = edge_lookup g" "uid_to_node g' = uid_to_node g" "active g' = active g"
    "active_pos g' = active_pos g" "n_nodes g' = n_nodes g" "node_of g' = node_of g"
proof -
  obtain ns where "g' = g\<lparr>neighbours := ns\<rparr>" using assms unfolding detached_def by blast
  then show "node_uid g' = node_uid g" "node_kind g' = node_kind g" "node_costs g' = node_costs g" "edges g' = edges g"
    "edge_lookup g' = edge_lookup g" "uid_to_node g' = uid_to_node g" "active g' = active g"
    "active_pos g' = active_pos g" "n_nodes g' = n_nodes g" "node_of g' = node_of g"
    by simp_all
qed

lemma adj_detached:
  assumes "detached u g g'"
  shows "adj g' a b e \<longleftrightarrow> adj g a b e \<and> a \<noteq> u \<and> b \<noteq> u"
  using assms by (auto simp: adj_def detachedD[OF assms]) (auto simp: detached_def split: if_splits)

lemma graph_ok_detached:
  assumes g: "graph_ok g" and d: "detached u g g'" and u: "pos < length (active g)" "active g ! pos = u"
  shows "graph_ok (erase_active pos g')" "set (active (erase_active pos g')) = set (active g) - {u}"
    "\<And>a b e. adj (erase_active pos g') a b e \<longleftrightarrow> adj g a b e \<and> a \<noteq> u \<and> b \<noteq> u"
proof -
  let ?g = "erase_active pos g'"
  note ok = graph_okD[OF g] and l = nodes_lengths[OF graph_okD(1)[OF g]] and s = detachedD[OF d]
  have len: "length (neighbours g') = n_nodes g" using d l by (simp add: detached_def)
  have ao: "active_ok g'" using ok(2) by (simp add: active_ok_def s)
  show act: "set (active ?g) = set (active g) - {u}" using erase_active_set[OF ao] u by (simp add: s)
  show ad: "adj ?g a b e \<longleftrightarrow> adj g a b e \<and> a \<noteq> u \<and> b \<noteq> u" for a b e
    using adj_detached[OF d, of a b e] by (simp add: adj_def)
  have fe: "find_edge ?g a b = find_edge g a b" for a b by (simp add: find_edge_def s)
  have "edge_ok ?g a b e" if "adj ?g a b e" for a b e
    using edge_ok_adj[OF ok(3), of a b e] that by (simp add: edge_ok_def ad act fe s)
  moreover have "distinct (map adj_other (neighbours ?g ! a))" if "a < n_nodes g" for a
    using that d ok(3) by (simp add: detached_def edges_ok_def distinct_map_filter)
  moreover have "adj ?g a b e" if "a \<in> set (active ?g)" "b \<in> set (active ?g)" "a \<noteq> b" "find_edge ?g a b = Some e" for a b e
    using that ok(3) unfolding ad fe act edges_ok_def by blast
  ultimately have "edges_ok ?g"
    using lookup_nodes[OF ok(3)] lookup_inj[OF ok(3)] unfolding edges_ok_def erase_active_simps s by blast
  moreover have "nodes_ok ?g" using ok(1) len unfolding nodes_ok_alt erase_active_simps s by simp
  moreover have "active_ok ?g" using erase_active_ok[OF ao] l(4) u by (simp add: s)
  ultimately show "graph_ok ?g" by (simp add: graph_ok_def)
qed

lemma remove_neighbour_simps [simp]:
  "neighbours (remove_neighbour f t g) = (neighbours g)[f := filter (\<lambda>a. adj_other a \<noteq> t) (neighbours g ! f)]"
  by (simp_all add: remove_neighbour_def)

end
