(* ===== verification/PBQPSolver.thy ===== *)
theory PBQPSolver
  imports CostGraphs
begin

text \<open>
  The solver of the register assignment, \<^verbatim>\<open>src/src/mir/optim/reg_alloc_solver.hpp\<close>: the three reductions,
  \<^verbatim>\<open>minimize_graph\<close>, and \<^verbatim>\<open>actually_allocate\<close>, which picks the registers in the reverse order of the
  reductions. The main results: the reductions keep the graph well-formed, every record names neighbours that are still
  undecided, and the loop ends.
\<close>

section \<open>Records\<close>

datatype (plugins only: code) ReductionType = R1 | R2 | RM

record BrokenEdge =
  be_neighbor :: nat
  be_matrix :: CostMatrix
  be_flip :: bool

record StackRecord =
  sr_type :: ReductionType
  sr_node :: nat
  sr_neigh0 :: nat
  sr_ab_self_lo :: bool
  sr_m_ab :: CostMatrix
  sr_neigh1 :: nat
  sr_bc_self_lo :: bool
  sr_m_bc :: CostMatrix
  sr_broken_edges :: "BrokenEdge list"

definition kNoNode :: nat where "kNoNode = 2 ^ 32 - 1"

definition stack_record :: "ReductionType \<Rightarrow> nat \<Rightarrow> StackRecord" where
  "stack_record ty n = \<lparr>sr_type = ty, sr_node = n, sr_neigh0 = kNoNode, sr_ab_self_lo = False, sr_m_ab = interference,
     sr_neigh1 = kNoNode, sr_bc_self_lo = False, sr_m_bc = interference, sr_broken_edges = []\<rparr>"

section \<open>Reductions\<close>

definition zero_dense :: DenseCosts where "zero_dense = (\<lambda>_ _. Fin 0)"

text \<open>The cheapest of \<open>n\<close> costs, from infinity down.\<close>

definition min_over :: "nat \<Rightarrow> (nat \<Rightarrow> f32) \<Rightarrow> f32" where
  "min_over n f = fold (\<lambda>j c. min c (f j)) [0..<n] Inf"

definition R1_record :: "CostGraph \<Rightarrow> nat \<Rightarrow> nat \<Rightarrow> nat \<Rightarrow> StackRecord" where
  "R1_record g u b e = (stack_record R1 u)\<lparr>sr_neigh0 := b, sr_m_ab := edges g ! e, sr_ab_self_lo := (u < b)\<rparr>"

text \<open>A node with one neighbour: its cheapest register for every register of the neighbour is added to the costs of
  the neighbour. \<^verbatim>\<open>None\<close> is \<^verbatim>\<open>false\<close>.\<close>

definition R1_Reduction :: "rounding \<Rightarrow> nat \<Rightarrow> CostGraph \<Rightarrow> StackRecord list \<Rightarrow> (CostGraph \<times> StackRecord list) option" where
  "R1_Reduction rnd node g stack =
     (if length (neighbours g ! node) \<noteq> 1 then None
      else
        (let n0 = neighbours g ! node ! 0;
             m_ab = edges g ! adj_edge n0;
             ab_flip = (node < adj_other n0);
             k_a = node_kind g ! node; k_b = node_kind g ! adj_other n0;
             v_a = node_costs g ! node;
             ab = to_dense m_ab ab_flip k_a k_b zero_dense;
             add_vb = (\<lambda>i. min_over (dom_size k_a) (\<lambda>j. f32_add rnd (ab j i) (v_a ! j)));
             r = R1_record g node (adj_other n0) (adj_edge n0);
             v_b = fold (\<lambda>i v. v[i := f32_add rnd (v ! i) (add_vb i)]) [0..<dom_size k_b] (node_costs g ! adj_other n0);
             g = g\<lparr>node_costs := (node_costs g)[adj_other n0 := v_b]\<rparr>;
             g = clear_neighbours node (remove_neighbour (adj_other n0) node g)
         in Some (g, stack @ [r])))"

text \<open>A node \<open>u\<close> with the neighbours \<open>a\<close> and \<open>c\<close>, over the edges \<open>e\<close> and \<open>e'\<close>: the block \<^verbatim>\<open>ac\<close> of the
  costs over \<open>u\<close>, added to those of the edge the neighbours have already, and the matrix made of it, whose rows belong
  to the lower node.\<close>

definition R2_block :: "rounding \<Rightarrow> CostGraph \<Rightarrow> nat \<Rightarrow> nat \<Rightarrow> nat \<Rightarrow> nat \<Rightarrow> nat \<Rightarrow> DenseCosts" where
  "R2_block rnd g a e u e' c =
     (let k_a = node_kind g ! a; k_b = node_kind g ! u; k_c = node_kind g ! c;
          ac = (case find_edge g a c of None \<Rightarrow> zero_dense
                | Some x \<Rightarrow> to_dense (edges g ! x) (a < c) k_a k_c zero_dense);
          ab = to_dense (edges g ! e) (a < u) k_a k_b zero_dense;
          bc = to_dense (edges g ! e') (u < c) k_b k_c zero_dense
      in (\<lambda>i k. if i < dom_size k_a \<and> k < dom_size k_c
                then f32_add rnd (ac i k)
                  (min_over (dom_size k_b) (\<lambda>j. f32_add rnd (f32_add rnd (ab i j) (node_costs g ! u ! j)) (bc j k)))
                else ac i k))"

definition R2_matrix :: "rounding \<Rightarrow> CostGraph \<Rightarrow> nat \<Rightarrow> nat \<Rightarrow> nat \<Rightarrow> nat \<Rightarrow> nat \<Rightarrow> bool \<Rightarrow> CostMatrix" where
  "R2_matrix rnd g a e u e' c hard =
     (let k_a = node_kind g ! a; k_c = node_kind g ! c; ac = R2_block rnd g a e u e' c
      in if a < c then \<lparr>cm_cost = Some (store ac (dom_size k_a) (dom_size k_c)), cm_hard = hard, cm_lo = k_a, cm_hi = k_c\<rparr>
         else \<lparr>cm_cost = Some (store (\<lambda>k i. ac i k) (dom_size k_c) (dom_size k_a)), cm_hard = hard, cm_lo = k_c, cm_hi = k_a\<rparr>)"

definition R2_hard :: "CostGraph \<Rightarrow> nat \<Rightarrow> nat \<Rightarrow> nat \<Rightarrow> nat \<Rightarrow> bool" where
  "R2_hard g a e c e' =
     (let new_ac_hard = (case find_edge g a c of None \<Rightarrow> False | Some x \<Rightarrow> cm_hard (edges g ! x))
      in new_ac_hard \<or> (cm_hard (edges g ! e) \<and> cm_hard (edges g ! e')))"

definition R2_put :: "nat \<Rightarrow> nat \<Rightarrow> CostMatrix \<Rightarrow> CostGraph \<Rightarrow> CostGraph" where
  "R2_put a c m g = (case find_edge g a c of Some x \<Rightarrow> g\<lparr>edges := (edges g)[x := m]\<rparr> | None \<Rightarrow> fst (add_edge a c m g))"

definition R2_record :: "CostGraph \<Rightarrow> nat \<Rightarrow> nat \<Rightarrow> nat \<Rightarrow> nat \<Rightarrow> nat \<Rightarrow> StackRecord" where
  "R2_record g u a e c e' = (stack_record R2 u)\<lparr>sr_neigh0 := a, sr_neigh1 := c, sr_m_ab := edges g ! e,
     sr_m_bc := edges g ! e', sr_ab_self_lo := (u < a), sr_bc_self_lo := (u < c)\<rparr>"

text \<open>A node with two neighbours is replaced by an edge between them.\<close>

definition R2_Reduction :: "rounding \<Rightarrow> nat \<Rightarrow> CostGraph \<Rightarrow> StackRecord list \<Rightarrow> (CostGraph \<times> StackRecord list) option" where
  "R2_Reduction rnd node g stack =
     (if length (neighbours g ! node) \<noteq> 2 then None
      else
        (let n0 = neighbours g ! node ! 0; n1 = neighbours g ! node ! 1;
             neigh0 = adj_other n0; neigh1 = adj_other n1;
             new_ac_hard = R2_hard g neigh0 (adj_edge n0) neigh1 (adj_edge n1);
             r = R2_record g node neigh0 (adj_edge n0) neigh1 (adj_edge n1);
             new_ac = R2_matrix rnd g neigh0 (adj_edge n0) node (adj_edge n1) neigh1 new_ac_hard;
             g = R2_put neigh0 neigh1 new_ac g;
             g = clear_neighbours node (remove_neighbour neigh1 node (remove_neighbour neigh0 node g))
         in Some (g, stack @ [r])))"

text \<open>The node with the least spill cost per neighbour is taken out with the edges it has.\<close>

definition RM_select :: "rounding \<Rightarrow> CostGraph \<Rightarrow> nat \<Rightarrow> nat option \<times> f32 \<Rightarrow> nat option \<times> f32" where
  "RM_select rnd g node s =
     (let neigh = neighbours g ! node
      in if neigh = [] \<or> node_concrete g node then s
         else let metric = f32_div rnd (node_costs g ! node ! 0) (of_nat (length neigh))
              in if metric < snd s then (Some node, metric) else s)"

definition RM_break :: "nat \<Rightarrow> Adj \<Rightarrow> CostGraph \<times> BrokenEdge list \<Rightarrow> CostGraph \<times> BrokenEdge list" where
  "RM_break victim a s =
     (remove_neighbour (adj_other a) victim (fst s),
      snd s @ [\<lparr>be_neighbor = adj_other a, be_matrix = edges (fst s) ! adj_edge a, be_flip = (victim < adj_other a)\<rparr>])"

definition RM_Reduction :: "rounding \<Rightarrow> CostGraph \<Rightarrow> StackRecord list \<Rightarrow> (CostGraph \<times> StackRecord list) option" where
  "RM_Reduction rnd g stack =
     (case fst (fold (RM_select rnd g) (active g) (None, f32_max)) of
        None \<Rightarrow> None
      | Some victim \<Rightarrow>
          (let (g1, broken) = fold (RM_break victim) (neighbours g ! victim) (g, []);
               g2 = clear_neighbours victim g1
           in Some (erase_active (active_pos g2 ! victim) g2, stack @ [(stack_record RM victim)\<lparr>sr_broken_edges := broken\<rparr>])))"

section \<open>The loop\<close>

text \<open>One pass over the active nodes: the graph, the stack, and the two flags.\<close>

definition reduce :: "rounding \<Rightarrow> nat \<Rightarrow> CostGraph \<Rightarrow> StackRecord list \<Rightarrow> (CostGraph \<times> StackRecord list) option" where
  "reduce rnd node g stack =
     (case R1_Reduction rnd node g stack of Some r \<Rightarrow> Some r | None \<Rightarrow> R2_Reduction rnd node g stack)"

lemma active_clear [simp]: "active (clear_neighbours n g) = active g"
  by (simp add: clear_neighbours_def)

lemma active_remove [simp]: "active (remove_neighbour f t g) = active g"
  by (simp add: remove_neighbour_def)

lemma active_reduce: "reduce rnd node g stack = Some (g', stack') \<Longrightarrow> active g' = active g"
  by (auto simp: reduce_def R1_Reduction_def R2_Reduction_def R2_put_def Let_def split: option.splits if_splits)

function scan :: "rounding \<Rightarrow> nat \<Rightarrow> CostGraph \<Rightarrow> StackRecord list \<Rightarrow> bool \<Rightarrow> bool
    \<Rightarrow> CostGraph \<times> StackRecord list \<times> bool \<times> bool" where
  "scan rnd pos g stack found_low_degree_node found_any_virtual =
     (if pos < length (active g) then
        (let node = active g ! pos
         in if node_concrete g node then scan rnd (pos + 1) g stack found_low_degree_node found_any_virtual
            else case reduce rnd node g stack of
                   Some (g', stack') \<Rightarrow> scan rnd pos (erase_active pos g') stack' True True
                 | None \<Rightarrow> scan rnd (pos + 1) g stack found_low_degree_node True)
      else (g, stack, found_low_degree_node, found_any_virtual))"
  by pat_completeness auto
termination
  by (relation "measure (\<lambda>(_, pos, g, _). length (active g) - pos)") (auto dest!: active_reduce)

declare scan.simps [simp del]

lemma scan_active:
  "scan rnd pos g stack low virt = (g', stack', low', virt') \<Longrightarrow>
    length (active g') \<le> length (active g) \<and> (\<not> low \<and> low' \<longrightarrow> length (active g') < length (active g))"
proof (induction rnd pos g stack low virt rule: scan.induct)
  case (1 rnd pos g stack low virt)
  show ?case
  proof (cases "pos < length (active g)")
    case pos: True
    let ?node = "active g ! pos"
    show ?thesis
    proof (cases "node_concrete g ?node")
      case True
      then show ?thesis using 1 pos scan.simps[of rnd pos g stack low virt] by (simp add: Let_def)
    next
      case virt: False
      show ?thesis
      proof (cases "reduce rnd ?node g stack")
        case None
        then show ?thesis using 1(2)[OF pos refl virt None] 1(4) pos virt scan.simps[of rnd pos g stack low virt]
          by (simp add: Let_def)
      next
        case (Some r)
        obtain g1 st1 where r: "r = (g1, st1)" by fastforce
        have "active g1 = active g" using active_reduce Some r by blast
        then show ?thesis using 1(3)[OF pos refl virt Some r[symmetric]] 1(4) pos virt Some r scan.simps[of rnd pos g stack low virt]
          by (auto simp: Let_def)
      qed
    qed
  next
    case False
    then show ?thesis using 1(4) scan.simps[of rnd pos g stack low virt] by simp
  qed
qed

lemma RM_select_active: "fst (fold (RM_select rnd g) ns (v, c)) = Some u \<Longrightarrow> u \<in> set ns \<or> v = Some u"
proof (induction ns arbitrary: v c)
  case (Cons n ns)
  obtain v' c' where s: "RM_select rnd g n (v, c) = (v', c')" by fastforce
  have "v' = v \<or> v' = Some n" using s by (auto simp: RM_select_def Let_def split: if_splits)
  moreover have "u \<in> set ns \<or> v' = Some u" using Cons.prems Cons.IH[of v' c'] by (simp add: s)
  ultimately show ?case by auto
qed simp

lemma active_RM_break: "active (fst (fold (RM_break v) as s)) = active (fst s)"
  by (induction as arbitrary: s) (simp_all add: RM_break_def)

lemma active_RM: "RM_Reduction rnd g stack = Some (g', stack') \<Longrightarrow> length (active g') < length (active g)"
proof -
  assume r: "RM_Reduction rnd g stack = Some (g', stack')"
  then obtain v where v: "fst (fold (RM_select rnd g) (active g) (None, f32_max)) = Some v"
    by (auto simp: RM_Reduction_def split: option.splits)
  then have "active g \<noteq> []" using RM_select_active[OF v] by auto
  moreover obtain g1 b where b: "fold (RM_break v) (neighbours g ! v) (g, []) = (g1, b)" by fastforce
  moreover have "active g1 = active g" using active_RM_break[of v "neighbours g ! v" "(g, [])"] b by simp
  ultimately show ?thesis using r v by (auto simp: RM_Reduction_def Let_def)
qed

function minimize_loop :: "rounding \<Rightarrow> CostGraph \<Rightarrow> StackRecord list \<Rightarrow> CostGraph \<times> StackRecord list" where
  "minimize_loop rnd g stack =
     (case scan rnd 0 g stack False False of (g', stack', found_low_degree_node, found_any_virtual) \<Rightarrow>
        if found_low_degree_node then minimize_loop rnd g' stack'
        else if active g' = [] \<or> \<not> found_any_virtual then (g', stack')
        else case RM_Reduction rnd g' stack' of None \<Rightarrow> (g', stack') | Some (g'', stack'') \<Rightarrow> minimize_loop rnd g'' stack'')"
  by pat_completeness auto
termination
proof (relation "measure (\<lambda>(_, g, _). length (active g))", goal_cases)
  case (2 rnd g stack g' x stack' y low virt)
  then show ?case using scan_active[of rnd 0 g stack False False g' stack' low virt] by simp
next
  case (3 rnd g stack g' x stack' y low virt r g'' stack'')
  then show ?case using scan_active[of rnd 0 g stack False False g' stack' low virt] active_RM[of rnd g' stack' g'' stack'']
    by (auto split: prod.splits)
qed simp

declare minimize_loop.simps [simp del]

text \<open>The nodes that are left get a record without edges; \<^verbatim>\<open>None\<close> is the failed assertion that they have none.\<close>

definition minimize_graph :: "rounding \<Rightarrow> CostGraph \<Rightarrow> (CostGraph \<times> StackRecord list) option" where
  "minimize_graph rnd g =
     (let (g, stack) = minimize_loop rnd g []; left = filter (\<lambda>n. \<not> node_concrete g n) (active g)
      in if \<forall>n \<in> set left. neighbours g ! n = [] then Some (g, stack @ map (stack_record RM) left) else None)"

section \<open>Choosing the registers\<close>

text \<open>The cost of an edge is added for every register of the domain.\<close>

primrec option_list :: "'a option list \<Rightarrow> 'a list option" where
  "option_list [] = Some []"
| "option_list (x # xs) = (case x of None \<Rightarrow> None | Some y \<Rightarrow> map_option (Cons y) (option_list xs))"

definition add_edge_costs :: "rounding \<Rightarrow> CostMatrix \<Rightarrow> bool \<Rightarrow> DomainKind \<Rightarrow> CReg \<Rightarrow> f32 list \<Rightarrow> f32 list option" where
  "add_edge_costs rnd m self_lo dk assigned sel =
     option_list (map (\<lambda>i. map_option (f32_add rnd (sel ! i)) (get_cost m self_lo (dk_regs dk ! i) (creg_code assigned)))
       [0..<dk_size dk])"

definition selection_vector :: "rounding \<Rightarrow> CostGraph \<Rightarrow> StackRecord \<Rightarrow> CReg list \<Rightarrow> f32 list option" where
  "selection_vector rnd g r assignments =
     (let u = sr_node r; dk = kKinds ! (node_kind g ! u);
          sel = map (\<lambda>i. node_costs g ! u ! i) [0..<dk_size dk]
      in case sr_type r of
           R1 \<Rightarrow> add_edge_costs rnd (sr_m_ab r) (sr_ab_self_lo r) dk (assignments ! sr_neigh0 r) sel
         | R2 \<Rightarrow>
             option_list (map (\<lambda>i.
               case get_cost (sr_m_ab r) (sr_ab_self_lo r) (dk_regs dk ! i) (creg_code (assignments ! sr_neigh0 r)) of
                 None \<Rightarrow> None
               | Some cost_a \<Rightarrow>
                   map_option (\<lambda>cost_b. f32_add rnd (sel ! i) (f32_add rnd cost_a cost_b))
                     (get_cost (sr_m_bc r) (sr_bc_self_lo r) (dk_regs dk ! i) (creg_code (assignments ! sr_neigh1 r))))
               [0..<dk_size dk])
         | RM \<Rightarrow>
             fold (\<lambda>b s. case s of None \<Rightarrow> None
                   | Some sel \<Rightarrow> add_edge_costs rnd (be_matrix b) (be_flip b) dk (assignments ! be_neighbor b) sel)
               (sr_broken_edges r) (Some sel))"

definition best_step :: "DomainKind \<Rightarrow> f32 list \<Rightarrow> nat \<Rightarrow> nat \<times> f32 \<Rightarrow> nat \<times> f32" where
  "best_step dk sel l s =
     (let (best_choice, min_cost) = s; i = dk_regs dk ! l
      in if sel ! l < min_cost then (i, sel ! l)
         else if sel ! l = min_cost \<and> best_choice = 0 \<and> i \<noteq> 0 then (i, min_cost) else s)"

definition best_register :: "DomainKind \<Rightarrow> f32 list \<Rightarrow> nat \<times> f32" where
  "best_register dk sel = fold (best_step dk sel) [0..<dk_size dk] (0, Fin 1000000000)"

text \<open>The top record is the last one of the list.\<close>

definition allocate_step :: "rounding \<Rightarrow> CostGraph \<Rightarrow> StackRecord \<Rightarrow> CReg list \<times> nat list \<Rightarrow> (CReg list \<times> nat list) option" where
  "allocate_step rnd g r s =
     (case selection_vector rnd g r (fst s) of
        None \<Rightarrow> None
      | Some sel \<Rightarrow>
          (let u = sr_node r; best_creg = creg_of_code (fst (best_register (kKinds ! (node_kind g ! u)) sel));
               needs_spilling = (if best_creg = CReg_Virtual then snd s @ [node_uid g ! u] else snd s)
           in Some ((fst s)[u := best_creg], needs_spilling)))"

primrec allocate_records :: "rounding \<Rightarrow> CostGraph \<Rightarrow> StackRecord list \<Rightarrow> CReg list \<times> nat list \<Rightarrow> (CReg list \<times> nat list) option" where
  "allocate_records rnd g [] s = Some s"
| "allocate_records rnd g (r # rs) s =
     (case allocate_step rnd g r s of None \<Rightarrow> None | Some s' \<Rightarrow> allocate_records rnd g rs s')"

definition initial_assignments :: "CostGraph \<Rightarrow> CReg list" where
  "initial_assignments g =
     fold (\<lambda>node as. if node_concrete g node then as[node := c_reg (uid_to_reg (node_uid g ! node))] else as)
       [0..<n_nodes g] (replicate (n_nodes g) CReg_Virtual)"

definition actually_allocate :: "rounding \<Rightarrow> CostGraph \<Rightarrow> StackRecord list \<Rightarrow> (CReg list \<times> nat list) option" where
  "actually_allocate rnd g stack = allocate_records rnd g (rev stack) (initial_assignments g, [])"

end
