(* ===== verification/PBQPSteps.thy ===== *)
theory PBQPSteps
  imports PBQPSolver
begin

text \<open>
  The solver as a sequence of steps. A step takes one virtual node out of the graph; what it must leave behind
  (\<open>takes_out\<close>) is proved for the three reductions, and \<^verbatim>\<open>minimize_graph\<close> is shown to be a sequence of
  such steps.
\<close>

section \<open>What a record says\<close>

text \<open>The edges a record remembers: the neighbour, the matrix, and whether the node of the record owns the rows.\<close>

definition rec_edges :: "StackRecord \<Rightarrow> (nat \<times> CostMatrix \<times> bool) list" where
  "rec_edges r = (case sr_type r of
     R1 \<Rightarrow> [(sr_neigh0 r, sr_m_ab r, sr_ab_self_lo r)]
   | R2 \<Rightarrow> [(sr_neigh0 r, sr_m_ab r, sr_ab_self_lo r), (sr_neigh1 r, sr_m_bc r, sr_bc_self_lo r)]
   | RM \<Rightarrow> map (\<lambda>b. (be_neighbor b, be_matrix b, be_flip b)) (sr_broken_edges r))"

definition ecost :: "CostMatrix \<Rightarrow> bool \<Rightarrow> nat \<Rightarrow> nat \<Rightarrow> f32" where
  "ecost m lo x y = the (get_cost m lo x y)"

abbreviation regs_of :: "CostGraph \<Rightarrow> nat \<Rightarrow> nat set" where
  "regs_of g a \<equiv> set (dom_regs (node_kind g ! a))"

definition vcost :: "CostGraph \<Rightarrow> nat \<Rightarrow> nat \<Rightarrow> f32" where
  "vcost g a x = node_costs g ! a ! (dom_local (node_kind g ! a) ! x)"

definition takes_out :: "CostGraph \<Rightarrow> StackRecord \<Rightarrow> CostGraph \<Rightarrow> bool" where
  "takes_out g r g' \<longleftrightarrow> (let u = sr_node r in
     graph_ok g' \<and> node_uid g' = node_uid g \<and> node_kind g' = node_kind g
   \<and> u \<in> set (active g) \<and> \<not> node_concrete g u \<and> set (active g') = set (active g) - {u}
   \<and> (\<forall>a < n_nodes g. a \<notin> set (active g') \<longrightarrow> node_costs g' ! a = node_costs g ! a)
   \<and> (\<forall>b m lo. (b, m, lo) \<in> set (rec_edges r) \<longleftrightarrow> (\<exists>e. adj g u b e \<and> m = edges g ! e \<and> lo = (u < b)))
   \<and> (\<forall>a b e. adj g a b e \<and> a \<noteq> u \<and> b \<noteq> u \<longrightarrow> (\<exists>e'. adj g' a b e' \<and>
        (\<forall>x \<in> regs_of g a. \<forall>y \<in> regs_of g b. ecost (edges g ! e) (a < b) x y = Inf \<longrightarrow> ecost (edges g' ! e') (a < b) x y = Inf))))"

lemma get_cost_ecost:
  assumes "matrix_ok (if lo then k else k') (if lo then k' else k) m" "k < kind_N" "k' < kind_N"
    "r \<in> set (dom_regs k)" "r' \<in> set (dom_regs k')"
  shows "get_cost m lo r r' = Some (ecost m lo r r')"
  using get_cost_dense[OF assms, of zero_dense] by (simp only: ecost_def option.sel)

lemma kind_less: "nodes_ok g \<Longrightarrow> a < n_nodes g \<Longrightarrow> node_kind g ! a < kind_N"
  by (rule kind_fits_less) (auto simp: nodes_ok_alt)

lemma edge_matrix:
  assumes "nodes_ok g" "edge_ok g a b e"
  shows "matrix_ok (if a < b then node_kind g ! a else node_kind g ! b) (if a < b then node_kind g ! b else node_kind g ! a)
    (edges g ! e)"
  using assms(2) by (auto simp: edge_ok_def min_def max_def split: if_splits)

text \<open>A dense block of the matrix of an edge, read by index.\<close>

lemma dense_ecost:
  assumes g: "nodes_ok g" "edge_ok g a b e" "a < n_nodes g" and i: "i < dom_size (node_kind g ! a)" "j < dom_size (node_kind g ! b)"
  shows "to_dense (edges g ! e) (a < b) (node_kind g ! a) (node_kind g ! b) out i j
    = ecost (edges g ! e) (a < b) (dom_regs (node_kind g ! a) ! i) (dom_regs (node_kind g ! b) ! j)"
proof -
  have b: "b < n_nodes g" using g(2) by (simp add: edge_ok_def)
  note k = kind_less[OF g(1,3)] kind_less[OF g(1) b]
  show ?thesis
    using get_cost_dense[of "a < b" "node_kind g ! a" "node_kind g ! b" "edges g ! e" "dom_regs (node_kind g ! a) ! i"
        "dom_regs (node_kind g ! b) ! j" out] edge_matrix[OF g(1,2)] k dom_nth_regs[OF i(1)] dom_nth_regs[OF i(2)]
    by (simp add: ecost_def dom_local_nth[OF k(1) i(1)] dom_local_nth[OF k(2) i(2)])
qed

section \<open>Taking the neighbours away\<close>

lemma adj_neighbours: "a < n_nodes g \<Longrightarrow> adj g a b e \<longleftrightarrow> \<lparr>adj_other = b, adj_edge = e\<rparr> \<in> set (neighbours g ! a)"
  by (simp add: adj_def)

lemma neighbours_remove: "neighbours (remove_neighbour f t g) = (neighbours g)[f := filter (\<lambda>a. adj_other a \<noteq> t) (neighbours g ! f)]"
  by (simp add: remove_neighbour_def)

text \<open>Removing \<open>u\<close> from the lists of all its neighbours and clearing its own list detaches it.\<close>

definition unlink :: "nat \<Rightarrow> nat list \<Rightarrow> CostGraph \<Rightarrow> CostGraph" where
  "unlink u bs g = clear_neighbours u (fold (\<lambda>b. remove_neighbour b u) bs g)"

lemma fold_remove:
  assumes "distinct bs"
  shows "\<exists>ns. fold (\<lambda>b. remove_neighbour b u) bs g = g\<lparr>neighbours := ns\<rparr> \<and> length ns = length (neighbours g)
    \<and> (\<forall>a < length (neighbours g). ns ! a
        = (if a \<in> set bs then filter (\<lambda>x. adj_other x \<noteq> u) (neighbours g ! a) else neighbours g ! a))"
  using assms
proof (induction bs arbitrary: g)
  case Nil
  show ?case by (rule exI[of _ "neighbours g"]) simp
next
  case (Cons b bs)
  let ?ms = "(neighbours g)[b := filter (\<lambda>x. adj_other x \<noteq> u) (neighbours g ! b)]"
  have s: "remove_neighbour b u g = g\<lparr>neighbours := ?ms\<rparr>" by (simp add: remove_neighbour_def)
  obtain ns where ns: "fold (\<lambda>b. remove_neighbour b u) bs (g\<lparr>neighbours := ?ms\<rparr>) = g\<lparr>neighbours := ns\<rparr>"
    "length ns = length (neighbours g)"
    "\<forall>a < length (neighbours g). ns ! a = (if a \<in> set bs then filter (\<lambda>x. adj_other x \<noteq> u) (?ms ! a) else ?ms ! a)"
    using Cons.IH[of "g\<lparr>neighbours := ?ms\<rparr>"] Cons.prems by auto
  show ?case using ns Cons.prems by (intro exI[of _ ns]) (auto simp: s nth_list_update; metis nth_list_update_neq)
qed

lemma unlink_detached:
  assumes g: "nodes_ok g" "u < n_nodes g" and bs: "set bs = {b. \<exists>e. adj g b u e}" "distinct bs"
  shows "detached u g (unlink u bs g)"
proof -
  note l = nodes_lengths(3)[OF g(1)]
  obtain ns where f: "fold (\<lambda>b. remove_neighbour b u) bs g = g\<lparr>neighbours := ns\<rparr>" "length ns = length (neighbours g)"
    "\<forall>a < length (neighbours g). ns ! a
        = (if a \<in> set bs then filter (\<lambda>x. adj_other x \<noteq> u) (neighbours g ! a) else neighbours g ! a)"
    using fold_remove[OF bs(2), of u g] by blast
  have "filter (\<lambda>x. adj_other x \<noteq> u) (neighbours g ! a) = neighbours g ! a" if a: "a < n_nodes g" "a \<notin> set bs" for a
  proof (intro filter_True ballI notI)
    fix y assume "y \<in> set (neighbours g ! a)" "adj_other y = u"
    then show False using adj_mem[of y g a] a bs(1) by auto
  qed
  then show ?thesis using f(2,3) g(2) l unfolding detached_def unlink_def clear_neighbours_def f(1)
    by (auto simp: nth_list_update)
qed

lemma min_over_Suc: "min_over (Suc n) f = min (min_over n f) (f n)"
  by (simp add: min_over_def)

lemma min_over_le: "j < n \<Longrightarrow> min_over n f \<le> f j"
  by (induction n) (auto simp: min_over_Suc less_Suc_eq min_le_iff_disj)

lemma min_over_greatest: "(\<And>j. j < n \<Longrightarrow> c \<le> f j) \<Longrightarrow> c \<le> min_over n f"
  by (induction n) (auto simp: min_over_Suc min_over_def)

lemma min_over_attained: "0 < n \<Longrightarrow> \<exists>j < n. min_over n f = f j"
proof (induction n)
  case (Suc n)
  show ?case
  proof (cases n)
    case 0
    then show ?thesis by (auto simp: min_over_def)
  next
    case (Suc k)
    then obtain j where "j < n" "min_over n f = f j" using Suc.IH by auto
    then show ?thesis by (auto simp: min_over_Suc min_def less_Suc_eq)
  qed
qed simp

lemma min_over_cong: "(\<And>j. j < n \<Longrightarrow> f j = h j) \<Longrightarrow> min_over n f = min_over n h"
  unfolding min_over_def by (intro fold_cong) auto

section \<open>One neighbour\<close>

lemma active_node: "active_ok g \<Longrightarrow> pos < length (active g) \<Longrightarrow> active g ! pos < n_nodes g \<and> active g ! pos \<in> set (active g)"
  by (simp add: active_ok_def)

lemma adj_sym: "edges_ok g \<Longrightarrow> adj g a b e \<Longrightarrow> adj g b a e"
  using edge_ok_adj[of g a b e] by (simp add: edge_ok_def)

lemma adj_others:
  assumes "edges_ok g" "u < n_nodes g"
  shows "{c. \<exists>x. adj g c u x} = adj_other ` set (neighbours g ! u)"
proof (intro set_eqI iffI)
  fix c assume "c \<in> {c. \<exists>x. adj g c u x}"
  then obtain x where "adj g u c x" using adj_sym[OF assms(1)] by blast
  then have "\<lparr>adj_other = c, adj_edge = x\<rparr> \<in> set (neighbours g ! u)" by (simp add: adj_def)
  then show "c \<in> adj_other ` set (neighbours g ! u)" by force
next
  fix c assume "c \<in> adj_other ` set (neighbours g ! u)"
  then obtain y where "y \<in> set (neighbours g ! u)" "c = adj_other y" by blast
  then have "adj g u c (adj_edge y)" using adj_mem assms(2) by blast
  then show "c \<in> {c. \<exists>x. adj g c u x}" using adj_sym[OF assms(1)] by blast
qed

text \<open>The costs of the neighbour after the reduction.\<close>

definition R1_cost :: "rounding \<Rightarrow> CostGraph \<Rightarrow> nat \<Rightarrow> nat \<Rightarrow> nat \<Rightarrow> nat \<Rightarrow> f32" where
  "R1_cost rnd g u b e y = min_over (dom_size (node_kind g ! u)) (\<lambda>j. f32_add rnd
     (ecost (edges g ! e) (u < b) (dom_regs (node_kind g ! u) ! j) y) (node_costs g ! u ! j))"

definition R1_effect :: "rounding \<Rightarrow> CostGraph \<Rightarrow> nat \<Rightarrow> CostGraph \<Rightarrow> nat \<Rightarrow> nat \<Rightarrow> CostVector \<Rightarrow> bool" where
  "R1_effect rnd g u g1 b e v \<longleftrightarrow> neighbours g ! u = [\<lparr>adj_other = b, adj_edge = e\<rparr>] \<and> edge_ok g u b e \<and> length v = kMaxDomain
     \<and> (\<forall>i < dom_size (node_kind g ! b). v ! i = f32_add rnd (node_costs g ! b ! i) (R1_cost rnd g u b e (dom_regs (node_kind g ! b) ! i)))
     \<and> g1 = unlink u [b] (g\<lparr>node_costs := (node_costs g)[b := v]\<rparr>)"

lemma R1_result:
  assumes g: "graph_ok g" and u: "u < n_nodes g" and r: "R1_Reduction rnd u g st = Some (g1, st1)"
  shows "\<exists>b e v. R1_effect rnd g u g1 b e v \<and> st1 = st @ [R1_record g u b e]"
proof -
  note ok = graph_okD[OF g]
  have "length (neighbours g ! u) = 1" using r by (auto simp: R1_Reduction_def split: if_splits)
  then obtain x where "neighbours g ! u = [x]" by (metis One_nat_def length_0_conv length_Suc_conv)
  then obtain b e where n: "neighbours g ! u = [\<lparr>adj_other = b, adj_edge = e\<rparr>]" by (cases x) simp
  have e: "edge_ok g u b e" using edge_ok_adj[OF ok(3)] u n by (simp add: adj_def)
  have b: "b < n_nodes g" using e by (simp add: edge_ok_def)
  let ?ku = "node_kind g ! u" and ?kb = "node_kind g ! b"
  let ?f = "\<lambda>i. min_over (dom_size ?ku) (\<lambda>j. f32_add rnd (to_dense (edges g ! e) (u < b) ?ku ?kb zero_dense j i) (node_costs g ! u ! j))"
  let ?v = "fold (\<lambda>i v. v[i := f32_add rnd (v ! i) (?f i)]) [0..<dom_size ?kb] (node_costs g ! b)"
  have len: "length (node_costs g ! b) = kMaxDomain" using ok(1) b by (simp add: nodes_ok_alt)
  have f: "?f i = R1_cost rnd g u b e (dom_regs ?kb ! i)" if "i < dom_size ?kb" for i
    unfolding R1_cost_def using dense_ecost[OF ok(1) e u _ that] by (intro min_over_cong) simp
  have v: "?v ! i = f32_add rnd (node_costs g ! b ! i) (R1_cost rnd g u b e (dom_regs ?kb ! i))" if "i < dom_size ?kb" for i
    using fold_update_nth[of "dom_size ?kb" "node_costs g ! b" "\<lambda>i c. f32_add rnd c (?f i)" i] that len f[OF that]
      dom_size_bounds[OF kind_less[OF ok(1) b]] by simp
  have "g1 = unlink u [b] (g\<lparr>node_costs := (node_costs g)[b := ?v]\<rparr>)" "st1 = st @ [R1_record g u b e]"
    using r by (simp_all add: R1_Reduction_def n Let_def unlink_def R1_record_def)
  then have "R1_effect rnd g u g1 b e ?v \<and> st1 = st @ [R1_record g u b e]"
    unfolding R1_effect_def using n e v len by simp
  then show ?thesis by (intro exI)
qed

section \<open>A reduction takes its node out\<close>

lemma edges_ok_costs [simp]: "edges_ok (g\<lparr>node_costs := cs\<rparr>) = edges_ok g"
proof -
  have "adj (g\<lparr>node_costs := cs\<rparr>) = adj g" "find_edge (g\<lparr>node_costs := cs\<rparr>) = find_edge g"
    by (simp_all add: adj_def find_edge_def fun_eq_iff)
  moreover then have "edge_ok (g\<lparr>node_costs := cs\<rparr>) = edge_ok g" by (simp add: edge_ok_def fun_eq_iff)
  moreover have "neighbours (g\<lparr>node_costs := cs\<rparr>) = neighbours g" "active (g\<lparr>node_costs := cs\<rparr>) = active g"
    "edges (g\<lparr>node_costs := cs\<rparr>) = edges g" "edge_lookup (g\<lparr>node_costs := cs\<rparr>) = edge_lookup g" by simp_all
  ultimately show ?thesis by (simp only: edges_ok_def n_nodes_updates)
qed

lemma graph_ok_costs:
  assumes "graph_ok g" "length v = kMaxDomain"
  shows "graph_ok (g\<lparr>node_costs := (node_costs g)[b := v]\<rparr>)"
proof -
  note ok = graph_okD(1)[OF assms(1)]
  have "length ((node_costs g)[b := v] ! n) = kMaxDomain" if "n < n_nodes g" for n
    using that ok assms(2) nodes_lengths(2)[OF ok] by (cases "n = b") (simp_all add: nodes_ok_alt)
  then have "nodes_ok (g\<lparr>node_costs := (node_costs g)[b := v]\<rparr>)" using ok unfolding nodes_ok_alt by simp
  then show ?thesis using graph_okD[OF assms(1)] by (simp add: graph_ok_def active_ok_def)
qed

lemma takes_out_detached:
  assumes g: "graph_ok g" and pos: "pos < length (active g)" "active g ! pos = sr_node r" "\<not> node_concrete g (sr_node r)"
    and g0: "graph_ok g0" "node_uid g0 = node_uid g" "node_kind g0 = node_kind g" "active g0 = active g"
    and costs: "\<And>a. a < n_nodes g \<Longrightarrow> a \<notin> set (active g) - {sr_node r} \<Longrightarrow> node_costs g0 ! a = node_costs g ! a"
    and d: "detached (sr_node r) g0 g1"
    and edges: "\<And>b m lo. (b, m, lo) \<in> set (rec_edges r) \<longleftrightarrow> (\<exists>e. adj g (sr_node r) b e \<and> m = edges g ! e \<and> lo = (sr_node r < b))"
    and inf: "\<And>a b e. adj g a b e \<Longrightarrow> a \<noteq> sr_node r \<Longrightarrow> b \<noteq> sr_node r \<Longrightarrow> \<exists>e'. adj g0 a b e' \<and>
        (\<forall>x \<in> regs_of g a. \<forall>y \<in> regs_of g b. ecost (edges g ! e) (a < b) x y = Inf \<longrightarrow> ecost (edges g0 ! e') (a < b) x y = Inf)"
  shows "takes_out g r (erase_active pos g1)"
proof -
  have p: "pos < length (active g0)" "active g0 ! pos = sr_node r" using pos g0(4) by simp_all
  note o = graph_ok_detached[OF g0(1) d p] and s = detachedD[OF d]
  have n: "n_nodes g0 = n_nodes g" using g0(2) by (simp add: n_nodes_def)
  show ?thesis unfolding takes_out_def Let_def erase_active_simps s o(2) o(3) g0(2-4)
    using o(1) pos costs edges inf by (auto simp: in_set_conv_nth)
qed

lemma R1_detached:
  assumes "graph_ok g" "u < n_nodes g" "R1_effect rnd g u g1 b e v"
  shows "graph_ok (g\<lparr>node_costs := (node_costs g)[b := v]\<rparr>)" "detached u (g\<lparr>node_costs := (node_costs g)[b := v]\<rparr>) g1"
proof -
  let ?g0 = "g\<lparr>node_costs := (node_costs g)[b := v]\<rparr>"
  have r: "neighbours g ! u = [\<lparr>adj_other = b, adj_edge = e\<rparr>]" "length v = kMaxDomain" "g1 = unlink u [b] ?g0"
    using assms(3) by (simp_all add: R1_effect_def)
  show g0: "graph_ok ?g0" using graph_ok_costs[OF assms(1) r(2)] .
  have "adj ?g0 c x y = adj g c x y" for c x y by (simp add: adj_def)
  then have "set [b] = {c. \<exists>x. adj ?g0 c u x}"
    using adj_others[OF graph_okD(3)[OF assms(1)] assms(2)] r(1) by simp
  then show "detached u ?g0 g1" unfolding r(3) using graph_okD(1)[OF g0] assms(2) by (intro unlink_detached) simp_all
qed

lemma R1_takes_out:
  assumes g: "graph_ok g" and pos: "pos < length (active g)" "active g ! pos = u" "\<not> node_concrete g u"
    and r: "R1_effect rnd g u g1 b e v"
  shows "takes_out g (R1_record g u b e) (erase_active pos g1)"
proof -
  let ?r = "R1_record g u b e" and ?g0 = "g\<lparr>node_costs := (node_costs g)[b := v]\<rparr>"
  note ok = graph_okD[OF g]
  have u: "u < n_nodes g" using active_node[OF ok(2) pos(1)] pos(2) by simp
  have n: "neighbours g ! u = [\<lparr>adj_other = b, adj_edge = e\<rparr>]" and e: "edge_ok g u b e"
    using r by (simp_all add: R1_effect_def)
  have adj_u: "adj g u c x \<longleftrightarrow> c = b \<and> x = e" for c x using n u by (auto simp: adj_def)
  have ad: "adj ?g0 c x y = adj g c x y" for c x y by (simp add: adj_def)
  have sr: "sr_node ?r = u" by (simp add: R1_record_def stack_record_def)
  note g0 = R1_detached(1)[OF g u r] and d = R1_detached(2)[OF g u r]
  show ?thesis
  proof (rule takes_out_detached[OF g pos(1) _ _ g0])
    show "\<And>a. a < n_nodes g \<Longrightarrow> a \<notin> set (active g) - {sr_node ?r} \<Longrightarrow> node_costs ?g0 ! a = node_costs g ! a"
      using e unfolding sr by (auto simp: edge_ok_def) (metis nth_list_update_neq)
    show "\<And>c m lo. (c, m, lo) \<in> set (rec_edges ?r) \<longleftrightarrow>
      (\<exists>e. adj g (sr_node ?r) c e \<and> m = edges g ! e \<and> lo = (sr_node ?r < c))"
      unfolding sr by (auto simp: rec_edges_def R1_record_def stack_record_def adj_u)
    show "\<exists>e'. adj ?g0 a c e' \<and> (\<forall>x \<in> regs_of g a. \<forall>y \<in> regs_of g c.
        ecost (edges g ! x') (a < c) x y = Inf \<longrightarrow> ecost (edges ?g0 ! e') (a < c) x y = Inf)" if "adj g a c x'" for a c x'
      using that by (intro exI[of _ x']) (simp add: ad)
  qed (simp_all add: pos sr d)
qed

section \<open>Two neighbours\<close>

definition R2_old :: "CostGraph \<Rightarrow> nat \<Rightarrow> nat \<Rightarrow> nat \<Rightarrow> nat \<Rightarrow> f32" where
  "R2_old g a c x y = (case find_edge g a c of None \<Rightarrow> Fin 0 | Some e \<Rightarrow> ecost (edges g ! e) (a < c) x y)"

definition R2_path :: "rounding \<Rightarrow> CostGraph \<Rightarrow> nat \<Rightarrow> nat \<Rightarrow> nat \<Rightarrow> nat \<Rightarrow> nat \<Rightarrow> nat \<Rightarrow> nat \<Rightarrow> f32" where
  "R2_path rnd g a e u e' c x y = min_over (dom_size (node_kind g ! u)) (\<lambda>j.
     f32_add rnd (f32_add rnd (ecost (edges g ! e) (a < u) x (dom_regs (node_kind g ! u) ! j)) (node_costs g ! u ! j))
       (ecost (edges g ! e') (u < c) (dom_regs (node_kind g ! u) ! j) y))"

lemma get_cost_store:
  assumes "cm_cost m = Some (store d (dom_size (cm_lo m)) (dom_size (cm_hi m)))" "cm_lo m < kind_N" "cm_hi m < kind_N"
    "x \<in> set (dom_regs (cm_lo m))" "y \<in> set (dom_regs (cm_hi m))"
  shows "get_cost m True x y = Some (d (dom_local (cm_lo m) ! x) (dom_local (cm_hi m) ! y))"
    "get_cost m False y x = Some (d (dom_local (cm_lo m) ! x) (dom_local (cm_hi m) ! y))"
proof -
  have "dom_local (cm_lo m) ! x < dom_size (cm_lo m)" "dom_local (cm_hi m) ! y < dom_size (cm_hi m)"
    using dom_local_in assms(2-5) by auto
  moreover then have "dom_local (cm_lo m) ! x \<noteq> kNoLocal" "dom_local (cm_hi m) ! y \<noteq> kNoLocal"
    using dom_size_bounds[OF assms(2)] dom_size_bounds[OF assms(3)] by (auto simp: kNoLocal_def kMaxDomain_def)
  ultimately show "get_cost m True x y = Some (d (dom_local (cm_lo m) ! x) (dom_local (cm_hi m) ! y))"
    "get_cost m False y x = Some (d (dom_local (cm_lo m) ! x) (dom_local (cm_hi m) ! y))"
    using assms(1) by (simp_all add: get_cost_def Let_def store_nth)
qed

definition R2_effect :: "rounding \<Rightarrow> CostGraph \<Rightarrow> nat \<Rightarrow> CostGraph \<Rightarrow> nat \<Rightarrow> nat \<Rightarrow> nat \<Rightarrow> nat \<Rightarrow> CostMatrix \<Rightarrow> bool" where
  "R2_effect rnd g u g1 a e c e' m \<longleftrightarrow>
     neighbours g ! u = [\<lparr>adj_other = a, adj_edge = e\<rparr>, \<lparr>adj_other = c, adj_edge = e'\<rparr>]
   \<and> matrix_ok (node_kind g ! min a c) (node_kind g ! max a c) m
   \<and> (\<forall>x \<in> regs_of g a. \<forall>y \<in> regs_of g c.
        ecost m (a < c) x y = f32_add rnd (R2_old g a c x y) (R2_path rnd g a e u e' c x y))
   \<and> g1 = unlink u [a, c] (R2_put a c m g)"

lemma R2_code:
  assumes "R2_Reduction rnd u g st = Some (g1, st1)"
  shows "\<exists>a e c e' hard. neighbours g ! u = [\<lparr>adj_other = a, adj_edge = e\<rparr>, \<lparr>adj_other = c, adj_edge = e'\<rparr>]
    \<and> g1 = unlink u [a, c] (R2_put a c (R2_matrix rnd g a e u e' c hard) g) \<and> st1 = st @ [R2_record g u a e c e']"
proof -
  have "length (neighbours g ! u) = 2" using assms by (auto simp: R2_Reduction_def split: if_splits)
  then obtain x y where xy: "neighbours g ! u = [x, y]"
    by (metis (no_types, opaque_lifting) length_0_conv length_Suc_conv numeral_2_eq_2)
  obtain a e where x: "x = \<lparr>adj_other = a, adj_edge = e\<rparr>" by (cases x) simp
  obtain c e' where y: "y = \<lparr>adj_other = c, adj_edge = e'\<rparr>" by (cases y) simp
  have "g1 = unlink u [a, c] (R2_put a c (R2_matrix rnd g a e u e' c (R2_hard g a e c e')) g)" "st1 = st @ [R2_record g u a e c e']"
    using assms by (simp_all add: R2_Reduction_def xy x y Let_def unlink_def)
  then show ?thesis using xy x y by blast
qed

lemma R2_block_cost:
  assumes g: "nodes_ok g" and n: "a < n_nodes g" "u < n_nodes g" "c < n_nodes g"
    and e: "edge_ok g a u e" "edge_ok g u c e'" "\<And>x. find_edge g a c = Some x \<Longrightarrow> edge_ok g a c x"
    and i: "i < dom_size (node_kind g ! a)" "k < dom_size (node_kind g ! c)"
  shows "R2_block rnd g a e u e' c i k = f32_add rnd (R2_old g a c (dom_regs (node_kind g ! a) ! i) (dom_regs (node_kind g ! c) ! k))
    (R2_path rnd g a e u e' c (dom_regs (node_kind g ! a) ! i) (dom_regs (node_kind g ! c) ! k))"
proof -
  have old: "(case find_edge g a c of None \<Rightarrow> zero_dense | Some x \<Rightarrow>
      to_dense (edges g ! x) (a < c) (node_kind g ! a) (node_kind g ! c) zero_dense) i k
    = R2_old g a c (dom_regs (node_kind g ! a) ! i) (dom_regs (node_kind g ! c) ! k)"
    using dense_ecost[OF g e(3) n(1) i] by (auto simp: R2_old_def zero_dense_def split: option.split)
  show ?thesis unfolding R2_block_def Let_def using i
    by (simp add: old[unfolded] R2_path_def dense_ecost[OF g e(1) n(1) i(1)] dense_ecost[OF g e(2) n(2) _ i(2)] cong: min_over_cong)
qed

lemma R2_matrix_ok:
  assumes g: "nodes_ok g" and n: "a < n_nodes g" "u < n_nodes g" "c < n_nodes g" "a \<noteq> c"
    and e: "edge_ok g a u e" "edge_ok g u c e'" "\<And>x. find_edge g a c = Some x \<Longrightarrow> edge_ok g a c x"
  shows "matrix_ok (node_kind g ! min a c) (node_kind g ! max a c) (R2_matrix rnd g a e u e' c hard)"
    "x \<in> regs_of g a \<Longrightarrow> y \<in> regs_of g c \<Longrightarrow> ecost (R2_matrix rnd g a e u e' c hard) (a < c) x y
      = f32_add rnd (R2_old g a c x y) (R2_path rnd g a e u e' c x y)"
proof -
  let ?m = "R2_matrix rnd g a e u e' c hard" and ?d = "R2_block rnd g a e u e' c"
  let ?a = "node_kind g ! a" and ?c = "node_kind g ! c"
  note k = kind_less[OF g n(1)] kind_less[OF g n(3)]
  show "matrix_ok (node_kind g ! min a c) (node_kind g ! max a c) ?m"
    using n(4) by (auto simp: matrix_ok_def R2_matrix_def Let_def min_def max_def)
  assume xy: "x \<in> regs_of g a" "y \<in> regs_of g c"
  have "ecost ?m (a < c) x y = ?d (dom_local ?a ! x) (dom_local ?c ! y)"
  proof (cases "a < c")
    case True
    then show ?thesis using get_cost_store(1)[of ?m ?d x y] k xy by (simp add: R2_matrix_def Let_def ecost_def)
  next
    case False
    then show ?thesis using get_cost_store(2)[of ?m "\<lambda>k i. ?d i k" y x] k xy by (simp add: R2_matrix_def Let_def ecost_def)
  qed
  then show "ecost ?m (a < c) x y = f32_add rnd (R2_old g a c x y) (R2_path rnd g a e u e' c x y)"
    using R2_block_cost[OF g n(1-3) e dom_local_in(1)[OF k(1) xy(1)] dom_local_in(1)[OF k(2) xy(2)]]
    by (simp add: dom_local_in(2)[OF k(1) xy(1)] dom_local_in(2)[OF k(2) xy(2)])
qed

lemma edge_ok_sym: "edges_ok g \<Longrightarrow> edge_ok g a b e \<Longrightarrow> edge_ok g b a e"
  unfolding edge_ok_def edges_ok_def by blast

lemma R2_result:
  assumes g: "graph_ok g" and u: "u < n_nodes g" and r: "R2_Reduction rnd u g st = Some (g1, st1)"
  shows "\<exists>a e c e' m. R2_effect rnd g u g1 a e c e' m \<and> st1 = st @ [R2_record g u a e c e']"
proof -
  note ok = graph_okD[OF g]
  obtain a e c e' hard where n: "neighbours g ! u = [\<lparr>adj_other = a, adj_edge = e\<rparr>, \<lparr>adj_other = c, adj_edge = e'\<rparr>]"
    and g1: "g1 = unlink u [a, c] (R2_put a c (R2_matrix rnd g a e u e' c hard) g)" and st: "st1 = st @ [R2_record g u a e c e']"
    using R2_code[OF r] by blast
  have e: "edge_ok g u a e" "edge_ok g u c e'" using edge_ok_adj[OF ok(3)] u n by (simp_all add: adj_def)
  have ac: "a \<noteq> c" using ok(3) u n unfolding edges_ok_def by fastforce
  have nn: "a < n_nodes g" "c < n_nodes g" using e by (simp_all add: edge_ok_def)
  have "edge_ok g a c x" if "find_edge g a c = Some x" for x
    using that ok(3) e ac unfolding edges_ok_def edge_ok_def by blast
  note m = R2_matrix_ok[OF ok(1) nn(1) u nn(2) ac edge_ok_sym[OF ok(3) e(1)] e(2) this]
  have "R2_effect rnd g u g1 a e c e' (R2_matrix rnd g a e u e' c hard)"
    unfolding R2_effect_def using n m g1 by blast
  then show ?thesis using st by blast
qed

lemma R2_put_ok:
  assumes g: "graph_ok g" and ac: "a \<in> set (active g)" "c \<in> set (active g)" "a \<noteq> c"
    and m: "matrix_ok (node_kind g ! min a c) (node_kind g ! max a c) m"
  shows "graph_ok (R2_put a c m g)" "node_uid (R2_put a c m g) = node_uid g" "node_kind (R2_put a c m g) = node_kind g"
    "node_costs (R2_put a c m g) = node_costs g" "active (R2_put a c m g) = active g"
    "adj (R2_put a c m g) b d x \<longleftrightarrow> adj g b d x \<or> x = (case find_edge g a c of Some x \<Rightarrow> x | None \<Rightarrow> length (edges g))
       \<and> (b = a \<and> d = c \<or> b = c \<and> d = a)"
    "edges (R2_put a c m g) ! (case find_edge g a c of Some x \<Rightarrow> x | None \<Rightarrow> length (edges g)) = m"
    "x < length (edges g) \<Longrightarrow> find_edge g a c \<noteq> Some x \<Longrightarrow> edges (R2_put a c m g) ! x = edges g ! x"
proof -
  note ok = graph_okD[OF g]
  have n: "a < n_nodes g" "c < n_nodes g" using active_less[OF ok(2)] ac by blast+
  have "graph_ok (R2_put a c m g) \<and> node_uid (R2_put a c m g) = node_uid g \<and> node_kind (R2_put a c m g) = node_kind g
    \<and> node_costs (R2_put a c m g) = node_costs g \<and> active (R2_put a c m g) = active g
    \<and> (adj (R2_put a c m g) b d x \<longleftrightarrow> adj g b d x \<or> x = (case find_edge g a c of Some x \<Rightarrow> x | None \<Rightarrow> length (edges g))
       \<and> (b = a \<and> d = c \<or> b = c \<and> d = a))
    \<and> edges (R2_put a c m g) ! (case find_edge g a c of Some x \<Rightarrow> x | None \<Rightarrow> length (edges g)) = m
    \<and> (x < length (edges g) \<and> find_edge g a c \<noteq> Some x \<longrightarrow> edges (R2_put a c m g) ! x = edges g ! x)"
  proof (cases "find_edge g a c")
    case None
    then show ?thesis using graph_ok_add_edge(1)[OF g ac None m] adj_add_edge[OF ok(1) n ac(3)]
      by (simp add: R2_put_def nth_append)
  next
    case (Some y)
    then have y: "adj g a c y" using ok(3) ac unfolding edges_ok_def by blast
    then have "y < length (edges g)" "adj g c a y" using edge_ok_adj[OF ok(3)] by (auto simp: edge_ok_def)
    then show ?thesis using graph_ok_set_edge[OF g y m] Some y by (auto simp: R2_put_def nth_list_update)
  qed
  then show "graph_ok (R2_put a c m g)" "node_uid (R2_put a c m g) = node_uid g" "node_kind (R2_put a c m g) = node_kind g"
    "node_costs (R2_put a c m g) = node_costs g" "active (R2_put a c m g) = active g"
    "adj (R2_put a c m g) b d x \<longleftrightarrow> adj g b d x \<or> x = (case find_edge g a c of Some x \<Rightarrow> x | None \<Rightarrow> length (edges g))
       \<and> (b = a \<and> d = c \<or> b = c \<and> d = a)"
    "edges (R2_put a c m g) ! (case find_edge g a c of Some x \<Rightarrow> x | None \<Rightarrow> length (edges g)) = m"
    "x < length (edges g) \<Longrightarrow> find_edge g a c \<noteq> Some x \<Longrightarrow> edges (R2_put a c m g) ! x = edges g ! x" by blast+
qed

lemma get_cost_flip: "get_cost m (\<not> lo) y x = get_cost m lo x y"
  by (cases lo) (auto simp: get_cost_def Let_def split: option.split)

lemma ecost_flip: "b \<noteq> (d :: nat) \<Longrightarrow> ecost m (d < b) y x = ecost m (b < d) x y"
proof -
  assume "b \<noteq> d"
  then have "(d < b) = (\<not> b < d)" by linarith
  then show ?thesis using get_cost_flip[of m "b < d" y x] by (simp only: ecost_def)
qed

lemma R2_keeps_inf:
  assumes g: "graph_ok g" and e: "edge_ok g u a e" "edge_ok g u c e'" "a \<noteq> c" and r: "R2_effect rnd g u g1 a e c e' m"
    and x: "adj g b d x"
  shows "\<exists>x'. adj (R2_put a c m g) b d x' \<and> (\<forall>p \<in> regs_of g b. \<forall>q \<in> regs_of g d.
    ecost (edges g ! x) (b < d) p q = Inf \<longrightarrow> ecost (edges (R2_put a c m g) ! x') (b < d) p q = Inf)"
proof -
  note ok = graph_okD[OF g]
  have act: "a \<in> set (active g)" "c \<in> set (active g)" using e by (simp_all add: edge_ok_def)
  note put = R2_put_ok[OF g act e(3)] and m = r[unfolded R2_effect_def, THEN conjunct2, THEN conjunct1]
  have xo: "edge_ok g b d x" using edge_ok_adj[OF ok(3) x] .
  have adj': "adj (R2_put a c m g) b d x" using put(6)[OF m] x by blast
  show ?thesis
  proof (cases "b = a \<and> d = c \<or> b = c \<and> d = a")
    case True
    then have f: "find_edge g a c = Some x" using xo find_edge_commute[of g a c] by (auto simp: edge_ok_def)
    then have m': "edges (R2_put a c m g) ! x = m" using put(7)[OF m] by simp
    have inf: "ecost m (a < c) p q = Inf" if "p \<in> regs_of g a" "q \<in> regs_of g c" "ecost (edges g ! x) (a < c) p q = Inf" for p q
      using that r f by (simp add: R2_effect_def R2_old_def)
    show ?thesis
    proof (rule exI[of _ x], intro conjI ballI impI adj')
      fix p q assume pq: "p \<in> regs_of g b" "q \<in> regs_of g d" "ecost (edges g ! x) (b < d) p q = Inf"
      show "ecost (edges (R2_put a c m g) ! x) (b < d) p q = Inf"
        using True pq inf e(3) ecost_flip[of c a] unfolding m' by metis
    qed
  next
    case False
    then have "find_edge g a c \<noteq> Some x"
      using adj_same_edge[OF g x] ok(3) act e(3) unfolding edges_ok_def by blast
    then have "edges (R2_put a c m g) ! x = edges g ! x" using put(8)[OF m, of x] xo by (simp add: edge_ok_def)
    then show ?thesis using adj' by (intro exI[of _ x]) simp
  qed
qed

lemma R2_detached:
  assumes g: "graph_ok g" and u: "u < n_nodes g" and r: "R2_effect rnd g u g1 a e c e' m"
  shows "detached u (R2_put a c m g) g1"
proof -
  note ok = graph_okD[OF g]
  have n: "neighbours g ! u = [\<lparr>adj_other = a, adj_edge = e\<rparr>, \<lparr>adj_other = c, adj_edge = e'\<rparr>]"
    and m: "matrix_ok (node_kind g ! min a c) (node_kind g ! max a c) m" and g1: "g1 = unlink u [a, c] (R2_put a c m g)"
    using r unfolding R2_effect_def by blast+
  have e: "edge_ok g u a e" "edge_ok g u c e'" using edge_ok_adj[OF ok(3)] u n by (simp_all add: adj_def)
  have ac: "a \<noteq> c" using ok(3) u n unfolding edges_ok_def by fastforce
  have act: "a \<in> set (active g)" "c \<in> set (active g)" "a \<noteq> u" "c \<noteq> u" using e by (auto simp: edge_ok_def)
  note put = R2_put_ok[OF g act(1,2) ac m]
  have "{b. \<exists>x. adj (R2_put a c m g) b u x} = {b. \<exists>x. adj g b u x}" using put(6) act(3,4) by auto
  then have "set [a, c] = {b. \<exists>x. adj (R2_put a c m g) b u x}" unfolding adj_others[OF ok(3) u] n by simp
  then show ?thesis unfolding g1 using graph_okD(1)[OF put(1)] u ac put(2)
    by (intro unlink_detached) (simp_all add: n_nodes_def)
qed

lemma R2_takes_out:
  assumes g: "graph_ok g" and pos: "pos < length (active g)" "active g ! pos = u" "\<not> node_concrete g u"
    and r: "R2_effect rnd g u g1 a e c e' m"
  shows "takes_out g (R2_record g u a e c e') (erase_active pos g1)"
proof -
  let ?r = "R2_record g u a e c e'" and ?g0 = "R2_put a c m g"
  note ok = graph_okD[OF g]
  have u: "u < n_nodes g" using active_node[OF ok(2) pos(1)] pos(2) by simp
  have n: "neighbours g ! u = [\<lparr>adj_other = a, adj_edge = e\<rparr>, \<lparr>adj_other = c, adj_edge = e'\<rparr>]"
    and m: "matrix_ok (node_kind g ! min a c) (node_kind g ! max a c) m"
    using r by (simp_all add: R2_effect_def)
  have e: "edge_ok g u a e" "edge_ok g u c e'" using edge_ok_adj[OF ok(3)] u n by (simp_all add: adj_def)
  have ac: "a \<noteq> c" using ok(3) u n unfolding edges_ok_def by fastforce
  have act: "a \<in> set (active g)" "c \<in> set (active g)" using e by (simp_all add: edge_ok_def)
  have ne: "a \<noteq> u" "c \<noteq> u" using e by (auto simp: edge_ok_def)
  note put = R2_put_ok[OF g act ac m]
  have adj_u: "adj g u d x \<longleftrightarrow> d = a \<and> x = e \<or> d = c \<and> x = e'" for d x using n u by (auto simp: adj_def)
  have sr: "sr_node ?r = u" by (simp add: R2_record_def stack_record_def)
  note d = R2_detached[OF g u r]
  show ?thesis
  proof (rule takes_out_detached[OF g pos(1) _ _ put(1-3) put(5)])
    show "\<And>b m lo. (b, m, lo) \<in> set (rec_edges ?r) \<longleftrightarrow>
      (\<exists>e. adj g (sr_node ?r) b e \<and> m = edges g ! e \<and> lo = (sr_node ?r < b))"
      unfolding sr by (auto simp: rec_edges_def R2_record_def stack_record_def adj_u)
    show "\<exists>e'. adj ?g0 b d e' \<and> (\<forall>x \<in> regs_of g b. \<forall>y \<in> regs_of g d.
        ecost (edges g ! x') (b < d) x y = Inf \<longrightarrow> ecost (edges ?g0 ! e') (b < d) x y = Inf)" if "adj g b d x'" for b d x'
      using R2_keeps_inf[OF g e ac r that] .
  qed (simp_all add: pos sr d put(4))
qed

section \<open>Any number of neighbours\<close>

lemma RM_break_fold:
  "fold (RM_break v) as (g, bs) = (fold (\<lambda>b. remove_neighbour b v) (map adj_other as) g,
     bs @ map (\<lambda>a. \<lparr>be_neighbor = adj_other a, be_matrix = edges g ! adj_edge a, be_flip = (v < adj_other a)\<rparr>) as)"
proof (induction as arbitrary: g bs)
  case (Cons a as)
  have e: "edges (remove_neighbour b v g) = edges g" for b by (simp add: remove_neighbour_def)
  have b: "RM_break v a (g, bs) = (remove_neighbour (adj_other a) v g,
    bs @ [\<lparr>be_neighbor = adj_other a, be_matrix = edges g ! adj_edge a, be_flip = (v < adj_other a)\<rparr>])"
    by (simp add: RM_break_def)
  show ?case by (simp add: b Cons.IH e)
qed simp

definition RM_record :: "CostGraph \<Rightarrow> nat \<Rightarrow> StackRecord" where
  "RM_record g u = (stack_record RM u)\<lparr>sr_broken_edges := map (\<lambda>a. \<lparr>be_neighbor = adj_other a,
     be_matrix = edges g ! adj_edge a, be_flip = (u < adj_other a)\<rparr>) (neighbours g ! u)\<rparr>"

lemma RM_select_virtual: "fst (fold (RM_select rnd g) ns (v, c)) = Some u \<Longrightarrow>
    (\<And>w. v = Some w \<Longrightarrow> \<not> node_concrete g w) \<Longrightarrow> \<not> node_concrete g u"
proof (induction ns arbitrary: v c)
  case (Cons n ns)
  obtain v' c' where s: "RM_select rnd g n (v, c) = (v', c')" by fastforce
  then have "\<And>w. v' = Some w \<Longrightarrow> \<not> node_concrete g w"
    using Cons.prems(2) by (auto simp: RM_select_def Let_def split: if_splits)
  then show ?case using Cons.prems(1) Cons.IH[of v' c'] by (simp add: s)
qed simp

lemma RM_select_neighbours: "fst (fold (RM_select rnd g) ns (v, c)) = Some u \<Longrightarrow>
    (\<And>w. v = Some w \<Longrightarrow> neighbours g ! w \<noteq> []) \<Longrightarrow> neighbours g ! u \<noteq> []"
proof (induction ns arbitrary: v c)
  case (Cons n ns)
  obtain v' c' where s: "RM_select rnd g n (v, c) = (v', c')" by fastforce
  then have "\<And>w. v' = Some w \<Longrightarrow> neighbours g ! w \<noteq> []"
    using Cons.prems(2) by (auto simp: RM_select_def Let_def split: if_splits)
  then show ?case using Cons.prems(1) Cons.IH[of v' c'] by (simp add: s)
qed simp

lemma RM_nonempty:
  assumes "RM_Reduction rnd g st = Some (g', st')"
  shows "\<exists>u. st' = st @ [RM_record g u] \<and> neighbours g ! u \<noteq> []"
proof -
  obtain u where u: "fst (fold (RM_select rnd g) (active g) (None, f32_max)) = Some u"
    using assms by (auto simp: RM_Reduction_def split: option.splits)
  have "st' = st @ [RM_record g u]"
    using assms unfolding RM_Reduction_def u RM_break_fold Let_def RM_record_def by simp
  then show ?thesis using RM_select_neighbours[OF u] by blast
qed

lemma RM_takes_out:
  assumes g: "graph_ok g" and r: "RM_Reduction rnd g st = Some (g', st')"
  shows "\<exists>u. st' = st @ [RM_record g u] \<and> takes_out g (RM_record g u) g'"
proof -
  note ok = graph_okD[OF g]
  obtain u where u: "fst (fold (RM_select rnd g) (active g) (None, f32_max)) = Some u"
    using r by (auto simp: RM_Reduction_def split: option.splits)
  have act: "u \<in> set (active g)" using RM_select_active[OF u] by simp
  have virt: "\<not> node_concrete g u" using RM_select_virtual[OF u] by simp
  have un: "u < n_nodes g" using active_less[OF ok(2) act] .
  let ?bs = "map adj_other (neighbours g ! u)"
  have g': "g' = erase_active (active_pos (unlink u ?bs g) ! u) (unlink u ?bs g)" "st' = st @ [RM_record g u]"
    using r unfolding RM_Reduction_def u RM_break_fold Let_def unlink_def RM_record_def by simp_all
  have "distinct ?bs" using ok(3) un by (simp add: edges_ok_def)
  moreover have "set ?bs = {b. \<exists>x. adj g b u x}" unfolding adj_others[OF ok(3) un] by simp
  ultimately have d: "detached u g (unlink u ?bs g)" using unlink_detached[OF ok(1) un] by blast
  let ?pos = "active_pos g ! u"
  have pos: "?pos < length (active g)" "active g ! ?pos = u"
    using act ok(2) by (auto simp: active_ok_def in_set_conv_nth)
  have sr: "sr_node (RM_record g u) = u" by (simp add: RM_record_def stack_record_def)
  have "takes_out g (RM_record g u) (erase_active ?pos (unlink u ?bs g))"
  proof (rule takes_out_detached[OF g pos(1) _ _ g])
    show "(b, m, lo) \<in> set (rec_edges (RM_record g u)) \<longleftrightarrow>
      (\<exists>e. adj g (sr_node (RM_record g u)) b e \<and> m = edges g ! e \<and> lo = (sr_node (RM_record g u) < b))" for b m lo
    proof -
      have "(b, m, lo) \<in> set (rec_edges (RM_record g u)) \<longleftrightarrow>
        (\<exists>y \<in> set (neighbours g ! u). b = adj_other y \<and> m = edges g ! adj_edge y \<and> lo = (u < adj_other y))"
        unfolding rec_edges_def RM_record_def stack_record_def by (simp add: image_iff)
      also have "\<dots> \<longleftrightarrow> (\<exists>e. adj g u b e \<and> m = edges g ! e \<and> lo = (u < b))"
        using adj_mem[OF _ un] un by (intro iffI; elim bexE exE conjE) (blast, force simp: adj_def)
      finally show ?thesis by (simp only: sr)
    qed
    show "\<exists>e'. adj g b c e' \<and> (\<forall>x \<in> regs_of g b. \<forall>y \<in> regs_of g c.
        ecost (edges g ! x') (b < c) x y = Inf \<longrightarrow> ecost (edges g ! e') (b < c) x y = Inf)" if "adj g b c x'" for b c x'
      using that by blast
  qed (simp_all add: pos virt sr d)
  then show ?thesis using g' detachedD(8)[OF d] by (intro exI[of _ u]) simp
qed

end
