(* ===== verification/PBQPSound.thy ===== *)
theory PBQPSound
  imports PBQPSteps
begin

text \<open>
  The register assignment is sound: \<^verbatim>\<open>minimize_graph\<close> is a sequence of steps that take every virtual node
  out, and \<^verbatim>\<open>actually_allocate\<close>, going through them backwards, never gives two nodes whose edge forbids it
  the same register.
\<close>

section \<open>Steps\<close>

inductive solver_step :: "rounding \<Rightarrow> CostGraph \<Rightarrow> StackRecord \<Rightarrow> CostGraph \<Rightarrow> bool" for rnd where
  step_low: "pos < length (active g) \<Longrightarrow> \<not> node_concrete g (active g ! pos) \<Longrightarrow>
    reduce rnd (active g ! pos) g st = Some (g', st @ [r]) \<Longrightarrow> solver_step rnd g r (erase_active pos g')"
| step_break: "RM_Reduction rnd g st = Some (g', st @ [r]) \<Longrightarrow> solver_step rnd g r g'"
| step_alone: "pos < length (active g) \<Longrightarrow> \<not> node_concrete g (active g ! pos) \<Longrightarrow> neighbours g ! (active g ! pos) = [] \<Longrightarrow>
    solver_step rnd g (stack_record RM (active g ! pos)) (erase_active pos g)"

inductive solver_steps :: "rounding \<Rightarrow> CostGraph \<Rightarrow> StackRecord list \<Rightarrow> CostGraph \<Rightarrow> bool" for rnd where
  steps_Nil: "solver_steps rnd g [] g"
| steps_Cons: "solver_step rnd g r g1 \<Longrightarrow> solver_steps rnd g1 rs g2 \<Longrightarrow> solver_steps rnd g (r # rs) g2"

inductive_cases steps_NilE: "solver_steps rnd g [] g'"
inductive_cases steps_ConsE: "solver_steps rnd g (r # rs) g'"

lemma solver_steps_append: "solver_steps rnd g rs g1 \<Longrightarrow> solver_steps rnd g1 rs' g2 \<Longrightarrow> solver_steps rnd g (rs @ rs') g2"
  by (induction rule: solver_steps.induct) (auto intro: solver_steps.intros)

lemma solver_steps_one: "solver_step rnd g r g' \<Longrightarrow> solver_steps rnd g [r] g'"
  by (auto intro: solver_steps.intros)

lemma reduce_takes_out:
  assumes "graph_ok g" "pos < length (active g)" "\<not> node_concrete g (active g ! pos)"
    "reduce rnd (active g ! pos) g st = Some (g1, st1)"
  shows "\<exists>r. st1 = st @ [r] \<and> takes_out g r (erase_active pos g1)"
proof (cases "R1_Reduction rnd (active g ! pos) g st")
  case (Some p)
  moreover obtain g2 st2 where "p = (g2, st2)" by fastforce
  ultimately have r: "R1_Reduction rnd (active g ! pos) g st = Some (g1, st1)" using assms(4) by (simp add: reduce_def)
  have "active g ! pos < n_nodes g" using active_node[OF graph_okD(2)[OF assms(1)] assms(2)] by blast
  then show ?thesis using R1_result[OF assms(1) _ r] R1_takes_out[OF assms(1,2) refl assms(3)] by blast
next
  case None
  then have r: "R2_Reduction rnd (active g ! pos) g st = Some (g1, st1)" using assms(4) by (simp add: reduce_def)
  have "active g ! pos < n_nodes g" using active_node[OF graph_okD(2)[OF assms(1)] assms(2)] by blast
  then show ?thesis using R2_result[OF assms(1) _ r] R2_takes_out[OF assms(1,2) refl assms(3)] by blast
qed

lemma alone_detached:
  assumes g: "graph_ok g" and u: "u < n_nodes g" and n: "neighbours g ! u = []"
  shows "detached u g g"
proof -
  note ok = graph_okD[OF g]
  have "unlink u [] g = g"
    using n nodes_lengths(3)[OF ok(1)] u by (simp add: unlink_def clear_neighbours_def list_update_same_conv)
  moreover have "set [] = {b. \<exists>e. adj g b u e}" unfolding adj_others[OF ok(3) u] n by simp
  ultimately show ?thesis using unlink_detached[OF ok(1) u, of "[]"] by simp
qed

lemma alone_takes_out:
  assumes g: "graph_ok g" and pos: "pos < length (active g)" "\<not> node_concrete g (active g ! pos)"
    and n: "neighbours g ! (active g ! pos) = []"
  shows "takes_out g (stack_record RM (active g ! pos)) (erase_active pos g)"
proof -
  let ?u = "active g ! pos"
  note ok = graph_okD[OF g]
  have u: "?u < n_nodes g" using active_node[OF ok(2) pos(1)] by blast
  have none: "\<not> adj g ?u b e" for b e using n by (simp add: adj_def)
  note d = alone_detached[OF g u n]
  have sr: "sr_node (stack_record RM ?u) = ?u" by (simp add: stack_record_def)
  show ?thesis
  proof (rule takes_out_detached[OF g pos(1) _ _ g])
    show "\<exists>e'. adj g b c e' \<and> (\<forall>x \<in> regs_of g b. \<forall>y \<in> regs_of g c.
        ecost (edges g ! x') (b < c) x y = Inf \<longrightarrow> ecost (edges g ! e') (b < c) x y = Inf)" if "adj g b c x'" for b c x'
      using that by blast
    show "\<And>b m lo. (b, m, lo) \<in> set (rec_edges (stack_record RM ?u)) \<longleftrightarrow>
      (\<exists>e. adj g (sr_node (stack_record RM ?u)) b e \<and> m = edges g ! e \<and> lo = (sr_node (stack_record RM ?u) < b))"
      unfolding sr using none by (simp add: rec_edges_def stack_record_def)
  qed (simp_all add: pos sr d)
qed

lemma step_takes_out:
  assumes "solver_step rnd g r g'" "graph_ok g"
  shows "takes_out g r g'"
  using assms
proof (cases rule: solver_step.cases)
  case (step_low pos st g1)
  then show ?thesis using reduce_takes_out[OF assms(2), of pos rnd st g1 "st @ [r]"] by auto
next
  case (step_break st)
  then show ?thesis using RM_takes_out[OF assms(2), of rnd st g' "st @ [r]"] by auto
next
  case (step_alone pos)
  then show ?thesis using alone_takes_out[OF assms(2)] by simp
qed

lemma takes_out_ok: "takes_out g r g' \<Longrightarrow> graph_ok g'"
  by (simp add: takes_out_def Let_def)

lemma takes_outD:
  assumes "takes_out g r g'"
  shows "node_uid g' = node_uid g" "node_kind g' = node_kind g" "n_nodes g' = n_nodes g" "node_concrete g' a = node_concrete g a"
    "sr_node r \<in> set (active g)" "\<not> node_concrete g (sr_node r)" "set (active g') = set (active g) - {sr_node r}"
    "a < n_nodes g \<Longrightarrow> a \<notin> set (active g') \<Longrightarrow> node_costs g' ! a = node_costs g ! a"
    "(b, m, lo) \<in> set (rec_edges r) \<longleftrightarrow> (\<exists>e. adj g (sr_node r) b e \<and> m = edges g ! e \<and> lo = (sr_node r < b))"
    "adj g a b e \<Longrightarrow> a \<noteq> sr_node r \<Longrightarrow> b \<noteq> sr_node r \<Longrightarrow> \<exists>e'. adj g' a b e' \<and>
        (\<forall>x \<in> regs_of g a. \<forall>y \<in> regs_of g b. ecost (edges g ! e) (a < b) x y = Inf \<longrightarrow> ecost (edges g' ! e') (a < b) x y = Inf)"
proof -
  note t = assms[unfolded takes_out_def Let_def]
  show u: "node_uid g' = node_uid g" using t[THEN conjunct2, THEN conjunct1] .
  then show "n_nodes g' = n_nodes g" "node_concrete g' a = node_concrete g a" by (simp_all add: n_nodes_def node_concrete_def)
  show "node_kind g' = node_kind g" using t[THEN conjunct2, THEN conjunct2, THEN conjunct1] .
  show "sr_node r \<in> set (active g)" using t[THEN conjunct2, THEN conjunct2, THEN conjunct2, THEN conjunct1] .
  show "\<not> node_concrete g (sr_node r)" using t[THEN conjunct2, THEN conjunct2, THEN conjunct2, THEN conjunct2, THEN conjunct1] .
  show "set (active g') = set (active g) - {sr_node r}" using t[THEN conjunct2, THEN conjunct2, THEN conjunct2, THEN conjunct2, THEN conjunct2, THEN conjunct1] .
  show "a < n_nodes g \<Longrightarrow> a \<notin> set (active g') \<Longrightarrow> node_costs g' ! a = node_costs g ! a"
    using t[THEN conjunct2, THEN conjunct2, THEN conjunct2, THEN conjunct2, THEN conjunct2, THEN conjunct2, THEN conjunct1] by blast
  show "(b, m, lo) \<in> set (rec_edges r) \<longleftrightarrow> (\<exists>e. adj g (sr_node r) b e \<and> m = edges g ! e \<and> lo = (sr_node r < b))"
    using t[THEN conjunct2, THEN conjunct2, THEN conjunct2, THEN conjunct2, THEN conjunct2, THEN conjunct2, THEN conjunct2, THEN conjunct1] by (elim allE)
  show "adj g a b e \<Longrightarrow> a \<noteq> sr_node r \<Longrightarrow> b \<noteq> sr_node r \<Longrightarrow> \<exists>e'. adj g' a b e' \<and>
        (\<forall>x \<in> regs_of g a. \<forall>y \<in> regs_of g b. ecost (edges g ! e) (a < b) x y = Inf \<longrightarrow> ecost (edges g' ! e') (a < b) x y = Inf)"
    using t[THEN conjunct2, THEN conjunct2, THEN conjunct2, THEN conjunct2, THEN conjunct2, THEN conjunct2, THEN conjunct2, THEN conjunct2] by blast
qed

section \<open>The loop is a sequence of steps\<close>

lemma scan_steps:
  "graph_ok g \<Longrightarrow> scan rnd pos g stack low virt = (g', stack', low', virt') \<Longrightarrow>
    \<exists>rs. stack' = stack @ rs \<and> solver_steps rnd g rs g' \<and> graph_ok g'"
proof (induction rnd pos g stack low virt rule: scan.induct)
  case (1 rnd pos g stack low virt)
  note sc = scan.simps[of rnd pos g stack low virt]
  show ?case
  proof (cases "pos < length (active g)")
    case pos: True
    let ?node = "active g ! pos"
    show ?thesis
    proof (cases "node_concrete g ?node")
      case True
      then have "scan rnd (pos + 1) g stack low virt = (g', stack', low', virt')" using 1(5) pos sc by (simp add: Let_def)
      then show ?thesis using 1(1)[OF pos refl True 1(4)] by blast
    next
      case virt: False
      show ?thesis
      proof (cases "reduce rnd ?node g stack")
        case None
        then have "scan rnd (pos + 1) g stack low True = (g', stack', low', virt')" using 1(5) pos virt sc by (simp add: Let_def)
        then show ?thesis using 1(2)[OF pos refl virt None 1(4)] by blast
      next
        case (Some p)
        obtain g1 st1 where p: "p = (g1, st1)" by fastforce
        have s: "scan rnd pos (erase_active pos g1) st1 True True = (g', stack', low', virt')"
          using 1(5) pos virt sc Some p by (simp add: Let_def)
        have red: "reduce rnd ?node g stack = Some (g1, st1)" using Some p by simp
        obtain r where r: "st1 = stack @ [r]" "takes_out g r (erase_active pos g1)"
          using reduce_takes_out[OF 1(4) pos virt red] by blast
        obtain rs where rs: "stack' = st1 @ rs" "solver_steps rnd (erase_active pos g1) rs g'" "graph_ok g'"
          using 1(3)[OF pos refl virt Some p[symmetric] takes_out_ok[OF r(2)] s] by blast
        have "solver_step rnd g r (erase_active pos g1)" using step_low[OF pos virt] red r(1) by simp
        then show ?thesis using rs r(1) by (intro exI[of _ "r # rs"]) (simp add: steps_Cons)
      qed
    qed
  next
    case False
    then show ?thesis using 1(4,5) sc by (auto intro: steps_Nil)
  qed
qed

lemma minimize_loop_steps:
  "graph_ok g \<Longrightarrow> minimize_loop rnd g stack = (g', stack') \<Longrightarrow>
    \<exists>rs. stack' = stack @ rs \<and> solver_steps rnd g rs g' \<and> graph_ok g'"
proof (induction rnd g stack rule: minimize_loop.induct)
  case (1 rnd g stack)
  obtain g1 st1 low virt where s: "scan rnd 0 g stack False False = (g1, st1, low, virt)" by (metis prod_cases4)
  obtain rs where rs: "st1 = stack @ rs" "solver_steps rnd g rs g1" "graph_ok g1" using scan_steps[OF 1(3) s] by blast
  note m = minimize_loop.simps[of rnd g stack]
  consider (low) "low" | (stop) "\<not> low" "active g1 = [] \<or> \<not> virt \<or> RM_Reduction rnd g1 st1 = None"
    | (rm) g2 st2 where "\<not> low" "\<not> (active g1 = [] \<or> \<not> virt)" "RM_Reduction rnd g1 st1 = Some (g2, st2)"
    by (metis option.exhaust prod.exhaust)
  then show ?case
  proof cases
    case low
    then have "minimize_loop rnd g1 st1 = (g', stack')" using 1(4) m s by simp
    then obtain rs' where "stack' = st1 @ rs'" "solver_steps rnd g1 rs' g'" "graph_ok g'"
      using 1(1)[OF s[symmetric] refl refl low rs(3)] by blast
    then show ?thesis using rs solver_steps_append by (intro exI[of _ "rs @ rs'"]) auto
  next
    case stop
    then have "(g', stack') = (g1, st1)" using 1(4) m s by (auto split: if_splits)
    then show ?thesis using rs by auto
  next
    case rm
    then have m2: "minimize_loop rnd g2 st2 = (g', stack')" using 1(4) m s by auto
    obtain u where u: "st2 = st1 @ [RM_record g1 u]" "takes_out g1 (RM_record g1 u) g2"
      using RM_takes_out[OF rs(3) rm(3)] by blast
    then have st: "solver_step rnd g1 (RM_record g1 u) g2" using rm(3) by (auto intro: step_break)
    obtain rs' where "stack' = st2 @ rs'" "solver_steps rnd g2 rs' g'" "graph_ok g'"
      using 1(2)[OF s[symmetric] refl refl rm(1,2,3) refl takes_out_ok[OF u(2)] m2] by blast
    then show ?thesis using rs u(1) st solver_steps_append steps_Cons
      by (intro exI[of _ "rs @ RM_record g1 u # rs'"]) auto
  qed
qed

lemma alone_steps:
  "graph_ok g \<Longrightarrow> distinct ns \<Longrightarrow> \<forall>n \<in> set ns. n \<in> set (active g) \<and> \<not> node_concrete g n \<and> neighbours g ! n = [] \<Longrightarrow>
    \<exists>g'. solver_steps rnd g (map (stack_record RM) ns) g' \<and> set (active g') = set (active g) - set ns
      \<and> node_costs g' = node_costs g"
proof (induction ns arbitrary: g)
  case Nil
  show ?case by (rule exI[of _ g]) (simp add: steps_Nil)
next
  case (Cons n ns)
  obtain pos where pos: "pos < length (active g)" "active g ! pos = n" using Cons.prems(3) by (auto simp: in_set_conv_nth)
  let ?g = "erase_active pos g"
  have st: "solver_step rnd g (stack_record RM n) ?g" using step_alone[of pos g rnd] pos Cons.prems(3) by simp
  then have t: "takes_out g (stack_record RM n) ?g" using step_takes_out Cons.prems(1) by blast
  have a: "set (active ?g) = set (active g) - {n}" using t by (simp add: takes_out_def stack_record_def)
  have "\<forall>m \<in> set ns. m \<in> set (active ?g) \<and> \<not> node_concrete ?g m \<and> neighbours ?g ! m = []"
    using Cons.prems(2,3) unfolding a by (auto simp: node_concrete_def)
  then obtain g' where "solver_steps rnd ?g (map (stack_record RM) ns) g'" "set (active g') = set (active ?g) - set ns"
      "node_costs g' = node_costs ?g"
    using Cons.IH[OF takes_out_ok[OF t]] Cons.prems(2) by auto
  then show ?case using st a by (intro exI[of _ g']) (auto intro: steps_Cons)
qed

lemma minimize_graph_steps:
  assumes g: "graph_ok g" and m: "minimize_graph rnd g = Some (gf, st)"
  shows "\<exists>rs ns g'. st = rs @ map (stack_record RM) ns \<and> solver_steps rnd g rs gf
    \<and> solver_steps rnd gf (map (stack_record RM) ns) g' \<and> graph_ok gf \<and> (\<forall>a \<in> set (active g'). node_concrete gf a)
    \<and> node_costs g' = node_costs gf"
proof -
  obtain g1 st1 where l: "minimize_loop rnd g [] = (g1, st1)" by fastforce
  let ?ns = "filter (\<lambda>n. \<not> node_concrete g1 n) (active g1)"
  have gf: "gf = g1" "st = st1 @ map (stack_record RM) ?ns" "\<forall>n \<in> set ?ns. neighbours g1 ! n = []"
    using m l by (auto simp: minimize_graph_def Let_def split: if_splits)
  have s: "solver_steps rnd g st1 g1" "graph_ok g1" using minimize_loop_steps[OF g l] by auto
  have "distinct ?ns" using active_distinct[OF graph_okD(2)[OF s(2)]] by simp
  moreover have "\<forall>n \<in> set ?ns. n \<in> set (active g1) \<and> \<not> node_concrete g1 n \<and> neighbours g1 ! n = []" using gf(3) by auto
  ultimately obtain g' where "solver_steps rnd g1 (map (stack_record RM) ?ns) g'" "set (active g') = set (active g1) - set ?ns"
      "node_costs g' = node_costs g1"
    using alone_steps[OF s(2), of ?ns rnd] by blast
  moreover from this(2) have "\<forall>a \<in> set (active g'). node_concrete g1 a" by auto
  ultimately show ?thesis using gf s by blast
qed

lemma steps_frame:
  assumes "solver_steps rnd g rs g'" "graph_ok g"
  shows "graph_ok g' \<and> node_uid g' = node_uid g \<and> node_kind g' = node_kind g
    \<and> set (active g') = set (active g) - sr_node ` set rs \<and> distinct (map sr_node rs)
    \<and> sr_node ` set rs \<subseteq> set (active g) \<and> (\<forall>r \<in> set rs. \<not> node_concrete g (sr_node r))
    \<and> (\<forall>a < n_nodes g. a \<notin> set (active g) \<longrightarrow> node_costs g' ! a = node_costs g ! a)"
  using assms
proof (induction rule: solver_steps.induct)
  case (steps_Cons g r g1 rs g2)
  have t: "takes_out g r g1" using step_takes_out[OF steps_Cons.hyps(1) steps_Cons.prems] .
  note act = takes_outD(7)[OF t] takes_outD(5)[OF t] and virt = takes_outD(6)[OF t]
  note IH = steps_Cons.IH[OF takes_out_ok[OF t], unfolded takes_outD(1-4,7)[OF t]]
  have "set (active g2) = set (active g) - sr_node ` set (r # rs)" using IH by auto
  moreover have "distinct (map sr_node (r # rs))" "sr_node ` set (r # rs) \<subseteq> set (active g)" using IH act(2) by auto
  moreover have "\<forall>r' \<in> set (r # rs). \<not> node_concrete g (sr_node r')" using IH virt by simp
  moreover have "node_costs g2 ! a = node_costs g ! a" if "a < n_nodes g" "a \<notin> set (active g)" for a
  proof -
    have "node_costs g2 ! a = node_costs g1 ! a" using IH that by blast
    also have "\<dots> = node_costs g ! a" using takes_outD(8)[OF t that(1)] that(2) act(1) by blast
    finally show ?thesis .
  qed
  ultimately show ?case using IH by blast
qed simp

section \<open>The selection\<close>

definition sel_at :: "rounding \<Rightarrow> ReductionType \<Rightarrow> f32 \<Rightarrow> f32 list \<Rightarrow> f32" where
  "sel_at rnd ty v cs = (if ty = R2 then f32_add rnd v (f32_add rnd (cs ! 0) (cs ! 1))
     else fold (\<lambda>c s. f32_add rnd s c) cs v)"

lemma option_list_some: "(\<And>x. x \<in> set xs \<Longrightarrow> f x = Some (h x)) \<Longrightarrow> option_list (map f xs) = Some (map h xs)"
  by (induction xs) auto

lemma fold_add_Inf: "fold (\<lambda>c s. f32_add rnd s c) cs Inf = Inf"
  by (induction cs) simp_all

lemma fold_add_Inf_mem: "Inf \<in> set cs \<Longrightarrow> fold (\<lambda>c s. f32_add rnd s c) cs v = Inf"
  by (induction cs arbitrary: v) (auto simp: fold_add_Inf)

lemma fold_plus: "fold (\<lambda>c s. s + c) cs v = v + sum_list (cs :: f32 list)"
  by (induction cs arbitrary: v) (simp_all add: add.assoc)

definition rec_costs :: "StackRecord \<Rightarrow> CReg list \<Rightarrow> nat \<Rightarrow> f32 list" where
  "rec_costs r as x = map (\<lambda>(b, m, lo). ecost m lo x (creg_code (as ! b))) (rec_edges r)"

lemma sel_at_Inf: "Inf \<in> set (rec_costs r as x) \<Longrightarrow> sel_at rnd (sr_type r) v (rec_costs r as x) = Inf"
  by (cases "sr_type r") (auto simp: sel_at_def rec_costs_def rec_edges_def fold_add_Inf_mem)

lemma sel_at_exact: "sel_at Fin (sr_type r) v (rec_costs r as x) = v + sum_list (rec_costs r as x)"
  by (cases "sr_type r") (simp_all add: sel_at_def rec_costs_def rec_edges_def fold_plus f32_add_exact)

lemma add_edge_costs_some:
  assumes "\<And>i. i < dk_size d \<Longrightarrow> get_cost m lo (dk_regs d ! i) (creg_code c) = Some (h i)"
  shows "add_edge_costs rnd m lo d c (map v [0..<dk_size d]) = Some (map (\<lambda>i. f32_add rnd (v i) (h i)) [0..<dk_size d])"
  unfolding add_edge_costs_def using assms by (intro option_list_some) simp

lemma fold_edge_costs:
  assumes "\<And>b i. b \<in> set bs \<Longrightarrow> i < dk_size d \<Longrightarrow>
    get_cost (be_matrix b) (be_flip b) (dk_regs d ! i) (creg_code (as ! be_neighbor b))
      = Some (ecost (be_matrix b) (be_flip b) (dk_regs d ! i) (creg_code (as ! be_neighbor b)))"
  shows "fold (\<lambda>b s. case s of None \<Rightarrow> None
      | Some sel \<Rightarrow> add_edge_costs rnd (be_matrix b) (be_flip b) d (as ! be_neighbor b) sel) bs (Some (map v [0..<dk_size d]))
    = Some (map (\<lambda>i. fold (\<lambda>c s. f32_add rnd s c)
        (map (\<lambda>b. ecost (be_matrix b) (be_flip b) (dk_regs d ! i) (creg_code (as ! be_neighbor b))) bs) (v i)) [0..<dk_size d])"
  using assms
proof (induction bs arbitrary: v)
  case (Cons b bs)
  note a = add_edge_costs_some[of d "be_matrix b" "be_flip b" "as ! be_neighbor b"
    "\<lambda>i. ecost (be_matrix b) (be_flip b) (dk_regs d ! i) (creg_code (as ! be_neighbor b))" rnd v, OF Cons.prems]
  show ?case using Cons.IH[OF Cons.prems, of "\<lambda>i. f32_add rnd (v i) (ecost (be_matrix b) (be_flip b) (dk_regs d ! i) (creg_code (as ! be_neighbor b)))"]
    by (simp add: a)
qed simp

lemma selection_vector_some:
  assumes "\<And>b m lo x. (b, m, lo) \<in> set (rec_edges r) \<Longrightarrow> x \<in> regs_of g (sr_node r) \<Longrightarrow>
    get_cost m lo x (creg_code (as ! b)) = Some (ecost m lo x (creg_code (as ! b)))"
  shows "selection_vector rnd g r as = Some (map (\<lambda>i. sel_at rnd (sr_type r) (node_costs g ! sr_node r ! i)
    (rec_costs r as (dom_regs (node_kind g ! sr_node r) ! i))) [0..<dom_size (node_kind g ! sr_node r)])"
proof -
  let ?d = "kKinds ! (node_kind g ! sr_node r)"
  have mem: "i < dk_size ?d \<Longrightarrow> dk_regs ?d ! i \<in> regs_of g (sr_node r)" for i by (simp add: dk_size_def)
  show ?thesis
  proof (cases "sr_type r")
    case R1
    then have e: "rec_edges r = [(sr_neigh0 r, sr_m_ab r, sr_ab_self_lo r)]" by (simp add: rec_edges_def)
    show ?thesis using assms[of "sr_neigh0 r" "sr_m_ab r" "sr_ab_self_lo r"] mem R1
      by (simp add: selection_vector_def Let_def e rec_costs_def sel_at_def dom_size_def)
        (intro add_edge_costs_some, simp)
  next
    case R2
    then have e: "rec_edges r = [(sr_neigh0 r, sr_m_ab r, sr_ab_self_lo r), (sr_neigh1 r, sr_m_bc r, sr_bc_self_lo r)]"
      by (simp add: rec_edges_def)
    show ?thesis using assms[of "sr_neigh0 r" "sr_m_ab r" "sr_ab_self_lo r"] assms[of "sr_neigh1 r" "sr_m_bc r" "sr_bc_self_lo r"] mem R2
      by (simp add: selection_vector_def Let_def e rec_costs_def sel_at_def dom_size_def) (intro option_list_some, simp)
  next
    case RM
    then have e: "rec_edges r = map (\<lambda>b. (be_neighbor b, be_matrix b, be_flip b)) (sr_broken_edges r)"
      by (simp add: rec_edges_def)
    have c: "get_cost (be_matrix b) (be_flip b) (dk_regs ?d ! i) (creg_code (as ! be_neighbor b))
      = Some (ecost (be_matrix b) (be_flip b) (dk_regs ?d ! i) (creg_code (as ! be_neighbor b)))"
      if "b \<in> set (sr_broken_edges r)" "i < dk_size ?d" for b i
      using assms[of "be_neighbor b" "be_matrix b" "be_flip b"] mem[OF that(2)] that(1) by (auto simp: e)
    show ?thesis using fold_edge_costs[where d = ?d and bs = "sr_broken_edges r" and as = as, OF c] RM
      by (simp add: selection_vector_def Let_def e rec_costs_def sel_at_def dom_size_def comp_def)
  qed
qed

section \<open>The chosen register\<close>

lemma best_fold:
  "snd (fold (best_step d sel) [0..<n] (0, Fin 1000000000)) \<le> Fin 1000000000
    \<and> (\<forall>j < n. snd (fold (best_step d sel) [0..<n] (0, Fin 1000000000)) \<le> sel ! j)
    \<and> (fold (best_step d sel) [0..<n] (0, Fin 1000000000) = (0, Fin 1000000000)
      \<or> (\<exists>l < n. fold (best_step d sel) [0..<n] (0, Fin 1000000000) = (dk_regs d ! l, sel ! l)))"
proof (induction n)
  case (Suc n)
  obtain b c where s: "fold (best_step d sel) [0..<n] (0, Fin 1000000000) = (b, c)" by fastforce
  have IH: "c \<le> Fin 1000000000" "\<forall>j < n. c \<le> sel ! j"
    "(b, c) = (0, Fin 1000000000) \<or> (\<exists>l < n. (b, c) = (dk_regs d ! l, sel ! l))"
    using Suc.IH unfolding s snd_conv by blast+
  show ?case
  proof (cases "sel ! n < c \<or> sel ! n = c \<and> b = 0 \<and> dk_regs d ! n \<noteq> 0")
    case True
    then have "fold (best_step d sel) [0..<Suc n] (0, Fin 1000000000) = (dk_regs d ! n, sel ! n)" "sel ! n \<le> c"
      using s by (auto simp: best_step_def Let_def)
    then show ?thesis using IH(1,2) by (auto simp: less_Suc_eq)
  next
    case False
    then have "fold (best_step d sel) [0..<Suc n] (0, Fin 1000000000) = (b, c)" "c \<le> sel ! n"
      using s by (auto simp: best_step_def Let_def not_less)
    then show ?thesis using IH by (auto simp: less_Suc_eq)
  qed
qed simp

lemma best_register_spec:
  assumes "best_register d sel = (b, c)"
  shows "c \<le> Fin 1000000000" "\<And>j. j < dk_size d \<Longrightarrow> c \<le> sel ! j"
    "b = 0 \<and> c = Fin 1000000000 \<or> (\<exists>l < dk_size d. b = dk_regs d ! l \<and> c = sel ! l)"
  using best_fold[of d sel "dk_size d"] assms unfolding best_register_def by auto

lemma length_initial [simp]: "length (initial_assignments g) = n_nodes g"
proof -
  have "length (fold (\<lambda>node as. if node_concrete g node then as[node := h node] else as) ns as) = length as" for ns h and as :: "CReg list"
    by (induction ns arbitrary: as) auto
  then show ?thesis by (simp add: initial_assignments_def)
qed

lemma initial_nth:
  assumes "a < n_nodes g"
  shows "initial_assignments g ! a = (if node_concrete g a then c_reg (uid_to_reg (node_uid g ! a)) else CReg_Virtual)"
proof -
  have "n \<le> length as \<Longrightarrow> fold (\<lambda>node as. if node_concrete g node then as[node := h node] else as) [0..<n] as ! a
    = (if a < n \<and> node_concrete g a then h a else as ! a)" for n h and as :: "CReg list"
  proof (induction n)
    case (Suc n)
    have "length (fold (\<lambda>node as. if node_concrete g node then as[node := h node] else as) ns as) = length as" for ns
      by (induction ns arbitrary: as) auto
    then show ?case using Suc by (auto simp: nth_list_update less_Suc_eq)
  qed simp
  from this[of "n_nodes g" "replicate (n_nodes g) CReg_Virtual"] show ?thesis
    using assms by (simp add: initial_assignments_def)
qed

lemma initial_code:
  assumes "nodes_ok g" "a < n_nodes g" "node_concrete g a"
  shows "creg_code (initial_assignments g ! a) = node_uid g ! a + 1" "creg_code (initial_assignments g ! a) \<in> regs_of g a"
proof -
  have u: "node_uid g ! a + 1 < numRegs" using assms(3) by (simp add: node_concrete_def uid_is_concrete_def)
  then show 1: "creg_code (initial_assignments g ! a) = node_uid g ! a + 1"
    using assms by (simp add: initial_nth uid_to_reg_def creg_code_of_code)
  have "kind_fits (node_uid g ! a) (node_kind g ! a)" using assms by (simp add: nodes_ok_alt)
  then show "creg_code (initial_assignments g ! a) \<in> regs_of g a"
    using kind_fits_concrete assms(3) unfolding 1 by (simp add: node_concrete_def)
qed

lemma allocate_records_append:
  "allocate_records rnd g (rs @ ss) s = (case allocate_records rnd g rs s of None \<Rightarrow> None | Some s' \<Rightarrow> allocate_records rnd g ss s')"
  by (induction rs arbitrary: s) (auto split: option.splits)

lemma rec_edge_cost:
  assumes g: "graph_ok g" and t: "takes_out g r g'" and e: "(b, m, lo) \<in> set (rec_edges r)"
    and x: "x \<in> regs_of g (sr_node r)" "y \<in> regs_of g b"
  shows "get_cost m lo x y = Some (ecost m lo x y)"
proof -
  note ok = graph_okD[OF g]
  obtain e' where a: "adj g (sr_node r) b e'" "m = edges g ! e'" "lo = (sr_node r < b)" using takes_outD(9)[OF t] e by blast
  have e': "edge_ok g (sr_node r) b e'" using edge_ok_adj[OF ok(3) a(1)] .
  have n: "sr_node r < n_nodes g" "b < n_nodes g" using adj_less[OF a(1)] e' by (auto simp: edge_ok_def)
  show ?thesis unfolding a(2,3)
    using edge_matrix[OF ok(1) e'] kind_less[OF ok(1) n(1)] kind_less[OF ok(1) n(2)] x by (intro get_cost_ecost)
qed

text \<open>One record: the register is the best one of the selection.\<close>

definition selection :: "rounding \<Rightarrow> CostGraph \<Rightarrow> StackRecord \<Rightarrow> CReg list \<Rightarrow> f32 list" where
  "selection rnd g r A = map (\<lambda>i. sel_at rnd (sr_type r) (node_costs g ! sr_node r ! i)
     (rec_costs r A (dom_regs (node_kind g ! sr_node r) ! i))) [0..<dom_size (node_kind g ! sr_node r)]"

definition chosen :: "rounding \<Rightarrow> CostGraph \<Rightarrow> StackRecord \<Rightarrow> CReg list \<Rightarrow> CReg" where
  "chosen rnd g r A = creg_of_code (fst (best_register (kKinds ! (node_kind g ! sr_node r)) (selection rnd g r A)))"

lemma allocate_step_chosen:
  assumes g: "graph_ok g" and t: "takes_out g r g'" and gf: "node_uid gf = node_uid g" "node_kind gf = node_kind g"
    and A: "\<forall>a \<in> set (active g'). creg_code (A ! a) \<in> regs_of g a"
  shows "allocate_step rnd gf r (A, sp) = Some (A[sr_node r := chosen rnd gf r A],
    if chosen rnd gf r A = CReg_Virtual then sp @ [node_uid g ! sr_node r] else sp)"
proof -
  note ok = graph_okD[OF g]
  have "get_cost m lo x (creg_code (A ! b)) = Some (ecost m lo x (creg_code (A ! b)))"
    if e: "(b, m, lo) \<in> set (rec_edges r)" and x: "x \<in> regs_of g (sr_node r)" for b m lo x
  proof -
    obtain e' where "adj g (sr_node r) b e'" using takes_outD(9)[OF t] e by blast
    then have "b \<in> set (active g) - {sr_node r}" using edge_ok_adj[OF ok(3)] by (auto simp: edge_ok_def)
    then show ?thesis using A takes_outD(7)[OF t] rec_edge_cost[OF g t e x] by blast
  qed
  then have "selection_vector rnd gf r A = Some (selection rnd gf r A)"
    using selection_vector_some[of r gf A rnd] by (simp add: gf selection_def)
  then show ?thesis by (simp add: allocate_step_def Let_def chosen_def gf(1))
qed

lemma node_spill:
  assumes g: "graph_ok g" and t: "takes_out g r g'"
  shows "node_kind g ! sr_node r < kind_N" "0 \<in> regs_of g (sr_node r)"
proof -
  note ok = graph_okD[OF g]
  have u: "sr_node r < n_nodes g" using active_less[OF ok(2) takes_outD(5)[OF t]] .
  show "node_kind g ! sr_node r < kind_N" using kind_less[OF ok(1) u] .
  have "kind_fits (node_uid g ! sr_node r) (node_kind g ! sr_node r)" using ok(1) u by (simp add: nodes_ok_alt)
  then show "0 \<in> regs_of g (sr_node r)"
    using kind_fits_spill takes_outD(6)[OF t] by (simp add: node_concrete_def)
qed

text \<open>The register that is chosen is in the domain, and it has a finite cost with every neighbour unless the node is
  spilled.\<close>

lemma chosen_ok:
  assumes g: "graph_ok g" and t: "takes_out g r g'" and gf: "node_kind gf = node_kind g"
  shows "creg_code (chosen rnd gf r A) \<in> regs_of g (sr_node r)"
    "chosen rnd gf r A \<noteq> CReg_Virtual \<longrightarrow>
      (\<forall>(b, m, lo) \<in> set (rec_edges r). ecost m lo (creg_code (chosen rnd gf r A)) (creg_code (A ! b)) \<noteq> Inf)"
proof -
  let ?u = "sr_node r" and ?k = "node_kind g ! sr_node r"
  note k = node_spill[OF g t]
  obtain b c where b: "best_register (kKinds ! ?k) (selection rnd gf r A) = (b, c)" by fastforce
  note spec = best_register_spec[OF b, folded dom_size_def]
  have bm: "b \<in> regs_of g ?u" using spec(3) k(2) dom_nth_regs by auto
  have code: "creg_code (chosen rnd gf r A) = b"
    using dom_regs_less[OF k(1) bm] creg_code_of_code b by (simp add: chosen_def gf)
  then show "creg_code (chosen rnd gf r A) \<in> regs_of g ?u" using bm by simp
  have "ecost m lo b (creg_code (A ! d)) \<noteq> Inf" if ne: "b \<noteq> 0" and mem: "(d, m, lo) \<in> set (rec_edges r)" for d m lo
  proof
    assume inf: "ecost m lo b (creg_code (A ! d)) = Inf"
    obtain l where l: "l < dom_size ?k" "b = dom_regs ?k ! l" "c = selection rnd gf r A ! l" using spec(3) ne by blast
    have "Inf \<in> set (rec_costs r A b)" using inf mem by (force simp: rec_costs_def)
    then have "c = Inf" using l sel_at_Inf by (simp add: selection_def gf)
    then show False using spec(1) by simp
  qed
  moreover have "chosen rnd gf r A \<noteq> CReg_Virtual \<longrightarrow> b \<noteq> 0" using code creg_code_0 by metis
  ultimately show "chosen rnd gf r A \<noteq> CReg_Virtual \<longrightarrow>
      (\<forall>(b, m, lo) \<in> set (rec_edges r). ecost m lo (creg_code (chosen rnd gf r A)) (creg_code (A ! b)) \<noteq> Inf)"
    unfolding code by blast
qed

section \<open>All records\<close>

text \<open>Two assigned registers meet the edges of the graph: no infinite cost between two nodes that are in registers.\<close>

definition respects_edges :: "CostGraph \<Rightarrow> CReg list \<Rightarrow> bool" where
  "respects_edges g A \<longleftrightarrow> (\<forall>a b e. adj g a b e \<and> \<not> (node_concrete g a \<and> node_concrete g b)
     \<and> A ! a \<noteq> CReg_Virtual \<and> A ! b \<noteq> CReg_Virtual
     \<longrightarrow> ecost (edges g ! e) (a < b) (creg_code (A ! a)) (creg_code (A ! b)) \<noteq> Inf)"

definition in_domains :: "CostGraph \<Rightarrow> CReg list \<Rightarrow> bool" where
  "in_domains g A \<longleftrightarrow> (\<forall>a \<in> set (active g). creg_code (A ! a) \<in> regs_of g a)"

lemma respects_edges_step:
  assumes g: "graph_ok g" and t: "takes_out g r g'" and A: "length A = n_nodes g" "in_domains g' A" "respects_edges g' A"
    and c: "creg_code c \<in> regs_of g (sr_node r)"
      "c \<noteq> CReg_Virtual \<longrightarrow> (\<forall>(b, m, lo) \<in> set (rec_edges r). ecost m lo (creg_code c) (creg_code (A ! b)) \<noteq> Inf)"
  shows "in_domains g (A[sr_node r := c])" "respects_edges g (A[sr_node r := c])"
proof -
  let ?u = "sr_node r" and ?A = "A[sr_node r := c]"
  note ok = graph_okD[OF g]
  have u: "?u < length A" using active_less[OF ok(2) takes_outD(5)[OF t]] A(1) by simp
  show dom: "in_domains g ?A" using A(2) c(1) u takes_outD(2,7)[OF t] unfolding in_domains_def
    by (metis (no_types, lifting) Diff_iff nth_list_update_eq nth_list_update_neq singletonD)
  show "respects_edges g ?A" unfolding respects_edges_def
  proof (intro allI impI, elim conjE)
    fix a b e
    assume ab: "adj g a b e" "\<not> (node_concrete g a \<and> node_concrete g b)" "?A ! a \<noteq> CReg_Virtual" "?A ! b \<noteq> CReg_Virtual"
    have e: "edge_ok g a b e" using edge_ok_adj[OF ok(3) ab(1)] .
    then have ne: "a \<noteq> b" by (simp add: edge_ok_def)
    have own: "ecost (edges g ! e) (?u < d) (creg_code c) (creg_code (A ! d)) \<noteq> Inf" if "adj g ?u d e" "c \<noteq> CReg_Virtual" for d
      using takes_outD(9)[OF t, of d "edges g ! e" "?u < d"] c(2) that by blast
    show "ecost (edges g ! e) (a < b) (creg_code (?A ! a)) (creg_code (?A ! b)) \<noteq> Inf"
    proof (cases "a = ?u \<or> b = ?u")
      case False
      then obtain e' where e': "adj g' a b e'" "\<forall>x \<in> regs_of g a. \<forall>y \<in> regs_of g b.
          ecost (edges g ! e) (a < b) x y = Inf \<longrightarrow> ecost (edges g' ! e') (a < b) x y = Inf"
        using takes_outD(10)[OF t ab(1)] by blast
      have "ecost (edges g' ! e') (a < b) (creg_code (A ! a)) (creg_code (A ! b)) \<noteq> Inf"
        using A(3) e'(1) ab False unfolding respects_edges_def takes_outD(4)[OF t] by (metis nth_list_update_neq)
      moreover have "creg_code (?A ! a) \<in> regs_of g a" "creg_code (?A ! b) \<in> regs_of g b"
        using dom e unfolding in_domains_def edge_ok_def by blast+
      ultimately show ?thesis using e'(2) False by (metis nth_list_update_neq)
    next
      case True
      then show ?thesis
      proof
        assume a: "a = ?u"
        then show ?thesis using own[of b] ab(1,3) u ne by simp
      next
        assume b: "b = ?u"
        then show ?thesis using own[of a] adj_sym[OF ok(3) ab(1)] ab(4) u ne ecost_flip[of a b "edges g ! e"] by simp
      qed
    qed
  qed
qed

lemma concrete_start:
  assumes "graph_ok g" "\<forall>a \<in> set (active g). node_concrete g a" "node_uid gf = node_uid g" "node_kind gf = node_kind g"
  shows "in_domains g (initial_assignments gf)" "respects_edges g (initial_assignments gf)"
proof -
  note ok = graph_okD[OF assms(1)]
  have i: "initial_assignments gf = initial_assignments g"
    unfolding initial_assignments_def n_nodes_def node_concrete_def assms(3) ..
  show "in_domains g (initial_assignments gf)"
    unfolding in_domains_def i using initial_code(2)[OF ok(1)] active_less[OF ok(2)] assms(2) by blast
  show "respects_edges g (initial_assignments gf)"
    unfolding respects_edges_def using edge_ok_adj[OF ok(3)] assms(2) unfolding edge_ok_def by blast
qed

definition spilled_uids :: "CostGraph \<Rightarrow> CReg list \<Rightarrow> StackRecord list \<Rightarrow> nat list" where
  "spilled_uids g A rs = map (\<lambda>r. node_uid g ! sr_node r) (filter (\<lambda>r. A ! sr_node r = CReg_Virtual) (rev rs))"

lemma allocate_sound:
  assumes "solver_steps rnd g rs g'" "graph_ok g" "\<forall>a \<in> set (active g'). node_concrete g a"
    "node_uid gf = node_uid g" "node_kind gf = node_kind g"
  shows "\<exists>A. allocate_records rnd gf (rev rs) (initial_assignments gf, []) = Some (A, spilled_uids g A rs)
    \<and> length A = n_nodes g \<and> in_domains g A \<and> respects_edges g A
    \<and> (\<forall>a < n_nodes g. a \<notin> sr_node ` set rs \<longrightarrow> A ! a = initial_assignments gf ! a)"
  using assms
proof (induction rule: solver_steps.induct)
  case (steps_Nil g)
  have "n_nodes gf = n_nodes g" using steps_Nil by (simp add: n_nodes_def)
  then show ?case using concrete_start[OF steps_Nil] by (simp add: spilled_uids_def)
next
  case (steps_Cons g r g1 rs g2)
  have t: "takes_out g r g1" using step_takes_out[OF steps_Cons.hyps(1) steps_Cons.prems(1)] .
  note to = takes_outD[OF t]
  let ?u = "sr_node r"
  obtain A where A: "allocate_records rnd gf (rev rs) (initial_assignments gf, []) = Some (A, spilled_uids g1 A rs)"
    "length A = n_nodes g" "in_domains g1 A" "respects_edges g1 A"
    "\<forall>a < n_nodes g. a \<notin> sr_node ` set rs \<longrightarrow> A ! a = initial_assignments gf ! a"
    using steps_Cons.IH[OF takes_out_ok[OF t]] steps_Cons.prems(2-4) unfolding to(1-4) by blast
  have dom: "\<forall>a \<in> set (active g1). creg_code (A ! a) \<in> regs_of g a" using A(3) unfolding in_domains_def to(2) .
  let ?c = "chosen rnd gf r A"
  note c = allocate_step_chosen[OF steps_Cons.prems(1) t steps_Cons.prems(3,4) dom, of rnd "spilled_uids g1 A rs"]
    chosen_ok[OF steps_Cons.prems(1) t steps_Cons.prems(4), of rnd A]
  have "?u \<notin> sr_node ` set rs" using steps_frame[OF steps_Cons.hyps(2) takes_out_ok[OF t]] unfolding to(7) by blast
  moreover have u: "?u < length A" using active_less[OF graph_okD(2)[OF steps_Cons.prems(1)] to(5)] A(2) by simp
  ultimately have "spilled_uids g (A[?u := ?c]) (r # rs)
      = (if ?c = CReg_Virtual then spilled_uids g1 A rs @ [node_uid g ! ?u] else spilled_uids g1 A rs)"
    by (auto simp: spilled_uids_def to(1) nth_list_update intro!: arg_cong[of _ _ "map _"] filter_cong)
  moreover have "allocate_records rnd gf (rev (r # rs)) (initial_assignments gf, [])
      = allocate_step rnd gf r (A, spilled_uids g1 A rs)"
    by (simp add: allocate_records_append A(1) split: option.split)
  ultimately show ?case
    using c respects_edges_step[OF steps_Cons.prems(1) t A(2-4) c(2,3)] A(2,5)
    by (intro exI[of _ "A[?u := ?c]"]) (auto simp: nth_list_update)
qed

text \<open>The whole stack.\<close>

lemma minimize_all:
  assumes g: "graph_ok g" and m: "minimize_graph rnd g = Some (gf, st)"
  shows "\<exists>g'. solver_steps rnd g st g' \<and> (\<forall>a \<in> set (active g'). node_concrete g a)
    \<and> node_uid gf = node_uid g \<and> node_kind gf = node_kind g \<and> node_costs g' = node_costs gf"
proof -
  obtain rs ns g' where m: "st = rs @ map (stack_record RM) ns" "solver_steps rnd g rs gf"
    "solver_steps rnd gf (map (stack_record RM) ns) g'" "\<forall>a \<in> set (active g'). node_concrete gf a" "node_costs g' = node_costs gf"
    using minimize_graph_steps[OF g m] by blast
  have f: "node_uid gf = node_uid g" "node_kind gf = node_kind g" using steps_frame[OF m(2) g] by blast+
  have "\<forall>a \<in> set (active g'). node_concrete g a" using m(4) f(1) by (simp add: node_concrete_def)
  then show ?thesis using solver_steps_append[OF m(2,3)] m(1,5) f by blast
qed

lemma actually_allocate_sound:
  assumes g: "graph_ok g" and m: "minimize_graph rnd g = Some (gf, st)"
  shows "\<exists>A. actually_allocate rnd gf st = Some (A, spilled_uids g A st)
    \<and> length A = n_nodes g \<and> in_domains g A \<and> respects_edges g A
    \<and> (\<forall>a < n_nodes g. a \<notin> sr_node ` set st \<longrightarrow> A ! a = initial_assignments gf ! a)
    \<and> sr_node ` set st = {a \<in> set (active g). \<not> node_concrete g a} \<and> distinct (map sr_node st)"
proof -
  obtain g' where s: "solver_steps rnd g st g'" "\<forall>a \<in> set (active g'). node_concrete g a"
    "node_uid gf = node_uid g" "node_kind gf = node_kind g" using minimize_all[OF g m] by blast
  have "sr_node ` set st = {a \<in> set (active g). \<not> node_concrete g a}" using steps_frame[OF s(1) g] s(2) by blast
  then show ?thesis unfolding actually_allocate_def
    using allocate_sound[OF s(1) g s(2-4)] steps_frame[OF s(1) g] by blast
qed

end
