(* ===== verification/RegAssign.thy ===== *)
theory RegAssign
  imports PBQPSound RegColl
begin

text \<open>
  The graph coloring part of the register allocator, \<^verbatim>\<open>src/src/mir/optim/reg_alloc.cpp\<close>: \<^verbatim>\<open>setup_costs\<close>,
  which builds the solver's graph from the interference graph, the map of the assigned registers,
  \<^verbatim>\<open>coalesce_copies\<close>, and the replacement of the operands. The main results: the graph is well-formed and has an
  edge for every interference, and an assignment the solver finds, also after coalescing, keeps interfering registers
  apart.
\<close>

section \<open>Save classes\<close>

definition CCall_caller_saved :: "CReg list" where
  "CCall_caller_saved = [CReg_A, CReg_C, CReg_D, CReg_SI, CReg_DI, CReg_R8, CReg_R9, CReg_R10, CReg_R11, CReg_mm0,
     CReg_mm1, CReg_mm2, CReg_mm3, CReg_mm4, CReg_mm5, CReg_mm6, CReg_mm7, CReg_mm8, CReg_mm9, CReg_mm10, CReg_mm11,
     CReg_mm12, CReg_mm13, CReg_mm14, CReg_mm15]"

definition CCall_callee_saved :: "CReg list" where
  "CCall_callee_saved = [CReg_R12, CReg_R13, CReg_R14, CReg_R15, CReg_B, CReg_SP, CReg_BP]"

definition save_classes :: "nat \<Rightarrow> SaveClass" where
  "save_classes =
     fold (\<lambda>r t. t(creg_code r := CalleeSaved)) CCall_callee_saved
       (fold (\<lambda>r t. t(creg_code r := CallerSaved)) CCall_caller_saved (\<lambda>_. NotSaved))"

section \<open>The graph of a function\<close>

text \<open>The map of the interference graph in the order it is iterated, and what the cost model is given.\<close>

type_synonym lifetimes = "(VReg \<times> nat list) list"

record CostModelInput =
  block_weights :: "f32 list"
  call_crossings :: "nat \<Rightarrow> f32 option"
  first_spill_temp_id :: nat

text \<open>The crossings \<^verbatim>\<open>reg_coll\<close> collects: the sum of the weights of the blocks of the calls.\<close>

definition crossing_weights :: "rounding \<Rightarrow> f32 list \<Rightarrow> (nat \<Rightarrow> nat list) \<Rightarrow> nat \<Rightarrow> f32 option" where
  "crossing_weights rnd weights cross u =
     (if cross u = [] then None else Some (fold (\<lambda>b s. f32_add rnd s (weights ! b)) (cross u) (Fin 0)))"

definition setup_edge :: "nat \<Rightarrow> nat \<Rightarrow> nat \<Rightarrow> CostGraph \<Rightarrow> CostGraph" where
  "setup_edge uid node c g =
     (if c \<noteq> uid then
        (let (g, other) = graph_node c g
         in if has_conn g node other then g else fst (add_edge node other interference g))
      else g)"

definition setup_reg :: "VReg \<times> nat list \<Rightarrow> CostGraph \<Rightarrow> CostGraph" where
  "setup_reg rc g =
     (let uid = reg_to_uid (fst rc); (g, node) = graph_node uid g; g = set_kind node (kind_of (fst rc)) g
      in fold (setup_edge uid node) (snd rc) g)"

text \<open>The second loop: the graph and \<^verbatim>\<open>use_weight\<close>.\<close>

type_synonym weighted_graph = "CostGraph \<times> f32 list"

definition resize :: "nat \<Rightarrow> f32 list \<Rightarrow> f32 list" where
  "resize n uw = take n uw @ replicate (n - length uw) (Fin 0)"

definition ensure_node :: "rounding \<Rightarrow> f32 \<Rightarrow> VReg \<Rightarrow> weighted_graph \<Rightarrow> weighted_graph" where
  "ensure_node rnd weight reg s =
     (if is_concrete reg then s
      else
        (let reg_id = reg_to_uid reg;
             g = (if has_node (fst s) reg_id then fst s
                  else let (g, node) = graph_node reg_id (fst s) in set_kind node (kind_of reg) g);
             (g, node) = graph_node reg_id g;
             uw = (if length (snd s) \<le> node then resize (n_nodes g) (snd s) else snd s)
         in (g, uw[node := f32_add rnd (uw ! node) weight])))"

definition ensure_arg :: "rounding \<Rightarrow> f32 \<Rightarrow> MArgument \<Rightarrow> weighted_graph \<Rightarrow> weighted_graph" where
  "ensure_arg rnd weight a s = (case ma_type a of
     AT_StackSlot \<Rightarrow> s | AT_Imm \<Rightarrow> s | AT_Label \<Rightarrow> s | AT_MemLabel \<Rightarrow> s | AT_MemImmLabel \<Rightarrow> s | AT_MemImm \<Rightarrow> s
   | AT_VReg \<Rightarrow> ensure_node rnd weight (ma_reg a) s
   | AT_MemImmVReg \<Rightarrow> ensure_node rnd weight (ma_reg a) s
   | AT_MemVReg \<Rightarrow> ensure_node rnd weight (ma_reg a) s
   | AT_MemVRegVRegScale \<Rightarrow> ensure_node rnd weight (ma_indx a) (ensure_node rnd weight (ma_reg a) s)
   | AT_MemImmVRegVReg \<Rightarrow> ensure_node rnd weight (ma_indx a) (ensure_node rnd weight (ma_reg a) s)
   | AT_MemVRegVReg \<Rightarrow> ensure_node rnd weight (ma_indx a) (ensure_node rnd weight (ma_reg a) s)
   | AT_MemImmVRegVRegScale \<Rightarrow> ensure_node rnd weight (ma_indx a) (ensure_node rnd weight (ma_reg a) s)
   | AT_MemLabelVregScale \<Rightarrow> ensure_node rnd weight (ma_indx a) s
   | AT_MemLabelVreg \<Rightarrow> ensure_node rnd weight (ma_indx a) s
   | AT_MemImmVRegScale \<Rightarrow> ensure_node rnd weight (ma_indx a) s)"

definition is_copy :: "MInstr \<Rightarrow> bool" where
  "is_copy x = ((mi_op x = GBase GBase_mov \<or> mi_op x = GBase GBase_ret_setup \<or> mi_op x = GBase GBase_arg_setup)
     \<and> isReg (mi_args x ! 0) \<and> isReg (mi_args x ! 1))"

definition setup_copy :: "rounding \<Rightarrow> MInstr \<Rightarrow> weighted_graph \<Rightarrow> weighted_graph" where
  "setup_copy rnd x s =
     (if is_copy x then
        (let r0_uid = reg_to_uid (ma_reg (mi_args x ! 0)); r1_uid = reg_to_uid (ma_reg (mi_args x ! 1))
         in if r0_uid = r1_uid then s
            else (let (g, r0) = graph_node r0_uid (fst s); (g, r1) = graph_node r1_uid g
                  in (add_copy_discount rnd r0 r1 g, snd s)))
      else s)"

definition setup_instr :: "rounding \<Rightarrow> f32 \<Rightarrow> MInstr \<Rightarrow> weighted_graph \<Rightarrow> weighted_graph" where
  "setup_instr rnd weight x s =
     setup_copy rnd x (fold (\<lambda>i. ensure_arg rnd weight (mi_args x ! i)) [0..<mi_n_args x] s)"

definition setup_bb :: "rounding \<Rightarrow> CostModelInput \<Rightarrow> MFunc \<Rightarrow> nat \<Rightarrow> weighted_graph \<Rightarrow> weighted_graph" where
  "setup_bb rnd model f b = fold (setup_instr rnd (block_weights model ! b)) (bb_instrs (mf_bbs f ! b))"

definition node_info :: "CostModelInput \<Rightarrow> f32 list \<Rightarrow> CostGraph \<Rightarrow> nat \<Rightarrow> NodeCostInfo" where
  "node_info model use_weight g node =
     (let uid = node_uid g ! node
      in \<lparr>nc_use_weight = use_weight ! node,
          nc_call_crossings = (case call_crossings model uid of None \<Rightarrow> Fin 0 | Some w \<Rightarrow> w),
          nc_unspillable = (first_spill_temp_id model < virt_id (uid_to_reg uid))\<rparr>)"

definition setup_node :: "rounding \<Rightarrow> CostModelInput \<Rightarrow> f32 list \<Rightarrow> nat \<Rightarrow> CostGraph \<Rightarrow> CostGraph" where
  "setup_node rnd model use_weight node g =
     (if node_concrete g node then g
      else g\<lparr>node_costs := (node_costs g)[node :=
             apply_cost_model rnd (node_kind g ! node) (node_info model use_weight g node) save_classes (node_costs g ! node)]\<rparr>)"

definition setup_costs :: "rounding \<Rightarrow> MFunc \<Rightarrow> CostGraph \<Rightarrow> lifetimes \<Rightarrow> CostModelInput \<Rightarrow> CostGraph" where
  "setup_costs rnd f g lifetimes model =
     (let g = fold setup_reg lifetimes g;
          (g, use_weight) = fold (setup_bb rnd model f) [0..<length (mf_bbs f)] (g, []);
          use_weight = resize (n_nodes g) use_weight
      in fold (setup_node rnd model use_weight) [0..<n_nodes g] g)"

section \<open>From nodes to virtual registers\<close>

text \<open>\<^verbatim>\<open>final_vreg_assignments\<close>: the registers of the virtual nodes that are not spilled; \<^verbatim>\<open>insert\<close> keeps an
  entry that is there.\<close>

type_synonym reg_mapping = "nat \<Rightarrow> CReg option"

definition final_vreg_assignments :: "CostGraph \<Rightarrow> CReg list \<Rightarrow> reg_mapping" where
  "final_vreg_assignments g assignments =
     fold (\<lambda>node m.
       if assignments ! node = CReg_Virtual \<or> node_concrete g node then m
       else let v = virt_id (uid_to_reg (node_uid g ! node))
            in if m v = None then m(v \<mapsto> assignments ! node) else m) [0..<n_nodes g] Map.empty"

definition replace_reg :: "reg_mapping \<Rightarrow> VReg \<Rightarrow> VReg" where
  "replace_reg m r = (case r of ConcR ty c \<Rightarrow> r
     | VirtR ty v \<Rightarrow> (case m v of None \<Rightarrow> r | Some c \<Rightarrow> ConcR ty c))"

definition replace_arg :: "reg_mapping \<Rightarrow> MArgument \<Rightarrow> MArgument" where
  "replace_arg m a = (case ma_type a of
     AT_StackSlot \<Rightarrow> a | AT_Imm \<Rightarrow> a | AT_Label \<Rightarrow> a | AT_MemLabel \<Rightarrow> a | AT_MemImmLabel \<Rightarrow> a | AT_MemImm \<Rightarrow> a
   | AT_VReg \<Rightarrow> a\<lparr>ma_reg := replace_reg m (ma_reg a)\<rparr>
   | AT_MemImmVReg \<Rightarrow> a\<lparr>ma_reg := replace_reg m (ma_reg a)\<rparr>
   | AT_MemVReg \<Rightarrow> a\<lparr>ma_reg := replace_reg m (ma_reg a)\<rparr>
   | AT_MemVRegVRegScale \<Rightarrow> a\<lparr>ma_reg := replace_reg m (ma_reg a), ma_indx := replace_reg m (ma_indx a)\<rparr>
   | AT_MemImmVRegVReg \<Rightarrow> a\<lparr>ma_reg := replace_reg m (ma_reg a), ma_indx := replace_reg m (ma_indx a)\<rparr>
   | AT_MemVRegVReg \<Rightarrow> a\<lparr>ma_reg := replace_reg m (ma_reg a), ma_indx := replace_reg m (ma_indx a)\<rparr>
   | AT_MemImmVRegVRegScale \<Rightarrow> a\<lparr>ma_reg := replace_reg m (ma_reg a), ma_indx := replace_reg m (ma_indx a)\<rparr>
   | AT_MemLabelVregScale \<Rightarrow> a\<lparr>ma_indx := replace_reg m (ma_indx a)\<rparr>
   | AT_MemLabelVreg \<Rightarrow> a\<lparr>ma_indx := replace_reg m (ma_indx a)\<rparr>
   | AT_MemImmVRegScale \<Rightarrow> a\<lparr>ma_indx := replace_reg m (ma_indx a)\<rparr>)"

definition replace_vargs :: "reg_mapping \<Rightarrow> MInstr \<Rightarrow> MInstr" where
  "replace_vargs m x =
     x\<lparr>mi_args := fold (\<lambda>i as. as[i := replace_arg m (as ! i)]) [0..<mi_n_args x] (mi_args x)\<rparr>"

definition replace_vargs_bbs :: "reg_mapping \<Rightarrow> MBB list \<Rightarrow> MBB list" where
  "replace_vargs_bbs m bbs = map (\<lambda>bb. bb\<lparr>bb_instrs := map (replace_vargs m) (bb_instrs bb)\<rparr>) bbs"

section \<open>Coalescing copies\<close>

record Copy =
  cp_dst :: VReg
  cp_src :: VReg
  cp_weight :: f32

text \<open>\<^verbatim>\<open>lifetimes.find\<close> compares register numbers.\<close>

definition lifetime_of :: "lifetimes \<Rightarrow> VReg \<Rightarrow> nat list option" where
  "lifetime_of lifetimes r = map_option snd (find (\<lambda>rc. vreg_eq (fst rc) r) lifetimes)"

definition copy_of :: "lifetimes \<Rightarrow> reg_mapping \<Rightarrow> f32 \<Rightarrow> MInstr \<Rightarrow> Copy list" where
  "copy_of lifetimes assignment weight x =
     (if mi_op x \<noteq> GBase GBase_mov \<or> mi_n_args x \<noteq> 2 \<or> \<not> isReg (mi_args x ! 0) \<or> \<not> isReg (mi_args x ! 1) then []
      else
        (let d = ma_reg (mi_args x ! 0); s = ma_reg (mi_args x ! 1)
         in if is_concrete d \<or> is_concrete s \<or> vreg_eq d s \<or> kind_of d \<noteq> kind_of s
               \<or> assignment (virt_id d) = None \<or> assignment (virt_id s) = None then []
            else case lifetime_of lifetimes d of
                   None \<Rightarrow> []
                 | Some coll \<Rightarrow> if reg_to_uid s \<in> set coll then [] else [\<lparr>cp_dst = d, cp_src = s, cp_weight = weight\<rparr>]))"

definition copies_of :: "MFunc \<Rightarrow> CostModelInput \<Rightarrow> lifetimes \<Rightarrow> reg_mapping \<Rightarrow> Copy list" where
  "copies_of f model lifetimes assignment =
     concat (map (\<lambda>b. concat (map (copy_of lifetimes assignment (block_weights model ! b)) (bb_instrs (mf_bbs f ! b))))
       [0..<length (mf_bbs f)])"

text \<open>\<^verbatim>\<open>std::stable_sort\<close> by falling weight, as an insertion sort from the back: an element goes in front of its
  equals, which came later.\<close>

primrec insert_copy :: "Copy \<Rightarrow> Copy list \<Rightarrow> Copy list" where
  "insert_copy c [] = [c]"
| "insert_copy c (d # ds) = (if cp_weight d \<le> cp_weight c then c # d # ds else d # insert_copy c ds)"

definition sort_copies :: "Copy list \<Rightarrow> Copy list" where
  "sort_copies cs = foldr insert_copy cs []"

text \<open>Whether a neighbour has the register.\<close>

definition taken :: "reg_mapping \<Rightarrow> CReg \<Rightarrow> nat \<Rightarrow> bool" where
  "taken assignment to n =
     (case uid_to_reg n of ConcR _ c \<Rightarrow> c = to | VirtR _ v \<Rightarrow> assignment v = Some to)"

definition try_move :: "CostModelInput \<Rightarrow> lifetimes \<Rightarrow> VReg \<Rightarrow> CReg \<Rightarrow> reg_mapping \<Rightarrow> (bool \<times> reg_mapping) option" where
  "try_move model lifetimes as_vreg to assignment =
     (case assignment (virt_id as_vreg) of
        None \<Rightarrow> None
      | Some from \<Rightarrow>
          if to = CReg_Virtual \<or> dom_local (kind_of as_vreg) ! creg_code to = kNoLocal then Some (False, assignment)
          else if save_classes (creg_code to) \<noteq> save_classes (creg_code from)
                \<and> (case call_crossings model (reg_to_uid as_vreg) of None \<Rightarrow> False | Some w \<Rightarrow> Fin 0 < w) then Some (False, assignment)
          else case lifetime_of lifetimes as_vreg of
                 None \<Rightarrow> None
               | Some coll \<Rightarrow>
                   if \<exists>n \<in> set coll. taken assignment to n then Some (False, assignment)
                   else Some (True, assignment(virt_id as_vreg \<mapsto> to)))"

text \<open>\<^verbatim>\<open>None\<close> is the exception of \<^verbatim>\<open>at\<close>.\<close>

definition coalesce_copy :: "CostModelInput \<Rightarrow> lifetimes \<Rightarrow> Copy \<Rightarrow> bool \<times> reg_mapping \<Rightarrow> (bool \<times> reg_mapping) option" where
  "coalesce_copy model lifetimes c s = do {
     rd \<leftarrow> snd s (virt_id (cp_dst c));
     rs \<leftarrow> snd s (virt_id (cp_src c));
     if rd = rs then Some s
     else do {
       (moved, m) \<leftarrow> try_move model lifetimes (cp_dst c) rs (snd s);
       (moved, m) \<leftarrow> (if moved then Some (True, m) else try_move model lifetimes (cp_src c) rd m);
       Some (fst s \<or> moved, m)
     }
   }"

primrec coalesce_round :: "CostModelInput \<Rightarrow> lifetimes \<Rightarrow> Copy list \<Rightarrow> bool \<times> reg_mapping \<Rightarrow> (bool \<times> reg_mapping) option" where
  "coalesce_round model lifetimes [] s = Some s"
| "coalesce_round model lifetimes (c # cs) s = do { s \<leftarrow> coalesce_copy model lifetimes c s; coalesce_round model lifetimes cs s }"

definition coalesce_copies :: "MFunc \<Rightarrow> CostModelInput \<Rightarrow> lifetimes \<Rightarrow> reg_mapping \<Rightarrow> reg_mapping option" where
  "coalesce_copies f model lifetimes assignment =
     (let copies = copies_of f model lifetimes assignment
      in if copies = [] then Some assignment
         else do {
           (changed, m) \<leftarrow> coalesce_round model lifetimes (sort_copies copies) (False, assignment);
           if \<not> changed then Some m
           else do { (changed, m) \<leftarrow> coalesce_round model lifetimes (sort_copies copies) (False, m); Some m }
         })"

section \<open>The graph that is built\<close>

text \<open>The numbers of registers; \<open>numRegs - 1\<close> is between the concrete and the virtual ones.\<close>

definition uid_ok :: "nat \<Rightarrow> bool" where "uid_ok u \<longleftrightarrow> u < 2 ^ 32 \<and> u \<noteq> numRegs - 1"

lemma uid_ok_reg: "reg_to_uid r < 2 ^ 32 \<Longrightarrow> uid_ok (reg_to_uid r)"
  using creg_code_less[of "c_reg r"] by (cases r) (auto simp: uid_ok_def reg_to_uid_def numRegs_def)

definition built :: "CostGraph \<Rightarrow> bool" where
  "built g \<longleftrightarrow> graph_ok g \<and> set (active g) = {..<n_nodes g} \<and> (\<forall>u \<in> set (node_uid g). uid_ok u)"

definition implicit_edges :: "CostGraph \<Rightarrow> bool" where
  "implicit_edges g \<longleftrightarrow> (\<forall>a b e. adj g a b e \<longrightarrow> cm_cost (edges g ! e) = None)"

lemma built_empty: "built empty_graph" "implicit_edges empty_graph"
proof -
  have none: "\<not> adj empty_graph a b e" for a b e by (simp add: adj_def empty_graph_def n_nodes_def)
  show "implicit_edges empty_graph" using none by (simp add: implicit_edges_def)
  have "nodes_ok empty_graph" by (simp add: nodes_ok_def empty_graph_def n_nodes_def)
  moreover have "active_ok empty_graph" by (simp add: active_ok_def empty_graph_def)
  moreover have "edges_ok empty_graph" unfolding edges_ok_def using none by (simp add: empty_graph_def n_nodes_def)
  ultimately show "built empty_graph" by (simp add: built_def graph_ok_def) (simp add: empty_graph_def n_nodes_def)
qed

lemma built_new:
  assumes "built g" "uid_ok u"
  shows "built (fst (graph_node u g))" "grows g (fst (graph_node u g))"
    "node_of (fst (graph_node u g)) u = Some (snd (graph_node u g))"
proof -
  have g: "graph_ok g" "set (active g) = {..<n_nodes g}" using assms(1) by (simp_all add: built_def)
  show "built (fst (graph_node u g))"
  proof (cases "node_of g u")
    case None
    have "set (active (fst (graph_node u g))) = {..<n_nodes (fst (graph_node u g))}"
      unfolding new_node_props(1,7)[OF None] using g(2) by (simp add: lessThan_Suc)
    moreover have "\<forall>v \<in> set (node_uid (fst (graph_node u g))). uid_ok v"
      using assms unfolding new_node_props(2)[OF None] built_def by auto
    ultimately show ?thesis using graph_ok_new[OF g(1)] assms(2) by (simp add: built_def uid_ok_def)
  qed (simp add: graph_node_old assms(1))
  show "grows g (fst (graph_node u g))" "node_of (fst (graph_node u g)) u = Some (snd (graph_node u g))"
    using grows_new node_of_new graph_okD(1)[OF g(1)] by blast+
qed

lemma implicit_new: "nodes_ok g \<Longrightarrow> implicit_edges g \<Longrightarrow> implicit_edges (fst (graph_node u g))"
  unfolding implicit_edges_def adj_new by (cases "node_of g u") (simp_all add: graph_node_old new_node_props)

lemma built_set_kind:
  assumes "built g" "n < n_nodes g" "kind_fits (node_uid g ! n) k" "\<And>b e. adj g n b e \<Longrightarrow> cm_cost (edges g ! e) = None"
  shows "built (set_kind n k g)" "grows g (set_kind n k g)"
  using graph_ok_set_kind[of g n k] assms by (simp_all add: built_def set_kind_def)

lemma implicit_set_kind: "implicit_edges g \<Longrightarrow> implicit_edges (set_kind n k g)"
  by (simp add: implicit_edges_def set_kind_def adj_def)

lemma node_of_less: "nodes_ok g \<Longrightarrow> node_of g u = Some n \<Longrightarrow> n < n_nodes g \<and> node_uid g ! n = u"
  by (simp add: node_of_iff)

lemma grows_node: "grows g g' \<Longrightarrow> node_of g u = Some n \<Longrightarrow> node_of g' u = Some n"
  by (simp add: grows_def)

text \<open>An edge of plain interference between two registers.\<close>

definition linked :: "CostGraph \<Rightarrow> nat \<Rightarrow> nat \<Rightarrow> bool" where
  "linked g u c \<longleftrightarrow> (\<exists>a b e. node_of g u = Some a \<and> node_of g c = Some b \<and> adj g a b e \<and> cm_cost (edges g ! e) = None)"

lemma linked_grows: "grows g g' \<Longrightarrow> linked g u c \<Longrightarrow> linked g' u c"
  unfolding grows_def linked_def by (metis (no_types, lifting))

lemma setup_edge_ok:
  assumes g: "built g" "implicit_edges g" and u: "node_of g uid = Some node" and c: "uid_ok c"
  shows "built (setup_edge uid node c g) \<and> implicit_edges (setup_edge uid node c g) \<and> grows g (setup_edge uid node c g)
    \<and> (c \<noteq> uid \<longrightarrow> linked (setup_edge uid node c g) uid c)"
proof (cases "c = uid")
  case True
  then show ?thesis using g by (simp add: setup_edge_def)
next
  case ne: False
  obtain g1 other where n: "graph_node c g = (g1, other)" by fastforce
  note b = built_new[OF g(1) c, unfolded n fst_conv snd_conv]
  have ok: "graph_ok g1" and act: "set (active g1) = {..<n_nodes g1}" using b(1) by (simp_all add: built_def)
  have i: "implicit_edges g1" using implicit_new[of g c] g by (simp add: built_def graph_ok_def n)
  have u1: "node_of g1 uid = Some node" using grows_node[OF b(2) u] .
  have lt: "node < n_nodes g1" "other < n_nodes g1" "node \<noteq> other"
    using node_of_less[OF graph_okD(1)[OF ok] u1] node_of_less[OF graph_okD(1)[OF ok] b(3)] ne by auto
  show ?thesis
  proof (cases "has_conn g1 node other")
    case True
    then obtain e where "find_edge g1 node other = Some e" by (auto simp: has_conn_def)
    then have "adj g1 node other e" using graph_okD(3)[OF ok] act lt unfolding edges_ok_def by blast
    then have "linked g1 uid c" using i u1 b(3) unfolding linked_def implicit_edges_def by blast
    then show ?thesis using b i ne True n by (simp add: setup_edge_def Let_def)
  next
    case False
    let ?g = "fst (add_edge node other interference g1)"
    have r: "setup_edge uid node c g = ?g" using False ne n by (simp add: setup_edge_def Let_def)
    have "graph_ok ?g \<and> grows g1 ?g"
      using graph_ok_add_edge[OF ok _ _ lt(3), of interference] act lt False by (simp add: has_conn_def)
    moreover note ad = adj_add_edge[OF graph_okD(1)[OF ok] lt, of interference]
    moreover have "implicit_edges ?g" unfolding implicit_edges_def ad
      using i edge_ok_adj[OF graph_okD(3)[OF ok]] by (auto simp: implicit_edges_def edge_ok_def nth_append interference_def)
    moreover have "linked ?g uid c" unfolding linked_def
      using u1 b(3) ad by (intro exI[of _ node] exI[of _ other] exI[of _ "length (edges g1)"]) (simp add: interference_def)
    ultimately show ?thesis using b(1,2) act grows_trans unfolding r built_def by auto
  qed
qed

lemma setup_edges_ok:
  assumes "built g" "implicit_edges g" "node_of g uid = Some node" "\<forall>c \<in> set cs. uid_ok c"
  shows "built (fold (setup_edge uid node) cs g) \<and> implicit_edges (fold (setup_edge uid node) cs g)
    \<and> grows g (fold (setup_edge uid node) cs g) \<and> (\<forall>c \<in> set cs. c \<noteq> uid \<longrightarrow> linked (fold (setup_edge uid node) cs g) uid c)"
  using assms
proof (induction cs arbitrary: g)
  case (Cons c cs)
  let ?g = "setup_edge uid node c g"
  have s: "built ?g" "implicit_edges ?g" "grows g ?g" "c \<noteq> uid \<longrightarrow> linked ?g uid c"
    using setup_edge_ok[OF Cons.prems(1-3)] Cons.prems(4) by auto
  note IH = Cons.IH[OF s(1,2) grows_node[OF s(3) Cons.prems(3)]]
  show ?case using IH Cons.prems(4) s(3,4) linked_grows grows_trans by simp blast
qed simp

lemma setup_reg_ok:
  assumes g: "built g" "implicit_edges g" and r: "vreg_ok (fst rc)" "reg_to_uid (fst rc) < 2 ^ 32" "\<forall>c \<in> set (snd rc). uid_ok c"
  shows "built (setup_reg rc g) \<and> implicit_edges (setup_reg rc g) \<and> grows g (setup_reg rc g)
    \<and> node_of (setup_reg rc g) (reg_to_uid (fst rc)) \<noteq> None
    \<and> (\<forall>c \<in> set (snd rc). c \<noteq> reg_to_uid (fst rc) \<longrightarrow> linked (setup_reg rc g) (reg_to_uid (fst rc)) c)"
proof -
  let ?u = "reg_to_uid (fst rc)"
  obtain g1 node where n: "graph_node ?u g = (g1, node)" by fastforce
  note b = built_new[OF g(1) uid_ok_reg[OF r(2)], unfolded n fst_conv snd_conv]
  have ok: "graph_ok g1" using b(1) by (simp add: built_def)
  have i: "implicit_edges g1" using implicit_new[of g ?u] g by (simp add: built_def graph_ok_def n)
  have lt: "node < n_nodes g1 \<and> node_uid g1 ! node = ?u" using node_of_less[OF graph_okD(1)[OF ok] b(3)] .
  let ?g = "set_kind node (kind_of (fst rc)) g1"
  have k: "built ?g" "grows g1 ?g"
    using built_set_kind[OF b(1)] lt kind_fits_kind_of[OF r(1)] i by (auto simp: implicit_edges_def)
  have r': "setup_reg rc g = fold (setup_edge ?u node) (snd rc) ?g" by (simp add: setup_reg_def Let_def n)
  have u: "node_of ?g ?u = Some node" using grows_node[OF k(2) b(3)] .
  note e = setup_edges_ok[OF k(1) implicit_set_kind[OF i] u r(3)]
  show ?thesis unfolding r' using e grows_trans[OF b(2) grows_trans[OF k(2)]] grows_node[OF _ u] by blast
qed

definition lifetimes_ok :: "lifetimes \<Rightarrow> bool" where
  "lifetimes_ok L \<longleftrightarrow> (\<forall>(r, cs) \<in> set L. vreg_ok r \<and> reg_to_uid r < 2 ^ 32 \<and> (\<forall>c \<in> set cs. uid_ok c))"

definition links_all :: "CostGraph \<Rightarrow> lifetimes \<Rightarrow> bool" where
  "links_all g L \<longleftrightarrow> (\<forall>(r, cs) \<in> set L. node_of g (reg_to_uid r) \<noteq> None
     \<and> (\<forall>c \<in> set cs. c \<noteq> reg_to_uid r \<longrightarrow> linked g (reg_to_uid r) c))"

lemma links_all_grows: "grows g g' \<Longrightarrow> links_all g L \<Longrightarrow> links_all g' L"
  unfolding links_all_def using linked_grows grows_node by (fastforce split: prod.splits)

lemma setup_regs_ok:
  "built g \<Longrightarrow> implicit_edges g \<Longrightarrow> lifetimes_ok L \<Longrightarrow>
    built (fold setup_reg L g) \<and> implicit_edges (fold setup_reg L g) \<and> grows g (fold setup_reg L g) \<and> links_all (fold setup_reg L g) L"
proof (induction L arbitrary: g)
  case (Cons rc L)
  have r: "vreg_ok (fst rc)" "reg_to_uid (fst rc) < 2 ^ 32" "\<forall>c \<in> set (snd rc). uid_ok c" and L: "lifetimes_ok L"
    using Cons.prems(3) by (auto simp: lifetimes_ok_def split: prod.splits)
  note s = setup_reg_ok[OF Cons.prems(1,2) r]
  have IH: "built (fold setup_reg L (setup_reg rc g)) \<and> implicit_edges (fold setup_reg L (setup_reg rc g))
    \<and> grows (setup_reg rc g) (fold setup_reg L (setup_reg rc g)) \<and> links_all (fold setup_reg L (setup_reg rc g)) L"
    using Cons.IH s L by blast
  have "links_all (setup_reg rc g) [rc]" using s by (cases rc) (simp add: links_all_def)
  then have "links_all (fold setup_reg L (setup_reg rc g)) [rc]" using links_all_grows IH by blast
  then have "links_all (fold setup_reg L (setup_reg rc g)) (rc # L)" using IH by (simp add: links_all_def)
  then show ?case using IH s grows_trans by auto
qed (simp add: links_all_def)

text \<open>The second loop: nodes for the other registers, and discounts.\<close>

lemma adj_new_node:
  assumes "nodes_ok g" "edges_ok g" "node_of g u = None"
  shows "\<not> adj (fst (graph_node u g)) (n_nodes g) b e"
  using adj_new[OF assms(1), of u] adj_less by blast

lemma ensure_node_ok:
  assumes g: "built (fst s)" and u: "reg_to_uid reg < 2 ^ 32"
  shows "built (fst (ensure_node rnd w reg s)) \<and> grows (fst s) (fst (ensure_node rnd w reg s))"
proof (cases "is_concrete reg")
  case True
  then show ?thesis using g by (simp add: ensure_node_def)
next
  case virt: False
  let ?u = "reg_to_uid reg" and ?g = "fst s"
  note ok = g[unfolded built_def, THEN conjunct1]
  have r: "vreg_ok reg" using virt by (cases reg) (simp_all add: vreg_ok_def is_concrete_def)
  have step: "built g' \<Longrightarrow> built (fst (graph_node ?u g')) \<and> grows g' (fst (graph_node ?u g'))" for g'
    using built_new[OF _ uid_ok_reg[OF u]] by blast
  show ?thesis
  proof (cases "node_of ?g ?u")
    case (Some n)
    then show ?thesis using virt g graph_node_old[OF Some] by (simp add: ensure_node_def has_node_of Let_def)
  next
    case None
    note p = new_node_props[OF None]
    let ?g1 = "fst (graph_node ?u ?g)"
    have 1: "built ?g1" "grows ?g ?g1" using step[OF g] by blast+
    have uid: "node_uid ?g1 ! n_nodes ?g = ?u" using nodes_lengths(5)[OF graph_okD(1)[OF ok]] by (simp add: p(2) nth_append)
    have 2: "built (set_kind (n_nodes ?g) (kind_of reg) ?g1)" "grows ?g1 (set_kind (n_nodes ?g) (kind_of reg) ?g1)"
      using built_set_kind[OF 1(1), of "n_nodes ?g" "kind_of reg"] kind_fits_kind_of[OF r] uid
        adj_new_node[OF graph_okD(1)[OF ok] graph_okD(3)[OF ok] None] by (simp_all add: p(1))
    obtain g2 n2 where n2: "graph_node ?u (set_kind (n_nodes ?g) (kind_of reg) ?g1) = (g2, n2)" by fastforce
    obtain g1 where g1: "graph_node ?u ?g = (g1, n_nodes ?g)" using p(10) by (metis prod.collapse)
    have "fst (ensure_node rnd w reg s) = fst (graph_node ?u (set_kind (n_nodes ?g) (kind_of reg) ?g1))"
      using virt None n2 by (simp add: ensure_node_def has_node_of Let_def g1)
    then show ?thesis using step[OF 2(1)] grows_trans[OF 1(2) grows_trans[OF 2(2)]] by simp
  qed
qed

definition grown :: "weighted_graph \<Rightarrow> weighted_graph \<Rightarrow> bool" where
  "grown s s' \<longleftrightarrow> built (fst s') \<and> grows (fst s) (fst s')"

lemma grown_trans: "grown s s' \<Longrightarrow> grown s' s'' \<Longrightarrow> grown s s''"
  unfolding grown_def using grows_trans by blast

lemma grown_refl: "built (fst s) \<Longrightarrow> grown s s"
  by (simp add: grown_def)

lemma ensure_grown: "built (fst s) \<Longrightarrow> reg_to_uid reg < 2 ^ 32 \<Longrightarrow> grown s (ensure_node rnd w reg s)"
  using ensure_node_ok[of s reg rnd w] by (simp add: grown_def)

lemma ensure2_grown: "built (fst s) \<Longrightarrow> reg_to_uid r < 2 ^ 32 \<Longrightarrow> reg_to_uid r' < 2 ^ 32 \<Longrightarrow>
    grown s (ensure_node rnd w r' (ensure_node rnd w r s))"
  using ensure_grown[of s r] ensure_grown[of "ensure_node rnd w r s" r'] grown_trans unfolding grown_def by blast

lemma ensure_arg_grown:
  assumes "built (fst s)" "reg_to_uid (ma_reg a) < 2 ^ 32" "reg_to_uid (ma_indx a) < 2 ^ 32"
  shows "grown s (ensure_arg rnd w a s)"
  using assms by (cases "ma_type a") (simp_all add: ensure_arg_def ensure_grown ensure2_grown grown_refl)

lemma setup_copy_grown:
  assumes g: "built (fst s)" and r: "reg_to_uid (ma_reg (mi_args x ! 0)) < 2 ^ 32" "reg_to_uid (ma_reg (mi_args x ! 1)) < 2 ^ 32"
  shows "grown s (setup_copy rnd x s)"
proof (cases "is_copy x \<and> reg_to_uid (ma_reg (mi_args x ! 0)) \<noteq> reg_to_uid (ma_reg (mi_args x ! 1))")
  case False
  then show ?thesis using g by (auto simp: setup_copy_def Let_def grown_refl)
next
  case True
  let ?u0 = "reg_to_uid (ma_reg (mi_args x ! 0))" and ?u1 = "reg_to_uid (ma_reg (mi_args x ! 1))"
  obtain g1 r0 where g1: "graph_node ?u0 (fst s) = (g1, r0)" by fastforce
  obtain g2 r1 where g2: "graph_node ?u1 g1 = (g2, r1)" by fastforce
  note b1 = built_new[OF g uid_ok_reg[OF r(1)], unfolded g1 fst_conv snd_conv]
  note b2 = built_new[OF b1(1) uid_ok_reg[OF r(2)], unfolded g2 fst_conv snd_conv]
  have ok: "graph_ok g2" "set (active g2) = {..<n_nodes g2}" using b2(1) by (simp_all add: built_def)
  have n: "r0 < n_nodes g2 \<and> node_uid g2 ! r0 = ?u0" "r1 < n_nodes g2 \<and> node_uid g2 ! r1 = ?u1"
    using node_of_less[OF graph_okD(1)[OF ok(1)]] b2(3) grows_node[OF b2(2) b1(3)] by blast+
  then have "r0 \<noteq> r1" using True by auto
  note a = add_copy_discount_ok[OF ok(1) _ _ this, of rnd]
  have "fst (setup_copy rnd x s) = add_copy_discount rnd r0 r1 g2" using True g1 g2 by (simp add: setup_copy_def Let_def)
  moreover have "graph_ok (add_copy_discount rnd r0 r1 g2) \<and> grows g2 (add_copy_discount rnd r0 r1 g2)
    \<and> node_uid (add_copy_discount rnd r0 r1 g2) = node_uid g2 \<and> active (add_copy_discount rnd r0 r1 g2) = active g2"
    using a ok(2) n by simp
  ultimately show ?thesis unfolding grown_def built_def
    using ok(2) b2(1) grows_trans[OF b1(2) grows_trans[OF b2(2)]] by (simp add: n_nodes_def built_def)
qed

lemma fold_grown:
  assumes "\<And>x s. x \<in> set xs \<Longrightarrow> built (fst s) \<Longrightarrow> grown s (f x s)" "built (fst s)"
  shows "grown s (fold f xs s)"
  using assms
proof (induction xs arbitrary: s)
  case (Cons x xs)
  have "grown s (f x s)" using Cons.prems by simp
  moreover then have "grown (f x s) (fold f xs (f x s))" using Cons.prems(1) by (intro Cons.IH) (auto simp: grown_def)
  ultimately show ?case using grown_trans by simp
qed (simp add: grown_refl)

lemma setup_instr_grown:
  assumes "built (fst s)" "args_fit n (mi_args x)" "n \<le> 2 ^ 32" "mi_n_args x \<le> 4"
  shows "grown s (setup_instr rnd w x s)"
proof -
  have r: "reg_to_uid (ma_reg (mi_args x ! k)) < 2 ^ 32" "reg_to_uid (ma_indx (mi_args x ! k)) < 2 ^ 32" if "k < 4" for k
    using assms(2,3) that by (auto simp: args_fit_def dest: less_le_trans)
  have 1: "grown s (fold (\<lambda>i. ensure_arg rnd w (mi_args x ! i)) [0..<mi_n_args x] s)"
    using assms(1,4) r by (intro fold_grown ensure_arg_grown) auto
  then have "grown (fold (\<lambda>i. ensure_arg rnd w (mi_args x ! i)) [0..<mi_n_args x] s) (setup_instr rnd w x s)"
    unfolding setup_instr_def using r by (intro setup_copy_grown) (auto simp: grown_def)
  then show ?thesis using grown_trans[OF 1] by blast
qed

lemma setup_node_ok:
  assumes "built g"
  shows "built (setup_node rnd model uw node g) \<and> grows g (setup_node rnd model uw node g)
    \<and> n_nodes (setup_node rnd model uw node g) = n_nodes g"
proof (cases "node_concrete g node \<or> n_nodes g \<le> node")
  case True
  have "length (node_costs g) = n_nodes g" using nodes_lengths(2) assms by (simp add: built_def graph_ok_def)
  then have "setup_node rnd model uw node g = g" using True by (auto simp: setup_node_def list_update_beyond)
  then show ?thesis using assms by simp
next
  case False
  let ?v = "apply_cost_model rnd (node_kind g ! node) (node_info model uw g node) save_classes (node_costs g ! node)"
  let ?g = "g\<lparr>node_costs := (node_costs g)[node := ?v]\<rparr>"
  have r: "setup_node rnd model uw node g = ?g" using False by (simp add: setup_node_def)
  have g: "graph_ok g" "set (active g) = {..<n_nodes g}" "\<forall>u \<in> set (node_uid g). uid_ok u"
    using assms by (simp_all add: built_def)
  have "length (node_costs g ! node) = kMaxDomain" using graph_okD(1)[OF g(1)] False unfolding nodes_ok_alt by auto
  then have "graph_ok ?g" using graph_ok_costs[OF g(1)] by simp
  moreover have "grows g ?g" by (simp add: grows_def adj_def)
  ultimately show ?thesis using g(2,3) unfolding r built_def by simp
qed

lemma setup_nodes_ok:
  "built g \<Longrightarrow> built (fold (setup_node rnd model uw) ns g) \<and> grows g (fold (setup_node rnd model uw) ns g)"
proof (induction ns arbitrary: g)
  case (Cons n ns)
  have "built (setup_node rnd model uw n g) \<and> grows g (setup_node rnd model uw n g)" using setup_node_ok[OF Cons.prems] by blast
  then show ?case using Cons.IH[of "setup_node rnd model uw n g"] grows_trans by auto
qed simp

text \<open>The instructions of a function name registers whose numbers fit.\<close>

definition regs_fit :: "MFunc \<Rightarrow> bool" where
  "regs_fit f \<longleftrightarrow> n_unique_regs f \<le> 2 ^ 32 \<and> (\<forall>x \<in> set (all_instrs f). args_fit (n_unique_regs f) (mi_args x) \<and> mi_n_args x \<le> 4)"

lemma setup_costs_ok:
  assumes f: "regs_fit f" and L: "lifetimes_ok L"
  shows "built (setup_costs rnd f empty_graph L model) \<and> links_all (setup_costs rnd f empty_graph L model) L"
proof -
  let ?g1 = "fold setup_reg L empty_graph"
  have 1: "built ?g1" "links_all ?g1 L" using setup_regs_ok[OF built_empty L] by blast+
  obtain g2 uw where s2: "fold (setup_bb rnd model f) [0..<length (mf_bbs f)] (?g1, []) = (g2, uw)" by fastforce
  have "grown (?g1, []) (fold (setup_bb rnd model f) [0..<length (mf_bbs f)] (?g1, []))"
  proof (rule fold_grown)
    fix b and s :: weighted_graph
    assume b: "b \<in> set [0..<length (mf_bbs f)]" "built (fst s)"
    have "args_fit (n_unique_regs f) (mi_args x) \<and> mi_n_args x \<le> 4" if "x \<in> set (bb_instrs (mf_bbs f ! b))" for x
      using f b(1) that by (auto simp: regs_fit_def all_instrs_def intro!: bexI[of _ "mf_bbs f ! b"])
    then show "grown s (setup_bb rnd model f b s)"
      unfolding setup_bb_def using b(2) f by (intro fold_grown setup_instr_grown) (auto simp: regs_fit_def)
  qed (simp add: 1)
  then have g2: "built g2" "grows ?g1 g2" unfolding s2 grown_def by simp_all
  from setup_nodes_ok[OF g2(1)] show ?thesis
    using g2(2) 1(2) links_all_grows grows_trans by (simp add: setup_costs_def Let_def s2) blast
qed

end
