(* ===== verification/RegAssignSpec.thy ===== *)
theory RegAssignSpec
  imports RegAssign RegCollSpec
begin

text \<open>
  From the solver's result to the function: the registers \<^verbatim>\<open>RegAlloc2::apply\<close> writes into the operands keep
  interfering registers apart, before and after \<^verbatim>\<open>coalesce_copies\<close>, so the function runs as before.
\<close>

section \<open>Where a register is put\<close>

definition place_of :: "reg_mapping \<Rightarrow> nat \<Rightarrow> nat" where
  "place_of m u = reg_to_uid (replace_reg m (uid_to_reg u))"

lemma place_concrete: "u + 1 < numRegs \<Longrightarrow> place_of m u = u"
  by (simp add: place_of_def uid_to_reg_def replace_reg_def reg_to_uid_def creg_code_of_code)

lemma place_virtual: "place_of m (numRegs + v) = (case m v of None \<Rightarrow> numRegs + v | Some c \<Rightarrow> creg_code c - 1)"
  by (simp add: place_of_def uid_to_reg_def replace_reg_def reg_to_uid_def split: option.split)

lemma uid_cases:
  assumes "uid_ok u"
  obtains "u + 1 < numRegs" | v where "u = numRegs + v"
  using assms that(2)[of "u - numRegs"] unfolding uid_ok_def by (cases "u + 1 < numRegs") (auto intro: that(1))

text \<open>The interference graph and the list it is iterated as.\<close>

definition collisions_listed :: "lifetimes \<Rightarrow> collisions \<Rightarrow> bool" where
  "collisions_listed L m \<longleftrightarrow> lifetimes_ok L \<and> distinct (map (reg_to_uid \<circ> fst) L)
     \<and> m = map_of (map (\<lambda>(r, cs). (reg_to_uid r, set cs)) L) \<and> sym_coll m"

definition set_apart :: "collisions \<Rightarrow> reg_mapping \<Rightarrow> bool" where
  "set_apart m p \<longleftrightarrow> (\<forall>a c. c \<in> nbrs m a \<and> c \<noteq> a \<longrightarrow> place_of p c \<noteq> place_of p a)"

text \<open>The registers of the mapping come from the domains.\<close>

definition allocatable :: "CReg set" where
  "allocatable = set kAllocatableGPRegs \<union> set kAllocatableVecRegs"

definition mapping_ok :: "collisions \<Rightarrow> reg_mapping \<Rightarrow> bool" where
  "mapping_ok m p \<longleftrightarrow> set_apart m p \<and> ran p \<subseteq> allocatable"

lemma nbrs_listed:
  assumes "collisions_listed L m" "c \<in> nbrs m a"
  shows "\<exists>r cs. (r, cs) \<in> set L \<and> reg_to_uid r = a \<and> c \<in> set cs"
proof -
  have "\<exists>s. m a = Some s \<and> c \<in> s" using assms(2) by (auto simp: nbrs_def split: option.splits)
  then obtain s where s: "map_of (map (\<lambda>(r, cs). (reg_to_uid r, set cs)) L) a = Some s" "c \<in> s"
    using assms(1) by (auto simp: collisions_listed_def)
  then have "(a, s) \<in> set (map (\<lambda>(r, cs). (reg_to_uid r, set cs)) L)" by (intro map_of_SomeD)
  then show ?thesis using s(2) by auto
qed

lemma dom_regs_allocatable:
  assumes "k = kind_Gpr \<or> k = kind_Vec" "creg_code c \<in> set (dom_regs k)" "c \<noteq> CReg_Virtual"
  shows "c \<in> allocatable"
  using assms by (cases c) (auto simp: dom_regs_Gpr dom_regs_Vec allocatable_def kAllocatableGPRegs_def kAllocatableVecRegs_def)

lemma allocatable_codes: "c \<in> allocatable \<Longrightarrow> creg_code c \<noteq> 0 \<and> creg_code c \<noteq> 7"
  by (auto simp: allocatable_def kAllocatableGPRegs_def kAllocatableVecRegs_def)

section \<open>The mapping of the solver's assignment\<close>

lemma final_fold:
  assumes g: "nodes_ok g" "\<forall>u \<in> set (node_uid g). uid_ok u" and k: "k \<le> n_nodes g"
  shows "fold (\<lambda>node m.
       if A ! node = CReg_Virtual \<or> node_concrete g node then m
       else let v = virt_id (uid_to_reg (node_uid g ! node))
            in if m v = None then m(v \<mapsto> A ! node) else m) [0..<k] Map.empty v
    = (case node_of g (numRegs + v) of None \<Rightarrow> None | Some n \<Rightarrow> if n < k \<and> A ! n \<noteq> CReg_Virtual then Some (A ! n) else None)"
  using k
proof (induction k arbitrary: v)
  case 0
  then show ?case by (simp split: option.split)
next
  case (Suc k)
  let ?u = "node_uid g ! k"
  have k: "node_of g ?u = Some k" using node_of_iff[OF g(1)] Suc.prems by simp
  have "uid_ok ?u" using g(2) nodes_lengths(5)[OF g(1)] Suc.prems by simp
  then show ?case
  proof (cases rule: uid_cases)
    case 1
    have "node_of g (numRegs + v) \<noteq> Some k"
      using node_of_iff[OF g(1)] 1 Suc.prems by auto
    then show ?thesis using Suc 1 by (auto simp: node_concrete_def uid_is_concrete_def less_Suc_eq split: option.split)
  next
    case (2 w)
    have nc: "\<not> node_concrete g k" using 2 by (simp add: node_concrete_def uid_is_concrete_def)
    have w: "virt_id (uid_to_reg ?u) = w" using 2 by (simp add: uid_to_reg_def)
    have ow: "node_of g (numRegs + w) = Some k" using k 2 by simp
    have "node_of g (numRegs + v) = Some k \<longleftrightarrow> v = w" using node_of_iff[OF g(1)] 2 Suc.prems by auto
    then show ?thesis using Suc.IH[of v] Suc.IH[of w] Suc.prems nc w ow
      by (auto simp: Let_def less_Suc_eq split: option.split)
  qed
qed

lemma final_assignments:
  assumes "built g" "node_uid gf = node_uid g"
  shows "final_vreg_assignments gf A v = (case node_of g (numRegs + v) of None \<Rightarrow> None
    | Some n \<Rightarrow> if A ! n = CReg_Virtual then None else Some (A ! n))"
proof -
  have g: "nodes_ok g" "\<forall>u \<in> set (node_uid g). uid_ok u" using assms(1) by (simp_all add: built_def graph_ok_def)
  have "final_vreg_assignments gf A = final_vreg_assignments g A"
    unfolding final_vreg_assignments_def n_nodes_def node_concrete_def assms(2) ..
  then show ?thesis using final_fold[OF g order_refl, of A v] node_of_less[OF g(1), of "numRegs + v"]
    by (auto simp: final_vreg_assignments_def split: option.split)
qed

text \<open>Where the register of a node is put.\<close>

lemma place_node:
  assumes g: "built g" and gf: "node_uid gf = node_uid g" and n: "node_of g u = Some n"
    and A: "node_concrete g n \<Longrightarrow> creg_code (A ! n) = u + 1"
  shows "place_of (final_vreg_assignments gf A) u = (if A ! n = CReg_Virtual then u else creg_code (A ! n) - 1)"
proof -
  have nn: "n < n_nodes g" "node_uid g ! n = u" using node_of_less[OF _ n] g by (simp_all add: built_def graph_ok_def)
  then have "uid_ok u" using g by (auto simp: built_def n_nodes_def)
  then show ?thesis
  proof (cases rule: uid_cases)
    case 1
    then have "creg_code (A ! n) = u + 1" using A nn by (simp add: node_concrete_def uid_is_concrete_def)
    then show ?thesis using place_concrete[OF 1] by auto
  next
    case (2 v)
    then show ?thesis using n by (simp add: place_virtual final_assignments[OF g gf])
  qed
qed

lemma ecost_none: "cm_cost m = None \<Longrightarrow> ecost m lo x y = (if x = y \<and> 1 \<le> x then Inf else Fin 0)"
  by (cases lo) (auto simp: ecost_def get_cost_def Let_def)

lemma spilled_virtual:
  assumes g: "built g" and conc: "\<And>n. n < n_nodes g \<Longrightarrow> node_concrete g n \<Longrightarrow> creg_code (A ! n) = node_uid g ! n + 1"
    and w: "node_of g w = Some k" "A ! k = CReg_Virtual"
  shows "numRegs \<le> w"
proof -
  have n: "k < n_nodes g" "node_uid g ! k = w" using node_of_less[OF _ w(1)] g by (simp_all add: built_def graph_ok_def)
  then have "uid_ok w" using g by (auto simp: built_def n_nodes_def)
  then show ?thesis
  proof (cases rule: uid_cases)
    case 1
    then show ?thesis using conc[OF n(1)] n(2) w(2) by (simp add: node_concrete_def uid_is_concrete_def)
  qed simp
qed

lemma allocation_apart:
  assumes g: "built g" and m: "minimize_graph rnd g = Some (gf, st)" and a: "actually_allocate rnd gf st = Some (A, sp)"
    and L: "collisions_listed L coll" "links_all g L"
  shows "mapping_ok coll (final_vreg_assignments gf A)"
proof -
  have ok: "graph_ok g" "set (active g) = {..<n_nodes g}" using g by (simp_all add: built_def)
  obtain A' where A': "actually_allocate rnd gf st = Some (A', spilled_uids g A' st)" "length A' = n_nodes g" "in_domains g A'"
    "respects_edges g A'" "\<forall>a < n_nodes g. a \<notin> sr_node ` set st \<longrightarrow> A' ! a = initial_assignments gf ! a"
    "sr_node ` set st = {a \<in> set (active g). \<not> node_concrete g a}"
    using actually_allocate_sound[OF ok(1) m] by blast
  have A: "A' = A" using A'(1) a by simp
  have gf: "node_uid gf = node_uid g" "node_kind gf = node_kind g" using minimize_all[OF ok(1) m] by blast+
  let ?p = "final_vreg_assignments gf A"
  have conc: "creg_code (A ! n) = node_uid g ! n + 1" if "n < n_nodes g" "node_concrete g n" for n
  proof -
    have "initial_assignments gf = initial_assignments g"
      unfolding initial_assignments_def n_nodes_def node_concrete_def gf(1) ..
    then show ?thesis using A'(5,6) that initial_code(1)[OF graph_okD(1)[OF ok(1)] that] unfolding A by simp
  qed
  have place: "place_of ?p u = (if A ! n = CReg_Virtual then u else creg_code (A ! n) - 1)" if "node_of g u = Some n" for u n
    using place_node[OF g gf(1) that] conc node_of_less[OF graph_okD(1)[OF ok(1)] that] by blast
  have "place_of ?p c \<noteq> place_of ?p u" if c: "c \<in> nbrs coll u" "c \<noteq> u" for c u
  proof -
    obtain r cs where "(r, cs) \<in> set L" "reg_to_uid r = u" "c \<in> set cs" using nbrs_listed[OF L(1) c(1)] by blast
    then have "linked g u c" using L(2) c(2) unfolding links_all_def by blast
    then obtain a b e where ab: "node_of g u = Some a" "node_of g c = Some b" "adj g a b e" "cm_cost (edges g ! e) = None"
      unfolding linked_def by blast
    have n: "a < n_nodes g \<and> node_uid g ! a = u" "b < n_nodes g \<and> node_uid g ! b = c"
      using node_of_less[OF graph_okD(1)[OF ok(1)]] ab(1,2) by blast+
    have pos: "1 \<le> creg_code (A ! k) \<and> creg_code (A ! k) < numRegs" if "A ! k \<noteq> CReg_Virtual" for k
      using creg_code_pos[OF that] creg_code_less[of "A ! k"] by simp
    have virt: "numRegs \<le> w" if "node_of g w = Some k" "A ! k = CReg_Virtual" for w k
      using spilled_virtual[OF g conc that] .
    show ?thesis
    proof (cases "A ! a = CReg_Virtual \<or> A ! b = CReg_Virtual")
      case True
      then show ?thesis using place[OF ab(1)] place[OF ab(2)] virt[OF ab(1)] virt[OF ab(2)] pos[of a] pos[of b] c(2) by auto
    next
      case False
      have "creg_code (A ! a) \<noteq> creg_code (A ! b)"
      proof (cases "node_concrete g a \<and> node_concrete g b")
        case True
        then show ?thesis using conc n c(2) by auto
      next
        case nc: False
        then have "ecost (edges g ! e) (a < b) (creg_code (A ! a)) (creg_code (A ! b)) \<noteq> Inf"
          using A'(4) ab(3) False unfolding A respects_edges_def by blast
        then show ?thesis using pos[of a] False unfolding ecost_none[OF ab(4)] by auto
      qed
      then show ?thesis using place[OF ab(1)] place[OF ab(2)] pos[of a] pos[of b] False by auto
    qed
  qed
  then have "set_apart coll ?p" by (simp add: set_apart_def)
  moreover have "ran ?p \<subseteq> allocatable"
  proof
    fix c assume "c \<in> ran ?p"
    then obtain v where "?p v = Some c" by (auto simp: ran_def)
    then obtain n where v: "node_of g (numRegs + v) = Some n" "A ! n = c" "c \<noteq> CReg_Virtual"
      using final_assignments[OF g gf(1), of A v] by (auto split: option.splits if_splits)
    have n: "n < n_nodes g" "node_uid g ! n = numRegs + v" using node_of_less[OF graph_okD(1)[OF ok(1)] v(1)] by blast+
    have "kind_fits (numRegs + v) (node_kind g ! n)" using graph_okD(1)[OF ok(1)] n unfolding nodes_ok_alt by auto
    then have "node_kind g ! n = kind_Gpr \<or> node_kind g ! n = kind_Vec" by (simp add: kind_fits_def uid_is_concrete_def)
    moreover have "creg_code c \<in> regs_of g n" using A'(3) ok(2) n(1) v(2) unfolding A in_domains_def by blast
    ultimately show "c \<in> allocatable" using dom_regs_allocatable v(3) by blast
  qed
  ultimately show ?thesis by (simp add: mapping_ok_def)
qed

section \<open>Coalescing\<close>

lemma listed_key:
  assumes L: "collisions_listed L coll" and rc: "(r, cs) \<in> set L"
  shows "nbrs coll (reg_to_uid r) = set cs"
proof -
  let ?l = "map (\<lambda>(r, cs). (reg_to_uid r, set cs)) L"
  have "map fst ?l = map (reg_to_uid \<circ> fst) L" by (auto split: prod.splits)
  moreover have "distinct (map (reg_to_uid \<circ> fst) L)" using L by (simp add: collisions_listed_def)
  ultimately have "distinct (map fst ?l)" by metis
  moreover have "(reg_to_uid r, set cs) \<in> set ?l" using rc by force
  ultimately have "map_of ?l (reg_to_uid r) = Some (set cs)" by (rule map_of_is_SomeI)
  then show ?thesis using L by (simp add: collisions_listed_def nbrs_def)
qed

lemma lifetime_nbrs:
  assumes L: "collisions_listed L coll" and l: "lifetime_of L r = Some cs"
  shows "nbrs coll (reg_to_uid r) = set cs"
proof -
  obtain rc where "find (\<lambda>rc. vreg_eq (fst rc) r) L = Some rc" "snd rc = cs" using l by (auto simp: lifetime_of_def)
  then obtain r' where r': "(r', cs) \<in> set L" "vreg_eq r' r"
    unfolding find_Some_iff by (metis nth_mem prod.collapse)
  show ?thesis using listed_key[OF L r'(1)] reg_to_uid_eq[OF r'(2)] by simp
qed

lemma nbrs_uid_ok: "collisions_listed L coll \<Longrightarrow> c \<in> nbrs coll a \<Longrightarrow> uid_ok c"
  using nbrs_listed[of L coll c a] by (auto simp: collisions_listed_def lifetimes_ok_def)

lemma taken_place:
  assumes "uid_ok n" "to \<noteq> CReg_Virtual" "\<not> taken p to n" "CReg_Virtual \<notin> ran p"
  shows "place_of p n \<noteq> creg_code to - 1"
proof -
  have pos: "c \<noteq> CReg_Virtual \<Longrightarrow> 1 \<le> creg_code c" for c using creg_code_pos[of c] by simp
  have eq: "c \<noteq> CReg_Virtual \<Longrightarrow> creg_code c - 1 = creg_code to - 1 \<Longrightarrow> c = to" for c
    using pos[of c] pos[OF assms(2)] creg_code_inj[of c to] by simp
  show ?thesis using assms(1)
  proof (cases rule: uid_cases)
    case 1
    then have n: "uid_to_reg n = ConcR Ty_Int64 (creg_of_code (n + 1))" "creg_code (creg_of_code (n + 1)) = n + 1"
      by (simp_all add: uid_to_reg_def creg_code_of_code)
    then have "creg_of_code (n + 1) \<noteq> to" using assms(3) by (simp add: taken_def)
    then show ?thesis using place_concrete[OF 1] n(2) creg_code_inj[of "creg_of_code (n + 1)" to] pos[OF assms(2)] by auto
  next
    case (2 v)
    then have nt: "p v \<noteq> Some to" using assms(3) by (simp add: taken_def uid_to_reg_def)
    show ?thesis
    proof (cases "p v")
      case None
      then show ?thesis using 2 creg_code_less[of to] pos[OF assms(2)] by (simp add: place_virtual)
    next
      case (Some c)
      then have "c \<noteq> CReg_Virtual" "c \<noteq> to" using assms(4) nt by (auto simp: ran_def)
      then show ?thesis using 2 Some eq by (auto simp: place_virtual)
    qed
  qed
qed

lemma place_update: "uid_ok n \<Longrightarrow> n \<noteq> numRegs + v \<Longrightarrow> place_of (p(v \<mapsto> c)) n = place_of p n"
  by (erule uid_cases) (auto simp: place_concrete place_virtual)

lemma move_apart:
  assumes L: "collisions_listed L coll" and p: "mapping_ok coll p" and r: "r = VirtR ty v" "lifetime_of L r = Some cs"
    and to: "to \<in> allocatable" "\<forall>n \<in> set cs. \<not> taken p to n"
  shows "mapping_ok coll (p(v \<mapsto> to))"
proof -
  have u: "reg_to_uid r = numRegs + v" using r(1) by (simp add: reg_to_uid_def)
  note nb = lifetime_nbrs[OF L r(2), unfolded u]
  have nz: "to \<noteq> CReg_Virtual" "CReg_Virtual \<notin> ran p"
    using to(1) p allocatable_codes[of CReg_Virtual] by (auto simp: mapping_ok_def)
  have sym: "c \<in> nbrs coll a \<longleftrightarrow> a \<in> nbrs coll c" for a c using L unfolding collisions_listed_def sym_coll_def by blast
  have new: "place_of (p(v \<mapsto> to)) (numRegs + v) = creg_code to - 1" by (simp add: place_virtual)
  have away: "place_of (p(v \<mapsto> to)) c \<noteq> creg_code to - 1" if "c \<in> nbrs coll (numRegs + v)" "c \<noteq> numRegs + v" for c
    using taken_place[OF nbrs_uid_ok[OF L that(1)] nz(1) _ nz(2)] to(2) that nb place_update[OF nbrs_uid_ok[OF L that(1)] that(2)]
    by auto
  have "place_of (p(v \<mapsto> to)) c \<noteq> place_of (p(v \<mapsto> to)) a" if c: "c \<in> nbrs coll a" "c \<noteq> a" for a c
  proof -
    have a: "a \<in> nbrs coll c" using sym c(1) by blast
    consider "a = numRegs + v" | "c = numRegs + v" | "a \<noteq> numRegs + v" "c \<noteq> numRegs + v" by blast
    then show ?thesis
    proof cases
      case 1
      then show ?thesis using away c new by simp
    next
      case 2
      then show ?thesis using away[of a] a c(2) new by auto
    next
      case 3
      then show ?thesis using place_update nbrs_uid_ok[OF L c(1)] nbrs_uid_ok[OF L a] p c
        by (simp add: mapping_ok_def set_apart_def)
    qed
  qed
  then have "set_apart coll (p(v \<mapsto> to))" by (simp add: set_apart_def)
  moreover have "ran (p(v \<mapsto> to)) \<subseteq> allocatable" using p to(1) by (auto simp: mapping_ok_def ran_def)
  ultimately show ?thesis by (simp add: mapping_ok_def)
qed

text \<open>A copy that \<^verbatim>\<open>coalesce_copies\<close> works on: two virtual registers with an assignment and a lifetime.\<close>

definition movable :: "lifetimes \<Rightarrow> reg_mapping \<Rightarrow> VReg \<Rightarrow> bool" where
  "movable L p r \<longleftrightarrow> \<not> is_concrete r \<and> p (virt_id r) \<noteq> None \<and> lifetime_of L r \<noteq> None"

definition copy_ok :: "lifetimes \<Rightarrow> reg_mapping \<Rightarrow> Copy \<Rightarrow> bool" where
  "copy_ok L p c \<longleftrightarrow> movable L p (cp_dst c) \<and> movable L p (cp_src c)"

lemma kind_of_virtual: "\<not> is_concrete r \<Longrightarrow> kind_of r = kind_Gpr \<or> kind_of r = kind_Vec"
  by (simp add: kind_of_def)

lemma try_move_ok:
  assumes L: "collisions_listed L coll" and p: "mapping_ok coll p" and r: "movable L p r"
  shows "\<exists>b p'. try_move model L r to p = Some (b, p') \<and> mapping_ok coll p' \<and> dom p' = dom p"
proof -
  obtain ty v where rv: "r = VirtR ty v" using r by (cases r) (simp_all add: movable_def is_concrete_def)
  obtain fr cs where fc: "p v = Some fr" "lifetime_of L r = Some cs" using r rv by (auto simp: movable_def)
  show ?thesis
  proof (cases "to = CReg_Virtual \<or> dom_local (kind_of r) ! creg_code to = kNoLocal")
    case True
    then show ?thesis using p fc rv by (auto simp: try_move_def)
  next
    case ok: False
    have k: "kind_of r = kind_Gpr \<or> kind_of r = kind_Vec" using kind_of_virtual r by (simp add: movable_def)
    then have "kind_of r < kind_N" by (auto simp: kind_Gpr_def kind_Vec_def)
    then have "creg_code to \<in> set (dom_regs (kind_of r))" using dom_local_out creg_code_less ok by blast
    then have to: "to \<in> allocatable" using dom_regs_allocatable[OF k] ok by blast
    show ?thesis
    proof (cases "\<exists>n \<in> set cs. taken p to n")
      case True
      then show ?thesis using p fc rv ok by (auto simp: try_move_def)
    next
      case False
      have "mapping_ok coll (p(v \<mapsto> to))" using move_apart[OF L p rv fc(2) to] False by blast
      then show ?thesis using p fc rv ok False by (auto simp: try_move_def)
    qed
  qed
qed

lemma copy_ok_dom: "dom p' = dom p \<Longrightarrow> copy_ok L p c \<Longrightarrow> copy_ok L p' c"
  unfolding copy_ok_def movable_def dom_def by blast

lemma coalesce_copy_ok:
  assumes L: "collisions_listed L coll" and p: "mapping_ok coll p" and c: "copy_ok L p c"
  shows "\<exists>b' p'. coalesce_copy model L c (b, p) = Some (b', p') \<and> mapping_ok coll p' \<and> dom p' = dom p"
proof -
  obtain rd rs where r: "p (virt_id (cp_dst c)) = Some rd" "p (virt_id (cp_src c)) = Some rs"
    using c by (auto simp: copy_ok_def movable_def)
  show ?thesis
  proof (cases "rd = rs")
    case True
    then show ?thesis using r p by (simp add: coalesce_copy_def)
  next
    case False
    obtain b1 p1 where 1: "try_move model L (cp_dst c) rs p = Some (b1, p1)" "mapping_ok coll p1" "dom p1 = dom p"
      using try_move_ok[OF L p] c unfolding copy_ok_def by blast
    have "movable L p1 (cp_src c)" using copy_ok_dom[OF 1(3) c] by (simp add: copy_ok_def)
    then obtain b2 p2 where 2: "try_move model L (cp_src c) rd p1 = Some (b2, p2)" "mapping_ok coll p2" "dom p2 = dom p1"
      using try_move_ok[OF L 1(2)] by blast
    show ?thesis
    proof (cases b1)
      case True
      then show ?thesis using 1 r False by (intro exI[of _ True] exI[of _ p1]) (simp add: coalesce_copy_def)
    next
      case b1: False
      then show ?thesis using 1 2 r False by (intro exI[of _ "b \<or> b2"] exI[of _ p2]) (simp add: coalesce_copy_def)
    qed
  qed
qed

lemma coalesce_round_ok:
  "collisions_listed L coll \<Longrightarrow> mapping_ok coll p \<Longrightarrow> \<forall>c \<in> set cs. copy_ok L p c \<Longrightarrow>
    \<exists>b' p'. coalesce_round model L cs (b, p) = Some (b', p') \<and> mapping_ok coll p' \<and> dom p' = dom p"
proof (induction cs arbitrary: b p)
  case (Cons c cs)
  obtain b1 p1 where 1: "coalesce_copy model L c (b, p) = Some (b1, p1)" "mapping_ok coll p1" "dom p1 = dom p"
    using coalesce_copy_ok[OF Cons.prems(1,2)] Cons.prems(3) by (meson list.set_intros(1))
  then have "\<forall>c \<in> set cs. copy_ok L p1 c" using Cons.prems(3) copy_ok_dom by auto
  then obtain b2 p2 where "coalesce_round model L cs (b1, p1) = Some (b2, p2)" "mapping_ok coll p2" "dom p2 = dom p1"
    using Cons.IH[OF Cons.prems(1) 1(2)] by blast
  then show ?case using 1 by simp
qed simp

lemma set_sort_copies [simp]: "set (sort_copies cs) = set cs"
proof -
  have "set (insert_copy c ds) = insert c (set ds)" for c ds by (induction ds) auto
  then show ?thesis by (induction cs) (simp_all add: sort_copies_def)
qed

text \<open>The registers of the moves have lifetimes.\<close>

definition moves_listed :: "MFunc \<Rightarrow> lifetimes \<Rightarrow> bool" where
  "moves_listed f L \<longleftrightarrow> (\<forall>x \<in> set (all_instrs f). mi_op x = GBase GBase_mov \<and> mi_n_args x = 2 \<and> isReg (mi_args x ! 1)
     \<and> \<not> is_concrete (ma_reg (mi_args x ! 1)) \<longrightarrow> lifetime_of L (ma_reg (mi_args x ! 1)) \<noteq> None)"

lemma copies_ok:
  assumes "moves_listed f L" "c \<in> set (copies_of f model L p)"
  shows "copy_ok L p c"
proof -
  obtain b x where b: "b < length (mf_bbs f)" "x \<in> set (bb_instrs (mf_bbs f ! b))"
    "c \<in> set (copy_of L p (block_weights model ! b) x)"
    using assms(2) by (auto simp: copies_of_def)
  then have "x \<in> set (all_instrs f)" by (auto simp: all_instrs_def intro!: bexI[of _ "mf_bbs f ! b"])
  then show ?thesis using assms(1) b(3)
    by (auto simp: moves_listed_def copy_of_def Let_def copy_ok_def movable_def split: if_splits option.splits)
      (metis not_Some_eq)
qed

lemma coalesce_copies_ok:
  assumes L: "collisions_listed L coll" and p: "mapping_ok coll p" and f: "moves_listed f L"
  shows "\<exists>p'. coalesce_copies f model L p = Some p' \<and> mapping_ok coll p' \<and> dom p' = dom p"
proof -
  let ?cs = "sort_copies (copies_of f model L p)"
  have c: "\<forall>c \<in> set ?cs. copy_ok L p c" using copies_ok[OF f] by simp
  obtain b1 p1 where 1: "coalesce_round model L ?cs (False, p) = Some (b1, p1)" "mapping_ok coll p1" "dom p1 = dom p"
    using coalesce_round_ok[OF L p c] by blast
  have "\<forall>c \<in> set ?cs. copy_ok L p1 c" using c copy_ok_dom[OF 1(3)] by blast
  then obtain b2 p2 where "coalesce_round model L ?cs (False, p1) = Some (b2, p2)" "mapping_ok coll p2" "dom p2 = dom p1"
    using coalesce_round_ok[OF L 1(2)] by blast
  then show ?thesis using 1 p by (simp add: coalesce_copies_def Let_def)
qed

end
