(* ===== verification/RegCollMap.thy ===== *)
theory RegCollMap
  imports RegColl
begin

text \<open>
  The keys of the interference graph: \<^verbatim>\<open>reg_coll\<close> has an entry for every register an operand of the
  function names, and mentions no number that is not one of a register of the function.
\<close>

section \<open>Steps on the map\<close>

definition fun_uids :: "nat \<Rightarrow> nat set" where "fun_uids n = reg_uids \<inter> {..<n}"

definition keys_ok :: "nat \<Rightarrow> collisions \<Rightarrow> bool" where
  "keys_ok n m \<longleftrightarrow> dom m \<subseteq> fun_uids n \<and> \<Union> (ran m) \<subseteq> fun_uids n"

definition map_step :: "nat \<Rightarrow> collisions \<Rightarrow> collisions \<Rightarrow> bool" where
  "map_step n m m' \<longleftrightarrow> dom m \<subseteq> dom m' \<and> (keys_ok n m \<longrightarrow> keys_ok n m')"

lemma map_step_refl [simp]: "map_step n m m"
  by (simp add: map_step_def)

lemma map_step_trans [trans]: "map_step n m m' \<Longrightarrow> map_step n m' m'' \<Longrightarrow> map_step n m m''"
  unfolding map_step_def by blast

lemma map_step_fold: "(\<And>x m. x \<in> set xs \<Longrightarrow> map_step n m (g x m)) \<Longrightarrow> map_step n m (fold g xs m)"
proof (induction xs arbitrary: m)
  case (Cons x xs)
  have "map_step n m (g x m)" "map_step n (g x m) (fold g xs (g x m))" using Cons by simp_all
  then show ?case using map_step_trans by simp
qed simp

lemma fun_uids_reg: "reg_to_uid r < n \<Longrightarrow> reg_to_uid r \<in> fun_uids n"
  by (simp add: fun_uids_def)

lemma coll_at_sub: "keys_ok n m \<Longrightarrow> coll_at m r \<subseteq> fun_uids n"
  by (auto simp: keys_ok_def coll_at_def ran_def split: option.split)

lemma keys_ok_upd: "keys_ok n m \<Longrightarrow> a \<in> fun_uids n \<Longrightarrow> s \<subseteq> fun_uids n \<Longrightarrow> keys_ok n (m(a \<mapsto> s))"
  unfolding keys_ok_def ran_def by (auto split: if_splits) blast

lemma step_touch: "reg_to_uid r < n \<Longrightarrow> map_step n m (coll_touch r m)"
  using coll_at_sub[of n m r] by (auto simp: map_step_def coll_touch_def fun_uids_reg intro!: keys_ok_upd)

lemma step_insert: "reg_to_uid r < n \<Longrightarrow> k \<in> fun_uids n \<Longrightarrow> map_step n m (coll_insert r k m)"
  using coll_at_sub[of n m r] by (auto simp: map_step_def coll_insert_def fun_uids_reg intro!: keys_ok_upd)

lemma step_pair: "reg_to_uid v < n \<Longrightarrow> reg_to_uid w < n \<Longrightarrow> map_step n m (coll_pair v w m)"
  unfolding coll_pair_def by (blast intro: map_step_trans step_insert fun_uids_reg)

lemma step_back: "k \<in> fun_uids n \<Longrightarrow> j \<in> fun_uids n \<Longrightarrow> map_step n m (coll_insert (uid_to_reg k) j m)"
  by (rule step_insert) (simp_all add: fun_uids_def uid_valid)

lemma step_edges:
  assumes "reg_to_uid w < n" "bs_alpha live \<subseteq> fun_uids n"
  shows "map_step n m (coll_edges w live m)"
  unfolding coll_edges_def
proof (rule map_step_fold)
  fix r m assume "r \<in> set (bs_elems live)"
  then have r: "r \<in> fun_uids n" using assms(2) bs_elems_alpha(1) by blast
  show "map_step n m (coll_insert w r (coll_insert (uid_to_reg r) (reg_to_uid w) m))"
    using step_insert[OF assms(1) r] step_back[OF r fun_uids_reg[OF assms(1)]] map_step_trans by blast
qed

lemma step_edges2:
  assumes "reg_to_uid v < n" "reg_to_uid w < n" "bs_alpha live \<subseteq> fun_uids n"
  shows "map_step n m (coll_edges2 v w live m)"
  unfolding coll_edges2_def
proof (rule map_step_fold)
  fix r m assume "r \<in> set (bs_elems live)"
  then have r: "r \<in> fun_uids n" using assms(3) bs_elems_alpha(1) by blast
  let ?m1 = "coll_insert (uid_to_reg r) (reg_to_uid v) m"
  let ?m2 = "coll_insert (uid_to_reg r) (reg_to_uid w) ?m1"
  have "map_step n m ?m1" using step_back[OF r fun_uids_reg[OF assms(1)]] .
  also have "map_step n ?m1 ?m2" using step_back[OF r fun_uids_reg[OF assms(2)]] .
  also have "map_step n ?m2 (coll_insert v r ?m2)" using step_insert[OF assms(1) r] .
  also have "map_step n (coll_insert v r ?m2) (coll_insert w r (coll_insert v r ?m2))" using step_insert[OF assms(2) r] .
  finally show "map_step n m (coll_insert w r (coll_insert v r ?m2))" .
qed

section \<open>Steps of the walk\<close>

abbreviation cs_step :: "nat \<Rightarrow> coll_state \<Rightarrow> coll_state \<Rightarrow> bool" where
  "cs_step n s s' \<equiv> map_step n (cs_ranges s) (cs_ranges s')"

lemma coll_inv_live: "coll_inv n s \<Longrightarrow> bs_alpha (cs_live s) \<subseteq> fun_uids n"
  using bs_alpha_bound[of n "cs_live s"] by (auto simp: coll_inv_def fun_uids_def)

lemma coll_use_reg_keys: "coll_inv n s \<Longrightarrow> reg_to_uid r < n \<Longrightarrow> cs_step n s (coll_use_reg r s)"
  by (simp add: coll_use_reg_def step_edges coll_inv_live)

lemma coll_use_regs_keys: "coll_inv n s \<Longrightarrow> reg_to_uid v < n \<Longrightarrow> reg_to_uid w < n \<Longrightarrow> cs_step n s (coll_use_regs v w s)"
  using map_step_trans[OF step_edges2[OF _ _ coll_inv_live] step_pair] by (simp add: coll_use_regs_def)

lemma coll_use_keys: "coll_inv n s \<Longrightarrow> arg_in n (snd d) \<Longrightarrow> cs_step n s (coll_use d s)"
  by (cases "ma_type (snd d)") (simp_all add: coll_use_def Let_def arg_in_def coll_use_reg_keys coll_use_regs_keys)

lemma coll_use_mem_keys: "coll_inv n s \<Longrightarrow> arg_in n (snd d) \<Longrightarrow> cs_step n s (coll_use_mem d s)"
  by (cases "ma_type (snd d)") (simp_all add: coll_use_mem_def Let_def arg_in_def coll_use_reg_keys coll_use_regs_keys)

lemma coll_def_keys: "coll_inv n s \<Longrightarrow> arg_in n (snd d) \<Longrightarrow> cs_step n s (coll_def d s)"
  by (simp add: coll_def_def arg_in_def step_edges coll_inv_live)

lemma coll_fold_keys:
  assumes "\<And>d s. d \<in> set ds \<Longrightarrow> coll_inv n s \<Longrightarrow> coll_inv n (g d s) \<and> cs_step n s (g d s)" "coll_inv n s"
  shows "cs_step n s (fold g ds s)"
  using assms
proof (induction ds arbitrary: s)
  case (Cons d ds)
  have "coll_inv n (g d s) \<and> cs_step n s (g d s)" using Cons.prems by simp
  moreover then have "cs_step n (g d s) (fold g ds (g d s))" using Cons.prems(1) by (intro Cons.IH) simp_all
  ultimately show ?case using map_step_trans by (simp, blast)
qed simp

lemma coll_call_arg_keys [simp]: "cs_ranges (coll_call_arg y s) = cs_ranges s"
  by (simp add: coll_call_arg_def)

lemma coll_quiet_keys [simp]: "cs_ranges (coll_jump x out s) = cs_ranges s" "cs_ranges (coll_cross x b s) = cs_ranges s"
  "cs_ranges (coll_call x ys s) = cs_ranges s"
proof -
  show "cs_ranges (coll_jump x out s) = cs_ranges s" "cs_ranges (coll_cross x b s) = cs_ranges s"
    by (simp_all add: coll_jump_def coll_cross_def)
  have "cs_ranges (fold coll_call_arg zs s) = cs_ranges s" for zs by (induction zs arbitrary: s) simp_all
  then show "cs_ranges (coll_call x ys s) = cs_ranges s" by (simp add: coll_call_def)
qed

lemma coll_abs_keys: "code_fits n x \<Longrightarrow> cs_step n s (coll_abs x s)"
  using code_fits_in[of n x "mi_args x ! 0"] code_fits_in[of n x "mi_args x ! 1"]
  by (simp add: coll_abs_def arg_in_def step_pair)

lemma coll_ret_setup_keys:
  assumes "code_fits n x" "\<forall>y \<in> set ys. code_fits n y"
  shows "cs_step n s (coll_ret_setup x ys s)"
proof -
  have "reg_to_uid (ma_reg (mi_args x ! 0)) < n" using code_fits_in[OF assms(1), of "mi_args x ! 0"] by (simp add: arg_in_def)
  moreover have "reg_to_uid (ma_reg (mi_args y ! Suc 0)) < n"
    if "y \<in> set (takeWhile (\<lambda>y. mi_op y = GBase GBase_ret_setup) ys)" for y
    using code_fits_in[of n y "mi_args y ! 1"] assms(2) set_takeWhileD[OF that] by (simp add: arg_in_def)
  ultimately show ?thesis
    by (auto simp: coll_ret_setup_def intro!: map_step_fold step_pair)
qed

lemma coll_instr_keys:
  assumes inv: "coll_inv n s" and out: "bs_ok n out" "bs_alpha out \<subseteq> reg_uids"
    and code: "\<forall>y \<in> set xs. code_fits n y" and i: "i < length xs"
  shows "cs_step n s (coll_instr b out xs i s)"
proof -
  let ?x = "xs ! i"
  define s3 where "s3 = coll_ret_setup ?x (drop (Suc i) xs) (coll_cross ?x b (coll_jump ?x out s))"
  define s4 where "s4 = fold coll_def (written_args ?x) s3"
  define s6 where "s6 = coll_abs ?x (coll_call ?x (rev (take i xs)) s4)"
  define s7 where "s7 = fold coll_use_mem (written_args ?x) s6"
  have res: "coll_instr b out xs i s = fold coll_use (read_args ?x) s7"
    by (simp add: coll_instr_def Let_def s3_def s4_def s6_def s7_def)
  have x: "code_fits n ?x" using code i by simp
  then have ops: "\<And>a. a \<in> operands ?x \<Longrightarrow> arg_in n a" and n4: "mi_n_args ?x \<le> 4"
    by (simp_all add: code_fits_in) (simp add: code_fits_def)
  have w: "d \<in> set (written_args ?x) \<Longrightarrow> arg_in n (snd d)" for d using ops written_args_in by blast
  have 2: "coll_inv n (coll_cross ?x b (coll_jump ?x out s))"
    using coll_quiet(1)[OF inv out, of ?x] coll_quiet(2)[of n "coll_jump ?x out s" ?x b] by blast
  have 3: "coll_inv n s3" using coll_ret_setup_step[OF 2] by (simp add: s3_def)
  have 4: "coll_inv n s4" using coll_defs[OF 3, of "written_args ?x"] w by (auto simp: s4_def)
  have "\<forall>y \<in> set (rev (take i xs)). arg_in n (mi_args y ! 1) \<and> operands_ok y"
    using code code_fits_in by (auto dest!: in_set_takeD) (auto simp: code_fits_def)
  then have 5: "coll_inv n (coll_call ?x (rev (take i xs)) s4)" using coll_call_step[OF 4] by blast
  have 6: "coll_inv n s6" using coll_quiet(3)[OF 5] by (simp add: s6_def)
  have 7: "coll_inv n s7"
    unfolding s7_def
    using coll_fold_step[where g = coll_use_mem and ds = "written_args ?x", OF coll_use_mem_step[OF _ w] 6] by blast
  have "cs_step n s s3" using coll_ret_setup_keys[OF x, of "drop (Suc i) xs" "coll_cross ?x b (coll_jump ?x out s)"] code
    by (auto simp: s3_def dest: in_set_dropD)
  also have "cs_step n s3 s4" unfolding s4_def
    by (rule coll_fold_keys[OF _ 3]) (use coll_def_step(1) coll_def_keys w in blast)
  also have "cs_step n s4 s6" using coll_abs_keys[OF x, of "coll_call ?x (rev (take i xs)) s4"] by (simp add: s6_def)
  also have "cs_step n s6 s7" unfolding s7_def
    by (rule coll_fold_keys[OF _ 6]) (use coll_use_mem_step coll_use_mem_keys w in blast)
  also have "cs_step n s7 (fold coll_use (read_args ?x) s7)"
    by (rule coll_fold_keys[OF _ 7]) (use coll_use_step coll_use_keys ops read_args_in[OF _ n4] in blast)
  finally show ?thesis by (simp add: res)
qed

section \<open>The map of a function\<close>

lemma coll_bb_keys:
  assumes inv: "coll_inv n s" and out: "bs_ok n (lv_liveOut lv ! b)" "bs_alpha (lv_liveOut lv ! b) \<subseteq> reg_uids"
    and code: "\<forall>y \<in> set (bb_code f b). code_fits n y"
  shows "coll_inv n (coll_bb lv f b s) \<and> cs_step n s (coll_bb lv f b s)"
proof -
  let ?out = "lv_liveOut lv ! b" and ?xs = "bb_code f b"
  have st: "coll_inv n (coll_instr b ?out ?xs i t) \<and> cs_step n t (coll_instr b ?out ?xs i t)"
    if "i < length ?xs" "coll_inv n t" for i t
    using coll_instr_step[OF that(2) out code that(1)] coll_instr_keys[OF that(2) out code that(1)] by blast
  have "(\<forall>i \<in> set is. i < length ?xs) \<Longrightarrow> coll_inv n t \<Longrightarrow>
      coll_inv n (fold (coll_instr b ?out ?xs) is t) \<and> cs_step n t (fold (coll_instr b ?out ?xs) is t)" for "is" t
  proof (induction "is" arbitrary: t)
    case (Cons i "is")
    then show ?case using st[of i t] map_step_trans by simp blast
  qed simp
  from this[of "rev [0..<length ?xs]" "s\<lparr>cs_live := ?out\<rparr>"] show ?thesis
    using inv out by (simp add: coll_bb_def Let_def bb_code_def coll_inv_def)
qed

lemma coll_used_keys: "arg_in n a \<Longrightarrow> map_step n m (coll_used a m)"
  using map_step_trans[OF step_touch step_touch] step_touch
  by (cases "ma_type a") (simp_all add: coll_used_def arg_in_def)

lemma coll_used_dom: "dom (coll_used a m) = arg_uids a \<union> dom m"
  by (cases "ma_type a") (auto simp: coll_used_def coll_touch_def arg_uids_def arg_regs_def)

lemma fold_dom:
  assumes "\<And>x m. dom (g x m) = A x \<union> dom m"
  shows "dom (fold g xs m) = (\<Union>x \<in> set xs. A x) \<union> dom m"
proof (induction xs arbitrary: m)
  case (Cons x xs)
  then show ?case using assms[of x m] by auto
qed simp

lemma coll_init_keys:
  assumes "\<forall>x \<in> set (all_instrs f). code_fits n x"
  shows "map_step n Map.empty (coll_init f)"
    "dom (coll_init f) = (\<Union>x \<in> set (all_instrs f). \<Union>i < mi_n_args x. arg_uids (mi_args x ! i))"
proof -
  have "map_step n m (coll_used (mi_args x ! i) m)" if "bb \<in> set (mf_bbs f)" "x \<in> set (bb_instrs bb)" "i < mi_n_args x" for bb x i m
  proof -
    have "code_fits n x" using assms that(1,2) by (auto simp: all_instrs_def)
    then show ?thesis using code_fits_in[of n x "mi_args x ! i"] that(3) by (auto simp: code_fits_def intro: coll_used_keys)
  qed
  then show "map_step n Map.empty (coll_init f)" unfolding coll_init_def by (intro map_step_fold) simp
  have 1: "dom (fold (\<lambda>i. coll_used (mi_args x ! i)) [0..<mi_n_args x] m) = (\<Union>i < mi_n_args x. arg_uids (mi_args x ! i)) \<union> dom m" for x m
    using fold_dom[where g = "\<lambda>i. coll_used (mi_args x ! i)", OF coll_used_dom, of "[0..<mi_n_args x]" m] by (simp add: lessThan_atLeast0)
  note 2 = fold_dom[where g = "\<lambda>x. fold (\<lambda>i. coll_used (mi_args x ! i)) [0..<mi_n_args x]", OF 1]
  show "dom (coll_init f) = (\<Union>x \<in> set (all_instrs f). \<Union>i < mi_n_args x. arg_uids (mi_args x ! i))"
    unfolding coll_init_def fold_dom[where g = "\<lambda>bb. fold (\<lambda>x. fold (\<lambda>i. coll_used (mi_args x ! i)) [0..<mi_n_args x]) (bb_instrs bb)", OF 2]
    by (simp add: all_instrs_def)
qed

lemma reg_coll_keys:
  assumes fits: "func_fits f" "\<forall>x \<in> set (all_instrs f). code_fits (n_unique_regs f) x" and m: "reg_coll f = Some (m, cross)"
  shows "keys_ok (n_unique_regs f) m" "x \<in> set (all_instrs f) \<Longrightarrow> i < mi_n_args x \<Longrightarrow> arg_uids (mi_args x ! i) \<subseteq> dom m"
proof -
  let ?n = "n_unique_regs f" and ?k = "length (mf_bbs f)"
  obtain lv where lv: "live_update (cfg_update f False) f = Some lv"
    "\<And>b. b < ?k \<Longrightarrow> bs_ok ?n (lv_liveOut lv ! b)"
    "\<And>b. b < ?k \<Longrightarrow> bs_alpha (lv_liveOut lv ! b) = {r. live_at f b (length (bb_code f b)) r}"
    using live_update_correct[OF fits(1)] by blast
  let ?s0 = "\<lparr>cs_ranges = coll_init f, cs_live = bs_new ?n False, cs_cross = (\<lambda>_. []), cs_ok = True\<rparr>"
  have st: "coll_inv ?n (coll_bb lv f b s) \<and> cs_step ?n s (coll_bb lv f b s)" if "b < ?k" "coll_inv ?n s" for b s
    using lv(3)[OF that(1)] live_at_regs[OF fits _ that(1)]
    by (intro coll_bb_keys[OF that(2) lv(2)[OF that(1)] _ bb_code_fits[OF fits(2) that(1)]]) auto
  have 0: "coll_inv ?n ?s0" by (simp add: coll_inv_def sym_coll_def bs_alpha_new)
  have "cs_step ?n ?s0 (fold (coll_bb lv f) [0..<?k] ?s0)"
    by (rule coll_fold_keys[OF _ 0]) (use st in simp)
  then have "map_step ?n (coll_init f) m" using m by (simp add: reg_coll_def lv(1) Let_def split: if_splits)
  moreover have "keys_ok ?n Map.empty" by (simp add: keys_ok_def)
  ultimately show "keys_ok ?n m" using coll_init_keys(1)[OF fits(2)] by (auto simp: map_step_def)
  have "dom (coll_init f) \<subseteq> dom m" using \<open>map_step ?n (coll_init f) m\<close> by (simp add: map_step_def)
  then show "x \<in> set (all_instrs f) \<Longrightarrow> i < mi_n_args x \<Longrightarrow> arg_uids (mi_args x ! i) \<subseteq> dom m"
    unfolding coll_init_keys(2)[OF fits(2)] by blast
qed

end
