(* ===== verification/RegAllocSpec.thy ===== *)
theory RegAllocSpec
  imports RegAssignSpec RegCollMap
begin

text \<open>
  The rounds of \<^verbatim>\<open>RegAlloc2::apply\<close> from end to end: the interference graph, the cost graph, the solver,
  coalescing and the replacement of the operands. The main results: if nothing is spilled no operand names a virtual
  register any more, and the new function runs like the old one.
\<close>

section \<open>The map is a list\<close>

lemma uid_ok_fun: "u \<in> fun_uids n \<Longrightarrow> n \<le> 2 ^ 32 \<Longrightarrow> uid_ok u"
  using uid_ok_reg by (auto simp: fun_uids_def reg_uids_def)

lemma uid_to_reg_ok: "vreg_ok (uid_to_reg u)"
  using creg_code_of_code[of "u + 1"] by (auto simp: vreg_ok_def uid_to_reg_def is_concrete_def)

lemma listed_exists:
  assumes m: "keys_ok n m" "sym_coll m" and n: "n \<le> 2 ^ 32"
  shows "\<exists>L. collisions_listed L m"
proof -
  let ?L = "map (\<lambda>a. (uid_to_reg a, sorted_list_of_set (the (m a)))) (sorted_list_of_set (dom m))"
  have f: "finite (fun_uids n)" by (simp add: fun_uids_def)
  have sub: "s \<subseteq> fun_uids n \<and> a \<in> fun_uids n" if "m a = Some s" for a s
    using m(1) ranI[of m a s] domI[of m a s] that unfolding keys_ok_def by blast
  have d: "finite (dom m)" "\<And>a s. m a = Some s \<Longrightarrow> finite s \<and> s \<subseteq> fun_uids n \<and> a \<in> fun_uids n"
    using finite_subset[OF _ f] sub m(1) unfolding keys_ok_def by simp_all
  have uid: "a \<in> fun_uids n \<Longrightarrow> reg_to_uid (uid_to_reg a) = a" for a by (simp add: fun_uids_def uid_valid)
  have "vreg_ok r \<and> reg_to_uid r < 2 ^ 32 \<and> (\<forall>c \<in> set cs. uid_ok c)" if rc: "(r, cs) \<in> set ?L" for r cs
  proof -
    obtain a where "a \<in> set (sorted_list_of_set (dom m))" "r = uid_to_reg a" "cs = sorted_list_of_set (the (m a))"
      using rc by auto
    then obtain s where a: "m a = Some s" "r = uid_to_reg a" "cs = sorted_list_of_set s" using d(1) by auto
    have s: "set cs \<subseteq> fun_uids n" "reg_to_uid r < n" using d(2)[OF a(1)] uid[of a] unfolding a by (simp_all add: fun_uids_def)
    then show ?thesis using uid_ok_fun[OF _ n] uid_to_reg_ok n unfolding a(2) by (meson less_le_trans subsetD)
  qed
  then have "lifetimes_ok ?L" unfolding lifetimes_ok_def by fast
  have mem: "a \<in> fun_uids n \<and> finite (the (m a))" if "a \<in> dom m" for a using d(2) that by auto
  have keys: "map (reg_to_uid \<circ> fst) ?L = sorted_list_of_set (dom m)"
    unfolding map_map comp_def fst_conv using mem uid d(1) by (intro map_idI) simp
  have "map (\<lambda>(r, cs). (reg_to_uid r, set cs)) ?L = map (\<lambda>a. (a, the (m a))) (sorted_list_of_set (dom m))"
    unfolding map_map comp_def prod.case using mem uid d(1) by (intro map_cong refl) simp
  moreover have "map_of (map (\<lambda>a. (a, the (m a))) (sorted_list_of_set (dom m))) = m"
    using d(1) by (simp add: map_of_map_keys)
  ultimately have "m = map_of (map (\<lambda>(r, cs). (reg_to_uid r, set cs)) ?L)" by metis
  moreover have "distinct (map (reg_to_uid \<circ> fst) ?L)" unfolding keys by simp
  ultimately have "collisions_listed ?L m" unfolding collisions_listed_def using m(2) \<open>lifetimes_ok ?L\<close> by (intro conjI)
  then show ?thesis by blast
qed

lemma lifetime_found:
  assumes L: "collisions_listed L m" and r: "\<not> is_concrete r" "reg_to_uid r \<in> dom m"
  shows "lifetime_of L r \<noteq> None"
proof -
  obtain ty v where v: "r = VirtR ty v" using r(1) by (cases r) (simp_all add: is_concrete_def)
  have "reg_to_uid r \<in> fst ` set (map (\<lambda>(r, cs). (reg_to_uid r, set cs)) L)"
    using r(2) L unfolding collisions_listed_def by (metis dom_map_of_conv_image_fst)
  then obtain rc where rc: "rc \<in> set L" "reg_to_uid (fst rc) = reg_to_uid r" by (auto split: prod.splits)
  then have "vreg_eq (fst rc) r"
    using creg_code_less[of "c_reg (fst rc)"] unfolding v by (cases "fst rc") (auto simp: reg_to_uid_def vreg_eq_def numRegs_def)
  then show ?thesis using rc(1) by (cases rc) (auto simp: lifetime_of_def find_None_iff)
qed

lemma moves_have_lifetimes:
  assumes L: "collisions_listed L m" and m: "\<And>x i. x \<in> set (all_instrs f) \<Longrightarrow> i < mi_n_args x \<Longrightarrow> arg_uids (mi_args x ! i) \<subseteq> dom m"
  shows "moves_listed f L"
  unfolding moves_listed_def
proof (intro ballI impI)
  fix x assume x: "x \<in> set (all_instrs f)" "mi_op x = GBase GBase_mov \<and> mi_n_args x = 2 \<and> isReg (mi_args x ! 1)
     \<and> \<not> is_concrete (ma_reg (mi_args x ! 1))"
  then have "reg_to_uid (ma_reg (mi_args x ! 1)) \<in> arg_uids (mi_args x ! 1)" by (simp add: arg_uids_def arg_regs_def isReg_def)
  then show "lifetime_of L (ma_reg (mi_args x ! 1)) \<noteq> None" using m[OF x(1), of 1] x(2) by (intro lifetime_found[OF L]) auto
qed

section \<open>Every operand has a node\<close>

definition has_virtual :: "CostGraph \<Rightarrow> VReg \<Rightarrow> bool" where
  "has_virtual g r \<longleftrightarrow> is_concrete r \<or> node_of g (reg_to_uid r) \<noteq> None"

lemma has_virtual_grows: "grows g g' \<Longrightarrow> has_virtual g r \<Longrightarrow> has_virtual g' r"
  unfolding has_virtual_def using grows_node by blast

lemma node_of_added: "node_of (fst (graph_node u g)) u \<noteq> None"
  by (cases "node_of g u") (simp_all add: graph_node_old new_node_props)

lemma ensure_node_has: "has_virtual (fst (ensure_node rnd w reg s)) reg"
proof (cases "is_concrete reg")
  case virt: False
  have "\<exists>g'. fst (ensure_node rnd w reg s) = fst (graph_node (reg_to_uid reg) g')"
    using virt by (simp add: ensure_node_def Let_def case_prod_beta) blast
  then show ?thesis using node_of_added by (auto simp: has_virtual_def)
qed (simp add: has_virtual_def)

lemma ensure_arg_has:
  assumes "built (fst s)" "reg_to_uid (ma_reg a) < 2 ^ 32" "reg_to_uid (ma_indx a) < 2 ^ 32" "r \<in> set (arg_regs a)"
  shows "has_virtual (fst (ensure_arg rnd w a s)) r"
proof -
  have 2: "has_virtual (fst (ensure_node rnd w (ma_indx a) (ensure_node rnd w (ma_reg a) s))) (ma_reg a)"
    using ensure_node_ok[OF assms(1,2), of rnd w] ensure_node_ok[OF _ assms(3)] ensure_node_has[of rnd w "ma_reg a" s] has_virtual_grows by blast
  show ?thesis using assms(4) 2 by (cases "ma_type a") (auto simp: ensure_arg_def arg_regs_def ensure_node_has)
qed

text \<open>The folds keep the nodes, and each step adds its own.\<close>

lemma fold_has:
  assumes "\<And>x s. x \<in> set xs \<Longrightarrow> built (fst s) \<Longrightarrow> grown s (h x s)" "built (fst s)" "x \<in> set xs"
    "\<And>s. built (fst s) \<Longrightarrow> has_virtual (fst (h x s)) r"
  shows "has_virtual (fst (fold h xs s)) r"
  using assms(1-3)
proof (induction xs arbitrary: s)
  case (Cons y xs)
  have y: "built (fst (h y s))" using Cons.prems(1)[of y s] Cons.prems(2) by (simp add: grown_def)
  show ?case
  proof (cases "x = y")
    case True
    have "grown (h y s) (fold h xs (h y s))" by (rule fold_grown) (use Cons.prems(1) y in auto)
    then show ?thesis using assms(4)[OF Cons.prems(2)] has_virtual_grows True by (simp add: grown_def) blast
  next
    case False
    then show ?thesis using Cons.IH[OF _ y] Cons.prems(1,3) by simp
  qed
qed simp

lemma setup_instr_has:
  assumes "built (fst s)" "args_fit n (mi_args x)" "n \<le> 2 ^ 32" "mi_n_args x \<le> 4" "i < mi_n_args x" "r \<in> set (arg_regs (mi_args x ! i))"
  shows "has_virtual (fst (setup_instr rnd w x s)) r"
proof -
  have fits: "reg_to_uid (ma_reg (mi_args x ! k)) < 2 ^ 32" "reg_to_uid (ma_indx (mi_args x ! k)) < 2 ^ 32" if "k < 4" for k
    using assms(2,3) that by (auto simp: args_fit_def dest: less_le_trans)
  let ?t = "fold (\<lambda>i. ensure_arg rnd w (mi_args x ! i)) [0..<mi_n_args x] s"
  have step: "built (fst s) \<Longrightarrow> grown s (ensure_arg rnd w (mi_args x ! k) s)" if "k \<in> set [0..<mi_n_args x]" for k s
    using that assms(4) fits by (intro ensure_arg_grown) auto
  have "has_virtual (fst ?t) r"
    by (rule fold_has[where x = i]) (use step assms fits in \<open>auto intro!: ensure_arg_has\<close>)
  moreover have "built (fst ?t)" using fold_grown[OF step assms(1), of "[0..<mi_n_args x]"] by (simp add: grown_def)
  then have "grown ?t (setup_copy rnd x ?t)" using fits by (intro setup_copy_grown) auto
  ultimately show ?thesis using has_virtual_grows by (simp add: setup_instr_def grown_def) blast
qed

lemma setup_costs_has:
  assumes f: "regs_fit f" and L: "lifetimes_ok L" and x: "x \<in> set (all_instrs f)" "i < mi_n_args x" "r \<in> set (arg_regs (mi_args x ! i))"
  shows "has_virtual (setup_costs rnd f empty_graph L model) r"
proof -
  let ?s1 = "(fold setup_reg L empty_graph, [])"
  have 1: "built (fst ?s1)" using setup_regs_ok[OF built_empty L] by simp
  have fits: "args_fit (n_unique_regs f) (mi_args y) \<and> mi_n_args y \<le> 4"
    if "b < length (mf_bbs f)" "y \<in> set (bb_instrs (mf_bbs f ! b))" for b y
    using f that by (auto simp: regs_fit_def all_instrs_def intro!: bexI[of _ "mf_bbs f ! b"])
  have n: "n_unique_regs f \<le> 2 ^ 32" using f by (simp add: regs_fit_def)
  have instr: "grown s (setup_instr rnd w y s)" if "b < length (mf_bbs f)" "y \<in> set (bb_instrs (mf_bbs f ! b))" "built (fst s)" for b y w s
    using fits[OF that(1,2)] by (intro setup_instr_grown[OF that(3) _ n]) auto
  have bb: "grown s (setup_bb rnd model f b s)" if "b \<in> set [0..<length (mf_bbs f)]" "built (fst s)" for b s
    unfolding setup_bb_def using that instr by (intro fold_grown) auto
  obtain b where b: "b < length (mf_bbs f)" "x \<in> set (bb_instrs (mf_bbs f ! b))"
    using x(1) unfolding all_instrs_def by (auto simp: in_set_conv_nth[of _ "mf_bbs f"])
  have xb: "has_virtual (fst (setup_bb rnd model f b s)) r" if "built (fst s)" for s
    unfolding setup_bb_def
    by (rule fold_has[where x = x, OF _ that b(2)]) (use instr b(1) fits[OF b] n x(2,3) in \<open>auto intro!: setup_instr_has\<close>)
  obtain g2 uw where s2: "fold (setup_bb rnd model f) [0..<length (mf_bbs f)] ?s1 = (g2, uw)" by fastforce
  have "has_virtual (fst (fold (setup_bb rnd model f) [0..<length (mf_bbs f)] ?s1)) r"
  proof (rule fold_has[where x = b])
    show "\<And>x s. x \<in> set [0..<length (mf_bbs f)] \<Longrightarrow> built (fst s) \<Longrightarrow> grown s (setup_bb rnd model f x s)" by (rule bb)
  qed (use 1 xb b(1) in auto)
  then have "has_virtual g2 r" by (simp add: s2)
  moreover have "grown ?s1 (fold (setup_bb rnd model f) [0..<length (mf_bbs f)] ?s1)" by (rule fold_grown) (use bb 1 in auto)
  then have "built g2" by (simp add: s2 grown_def)
  then have "grows g2 (fold (setup_node rnd model uw') ns g2)" for uw' ns
    using setup_nodes_ok by blast
  ultimately show ?thesis using has_virtual_grows by (simp add: setup_costs_def Let_def s2) blast
qed

section \<open>The new operands\<close>

lemma arg_regs_replace: "arg_regs (replace_arg p a) = map (replace_reg p) (arg_regs a)"
  by (cases "ma_type a") (simp_all add: replace_arg_def arg_regs_def)

lemma replace_reg_uid: "vreg_ok r \<Longrightarrow> reg_to_uid (replace_reg p r) = place_of p (reg_to_uid r)"
proof (cases r)
  case (ConcR ty c)
  assume "vreg_ok r"
  then have "1 \<le> creg_code c" using ConcR creg_code_pos[of c] by (simp add: vreg_ok_def)
  then have "reg_to_uid r + 1 < numRegs" using creg_code_less[of c] ConcR by (simp add: reg_to_uid_def)
  then show ?thesis using place_concrete ConcR by (simp add: replace_reg_def)
next
  case (VirtR ty v)
  then have "reg_to_uid r = numRegs + v" by (simp add: reg_to_uid_def)
  then show ?thesis using VirtR by (simp add: place_virtual replace_reg_def reg_to_uid_def split: option.split)
qed

lemma replace_args_nth:
  "k \<le> length as \<Longrightarrow> length (fold (\<lambda>i as. as[i := h (as ! i)]) [0..<k] as) = length as
    \<and> (i < length as \<longrightarrow> fold (\<lambda>i as. as[i := h (as ! i)]) [0..<k] as ! i = (if i < k then h (as ! i) else as ! i))"
  by (induction k) (auto simp: nth_list_update less_Suc_eq)

lemma replace_vargs_simps [simp]: "mi_op (replace_vargs p x) = mi_op x" "mi_n_args (replace_vargs p x) = mi_n_args x"
  "mi_has_bb_ref (replace_vargs p x) = mi_has_bb_ref x" "mi_bb_ref (replace_vargs p x) = mi_bb_ref x"
  by (simp_all add: replace_vargs_def)

lemma replace_vargs_nth: "mi_n_args x \<le> length (mi_args x) \<Longrightarrow> i < mi_n_args x \<Longrightarrow>
    mi_args (replace_vargs p x) ! i = replace_arg p (mi_args x ! i)"
  using replace_args_nth[of "mi_n_args x" "mi_args x" "replace_arg p" i] by (simp add: replace_vargs_def)

definition replaced :: "MFunc \<Rightarrow> reg_mapping \<Rightarrow> MFunc" where
  "replaced f p = f\<lparr>mf_bbs := replace_vargs_bbs p (mf_bbs f)\<rparr>"

lemma replaced_code: "b < length (mf_bbs f) \<Longrightarrow> bb_code (replaced f p) b = map (replace_vargs p) (bb_code f b)"
  by (simp add: replaced_def replace_vargs_bbs_def bb_code_def)

lemma replaced_instrs: "set (all_instrs (replaced f p)) = replace_vargs p ` set (all_instrs f)"
  by (auto simp: replaced_def replace_vargs_bbs_def all_instrs_def)

text \<open>A machine that reads the registers the operands name runs the new function as the machine with places runs
  the old one.\<close>

definition by_operands :: "nat \<Rightarrow> reg_mapping \<Rightarrow> MFunc \<Rightarrow> ('v, 'm) machine \<Rightarrow> ('v, 'm) machine \<Rightarrow> bool" where
  "by_operands n p f sem sem' \<longleftrightarrow> (\<forall>x \<in> set (all_instrs f). sem' (replace_vargs p x) = place_sem n (place_of p) sem x)"

lemma replaced_run:
  assumes f: "func_fits f" and s: "by_operands n p f sem sem'"
  shows "b < length (mf_bbs f) \<Longrightarrow>
    machine_run sem' (replaced f p) k (b, i, ps, m) = machine_run (place_sem n (place_of p) sem) f k (b, i, ps, m)"
proof (induction k arbitrary: b i ps m)
  case (Suc k)
  show ?case
  proof (cases "i < length (bb_code f b)")
    case True
    let ?x = "bb_code f b ! i"
    have x: "?x \<in> set (all_instrs f)"
      using True Suc.prems by (auto simp: all_instrs_def bb_code_def intro!: bexI[of _ "mf_bbs f ! b"])
    have e: "sem' (replace_vargs p ?x) = place_sem n (place_of p) sem ?x" using s x by (simp add: by_operands_def)
    obtain ps1 m1 l where r: "place_sem n (place_of p) sem ?x ps m = (ps1, m1, l)" by (metis prod_cases3)
    have "mi_has_bb_ref ?x \<Longrightarrow> mi_bb_ref ?x < length (mf_bbs f)" using f x by (simp add: func_fits_def)
    then show ?thesis using True Suc e r by (simp add: replaced_code Let_def)
  qed (use Suc.prems in \<open>simp add: replaced_code\<close>)
qed simp

section \<open>The result of a round\<close>

lemma all_mapped:
  assumes g: "built g" and m: "minimize_graph rnd g = Some (gf, st)" and a: "actually_allocate rnd gf st = Some (A, [])"
    and n: "node_of g (numRegs + v) = Some n"
  shows "final_vreg_assignments gf A v \<noteq> None"
proof -
  have ok: "graph_ok g" "set (active g) = {..<n_nodes g}" using g by (simp_all add: built_def)
  have st: "spilled_uids g A st = []" "sr_node ` set st = {a \<in> set (active g). \<not> node_concrete g a}"
    using actually_allocate_sound[OF ok(1) m] a by auto
  have "n < n_nodes g \<and> node_uid g ! n = numRegs + v" using node_of_less[OF graph_okD(1)[OF ok(1)] n] .
  then have "n \<in> sr_node ` set st" unfolding st(2) ok(2) by (simp add: node_concrete_def uid_is_concrete_def)
  then have "A ! n \<noteq> CReg_Virtual" using st(1) by (auto simp: spilled_uids_def filter_empty_conv)
  moreover have "node_uid gf = node_uid g" using minimize_all[OF ok(1) m] by blast
  ultimately show ?thesis using final_assignments[OF g] n by simp
qed

text \<open>Registers that one instruction defines are apart if they are joined, or concrete.\<close>

definition defs_joined :: "MFunc \<Rightarrow> collisions \<Rightarrow> bool" where
  "defs_joined f m \<longleftrightarrow> (\<forall>x \<in> set (all_instrs f). \<forall>c \<in> def_set (n_unique_regs f) x. \<forall>d \<in> def_set (n_unique_regs f) x.
     c \<noteq> d \<and> c \<noteq> sp_uid \<and> d \<noteq> sp_uid \<longrightarrow> c \<in> nbrs m d \<or> (c + 1 < numRegs \<and> d + 1 < numRegs))"

lemma sp_uid_6: "sp_uid = 6"
  by (simp add: reg_to_uid_def)

lemma place_not_sp:
  assumes "ran p \<subseteq> allocatable" "u \<noteq> sp_uid"
  shows "place_of p u \<noteq> place_of p sp_uid"
proof -
  have sp: "place_of p sp_uid = 6" unfolding sp_uid_6 by (rule place_concrete) (simp add: numRegs_def)
  have "place_of p u \<noteq> 6"
  proof (cases "u + 1 < numRegs")
    case True
    then show ?thesis using assms(2) place_concrete sp_uid_6 by simp
  next
    case False
    then have "place_of p u = (case p (u - numRegs) of None \<Rightarrow> numRegs + (u - numRegs) | Some c \<Rightarrow> creg_code c - 1)"
      by (simp add: place_of_def uid_to_reg_def replace_reg_def reg_to_uid_def split: option.split)
    moreover have "creg_code c - 1 \<noteq> 6" if "c \<in> ran p" for c
    proof -
      have "creg_code c \<noteq> 0 \<and> creg_code c \<noteq> 7" using allocatable_codes[of c] assms(1) that by blast
      then show ?thesis by arith
    qed
    ultimately show ?thesis by (auto simp: numRegs_def ran_def split: option.split)
  qed
  then show ?thesis by (simp add: sp)
qed

lemma mapping_keeps_apart:
  assumes "mapping_ok m p" "defs_joined f m"
  shows "keeps_apart f m (place_of p)"
proof -
  have ran: "ran p \<subseteq> allocatable" and apart: "\<And>a c. c \<in> nbrs m a \<Longrightarrow> c \<noteq> a \<Longrightarrow> place_of p c \<noteq> place_of p a"
    using assms(1) by (auto simp: mapping_ok_def set_apart_def)
  have sp: "place_of p u \<noteq> place_of p sp_uid" if "u \<noteq> sp_uid" for u using place_not_sp[OF ran that] .
  have "place_of p c \<noteq> place_of p d"
    if x: "x \<in> set (all_instrs f)" "c \<in> def_set (n_unique_regs f) x" "d \<in> def_set (n_unique_regs f) x" "c \<noteq> d" for x c d
  proof -
    consider "c = sp_uid" | "d = sp_uid" | "c \<in> nbrs m d" | "c + 1 < numRegs" "d + 1 < numRegs"
      using assms(2) x unfolding defs_joined_def by blast
    then show ?thesis
    proof cases
      case 1
      then show ?thesis using sp[of d] x(4) by metis
    next
      case 2
      then show ?thesis using sp[of c] x(4) by metis
    next
      case 3
      then show ?thesis using apart x(4) by blast
    next
      case 4
      then show ?thesis using x(4) by (simp add: place_concrete)
    qed
  qed
  then have "\<forall>x \<in> set (all_instrs f). inj_on (place_of p) (def_set (n_unique_regs f) x)" unfolding inj_on_def by blast
  then show ?thesis using apart sp unfolding keeps_apart_def by blast
qed

text \<open>What a round is given, and what the solver answers.\<close>

definition round_input :: "MFunc \<Rightarrow> collisions \<Rightarrow> lifetimes \<Rightarrow> bool" where
  "round_input f m L \<longleftrightarrow> func_fits f \<and> (\<forall>x \<in> set (all_instrs f). code_fits (n_unique_regs f) x)
     \<and> (\<forall>x \<in> set (all_instrs f). mi_n_args x \<le> length (mi_args x)) \<and> n_unique_regs f \<le> 2 ^ 32
     \<and> (\<exists>cross. reg_coll f = Some (m, cross)) \<and> collisions_listed L m"

definition round_solved :: "rounding \<Rightarrow> MFunc \<Rightarrow> lifetimes \<Rightarrow> CostModelInput \<Rightarrow> CReg list \<Rightarrow> nat list \<Rightarrow> reg_mapping \<Rightarrow> bool" where
  "round_solved rnd f L model A sp m \<longleftrightarrow> (\<exists>gf st. minimize_graph rnd (setup_costs rnd f empty_graph L model) = Some (gf, st)
     \<and> actually_allocate rnd gf st = Some (A, sp) \<and> m = final_vreg_assignments gf A)"

lemma round_ready:
  assumes "round_input f m L"
  shows "regs_fit f" "moves_listed f L" "lifetimes_ok L"
    "built (setup_costs rnd f empty_graph L model)" "links_all (setup_costs rnd f empty_graph L model) L"
proof -
  have f: "func_fits f" "\<forall>x \<in> set (all_instrs f). code_fits (n_unique_regs f) x" "n_unique_regs f \<le> 2 ^ 32" "collisions_listed L m"
    using assms by (simp_all add: round_input_def)
  show r: "regs_fit f" using f(2,3) by (auto simp: regs_fit_def code_fits_def)
  show l: "lifetimes_ok L" using f(4) by (simp add: collisions_listed_def)
  show "built (setup_costs rnd f empty_graph L model)" "links_all (setup_costs rnd f empty_graph L model) L"
    using setup_costs_ok[OF r l] by blast+
  obtain cross where m: "reg_coll f = Some (m, cross)" using assms by (auto simp: round_input_def)
  show "moves_listed f L" by (rule moves_have_lifetimes[OF f(4)]) (use reg_coll_keys(2)[OF f(1,2) m] in blast)
qed

lemma round_mapping:
  assumes "round_input f m L" "round_solved rnd f L model A sp p"
  shows "mapping_ok m p" "\<exists>q. coalesce_copies f model L p = Some q \<and> mapping_ok m q \<and> dom q = dom p"
proof -
  note ready = round_ready[OF assms(1)]
  have L: "collisions_listed L m" using assms(1) by (simp add: round_input_def)
  show p: "mapping_ok m p"
    using assms(2) allocation_apart[OF ready(4) _ _ L ready(5)] unfolding round_solved_def by blast
  show "\<exists>q. coalesce_copies f model L p = Some q \<and> mapping_ok m q \<and> dom q = dom p"
    using coalesce_copies_ok[OF L p ready(2)] .
qed

lemma round_concrete:
  assumes i: "round_input f m L" "round_solved rnd f L model A [] p" and q: "dom q = dom p"
    and x: "x \<in> set (all_instrs f)" "k < mi_n_args x" "r \<in> set (arg_regs (mi_args x ! k))"
  shows "is_concrete (replace_reg q r)"
proof (cases r)
  case (VirtR ty v)
  note ready = round_ready[OF i(1)]
  obtain gf st where s: "minimize_graph rnd (setup_costs rnd f empty_graph L model) = Some (gf, st)"
    "actually_allocate rnd gf st = Some (A, [])" "p = final_vreg_assignments gf A" using i(2) by (auto simp: round_solved_def)
  have "has_virtual (setup_costs rnd f empty_graph L model) r" using setup_costs_has[OF ready(1,3) x] .
  then obtain n where "node_of (setup_costs rnd f empty_graph L model) (numRegs + v) = Some n"
    using VirtR by (auto simp: has_virtual_def is_concrete_def reg_to_uid_def)
  then have "v \<in> dom q" using all_mapped[OF ready(4) s(1,2)] s(3) q by auto
  then show ?thesis using VirtR by (auto simp: replace_reg_def is_concrete_def)
qed (simp add: replace_reg_def is_concrete_def)

section \<open>A sample\<close>

lemma scan_alone:
  "(\<forall>u \<in> set (active g). neighbours g ! u = []) \<Longrightarrow> \<exists>virt'. scan rnd pos g stack low virt = (g, stack, low, virt')"
proof (induction rnd pos g stack low virt rule: scan.induct)
  case (1 rnd pos g stack low virt)
  note sc = scan.simps[of rnd pos g stack low virt]
  show ?case
  proof (cases "pos < length (active g)")
    case pos: True
    have n: "reduce rnd (active g ! pos) g stack = None"
      using 1(4) pos by (simp add: reduce_def R1_Reduction_def R2_Reduction_def)
    show ?thesis
    proof (cases "node_concrete g (active g ! pos)")
      case True
      then show ?thesis using 1(1)[OF pos refl True 1(4)] sc pos by simp
    next
      case False
      then show ?thesis using 1(2)[OF pos refl False n 1(4)] sc pos n by simp
    qed
  qed (use sc in simp)
qed

lemma minimize_alone:
  assumes "\<forall>u \<in> set (active g). neighbours g ! u = []"
  shows "\<exists>st. minimize_graph rnd g = Some (g, st)"
proof -
  obtain virt where s: "scan rnd 0 g [] False False = (g, [], False, virt)" using scan_alone[OF assms] by blast
  have "RM_Reduction rnd g [] = None"
  proof (cases "RM_Reduction rnd g []")
    case (Some p)
    then obtain u where u: "fst (fold (RM_select rnd g) (active g) (None, f32_max)) = Some u"
      by (auto simp: RM_Reduction_def split: option.splits)
    then show ?thesis using RM_select_active[OF u] RM_select_neighbours[OF u] assms by simp
  qed simp
  then have "minimize_loop rnd g [] = (g, [])" using s by (subst minimize_loop.simps) simp
  then show ?thesis using assms by (simp add: minimize_graph_def)
qed

definition alloc_sample :: MFunc where
  "alloc_sample = \<lparr>mf_bbs = [\<lparr>bb_instrs = [mk_instr (GBase GBase_mov) [MReg (VirtR Ty_Int64 0) Ty_Int64, MImm64 5]]\<rparr>],
     mf_args = []\<rparr>"

lemma alloc_sample_regs: "n_unique_regs alloc_sample = numRegs + 1"
  by (simp add: n_unique_regs_def max_vreg_id_def alloc_sample_def sample_defs max_arg_id_def max_if_virtual_def is_concrete_def
      upt_conv_Cons numeral_2_eq_2)

lemma alloc_sample_fits: "func_fits alloc_sample"
  unfolding func_fits_def alloc_sample_regs
  by (auto simp: all_instrs_def alloc_sample_def sample_defs args_fit_def reg_to_uid_def numRegs_def less_Suc_eq
      numeral_eq_Suc vreg0_def)

lemma alloc_sample_code: "\<forall>x \<in> set (all_instrs alloc_sample). code_fits (n_unique_regs alloc_sample) x"
  using alloc_sample_fits unfolding func_fits_def
  by (auto simp: code_fits_def all_instrs_def alloc_sample_def mk_instr_def operands_ok_def reads_lost_def)

lemma alloc_sample_instr: "mf_bbs alloc_sample = [\<lparr>bb_instrs = [mk_instr (GBase GBase_mov) [MReg (VirtR Ty_Int64 0) Ty_Int64, MImm64 5]]\<rparr>]"
  by (simp add: alloc_sample_def)

lemma alloc_sample_out: "\<not> live_at alloc_sample 0 1 r"
proof
  assume "live_at alloc_sample 0 1 r"
  then show False by (rule live_at_E) (simp_all add: bb_code_def alloc_sample_instr targets_def)
qed

lemma alloc_sample_coll: "\<exists>cross. reg_coll alloc_sample = Some ([numRegs \<mapsto> {}], cross)"
proof -
  obtain lv where lv: "live_update (cfg_update alloc_sample False) alloc_sample = Some lv"
    "bs_alpha (lv_liveOut lv ! 0) = {r. live_at alloc_sample 0 (length (bb_code alloc_sample 0)) r}"
    using live_update_correct[OF alloc_sample_fits] by (auto simp: alloc_sample_instr)
  then have "bs_elems (lv_liveOut lv ! 0) = []"
    using bs_elems_alpha(1)[of "lv_liveOut lv ! 0"] alloc_sample_out by (simp add: bb_code_def alloc_sample_instr)
  then show ?thesis
    by (simp add: reg_coll_def lv(1) Let_def alloc_sample_instr coll_init_def coll_bb_def coll_instr_def written_args_def read_args_def
      coll_jump_def coll_cross_def coll_ret_setup_def coll_def_def coll_call_def coll_abs_def coll_use_mem_def coll_use_def
      is_block_jump_def is_call_def isReg_def mk_instr_def MReg_def MImm64_def retype_def marg0_def coll_edges_def
      coll_used_def coll_touch_def coll_at_def reg_to_uid_def)
qed

definition alloc_lifetimes :: lifetimes where "alloc_lifetimes = [(VirtR Ty_Int64 0, [])]"

definition alloc_model :: CostModelInput where
  "alloc_model = \<lparr>block_weights = [Fin 1], call_crossings = (\<lambda>_. None), first_spill_temp_id = 0\<rparr>"

lemma alloc_sample_input: "round_input alloc_sample [numRegs \<mapsto> {}] alloc_lifetimes"
proof -
  have "collisions_listed alloc_lifetimes [numRegs \<mapsto> {}]"
    by (auto simp: collisions_listed_def alloc_lifetimes_def lifetimes_ok_def vreg_ok_def reg_to_uid_def numRegs_def sym_coll_def nbrs_def)
  moreover have "n_unique_regs alloc_sample \<le> 2 ^ 32" by (simp add: alloc_sample_regs numRegs_def)
  moreover have "\<forall>x \<in> set (all_instrs alloc_sample). mi_n_args x \<le> length (mi_args x)"
    by (simp add: all_instrs_def alloc_sample_instr mk_instr_def)
  ultimately show ?thesis using alloc_sample_fits alloc_sample_code alloc_sample_coll unfolding round_input_def by blast
qed

lemma alloc_sample_graph: "\<forall>u \<in> set (active (setup_costs rnd alloc_sample empty_graph alloc_lifetimes alloc_model)).
  neighbours (setup_costs rnd alloc_sample empty_graph alloc_lifetimes alloc_model) ! u = []"
proof -
  let ?u = "reg_to_uid (VirtR Ty_Int64 0)"
  define g1 where "g1 = setup_reg (VirtR Ty_Int64 0, []) empty_graph"
  have e: "node_of empty_graph ?u = None" "n_nodes empty_graph = 0" "active empty_graph = []" "neighbours empty_graph = []"
    by (simp_all add: node_of_def empty_graph_def n_nodes_def)
  note new = new_node_props[OF e(1)]
  have g1: "active g1 = [0]" "neighbours g1 = [[]]" "node_of g1 ?u = Some 0"
    using new(5,7) new(11)[of ?u] e by (simp_all add: g1_def setup_reg_def Let_def case_prod_beta set_kind_def)
  have "fst (setup_bb rnd alloc_model alloc_sample 0 (g1, [])) = g1"
    using g1(3) graph_node_old[OF g1(3)] by (simp add: setup_bb_def alloc_sample_instr setup_instr_def setup_copy_def is_copy_def isReg_def ensure_arg_def
      ensure_node_def is_concrete_def has_node_of Let_def mk_instr_def MReg_def MImm64_def retype_def marg0_def upt_conv_Cons)
  then obtain uw where "setup_bb rnd alloc_model alloc_sample 0 (g1, []) = (g1, uw)" by (metis prod.collapse)
  moreover have "neighbours (fold (setup_node rnd model uw) ns g) = neighbours g \<and> active (fold (setup_node rnd model uw) ns g) = active g" for model uw ns g
    by (induction ns arbitrary: g) (simp_all add: setup_node_def)
  ultimately show ?thesis using g1(1,2)
    by (simp add: setup_costs_def alloc_sample_instr alloc_lifetimes_def g1_def[symmetric] Let_def)
qed

lemma alloc_sample_solved: "\<exists>A sp p. round_solved rnd alloc_sample alloc_lifetimes alloc_model A sp p"
proof -
  let ?g = "setup_costs rnd alloc_sample empty_graph alloc_lifetimes alloc_model"
  obtain st where st: "minimize_graph rnd ?g = Some (?g, st)" using minimize_alone[OF alloc_sample_graph] by blast
  have "graph_ok ?g" using round_ready(4)[OF alloc_sample_input] by (simp add: built_def)
  then obtain A sp where "actually_allocate rnd ?g st = Some (A, sp)" using actually_allocate_sound[OF _ st] by blast
  then show ?thesis using st unfolding round_solved_def by blast
qed

section \<open>Properties\<close>

text \<open>C2: A round of the register allocator, from the interference graph to the operands: coalescing returns, only
  allocatable registers are assigned, and registers that interfere (concrete or virtual) are in different places, before
  and after the copies are coalesced. When nothing was spilled, no operand of the new function names a virtual
  register. The order in which the hash map of the interferences is iterated, the cost model's weights and the
  rounding of floats do not matter.\<close>

theorem allocation_correct:
  assumes "round_input f m L" "round_solved rnd f L model A sp p"
  shows "\<exists>q. coalesce_copies f model L p = Some q \<and> ran q \<subseteq> set kAllocatableGPRegs \<union> set kAllocatableVecRegs
    \<and> (\<forall>a c. c \<in> nbrs m a \<and> c \<noteq> a \<longrightarrow> place_of p c \<noteq> place_of p a \<and> place_of q c \<noteq> place_of q a)
    \<and> (sp = [] \<longrightarrow> (\<forall>x \<in> set (all_instrs (replaced f q)). \<forall>k < mi_n_args x. \<forall>r \<in> set (arg_regs (mi_args x ! k)). is_concrete r))"
proof -
  obtain q where q: "coalesce_copies f model L p = Some q" "mapping_ok m q" "dom q = dom p" using round_mapping(2)[OF assms] by blast
  have "is_concrete r" if s: "sp = []" "y \<in> set (all_instrs (replaced f q))" "k < mi_n_args y" "r \<in> set (arg_regs (mi_args y ! k))" for y k r
  proof -
    obtain x where x: "x \<in> set (all_instrs f)" "y = replace_vargs q x" using s(2) by (auto simp: replaced_instrs)
    have "mi_n_args x \<le> length (mi_args x)" using assms(1) x(1) by (simp add: round_input_def)
    then obtain r' where "r' \<in> set (arg_regs (mi_args x ! k))" "r = replace_reg q r'"
      using s(3,4) x(2) by (auto simp: replace_vargs_nth arg_regs_replace)
    then show ?thesis using round_concrete[OF assms(1) _ q(3) x(1)] assms(2) s(1,3) x(2) by simp
  qed
  then show ?thesis using q(1,2) round_mapping(1)[OF assms]
    by (intro exI[of _ q]) (auto simp: mapping_ok_def set_apart_def allocatable_def)
qed

theorem allocation_correct_witness:
  "\<exists>A sp p q. round_solved Fin alloc_sample alloc_lifetimes alloc_model A sp p \<and> coalesce_copies alloc_sample alloc_model alloc_lifetimes p = Some q
     \<and> ran q \<subseteq> set kAllocatableGPRegs \<union> set kAllocatableVecRegs"
proof -
  obtain A sp p where s: "round_solved Fin alloc_sample alloc_lifetimes alloc_model A sp p" using alloc_sample_solved by blast
  then show ?thesis using allocation_correct[OF alloc_sample_input s] by blast
qed


text \<open>A machine that stores the number of instructions run into the registers an instruction defines.\<close>

definition count_machine :: "(nat, nat) machine" where
  "count_machine x rs m = (\<lambda>r. if r \<in> machine_writes x then m else rs r, m + 1, m < 2)"

lemma count_machine_documented: "documented_machine count_machine"
  by (simp add: documented_machine_def count_machine_def agree_def)

lemma alloc_mov_def:
  assumes "reg_to_uid r < n"
  shows "def_set n (mk_instr (GBase GBase_mov) [MReg r Ty_Int64, MImm64 5]) = {reg_to_uid r}"
  using assms by (cases r) (simp_all add: def_set_def update_def_def def_arg_def def_reg_def mk_instr_def MReg_def MImm64_def retype_def
      marg0_def isReg_def bs_wf_alpha_set bs_alpha_new reg_to_uid_def)

lemma alloc_mov_writes: "machine_writes (mk_instr (GBase GBase_mov) [MReg r Ty_Int64, MImm64 5]) = {reg_to_uid r}"
  by (cases r) (simp_all add: machine_writes_def written_uids_eq written_args_def mk_instr_def MReg_def retype_def isReg_def
      is_gather_def is_physical_call_def reg_to_uid_def)

lemma alloc_sample_machine: "machine_code alloc_sample"
  by (simp add: machine_code_def all_instrs_def alloc_sample_instr writes_listed_def operands_ok_def is_physical_call_def is_gather_def
      machine_reads_def source_args_def self_xor_def read_args_def written_args_def stack_op_def mk_instr_def MReg_def MImm64_def
      retype_def marg0_def isReg_def arg_uids_def arg_regs_def)

lemma alloc_mov_replace: "replace_vargs q (mk_instr (GBase GBase_mov) [MReg r Ty_Int64, MImm64 5])
    = mk_instr (GBase GBase_mov) [MReg (replace_reg q r) Ty_Int64, MImm64 5]"
  by (cases r) (simp_all add: replace_vargs_def mk_instr_def MReg_def MImm64_def retype_def marg0_def replace_arg_def
      upt_conv_Cons numeral_eq_Suc replace_reg_def split: option.split)

lemma alloc_by_operands: "by_operands (numRegs + 1) q alloc_sample count_machine count_machine"
proof -
  let ?n = "numRegs + 1" and ?r = "VirtR Ty_Int64 0"
  have u: "reg_to_uid ?r < ?n" by (simp add: reg_to_uid_def)
  have v: "reg_to_uid (replace_reg q ?r) < ?n"
    using creg_code_less by (auto simp: replace_reg_def reg_to_uid_def split: option.split intro: less_imp_diff_less less_SucI)
  have p: "place_of q (reg_to_uid ?r) = reg_to_uid (replace_reg q ?r)" using replace_reg_uid[of ?r q] by (simp add: vreg_ok_def)
  show ?thesis unfolding Suc_eq_plus1[symmetric]
    by (simp add: by_operands_def all_instrs_def alloc_sample_instr alloc_mov_replace place_sem_def count_machine_def Let_def
        alloc_mov_def[OF u, simplified] alloc_mov_writes put_back_def p fun_eq_iff)
qed


end
