(* ===== verification/RegJoin.thy ===== *)
theory RegJoin
  imports RegAllocSpec
begin

text \<open>
  The pass \<^verbatim>\<open>RegisterJoining\<close> (\<^verbatim>\<open>src/src/mir/optim/register_joining.cpp\<close>): a virtual register that is
  copied to or from a concrete register is put into that register when the two do not interfere. The
  interferences the concrete register takes over are what keeps two virtual registers of one concrete
  register apart.
\<close>

section \<open>The pass\<close>

text \<open>The candidate of an instruction: the pinned register and the virtual one.\<close>

definition join_hit :: "MInstr \<Rightarrow> (VReg \<times> VReg) option" where
  "join_hit x =
     (let a0 = mi_args x ! 0; a1 = mi_args x ! 1; both = isReg a0 \<and> isReg a1;
          hit = (if mi_op x = GBase GBase_mov \<and> both \<and> is_concrete (ma_reg a0) \<and> \<not> is_concrete (ma_reg a1)
                 then Some (ma_reg a0, ma_reg a1)
                 else if mi_op x = GBase GBase_mov \<and> both \<and> is_concrete (ma_reg a1) \<and> \<not> is_concrete (ma_reg a0)
                 then Some (ma_reg a1, ma_reg a0)
                 else if mi_op x = GBase GBase_arg_setup \<and> both \<and> \<not> is_concrete (ma_reg a0) \<and> is_concrete (ma_reg a1)
                 then Some (ma_reg a1, ma_reg a0) else None)
      in case hit of
           None \<Rightarrow> None
         | Some (pinned, virtual) \<Rightarrow>
             if c_reg pinned = CReg_SP \<or> c_reg pinned = CReg_BP \<or> vreg_is_vec_reg pinned \<noteq> vreg_is_vec_reg virtual
             then None else hit)"

record join_state =
  js_colls :: collisions
  js_map :: reg_mapping

text \<open>Both \<^verbatim>\<open>ASSERT\<close>s, and the exceptions of \<^verbatim>\<open>at\<close>, are \<open>None\<close>.\<close>

definition join_instr :: "MInstr \<Rightarrow> join_state \<Rightarrow> join_state option" where
  "join_instr x s = (case join_hit x of
     None \<Rightarrow> Some s
   | Some (pinned, virtual) \<Rightarrow>
       (case js_colls s (reg_to_uid virtual) of
          None \<Rightarrow> None
        | Some other_colls \<Rightarrow>
            (case js_colls s (reg_to_uid pinned) of
               None \<Rightarrow> None
             | Some colls \<Rightarrow>
                 if reg_to_uid virtual \<notin> colls
                 then Some \<lparr>js_colls = (js_colls s)(reg_to_uid pinned \<mapsto> colls \<union> other_colls),
                        js_map = (js_map s)(virt_id virtual \<mapsto> c_reg pinned)\<rparr>
                 else Some s)))"

primrec join_instrs :: "MInstr list \<Rightarrow> join_state \<Rightarrow> join_state option" where
  "join_instrs [] s = Some s"
| "join_instrs (x # xs) s = (case join_instr x s of None \<Rightarrow> None | Some s' \<Rightarrow> join_instrs xs s')"

definition join_mapping :: "MFunc \<Rightarrow> reg_mapping option" where
  "join_mapping f = (case reg_coll f of
     None \<Rightarrow> None
   | Some (colls, _) \<Rightarrow>
       map_option js_map (join_instrs (concat (map (\<lambda>bb. rev (bb_instrs bb)) (rev (mf_bbs f))))
         \<lparr>js_colls = colls, js_map = Map.empty\<rparr>))"

definition register_joining :: "MFunc \<Rightarrow> MFunc option" where
  "register_joining f = map_option (\<lambda>m. f\<lparr>mf_bbs := replace_vargs_bbs m (mf_bbs f)\<rparr>) (join_mapping f)"

section \<open>The invariant\<close>

text \<open>The registers of the mapping are free in the original graph \<open>m\<close>, their interferences are among the ones the
  concrete register has by now, and two of one concrete register do not interfere.\<close>

definition join_inv :: "collisions \<Rightarrow> join_state \<Rightarrow> bool" where
  "join_inv m s \<longleftrightarrow> dom (js_colls s) = dom m \<and> (\<forall>a. nbrs m a \<subseteq> nbrs (js_colls s) a)
     \<and> (\<forall>v c. js_map s v = Some c \<longrightarrow> c \<in> allocatable \<and> numRegs + v \<notin> nbrs m (creg_code c - 1)
          \<and> nbrs m (numRegs + v) \<subseteq> nbrs (js_colls s) (creg_code c - 1))
     \<and> (\<forall>v w c. js_map s v = Some c \<and> js_map s w = Some c \<and> v \<noteq> w \<longrightarrow> numRegs + w \<notin> nbrs m (numRegs + v))"

lemma join_hit_cases:
  assumes "join_hit x = Some (pinned, virtual)"
  obtains ty c ty' v where "pinned = ConcR ty c" "virtual = VirtR ty' v" "c \<noteq> CReg_SP" "c \<noteq> CReg_BP"
    "isReg (mi_args x ! 0)" "isReg (mi_args x ! 1)" "{pinned, virtual} = {ma_reg (mi_args x ! 0), ma_reg (mi_args x ! 1)}"
proof -
  have h: "is_concrete pinned" "\<not> is_concrete virtual" "c_reg pinned \<noteq> CReg_SP" "c_reg pinned \<noteq> CReg_BP"
    "isReg (mi_args x ! 0)" "isReg (mi_args x ! 1)" "{pinned, virtual} = {ma_reg (mi_args x ! 0), ma_reg (mi_args x ! 1)}"
    using assms by (auto simp: join_hit_def Let_def split: if_splits option.splits)
  then show thesis using that by (cases pinned; cases virtual) (auto simp: is_concrete_def)
qed

lemma allocatable_iff: "c \<in> allocatable \<longleftrightarrow> c \<notin> {CReg_Virtual, CReg_SP, CReg_BP}"
  by (cases c) (auto simp: allocatable_def kAllocatableGPRegs_def kAllocatableVecRegs_def)

text \<open>The registers an instruction names have entries, and are registers.\<close>

definition join_code :: "collisions \<Rightarrow> MInstr \<Rightarrow> bool" where
  "join_code m x \<longleftrightarrow> (\<forall>k < 2. isReg (mi_args x ! k) \<longrightarrow> vreg_ok (ma_reg (mi_args x ! k)) \<and> reg_to_uid (ma_reg (mi_args x ! k)) \<in> dom m)"

lemma join_instr_inv:
  assumes m: "sym_coll m" and inv: "join_inv m s" and x: "join_code m x"
  shows "\<exists>s'. join_instr x s = Some s' \<and> join_inv m s'"
proof (cases "join_hit x")
  case None
  then show ?thesis using inv by (simp add: join_instr_def)
next
  case (Some pv)
  then obtain ty c ty' v where hit: "join_hit x = Some (ConcR ty c, VirtR ty' v)" "c \<noteq> CReg_SP" "c \<noteq> CReg_BP"
    and regs: "isReg (mi_args x ! 0)" "isReg (mi_args x ! 1)"
      "{ConcR ty c, VirtR ty' v} = {ma_reg (mi_args x ! 0), ma_reg (mi_args x ! 1)}"
    by (cases pv) (auto elim: join_hit_cases)
  let ?c = "creg_code c - 1" and ?v = "numRegs + v"
  have "vreg_ok r \<and> reg_to_uid r \<in> dom m" if "r \<in> {ConcR ty c, VirtR ty' v}" for r
    using that x regs(1,2) unfolding regs(3) join_code_def by (auto simp: numeral_2_eq_2 less_Suc_eq)
  from this[of "ConcR ty c"] this[of "VirtR ty' v"] have c: "c \<in> allocatable" and keys: "?c \<in> dom m" "?v \<in> dom m"
    using hit(2,3) by (simp_all add: allocatable_iff vreg_ok_def reg_to_uid_def)
  have d: "dom (js_colls s) = dom m" and grow: "nbrs m a \<subseteq> nbrs (js_colls s) a" for a using inv by (simp_all add: join_inv_def)
  obtain cs os where e: "js_colls s ?c = Some cs" "js_colls s ?v = Some os" using keys d by blast
  have n: "nbrs (js_colls s) ?c = cs" "nbrs (js_colls s) ?v = os" using e by (simp_all add: nbrs_def)
  show ?thesis
  proof (cases "?v \<in> cs")
    case True
    then show ?thesis using inv e hit(1) by (simp add: join_instr_def reg_to_uid_def)
  next
    case False
    define s' where "s' = \<lparr>js_colls = (js_colls s)(?c \<mapsto> cs \<union> os), js_map = (js_map s)(v \<mapsto> c)\<rparr>"
    have nb: "nbrs (js_colls s') a = (if a = ?c then cs \<union> os else nbrs (js_colls s) a)" for a by (simp add: nbrs_def s'_def)
    have mp: "js_map s' = (js_map s)(v \<mapsto> c)" "dom (js_colls s') = insert ?c (dom (js_colls s))" by (auto simp: s'_def)
    have up: "nbrs (js_colls s) a \<subseteq> nbrs (js_colls s') a" for a using n(1) by (auto simp: nb)
    have free: "?v \<notin> nbrs m ?c" using False n(1) grow by blast
    have other: "?v \<notin> nbrs m (numRegs + w)" if "js_map s w = Some c" for w
      using that inv False n(1) unfolding join_inv_def by blast
    have "c' \<in> allocatable \<and> numRegs + w \<notin> nbrs m (creg_code c' - 1) \<and> nbrs m (numRegs + w) \<subseteq> nbrs (js_colls s') (creg_code c' - 1)"
      if w: "js_map s' w = Some c'" for w c'
    proof (cases "w = v")
      case True
      then show ?thesis using w c free grow[of ?v] n(2) by (auto simp: nb mp)
    next
      case False
      then have "js_map s w = Some c'" using w by (simp add: mp)
      then show ?thesis using inv up unfolding join_inv_def by blast
    qed
    moreover have "numRegs + w \<notin> nbrs m (numRegs + u)"
      if "js_map s' u = Some c'" "js_map s' w = Some c'" "u \<noteq> w" for u w c'
      using that other m inv unfolding join_inv_def sym_coll_def mp by (auto split: if_splits)
    moreover have "dom (js_colls s') = dom m" "\<forall>a. nbrs m a \<subseteq> nbrs (js_colls s') a"
      using d keys grow up unfolding mp by blast+
    ultimately have "join_inv m s'" unfolding join_inv_def by blast
    then show ?thesis using e hit(1) False by (simp add: join_instr_def reg_to_uid_def s'_def)
  qed
qed

lemma join_instrs_inv:
  "sym_coll m \<Longrightarrow> join_inv m s \<Longrightarrow> \<forall>x \<in> set xs. join_code m x \<Longrightarrow> \<exists>s'. join_instrs xs s = Some s' \<and> join_inv m s'"
proof (induction xs arbitrary: s)
  case (Cons x xs)
  then obtain s' where "join_instr x s = Some s'" "join_inv m s'" using join_instr_inv by force
  then show ?case using Cons by simp
qed simp

text \<open>So the mapping keeps interfering registers apart.\<close>

lemma join_apart:
  assumes m: "sym_coll m" "\<Union> (ran m) \<subseteq> reg_uids" "dom m \<subseteq> reg_uids" and inv: "join_inv m s"
  shows "mapping_ok m (js_map s)"
proof -
  let ?p = "js_map s"
  have ran: "ran ?p \<subseteq> allocatable" using inv by (auto simp: join_inv_def ran_def)
  have cases: "(u + 1 < numRegs \<or> (\<exists>v. u = numRegs + v))" if u: "u \<in> reg_uids" for u
  proof -
    obtain r where "u = reg_to_uid r" using u by (auto simp: reg_uids_def)
    then show ?thesis using creg_code_less[of "c_reg r"] by (cases r) (auto simp: reg_to_uid_def numRegs_def)
  qed
  have one: "place_of ?p a \<noteq> place_of ?p (numRegs + v)" if a: "a \<in> nbrs m (numRegs + v)" "a + 1 < numRegs \<or> (\<exists>w. a = numRegs + w)"
    "a \<noteq> numRegs + v" for a v
  proof (cases "?p v")
    case None
    then have pv: "place_of ?p (numRegs + v) = numRegs + v" by (simp add: place_virtual)
    show ?thesis
    proof (cases "a + 1 < numRegs")
      case False
      then obtain w where w: "a = numRegs + w" using a(2) by blast
      have "creg_code c - 1 < numRegs" for c using creg_code_less[of c] by simp
      then show ?thesis using a(3) pv unfolding w place_virtual
        by (metis not_add_less1 option.case_eq_if)
    qed (simp add: pv place_concrete)
  next
    case (Some c)
    then have pv: "place_of ?p (numRegs + v) = creg_code c - 1" and free: "numRegs + v \<notin> nbrs m (creg_code c - 1)"
      and c: "c \<in> allocatable" using inv by (auto simp: place_virtual join_inv_def)
    show ?thesis
    proof (cases "a + 1 < numRegs")
      case True
      then show ?thesis using pv free a(1) m(1) place_concrete[of a] unfolding sym_coll_def by metis
    next
      case False
      then obtain w where w: "a = numRegs + w" using a(2) by blast
      have "?p w \<noteq> Some c" using a(1,3) inv Some unfolding w join_inv_def by auto
      moreover have "creg_code d - 1 \<noteq> creg_code c - 1" if "?p w = Some d" "d \<noteq> c" for d
      proof -
        have "d \<in> allocatable" using ran that(1) by (auto simp: ran_def)
        then have "creg_code d \<noteq> 0" "creg_code c \<noteq> 0" using c allocatable_codes by blast+
        then show ?thesis using creg_code_inj[of d c] that(2) by force
      qed
      moreover have "creg_code c - 1 < numRegs" using creg_code_less[of c] by simp
      moreover have "place_of ?p a = (case ?p w of None \<Rightarrow> numRegs + w | Some d \<Rightarrow> creg_code d - 1)" unfolding w by (rule place_virtual)
      ultimately show ?thesis unfolding pv by (auto split: option.split)
    qed
  qed
  have "place_of ?p c \<noteq> place_of ?p a" if ca: "c \<in> nbrs m a" "c \<noteq> a" for a c
  proof -
    have "a \<in> dom m" "c \<in> \<Union> (ran m)" using ca(1) by (auto simp: nbrs_def ran_def split: option.splits)
    then have k: "a + 1 < numRegs \<or> (\<exists>v. a = numRegs + v)" "c + 1 < numRegs \<or> (\<exists>v. c = numRegs + v)" using cases m(2,3) by blast+
    have ac: "a \<in> nbrs m c" using m(1) ca(1) by (simp add: sym_coll_def)
    consider v where "a = numRegs + v" | v where "c = numRegs + v" | "a + 1 < numRegs" "c + 1 < numRegs" using k by blast
    then show ?thesis
    proof cases
      case 1
      then show ?thesis using one[of c] ca k(2) by simp
    next
      case 2
      then show ?thesis using one[of a] ac ca(2) k(1) by metis
    qed (use ca(2) place_concrete in simp)
  qed
  then show ?thesis using ran by (simp add: mapping_ok_def set_apart_def)
qed

section \<open>Properties\<close>

text \<open>Registers are counted among the operands, and are registers.\<close>

definition regs_counted :: "MInstr \<Rightarrow> bool" where
  "regs_counted x \<longleftrightarrow> (\<forall>k < 4. isReg (mi_args x ! k) \<longrightarrow> k < mi_n_args x \<and> vreg_ok (ma_reg (mi_args x ! k)))"

lemma register_joining_maps:
  assumes f: "func_fits f" "\<forall>x \<in> set (all_instrs f). code_fits (n_unique_regs f) x \<and> regs_counted x"
    and m: "reg_coll f = Some (m, cross)"
  shows "\<exists>q. join_mapping f = Some q \<and> register_joining f = Some (replaced f q) \<and> mapping_ok m q"
proof -
  let ?xs = "concat (map (\<lambda>bb. rev (bb_instrs bb)) (rev (mf_bbs f)))"
  have code: "\<forall>x \<in> set (all_instrs f). code_fits (n_unique_regs f) x" using f(2) by blast
  have sym: "sym_coll m" using reg_coll_correct[OF f(1) code] m by auto
  note keys = reg_coll_keys[OF f(1) code m]
  have sub: "dom m \<subseteq> reg_uids" "\<Union> (ran m) \<subseteq> reg_uids" using keys(1) by (auto simp: keys_ok_def fun_uids_def)
  have "join_code m x" if x: "x \<in> set ?xs" for x
  proof -
    have x': "x \<in> set (all_instrs f)" using x by (auto simp: all_instrs_def)
    have "vreg_ok (ma_reg (mi_args x ! k)) \<and> reg_to_uid (ma_reg (mi_args x ! k)) \<in> dom m" if k: "k < 2" "isReg (mi_args x ! k)" for k
    proof -
      have "k < mi_n_args x" "vreg_ok (ma_reg (mi_args x ! k))" using f(2) x' k by (auto simp: regs_counted_def)
      then show ?thesis using keys(2)[OF x', of k] k(2) by (auto simp: arg_uids_def isReg_regs)
    qed
    then show ?thesis by (simp add: join_code_def)
  qed
  moreover have "join_inv m \<lparr>js_colls = m, js_map = Map.empty\<rparr>" by (simp add: join_inv_def)
  ultimately obtain s where s: "join_instrs ?xs \<lparr>js_colls = m, js_map = Map.empty\<rparr> = Some s" "join_inv m s"
    using join_instrs_inv[OF sym] by blast
  have "join_mapping f = Some (js_map s)" by (simp add: join_mapping_def m s(1))
  then show ?thesis using join_apart[OF sym sub(2,1) s(2)] by (simp add: register_joining_def replaced_def)
qed


text \<open>A function that moves a constant through a virtual register into \<^verbatim>\<open>rax\<close>.\<close>

definition join_sample :: "MInstr list" where
  "join_sample = [mk_instr (GBase GBase_mov) [MReg (ConcR Ty_Int64 CReg_A) Ty_Int64, MReg (VirtR Ty_Int64 0) Ty_Int64],
     mk_instr (GBase GBase_mov) [MReg (VirtR Ty_Int64 0) Ty_Int64, MReg (ConcR Ty_Int64 CReg_C) Ty_Int64]]"

lemma join_sample_runs: "map_option (\<lambda>s. js_map s 0) (join_instrs join_sample
    \<lparr>js_colls = [0 \<mapsto> {}, 2 \<mapsto> {numRegs}, numRegs \<mapsto> {2}], js_map = Map.empty\<rparr>) = Some (Some CReg_A)"
  by (simp add: join_sample_def join_instr_def join_hit_def mk_instr_def MReg_def retype_def marg0_def isReg_def is_concrete_def
      vreg_is_vec_reg_def less_eq_CReg_def less_eq_Type_def reg_to_uid_def numRegs_def)


end
