(* ===== verification/Marking.thy ===== *)
theory Marking
  imports Main "HOL-Library.While_Combinator"
begin

text \<open>
  A worklist that marks numbers: the step takes a marked number off the list and marks, of the numbers next
  to it, those a condition on the marked set allows. The locale proves that the loop ends and that the marked
  set is the least one that contains the start and is closed under the step, whatever the order of the list,
  if the condition only ever becomes true because of a number it is next to.
\<close>

definition mark_one :: "(nat set \<Rightarrow> nat \<Rightarrow> bool) \<Rightarrow> nat \<Rightarrow> nat set \<times> nat list \<Rightarrow> nat set \<times> nat list" where
  "mark_one ok p s = (case s of (M, ws) \<Rightarrow> if p \<notin> M \<and> ok M p then (insert p M, p # ws) else (M, ws))"

fun mark_step :: "(nat \<Rightarrow> nat list) \<Rightarrow> (nat set \<Rightarrow> nat \<Rightarrow> bool) \<Rightarrow> nat set \<times> nat list \<Rightarrow> nat set \<times> nat list" where
  "mark_step nxt ok (M, []) = (M, [])"
| "mark_step nxt ok (M, b # ws) = fold (mark_one ok) (nxt b) (M, ws)"

definition work_left :: "'a \<times> nat list \<Rightarrow> bool" where "work_left s = (snd s \<noteq> [])"

text \<open>What a run of the inner loop has done.\<close>

definition marked_by :: "(nat set \<Rightarrow> nat \<Rightarrow> bool) \<Rightarrow> nat list \<Rightarrow> nat set \<times> nat list \<Rightarrow> nat set \<times> nat list \<Rightarrow> bool" where
  "marked_by ok ps s t \<longleftrightarrow> (\<exists>new. snd t = new @ snd s \<and> fst t = fst s \<union> set new \<and> distinct new \<and> set new \<inter> fst s = {}
     \<and> set new \<subseteq> set ps) \<and> (\<forall>p \<in> set ps. ok (fst s) p \<longrightarrow> p \<in> fst t)"

locale marking =
  fixes n :: nat and nxt :: "nat \<Rightarrow> nat list" and ok :: "nat set \<Rightarrow> nat \<Rightarrow> bool"
  assumes nxt_in: "b < n \<Longrightarrow> set (nxt b) \<subseteq> {..<n}"
    and ok_mono: "ok M p \<Longrightarrow> M \<subseteq> M' \<Longrightarrow> ok M' p"
    and ok_trigger: "ok M' p \<Longrightarrow> \<not> ok M p \<Longrightarrow> M \<subseteq> M' \<Longrightarrow> p < n \<Longrightarrow> M' \<subseteq> {..<n} \<Longrightarrow> \<exists>x \<in> M' - M. p \<in> set (nxt x)"
begin

definition closed :: "nat set \<Rightarrow> bool" where
  "closed C \<longleftrightarrow> (\<forall>b \<in> C. \<forall>p \<in> set (nxt b). ok C p \<longrightarrow> p \<in> C)"

lemma fold_marks: "marked_by ok ps (M, ws) (fold (mark_one ok) ps (M, ws))"
proof (induction ps arbitrary: M ws)
  case Nil
  show ?case by (simp add: marked_by_def)
next
  case (Cons p ps)
  show ?case
  proof (cases "p \<notin> M \<and> ok M p")
    case True
    obtain new where new: "snd (fold (mark_one ok) ps (insert p M, p # ws)) = new @ p # ws"
      "fst (fold (mark_one ok) ps (insert p M, p # ws)) = insert p M \<union> set new" "distinct new"
      "set new \<inter> insert p M = {}" "set new \<subseteq> set ps"
      and all: "\<forall>q \<in> set ps. ok (insert p M) q \<longrightarrow> q \<in> fst (fold (mark_one ok) ps (insert p M, p # ws))"
      using Cons[of "insert p M" "p # ws"] unfolding marked_by_def by auto
    have "\<forall>q \<in> set (p # ps). ok M q \<longrightarrow> q \<in> fst (fold (mark_one ok) ps (insert p M, p # ws))"
      using all new(2) ok_mono[of M _ "insert p M"] by auto
    then show ?thesis using new True unfolding marked_by_def
      by (intro conjI exI[of _ "new @ [p]"]) (auto simp: mark_one_def)
  next
    case False
    then have "fold (mark_one ok) (p # ps) (M, ws) = fold (mark_one ok) ps (M, ws)" by (auto simp: mark_one_def)
    then show ?thesis using Cons[of M ws] False unfolding marked_by_def by (simp only:) auto
  qed
qed

definition mark_inv :: "nat set \<Rightarrow> nat set \<times> nat list \<Rightarrow> bool" where
  "mark_inv I s \<longleftrightarrow> (case s of (M, ws) \<Rightarrow> set ws \<subseteq> M \<and> M \<subseteq> {..<n} \<and> distinct ws \<and> I \<subseteq> M
     \<and> (\<forall>C. I \<subseteq> C \<and> closed C \<longrightarrow> M \<subseteq> C)
     \<and> (\<forall>b \<in> M - set ws. \<forall>p \<in> set (nxt b). ok (M - set ws) p \<longrightarrow> p \<in> M))"

text \<open>Newly marked numbers are in every closed set above the start.\<close>

lemma fold_least:
  assumes "M \<subseteq> C" "closed C" "b \<in> C" "set ps \<subseteq> set (nxt b)"
  shows "fst (fold (mark_one ok) ps (M, ws)) \<subseteq> C"
  using assms(1,4)
proof (induction ps arbitrary: M ws)
  case (Cons p ps)
  have "insert p M \<subseteq> C" if "ok M p" using that assms(2,3) Cons.prems ok_mono[of M p C] unfolding closed_def by auto
  then show ?case using Cons by (simp add: mark_one_def)
qed simp

lemma mark_inv_step:
  assumes "mark_inv I (M, b # ws)"
  shows "mark_inv I (mark_step nxt ok (M, b # ws))"
proof -
  have b: "b \<in> M" "b < n" "set ws \<subseteq> M" "M \<subseteq> {..<n}" "distinct ws" "b \<notin> set ws" "I \<subseteq> M"
    and least: "\<And>C. I \<subseteq> C \<Longrightarrow> closed C \<Longrightarrow> M \<subseteq> C"
    and old: "\<And>c p. c \<in> M - set (b # ws) \<Longrightarrow> p \<in> set (nxt c) \<Longrightarrow> ok (M - set (b # ws)) p \<Longrightarrow> p \<in> M"
    using assms by (auto simp: mark_inv_def)
  obtain M2 ws2 where t: "fold (mark_one ok) (nxt b) (M, ws) = (M2, ws2)" by fastforce
  obtain new where new: "ws2 = new @ ws" "M2 = M \<union> set new" "distinct new" "set new \<inter> M = {}" "set new \<subseteq> set (nxt b)"
    and all: "\<And>p. p \<in> set (nxt b) \<Longrightarrow> ok M p \<Longrightarrow> p \<in> M2"
    using fold_marks[of "nxt b" M ws] unfolding marked_by_def t by auto
  have P: "M2 - set ws2 = M - set ws" using new b(3) by auto
  have "p \<in> M2" if c: "c \<in> M - set ws" "p \<in> set (nxt c)" "ok (M - set ws) p" for c p
  proof (cases "p \<in> set (nxt b)")
    case True
    then show ?thesis using all[OF True] ok_mono[OF c(3), of M] by auto
  next
    case False
    then have cb: "c \<noteq> b" using c(2) by auto
    have "p < n" using nxt_in[of c] c(1,2) b(4) by auto
    have "ok (M - set (b # ws)) p"
    proof (rule ccontr)
      assume "\<not> ok (M - set (b # ws)) p"
      then obtain x where "x \<in> (M - set ws) - (M - set (b # ws))" "p \<in> set (nxt x)"
        using ok_trigger[OF c(3), of "M - set (b # ws)"] \<open>p < n\<close> b(4) by auto
      then show False using False by auto
    qed
    then show ?thesis using old[of c p] c(1,2) cb new(2) by auto
  qed
  moreover have "M2 \<subseteq> C" if "I \<subseteq> C" "closed C" for C
    using fold_least[OF least[OF that] that(2), of b "nxt b" ws] least[OF that] b(1) t by auto
  moreover have "M2 \<subseteq> {..<n}" using new(2,5) nxt_in[OF b(2)] b(4) by auto
  moreover have "set ws2 \<subseteq> M2" "distinct ws2" "I \<subseteq> M2" using new b by auto
  ultimately show ?thesis unfolding mark_step.simps(2) t mark_inv_def prod.case P by blast
qed

text \<open>The start may hold numbers that are not on the list, if nothing is next to them.\<close>

definition mark_start :: "nat set \<Rightarrow> nat list \<Rightarrow> bool" where
  "mark_start I ws \<longleftrightarrow> set ws \<subseteq> I \<and> distinct ws \<and> I \<subseteq> {..<n} \<and> (\<forall>b \<in> I - set ws. nxt b = [])"

lemma mark_inv_start: "mark_start I ws \<Longrightarrow> mark_inv I (I, ws)"
  by (auto simp: mark_inv_def mark_start_def)

lemma mark_measure:
  assumes "mark_inv I (M, b # ws)"
  shows "(mark_step nxt ok (M, b # ws), (M, b # ws)) \<in> measures [\<lambda>s. n - card (fst s), \<lambda>s. length (snd s)]"
proof -
  have b: "M \<subseteq> {..<n}" "mark_inv I (mark_step nxt ok (M, b # ws))"
    using assms mark_inv_step[OF assms] by (auto simp: mark_inv_def)
  obtain M2 ws2 where t: "fold (mark_one ok) (nxt b) (M, ws) = (M2, ws2)" by fastforce
  obtain new where new: "ws2 = new @ ws" "M2 = M \<union> set new" "distinct new" "set new \<inter> M = {}"
    using fold_marks[of "nxt b" M ws] unfolding marked_by_def t by auto
  have fin: "finite M" "finite M2" "card M2 \<le> n" "M2 \<subseteq> {..<n}"
    using b t card_mono[of "{..<n}" M2] by (auto simp: mark_inv_def finite_subset[of _ "{..<n}"])
  show ?thesis
  proof (cases "new = []")
    case True
    then show ?thesis using new t by simp
  next
    case False
    then have "M \<subset> M2" using new by (cases new) auto
    then have "card M < card M2" using fin(2) psubset_card_mono by blast
    then have "n - card M2 < n - card M" using fin(3) by linarith
    then show ?thesis using t by simp
  qed
qed

lemma marking_ends:
  assumes "mark_start I ws"
  shows "\<exists>M. while_option work_left (mark_step nxt ok) (I, ws) = Some (M, []) \<and> mark_inv I (M, [])"
proof -
  have cons: "\<exists>M b ws. s = (M, b # ws)" if "work_left s" for s :: "nat set \<times> nat list"
    using that by (cases s) (auto simp: work_left_def neq_Nil_conv)
  have "\<exists>t. while_option work_left (mark_step nxt ok) (I, ws) = Some t"
  proof (rule wf_rel_while_option_Some[where P = "mark_inv I"])
    show "wf (measures [\<lambda>s :: nat set \<times> nat list. n - card (fst s), \<lambda>s. length (snd s)])" by simp
    show "(mark_step nxt ok s, s) \<in> measures [\<lambda>s. n - card (fst s), \<lambda>s. length (snd s)]"
      if "mark_inv I s \<and> work_left s" for s using that cons[of s] mark_measure by blast
    show "mark_inv I (mark_step nxt ok s)" if "mark_inv I s \<and> work_left s" for s
      using that cons[of s] mark_inv_step by blast
  qed (rule mark_inv_start[OF assms])
  then obtain t where t: "while_option work_left (mark_step nxt ok) (I, ws) = Some t" ..
  have "mark_inv I t"
    by (rule while_option_rule[where P = "mark_inv I", OF _ t mark_inv_start[OF assms]]) (use cons mark_inv_step in blast)
  moreover have "snd t = []" using while_option_stop[OF t] by (simp add: work_left_def)
  ultimately show ?thesis using t by (cases t) auto
qed

text \<open>The result: the least closed set above the start.\<close>

lemma marked_closed:
  assumes "mark_inv I (M, [])"
  shows "I \<subseteq> M" "closed M" "M \<subseteq> {..<n}" "I \<subseteq> C \<Longrightarrow> closed C \<Longrightarrow> M \<subseteq> C"
  using assms by (auto simp: mark_inv_def closed_def)

end

end
