(* ===== verification/BlockInfo.thy ===== *)
theory BlockInfo
  imports MIRLive Marking
begin

text \<open>
  The static block frequencies (\<^verbatim>\<open>src/src/mir/analysis/block_info.hpp\<close>): a depth first search from the
  entry finds the back edges, a walk over the predecessors of their tails the loops, and a worklist the cold
  blocks, which are not reached or lead only to \<^verbatim>\<open>unreach\<close>. The two walks are instances of one marking
  loop, whose laws are proved in a locale.
\<close>

section \<open>The analysis\<close>

datatype Color = White | Grey | Black

text \<open>The state of the search. The end of the vector \<^verbatim>\<open>stack\<close> is the head of the list.\<close>

record dfs_state =
  df_color :: "Color list"
  df_tails :: "nat list list"
  df_stack :: "(nat \<times> nat) list"

definition dfs_step :: "CFG \<Rightarrow> dfs_state \<Rightarrow> dfs_state" where
  "dfs_step cfg s = (case df_stack s of
     [] \<Rightarrow> s
   | (bb, i) # rest \<Rightarrow>
       (let succ = cfg_succ (cfg_bbrs cfg ! bb)
        in if i < length succ
           then (let t = succ ! i; stack = (bb, Suc i) # rest
                 in case df_color s ! t of
                      White \<Rightarrow> s\<lparr>df_color := (df_color s)[t := Grey], df_stack := (t, 0) # stack\<rparr>
                    | Grey \<Rightarrow> s\<lparr>df_tails := (df_tails s)[t := df_tails s ! t @ [bb]], df_stack := stack\<rparr>
                    | Black \<Rightarrow> s\<lparr>df_stack := stack\<rparr>)
           else s\<lparr>df_color := (df_color s)[bb := Black], df_stack := rest\<rparr>))"

definition dfs_pending :: "dfs_state \<Rightarrow> bool" where "dfs_pending s = (df_stack s \<noteq> [])"

definition dfs_init :: "nat \<Rightarrow> dfs_state" where
  "dfs_init n = \<lparr>df_color = (replicate n White)[0 := Grey], df_tails = replicate n [], df_stack = [(0, 0)]\<rparr>"

text \<open>The loop of a header: the marks are the header's number plus one, so they need no reset.\<close>

type_synonym marks = "nat list \<times> nat list"

definition mark_tail :: "nat \<Rightarrow> nat \<Rightarrow> marks \<Rightarrow> marks" where
  "mark_tail h t s = (case s of (mark, work) \<Rightarrow>
     if mark ! t \<noteq> h + 1 then (mark[t := h + 1], t # work) else (mark, work))"

definition mark_pred :: "Color list \<Rightarrow> nat \<Rightarrow> nat \<Rightarrow> marks \<Rightarrow> marks" where
  "mark_pred color h p s = (case s of (mark, work) \<Rightarrow>
     if mark ! p \<noteq> h + 1 \<and> color ! p = Black then (mark[p := h + 1], p # work) else (mark, work))"

definition loop_step :: "CFG \<Rightarrow> Color list \<Rightarrow> nat \<Rightarrow> marks \<Rightarrow> marks" where
  "loop_step cfg color h s = (case s of
     (mark, []) \<Rightarrow> (mark, [])
   | (mark, b # work) \<Rightarrow> fold (mark_pred color h) (cfg_pred (cfg_bbrs cfg ! b)) (mark, work))"

definition loop_header :: "CFG \<Rightarrow> Color list \<Rightarrow> nat list list \<Rightarrow> nat \<Rightarrow> nat list \<times> nat list \<Rightarrow> (nat list \<times> nat list) option" where
  "loop_header cfg color tails h s = (case s of (mark, depth) \<Rightarrow>
     if tails ! h = [] then Some (mark, depth)
     else (case while_option work_left (loop_step cfg color h) (fold (mark_tail h) (tails ! h) (mark[h := h + 1], [])) of
             None \<Rightarrow> None
           | Some (mark, _) \<Rightarrow> Some (mark, map (\<lambda>b. if mark ! b = h + 1 then depth ! b + 1 else depth ! b) [0..<length depth])))"

primrec loop_headers :: "CFG \<Rightarrow> Color list \<Rightarrow> nat list list \<Rightarrow> nat list \<Rightarrow> nat list \<times> nat list \<Rightarrow> (nat list \<times> nat list) option" where
  "loop_headers cfg color tails [] s = Some s"
| "loop_headers cfg color tails (h # hs) s =
     (case loop_header cfg color tails h s of None \<Rightarrow> None | Some s' \<Rightarrow> loop_headers cfg color tails hs s')"

text \<open>Cold blocks.\<close>

type_synonym cold_state = "bool list \<times> nat list"

definition ends_unreach :: "MInstr list \<Rightarrow> bool" where
  "ends_unreach xs \<longleftrightarrow> xs \<noteq> [] \<and> mi_op (last xs) = GBase GBase_unreach"

definition cold_start :: "MFunc \<Rightarrow> Color list \<Rightarrow> nat \<Rightarrow> cold_state \<Rightarrow> cold_state" where
  "cold_start f color b s = (case s of (cold, work) \<Rightarrow>
     if color ! b \<noteq> Black \<or> ends_unreach (bb_instrs (mf_bbs f ! b)) then (cold[b := True], b # work) else (cold, work))"

definition cold_pred :: "CFG \<Rightarrow> nat \<Rightarrow> cold_state \<Rightarrow> cold_state" where
  "cold_pred cfg p s = (case s of (cold, work) \<Rightarrow>
     if cold ! p then (cold, work)
     else if fold (\<lambda>t all_cold. all_cold \<and> cold ! t) (cfg_succ (cfg_bbrs cfg ! p)) True
     then (cold[p := True], p # work) else (cold, work))"

definition cold_step :: "CFG \<Rightarrow> cold_state \<Rightarrow> cold_state" where
  "cold_step cfg s = (case s of
     (cold, []) \<Rightarrow> (cold, [])
   | (cold, b # work) \<Rightarrow> fold (cold_pred cfg) (cfg_pred (cfg_bbrs cfg ! b)) (cold, work))"

record BlockInfo =
  loop_depth :: "nat list"
  cold :: "bool list"

text \<open>The loops have no bound in the code; \<open>None\<close> would mean that one of them does not end.\<close>

definition analyze_blocks :: "MFunc \<Rightarrow> CFG \<Rightarrow> BlockInfo option" where
  "analyze_blocks f cfg =
     (let n = length (mf_bbs f)
      in case while_option dfs_pending (dfs_step cfg) (dfs_init n) of
           None \<Rightarrow> None
         | Some d \<Rightarrow>
             (case loop_headers cfg (df_color d) (df_tails d) [0..<n] (replicate n 0, replicate n 0) of
                None \<Rightarrow> None
              | Some (_, depth) \<Rightarrow>
                  (case while_option work_left (cold_step cfg)
                      (fold (cold_start f (df_color d)) [0..<n] (replicate n False, [])) of
                     None \<Rightarrow> None
                   | Some (cd, _) \<Rightarrow> Some \<lparr>loop_depth = depth, cold = cd\<rparr>)))"

section \<open>The search\<close>

inductive block_reached :: "MFunc \<Rightarrow> nat \<Rightarrow> bool" for f where
  br_entry: "block_reached f 0"
| br_edge: "block_reached f b \<Longrightarrow> c \<in> set (bb_succs f b) \<Longrightarrow> block_reached f c"

lemma cfg_lookup:
  assumes "func_fits f" "b < length (mf_bbs f)"
  shows "cfg_succ (cfg_bbrs (cfg_update f False) ! b) = bb_succs f b"
    "cfg_pred (cfg_bbrs (cfg_update f False) ! b) = bb_preds f b"
  using assms by (simp_all add: cfg_update_def cfg_edges_nth(2) bb_preds_def func_fits_bb(2))

text \<open>Grey blocks are the ones on the stack; a black block has no white successor, nor has a grey one among
  those already looked at.\<close>

definition dfs_inv :: "MFunc \<Rightarrow> dfs_state \<Rightarrow> bool" where
  "dfs_inv f s \<longleftrightarrow> length (df_color s) = length (mf_bbs f) \<and> length (df_tails s) = length (mf_bbs f)
     \<and> distinct (map fst (df_stack s))
     \<and> (\<forall>b k. (b, k) \<in> set (df_stack s) \<longrightarrow> b < length (mf_bbs f) \<and> k \<le> length (bb_succs f b) \<and> df_color s ! b = Grey)
     \<and> (\<forall>b k i. (b, k) \<in> set (df_stack s) \<longrightarrow> i < k \<longrightarrow> df_color s ! (bb_succs f b ! i) \<noteq> White)
     \<and> (\<forall>b. b < length (mf_bbs f) \<longrightarrow> df_color s ! b = Grey \<longrightarrow> b \<in> fst ` set (df_stack s))
     \<and> (\<forall>b c. b < length (mf_bbs f) \<longrightarrow> df_color s ! b = Black \<longrightarrow> c \<in> set (bb_succs f b) \<longrightarrow> df_color s ! c \<noteq> White)
     \<and> df_color s ! 0 \<noteq> White
     \<and> (\<forall>b. b < length (mf_bbs f) \<longrightarrow> df_color s ! b \<noteq> White \<longrightarrow> block_reached f b)
     \<and> (\<forall>h t. h < length (mf_bbs f) \<longrightarrow> t \<in> set (df_tails s ! h) \<longrightarrow>
          t < length (mf_bbs f) \<and> h \<in> set (bb_succs f t) \<and> block_reached f t)"

lemma dfs_invI:
  assumes "length (df_color s) = length (mf_bbs f)" "length (df_tails s) = length (mf_bbs f)" "distinct (map fst (df_stack s))"
    "\<And>b k. (b, k) \<in> set (df_stack s) \<Longrightarrow> b < length (mf_bbs f) \<and> k \<le> length (bb_succs f b) \<and> df_color s ! b = Grey"
    "\<And>b k i. (b, k) \<in> set (df_stack s) \<Longrightarrow> i < k \<Longrightarrow> df_color s ! (bb_succs f b ! i) \<noteq> White"
    "\<And>b. b < length (mf_bbs f) \<Longrightarrow> df_color s ! b = Grey \<Longrightarrow> b \<in> fst ` set (df_stack s)"
    "\<And>b c. b < length (mf_bbs f) \<Longrightarrow> df_color s ! b = Black \<Longrightarrow> c \<in> set (bb_succs f b) \<Longrightarrow> df_color s ! c \<noteq> White"
    "df_color s ! 0 \<noteq> White" "\<And>b. b < length (mf_bbs f) \<Longrightarrow> df_color s ! b \<noteq> White \<Longrightarrow> block_reached f b"
    "\<And>h t. h < length (mf_bbs f) \<Longrightarrow> t \<in> set (df_tails s ! h) \<Longrightarrow> t < length (mf_bbs f) \<and> h \<in> set (bb_succs f t) \<and> block_reached f t"
  shows "dfs_inv f s"
  unfolding dfs_inv_def
  by (rule conjI[OF assms(1) conjI[OF assms(2) conjI[OF assms(3)]]], rule conjI, intro allI impI, rule assms(4), assumption,
      rule conjI, intro allI impI, rule assms(5), assumption, assumption, rule conjI, intro allI impI, rule assms(6), assumption,
      assumption, rule conjI, intro allI impI, rule assms(7), assumption, assumption, assumption, rule conjI[OF assms(8)],
      rule conjI, intro allI impI, rule assms(9), assumption, assumption, intro allI impI, rule assms(10), assumption, assumption)

lemma dfs_invD:
  assumes "dfs_inv f s"
  shows "length (df_color s) = length (mf_bbs f)" "length (df_tails s) = length (mf_bbs f)" "distinct (map fst (df_stack s))"
    "\<And>b k. (b, k) \<in> set (df_stack s) \<Longrightarrow> b < length (mf_bbs f) \<and> k \<le> length (bb_succs f b) \<and> df_color s ! b = Grey"
    "\<And>b k i. (b, k) \<in> set (df_stack s) \<Longrightarrow> i < k \<Longrightarrow> df_color s ! (bb_succs f b ! i) \<noteq> White"
    "\<And>b. b < length (mf_bbs f) \<Longrightarrow> df_color s ! b = Grey \<Longrightarrow> b \<in> fst ` set (df_stack s)"
    "\<And>b c. b < length (mf_bbs f) \<Longrightarrow> df_color s ! b = Black \<Longrightarrow> c \<in> set (bb_succs f b) \<Longrightarrow> df_color s ! c \<noteq> White"
    "df_color s ! 0 \<noteq> White" "\<And>b. b < length (mf_bbs f) \<Longrightarrow> df_color s ! b \<noteq> White \<Longrightarrow> block_reached f b"
    "\<And>h t. h < length (mf_bbs f) \<Longrightarrow> t \<in> set (df_tails s ! h) \<Longrightarrow> t < length (mf_bbs f) \<and> h \<in> set (bb_succs f t) \<and> block_reached f t"
proof -
  note P = assms[unfolded dfs_inv_def]
  show "length (df_color s) = length (mf_bbs f)" by (rule P[THEN conjunct1])
  show "length (df_tails s) = length (mf_bbs f)" by (rule P[THEN conjunct2, THEN conjunct1])
  show "distinct (map fst (df_stack s))" by (rule P[THEN conjunct2, THEN conjunct2, THEN conjunct1])
  show "\<And>b k. (b, k) \<in> set (df_stack s) \<Longrightarrow> b < length (mf_bbs f) \<and> k \<le> length (bb_succs f b) \<and> df_color s ! b = Grey"
    by (rule P[THEN conjunct2, THEN conjunct2, THEN conjunct2, THEN conjunct1, rule_format]; assumption)
  show "\<And>b k i. (b, k) \<in> set (df_stack s) \<Longrightarrow> i < k \<Longrightarrow> df_color s ! (bb_succs f b ! i) \<noteq> White"
    by (rule P[THEN conjunct2, THEN conjunct2, THEN conjunct2, THEN conjunct2, THEN conjunct1, rule_format]; assumption)
  show "\<And>b. b < length (mf_bbs f) \<Longrightarrow> df_color s ! b = Grey \<Longrightarrow> b \<in> fst ` set (df_stack s)"
    by (rule P[THEN conjunct2, THEN conjunct2, THEN conjunct2, THEN conjunct2, THEN conjunct2, THEN conjunct1, rule_format]; assumption)
  show "\<And>b c. b < length (mf_bbs f) \<Longrightarrow> df_color s ! b = Black \<Longrightarrow> c \<in> set (bb_succs f b) \<Longrightarrow> df_color s ! c \<noteq> White"
    by (rule P[THEN conjunct2, THEN conjunct2, THEN conjunct2, THEN conjunct2, THEN conjunct2, THEN conjunct2, THEN conjunct1, rule_format]; assumption)
  show "df_color s ! 0 \<noteq> White" by (rule P[THEN conjunct2, THEN conjunct2, THEN conjunct2, THEN conjunct2, THEN conjunct2, THEN conjunct2, THEN conjunct2, THEN conjunct1])
  show "\<And>b. b < length (mf_bbs f) \<Longrightarrow> df_color s ! b \<noteq> White \<Longrightarrow> block_reached f b"
    by (rule P[THEN conjunct2, THEN conjunct2, THEN conjunct2, THEN conjunct2, THEN conjunct2, THEN conjunct2, THEN conjunct2, THEN conjunct2, THEN conjunct1, rule_format]; assumption)
  show "\<And>h t. h < length (mf_bbs f) \<Longrightarrow> t \<in> set (df_tails s ! h) \<Longrightarrow> t < length (mf_bbs f) \<and> h \<in> set (bb_succs f t) \<and> block_reached f t"
    by (rule P[THEN conjunct2, THEN conjunct2, THEN conjunct2, THEN conjunct2, THEN conjunct2, THEN conjunct2, THEN conjunct2, THEN conjunct2, THEN conjunct2, rule_format]; assumption)
qed

text \<open>The four outcomes of a step, as changes of the three components.\<close>

lemma dfs_inv_leave:
  assumes inv: "dfs_inv f s" and st: "df_stack s = (b, length (bb_succs f b)) # rest"
  shows "dfs_inv f (s\<lparr>df_color := (df_color s)[b := Black], df_stack := rest\<rparr>)"
proof -
  note I = dfs_invD[OF inv]
  have b: "b < length (mf_bbs f)" "df_color s ! b = Grey" "b \<notin> fst ` set rest" using I(3) I(4)[of b] st by auto
  have nw: "(df_color s)[b := Black] ! c \<noteq> White \<longleftrightarrow> df_color s ! c \<noteq> White" for c using b(1,2) I(1) by (cases "c = b") auto
  have sc: "df_color s ! c \<noteq> White" if "c \<in> set (bb_succs f b)" for c
    using that I(5)[of b "length (bb_succs f b)"] st by (auto simp: in_set_conv_nth)
  show ?thesis
  proof (rule dfs_invI)
    show "e < length (mf_bbs f) \<and> k \<le> length (bb_succs f e) \<and> df_color (s\<lparr>df_color := (df_color s)[b := Black], df_stack := rest\<rparr>) ! e = Grey"
      if "(e, k) \<in> set (df_stack (s\<lparr>df_color := (df_color s)[b := Black], df_stack := rest\<rparr>))" for e k
      using that I(4)[of e k] st b(3) by (cases "e = b") force+
    show "df_color (s\<lparr>df_color := (df_color s)[b := Black], df_stack := rest\<rparr>) ! (bb_succs f e ! i) \<noteq> White"
      if "(e, k) \<in> set (df_stack (s\<lparr>df_color := (df_color s)[b := Black], df_stack := rest\<rparr>))" "i < k" for e k i
      using that I(5)[of e k i] st nw by simp
    show "block_reached f e"
      if "e < length (mf_bbs f)" "df_color (s\<lparr>df_color := (df_color s)[b := Black], df_stack := rest\<rparr>) ! e \<noteq> White" for e
      using that I(9)[of e] nw[of e] by simp
    show "u < length (mf_bbs f) \<and> h \<in> set (bb_succs f u) \<and> block_reached f u"
      if "h < length (mf_bbs f)" "u \<in> set (df_tails (s\<lparr>df_color := (df_color s)[b := Black], df_stack := rest\<rparr>) ! h)" for h u
      using that I(10) by simp
    show "e \<in> fst ` set (df_stack (s\<lparr>df_color := (df_color s)[b := Black], df_stack := rest\<rparr>))"
      if "e < length (mf_bbs f)" "df_color (s\<lparr>df_color := (df_color s)[b := Black], df_stack := rest\<rparr>) ! e = Grey" for e
      using that I(6)[of e] st I(1) b by (cases "e = b") auto
    show "df_color (s\<lparr>df_color := (df_color s)[b := Black], df_stack := rest\<rparr>) ! c \<noteq> White"
      if "e < length (mf_bbs f)" "df_color (s\<lparr>df_color := (df_color s)[b := Black], df_stack := rest\<rparr>) ! e = Black" "c \<in> set (bb_succs f e)" for e c
      using that I(7)[of e c] sc[of c] nw[of c] by (cases "e = b") auto
  qed (use I(1,2,3,8) st nw[of 0] in simp_all)
qed

lemma dfs_inv_enter:
  assumes inv: "dfs_inv f s" and st: "df_stack s = (b, k) # rest" and k: "k < length (bb_succs f b)"
    and t: "t = bb_succs f b ! k" "df_color s ! t = White" "t < length (mf_bbs f)"
  shows "dfs_inv f (s\<lparr>df_color := (df_color s)[t := Grey], df_stack := (t, 0) # (b, Suc k) # rest\<rparr>)"
proof -
  let ?s = "s\<lparr>df_color := (df_color s)[t := Grey], df_stack := (t, 0) # (b, Suc k) # rest\<rparr>"
  note I = dfs_invD[OF inv]
  have b: "b < length (mf_bbs f)" "df_color s ! b = Grey" using I(4)[of b k] st by auto
  have off: "t \<notin> fst ` set (df_stack s)" using I(4) t(2) by force
  have tt: "df_color ?s ! t = Grey" using t(3) I(1) by simp
  have other: "df_color ?s ! c = df_color s ! c" if "c \<noteq> t" for c using that by simp
  have nw: "df_color ?s ! c \<noteq> White" if "df_color s ! c \<noteq> White \<or> c = t" for c using that tt other by (cases "c = t") auto
  have on: "(e, j) \<in> set (df_stack ?s) \<longleftrightarrow> (e, j) = (t, 0) \<or> (e, j) = (b, Suc k) \<or> (e, j) \<in> set rest" for e j by auto
  have rt: "block_reached f t" using br_edge[OF I(9)[OF b(1)]] b(2) nth_mem[OF k] t(1) by simp
  show ?thesis
  proof (rule dfs_invI)
    show "e < length (mf_bbs f) \<and> j \<le> length (bb_succs f e) \<and> df_color ?s ! e = Grey" if "(e, j) \<in> set (df_stack ?s)" for e j
      using that t(3) tt b k I(4)[of e j] other[of e] st unfolding on by (cases "e = t") auto
    show "df_color ?s ! (bb_succs f e ! i) \<noteq> White" if "(e, j) \<in> set (df_stack ?s)" "i < j" for e j i
    proof (rule nw)
      show "df_color s ! (bb_succs f e ! i) \<noteq> White \<or> bb_succs f e ! i = t"
        using that I(5)[of e j i] I(5)[of b k i] st t(1) unfolding on by (auto simp: less_Suc_eq)
    qed
    show "e \<in> fst ` set (df_stack ?s)" if "e < length (mf_bbs f)" "df_color ?s ! e = Grey" for e
      using that I(6)[of e] st other[of e] by (cases "e = t") auto
    show "df_color ?s ! c \<noteq> White" if "e < length (mf_bbs f)" "df_color ?s ! e = Black" "c \<in> set (bb_succs f e)" for e c
      using that I(7)[of e c] tt other[of e] nw[of c] by (cases "e = t") auto
    show "block_reached f e" if "e < length (mf_bbs f)" "df_color ?s ! e \<noteq> White" for e
      using that I(9)[of e] rt other[of e] by (cases "e = t") auto
    show "df_color ?s ! 0 \<noteq> White" by (rule nw) (use I(8) in simp)
    show "distinct (map fst (df_stack ?s))" using I(3) off st by simp
    show "u < length (mf_bbs f) \<and> h \<in> set (bb_succs f u) \<and> block_reached f u"
      if "h < length (mf_bbs f)" "u \<in> set (df_tails ?s ! h)" for h u using that I(10) by simp
  qed (use I(1,2,8) in simp_all)
qed

lemma dfs_inv_pass:
  assumes inv: "dfs_inv f s" and st: "df_stack s = (b, k) # rest" and k: "k < length (bb_succs f b)"
    and t: "t = bb_succs f b ! k" "df_color s ! t \<noteq> White" "t < length (mf_bbs f)"
    and tails: "tails = df_tails s \<or> tails = (df_tails s)[t := df_tails s ! t @ [b]]"
  shows "dfs_inv f (s\<lparr>df_tails := tails, df_stack := (b, Suc k) # rest\<rparr>)"
proof -
  let ?s = "s\<lparr>df_tails := tails, df_stack := (b, Suc k) # rest\<rparr>"
  note I = dfs_invD[OF inv]
  have b: "b < length (mf_bbs f)" "df_color s ! b = Grey" using I(4)[of b k] st by auto
  have on: "(e, j) \<in> set (df_stack ?s) \<longleftrightarrow> (e, j) = (b, Suc k) \<or> (e, j) \<in> set rest" for e j by auto
  show ?thesis
  proof (rule dfs_invI)
    show "e < length (mf_bbs f) \<and> j \<le> length (bb_succs f e) \<and> df_color ?s ! e = Grey" if "(e, j) \<in> set (df_stack ?s)" for e j
      using that b k I(4)[of e j] st unfolding on by auto
    show "df_color ?s ! (bb_succs f e ! i) \<noteq> White" if "(e, j) \<in> set (df_stack ?s)" "i < j" for e j i
      using that I(5)[of e j i] I(5)[of b k i] st t(1,2) unfolding on by (auto simp: less_Suc_eq)
    show "e \<in> fst ` set (df_stack ?s)" if "e < length (mf_bbs f)" "df_color ?s ! e = Grey" for e
      using that I(6)[of e] st by auto
    show "u < length (mf_bbs f) \<and> h \<in> set (bb_succs f u) \<and> block_reached f u"
      if "h < length (mf_bbs f)" "u \<in> set (df_tails ?s ! h)" for h u
    proof -
      have "u \<in> set (df_tails s ! h) \<or> h = t \<and> u = b" using tails that t(3) I(2) by (auto simp: nth_list_update split: if_splits)
      then show ?thesis using I(10)[OF that(1)] b I(9)[OF b(1)] nth_mem[OF k] t(1) by auto
    qed
    show "length (df_tails ?s) = length (mf_bbs f)" using tails I(2) by auto
    show "distinct (map fst (df_stack ?s))" using I(3) st by simp
    show "df_color ?s ! c \<noteq> White" if "e < length (mf_bbs f)" "df_color ?s ! e = Black" "c \<in> set (bb_succs f e)" for e c
      using that I(7)[of e c] by simp
    show "block_reached f e" if "e < length (mf_bbs f)" "df_color ?s ! e \<noteq> White" for e using that I(9)[of e] by simp
  qed (use I(1,8) in simp_all)
qed

lemma dfs_inv_init: "mf_bbs f \<noteq> [] \<Longrightarrow> dfs_inv f (dfs_init (length (mf_bbs f)))"
  by (rule dfs_invI) (auto simp: dfs_init_def nth_list_update br_entry split: if_splits)

definition dfs_size :: "MFunc \<Rightarrow> dfs_state \<Rightarrow> nat" where
  "dfs_size f s = sum_list (map (\<lambda>(b, k). Suc (length (bb_succs f b)) - k) (df_stack s))"

definition dfs_white :: "dfs_state \<Rightarrow> nat" where
  "dfs_white s = length (filter (\<lambda>c. c = White) (df_color s))"

lemma white_update: "i < length xs \<Longrightarrow> xs ! i = White \<Longrightarrow> c \<noteq> White \<Longrightarrow>
    length (filter (\<lambda>c. c = White) (xs[i := c])) < length (filter (\<lambda>c. c = White) xs)"
  by (induction xs arbitrary: i) (auto split: nat.splits)

lemma white_keep: "i < length xs \<Longrightarrow> xs ! i \<noteq> White \<Longrightarrow> c \<noteq> White \<Longrightarrow>
    length (filter (\<lambda>c. c = White) (xs[i := c])) = length (filter (\<lambda>c. c = White) xs)"
  by (induction xs arbitrary: i) (auto split: nat.splits)

lemma dfs_step_inv:
  assumes f: "func_fits f" and inv: "dfs_inv f s" and st: "df_stack s = (b, k) # rest"
  shows "dfs_inv f (dfs_step (cfg_update f False) s)
    \<and> (dfs_step (cfg_update f False) s, s) \<in> measures [dfs_white, dfs_size f]"
proof -
  let ?c = "df_color s" and ?sc = "bb_succs f b"
  have b: "b < length (mf_bbs f)" "k \<le> length ?sc" "?c ! b = Grey" and len: "length ?c = length (mf_bbs f)"
    using dfs_invD(1)[OF inv] dfs_invD(4)[OF inv, of b k] st by auto
  note succ = cfg_lookup(1)[OF f b(1)]
  show ?thesis
  proof (cases "k < length ?sc")
    case False
    then have k: "k = length ?sc" using b(2) by simp
    have step: "dfs_step (cfg_update f False) s = s\<lparr>df_color := ?c[b := Black], df_stack := rest\<rparr>"
      using False by (simp add: dfs_step_def st succ Let_def)
    have "dfs_white (s\<lparr>df_color := ?c[b := Black], df_stack := rest\<rparr>) = dfs_white s"
      using white_keep[of b ?c Black] b(1,3) len by (simp add: dfs_white_def)
    moreover have "dfs_size f (s\<lparr>df_color := ?c[b := Black], df_stack := rest\<rparr>) < dfs_size f s"
      using k by (simp add: dfs_size_def st)
    ultimately show ?thesis using dfs_inv_leave[OF inv] st k by (simp add: step)
  next
    case True
    let ?t = "?sc ! k" and ?stack = "(b, Suc k) # rest"
    have t: "?t < length (mf_bbs f)" using flow.succs_in[OF b(1)] nth_mem[OF True] by auto
    have small: "sum_list (map (\<lambda>(b, k). Suc (length (bb_succs f b)) - k) ?stack) < dfs_size f s"
      using True by (simp add: dfs_size_def st)
    show ?thesis
    proof (cases "?c ! ?t")
      case White
      then have step: "dfs_step (cfg_update f False) s = s\<lparr>df_color := ?c[?t := Grey], df_stack := (?t, 0) # ?stack\<rparr>"
        using True by (simp add: dfs_step_def st succ Let_def)
      have "dfs_white (s\<lparr>df_color := ?c[?t := Grey], df_stack := (?t, 0) # ?stack\<rparr>) < dfs_white s"
        using white_update[of ?t ?c Grey] White t len by (simp add: dfs_white_def)
      then show ?thesis using dfs_inv_enter[OF inv st True refl White t] by (simp add: step)
    next
      case Grey
      then have step: "dfs_step (cfg_update f False) s
          = s\<lparr>df_tails := (df_tails s)[?t := df_tails s ! ?t @ [b]], df_stack := ?stack\<rparr>"
        using True by (simp add: dfs_step_def st succ Let_def)
      show ?thesis using dfs_inv_pass[OF inv st True refl _ t disjI2[OF refl]] small Grey
        by (simp add: step dfs_white_def dfs_size_def)
    next
      case Black
      then have step: "dfs_step (cfg_update f False) s = s\<lparr>df_stack := ?stack\<rparr>"
        using True by (simp add: dfs_step_def st succ Let_def)
      have "dfs_inv f (s\<lparr>df_stack := ?stack\<rparr>)"
        using dfs_inv_pass[OF inv st True refl _ t disjI1[OF refl]] Black by simp
      then show ?thesis using small by (simp add: step dfs_white_def dfs_size_def)
    qed
  qed
qed

lemma dfs_ends:
  assumes "func_fits f" "mf_bbs f \<noteq> []"
  shows "\<exists>d. while_option dfs_pending (dfs_step (cfg_update f False)) (dfs_init (length (mf_bbs f))) = Some d
    \<and> dfs_inv f d \<and> (\<forall>b < length (mf_bbs f). df_color d ! b = (if block_reached f b then Black else White))"
proof -
  let ?step = "dfs_step (cfg_update f False)" and ?init = "dfs_init (length (mf_bbs f))"
  have step: "dfs_inv f (?step s) \<and> (?step s, s) \<in> measures [dfs_white, dfs_size f]" if "dfs_inv f s \<and> dfs_pending s" for s
    using that dfs_step_inv[OF assms(1), of s] by (cases "df_stack s") (auto simp: dfs_pending_def)
  have "\<exists>d. while_option dfs_pending ?step ?init = Some d"
    by (rule wf_rel_while_option_Some[where P = "dfs_inv f" and R = "measures [dfs_white, dfs_size f]"])
      (use step dfs_inv_init[OF assms(2)] in auto)
  then obtain d where d: "while_option dfs_pending ?step ?init = Some d" ..
  have inv: "dfs_inv f d"
    by (rule while_option_rule[where P = "dfs_inv f", OF _ d dfs_inv_init[OF assms(2)]]) (use step in blast)
  have empty: "df_stack d = []" using while_option_stop[OF d] by (simp add: dfs_pending_def)
  have color: "df_color d ! b = Black" if "b < length (mf_bbs f)" "df_color d ! b \<noteq> White" for b
    using dfs_invD(6)[OF inv that(1)] that(2) empty by (cases "df_color d ! b") auto
  have "block_reached f b \<Longrightarrow> b < length (mf_bbs f) \<longrightarrow> df_color d ! b \<noteq> White" for b
  proof (induction rule: block_reached.induct)
    case br_entry
    then show ?case using dfs_invD(8)[OF inv] by blast
  next
    case (br_edge b c)
    have "b < length (mf_bbs f)" using br_edge.hyps(2) by (auto simp: bb_succs_def split: if_splits)
    then show ?case using br_edge color[of b] dfs_invD(7)[OF inv, of b c] by blast
  qed
  then have "df_color d ! b = (if block_reached f b then Black else White)" if "b < length (mf_bbs f)" for b
    using that color[OF that] dfs_invD(9)[OF inv that] by auto
  then show ?thesis using d inv by blast
qed

section \<open>The cold blocks\<close>

inductive cold_block :: "MFunc \<Rightarrow> nat \<Rightarrow> bool" for f where
  cb_unreached: "b < length (mf_bbs f) \<Longrightarrow> \<not> block_reached f b \<Longrightarrow> cold_block f b"
| cb_unreach: "b < length (mf_bbs f) \<Longrightarrow> ends_unreach (bb_code f b) \<Longrightarrow> cold_block f b"
| cb_succs: "b < length (mf_bbs f) \<Longrightarrow> bb_succs f b \<noteq> [] \<Longrightarrow> \<forall>c \<in> set (bb_succs f b). cold_block f c \<Longrightarrow> cold_block f b"

lemma preds_mirror:
  assumes "func_fits f" "b < length (mf_bbs f)"
  shows "p \<in> set (bb_preds f b) \<longleftrightarrow> p < length (mf_bbs f) \<and> b \<in> set (bb_succs f p)"
  using assms func_fits_bb(2)[OF assms(1)] by (auto simp: bb_preds_def cfg_edges_nth(3))

interpretation cold: marking "length (mf_bbs f)" "bb_preds f" "\<lambda>M p. set (bb_succs f p) \<subseteq> M" for f
proof
  fix M M' p
  assume a: "set (bb_succs f p) \<subseteq> M'" "\<not> set (bb_succs f p) \<subseteq> M" "p < length (mf_bbs f)"
  then obtain c where "c \<in> set (bb_succs f p)" "c \<in> M' - M" by auto
  then show "\<exists>x \<in> M' - M. p \<in> set (bb_preds f x)" using flow.preds_cover[OF a(3)] by blast
qed (use flow.preds_in in auto)

definition cold_abs :: "MFunc \<Rightarrow> cold_state \<Rightarrow> nat set \<times> nat list" where
  "cold_abs f s = ({b. b < length (mf_bbs f) \<and> fst s ! b}, snd s)"

definition cold_ok :: "MFunc \<Rightarrow> cold_state \<Rightarrow> bool" where
  "cold_ok f s \<longleftrightarrow> length (fst s) = length (mf_bbs f) \<and> set (snd s) \<subseteq> {..<length (mf_bbs f)}"

lemma fold_all: "fold (\<lambda>t a. a \<and> P t) ts a \<longleftrightarrow> a \<and> (\<forall>t \<in> set ts. P t)"
  by (induction ts arbitrary: a) auto

lemma cold_pred_abs:
  assumes f: "func_fits f" and p: "p < length (mf_bbs f)" and s: "cold_ok f s"
  shows "cold_abs f (cold_pred (cfg_update f False) p s) = mark_one (\<lambda>M p. set (bb_succs f p) \<subseteq> M) p (cold_abs f s)"
    "cold_ok f (cold_pred (cfg_update f False) p s)"
proof -
  obtain cd ws where sd: "s = (cd, ws)" by (cases s)
  have len: "length cd = length (mf_bbs f)" using s sd by (simp add: cold_ok_def)
  have all: "(\<forall>c \<in> set (bb_succs f p). cd ! c) \<longleftrightarrow> set (bb_succs f p) \<subseteq> {b. b < length (mf_bbs f) \<and> cd ! b}"
    using flow.succs_in[OF p] by auto
  note cfg = cfg_lookup(1)[OF f p]
  have "{b. b < length (mf_bbs f) \<and> cd[p := True] ! b} = insert p {b. b < length (mf_bbs f) \<and> cd ! b}"
    using p len by (auto simp: nth_list_update split: if_splits)
  then show "cold_abs f (cold_pred (cfg_update f False) p s) = mark_one (\<lambda>M p. set (bb_succs f p) \<subseteq> M) p (cold_abs f s)"
    using p all unfolding sd by (simp add: cold_pred_def cold_abs_def mark_one_def cfg fold_all)
  show "cold_ok f (cold_pred (cfg_update f False) p s)"
    using s p unfolding sd by (simp add: cold_pred_def cold_ok_def)
qed

lemma fold_abs:
  assumes "\<And>p s. p \<in> set ps \<Longrightarrow> P s \<Longrightarrow> a (g p s) = h p (a s) \<and> P (g p s)" "P s"
  shows "a (fold g ps s) = fold h ps (a s) \<and> P (fold g ps s)"
  using assms by (induction ps arbitrary: s) auto

lemma cold_step_abs:
  assumes f: "func_fits f" and s: "cold_ok f s" "work_left s"
  shows "cold_abs f (cold_step (cfg_update f False) s) = mark_step (bb_preds f) (\<lambda>M p. set (bb_succs f p) \<subseteq> M) (cold_abs f s)
    \<and> cold_ok f (cold_step (cfg_update f False) s)"
proof -
  obtain cd b ws where sd: "s = (cd, b # ws)" using s(2) by (cases s) (auto simp: work_left_def neq_Nil_conv)
  have b: "b < length (mf_bbs f)" "cold_ok f (cd, ws)" using s(1) by (simp_all add: sd cold_ok_def)
  have "p < length (mf_bbs f)" if "p \<in> set (bb_preds f b)" for p using that flow.preds_in[OF b(1)] by auto
  then have "cold_abs f (fold (cold_pred (cfg_update f False)) (bb_preds f b) (cd, ws))
      = fold (mark_one (\<lambda>M p. set (bb_succs f p) \<subseteq> M)) (bb_preds f b) (cold_abs f (cd, ws))
    \<and> cold_ok f (fold (cold_pred (cfg_update f False)) (bb_preds f b) (cd, ws))"
    by (intro fold_abs[where P = "cold_ok f" and a = "cold_abs f"] conjI cold_pred_abs[OF f] b(2))
  then show ?thesis by (simp add: sd cold_step_def cfg_lookup(2)[OF f b(1)] cold_abs_def)
qed

text \<open>The start of the walk.\<close>

definition cold_seed :: "MFunc \<Rightarrow> nat \<Rightarrow> bool" where
  "cold_seed f b \<longleftrightarrow> \<not> block_reached f b \<or> ends_unreach (bb_code f b)"

lemma cold_start_all:
  assumes "\<forall>b < length (mf_bbs f). color ! b = (if block_reached f b then Black else White)"
  shows "k \<le> length (mf_bbs f) \<Longrightarrow> (let s = fold (cold_start f color) [0..<k] (replicate (length (mf_bbs f)) False, [])
    in length (fst s) = length (mf_bbs f) \<and> (\<forall>b < length (mf_bbs f). fst s ! b \<longleftrightarrow> b < k \<and> cold_seed f b)
      \<and> set (snd s) = {b. b < k \<and> cold_seed f b} \<and> distinct (snd s))"
proof (induction k)
  case (Suc k)
  obtain cd ws where s: "fold (cold_start f color) [0..<k] (replicate (length (mf_bbs f)) False, []) = (cd, ws)" by fastforce
  have IH: "length cd = length (mf_bbs f)" "\<forall>b < length (mf_bbs f). cd ! b \<longleftrightarrow> b < k \<and> cold_seed f b"
    "set ws = {b. b < k \<and> cold_seed f b}" "distinct ws" using Suc by (simp_all add: s Let_def)
  have seed: "color ! k \<noteq> Black \<or> ends_unreach (bb_instrs (mf_bbs f ! k)) \<longleftrightarrow> cold_seed f k"
    using assms Suc.prems by (simp add: cold_seed_def bb_code_def)
  show ?case
  proof (cases "cold_seed f k")
    case True
    then have "fold (cold_start f color) [0..<Suc k] (replicate (length (mf_bbs f)) False, []) = (cd[k := True], k # ws)"
      using seed by (simp add: s cold_start_def)
    then show ?thesis using IH Suc.prems True by (auto simp: Let_def nth_list_update less_Suc_eq)
  next
    case False
    then have "fold (cold_start f color) [0..<Suc k] (replicate (length (mf_bbs f)) False, []) = (cd, ws)"
      using seed by (simp add: s cold_start_def)
    then show ?thesis using IH False by (auto simp: Let_def less_Suc_eq)
  qed
qed simp

lemma cold_least:
  assumes f: "func_fits f" and M: "cold.mark_inv f {b. b < length (mf_bbs f) \<and> cold_seed f b} (M, [])"
  shows "M = {b. cold_block f b}"
proof
  note c = cold.marked_closed[OF M]
  show "M \<subseteq> {b. cold_block f b}"
  proof (rule c(4))
    show "{b. b < length (mf_bbs f) \<and> cold_seed f b} \<subseteq> {b. cold_block f b}"
      by (auto simp: cold_seed_def intro: cold_block.intros)
    have "cold_block f p" if "cold_block f b" "p \<in> set (bb_preds f b)" "set (bb_succs f p) \<subseteq> {b. cold_block f b}" for b p
    proof -
      have "b < length (mf_bbs f)" using that(1) by (cases rule: cold_block.cases) auto
      then have "p < length (mf_bbs f)" "bb_succs f p \<noteq> []" using that(2) preds_mirror[OF f] by auto
      then show ?thesis using that(3) by (intro cb_succs) auto
    qed
    then show "cold.closed f {b. cold_block f b}" unfolding cold.closed_def by blast
  qed
  have "cold_block f b \<Longrightarrow> b \<in> M" for b
  proof (induction rule: cold_block.induct)
    case (cb_succs b)
    then obtain d where d: "d \<in> set (bb_succs f b)" by (cases "bb_succs f b") auto
    have "d \<in> M" "set (bb_succs f b) \<subseteq> M" using cb_succs d by auto
    then show ?case using c(2) flow.preds_cover[OF cb_succs.hyps(1) d] unfolding cold.closed_def by blast
  qed (use c(1) in \<open>auto simp: cold_seed_def\<close>)
  then show "{b. cold_block f b} \<subseteq> M" by blast
qed

lemma cold_ends:
  assumes f: "func_fits f" and color: "\<forall>b < length (mf_bbs f). color ! b = (if block_reached f b then Black else White)"
  shows "\<exists>cd. while_option work_left (cold_step (cfg_update f False))
      (fold (cold_start f color) [0..<length (mf_bbs f)] (replicate (length (mf_bbs f)) False, [])) = Some (cd, [])
    \<and> length cd = length (mf_bbs f) \<and> (\<forall>b < length (mf_bbs f). cd ! b \<longleftrightarrow> cold_block f b)"
proof -
  let ?n = "length (mf_bbs f)" and ?step = "cold_step (cfg_update f False)"
    and ?astep = "mark_step (bb_preds f) (\<lambda>M p. set (bb_succs f p) \<subseteq> M)"
  let ?I = "{b. b < ?n \<and> cold_seed f b}"
  obtain cd0 ws0 where s: "fold (cold_start f color) [0..<?n] (replicate ?n False, []) = (cd0, ws0)" by fastforce
  have s0: "length cd0 = ?n" "\<forall>b < ?n. cd0 ! b \<longleftrightarrow> cold_seed f b" "set ws0 = ?I" "distinct ws0"
    using cold_start_all[OF color order_refl] by (simp_all add: s Let_def)
  have ok: "cold_ok f (cd0, ws0)" and ab: "cold_abs f (cd0, ws0) = (?I, ws0)" using s0 by (auto simp: cold_ok_def cold_abs_def)
  have "cold.mark_start f ?I ws0" using s0 by (auto simp: cold.mark_start_def)
  then obtain M where M: "while_option work_left ?astep (?I, ws0) = Some (M, [])" "cold.mark_inv f ?I (M, [])"
    using cold.marking_ends by blast
  have com: "map_option (cold_abs f) (while_option work_left ?step (cd0, ws0)) = while_option work_left ?astep (cold_abs f (cd0, ws0))"
    by (rule while_option_commute_invariant[where P = "cold_ok f"])
      (use ok cold_step_abs[OF f] in \<open>auto simp: work_left_def cold_abs_def\<close>)
  then obtain t where t: "while_option work_left ?step (cd0, ws0) = Some t" "cold_abs f t = (M, [])"
    unfolding ab M(1) by auto
  have "cold_ok f t" by (rule while_option_rule[where P = "cold_ok f", OF _ t(1) ok]) (use cold_step_abs[OF f] in blast)
  moreover have "snd t = []" "{b. b < ?n \<and> fst t ! b} = {b. cold_block f b}"
    using t(2) cold_least[OF f M(2)] by (simp_all add: cold_abs_def)
  ultimately show ?thesis unfolding s using t(1) by (cases t) (auto simp: cold_ok_def)
qed

end
