(* ===== verification/BlockLoops.thy ===== *)
theory BlockLoops
  imports BlockInfo
begin

text \<open>
  What the static block frequencies mean: the edges the search finds to grey blocks are the back edges (each
  closes a cycle, and without them the reached blocks have none), the walk over the predecessors marks the
  natural loop of a header, and the depth of a block is the number of headers in whose loop it is.
\<close>

section \<open>Back edges\<close>

definition dfs_back :: "MFunc \<Rightarrow> dfs_state \<Rightarrow> (nat \<times> nat) set" where
  "dfs_back f s = {(t, h). h < length (mf_bbs f) \<and> t \<in> set (df_tails s ! h)}"

definition flow_edges :: "MFunc \<Rightarrow> (nat \<times> nat) set" where
  "flow_edges f = {(b, c). c \<in> set (bb_succs f b)}"

text \<open>The edges that the search is done with.\<close>

definition dfs_closed :: "MFunc \<Rightarrow> dfs_state \<Rightarrow> (nat \<times> nat) set" where
  "dfs_closed f s = {(b, c). b < length (mf_bbs f) \<and> df_color s ! b = Black \<and> c \<in> set (bb_succs f b) \<and> (b, c) \<notin> dfs_back f s}"

definition dfs_looked :: "MFunc \<Rightarrow> dfs_state \<Rightarrow> nat \<Rightarrow> nat \<Rightarrow> bool" where
  "dfs_looked f s b c \<longleftrightarrow> df_color s ! c = Black \<or> (b, c) \<in> dfs_back f s"

fun looked_stack :: "MFunc \<Rightarrow> dfs_state \<Rightarrow> nat option \<Rightarrow> (nat \<times> nat) list \<Rightarrow> bool" where
  "looked_stack f s up [] = True"
| "looked_stack f s up ((b, k) # rest) \<longleftrightarrow>
     (\<forall>i < k. dfs_looked f s b (bb_succs f b ! i) \<or> up = Some (bb_succs f b ! i)) \<and> looked_stack f s (Some b) rest"

definition back_inv :: "MFunc \<Rightarrow> dfs_state \<Rightarrow> bool" where
  "back_inv f s \<longleftrightarrow> sorted_wrt (\<lambda>a b. (b, a) \<in> (flow_edges f)\<^sup>*) (map fst (df_stack s))
     \<and> (\<forall>t h. (t, h) \<in> dfs_back f s \<longrightarrow> (h, t) \<in> (flow_edges f)\<^sup>*)
     \<and> looked_stack f s None (df_stack s)
     \<and> (\<forall>b c. (b, c) \<in> dfs_closed f s \<longrightarrow> df_color s ! c = Black)
     \<and> acyclic (dfs_closed f s)"

lemma back_invI:
  assumes "sorted_wrt (\<lambda>a b. (b, a) \<in> (flow_edges f)\<^sup>*) (map fst (df_stack s))"
    "\<And>t h. (t, h) \<in> dfs_back f s \<Longrightarrow> (h, t) \<in> (flow_edges f)\<^sup>*"
    "looked_stack f s None (df_stack s)" "\<And>b c. (b, c) \<in> dfs_closed f s \<Longrightarrow> df_color s ! c = Black"
    "acyclic (dfs_closed f s)"
  shows "back_inv f s"
  unfolding back_inv_def using assms by blast

lemma back_invD:
  assumes "back_inv f s"
  shows "sorted_wrt (\<lambda>a b. (b, a) \<in> (flow_edges f)\<^sup>*) (map fst (df_stack s))"
    "\<And>t h. (t, h) \<in> dfs_back f s \<Longrightarrow> (h, t) \<in> (flow_edges f)\<^sup>*"
    "looked_stack f s None (df_stack s)" "\<And>b c. (b, c) \<in> dfs_closed f s \<Longrightarrow> df_color s ! c = Black"
    "acyclic (dfs_closed f s)"
  using assms unfolding back_inv_def by blast+

lemma looked_stack_mono:
  assumes "\<And>b c. b \<in> fst ` set st \<Longrightarrow> dfs_looked f s b c \<Longrightarrow> dfs_looked f s' b c" "looked_stack f s a st"
  shows "looked_stack f s' a st"
  using assms by (induction st arbitrary: a) (auto simp: split_beta, blast)

text \<open>What was seen of a block that the search leaves is on the list of the finished ones or was a back edge.\<close>

lemma looked_stack_finish:
  assumes "\<And>b c. dfs_looked f s b c \<Longrightarrow> dfs_looked f s' b c" "looked_stack f s (Some a) st" "df_color s' ! a = Black"
  shows "looked_stack f s' None st"
proof (cases st)
  case (Cons e rest)
  have "looked_stack f s' (Some (fst e)) rest" using assms(2) Cons looked_stack_mono[of rest f s s'] assms(1) by (cases e) auto
  then show ?thesis using assms Cons by (cases e) (auto simp: dfs_looked_def)
qed simp

lemma acyclic_source:
  assumes "acyclic r" "\<And>x y. (x, y) \<in> r \<Longrightarrow> y \<noteq> b" "b \<notin> C"
  shows "acyclic (r \<union> {b} \<times> C)"
proof -
  have "(x, y) \<in> (r \<union> {b} \<times> C)\<^sup>+ \<Longrightarrow> y \<noteq> b \<and> (x \<noteq> b \<longrightarrow> (x, y) \<in> r\<^sup>+)" for x y
  proof (induction rule: trancl_induct)
    case (base y)
    then show ?case using assms(2,3) by auto
  next
    case (step y z)
    then have "(y, z) \<in> r" by auto
    then show ?case using step assms(2) by (auto intro: trancl_into_trancl)
  qed
  then show ?thesis using assms(1) unfolding acyclic_def by blast
qed

lemma back_inv_leave:
  assumes inv: "dfs_inv f s" and bi: "back_inv f s" and st: "df_stack s = (b, length (bb_succs f b)) # rest"
  shows "back_inv f (s\<lparr>df_color := (df_color s)[b := Black], df_stack := rest\<rparr>)" (is "back_inv f ?s")
proof -
  note I = dfs_invD[OF inv] and B = back_invD[OF bi]
  have b: "b < length (mf_bbs f)" "df_color s ! b = Grey" using I(4)[of b] st by auto
  have bk: "dfs_back f ?s = dfs_back f s" by (simp add: dfs_back_def)
  have black: "(df_color s)[b := Black] ! c = Black \<longleftrightarrow> c = b \<or> df_color s ! c = Black" for c using b I(1) by (cases "c = b") auto
  have succ: "df_color s ! c = Black \<or> (b, c) \<in> dfs_back f s" if "c \<in> set (bb_succs f b)" for c
    using that B(3) st by (auto simp: in_set_conv_nth dfs_looked_def)
  have new: "dfs_closed f ?s = dfs_closed f s \<union> {b} \<times> {c \<in> set (bb_succs f b). (b, c) \<notin> dfs_back f s}" (is "_ = _ \<union> {b} \<times> ?C")
    using b by (auto simp: dfs_closed_def bk black)
  have "df_color s ! c = Black" if "c \<in> ?C" for c using that succ by auto
  then have "c \<noteq> b" if "c \<in> ?C" for c using that b(2) by fastforce
  then have off: "b \<notin> ?C" by blast
  show ?thesis
  proof (rule back_invI)
    show "sorted_wrt (\<lambda>a b. (b, a) \<in> (flow_edges f)\<^sup>*) (map fst (df_stack ?s))" using B(1) st by simp
    show "(h, t) \<in> (flow_edges f)\<^sup>*" if "(t, h) \<in> dfs_back f ?s" for t h using that B(2) bk by simp
    show "looked_stack f ?s None (df_stack ?s)"
      using looked_stack_finish[of f s ?s b rest] B(3) st black by (auto simp: dfs_looked_def bk)
    show "df_color ?s ! c = Black" if "(x, c) \<in> dfs_closed f ?s" for x c
      using that B(4) succ unfolding new by (auto simp: black)
    show "acyclic (dfs_closed f ?s)" unfolding new
      by (rule acyclic_source[OF B(5) _ off]) (use B(4) b(2) in fastforce)
  qed
qed

lemma back_inv_enter:
  assumes inv: "dfs_inv f s" and bi: "back_inv f s" and st: "df_stack s = (b, k) # rest" and k: "k < length (bb_succs f b)"
    and t: "t = bb_succs f b ! k" "df_color s ! t = White" "t < length (mf_bbs f)"
  shows "back_inv f (s\<lparr>df_color := (df_color s)[t := Grey], df_stack := (t, 0) # (b, Suc k) # rest\<rparr>)" (is "back_inv f ?s")
proof -
  note I = dfs_invD[OF inv] and B = back_invD[OF bi]
  have bk: "dfs_back f ?s = dfs_back f s" by (simp add: dfs_back_def)
  have black: "(df_color s)[t := Grey] ! c = Black \<longleftrightarrow> df_color s ! c = Black" for c using t I(1) by (cases "c = t") auto
  have same: "dfs_closed f ?s = dfs_closed f s" by (simp add: dfs_closed_def bk black)
  have e: "(b, t) \<in> flow_edges f" using nth_mem[OF k] t(1) by (simp add: flow_edges_def)
  have path: "(x, t) \<in> (flow_edges f)\<^sup>*" if "x = b \<or> x \<in> fst ` set rest" for x
    using that B(1) st e by (auto intro: rtrancl_into_rtrancl)
  show ?thesis
  proof (rule back_invI)
    show "sorted_wrt (\<lambda>a b. (b, a) \<in> (flow_edges f)\<^sup>*) (map fst (df_stack ?s))" using B(1) st path by simp
    show "(h, u) \<in> (flow_edges f)\<^sup>*" if "(u, h) \<in> dfs_back f ?s" for u h using that B(2) bk by simp
    have "looked_stack f ?s (Some b) rest"
      by (rule looked_stack_mono[of _ f s]) (use B(3) st in \<open>auto simp: dfs_looked_def bk black\<close>)
    then show "looked_stack f ?s None (df_stack ?s)"
      using B(3) st t(1)[symmetric] by (auto simp: less_Suc_eq dfs_looked_def bk black)
    show "df_color ?s ! c = Black" if "(x, c) \<in> dfs_closed f ?s" for x c using that B(4) unfolding same by (auto simp: black)
    show "acyclic (dfs_closed f ?s)" using B(5) by (simp only: same)
  qed
qed

lemma back_inv_pass:
  assumes inv: "dfs_inv f s" and bi: "back_inv f s" and st: "df_stack s = (b, k) # rest" and k: "k < length (bb_succs f b)"
    and t: "t = bb_succs f b ! k" "t < length (mf_bbs f)"
    and tails: "df_color s ! t = Black \<and> tails = df_tails s \<or> df_color s ! t = Grey \<and> tails = (df_tails s)[t := df_tails s ! t @ [b]]"
  shows "back_inv f (s\<lparr>df_tails := tails, df_stack := (b, Suc k) # rest\<rparr>)" (is "back_inv f ?s")
proof -
  note I = dfs_invD[OF inv] and B = back_invD[OF bi]
  have b: "df_color s ! b = Grey" "b < length (mf_bbs f)" using I(4)[of b k] st by auto
  have bk: "dfs_back f ?s = (if df_color s ! t = Grey then insert (b, t) (dfs_back f s) else dfs_back f s)"
    using tails t(2) I(2) by (auto simp: dfs_back_def nth_list_update split: if_splits)
  have up: "(t, b) \<in> (flow_edges f)\<^sup>*" if "df_color s ! t = Grey"
    using I(6)[OF t(2) that] B(1) st by auto
  have same: "dfs_closed f ?s = dfs_closed f s" using b by (auto simp: dfs_closed_def bk)
  have looked: "dfs_looked f ?s x c" if "dfs_looked f s x c" for x c using that by (auto simp: dfs_looked_def bk)
  show ?thesis
  proof (rule back_invI)
    show "sorted_wrt (\<lambda>a b. (b, a) \<in> (flow_edges f)\<^sup>*) (map fst (df_stack ?s))" using B(1) st by simp
    show "(h, u) \<in> (flow_edges f)\<^sup>*" if "(u, h) \<in> dfs_back f ?s" for u h
      using that B(2) up unfolding bk by (auto split: if_splits)
    have "looked_stack f ?s (Some b) rest" by (rule looked_stack_mono[of _ f s]) (use B(3) st looked in auto)
    moreover have "dfs_looked f ?s b (bb_succs f b ! k)" using tails t(1) by (auto simp: dfs_looked_def bk)
    ultimately show "looked_stack f ?s None (df_stack ?s)" using B(3) st looked by (auto simp: less_Suc_eq)
    show "df_color ?s ! c = Black" if "(x, c) \<in> dfs_closed f ?s" for x c using that B(4) unfolding same by auto
    show "acyclic (dfs_closed f ?s)" using B(5) by (simp only: same)
  qed
qed

lemma closed_init: "dfs_closed f (dfs_init (length (mf_bbs f))) = {}"
proof -
  have "(replicate (length (mf_bbs f)) White)[0 := Grey] ! b \<noteq> Black" if "b < length (mf_bbs f)" for b
    using that by (cases b) auto
  then show ?thesis by (auto simp: dfs_closed_def dfs_init_def)
qed

lemma back_inv_init: "mf_bbs f \<noteq> [] \<Longrightarrow> back_inv f (dfs_init (length (mf_bbs f)))"
  by (rule back_invI) (simp_all add: closed_init acyclic_def, auto simp: dfs_init_def dfs_back_def)

lemma dfs_step_back:
  assumes f: "func_fits f" and inv: "dfs_inv f s" "back_inv f s" and p: "dfs_pending s"
  shows "back_inv f (dfs_step (cfg_update f False) s)"
proof -
  obtain b k rest where st: "df_stack s = (b, k) # rest" using p by (cases "df_stack s") (auto simp: dfs_pending_def)
  have b: "b < length (mf_bbs f)" "k \<le> length (bb_succs f b)" using dfs_invD(4)[OF inv(1), of b k] st by auto
  note succ = cfg_lookup(1)[OF f b(1)]
  show ?thesis
  proof (cases "k < length (bb_succs f b)")
    case False
    then show ?thesis using back_inv_leave[OF inv, of b rest] b(2) by (simp add: dfs_step_def st succ Let_def)
  next
    case True
    then have t: "bb_succs f b ! k < length (mf_bbs f)" using flow.succs_in[OF b(1)] nth_mem by (meson lessThan_iff subsetD)
    show ?thesis
    proof (cases "df_color s ! (bb_succs f b ! k)")
      case White
      then show ?thesis using back_inv_enter[OF inv st True refl White t] True by (simp add: dfs_step_def st succ Let_def)
    next
      case Grey
      then show ?thesis using back_inv_pass[OF inv st True refl t] True by (simp add: dfs_step_def st succ Let_def)
    next
      case Black
      then show ?thesis using back_inv_pass[OF inv st True refl t, of "df_tails s"] True by (simp add: dfs_step_def st succ Let_def)
    qed
  qed
qed

lemma dfs_back_edges:
  assumes f: "func_fits f" "mf_bbs f \<noteq> []"
    and d: "while_option dfs_pending (dfs_step (cfg_update f False)) (dfs_init (length (mf_bbs f))) = Some d"
  shows "back_inv f d"
proof -
  have "dfs_inv f d \<and> back_inv f d"
  proof (rule while_option_rule[where P = "\<lambda>s. dfs_inv f s \<and> back_inv f s", OF _ d])
    show "dfs_inv f (dfs_step (cfg_update f False) s) \<and> back_inv f (dfs_step (cfg_update f False) s)"
      if "dfs_inv f s \<and> back_inv f s" "dfs_pending s" for s
      using that dfs_step_back[OF f(1)] dfs_step_inv[OF f(1), of s] by (cases "df_stack s") (auto simp: dfs_pending_def)
  qed (use dfs_inv_init[OF f(2)] back_inv_init[OF f(2)] in blast)
  then show ?thesis ..
qed

end
