(* ===== verification/BlockInfoSpec.thy ===== *)
theory BlockInfoSpec
  imports BlockLoops
begin

text \<open>
  The loops of the static block frequencies: what the walk over the predecessors marks, the depth, and the
  whole analysis.
\<close>

section \<open>The natural loop of a header\<close>

inductive loop_block :: "MFunc \<Rightarrow> (nat \<times> nat) set \<Rightarrow> nat \<Rightarrow> nat \<Rightarrow> bool" for f E h where
  lb_header: "(t, h) \<in> E \<Longrightarrow> loop_block f E h h"
| lb_tail: "(t, h) \<in> E \<Longrightarrow> loop_block f E h t"
| lb_pred: "loop_block f E h b \<Longrightarrow> b \<noteq> h \<Longrightarrow> p \<in> set (bb_preds f b) \<Longrightarrow> block_reached f p \<Longrightarrow> loop_block f E h p"

interpretation loop: marking "length (mf_bbs f)" "\<lambda>b. if b = h then [] else bb_preds f b" "\<lambda>M p. block_reached f p" for f h
  by unfold_locales (use flow.preds_in in auto)

interpretation tails: marking "length (mf_bbs f)" "\<lambda>b. []" "\<lambda>M p. True" for f
  by unfold_locales auto

definition loop_abs :: "MFunc \<Rightarrow> nat \<Rightarrow> marks \<Rightarrow> nat set \<times> nat list" where
  "loop_abs f h s = ({b. b < length (mf_bbs f) \<and> fst s ! b = h + 1}, snd s)"

definition loop_ok :: "MFunc \<Rightarrow> nat \<Rightarrow> marks \<Rightarrow> bool" where
  "loop_ok f h s \<longleftrightarrow> length (fst s) = length (mf_bbs f) \<and> set (snd s) \<subseteq> {..<length (mf_bbs f)} - {h}
     \<and> fst s ! h = h + 1 \<and> (\<forall>b < length (mf_bbs f). fst s ! b \<le> h + 1)"

text \<open>Both steps mark one block.\<close>

lemma mark_abs:
  assumes p: "p < length (mf_bbs f)" and s: "loop_ok f h s" and h: "h < length (mf_bbs f)"
    and t: "t = (case s of (mark, work) \<Rightarrow> if mark ! p \<noteq> h + 1 \<and> Q then (mark[p := h + 1], p # work) else (mark, work))"
  shows "loop_abs f h t = mark_one (\<lambda>M p. Q) p (loop_abs f h s) \<and> loop_ok f h t"
proof -
  obtain mk ws where sd: "s = (mk, ws)" by (cases s)
  have len: "length mk = length (mf_bbs f)" "mk ! h = h + 1" using s sd by (simp_all add: loop_ok_def)
  have "{b. b < length (mf_bbs f) \<and> mk[p := h + 1] ! b = h + 1} = insert p {b. b < length (mf_bbs f) \<and> mk ! b = h + 1}"
    using p len by (auto simp: nth_list_update split: if_splits)
  moreover have "p \<noteq> h" if "mk ! p \<noteq> h + 1" using that len by auto
  ultimately show ?thesis using s p len unfolding t sd
    by (auto simp: loop_abs_def loop_ok_def mark_one_def nth_list_update)
qed

lemma mark_one_cong: "Q M p = R M p \<Longrightarrow> mark_one Q p (M, ws) = mark_one R p (M, ws)"
  by (simp add: mark_one_def)

lemma loop_step_abs:
  assumes f: "func_fits f" and h: "h < length (mf_bbs f)"
    and color: "\<forall>b < length (mf_bbs f). color ! b = (if block_reached f b then Black else White)"
    and s: "loop_ok f h s" "work_left s"
  shows "loop_abs f h (loop_step (cfg_update f False) color h s)
      = mark_step (\<lambda>b. if b = h then [] else bb_preds f b) (\<lambda>M p. block_reached f p) (loop_abs f h s)
    \<and> loop_ok f h (loop_step (cfg_update f False) color h s)"
proof -
  obtain mk b ws where sd: "s = (mk, b # ws)" using s(2) by (cases s) (auto simp: work_left_def neq_Nil_conv)
  have b: "b < length (mf_bbs f)" "b \<noteq> h" "loop_ok f h (mk, ws)" using s(1) by (auto simp: sd loop_ok_def)
  have one: "loop_abs f h (mark_pred color h p s) = mark_one (\<lambda>M p. block_reached f p) p (loop_abs f h s)
      \<and> loop_ok f h (mark_pred color h p s)" if "p \<in> set (bb_preds f b)" "loop_ok f h s" for p s
  proof -
    have p: "p < length (mf_bbs f)" using that flow.preds_in[OF b(1)] by auto
    then have "mark_pred color h p s = (case s of (mark, work) \<Rightarrow>
        if mark ! p \<noteq> h + 1 \<and> block_reached f p then (mark[p := h + 1], p # work) else (mark, work))"
      using color by (simp add: mark_pred_def split: prod.splits)
    from mark_abs[where t = "mark_pred color h p s" and Q = "block_reached f p", OF p that(2) h this] show ?thesis
      by (simp add: mark_one_def split: prod.splits)
  qed
  have "loop_abs f h (fold (mark_pred color h) (bb_preds f b) (mk, ws))
      = fold (mark_one (\<lambda>M p. block_reached f p)) (bb_preds f b) (loop_abs f h (mk, ws))
    \<and> loop_ok f h (fold (mark_pred color h) (bb_preds f b) (mk, ws))"
    by (rule fold_abs[where P = "loop_ok f h" and a = "loop_abs f h"]) (use one b(3) in auto)
  then show ?thesis using b(2) by (simp add: sd loop_step_def cfg_lookup(2)[OF f b(1)] loop_abs_def)
qed

lemma mark_tails:
  assumes h: "h < length (mf_bbs f)" and ts: "set ts \<subseteq> {..<length (mf_bbs f)}"
    and m: "length mark = length (mf_bbs f)" "\<forall>b < length (mf_bbs f). mark ! b \<le> h"
  obtains mk ws where "fold (mark_tail h) ts (mark[h := h + 1], []) = (mk, ws)" "loop_ok f h (mk, ws)"
    "loop_abs f h (mk, ws) = (insert h (set ts), ws)" "loop.mark_start f h (insert h (set ts)) ws"
proof -
  have ok: "loop_ok f h (mark[h := h + 1], [])" using h m by (auto simp: loop_ok_def nth_list_update le_Suc_eq)
  have ab: "loop_abs f h (mark[h := h + 1], []) = ({h}, [])"
    using h m by (auto simp: loop_abs_def nth_list_update split: if_splits)
  have one: "loop_abs f h (mark_tail h p s) = mark_one (\<lambda>M p. True) p (loop_abs f h s) \<and> loop_ok f h (mark_tail h p s)"
    if "p \<in> set ts" "loop_ok f h s" for p s
    by (rule mark_abs) (use that ts h in \<open>auto simp: mark_tail_def\<close>)
  obtain mk ws where t: "fold (mark_tail h) ts (mark[h := h + 1], []) = (mk, ws)" by fastforce
  have F: "loop_abs f h (mk, ws) = fold (mark_one (\<lambda>M p. True)) ts ({h}, []) \<and> loop_ok f h (mk, ws)"
    using fold_abs[where P = "loop_ok f h" and a = "loop_abs f h" and g = "mark_tail h" and h = "mark_one (\<lambda>M p. True)" and ps = ts, OF one ok] unfolding ab t .
  obtain M where M: "fold (mark_one (\<lambda>M p. True)) ts ({h}, []) = (M, ws)" using F unfolding loop_abs_def by (metis snd_conv)
  have "M = {h} \<union> set ws" "distinct ws" "set ws \<inter> {h} = {}" "set ws \<subseteq> set ts" "set ts \<subseteq> M"
    using tails.fold_marks[of ts "{h}" "[]"] unfolding marked_by_def M by auto
  then have "M = insert h (set ts)" "loop.mark_start f h (insert h (set ts)) ws"
    using ts h by (auto simp: loop.mark_start_def)
  then show ?thesis using that[OF t] F M by simp
qed

lemma loop_least:
  assumes f: "func_fits f" and ts: "ts \<noteq> []" "\<And>t. t \<in> set ts \<longleftrightarrow> (t, h) \<in> E" and h: "h < length (mf_bbs f)"
    and M: "loop.mark_inv f h (insert h (set ts)) (M, [])"
  shows "M = {b. loop_block f E h b}"
proof
  note c = loop.marked_closed[OF M]
  show "M \<subseteq> {b. loop_block f E h b}"
  proof (rule c(4))
    obtain t where "(t, h) \<in> E" using ts by (cases ts) auto
    then show "insert h (set ts) \<subseteq> {b. loop_block f E h b}" using ts(2) by (auto intro: lb_header lb_tail)
    show "loop.closed h f {b. loop_block f E h b}"
      by (auto simp: loop.closed_def intro: lb_pred split: if_splits)
  qed
  have "loop_block f E h b \<Longrightarrow> b \<in> M" for b
  proof (induction rule: loop_block.induct)
    case (lb_pred b p)
    then show ?case using c(2) unfolding loop.closed_def by auto
  qed (use c(1) ts(2) in auto)
  then show "{b. loop_block f E h b} \<subseteq> M" by blast
qed

text \<open>One header: the marks and the depth after it.\<close>

lemma loop_header_exact:
  assumes f: "func_fits f" and h: "h < length (mf_bbs f)"
    and color: "\<forall>b < length (mf_bbs f). color ! b = (if block_reached f b then Black else White)"
    and ts: "set (tails ! h) \<subseteq> {..<length (mf_bbs f)}" "\<And>t. t \<in> set (tails ! h) \<longleftrightarrow> (t, h) \<in> E"
    and m: "length mark = length (mf_bbs f)" "\<forall>b < length (mf_bbs f). mark ! b \<le> h" "length depth = length (mf_bbs f)"
  shows "\<exists>mk dp. loop_header (cfg_update f False) color tails h (mark, depth) = Some (mk, dp)
    \<and> length mk = length (mf_bbs f) \<and> (\<forall>b < length (mf_bbs f). mk ! b \<le> h + 1) \<and> length dp = length (mf_bbs f)
    \<and> (\<forall>b < length (mf_bbs f). dp ! b = depth ! b + (if loop_block f E h b then 1 else 0))"
proof (cases "tails ! h = []")
  case True
  have "\<not> loop_block f E h b" for b
  proof
    assume "loop_block f E h b"
    then show False using ts(2) True by (induction rule: loop_block.induct) auto
  qed
  then show ?thesis using True m by (auto simp: loop_header_def le_Suc_eq)
next
  case False
  let ?step = "loop_step (cfg_update f False) color h"
    and ?astep = "mark_step (\<lambda>b. if b = h then [] else bb_preds f b) (\<lambda>M p. block_reached f p)"
  obtain mk0 ws0 where s: "fold (mark_tail h) (tails ! h) (mark[h := h + 1], []) = (mk0, ws0)" and ok: "loop_ok f h (mk0, ws0)"
    and ab: "loop_abs f h (mk0, ws0) = (insert h (set (tails ! h)), ws0)"
    and start: "loop.mark_start f h (insert h (set (tails ! h))) ws0"
    using mark_tails[OF h ts(1) m(1,2)] .
  obtain M where M: "while_option work_left ?astep (insert h (set (tails ! h)), ws0) = Some (M, [])"
    "loop.mark_inv f h (insert h (set (tails ! h))) (M, [])"
    using loop.marking_ends[OF start] by blast
  have com: "map_option (loop_abs f h) (while_option work_left ?step (mk0, ws0))
      = while_option work_left ?astep (loop_abs f h (mk0, ws0))"
    by (rule while_option_commute_invariant[where P = "loop_ok f h"])
      (use ok loop_step_abs[OF f h color] in \<open>auto simp: work_left_def loop_abs_def\<close>)
  then obtain t where t: "while_option work_left ?step (mk0, ws0) = Some t" "loop_abs f h t = (M, [])"
    unfolding ab M(1) by auto
  have "loop_ok f h t"
    by (rule while_option_rule[where P = "loop_ok f h", OF _ t(1) ok]) (use loop_step_abs[OF f h color] in blast)
  moreover have "{b. b < length (mf_bbs f) \<and> fst t ! b = h + 1} = {b. loop_block f E h b}"
    using t(2) loop_least[OF f False ts(2) h M(2)] by (simp add: loop_abs_def)
  then have "fst t ! b = h + 1 \<longleftrightarrow> loop_block f E h b" if "b < length (mf_bbs f)" for b using that by blast
  ultimately show ?thesis using False s t(1) m(3)
    by (cases t) (auto simp: loop_header_def loop_ok_def)
qed

lemma loop_headers_exact:
  assumes f: "func_fits f"
    and color: "\<forall>b < length (mf_bbs f). color ! b = (if block_reached f b then Black else White)"
    and ts: "\<And>h t. h < length (mf_bbs f) \<Longrightarrow> t \<in> set (tails ! h) \<longleftrightarrow> (t, h) \<in> E" "E \<subseteq> {..<length (mf_bbs f)} \<times> UNIV"
    and k: "k \<le> length (mf_bbs f)"
    and m: "length mark = length (mf_bbs f)" "\<forall>b < length (mf_bbs f). mark ! b \<le> k" "length depth = length (mf_bbs f)"
  shows "\<exists>mk dp. loop_headers (cfg_update f False) color tails [k..<length (mf_bbs f)] (mark, depth) = Some (mk, dp)
    \<and> length dp = length (mf_bbs f)
    \<and> (\<forall>b < length (mf_bbs f). dp ! b = depth ! b + card {h. k \<le> h \<and> h < length (mf_bbs f) \<and> loop_block f E h b})"
  using k m
proof (induction k arbitrary: mark depth rule: inc_induct)
  case base
  have "{h. length (mf_bbs f) \<le> h \<and> h < length (mf_bbs f) \<and> loop_block f E h b} = {}" for b by auto
  then show ?case using base by simp
next
  case (step k)
  have ts': "set (tails ! k) \<subseteq> {..<length (mf_bbs f)}" "\<And>t. t \<in> set (tails ! k) \<longleftrightarrow> (t, k) \<in> E"
    using ts step.hyps by auto
  obtain mk dp where A: "loop_header (cfg_update f False) color tails k (mark, depth) = Some (mk, dp)"
    "length mk = length (mf_bbs f)" "\<forall>b < length (mf_bbs f). mk ! b \<le> Suc k" "length dp = length (mf_bbs f)"
    "\<forall>b < length (mf_bbs f). dp ! b = depth ! b + (if loop_block f E k b then 1 else 0)"
    using loop_header_exact[where E = E, OF f step.hyps(2) color ts' step.prems] by auto
  have "{h. k \<le> h \<and> h < length (mf_bbs f) \<and> loop_block f E h b}
      = (if loop_block f E k b then {k} else {}) \<union> {h. Suc k \<le> h \<and> h < length (mf_bbs f) \<and> loop_block f E h b}" for b
    using step.hyps by (auto simp: Suc_le_eq order_le_less)
  then have card: "card {h. k \<le> h \<and> h < length (mf_bbs f) \<and> loop_block f E h b}
      = (if loop_block f E k b then 1 else 0) + card {h. Suc k \<le> h \<and> h < length (mf_bbs f) \<and> loop_block f E h b}" for b
    by simp
  show ?case using step.IH[OF A(2,3,4)] A(1,5) step.hyps by (auto simp: upt_conv_Cons card)
qed

section \<open>The whole analysis\<close>

text \<open>The set of back edges: each closes a cycle of reached blocks, and every cycle has one of them.\<close>

definition back_edges :: "MFunc \<Rightarrow> (nat \<times> nat) set \<Rightarrow> bool" where
  "back_edges f E \<longleftrightarrow> (\<forall>(t, h) \<in> E. block_reached f t \<and> h \<in> set (bb_succs f t) \<and> (h, t) \<in> (flow_edges f)\<^sup>*)
     \<and> acyclic ({(b, c). block_reached f b \<and> c \<in> set (bb_succs f b)} - E)"

definition info_exact :: "MFunc \<Rightarrow> (nat \<times> nat) set \<Rightarrow> BlockInfo \<Rightarrow> bool" where
  "info_exact f E info \<longleftrightarrow> length (loop_depth info) = length (mf_bbs f) \<and> length (cold info) = length (mf_bbs f)
     \<and> (\<forall>b < length (mf_bbs f). loop_depth info ! b = card {h. h < length (mf_bbs f) \<and> loop_block f E h b}
          \<and> (cold info ! b \<longleftrightarrow> cold_block f b))"

lemma back_edges_found:
  assumes d: "dfs_inv f d" "back_inv f d"
    and color: "\<forall>b < length (mf_bbs f). df_color d ! b = (if block_reached f b then Black else White)"
  shows "back_edges f (dfs_back f d)"
proof -
  have lt: "b < length (mf_bbs f)" if "c \<in> set (bb_succs f b)" for b c using that by (auto simp: bb_succs_def split: if_splits)
  have "{(b, c). block_reached f b \<and> c \<in> set (bb_succs f b)} - dfs_back f d = dfs_closed f d"
    using color lt by (auto simp: dfs_closed_def split: if_splits)
  then show ?thesis using back_invD(2,5)[OF d(2)] dfs_invD(10)[OF d(1)] unfolding back_edges_def
    by (auto simp: dfs_back_def)
qed

lemma analyze_blocks_exact:
  assumes "func_fits f" "mf_bbs f \<noteq> []"
  shows "\<exists>info E. analyze_blocks f (cfg_update f False) = Some info \<and> back_edges f E \<and> info_exact f E info"
proof -
  let ?n = "length (mf_bbs f)" and ?cfg = "cfg_update f False"
  obtain d where d: "while_option dfs_pending (dfs_step ?cfg) (dfs_init ?n) = Some d" "dfs_inv f d"
    and color: "\<forall>b < ?n. df_color d ! b = (if block_reached f b then Black else White)"
    using dfs_ends[OF assms] by blast
  let ?E = "dfs_back f d"
  have E: "back_edges f ?E" by (rule back_edges_found[OF d(2) dfs_back_edges[OF assms d(1)] color])
  have "?E \<subseteq> {..<?n} \<times> UNIV" using dfs_invD(10)[OF d(2)] by (auto simp: dfs_back_def)
  then obtain mk dp where dp: "loop_headers ?cfg (df_color d) (df_tails d) [0..<?n] (replicate ?n 0, replicate ?n 0) = Some (mk, dp)"
    "length dp = ?n" "\<forall>b < ?n. dp ! b = card {h. h < ?n \<and> loop_block f ?E h b}"
    using loop_headers_exact[where E = ?E and k = 0 and tails = "df_tails d" and mark = "replicate ?n 0" and depth = "replicate ?n 0", OF assms(1) color]
    by (auto simp: dfs_back_def)
  obtain cd where cd: "while_option work_left (cold_step ?cfg)
      (fold (cold_start f (df_color d)) [0..<?n] (replicate ?n False, [])) = Some (cd, [])"
    "length cd = ?n" "\<forall>b < ?n. cd ! b \<longleftrightarrow> cold_block f b"
    using cold_ends[OF assms(1) color] by blast
  have "analyze_blocks f ?cfg = Some \<lparr>loop_depth = dp, cold = cd\<rparr>" by (simp add: analyze_blocks_def Let_def d(1) dp(1) cd(1))
  then show ?thesis using E dp(2,3) cd(2,3) by (auto simp: info_exact_def)
qed

section \<open>What cold means\<close>

text \<open>
  The documented meaning: an execution that enters the block can only run into \<^verbatim>\<open>unreach\<close>. Executions that avoid it
  are those that return, and those that go on for ever.
\<close>

definition returns_at :: "MFunc \<Rightarrow> nat \<Rightarrow> bool" where
  "returns_at f b \<longleftrightarrow> (\<exists>x \<in> set (bb_code f b). mi_op x = GBase GBase_ret)"

coinductive avoids_unreach :: "MFunc \<Rightarrow> nat \<Rightarrow> bool" for f where
  au_return: "\<not> ends_unreach (bb_code f b) \<Longrightarrow> returns_at f b \<Longrightarrow> avoids_unreach f b"
| au_branch: "\<not> ends_unreach (bb_code f b) \<Longrightarrow> c \<in> set (bb_succs f b) \<Longrightarrow> avoids_unreach f c \<Longrightarrow> avoids_unreach f b"

text \<open>A block either returns or branches, but for the ones that end in \<^verbatim>\<open>unreach\<close>.\<close>

definition leaves_once :: "MFunc \<Rightarrow> bool" where
  "leaves_once f \<longleftrightarrow> (\<forall>b < length (mf_bbs f). ends_unreach (bb_code f b) \<or> (returns_at f b \<longleftrightarrow> bb_succs f b = []))"

lemma cold_not_avoids:
  assumes "leaves_once f"
  shows "cold_block f b \<Longrightarrow> \<not> block_reached f b \<or> \<not> avoids_unreach f b"
proof (induction rule: cold_block.induct)
  case (cb_unreach b)
  then show ?case by (auto elim: avoids_unreach.cases)
next
  case (cb_succs b)
  have "False" if "block_reached f b" "avoids_unreach f b"
    using that(2)
  proof cases
    case au_return
    then show ?thesis using assms cb_succs.hyps by (auto simp: leaves_once_def)
  next
    case (au_branch c)
    then show ?thesis using cb_succs.IH br_edge[OF that(1)] by blast
  qed
  then show ?case by blast
qed simp

lemma warm_next:
  assumes "leaves_once f" "b < length (mf_bbs f)" "block_reached f b" "\<not> cold_block f b"
  shows "\<not> ends_unreach (bb_code f b)"
    "\<not> returns_at f b \<Longrightarrow> \<exists>c. c \<in> set (bb_succs f b) \<and> c < length (mf_bbs f) \<and> block_reached f c \<and> \<not> cold_block f c"
proof -
  show b: "\<not> ends_unreach (bb_code f b)" using cb_unreach[OF assms(2)] assms(4) by blast
  assume "\<not> returns_at f b"
  then have "bb_succs f b \<noteq> []" using assms(1,2) b by (auto simp: leaves_once_def)
  then obtain c where c: "c \<in> set (bb_succs f b)" "\<not> cold_block f c" using cb_succs[OF assms(2)] assms(4) by blast
  moreover have "c < length (mf_bbs f)" using c(1) by (auto simp: bb_succs_def split: if_splits)
  moreover have "block_reached f c" by (rule br_edge[OF assms(3) c(1)])
  ultimately show "\<exists>c. c \<in> set (bb_succs f b) \<and> c < length (mf_bbs f) \<and> block_reached f c \<and> \<not> cold_block f c" by blast
qed

lemma cold_documented:
  assumes "leaves_once f" "b < length (mf_bbs f)"
  shows "cold_block f b \<longleftrightarrow> \<not> block_reached f b \<or> \<not> avoids_unreach f b"
proof
  have "avoids_unreach f b" if "b < length (mf_bbs f) \<and> block_reached f b \<and> \<not> cold_block f b" for b
    using that
  proof (coinduction arbitrary: b rule: avoids_unreach.coinduct)
    case (avoids_unreach b)
    then show ?case using warm_next[OF assms(1), of b] by metis
  qed
  then show "cold_block f b" if "\<not> block_reached f b \<or> \<not> avoids_unreach f b" using assms(2) that cb_unreached[of b f] by auto
qed (rule cold_not_avoids[OF assms(1)])

end
