(* ===== verification/BBReorder.thy ===== *)
theory BBReorder
  imports BlockInfoSpec
begin

text \<open>
  Block reordering (\<^verbatim>\<open>src/src/mir/optim/bb_reordering.cpp\<close>): chains of blocks, grown by the best successor
  that is not yet placed, become the new order; the references are renamed, and a conditional jump to the block
  that comes next is inverted. This theory holds the definitions and what the order is.
\<close>

section \<open>The pass\<close>

primrec inverse_jump :: "GJumpSubtype \<Rightarrow> GJumpSubtype option" where
  "inverse_jump GJmp_INVALID = None"
| "inverse_jump GJmp_icmp_slt = None"
| "inverse_jump GJmp_icmp_eq = None"
| "inverse_jump GJmp_icmp_ult = None"
| "inverse_jump GJmp_icmp_ne = None"
| "inverse_jump GJmp_icmp_sgt = None"
| "inverse_jump GJmp_icmp_ugt = None"
| "inverse_jump GJmp_icmp_uge = None"
| "inverse_jump GJmp_icmp_ule = None"
| "inverse_jump GJmp_icmp_sge = None"
| "inverse_jump GJmp_icmp_sle = None"
| "inverse_jump GJmp_fcmp_isNaN = None"
| "inverse_jump GJmp_fcmp_oeq = None"
| "inverse_jump GJmp_fcmp_ogt = None"
| "inverse_jump GJmp_fcmp_oge = None"
| "inverse_jump GJmp_fcmp_olt = None"
| "inverse_jump GJmp_fcmp_ole = None"
| "inverse_jump GJmp_fcmp_one = None"
| "inverse_jump GJmp_fcmp_ord = None"
| "inverse_jump GJmp_fcmp_uno = None"
| "inverse_jump GJmp_fcmp_ueq = None"
| "inverse_jump GJmp_fcmp_ugt = None"
| "inverse_jump GJmp_fcmp_uge = None"
| "inverse_jump GJmp_fcmp_ult = None"
| "inverse_jump GJmp_fcmp_ule = None"
| "inverse_jump GJmp_fcmp_une = None"
| "inverse_jump GJmp_cjmp_and = None"
| "inverse_jump GJmp_cjmp_or = None"
| "inverse_jump GJmp_cjmp_int_slt = Some GJmp_cjmp_int_sge"
| "inverse_jump GJmp_cjmp_int_sge = Some GJmp_cjmp_int_slt"
| "inverse_jump GJmp_cjmp_int_sle = Some GJmp_cjmp_int_sgt"
| "inverse_jump GJmp_cjmp_int_sgt = Some GJmp_cjmp_int_sle"
| "inverse_jump GJmp_cjmp_int_ult = Some GJmp_cjmp_int_uge"
| "inverse_jump GJmp_cjmp_int_ule = Some GJmp_cjmp_int_ugt"
| "inverse_jump GJmp_cjmp_int_ugt = Some GJmp_cjmp_int_ule"
| "inverse_jump GJmp_cjmp_int_uge = Some GJmp_cjmp_int_ult"
| "inverse_jump GJmp_cjmp_int_ne = Some GJmp_cjmp_int_eq"
| "inverse_jump GJmp_cjmp_int_eq = Some GJmp_cjmp_int_ne"
| "inverse_jump GJmp_cjmp_flt_oeq = None"
| "inverse_jump GJmp_cjmp_flt_ogt = None"
| "inverse_jump GJmp_cjmp_flt_oge = None"
| "inverse_jump GJmp_cjmp_flt_olt = None"
| "inverse_jump GJmp_cjmp_flt_ole = None"
| "inverse_jump GJmp_cjmp_flt_one = None"
| "inverse_jump GJmp_cjmp_flt_ord = None"
| "inverse_jump GJmp_cjmp_flt_uno = None"
| "inverse_jump GJmp_cjmp_flt_ueq = None"
| "inverse_jump GJmp_cjmp_flt_ugt = None"
| "inverse_jump GJmp_cjmp_flt_uge = None"
| "inverse_jump GJmp_cjmp_flt_ult = None"
| "inverse_jump GJmp_cjmp_flt_ule = None"
| "inverse_jump GJmp_cjmp_flt_une = None"
| "inverse_jump GJmp_cjmp = None"
| "inverse_jump GJmp_jmp = None"

definition inverse_op :: "GOpcode \<Rightarrow> GOpcode option" where
  "inverse_op op = (case op of GJmp t \<Rightarrow> map_option GJmp (inverse_jump t) | _ \<Rightarrow> None)"

definition invert_code :: "nat \<Rightarrow> MInstr list \<Rightarrow> MInstr list" where
  "invert_code b instrs =
     (if length instrs < 2 \<or> mi_op (last instrs) \<noteq> GJmp GJmp_jmp then instrs
      else (let cj = instrs ! (length instrs - 2); jm = last instrs
            in if \<not> mi_has_bb_ref cj \<or> mi_bb_ref cj \<noteq> b + 1 \<or> mi_bb_ref jm = b + 1 then instrs
               else (case inverse_op (mi_op cj) of
                       None \<Rightarrow> instrs
                     | Some iop \<Rightarrow> take (length instrs - 2) instrs
                         @ [cj\<lparr>mi_op := iop, mi_bb_ref := mi_bb_ref jm\<rparr>, jm\<lparr>mi_bb_ref := mi_bb_ref cj\<rparr>])))"

definition invert_branches_to_next :: "MFunc \<Rightarrow> MFunc" where
  "invert_branches_to_next f = fold (\<lambda>b f. f\<lparr>mf_bbs := (mf_bbs f)[b := (mf_bbs f ! b)\<lparr>bb_instrs := invert_code b (bb_instrs (mf_bbs f ! b))\<rparr>]\<rparr>)
     [0..<length (mf_bbs f) - 1] f"

definition jmp_target :: "MFunc \<Rightarrow> nat \<Rightarrow> nat" where
  "jmp_target f bb = (let instrs = bb_instrs (mf_bbs f ! bb)
     in if instrs \<noteq> [] \<and> mi_op (last instrs) = GJmp GJmp_jmp then mi_bb_ref (last instrs) else length (mf_bbs f))"

text \<open>The key of a successor, compared like a \<^verbatim>\<open>std::tuple\<close>.\<close>

type_synonym bb_key = "bool \<times> bool \<times> 32 word"

definition succ_key :: "MFunc \<Rightarrow> BlockInfo \<Rightarrow> nat \<Rightarrow> nat \<Rightarrow> bb_key" where
  "succ_key f info bb s = (\<not> loop_depth info ! s < loop_depth info ! bb, s = jmp_target f bb, NOT (of_nat s))"

fun key_less :: "bb_key \<Rightarrow> bb_key \<Rightarrow> bool" where
  "key_less (a1, a2, a3) (b1, b2, b3) \<longleftrightarrow> a1 < b1 \<or> (a1 = b1 \<and> (a2 < b2 \<or> (a2 = b2 \<and> a3 < b3)))"

definition pick_next :: "MFunc \<Rightarrow> CFG \<Rightarrow> BlockInfo \<Rightarrow> bool list \<Rightarrow> nat \<Rightarrow> nat" where
  "pick_next f cfg info placed bb =
     fold (\<lambda>s best. if placed ! s \<or> (cold info ! s \<and> \<not> cold info ! bb) then best
                    else if best = length (mf_bbs f) \<or> key_less (succ_key f info bb best) (succ_key f info bb s) then s else best)
       (cfg_succ (cfg_bbrs cfg ! bb)) (length (mf_bbs f))"

type_synonym chain_state = "nat \<times> bool list \<times> nat list"

definition chain_step :: "MFunc \<Rightarrow> CFG \<Rightarrow> BlockInfo \<Rightarrow> chain_state \<Rightarrow> chain_state" where
  "chain_step f cfg info s = (case s of (bb, placed, order) \<Rightarrow>
     (pick_next f cfg info (placed[bb := True]) bb, placed[bb := True], order @ [bb]))"

definition chain_pending :: "MFunc \<Rightarrow> chain_state \<Rightarrow> bool" where
  "chain_pending f s = (fst s \<noteq> length (mf_bbs f))"

definition build_chain :: "MFunc \<Rightarrow> CFG \<Rightarrow> BlockInfo \<Rightarrow> nat \<Rightarrow> bool list \<times> nat list \<Rightarrow> (bool list \<times> nat list) option" where
  "build_chain f cfg info start s = map_option snd (while_option (chain_pending f) (chain_step f cfg info) (start, s))"

primrec place_pass :: "MFunc \<Rightarrow> CFG \<Rightarrow> BlockInfo \<Rightarrow> bool \<Rightarrow> nat list \<Rightarrow> bool list \<times> nat list \<Rightarrow> (bool list \<times> nat list) option" where
  "place_pass f cfg info cold_pass [] s = Some s"
| "place_pass f cfg info cold_pass (b # bs) s =
     (if \<not> fst s ! b \<and> cold info ! b = cold_pass
      then (case build_chain f cfg info b s of None \<Rightarrow> None | Some s' \<Rightarrow> place_pass f cfg info cold_pass bs s')
      else place_pass f cfg info cold_pass bs s)"

definition block_order :: "MFunc \<Rightarrow> CFG \<Rightarrow> BlockInfo \<Rightarrow> nat list option" where
  "block_order f cfg info =
     (let n = length (mf_bbs f)
      in case build_chain f cfg info 0 (replicate n False, []) of
           None \<Rightarrow> None
         | Some s \<Rightarrow> (case place_pass f cfg info False [0..<n] s of
                        None \<Rightarrow> None
                      | Some s \<Rightarrow> map_option snd (place_pass f cfg info True [0..<n] s)))"

definition new_ids :: "nat list \<Rightarrow> nat list" where
  "new_ids order = fold (\<lambda>i ids. ids[order ! i := i]) [0..<length order] (replicate (length order) 0)"

definition rename_instr :: "nat list \<Rightarrow> MInstr \<Rightarrow> MInstr" where
  "rename_instr ids x = (if mi_has_bb_ref x then x\<lparr>mi_bb_ref := ids ! mi_bb_ref x\<rparr> else x)"

definition move_blocks :: "nat list \<Rightarrow> MFunc \<Rightarrow> MFunc" where
  "move_blocks order f = f\<lparr>mf_bbs := map (\<lambda>old_id. \<lparr>bb_instrs = map (rename_instr (new_ids order)) (bb_instrs (mf_bbs f ! old_id))\<rparr>) order\<rparr>"

text \<open>\<open>None\<close> is the failed assertion that every block is placed, or a loop that does not end.\<close>

definition bb_reordering :: "MFunc \<Rightarrow> MFunc option" where
  "bb_reordering f =
     (let n = length (mf_bbs f); cfg = cfg_update f False
      in if n \<le> 2 then Some f
         else (case analyze_blocks f cfg of
                 None \<Rightarrow> None
               | Some info \<Rightarrow>
                   (case block_order f cfg info of
                      None \<Rightarrow> None
                    | Some order \<Rightarrow>
                        if length order \<noteq> n then None
                        else if list_all (\<lambda>i. order ! i = i) [0..<n] then Some (invert_branches_to_next f)
                        else Some (invert_branches_to_next (move_blocks order f)))))"

section \<open>The best successor\<close>

definition candidate :: "MFunc \<Rightarrow> BlockInfo \<Rightarrow> nat set \<Rightarrow> nat \<Rightarrow> nat \<Rightarrow> bool" where
  "candidate f info placed bb s \<longleftrightarrow> s \<in> set (bb_succs f bb) \<and> s \<notin> placed \<and> (cold info ! s \<longrightarrow> cold info ! bb)"

definition best_next :: "MFunc \<Rightarrow> BlockInfo \<Rightarrow> nat set \<Rightarrow> nat \<Rightarrow> nat \<Rightarrow> bool" where
  "best_next f info placed bb c \<longleftrightarrow> ((\<exists>s. candidate f info placed bb s) \<longrightarrow> candidate f info placed bb c
     \<and> (\<forall>s. candidate f info placed bb s \<longrightarrow> \<not> key_less (succ_key f info bb c) (succ_key f info bb s)))"

lemma key_ge_trans: "\<not> key_less a b \<Longrightarrow> \<not> key_less b c \<Longrightarrow> \<not> key_less a c"
  by (cases a; cases b; cases c) auto

lemma key_less_asym: "key_less a b \<Longrightarrow> \<not> key_less b a"
  by (cases a; cases b) auto

lemma key_irrefl: "\<not> key_less a a"
  by (cases a) auto

lemma pick_fold:
  fixes n :: nat and key :: "nat \<Rightarrow> bb_key" and C :: "nat \<Rightarrow> bool"
  assumes "\<forall>s \<in> set ss. s \<noteq> n"
  defines "g \<equiv> \<lambda>s best. if \<not> C s then best else if best = n \<or> key_less (key best) (key s) then s else best"
  shows "(fold g ss best = best \<or> (fold g ss best \<in> set ss \<and> C (fold g ss best)))
    \<and> (best \<noteq> n \<longrightarrow> fold g ss best \<noteq> n \<and> \<not> key_less (key (fold g ss best)) (key best))
    \<and> (\<forall>s \<in> set ss. C s \<longrightarrow> fold g ss best \<noteq> n \<and> \<not> key_less (key (fold g ss best)) (key s))"
  using assms(1)
proof (induction ss arbitrary: best)
  case Nil
  show ?case by (simp add: key_irrefl)
next
  case (Cons s ss)
  have s: "s \<noteq> n" "\<forall>s \<in> set ss. s \<noteq> n" using Cons.prems by auto
  consider "\<not> C s" | "C s" "best = n \<or> key_less (key best) (key s)" | "C s" "best \<noteq> n" "\<not> key_less (key best) (key s)" by blast
  then show ?case
  proof cases
    case 1
    then show ?thesis using Cons.IH[OF s(2), of best] by (auto simp: g_def)
  next
    case 2
    then have "fold g (s # ss) best = fold g ss s" by (simp add: g_def)
    moreover have "\<not> key_less r (key best)" if "\<not> key_less r (key s)" "best \<noteq> n" for r
      using key_ge_trans[OF that(1) key_less_asym] 2 that(2) by blast
    ultimately show ?thesis using Cons.IH[OF s(2), of s] 2 s(1) by (auto simp del: key_less.simps)
  next
    case 3
    then have "fold g (s # ss) best = fold g ss best" by (simp add: g_def)
    then show ?thesis using Cons.IH[OF s(2), of best] 3 key_ge_trans[OF _ 3(3)] by (auto simp del: key_less.simps)
  qed
qed

lemma pick_next_best:
  assumes f: "func_fits f" and bb: "bb < length (mf_bbs f)" and c: "c = pick_next f (cfg_update f False) info placed bb"
  shows "c = length (mf_bbs f) \<Longrightarrow> \<not> candidate f info {b. placed ! b} bb s"
    "c \<noteq> length (mf_bbs f) \<Longrightarrow> candidate f info {b. placed ! b} bb c \<and> best_next f info {b. placed ! b} bb c"
proof -
  let ?C = "\<lambda>s. \<not> (placed ! s \<or> (cold info ! s \<and> \<not> cold info ! bb))"
  have ss: "\<forall>s \<in> set (bb_succs f bb). s \<noteq> length (mf_bbs f)" using flow.succs_in[OF bb] by auto
  have c': "c = fold (\<lambda>s best. if \<not> ?C s then best else if best = length (mf_bbs f)
      \<or> key_less (succ_key f info bb best) (succ_key f info bb s) then s else best) (bb_succs f bb) (length (mf_bbs f))"
    unfolding c pick_next_def cfg_lookup(1)[OF f bb] by simp
  have cand: "candidate f info {b. placed ! b} bb s \<longleftrightarrow> s \<in> set (bb_succs f bb) \<and> ?C s" for s
    by (auto simp: candidate_def)
  note B = pick_fold[where C = ?C and key = "succ_key f info bb", OF ss, of "length (mf_bbs f)", folded c']
  show "c = length (mf_bbs f) \<Longrightarrow> \<not> candidate f info {b. placed ! b} bb s" using B cand by auto
  show "c \<noteq> length (mf_bbs f) \<Longrightarrow> candidate f info {b. placed ! b} bb c \<and> best_next f info {b. placed ! b} bb c"
    using B unfolding best_next_def cand by auto
qed

end
