(* ===== verification/BBOrder.thy ===== *)
theory BBOrder
  imports BBReorder
begin

text \<open>
  The order of the blocks: every block is placed exactly once, so the assertion of the pass holds; each block is
  followed by its best successor if it has one left; hot blocks come before cold ones.
\<close>

section \<open>What the order is\<close>

definition next_ok :: "MFunc \<Rightarrow> BlockInfo \<Rightarrow> nat list \<Rightarrow> nat \<Rightarrow> bool" where
  "next_ok f info order c \<longleftrightarrow> order = [] \<or> best_next f info (set order) (last order) c"

definition links :: "MFunc \<Rightarrow> BlockInfo \<Rightarrow> nat list \<Rightarrow> bool" where
  "links f info order \<longleftrightarrow> (\<forall>i < length order. next_ok f info (take i order) (order ! i))"

lemma links_snoc: "links f info (order @ [c]) \<longleftrightarrow> links f info order \<and> next_ok f info order c"
  by (auto simp: links_def less_Suc_eq nth_append)

definition place_ok :: "MFunc \<Rightarrow> BlockInfo \<Rightarrow> bool list \<times> nat list \<Rightarrow> bool" where
  "place_ok f info s \<longleftrightarrow> length (fst s) = length (mf_bbs f) \<and> distinct (snd s) \<and> links f info (snd s)
     \<and> set (snd s) = {b. b < length (mf_bbs f) \<and> fst s ! b}"

text \<open>A chain that starts at a hot block stays hot.\<close>

definition chain_inv :: "MFunc \<Rightarrow> BlockInfo \<Rightarrow> nat \<Rightarrow> nat list \<Rightarrow> chain_state \<Rightarrow> bool" where
  "chain_inv f info start old s \<longleftrightarrow> (case s of (bb, placed, order) \<Rightarrow>
     place_ok f info (placed, order) \<and> bb \<le> length (mf_bbs f)
     \<and> (if bb = length (mf_bbs f) then \<forall>c. next_ok f info order c else next_ok f info order bb \<and> \<not> placed ! bb)
     \<and> (\<exists>new. order = old @ new \<and> (if new = [] then bb = start else hd new = start)
          \<and> (\<not> cold info ! start \<longrightarrow> (\<forall>b \<in> set new. \<not> cold info ! b) \<and> (bb < length (mf_bbs f) \<longrightarrow> \<not> cold info ! bb))))"

lemma candidates_fit:
  assumes "length placed = length (mf_bbs f)" "set order = {b. b < length (mf_bbs f) \<and> placed ! b}"
  shows "candidate f info (set order) bb s \<longleftrightarrow> candidate f info {b. placed ! b} bb s"
    "best_next f info (set order) bb s \<longleftrightarrow> best_next f info {b. placed ! b} bb s"
proof -
  have "s < length (mf_bbs f)" if "s \<in> set (bb_succs f bb)" for s using that by (auto simp: bb_succs_def split: if_splits)
  then have "candidate f info (set order) bb s \<longleftrightarrow> candidate f info {b. placed ! b} bb s" for s
    using assms(2) by (auto simp: candidate_def)
  then show "candidate f info (set order) bb s \<longleftrightarrow> candidate f info {b. placed ! b} bb s"
    "best_next f info (set order) bb s \<longleftrightarrow> best_next f info {b. placed ! b} bb s" by (simp_all add: best_next_def)
qed

lemma place_one:
  assumes s: "place_ok f info (placed, order)" and bb: "bb < length (mf_bbs f)" "\<not> placed ! bb" "next_ok f info order bb"
  shows "place_ok f info (placed[bb := True], order @ [bb])"
proof -
  have len: "length placed = length (mf_bbs f)" using s by (simp add: place_ok_def)
  then have "{b. b < length (mf_bbs f) \<and> placed[bb := True] ! b} = insert bb {b. b < length (mf_bbs f) \<and> placed ! b}"
    using bb(1) by (auto simp: nth_list_update split: if_splits)
  then show ?thesis using s bb by (auto simp: place_ok_def links_snoc)
qed

lemma chain_step_inv:
  assumes f: "func_fits f" and inv: "chain_inv f info start old s" and p: "chain_pending f s"
  shows "chain_inv f info start old (chain_step f (cfg_update f False) info s)
    \<and> length (snd (snd (chain_step f (cfg_update f False) info s))) = Suc (length (snd (snd s)))"
proof -
  obtain bb placed order where s: "s = (bb, placed, order)" by (cases s)
  let ?placed = "placed[bb := True]" and ?order = "order @ [bb]"
  obtain c where c: "c = pick_next f (cfg_update f False) info ?placed bb" by blast
  have bb: "bb < length (mf_bbs f)" "\<not> placed ! bb" "next_ok f info order bb" "place_ok f info (placed, order)"
    using inv p by (auto simp: s chain_inv_def chain_pending_def)
  obtain new where new: "order = old @ new" "if new = [] then bb = start else hd new = start"
    "\<not> cold info ! start \<Longrightarrow> (\<forall>b \<in> set new. \<not> cold info ! b) \<and> \<not> cold info ! bb"
    using inv bb(1) by (auto simp: s chain_inv_def)
  have ok: "place_ok f info (?placed, ?order)" by (rule place_one[OF bb(4,1,2,3)])
  then have fit: "length ?placed = length (mf_bbs f)" "set ?order = {b. b < length (mf_bbs f) \<and> ?placed ! b}"
    by (simp_all add: place_ok_def)
  note P = pick_next_best[OF f bb(1) c, folded candidates_fit[OF fit]]
  have none: "next_ok f info ?order d" if "c = length (mf_bbs f)" for d
    using P(1)[OF that] by (simp add: next_ok_def best_next_def)
  have best: "c < length (mf_bbs f)" "\<not> ?placed ! c" "next_ok f info ?order c" "cold info ! c \<longrightarrow> cold info ! bb"
    if c: "c \<noteq> length (mf_bbs f)"
  proof -
    have "c \<in> set (bb_succs f bb)" "c \<notin> set ?order" "cold info ! c \<longrightarrow> cold info ! bb"
      using P(2)[OF c] by (simp_all add: candidate_def)
    then show "c < length (mf_bbs f)" "cold info ! c \<longrightarrow> cold info ! bb" "\<not> ?placed ! c"
      using fit(2) flow.succs_in[OF bb(1)] by auto
    show "next_ok f info ?order c" using P(2)[OF c] by (simp add: next_ok_def)
  qed
  have "chain_inv f info start old (c, ?placed, ?order)"
    unfolding chain_inv_def prod.case
  proof (intro conjI exI[of _ "new @ [bb]"])
    show "if c = length (mf_bbs f) then \<forall>d. next_ok f info ?order d else next_ok f info ?order c \<and> \<not> ?placed ! c"
      using none best by auto
    show "?order = old @ new @ [bb]" using new(1) by simp
    show "if new @ [bb] = [] then c = start else hd (new @ [bb]) = start" using new(2) by (cases new) auto
    show "\<not> cold info ! start \<longrightarrow> (\<forall>b \<in> set (new @ [bb]). \<not> cold info ! b) \<and> (c < length (mf_bbs f) \<longrightarrow> \<not> cold info ! c)"
      using new(3) best(4) by auto
    show "c \<le> length (mf_bbs f)" using best(1) by (cases "c = length (mf_bbs f)") auto
  qed (rule ok)
  then show ?thesis by (simp add: s chain_step_def c)
qed

lemma order_bound:
  assumes "place_ok f info (placed, order)"
  shows "length order \<le> length (mf_bbs f)"
proof -
  have "set order \<subseteq> {..<length (mf_bbs f)}" "distinct order" using assms unfolding place_ok_def by auto
  then show ?thesis using card_mono[of "{..<length (mf_bbs f)}" "set order"] by (simp add: distinct_card)
qed

lemma placed_at: "place_ok f info (placed, order) \<Longrightarrow> b \<in> set order \<Longrightarrow> placed ! b"
  unfolding place_ok_def by auto

lemma build_chain_ok:
  assumes f: "func_fits f" and s: "place_ok f info s" "start < length (mf_bbs f)" "\<not> fst s ! start" "next_ok f info (snd s) start"
  shows "\<exists>placed new. build_chain f (cfg_update f False) info start s = Some (placed, snd s @ new)
    \<and> place_ok f info (placed, snd s @ new) \<and> (\<forall>c. next_ok f info (snd s @ new) c)
    \<and> new \<noteq> [] \<and> hd new = start \<and> (\<not> cold info ! start \<longrightarrow> (\<forall>b \<in> set new. \<not> cold info ! b))"
proof -
  let ?step = "chain_step f (cfg_update f False) info" and ?I = "chain_inv f info start (snd s)"
  have init: "?I (start, s)" using s by (cases s) (auto simp: chain_inv_def)
  have "\<exists>t. while_option (chain_pending f) ?step (start, s) = Some t"
  proof (rule measure_while_option_Some[where P = ?I and f = "\<lambda>s. Suc (length (mf_bbs f)) - length (snd (snd s))", OF _ init])
    fix t
    assume t: "?I t" "chain_pending f t"
    note n = chain_step_inv[OF f t]
    have "place_ok f info (snd (?step t))" using n by (simp add: chain_inv_def split_beta)
    then have "length (snd (snd (?step t))) \<le> length (mf_bbs f)"
      using order_bound[of f info "fst (snd (?step t))" "snd (snd (?step t))"] by simp
    then show "?I (?step t) \<and> Suc (length (mf_bbs f)) - length (snd (snd (?step t))) < Suc (length (mf_bbs f)) - length (snd (snd t))"
      using n by (simp add: Suc_diff_Suc)
  qed
  then obtain bb placed order where t: "while_option (chain_pending f) ?step (start, s) = Some (bb, placed, order)"
    by (metis prod_cases3)
  have inv: "?I (bb, placed, order)"
    by (rule while_option_rule[where P = ?I, OF _ t init]) (use chain_step_inv[OF f] in blast)
  have bb: "bb = length (mf_bbs f)" using while_option_stop[OF t] by (simp add: chain_pending_def)
  obtain new where new: "order = snd s @ new" "if new = [] then bb = start else hd new = start"
    "\<not> cold info ! start \<longrightarrow> (\<forall>b \<in> set new. \<not> cold info ! b)" using inv by (auto simp: chain_inv_def)
  have "new \<noteq> []" using new(2) bb s(2) by auto
  moreover have "place_ok f info (placed, order)" "\<forall>c. next_ok f info order c"
    using inv bb by (simp_all add: chain_inv_def)
  moreover have "build_chain f (cfg_update f False) info start s = Some (placed, order)" by (simp add: build_chain_def t)
  ultimately show ?thesis using new by (intro exI[of _ placed] exI[of _ new]) simp
qed

text \<open>One pass places every block of its temperature.\<close>

definition end_ok :: "MFunc \<Rightarrow> BlockInfo \<Rightarrow> bool list \<times> nat list \<Rightarrow> bool" where
  "end_ok f info s \<longleftrightarrow> place_ok f info s \<and> (\<forall>c. next_ok f info (snd s) c)"

lemma placed_mono:
  assumes "place_ok f info s" "place_ok f info (placed, snd s @ new)" "b < length (mf_bbs f)" "fst s ! b"
  shows "placed ! b"
proof -
  have "b \<in> set (snd s @ new)" using assms(1,3,4) by (simp add: place_ok_def)
  then show ?thesis by (rule placed_at[OF assms(2)])
qed

lemma place_pass_ok:
  assumes f: "func_fits f"
  shows "end_ok f info s \<Longrightarrow> set bs \<subseteq> {..<length (mf_bbs f)} \<Longrightarrow>
    \<exists>placed new. place_pass f (cfg_update f False) info cp bs s = Some (placed, snd s @ new)
    \<and> end_ok f info (placed, snd s @ new) \<and> (\<forall>b \<in> set bs. cold info ! b = cp \<longrightarrow> placed ! b)
    \<and> (\<not> cp \<longrightarrow> (\<forall>b \<in> set new. \<not> cold info ! b))"
proof (induction bs arbitrary: s)
  case Nil
  then show ?case by (intro exI[of _ "fst s"] exI[of _ "[]"]) simp
next
  case (Cons b bs)
  have b: "b < length (mf_bbs f)" "set bs \<subseteq> {..<length (mf_bbs f)}" using Cons.prems(2) by auto
  have s: "place_ok f info s" "next_ok f info (snd s) b" using Cons.prems(1) by (simp_all add: end_ok_def)
  show ?case
  proof (cases "\<not> fst s ! b \<and> cold info ! b = cp")
    case True
    obtain pl nw where A: "build_chain f (cfg_update f False) info b s = Some (pl, snd s @ nw)"
      "end_ok f info (pl, snd s @ nw)" "nw \<noteq> []" "hd nw = b" "\<not> cold info ! b \<longrightarrow> (\<forall>b \<in> set nw. \<not> cold info ! b)"
      using build_chain_ok[OF f s(1) b(1) _ s(2)] True by (auto simp: end_ok_def)
    obtain placed new where B: "place_pass f (cfg_update f False) info cp bs (pl, snd s @ nw) = Some (placed, (snd s @ nw) @ new)"
      "end_ok f info (placed, (snd s @ nw) @ new)" "\<forall>b \<in> set bs. cold info ! b = cp \<longrightarrow> placed ! b"
      "\<not> cp \<longrightarrow> (\<forall>b \<in> set new. \<not> cold info ! b)"
      using Cons.IH[OF A(2) b(2)] by auto
    have "b \<in> set ((snd s @ nw) @ new)" using A(3,4) by (cases nw) auto
    then have "placed ! b" using B(2) placed_at unfolding end_ok_def by blast
    then show ?thesis using True A(1,5) B by (intro exI[of _ placed] exI[of _ "nw @ new"]) auto
  next
    case False
    obtain placed new where B: "place_pass f (cfg_update f False) info cp bs s = Some (placed, snd s @ new)"
      "end_ok f info (placed, snd s @ new)" "\<forall>b \<in> set bs. cold info ! b = cp \<longrightarrow> placed ! b"
      "\<not> cp \<longrightarrow> (\<forall>b \<in> set new. \<not> cold info ! b)"
      using Cons.IH[OF Cons.prems(1) b(2)] by auto
    have "cold info ! b = cp \<longrightarrow> placed ! b"
      using False placed_mono[OF s(1) _ b(1), of placed new] B(2) by (auto simp: end_ok_def)
    then show ?thesis using False B by auto
  qed
qed

definition order_exact :: "MFunc \<Rightarrow> BlockInfo \<Rightarrow> nat list \<Rightarrow> bool" where
  "order_exact f info order \<longleftrightarrow> distinct order \<and> set order = {..<length (mf_bbs f)} \<and> hd order = 0 \<and> links f info order
     \<and> (\<not> cold info ! 0 \<longrightarrow> (\<exists>hot rest. order = hot @ rest \<and> (\<forall>b \<in> set hot. \<not> cold info ! b) \<and> (\<forall>b \<in> set rest. cold info ! b)))"

lemma block_order_ok:
  assumes f: "func_fits f" "mf_bbs f \<noteq> []"
  shows "\<exists>order. block_order f (cfg_update f False) info = Some order \<and> order_exact f info order"
proof -
  let ?n = "length (mf_bbs f)" and ?cfg = "cfg_update f False"
  have init: "place_ok f info (replicate ?n False, [])" "next_ok f info [] 0" by (auto simp: place_ok_def links_def next_ok_def)
  obtain p0 o0 where A: "build_chain f ?cfg info 0 (replicate ?n False, []) = Some (p0, o0)" "end_ok f info (p0, o0)"
    "o0 \<noteq> []" "hd o0 = 0" "\<not> cold info ! 0 \<longrightarrow> (\<forall>b \<in> set o0. \<not> cold info ! b)"
    using build_chain_ok[OF f(1) init(1), of 0] init(2) f(2) by (auto simp: end_ok_def)
  have all: "set [0..<?n] \<subseteq> {..<?n}" by auto
  obtain p1 o1 where B: "place_pass f ?cfg info False [0..<?n] (p0, o0) = Some (p1, o0 @ o1)" "end_ok f info (p1, o0 @ o1)"
    "\<forall>b \<in> set [0..<?n]. \<not> cold info ! b \<longrightarrow> p1 ! b" "\<forall>b \<in> set o1. \<not> cold info ! b"
    using place_pass_ok[OF f(1) A(2) all, of False] by auto
  obtain p2 o2 where C: "place_pass f ?cfg info True [0..<?n] (p1, o0 @ o1) = Some (p2, (o0 @ o1) @ o2)"
    "end_ok f info (p2, (o0 @ o1) @ o2)" "\<forall>b \<in> set [0..<?n]. cold info ! b \<longrightarrow> p2 ! b"
    using place_pass_ok[OF f(1) B(2) all, of True] by auto
  let ?order = "(o0 @ o1) @ o2"
  have placed: "set (o0 @ o1) = {b. b < ?n \<and> p1 ! b}" "set ?order = {b. b < ?n \<and> p2 ! b}" "distinct ?order"
    using B(2) C(2) by (simp_all add: end_ok_def place_ok_def)
  have "b \<in> set ?order" if "b < ?n" for b
  proof (cases "cold info ! b")
    case True
    then show ?thesis using C(3) that placed(2) by simp
  next
    case False
    then have "b \<in> set (o0 @ o1)" using B(3) that placed(1) by simp
    then show ?thesis by auto
  qed
  then have set: "set ?order = {..<?n}" using placed(2) by auto
  have "cold info ! b" if "b \<in> set o2" for b
  proof (rule ccontr)
    assume "\<not> cold info ! b"
    moreover have "b < ?n" using that set by auto
    ultimately have "b \<in> set (o0 @ o1)" using B(3) placed(1) by simp
    then show False using placed(3) that by auto
  qed
  then have "\<not> cold info ! 0 \<longrightarrow> (\<exists>hot rest. ?order = hot @ rest \<and> (\<forall>b \<in> set hot. \<not> cold info ! b) \<and> (\<forall>b \<in> set rest. cold info ! b))"
    using A(5) B(4) by (intro impI exI[of _ "o0 @ o1"] exI[of _ o2]) auto
  then have "order_exact f info ?order"
    using set placed(3) A(3,4) C(2) by (auto simp: order_exact_def end_ok_def place_ok_def)
  moreover have "block_order f ?cfg info = Some ?order" by (simp add: block_order_def Let_def A(1) B(1) C(1)[simplified])
  ultimately show ?thesis by blast
qed

end
