(* ===== verification/BBMirror.thy ===== *)
theory BBMirror
  imports BBOrder MIRDceSpec
begin

text \<open>
  Block reordering keeps the behaviour: moving the blocks is a renaming that the runs follow step by step, and
  an inverted branch reaches the same blocks with the two jumps in the other order.
\<close>

section \<open>Machines\<close>

text \<open>What is asked of the machine: the number of the target block means nothing to an instruction; \<^verbatim>\<open>jmp\<close>
  only leaves; a comparing jump only decides, and its inverse decides the other way.\<close>

definition jump_machine :: "('v, 'm) machine \<Rightarrow> bool" where
  "jump_machine sem \<longleftrightarrow> (\<forall>x r. sem (x\<lparr>mi_bb_ref := r\<rparr>) = sem x)
     \<and> (\<forall>x rs m. mi_op x = GJmp GJmp_jmp \<longrightarrow> sem x rs m = (rs, m, True))
     \<and> (\<forall>x op rs m. inverse_op (mi_op x) = Some op \<longrightarrow>
          (\<exists>leave. sem x rs m = (rs, m, leave) \<and> sem (x\<lparr>mi_op := op\<rparr>) rs m = (rs, m, \<not> leave)))"

definition jumps_refer :: "MFunc \<Rightarrow> bool" where
  "jumps_refer f \<longleftrightarrow> (\<forall>b < length (mf_bbs f). \<forall>x \<in> set (bb_code f b). mi_op x = GJmp GJmp_jmp \<longrightarrow> mi_has_bb_ref x)"

section \<open>One inverted branch\<close>

definition mirrored :: "('v, 'm) machine \<Rightarrow> nat \<Rightarrow> MInstr list \<Rightarrow> MInstr \<Rightarrow> MInstr \<Rightarrow> MInstr \<Rightarrow> MInstr \<Rightarrow> MFunc \<Rightarrow> MFunc \<Rightarrow> bool" where
  "mirrored sem b pre c j c' j' f g \<longleftrightarrow>
     bb_code f b = pre @ [c, j] \<and> bb_code g = (bb_code f)(b := pre @ [c', j'])
     \<and> mi_has_bb_ref c \<and> mi_has_bb_ref c' \<and> mi_has_bb_ref j \<and> mi_has_bb_ref j'
     \<and> mi_bb_ref c' = mi_bb_ref j \<and> mi_bb_ref j' = mi_bb_ref c
     \<and> (\<forall>rs m. sem j rs m = (rs, m, True)) \<and> (\<forall>rs m. sem j' rs m = (rs, m, True))
     \<and> (\<forall>rs m. \<exists>leave. sem c rs m = (rs, m, leave) \<and> sem c' rs m = (rs, m, \<not> leave))"

lemma mirrored_sym: "mirrored sem b pre c j c' j' f g \<Longrightarrow> mirrored sem b pre c' j' c j g f"
proof -
  have "(\<exists>leave. sem c rs m = (rs, m, leave) \<and> sem c' rs m = (rs, m, \<not> leave))
      \<longleftrightarrow> (\<exists>leave. sem c' rs m = (rs, m, leave) \<and> sem c rs m = (rs, m, \<not> leave))" for rs m
    by (auto simp: ex_bool_eq)
  then show "mirrored sem b pre c j c' j' f g \<Longrightarrow> mirrored sem b pre c' j' c j g f"
    unfolding mirrored_def by (simp add: fun_upd_idem)
qed

text \<open>The state of the other function: a state between the two jumps counts as one in front of them.\<close>

fun unstep :: "nat \<Rightarrow> nat \<Rightarrow> nat \<times> nat \<times> 'v regs \<times> 'm \<Rightarrow> nat \<times> nat \<times> 'v regs \<times> 'm" where
  "unstep b k (e, i, rs, m) = (if e = b \<and> i = Suc k then (b, k, rs, m) else (e, i, rs, m))"

text \<open>Between the jumps the first one did not leave.\<close>

fun stayed :: "('v, 'm) machine \<Rightarrow> nat \<Rightarrow> nat \<Rightarrow> MInstr \<Rightarrow> nat \<times> nat \<times> 'v regs \<times> 'm \<Rightarrow> bool" where
  "stayed sem b k c (e, i, rs, m) \<longleftrightarrow> (e = b \<and> i = Suc k \<longrightarrow> sem c rs m = (rs, m, False))"

lemma mirrored_jumps:
  assumes M: "mirrored sem b pre c j c' j' f g" and k: "k = length pre"
  shows "machine_step sem f (b, Suc k, rs, m) = Some (mi_bb_ref j, 0, rs, m)"
    "machine_step sem g (b, Suc k, rs, m) = Some (mi_bb_ref c, 0, rs, m)"
    "sem c rs m = (rs, m, True) \<Longrightarrow> machine_step sem f (b, k, rs, m) = Some (mi_bb_ref c, 0, rs, m)
       \<and> machine_step sem g (b, k, rs, m) = Some (b, Suc k, rs, m)"
    "sem c rs m = (rs, m, False) \<Longrightarrow> machine_step sem f (b, k, rs, m) = Some (b, Suc k, rs, m)
       \<and> machine_step sem g (b, k, rs, m) = Some (mi_bb_ref j, 0, rs, m)"
proof -
  obtain l where l: "sem c rs m = (rs, m, l)" "sem c' rs m = (rs, m, \<not> l)" using M unfolding mirrored_def by blast
  have "sem j rs m = (rs, m, True)" "sem j' rs m = (rs, m, True)" using M by (simp_all add: mirrored_def)
  then show "machine_step sem f (b, Suc k, rs, m) = Some (mi_bb_ref j, 0, rs, m)"
    "machine_step sem g (b, Suc k, rs, m) = Some (mi_bb_ref c, 0, rs, m)"
    using M by (simp_all add: mirrored_def k nth_append)
  show "sem c rs m = (rs, m, True) \<Longrightarrow> machine_step sem f (b, k, rs, m) = Some (mi_bb_ref c, 0, rs, m)
       \<and> machine_step sem g (b, k, rs, m) = Some (b, Suc k, rs, m)"
    "sem c rs m = (rs, m, False) \<Longrightarrow> machine_step sem f (b, k, rs, m) = Some (b, Suc k, rs, m)
       \<and> machine_step sem g (b, k, rs, m) = Some (mi_bb_ref j, 0, rs, m)"
    using M l by (simp_all add: mirrored_def k)
qed

lemma mirrored_other:
  assumes M: "mirrored sem b pre c j c' j' f g" and s: "\<not> (e = b \<and> (i = length pre \<or> i = Suc (length pre)))"
  shows "machine_step sem g (e, i, rs, m) = machine_step sem f (e, i, rs, m)"
proof (cases "e = b")
  case True
  then have i: "i < length pre \<or> Suc (Suc (length pre)) \<le> i" using s by linarith
  have code: "bb_code f b = pre @ [c, j]" "bb_code g b = pre @ [c', j']" using M by (simp_all add: mirrored_def)
  show ?thesis using i True by (auto simp: code nth_append)
next
  case False
  then have "bb_code g e = bb_code f e" using M by (simp add: mirrored_def)
  then show ?thesis by simp
qed

lemma unstep_start: "stayed sem b k c (e, 0, rs, m)" "unstep b k (e, 0, rs, m) = (e, 0, rs, m)"
  by simp_all

text \<open>The step of the other function leads to an entry or stays in the block.\<close>

lemma mirrored_next:
  assumes "machine_step sem f (e, i, rs, m) = Some v" "\<not> (e = b \<and> i = k)"
  shows "stayed sem b k c v" "unstep b k v = v"
  using assms by (cases v; auto simp: Let_def split: if_splits prod.splits)+

lemma mirrored_forward:
  assumes M: "mirrored sem b pre c j c' j' f g" and s: "unstep b (length pre) s = s"
  shows "machine_run sem f n s = Some u \<Longrightarrow>
    stayed sem b (length pre) c u \<and> (\<exists>n'. machine_run sem g n' s = Some (unstep b (length pre) u))"
proof (induction n arbitrary: u)
  case 0
  have "stayed sem b (length pre) c s" using s by (cases s) (auto split: if_splits)
  then show ?case using 0 s by (intro conjI exI[of _ 0]) auto
next
  case (Suc n)
  let ?k = "length pre"
  obtain w where w: "machine_run sem f n s = Some w" "machine_step sem f w = Some u" using Suc.prems by (rule run_last)
  obtain n' where IH: "stayed sem b ?k c w" "machine_run sem g n' s = Some (unstep b ?k w)" using Suc.IH[OF w(1)] by blast
  obtain e i rs m where we: "w = (e, i, rs, m)" by (cases w)
  note J = mirrored_jumps[OF M refl, of rs m]
  consider "e = b" "i = Suc ?k" | "e = b" "i = ?k" | "\<not> (e = b \<and> (i = ?k \<or> i = Suc ?k))" by blast
  then show ?case
  proof cases
    case 1
    then have u: "u = (mi_bb_ref j, 0, rs, m)" and stay: "sem c rs m = (rs, m, False)" using w(2) J(1) IH(1) we by simp_all
    have "machine_step sem g (unstep b ?k w) = Some u" using J(4)[OF stay] 1 we u by (simp del: machine_step.simps)
    then show ?thesis using run_snoc[OF IH(2)] u unstep_start by metis
  next
    case 2
    obtain l where l: "sem c rs m = (rs, m, l)" using M unfolding mirrored_def by blast
    have at: "unstep b ?k w = (b, ?k, rs, m)" using 2 we by simp
    show ?thesis
    proof (cases l)
      case True
      then have "u = (mi_bb_ref c, 0, rs, m)" "machine_step sem g (b, ?k, rs, m) = Some (b, Suc ?k, rs, m)"
        using J(3) l w(2) 2 we by (simp_all del: machine_step.simps)
      then show ?thesis using run_snoc[OF run_snoc[OF IH(2)[unfolded at]] J(2)] unstep_start by metis
    next
      case False
      then have "u = (b, Suc ?k, rs, m)" using J(4) l w(2) 2 we by (simp del: machine_step.simps)
      then show ?thesis using IH(2) at l False by auto
    qed
  next
    case 3
    then have "machine_step sem g w = Some u" "unstep b ?k w = w"
      using mirrored_other[OF M 3] w(2) we by (auto simp del: machine_step.simps)
    moreover have "stayed sem b ?k c u" "unstep b ?k u = u"
      using mirrored_next[OF w(2)[unfolded we], of b ?k] 3 by blast+
    ultimately show ?thesis using run_snoc[OF IH(2)] by metis
  qed
qed

lemma mirrored_visits:
  assumes M: "mirrored sem b pre c j c' j' f g"
  shows "visits sem f (e, 0, rs, m) d m' \<Longrightarrow> visits sem g (e, 0, rs, m) d m'"
    "ends sem f (e, 0, rs, m) d m' \<Longrightarrow> ends sem g (e, 0, rs, m) d m'"
proof -
  note R = mirrored_forward[OF M unstep_start(2)[of b "length pre" e rs m]]
  assume "visits sem f (e, 0, rs, m) d m'"
  then obtain n i rs' where u: "machine_run sem f n (e, 0, rs, m) = Some (d, i, rs', m')" unfolding visits_def by blast
  obtain n' where "machine_run sem g n' (e, 0, rs, m) = Some (unstep b (length pre) (d, i, rs', m'))" using R[OF u] by blast
  then show "visits sem g (e, 0, rs, m) d m'" unfolding visits_def by (auto split: if_splits)
next
  note R = mirrored_forward[OF M unstep_start(2)[of b "length pre" e rs m]]
  assume "ends sem f (e, 0, rs, m) d m'"
  then obtain n i rs' where u: "machine_run sem f n (e, 0, rs, m) = Some (d, i, rs', m')"
    "machine_step sem f (d, i, rs', m') = None" unfolding ends_def by blast
  obtain l where l: "sem c rs' m' = (rs', m', l)" using M unfolding mirrored_def by blast
  have off: "\<not> (d = b \<and> (i = length pre \<or> i = Suc (length pre)))"
    using u(2) mirrored_jumps[OF M refl, of rs' m'] l by (cases l) (auto simp del: machine_step.simps)
  have "unstep b (length pre) (d, i, rs', m') = (d, i, rs', m')" using off by auto
  then obtain n' where "machine_run sem g n' (e, 0, rs, m) = Some (d, i, rs', m')" using R[OF u(1)] by auto
  then show "ends sem g (e, 0, rs, m) d m'"
    using mirrored_other[OF M off] u(2) unfolding ends_def by metis
qed

lemma mirrored_same: "mirrored sem b pre c j c' j' f g \<Longrightarrow> same_behaviour sem f g (e, 0, rs, m)"
  unfolding same_behaviour_def using mirrored_visits mirrored_sym by metis

end
