(* ===== verification/BBReorderSpec.thy ===== *)
theory BBReorderSpec
  imports BBMirror
begin

text \<open>
  The properties of block reordering: what its order is, and that it keeps the behaviour of the function up to
  the new numbers of the blocks.
\<close>

section \<open>All inverted branches\<close>

lemma invert_code_cases:
  "invert_code b xs = xs \<or> (\<exists>pre c j op. xs = pre @ [c, j] \<and> mi_op j = GJmp GJmp_jmp \<and> mi_has_bb_ref c
     \<and> inverse_op (mi_op c) = Some op
     \<and> invert_code b xs = pre @ [c\<lparr>mi_op := op, mi_bb_ref := mi_bb_ref j\<rparr>, j\<lparr>mi_bb_ref := mi_bb_ref c\<rparr>])"
proof (cases "invert_code b xs = xs")
  case False
  then have "2 \<le> length xs" by (auto simp: invert_code_def split: if_splits)
  then obtain pre c j where xs: "xs = pre @ [c, j]"
    by (metis append.assoc append_Cons append_Nil append_butlast_last_id le_numeral_extra(4) length_butlast length_greater_0_conv
        less_le_trans list.size(3) not_numeral_le_zero zero_less_diff zero_less_numeral diff_is_0_eq One_nat_def Suc_1 not_less_eq_eq)
  then show ?thesis using False
    by (auto simp: invert_code_def Let_def nth_append split: if_splits option.splits)
qed simp

lemma jumps_refer_with:
  assumes "jumps_refer f" "b < length (mf_bbs f)" "\<And>x. x \<in> set xs \<Longrightarrow> mi_op x = GJmp GJmp_jmp \<Longrightarrow> mi_has_bb_ref x"
  shows "jumps_refer (with_code f b xs)"
  unfolding jumps_refer_def
proof (intro allI impI ballI)
  fix d x
  assume "d < length (mf_bbs (with_code f b xs))" "x \<in> set (bb_code (with_code f b xs) d)" "mi_op x = GJmp GJmp_jmp"
  then show "mi_has_bb_ref x" using assms unfolding jumps_refer_def by (cases "d = b") simp_all
qed

lemma invert_one:
  assumes sem: "jump_machine sem" and f: "jumps_refer f" and b: "b < length (mf_bbs f)"
  shows "same_behaviour sem f (with_code f b (invert_code b (bb_code f b))) (e, 0, rs, m)
    \<and> jumps_refer (with_code f b (invert_code b (bb_code f b)))"
proof (cases "invert_code b (bb_code f b) = bb_code f b")
  case True
  then show ?thesis using f by (simp add: with_code_self)
next
  case False
  then obtain pre c j op where x: "bb_code f b = pre @ [c, j]" "mi_op j = GJmp GJmp_jmp" "mi_has_bb_ref c" "inverse_op (mi_op c) = Some op"
    "invert_code b (bb_code f b) = pre @ [c\<lparr>mi_op := op, mi_bb_ref := mi_bb_ref j\<rparr>, j\<lparr>mi_bb_ref := mi_bb_ref c\<rparr>]"
    using invert_code_cases[of b "bb_code f b"] by metis
  let ?c = "c\<lparr>mi_op := op, mi_bb_ref := mi_bb_ref j\<rparr>" and ?j = "j\<lparr>mi_bb_ref := mi_bb_ref c\<rparr>"
  have refs: "mi_has_bb_ref y" if "y \<in> set (pre @ [c, j])" "mi_op y = GJmp GJmp_jmp" for y
    using f b that unfolding jumps_refer_def x(1)[symmetric] by blast
  have j: "mi_has_bb_ref j" by (rule refs) (simp_all add: x(2))
  have blind: "sem (x\<lparr>mi_bb_ref := r\<rparr>) = sem x" for x r using sem unfolding jump_machine_def by blast
  have "sem ?c = sem (c\<lparr>mi_op := op\<rparr>)" using blind[where x = "c\<lparr>mi_op := op\<rparr>" and r = "mi_bb_ref j"] by simp
  then have decide: "\<exists>leave. sem c rs m = (rs, m, leave) \<and> sem ?c rs m = (rs, m, \<not> leave)" for rs m
    using sem x(4) unfolding jump_machine_def by metis
  have leave: "sem j rs m = (rs, m, True)" "sem ?j rs m = (rs, m, True)" for rs m
    using sem x(2) blind[where x = j and r = "mi_bb_ref c"] unfolding jump_machine_def by metis+
  have "mirrored sem b pre c j ?c ?j f (with_code f b (pre @ [?c, ?j]))"
    unfolding mirrored_def with_code_simps(2)[OF b] using x(1,3) j decide leave by simp
  from mirrored_same[OF this] have "same_behaviour sem f (with_code f b (invert_code b (bb_code f b))) (e, 0, rs, m)" by (simp add: x(5))
  moreover have "jumps_refer (with_code f b (invert_code b (bb_code f b)))"
    unfolding x(5)
  proof (rule jumps_refer_with[OF f b])
    have "mi_has_bb_ref ?c" "mi_has_bb_ref ?j" using x(3) j by simp_all
    then show "mi_has_bb_ref y" if "y \<in> set (pre @ [?c, ?j])" "mi_op y = GJmp GJmp_jmp" for y
      using that(1) refs[OF _ that(2)] unfolding set_append by (elim UnE) (simp, force simp only: list.set insert_iff empty_iff)
  qed
  ultimately show ?thesis ..
qed

lemma invert_all:
  assumes sem: "jump_machine sem" and f: "jumps_refer f"
  shows "same_behaviour sem f (invert_branches_to_next f) (e, 0, rs, m) \<and> length (mf_bbs (invert_branches_to_next f)) = length (mf_bbs f)"
proof -
  let ?step = "\<lambda>b f. f\<lparr>mf_bbs := (mf_bbs f)[b := (mf_bbs f ! b)\<lparr>bb_instrs := invert_code b (bb_instrs (mf_bbs f ! b))\<rparr>]\<rparr>"
  have step: "?step b g = with_code g b (invert_code b (bb_code g b))" for b g by (simp add: with_code_def bb_code_def)
  have "k \<le> length (mf_bbs f) \<Longrightarrow> same_behaviour sem f (fold ?step [0..<k] f) (e, 0, rs, m) \<and> jumps_refer (fold ?step [0..<k] f)
      \<and> length (mf_bbs (fold ?step [0..<k] f)) = length (mf_bbs f)" for k
  proof (induction k)
    case (Suc k)
    let ?g = "fold ?step [0..<k] f"
    have IH: "same_behaviour sem f ?g (e, 0, rs, m)" "jumps_refer ?g" "length (mf_bbs ?g) = length (mf_bbs f)" using Suc by auto
    have "fold ?step [0..<Suc k] f = with_code ?g k (invert_code k (bb_code ?g k))" using step by simp
    then show ?case using invert_one[OF sem IH(2), of k e rs m] IH Suc.prems same_behaviour_trans by fastforce
  qed (use f in simp)
  from this[of "length (mf_bbs f) - 1"] show ?thesis by (simp add: invert_branches_to_next_def)
qed

section \<open>Moving the blocks\<close>

lemma new_ids_nth:
  assumes o: "distinct order" "set order = {..<length order}"
  shows "i < length order \<Longrightarrow> new_ids order ! (order ! i) = i"
proof -
  have "k \<le> length order \<Longrightarrow> length (fold (\<lambda>i ids. ids[order ! i := i]) [0..<k] (replicate (length order) 0)) = length order
      \<and> (\<forall>i < k. fold (\<lambda>i ids. ids[order ! i := i]) [0..<k] (replicate (length order) 0) ! (order ! i) = i)" for k
  proof (induction k)
    case (Suc k)
    have "order ! i < length order" if "i < length order" for i using nth_mem[OF that] o(2) by auto
    then show ?case using Suc o(1) by (auto simp: nth_list_update less_Suc_eq nth_eq_iff_index_eq)
  qed simp
  then show "i < length order \<Longrightarrow> new_ids order ! (order ! i) = i" by (simp add: new_ids_def)
qed

lemma new_ids_perm:
  assumes o: "distinct order" "set order = {..<length order}" and b: "b < length order"
  shows "new_ids order ! b < length order" "order ! (new_ids order ! b) = b"
proof -
  obtain i where i: "i < length order" "order ! i = b" using b o(2) by (metis in_set_conv_nth lessThan_iff)
  then show "new_ids order ! b < length order" "order ! (new_ids order ! b) = b" using new_ids_nth[OF o i(1)] by simp_all
qed

fun moved :: "nat list \<Rightarrow> nat \<times> nat \<times> 'v regs \<times> 'm \<Rightarrow> nat \<times> nat \<times> 'v regs \<times> 'm" where
  "moved order (b, i, rs, m) = (new_ids order ! b, i, rs, m)"

lemma moved_step:
  assumes o: "distinct order" "set order = {..<length order}" "length order = length (mf_bbs f)"
    and f: "func_fits f" and sem: "jump_machine sem" and s: "fst s < length (mf_bbs f)"
  shows "machine_step sem (move_blocks order f) (moved order s) = map_option (moved order) (machine_step sem f s)
    \<and> (\<forall>t. machine_step sem f s = Some t \<longrightarrow> fst t < length (mf_bbs f))"
proof -
  obtain b i rs m where st: "s = (b, i, rs, m)" by (cases s)
  have b: "b < length (mf_bbs f)" using s st by simp
  have ids: "new_ids order ! b < length order" "order ! (new_ids order ! b) = b" using new_ids_perm[OF o(1,2)] b o(3) by simp_all
  have code: "bb_code (move_blocks order f) (new_ids order ! b) = map (rename_instr (new_ids order)) (bb_code f b)"
    using ids by (simp add: move_blocks_def bb_code_def)
  have "sem (x\<lparr>mi_bb_ref := r\<rparr>) = sem x" for x r using sem by (simp add: jump_machine_def)
  then have blind: "sem (rename_instr ids x) = sem x" for ids x by (simp add: rename_instr_def)
  have ren: "mi_has_bb_ref (rename_instr ids x) = mi_has_bb_ref x" "mi_has_bb_ref x \<Longrightarrow> mi_bb_ref (rename_instr ids x) = ids ! mi_bb_ref x"
    for ids x by (simp_all add: rename_instr_def)
  obtain rs1 m1 l where x: "sem (bb_code f b ! i) rs m = (rs1, m1, l)" by (metis prod_cases3)
  have "mi_bb_ref (bb_code f b ! i) < length (mf_bbs f)" if "i < length (bb_code f b)" "mi_has_bb_ref (bb_code f b ! i)"
    using that f bb_code_in[OF b] unfolding func_fits_def by (meson nth_mem subsetD)
  then show ?thesis using b unfolding st moved.simps machine_step.simps code
    by (simp add: Let_def blind ren x)
qed

lemma moved_run:
  assumes o: "distinct order" "set order = {..<length order}" "length order = length (mf_bbs f)"
    and f: "func_fits f" and sem: "jump_machine sem"
  shows "fst s < length (mf_bbs f) \<Longrightarrow>
    machine_run sem (move_blocks order f) k (moved order s) = map_option (moved order) (machine_run sem f k s)
    \<and> (\<forall>t. machine_run sem f k s = Some t \<longrightarrow> fst t < length (mf_bbs f))"
proof (induction k arbitrary: s)
  case (Suc k)
  note S = moved_step[OF o f sem Suc.prems]
  show ?case
  proof (cases "machine_step sem f s")
    case None
    then show ?thesis using S by (simp del: machine_step.simps moved.simps)
  next
    case (Some t)
    then have "fst t < length (mf_bbs f)" using S by blast
    from Suc.IH[OF this] show ?thesis using S Some by (simp del: machine_step.simps moved.simps)
  qed
qed simp

lemma moved_behaviour:
  assumes o: "distinct order" "set order = {..<length order}" "length order = length (mf_bbs f)"
    and f: "func_fits f" and sem: "jump_machine sem" and b: "b < length (mf_bbs f)" "c < length (mf_bbs f)"
  shows "visits sem (move_blocks order f) (new_ids order ! b, 0, rs, m) (new_ids order ! c) m' \<longleftrightarrow> visits sem f (b, 0, rs, m) c m'"
    "ends sem (move_blocks order f) (new_ids order ! b, 0, rs, m) (new_ids order ! c) m' \<longleftrightarrow> ends sem f (b, 0, rs, m) c m'"
proof -
  let ?g = "move_blocks order f" and ?s = "(b, 0, rs, m)"
  have s: "fst ?s < length (mf_bbs f)" using b by simp
  have R: "machine_run sem ?g k (new_ids order ! b, 0, rs, m) = map_option (moved order) (machine_run sem f k ?s)"
    "machine_run sem f k ?s = Some t \<Longrightarrow> fst t < length (mf_bbs f)" for k t
    using moved_run[OF o f sem s, THEN conjunct1] moved_run[OF o f sem s, THEN conjunct2] by (simp, blast)
  have inj: "d = c" if "new_ids order ! d = new_ids order ! c" "d < length (mf_bbs f)" for d
    using new_ids_perm(2)[OF o(1,2)] b(2) o(3) that by metis
  have run: "machine_run sem ?g k (new_ids order ! b, 0, rs, m) = Some (new_ids order ! c, i, rs', m')
      \<longleftrightarrow> machine_run sem f k ?s = Some (c, i, rs', m')" for k i rs' m'
    using R[of k] inj by (auto simp del: machine_step.simps)
  have step: "machine_step sem ?g (new_ids order ! c, i, rs', m') = None \<longleftrightarrow> machine_step sem f (c, i, rs', m') = None" for i rs' m'
    using moved_step[OF o f sem, of "(c, i, rs', m')"] b(2) by (simp del: machine_step.simps)
  show "visits sem ?g (new_ids order ! b, 0, rs, m) (new_ids order ! c) m' \<longleftrightarrow> visits sem f ?s c m'"
    unfolding visits_def run ..
  show "ends sem ?g (new_ids order ! b, 0, rs, m) (new_ids order ! c) m' \<longleftrightarrow> ends sem f ?s c m'"
    unfolding ends_def run step ..
qed

lemma moved_jumps_refer:
  assumes "jumps_refer f" "set order = {..<length (mf_bbs f)}"
  shows "jumps_refer (move_blocks order f)"
  unfolding jumps_refer_def
proof (intro allI impI ballI)
  fix d x
  assume d: "d < length (mf_bbs (move_blocks order f))" "x \<in> set (bb_code (move_blocks order f) d)" "mi_op x = GJmp GJmp_jmp"
  then have o: "d < length order" "order ! d < length (mf_bbs f)" using nth_mem[of d order] assms(2) by (auto simp: move_blocks_def)
  then obtain y where y: "x = rename_instr (new_ids order) y" "y \<in> set (bb_code f (order ! d))"
    using d(2) by (auto simp: move_blocks_def bb_code_def)
  have same: "mi_op x = mi_op y" "mi_has_bb_ref x = mi_has_bb_ref y" unfolding y(1) by (simp_all add: rename_instr_def)
  show "mi_has_bb_ref x" using assms(1) o(2) y(2) d(3) unfolding same jumps_refer_def by blast
qed

section \<open>Properties\<close>


text \<open>C11: the order of block reordering has every block exactly once, so the assertion of the pass holds,
  and begins with the entry; behind each block comes its best successor, if it has one that is not yet placed
  and does not lead from hot code into cold code: no other such successor has a greater key; and if the entry is hot,
  every hot block comes before every cold one.\<close>

theorem block_order_exact:
  assumes "func_fits f" "mf_bbs f \<noteq> []"
  shows "\<exists>info order. analyze_blocks f (cfg_update f False) = Some info \<and> block_order f (cfg_update f False) info = Some order
    \<and> distinct order \<and> set order = {..<length (mf_bbs f)} \<and> hd order = 0
    \<and> (\<forall>i. Suc i < length order \<longrightarrow> best_next f info (set (take (Suc i) order)) (order ! i) (order ! Suc i))
    \<and> (\<not> cold_block f 0 \<longrightarrow> (\<forall>i j. i < j \<and> j < length order \<and> cold_block f (order ! i) \<longrightarrow> cold_block f (order ! j)))"
proof -
  obtain info E where info: "analyze_blocks f (cfg_update f False) = Some info" "info_exact f E info"
    using analyze_blocks_exact[OF assms] by blast
  obtain order where o: "block_order f (cfg_update f False) info = Some order" "order_exact f info order"
    using block_order_ok[OF assms] by blast
  have perm: "distinct order" "set order = {..<length (mf_bbs f)}" "hd order = 0" "links f info order"
    using o(2) by (simp_all add: order_exact_def)
  have lt: "order ! i < length (mf_bbs f)" if "i < length order" for i using nth_mem[OF that] perm(2) by auto
  have cb: "cold info ! b \<longleftrightarrow> cold_block f b" if "b < length (mf_bbs f)" for b using that info(2) by (simp add: info_exact_def)
  have "best_next f info (set (take (Suc i) order)) (order ! i) (order ! Suc i)" if i: "Suc i < length order" for i
  proof -
    have "next_ok f info (take (Suc i) order) (order ! Suc i)" using perm(4) i by (simp add: links_def)
    moreover have "last (take (Suc i) order) = order ! i" "take (Suc i) order \<noteq> []"
      using i by (auto simp: take_Suc_conv_app_nth)
    ultimately show ?thesis by (simp add: next_ok_def)
  qed
  moreover have "cold_block f (order ! j)" if hot: "\<not> cold_block f 0" and ij: "i < j" "j < length order" "cold_block f (order ! i)" for i j
  proof -
    have "\<not> cold info ! 0" using hot cb[of 0] assms(2) by simp
    then obtain hs rest where hr: "order = hs @ rest" "\<forall>b \<in> set hs. \<not> cold info ! b" "\<forall>b \<in> set rest. cold info ! b"
      using o(2) unfolding order_exact_def by blast
    have "cold info ! (order ! i)" using cb[OF lt[of i]] ij by simp
    then have "\<not> i < length hs" using hr(1,2) nth_mem[of i hs] by (auto simp: nth_append)
    then have "order ! j \<in> set rest" using hr(1) ij by (auto simp: nth_append)
    then show ?thesis using hr(3) cb[OF lt[OF ij(2)]] by blast
  qed
  ultimately show ?thesis using info(1) o(1) perm(1-3) by blast
qed

text \<open>C10: Block reordering returns, and the new function behaves like the old one up to the numbers of the
  blocks, which are a permutation that keeps the entry: from the entry of any block and with any registers it
  visits the blocks it visited with the same memory, and ends where it ended. The machine is any on which the
  number of the target means nothing to an instruction, \<^verbatim>\<open>jmp\<close> only leaves and a comparing jump only
  decides, its inverse the other way.\<close>

theorem reordering_preserves_behaviour:
  assumes "func_fits f" "jumps_refer f" "jump_machine sem"
  shows "\<exists>g num. bb_reordering f = Some g \<and> length (mf_bbs g) = length (mf_bbs f)
    \<and> bij_betw num {..<length (mf_bbs f)} {..<length (mf_bbs f)} \<and> num 0 = 0
    \<and> (\<forall>b c. b < length (mf_bbs f) \<and> c < length (mf_bbs f) \<longrightarrow> (\<forall>rs m m'.
         (visits sem f (b, 0, rs, m) c m' \<longleftrightarrow> visits sem g (num b, 0, rs, m) (num c) m')
       \<and> (ends sem f (b, 0, rs, m) c m' \<longleftrightarrow> ends sem g (num b, 0, rs, m) (num c) m')))"
proof (cases "length (mf_bbs f) \<le> 2")
  case True
  then show ?thesis by (intro exI[of _ f] exI[of _ id]) (simp add: bb_reordering_def Let_def)
next
  case False
  then have ne: "mf_bbs f \<noteq> []" by auto
  obtain info where info: "analyze_blocks f (cfg_update f False) = Some info" using analyze_blocks_exact[OF assms(1) ne] by blast
  obtain order where o: "block_order f (cfg_update f False) info = Some order" "order_exact f info order"
    using block_order_ok[OF assms(1) ne] by blast
  have perm: "distinct order" "set order = {..<length (mf_bbs f)}" "hd order = 0" using o(2) by (simp_all add: order_exact_def)
  then have len: "length order = length (mf_bbs f)" using distinct_card[of order] by simp
  then have perm': "set order = {..<length order}" using perm(2) by simp
  have run: "bb_reordering f = (if list_all (\<lambda>i. order ! i = i) [0..<length (mf_bbs f)] then Some (invert_branches_to_next f)
      else Some (invert_branches_to_next (move_blocks order f)))"
    using False by (simp add: bb_reordering_def Let_def info o(1) len)
  show ?thesis
  proof (cases "list_all (\<lambda>i. order ! i = i) [0..<length (mf_bbs f)]")
    case True
    then show ?thesis using invert_all[OF assms(3,2)] unfolding run same_behaviour_def
      by (intro exI[of _ "invert_branches_to_next f"] exI[of _ id]) simp
  next
    case changed: False
    let ?g = "move_blocks order f" and ?num = "\<lambda>b. new_ids order ! b"
    have gl: "length (mf_bbs ?g) = length (mf_bbs f)" by (simp add: move_blocks_def len)
    note V = invert_all[OF assms(3) moved_jumps_refer[OF assms(2) perm(2)]]
    note P = new_ids_perm[OF perm(1) perm', unfolded len] and N = new_ids_nth[OF perm(1) perm', unfolded len]
    have "bij_betw ?num {..<length (mf_bbs f)} {..<length (mf_bbs f)}"
      by (rule bij_betw_byWitness[where f' = "\<lambda>i. order ! i"])
        (use P N nth_mem[of _ order] perm(2) len in auto)
    moreover have "?num 0 = 0" using N[of 0] perm(3) False by (simp add: hd_conv_nth len flip: length_0_conv)
    moreover have "(visits sem f (b, 0, rs, m) c m' \<longleftrightarrow> visits sem (invert_branches_to_next ?g) (?num b, 0, rs, m) (?num c) m')
       \<and> (ends sem f (b, 0, rs, m) c m' \<longleftrightarrow> ends sem (invert_branches_to_next ?g) (?num b, 0, rs, m) (?num c) m')"
      if "b < length (mf_bbs f)" "c < length (mf_bbs f)" for b c rs m m'
      using moved_behaviour[OF perm(1) perm' len assms(1,3) that] V unfolding same_behaviour_def by blast
    ultimately show ?thesis using changed V gl unfolding run by (intro exI[of _ "invert_branches_to_next ?g"] exI[of _ ?num]) simp
  qed
qed

section \<open>A sample\<close>

text \<open>The loop of block 2 leaves through block 3; block 1 is cold.\<close>

definition reorder_sample :: MFunc where
  "reorder_sample = (let a = MReg (VirtR Ty_Int64 1) Ty_Int64; b = MReg (VirtR Ty_Int64 2) Ty_Int64 in
     \<lparr>mf_bbs =
       [\<lparr>bb_instrs = [mk_instr (GBase GBase_mov) [a, MImm64 5], MInstr_jmp 2]\<rparr>,
        \<lparr>bb_instrs = [mk_instr (GBase GBase_unreach) []]\<rparr>,
        \<lparr>bb_instrs = [cond_jump GJmp_cjmp_int_slt a b 3, MInstr_jmp 2]\<rparr>,
        \<lparr>bb_instrs = [cond_jump GJmp_cjmp_int_eq a b 1, MInstr_jmp 4]\<rparr>,
        \<lparr>bb_instrs = [mk_instr (GBase GBase_ret) [a]]\<rparr>],
      mf_args = [VirtR Ty_Int64 2]\<rparr>)"

lemma reorder_sample_regs: "n_unique_regs reorder_sample = numRegs + 3"
  by (simp add: n_unique_regs_def max_vreg_id_def sample_defs reorder_sample_def Let_def cond_jump_def max_arg_id_def max_if_virtual_def is_concrete_def
      upt_conv_Cons numeral_2_eq_2)

lemma reorder_sample_fits: "func_fits reorder_sample"
  unfolding func_fits_def reorder_sample_regs
  by (auto simp: all_instrs_def sample_defs reorder_sample_def Let_def cond_jump_def args_fit_def reg_to_uid_def numRegs_def less_Suc_eq
      numeral_eq_Suc vreg0_def)

lemma reorder_sample_refers: "jumps_refer reorder_sample"
  by (auto simp: jumps_refer_def bb_code_def reorder_sample_def Let_def sample_defs cond_jump_def less_Suc_eq numeral_eq_Suc)

lemma reorder_sample_info:
  "analyze_blocks reorder_sample (cfg_update reorder_sample False) = Some \<lparr>loop_depth = [0, 0, 1, 0, 0], cold = [False, True, False, False, False]\<rparr>"
  by code_simp

lemma reorder_sample_order:
  "block_order reorder_sample (cfg_update reorder_sample False) \<lparr>loop_depth = [0, 0, 1, 0, 0], cold = [False, True, False, False, False]\<rparr> = Some [0, 2, 3, 4, 1]"
  by code_simp

text \<open>A return behind a branch is no successor: a block that leaves for \<^verbatim>\<open>unreach\<close> or returns counts as
  cold, although it does not only lead to \<^verbatim>\<open>unreach\<close>.\<close>

definition guard_sample :: MFunc where
  "guard_sample = (let a = MReg (VirtR Ty_Int64 1) Ty_Int64; b = MReg (VirtR Ty_Int64 2) Ty_Int64 in
     \<lparr>mf_bbs =
       [\<lparr>bb_instrs = [cond_jump GJmp_cjmp_int_eq a b 1, mk_instr (GBase GBase_ret) [a]]\<rparr>,
        \<lparr>bb_instrs = [mk_instr (GBase GBase_unreach) []]\<rparr>],
      mf_args = [VirtR Ty_Int64 1, VirtR Ty_Int64 2]\<rparr>)"

lemma returning_block_cold:
  "map_option cold (analyze_blocks guard_sample (cfg_update guard_sample False)) = Some [True, True]"
  by code_simp

definition operand_value :: "64 word regs \<Rightarrow> MArgument \<Rightarrow> 64 word" where
  "operand_value rs a = (if isReg a then rs (reg_to_uid (ma_reg a)) else ma_imm a)"

definition int_holds :: "GJumpSubtype \<Rightarrow> 64 word \<Rightarrow> 64 word \<Rightarrow> bool" where
  "int_holds t a b =
     (if t = GJmp_cjmp_int_slt then sint a < sint b else if t = GJmp_cjmp_int_sge then sint b \<le> sint a
      else if t = GJmp_cjmp_int_sle then sint a \<le> sint b else if t = GJmp_cjmp_int_sgt then sint b < sint a
      else if t = GJmp_cjmp_int_ult then a < b else if t = GJmp_cjmp_int_uge then b \<le> a
      else if t = GJmp_cjmp_int_ule then a \<le> b else if t = GJmp_cjmp_int_ugt then b < a
      else if t = GJmp_cjmp_int_eq then a = b else t = GJmp_cjmp_int_ne \<and> a \<noteq> b)"

text \<open>A machine that compares: everything else only counts.\<close>

definition compare_machine :: "(64 word, nat) machine" where
  "compare_machine x rs m = (case mi_op x of
     GJmp t \<Rightarrow> (rs, m, t = GJmp_jmp \<or> int_holds t (operand_value rs (mi_args x ! 0)) (operand_value rs (mi_args x ! 1)))
   | _ \<Rightarrow> (rs, Suc m, False))"

lemma inverse_holds: "inverse_jump t = Some u \<Longrightarrow> int_holds u a b \<longleftrightarrow> \<not> int_holds t a b"
  by (cases t) (auto simp: int_holds_def)

lemma inverse_no_jmp: "inverse_jump t = Some u \<Longrightarrow> t \<noteq> GJmp_jmp \<and> u \<noteq> GJmp_jmp"
  by (cases t) auto

lemma compare_machine_ok: "jump_machine compare_machine"
  unfolding jump_machine_def
  by (auto simp: compare_machine_def inverse_op_def inverse_holds inverse_no_jmp fun_eq_iff split: GOpcode.splits dest: inverse_no_jmp)

lemma reorder_sample_leaves: "leaves_once reorder_sample"
  by (auto simp: leaves_once_def ends_unreach_def returns_at_def bb_succs_def targets_def bb_code_def reorder_sample_def Let_def
      sample_defs cond_jump_def less_Suc_eq numeral_eq_Suc)


theorem block_order_exact_witness:
  "best_next reorder_sample \<lparr>loop_depth = [0, 0, 1, 0, 0], cold = [False, True, False, False, False]\<rparr> {0, 2} 2 3"
proof -
  have "mf_bbs reorder_sample \<noteq> []" by (simp add: reorder_sample_def Let_def)
  from block_order_exact[OF reorder_sample_fits this] obtain info order where
    o: "analyze_blocks reorder_sample (cfg_update reorder_sample False) = Some info"
      "block_order reorder_sample (cfg_update reorder_sample False) info = Some order"
    and best: "\<And>i. Suc i < length order \<Longrightarrow> best_next reorder_sample info (set (take (Suc i) order)) (order ! i) (order ! Suc i)"
    by blast
  have i: "info = \<lparr>loop_depth = [0, 0, 1, 0, 0], cold = [False, True, False, False, False]\<rparr>" "order = [0, 2, 3, 4, 1]"
    using o reorder_sample_info reorder_sample_order by simp_all
  show ?thesis using best[of 1] unfolding i by (simp add: numeral_2_eq_2 numeral_3_eq_3)
qed

theorem reordering_preserves_behaviour_witness:
  "\<exists>g (num :: nat \<Rightarrow> nat). bb_reordering reorder_sample = Some g \<and> num 0 = 0
     \<and> (ends compare_machine reorder_sample (0, 0, \<lambda>_. 7, 1) 1 2 \<longleftrightarrow> ends compare_machine g (0, 0, \<lambda>_. 7, 1) (num 1) 2)"
proof -
  have n: "0 < length (mf_bbs reorder_sample)" "1 < length (mf_bbs reorder_sample)" by (simp_all add: reorder_sample_def Let_def)
  obtain g num where g: "bb_reordering reorder_sample = Some g" "num 0 = 0"
    "\<And>b c rs m m'. b < length (mf_bbs reorder_sample) \<Longrightarrow> c < length (mf_bbs reorder_sample) \<Longrightarrow>
       ends compare_machine reorder_sample (b, 0, rs, m) c m' \<longleftrightarrow> ends compare_machine g (num b, 0, rs, m) (num c) m'"
    using reordering_preserves_behaviour[OF reorder_sample_fits reorder_sample_refers compare_machine_ok] by blast
  show ?thesis
    by (rule exI[of _ g], rule exI[of _ num], intro conjI g(1,2)) (use g(3)[OF n] in \<open>simp add: g(2)\<close>)
qed

end
