(* ===== verification/PBQPOptimal.thy ===== *)
theory PBQPOptimal
  imports PBQPSound
begin

text \<open>
  The assignment is optimal where the graph reduces without breaking edges: with exact costs, no assignment of registers
  from the domains costs less, in the sum of the costs of all nodes and edges.
\<close>

section \<open>The cost of an assignment\<close>

text \<open>An assignment maps nodes to register numbers.\<close>

definition node_sum :: "CostGraph \<Rightarrow> nat set \<Rightarrow> (nat \<Rightarrow> nat) \<Rightarrow> f32" where
  "node_sum g S A = (\<Sum>a \<in> S. vcost g a (A a))"

definition edge_set :: "CostGraph \<Rightarrow> (nat \<times> nat \<times> nat) set" where
  "edge_set g = {(a, b, e). adj g a b e \<and> a < b}"

definition edge_sum :: "CostGraph \<Rightarrow> (nat \<times> nat \<times> nat) set \<Rightarrow> (nat \<Rightarrow> nat) \<Rightarrow> f32" where
  "edge_sum g E A = (\<Sum>(a, b, e) \<in> E. ecost (edges g ! e) True (A a) (A b))"

definition total_cost :: "CostGraph \<Rightarrow> (nat \<Rightarrow> nat) \<Rightarrow> f32" where
  "total_cost g A = node_sum g (set (active g)) A + edge_sum g (edge_set g) A"

text \<open>The part of the cost a node is not involved in, and the part it is.\<close>

definition rest_edges :: "CostGraph \<Rightarrow> nat \<Rightarrow> (nat \<times> nat \<times> nat) set" where
  "rest_edges g u = {(a, b, e). adj g a b e \<and> a < b \<and> a \<noteq> u \<and> b \<noteq> u}"

definition rest_cost :: "CostGraph \<Rightarrow> nat \<Rightarrow> (nat \<Rightarrow> nat) \<Rightarrow> f32" where
  "rest_cost g u A = node_sum g (set (active g) - {u}) A + edge_sum g (rest_edges g u) A"

definition own_cost :: "CostGraph \<Rightarrow> nat \<Rightarrow> (nat \<Rightarrow> nat) \<Rightarrow> nat \<Rightarrow> f32" where
  "own_cost g u A x = vcost g u x
     + sum_list (map (\<lambda>y. ecost (edges g ! adj_edge y) (u < adj_other y) x (A (adj_other y))) (neighbours g ! u))"

lemma finite_edge_set:
  assumes "edges_ok g"
  shows "finite (edge_set g)"
proof -
  have "edge_set g \<subseteq> {..<n_nodes g} \<times> {..<n_nodes g} \<times> {..<length (edges g)}"
  proof
    fix t assume "t \<in> edge_set g"
    then obtain a b e where t: "t = (a, b, e)" "adj g a b e" by (auto simp: edge_set_def)
    then show "t \<in> {..<n_nodes g} \<times> {..<n_nodes g} \<times> {..<length (edges g)}"
      using edge_ok_adj[OF assms t(2)] adj_less[OF t(2)] by (simp add: edge_ok_def)
  qed
  then show ?thesis by (rule finite_subset) simp
qed

lemma own_edges_sum:
  assumes g: "edges_ok g" and u: "u < n_nodes g"
  shows "edge_sum g (edge_set g - rest_edges g u) A
    = sum_list (map (\<lambda>y. ecost (edges g ! adj_edge y) (u < adj_other y) (A u) (A (adj_other y))) (neighbours g ! u))"
proof -
  let ?ns = "neighbours g ! u"
  let ?f = "\<lambda>y. if u < adj_other y then (u, adj_other y, adj_edge y) else (adj_other y, u, adj_edge y)"
  have d: "distinct (map adj_other ?ns)" using g u by (simp add: edges_ok_def)
  have ne: "adj_other y \<noteq> u" if "y \<in> set ?ns" for y
    using edge_ok_adj[OF g adj_mem[OF that u]] by (auto simp: edge_ok_def)
  have inj: "inj_on ?f (set ?ns)"
  proof (rule inj_onI)
    fix y z assume yz: "y \<in> set ?ns" "z \<in> set ?ns" "?f y = ?f z"
    have "adj_other y = adj_other z" using yz(3) ne[OF yz(1)] ne[OF yz(2)] by (auto split: if_splits)
    then show "y = z" using d yz(1,2) by (auto simp: distinct_map inj_on_def)
  qed
  have img: "edge_set g - rest_edges g u = ?f ` set ?ns"
  proof (intro set_eqI iffI)
    fix t assume "t \<in> edge_set g - rest_edges g u"
    then obtain a b e where t: "t = (a, b, e)" "adj g a b e" "a < b" "a = u \<or> b = u" by (auto simp: edge_set_def rest_edges_def)
    have "adj g b a e" using adj_sym[OF g t(2)] .
    then show "t \<in> ?f ` set ?ns" using t
      by (auto simp: adj_def intro!: image_eqI[of _ _ "\<lparr>adj_other = if a = u then b else a, adj_edge = e\<rparr>"])
  next
    fix t assume "t \<in> ?f ` set ?ns"
    then obtain y where y: "y \<in> set ?ns" "t = ?f y" by blast
    have "adj g u (adj_other y) (adj_edge y)" using adj_mem[OF y(1) u] .
    moreover then have "adj g (adj_other y) u (adj_edge y)" using adj_sym[OF g] by blast
    ultimately show "t \<in> edge_set g - rest_edges g u" using y(2) ne[OF y(1)] by (auto simp: edge_set_def rest_edges_def)
  qed
  have "edge_sum g (edge_set g - rest_edges g u) A
    = (\<Sum>y \<in> set ?ns. ecost (edges g ! adj_edge y) (u < adj_other y) (A u) (A (adj_other y)))"
    unfolding edge_sum_def img sum.reindex[OF inj] comp_def
  proof (rule sum.cong[OF refl])
    fix y assume "y \<in> set ?ns"
    then have "u < adj_other y \<or> adj_other y < u" using ne[of y] by linarith
    then show "(case ?f y of (a, b, e) \<Rightarrow> ecost (edges g ! e) True (A a) (A b))
      = ecost (edges g ! adj_edge y) (u < adj_other y) (A u) (A (adj_other y))"
      using ecost_flip[of "adj_other y" u "edges g ! adj_edge y" "A u" "A (adj_other y)"] by auto
  qed
  also have "\<dots> = sum_list (map (\<lambda>y. ecost (edges g ! adj_edge y) (u < adj_other y) (A u) (A (adj_other y))) ?ns)"
    using d by (simp add: sum_list_distinct_conv_sum_set distinct_map)
  finally show ?thesis .
qed

lemma total_cost_split:
  assumes g: "graph_ok g" and u: "u \<in> set (active g)"
  shows "total_cost g A = rest_cost g u A + own_cost g u A (A u)"
proof -
  note ok = graph_okD[OF g]
  have "node_sum g (set (active g)) A = vcost g u (A u) + node_sum g (set (active g) - {u}) A"
    using u by (simp add: node_sum_def sum.remove)
  moreover have "edge_sum g (edge_set g) A = edge_sum g (rest_edges g u) A + edge_sum g (edge_set g - rest_edges g u) A"
    using sum.subset_diff[of "rest_edges g u" "edge_set g"] finite_edge_set[OF ok(3)]
    by (simp add: edge_sum_def add.commute) (auto simp: edge_set_def rest_edges_def)
  ultimately show ?thesis using own_edges_sum[OF ok(3) active_less[OF ok(2) u], of A]
    by (simp add: total_cost_def rest_cost_def own_cost_def add.assoc add.left_commute)
qed

lemma rest_cost_update: "rest_cost g u (A(u := x)) = rest_cost g u A"
proof -
  have "node_sum g (set (active g) - {u}) (A(u := x)) = node_sum g (set (active g) - {u}) A"
    unfolding node_sum_def by (rule sum.cong) auto
  moreover have "edge_sum g (rest_edges g u) (A(u := x)) = edge_sum g (rest_edges g u) A"
    unfolding edge_sum_def by (rule sum.cong) (auto simp: rest_edges_def)
  ultimately show ?thesis by (simp add: rest_cost_def)
qed

section \<open>What a reduction does to the cost\<close>

definition best_own :: "CostGraph \<Rightarrow> nat \<Rightarrow> (nat \<Rightarrow> nat) \<Rightarrow> f32" where
  "best_own g u A = min_over (dom_size (node_kind g ! u)) (\<lambda>j. own_cost g u A (dom_regs (node_kind g ! u) ! j))"

lemma vcost_nth: "k = node_kind g ! u \<Longrightarrow> k < kind_N \<Longrightarrow> j < dom_size k \<Longrightarrow> vcost g u (dom_regs k ! j) = node_costs g ! u ! j"
  by (simp add: vcost_def dom_local_nth)

lemma total_detached:
  assumes g: "graph_ok g" and d: "detached u g g1" and u: "pos < length (active g)" "active g ! pos = u"
  shows "total_cost (erase_active pos g1) A = rest_cost g u A"
proof -
  let ?g = "erase_active pos g1"
  note o = graph_ok_detached[OF g d u] and s = detachedD[OF d]
  have "edge_set ?g = rest_edges g u" by (auto simp: edge_set_def rest_edges_def o(3))
  moreover have "vcost ?g = vcost g" by (simp add: vcost_def fun_eq_iff s)
  ultimately show ?thesis by (simp add: total_cost_def rest_cost_def node_sum_def edge_sum_def o(2) s)
qed

lemma R1_total:
  assumes g: "graph_ok g" and pos: "pos < length (active g)" "active g ! pos = u" and r: "R1_effect Fin g u g1 b e v"
    and A: "A b \<in> regs_of g b"
  shows "total_cost (erase_active pos g1) A = rest_cost g u A + best_own g u A"
proof -
  let ?g0 = "g\<lparr>node_costs := (node_costs g)[b := v]\<rparr>" and ?S = "set (active g) - {u}"
  note ok = graph_okD[OF g]
  have u: "u < n_nodes g" using active_node[OF ok(2) pos(1)] pos(2) by simp
  note r' = r[unfolded R1_effect_def] and d = R1_detached[OF g u r]
  have b: "b \<in> ?S" "b < n_nodes g" "b \<noteq> u" using r' by (auto simp: edge_ok_def)
  note ku = kind_less[OF ok(1) u] and kb = kind_less[OF ok(1) b(2)]
  have own: "R1_cost Fin g u b e (A b) = best_own g u A" unfolding R1_cost_def best_own_def
    using r' by (intro min_over_cong) (simp add: own_cost_def vcost_nth[OF refl ku] f32_add_exact add.commute)
  have "v ! (dom_local (node_kind g ! b) ! A b) = f32_add Fin (vcost g b (A b)) (R1_cost Fin g u b e (A b))"
    using r' dom_local_in[OF kb A] by (simp add: vcost_def)
  then have vb: "vcost ?g0 b (A b) = vcost g b (A b) + best_own g u A"
    using b(2) nodes_lengths(2)[OF ok(1)] by (simp add: vcost_def own f32_add_exact)
  have "node_sum ?g0 (?S - {b}) A = node_sum g (?S - {b}) A"
    unfolding node_sum_def by (rule sum.cong) (auto simp: vcost_def)
  then have "node_sum ?g0 ?S A = node_sum g ?S A + best_own g u A"
    using b(1) vb sum.remove[of ?S b "\<lambda>a. vcost g a (A a)"] sum.remove[of ?S b "\<lambda>a. vcost ?g0 a (A a)"]
    by (simp add: node_sum_def ac_simps)
  moreover have "edge_sum ?g0 (rest_edges ?g0 u) A = edge_sum g (rest_edges g u) A"
    by (simp add: edge_sum_def rest_edges_def adj_def)
  moreover have "total_cost (erase_active pos g1) A = rest_cost ?g0 u A" using total_detached[OF d] pos by simp
  ultimately show ?thesis by (simp add: rest_cost_def ac_simps)
qed

text \<open>The cell of the edge between the two neighbours in the edge set.\<close>

definition R2_index :: "CostGraph \<Rightarrow> nat \<Rightarrow> nat \<Rightarrow> nat" where
  "R2_index g a c = (case find_edge g a c of Some x \<Rightarrow> x | None \<Rightarrow> length (edges g))"

abbreviation R2_cell :: "CostGraph \<Rightarrow> nat \<Rightarrow> nat \<Rightarrow> nat \<times> nat \<times> nat" where
  "R2_cell g a c \<equiv> (min a c, max a c, R2_index g a c)"

lemma R2_rest_set:
  assumes g: "graph_ok g" and ac: "a \<in> set (active g)" "c \<in> set (active g)" "a \<noteq> c" "a \<noteq> u" "c \<noteq> u"
    and m: "matrix_ok (node_kind g ! min a c) (node_kind g ! max a c) m"
  shows "rest_edges (R2_put a c m g) u = insert (R2_cell g a c) (rest_edges g u)"
proof -
  note put = R2_put_ok(6)[OF g ac(1-3) m, folded R2_index_def]
  have "adj (R2_put a c m g) (min a c) (max a c) (R2_index g a c)" using put by (auto simp: min_def max_def)
  moreover have "min a c < max a c" "min a c \<noteq> u" "max a c \<noteq> u" using ac by (auto simp: min_def max_def)
  ultimately have "R2_cell g a c \<in> rest_edges (R2_put a c m g) u" by (simp add: rest_edges_def)
  moreover have "rest_edges g u \<subseteq> rest_edges (R2_put a c m g) u" using put by (auto simp: rest_edges_def)
  moreover have "rest_edges (R2_put a c m g) u \<subseteq> insert (R2_cell g a c) (rest_edges g u)"
    using put ac(3) by (auto simp: rest_edges_def min_def max_def)
  ultimately show ?thesis by blast
qed

lemma ecost_cell: "a \<noteq> c \<Longrightarrow> ecost m True (A (min a c)) (A (max a c)) = ecost m (a < (c :: nat)) (A a) (A c)"
  using ecost_flip[of a c m "A c" "A a"] by (cases "a < c") (simp_all add: min_def max_def)

lemma finite_rest: "edges_ok g \<Longrightarrow> finite (rest_edges g u)"
  using finite_edge_set by (rule finite_subset[rotated]) (auto simp: edge_set_def rest_edges_def)

lemma R2_old_cell:
  assumes g: "graph_ok g" and ac: "a \<in> set (active g)" "c \<in> set (active g)" "a \<noteq> c" "a \<noteq> u" "c \<noteq> u"
  shows "edge_sum g (rest_edges g u) A = R2_old g a c (A a) (A c) + edge_sum g (rest_edges g u - {R2_cell g a c}) A"
proof (cases "find_edge g a c")
  case None
  have "R2_cell g a c \<notin> rest_edges g u"
  proof
    assume "R2_cell g a c \<in> rest_edges g u"
    then have "adj g (min a c) (max a c) (length (edges g))" using None by (simp add: rest_edges_def R2_index_def)
    from edge_ok_adj[OF graph_okD(3)[OF g] this] show False by (simp add: edge_ok_def)
  qed
  then show ?thesis using None by (simp add: R2_old_def zero_f32_def[symmetric])
next
  case (Some y)
  then have a: "adj g a c y" using graph_okD(3)[OF g] ac(1-3) unfolding edges_ok_def by blast
  then have "adj g c a y" by (rule adj_sym[OF graph_okD(3)[OF g]])
  with a have mem: "R2_cell g a c \<in> rest_edges g u" using Some ac by (auto simp: rest_edges_def R2_index_def min_def max_def)
  show ?thesis
    using sum.remove[OF finite_rest[OF graph_okD(3)[OF g]] mem, of "\<lambda>(p, q, e). ecost (edges g ! e) True (A p) (A q)"]
      Some ecost_cell[OF ac(3), of "edges g ! y" A]
    by (simp add: edge_sum_def R2_index_def R2_old_def)
qed

lemma R2_other_cells:
  assumes g: "graph_ok g" and ac: "a \<in> set (active g)" "c \<in> set (active g)" "a \<noteq> c"
    and m: "matrix_ok (node_kind g ! min a c) (node_kind g ! max a c) m"
  shows "edge_sum (R2_put a c m g) (rest_edges g u - {R2_cell g a c}) A = edge_sum g (rest_edges g u - {R2_cell g a c}) A"
  unfolding edge_sum_def
proof (rule sum.cong[OF refl])
  note ok = graph_okD[OF g]
  fix t assume "t \<in> rest_edges g u - {R2_cell g a c}"
  then obtain b d y where t: "t = (b, d, y)" "adj g b d y" "b < d" "(b, d, y) \<noteq> R2_cell g a c" by (auto simp: rest_edges_def)
  have "find_edge g a c \<noteq> Some y"
  proof
    assume f: "find_edge g a c = Some y"
    then have "adj g a c y" using ok(3) ac unfolding edges_ok_def by blast
    then have "b = a \<and> d = c \<or> b = c \<and> d = a" using adj_same_edge[OF g _ t(2)] by blast
    then show False using t(3,4) f by (auto simp: R2_index_def min_def max_def)
  qed
  then have "edges (R2_put a c m g) ! y = edges g ! y"
    using R2_put_ok(8)[OF g ac m, of y] edge_ok_adj[OF ok(3) t(2)] by (simp add: edge_ok_def)
  then show "(case t of (p, q, e) \<Rightarrow> ecost (edges (R2_put a c m g) ! e) True (A p) (A q))
    = (case t of (p, q, e) \<Rightarrow> ecost (edges g ! e) True (A p) (A q))" using t(1) by simp
qed

lemma R2_rest_edges:
  assumes g: "graph_ok g" and e: "edge_ok g u a e" "edge_ok g u c e'" "a \<noteq> c" and r: "R2_effect Fin g u g1 a e c e' m"
    and A: "A a \<in> regs_of g a" "A c \<in> regs_of g c"
  shows "edge_sum (R2_put a c m g) (rest_edges (R2_put a c m g) u) A
    = edge_sum g (rest_edges g u) A + R2_path Fin g a e u e' c (A a) (A c)"
proof -
  let ?g0 = "R2_put a c m g" and ?R = "rest_edges g u" and ?t = "R2_cell g a c"
  have act: "a \<in> set (active g)" "c \<in> set (active g)" using e by (simp_all add: edge_ok_def)
  have ne: "a \<noteq> u" "c \<noteq> u" using e by (auto simp: edge_ok_def)
  note m = r[unfolded R2_effect_def, THEN conjunct2, THEN conjunct1]
  have m': "edges ?g0 ! R2_index g a c = m" using R2_put_ok(7)[OF g act e(3) m] by (simp add: R2_index_def)
  have new: "ecost (edges ?g0 ! R2_index g a c) True (A (min a c)) (A (max a c))
      = R2_old g a c (A a) (A c) + R2_path Fin g a e u e' c (A a) (A c)"
    using r A ecost_cell[OF e(3), of m A] by (simp add: m' R2_effect_def f32_add_exact)
  have "edge_sum ?g0 (insert ?t ?R) A = ecost (edges ?g0 ! R2_index g a c) True (A (min a c)) (A (max a c)) + edge_sum ?g0 (?R - {?t}) A"
    unfolding edge_sum_def using finite_rest[OF graph_okD(3)[OF g]] by (subst sum.insert_remove) simp_all
  then show ?thesis unfolding R2_rest_set[OF g act e(3) ne m] new R2_other_cells[OF g act e(3) m] R2_old_cell[OF g act e(3) ne]
    by (simp add: ac_simps)
qed

lemma R2_total:
  assumes g: "graph_ok g" and pos: "pos < length (active g)" "active g ! pos = u" and r: "R2_effect Fin g u g1 a e c e' m"
    and A: "A a \<in> regs_of g a" "A c \<in> regs_of g c"
  shows "total_cost (erase_active pos g1) A = rest_cost g u A + best_own g u A"
proof -
  let ?g0 = "R2_put a c m g"
  note ok = graph_okD[OF g]
  have u: "u < n_nodes g" using active_node[OF ok(2) pos(1)] pos(2) by simp
  have n: "neighbours g ! u = [\<lparr>adj_other = a, adj_edge = e\<rparr>, \<lparr>adj_other = c, adj_edge = e'\<rparr>]"
    and m: "matrix_ok (node_kind g ! min a c) (node_kind g ! max a c) m"
    using r unfolding R2_effect_def by blast+
  have e: "edge_ok g u a e" "edge_ok g u c e'" using edge_ok_adj[OF ok(3)] u n by (simp_all add: adj_def)
  have ac: "a \<noteq> c" using ok(3) u n unfolding edges_ok_def by fastforce
  have act: "a \<in> set (active g)" "c \<in> set (active g)" using e by (simp_all add: edge_ok_def)
  note put = R2_put_ok[OF g act ac m] and d = R2_detached[OF g u r]
  have "total_cost (erase_active pos g1) A = rest_cost ?g0 u A" using total_detached[OF put(1) d] pos put(5) by simp
  moreover have "node_sum ?g0 (set (active ?g0) - {u}) A = node_sum g (set (active g) - {u}) A"
    unfolding node_sum_def put(5) by (rule sum.cong) (simp_all add: vcost_def put(3,4))
  moreover have "R2_path Fin g a e u e' c (A a) (A c) = best_own g u A"
    unfolding R2_path_def best_own_def
  proof (rule min_over_cong)
    fix j assume j: "j < dom_size (node_kind g ! u)"
    have "a \<noteq> u" using e by (auto simp: edge_ok_def)
    then show "f32_add Fin (f32_add Fin (ecost (edges g ! e) (a < u) (A a) (dom_regs (node_kind g ! u) ! j)) (node_costs g ! u ! j))
        (ecost (edges g ! e') (u < c) (dom_regs (node_kind g ! u) ! j) (A c)) = own_cost g u A (dom_regs (node_kind g ! u) ! j)"
      using ecost_flip[of u a "edges g ! e" "A a" "dom_regs (node_kind g ! u) ! j"] vcost_nth[OF refl kind_less[OF ok(1) u] j]
      by (simp add: own_cost_def n f32_add_exact ac_simps)
  qed
  ultimately show ?thesis using R2_rest_edges[OF g e ac r, of A] A by (simp add: rest_cost_def ac_simps)
qed

section \<open>No assignment is cheaper\<close>

text \<open>The price of the register a record got: its own cost and the costs of the edges the record remembers.\<close>

definition price :: "CostGraph \<Rightarrow> StackRecord \<Rightarrow> CReg list \<Rightarrow> f32" where
  "price g r A = vcost g (sr_node r) (creg_code (A ! sr_node r)) + sum_list (rec_costs r A (creg_code (A ! sr_node r)))"

definition no_breaks :: "StackRecord \<Rightarrow> bool" where
  "no_breaks r \<longleftrightarrow> sr_type r = RM \<longrightarrow> sr_broken_edges r = []"

abbreviation code_of :: "CReg list \<Rightarrow> nat \<Rightarrow> nat" where "code_of A \<equiv> \<lambda>a. creg_code (A ! a)"

abbreviation fits_domains :: "CostGraph \<Rightarrow> (nat \<Rightarrow> nat) \<Rightarrow> bool" where
  "fits_domains g B \<equiv> (\<forall>a \<in> set (active g). B a \<in> regs_of g a)"

lemma step_exact:
  assumes s: "solver_step Fin g r g'" and g: "graph_ok g" and r: "no_breaks r"
  shows "rec_edges r = map (\<lambda>y. (adj_other y, edges g ! adj_edge y, sr_node r < adj_other y)) (neighbours g ! sr_node r)"
    "(\<forall>A. fits_domains g A \<longrightarrow> total_cost g' A = rest_cost g (sr_node r) A + best_own g (sr_node r) A)
     \<or> neighbours g ! sr_node r = [] \<and> (\<forall>A. total_cost g' A = rest_cost g (sr_node r) A)"
proof -
  note ok = graph_okD[OF g]
  have "rec_edges r = map (\<lambda>y. (adj_other y, edges g ! adj_edge y, sr_node r < adj_other y)) (neighbours g ! sr_node r)
    \<and> ((\<forall>A. fits_domains g A \<longrightarrow> total_cost g' A = rest_cost g (sr_node r) A + best_own g (sr_node r) A)
     \<or> neighbours g ! sr_node r = [] \<and> (\<forall>A. total_cost g' A = rest_cost g (sr_node r) A))"
    using s
  proof (cases rule: solver_step.cases)
    case (step_low pos st g1)
    let ?u = "active g ! pos"
    have u: "?u < n_nodes g" using active_node[OF ok(2) step_low(2)] by blast
    show ?thesis
    proof (cases "R1_Reduction Fin ?u g st")
      case (Some p)
      then have "R1_Reduction Fin ?u g st = Some (g1, st @ [r])" using step_low(4) by (simp add: reduce_def)
      then obtain b e v where e: "R1_effect Fin g ?u g1 b e v" "r = R1_record g ?u b e" using R1_result[OF g u] by fastforce
      have n: "neighbours g ! ?u = [\<lparr>adj_other = b, adj_edge = e\<rparr>]" "b \<in> set (active g)"
        using e(1) by (simp_all add: R1_effect_def edge_ok_def)
      have "sr_node r = ?u" by (simp add: e(2) R1_record_def stack_record_def)
      then show ?thesis using R1_total[OF g step_low(2) refl e(1)] n step_low(1) e(2)
        by (simp add: rec_edges_def R1_record_def stack_record_def)
    next
      case None
      then have "R2_Reduction Fin ?u g st = Some (g1, st @ [r])" using step_low(4) by (simp add: reduce_def)
      then obtain a e c e' m where e: "R2_effect Fin g ?u g1 a e c e' m" "r = R2_record g ?u a e c e'"
        using R2_result[OF g u] by fastforce
      have n: "neighbours g ! ?u = [\<lparr>adj_other = a, adj_edge = e\<rparr>, \<lparr>adj_other = c, adj_edge = e'\<rparr>]"
        using e(1) by (simp add: R2_effect_def)
      then have "edge_ok g ?u a e" "edge_ok g ?u c e'" using edge_ok_adj[OF ok(3)] u by (simp_all add: adj_def)
      then have "a \<in> set (active g)" "c \<in> set (active g)" by (simp_all add: edge_ok_def)
      moreover have "sr_node r = ?u" by (simp add: e(2) R2_record_def stack_record_def)
      ultimately show ?thesis using R2_total[OF g step_low(2) refl e(1)] n step_low(1) e(2)
        by (simp add: rec_edges_def R2_record_def stack_record_def)
    qed
  next
    case (step_break st)
    then obtain u where u: "r = RM_record g u" "takes_out g r g'" using RM_takes_out[OF g, of Fin st g' "st @ [r]"] by auto
    have "neighbours g ! u = []" using r u(1) by (simp add: no_breaks_def RM_record_def stack_record_def)
    then have False using step_break RM_nonempty[of Fin g st g' "st @ [r]"] u(1)
      by (auto simp: RM_record_def stack_record_def)
    then show ?thesis ..
  next
    case (step_alone pos)
    have u: "active g ! pos < n_nodes g" using active_node[OF ok(2) step_alone(3)] by blast
    have "detached (active g ! pos) g g" using alone_detached[OF g u step_alone(5)] .
    then show ?thesis using total_detached[OF g _ step_alone(3)] step_alone
      by (simp add: rec_edges_def stack_record_def)
  qed
  then show "rec_edges r = map (\<lambda>y. (adj_other y, edges g ! adj_edge y, sr_node r < adj_other y)) (neighbours g ! sr_node r)"
    "(\<forall>A. fits_domains g A \<longrightarrow> total_cost g' A = rest_cost g (sr_node r) A + best_own g (sr_node r) A)
     \<or> neighbours g ! sr_node r = [] \<and> (\<forall>A. total_cost g' A = rest_cost g (sr_node r) A)" by blast+
qed

lemma total_cong:
  assumes g: "edges_ok g" and AB: "\<And>a. a \<in> set (active g) \<Longrightarrow> A a = B a"
  shows "total_cost g A = total_cost g B"
proof -
  have "node_sum g (set (active g)) A = node_sum g (set (active g)) B"
    unfolding node_sum_def using AB by (intro sum.cong) simp_all
  moreover have "edge_sum g (edge_set g) A = edge_sum g (edge_set g) B" unfolding edge_sum_def
  proof (rule sum.cong[OF refl])
    fix t assume "t \<in> edge_set g"
    then obtain a b e where t: "t = (a, b, e)" "adj g a b e" by (auto simp: edge_set_def)
    then have "A a = A a \<and> A a = B a \<and> A b = B b" using edge_ok_adj[OF g t(2)] AB by (simp add: edge_ok_def)
    then show "(case t of (a, b, e) \<Rightarrow> ecost (edges g ! e) True (A a) (A b))
      = (case t of (a, b, e) \<Rightarrow> ecost (edges g ! e) True (B a) (B b))" using t(1) by simp
  qed
  ultimately show ?thesis by (simp add: total_cost_def)
qed

text \<open>The register of one record is the cheapest for the node.\<close>

lemma chosen_cheapest:
  assumes g: "graph_ok g" and t: "takes_out g r g'"
    and e: "rec_edges r = map (\<lambda>y. (adj_other y, edges g ! adj_edge y, sr_node r < adj_other y)) (neighbours g ! sr_node r)"
    and gf: "node_kind gf = node_kind g" "node_costs gf ! sr_node r = node_costs g ! sr_node r"
    and p: "price gf r (A[sr_node r := chosen Fin gf r A]) < Fin 1000000000" and A: "length A = n_nodes g"
  shows "own_cost g (sr_node r) (code_of A) (creg_code (chosen Fin gf r A)) = best_own g (sr_node r) (code_of A)"
proof -
  let ?u = "sr_node r" and ?k = "node_kind g ! sr_node r" and ?A = "A[sr_node r := chosen Fin gf r A]"
  note ok = graph_okD[OF g] and k = node_spill[OF g t]
  have u: "?u < n_nodes g" using active_less[OF ok(2) takes_outD(5)[OF t]] .
  obtain b c where b: "best_register (kKinds ! ?k) (selection Fin gf r A) = (b, c)" by fastforce
  note spec = best_register_spec[OF b, folded dom_size_def]
  have ne: "adj_other y \<noteq> ?u" if "y \<in> set (neighbours g ! ?u)" for y
    using edge_ok_adj[OF ok(3) adj_mem[OF that u]] by (auto simp: edge_ok_def)
  have rc: "sum_list (rec_costs r A' x) = sum_list (map (\<lambda>y. ecost (edges g ! adj_edge y) (?u < adj_other y) x (code_of A (adj_other y))) (neighbours g ! ?u))"
    if "A' = A \<or> A' = ?A" for A' x
    using that ne by (auto simp: rec_costs_def e comp_def nth_list_update_neq[OF not_sym[OF ne]] intro!: arg_cong[of _ _ sum_list])
  have own: "own_cost g ?u (code_of A) x = vcost gf ?u x + sum_list (rec_costs r A' x)" if "A' = A \<or> A' = ?A" for A' x
    using rc[OF that] by (simp add: own_cost_def vcost_def gf)
  have sel: "selection Fin gf r A ! j = own_cost g ?u (code_of A) (dom_regs ?k ! j)" if "j < dom_size ?k" for j
    using that vcost_nth[of ?k gf ?u j] k(1) own[of A "dom_regs ?k ! j"] by (simp add: selection_def gf(1) sel_at_exact)
  have bm: "b \<in> regs_of g ?u" using spec(3) k(2) dom_nth_regs by auto
  then have code: "creg_code (chosen Fin gf r A) = b"
    using dom_regs_less[OF k(1) bm] creg_code_of_code b by (simp add: chosen_def gf)
  have cheap: "own_cost g ?u (code_of A) b < Fin 1000000000"
    using p u A own[of ?A b] code by (simp add: price_def)
  have "\<exists>l < dom_size ?k. b = dom_regs ?k ! l \<and> c = selection Fin gf r A ! l"
  proof (rule ccontr)
    assume "\<not> ?thesis"
    then have "c = Fin 1000000000" using spec(3) by blast
    moreover have "c \<le> own_cost g ?u (code_of A) b"
      using spec(2)[OF dom_local_in(1)[OF k(1) bm]] sel[OF dom_local_in(1)[OF k(1) bm]] dom_local_in(2)[OF k(1) bm] by simp
    ultimately show False using cheap by simp
  qed
  then obtain l where l: "l < dom_size ?k" "b = dom_regs ?k ! l" "c = own_cost g ?u (code_of A) b" using sel by auto
  have "best_own g ?u (code_of A) \<le> c" unfolding l(3) best_own_def l(2)
    using min_over_le[OF l(1), of "\<lambda>j. own_cost g ?u (code_of A) (dom_regs ?k ! j)"] by simp
  moreover have "c \<le> best_own g ?u (code_of A)" unfolding best_own_def
    using spec(2) sel by (intro min_over_greatest) simp
  ultimately show ?thesis using l(3) unfolding code by simp
qed

lemma best_own_le:
  assumes "node_kind g ! u < kind_N" "x \<in> regs_of g u"
  shows "best_own g u B \<le> own_cost g u B x"
  unfolding best_own_def using min_over_le[OF dom_local_in(1)[OF assms], of "\<lambda>j. own_cost g u B (dom_regs (node_kind g ! u) ! j)"]
    dom_local_in(2)[OF assms] by simp

lemma step_optimal:
  assumes s: "solver_step Fin g r g'" and g: "graph_ok g" and r: "no_breaks r" and gf: "node_kind gf = node_kind g" "node_costs gf ! sr_node r = node_costs g ! sr_node r"
    and A: "length A = n_nodes g" "fits_domains g' (code_of A)" and B: "fits_domains g B"
    and p: "price gf r (A[sr_node r := chosen Fin gf r A]) < Fin 1000000000"
    and le: "total_cost g' (code_of A) \<le> total_cost g' B"
  shows "total_cost g (code_of (A[sr_node r := chosen Fin gf r A])) \<le> total_cost g B"
proof -
  let ?u = "sr_node r" and ?c = "chosen Fin gf r A" and ?A = "code_of A"
  note t = step_takes_out[OF s g] and ex = step_exact[OF s g r]
  note ok = graph_okD[OF g] and to = takes_outD[OF t]
  have u: "?u < n_nodes g" using active_less[OF ok(2) to(5)] .
  have ne: "adj_other y \<noteq> ?u" if "y \<in> set (neighbours g ! ?u)" for y
    using edge_ok_adj[OF ok(3) adj_mem[OF that u]] by (auto simp: edge_ok_def)
  have upd: "code_of (A[?u := ?c]) = ?A(?u := creg_code ?c)" using u A(1) by (auto simp: fun_eq_iff nth_list_update)
  have own: "own_cost g ?u (?A(?u := x)) y = own_cost g ?u ?A y" for x y
    unfolding own_cost_def using ne by (simp cong: map_cong)
  have new: "total_cost g (code_of (A[?u := ?c])) = rest_cost g ?u ?A + own_cost g ?u ?A (creg_code ?c)"
    unfolding upd total_cost_split[OF g to(5)] rest_cost_update own by simp
  have best: "own_cost g ?u ?A (creg_code ?c) = best_own g ?u ?A" using chosen_cheapest[OF g t ex(1) gf p A(1)] .
  have cB: "best_own g ?u B \<le> own_cost g ?u B (B ?u)" using best_own_le node_spill(1)[OF g t] B to(5) by blast
  have fitA: "fits_domains g (?A(?u := 0))" using A(2) node_spill(2)[OF g t] unfolding to(2,7) by auto
  from ex(2) show ?thesis
  proof
    assume tot: "\<forall>A. fits_domains g A \<longrightarrow> total_cost g' A = rest_cost g ?u A + best_own g ?u A"
    have "total_cost g' ?A = total_cost g' (?A(?u := 0))"
      using to(7) by (intro total_cong graph_okD(3) takes_out_ok[OF t]) auto
    also have "\<dots> = rest_cost g ?u ?A + best_own g ?u ?A"
      using tot fitA own by (simp add: rest_cost_update best_own_def)
    finally have "total_cost g (code_of (A[?u := ?c])) = total_cost g' ?A" using new best by simp
    also have "\<dots> \<le> rest_cost g ?u B + best_own g ?u B" using le tot B by simp
    also have "\<dots> \<le> rest_cost g ?u B + own_cost g ?u B (B ?u)" using cB by (rule add_left_mono)
    also have "\<dots> = total_cost g B" using total_cost_split[OF g to(5)] by simp
    finally show ?thesis .
  next
    assume alone: "neighbours g ! ?u = [] \<and> (\<forall>A. total_cost g' A = rest_cost g ?u A)"
    then have "best_own g ?u ?A = best_own g ?u B" by (simp add: best_own_def own_cost_def)
    then have "rest_cost g ?u ?A + best_own g ?u ?A \<le> rest_cost g ?u B + own_cost g ?u B (B ?u)"
      using le alone cB by (intro add_mono) auto
    then show ?thesis using new best total_cost_split[OF g to(5), of B] by simp
  qed
qed

lemma rec_edges_active:
  assumes "solver_steps rnd g rs g'" "graph_ok g" "r \<in> set rs" "(b, m, lo) \<in> set (rec_edges r)"
  shows "b \<in> set (active g)"
  using assms
proof (induction rule: solver_steps.induct)
  case (steps_Cons g r1 g1 rs g2)
  have t: "takes_out g r1 g1" using step_takes_out[OF steps_Cons.hyps(1) steps_Cons.prems(1)] .
  show ?case
  proof (cases "r \<in> set rs")
    case True
    then show ?thesis using steps_Cons.IH[OF takes_out_ok[OF t]] steps_Cons.prems(3) takes_outD(7)[OF t] by blast
  next
    case False
    then obtain e where "adj g (sr_node r) b e" using takes_outD(9)[OF t] steps_Cons.prems(2,3) by auto
    then show ?thesis using edge_ok_adj[OF graph_okD(3)[OF steps_Cons.prems(1)]] by (auto simp: edge_ok_def)
  qed
qed simp

text \<open>The price of a record does not change when a node is assigned that has left the graph before.\<close>

lemma price_later:
  assumes "solver_steps rnd g rs g'" "graph_ok g" "r \<in> set rs" "u \<notin> set (active g)"
  shows "price gf r (A[u := c]) = price gf r A"
proof -
  have "u \<noteq> sr_node r" using steps_frame[OF assms(1,2)] assms(3,4) by blast
  moreover have "rec_costs r (A[u := c]) x = rec_costs r A x" for x
    unfolding rec_costs_def
  proof (rule map_cong[OF refl])
    fix y assume "y \<in> set (rec_edges r)"
    moreover obtain b m lo where y: "y = (b, m, lo)" by (metis prod_cases3)
    ultimately have "b \<noteq> u" using rec_edges_active[OF assms(1-3)] assms(4) by blast
    then show "(case y of (b, m, lo) \<Rightarrow> ecost m lo x (creg_code (A[u := c] ! b)))
      = (case y of (b, m, lo) \<Rightarrow> ecost m lo x (creg_code (A ! b)))" unfolding y by simp
  qed
  ultimately show ?thesis by (simp add: price_def)
qed

lemma steps_optimal:
  assumes "solver_steps Fin g rs g'" "graph_ok g" "\<forall>a \<in> set (active g'). node_concrete g a"
    "node_uid gf = node_uid g" "node_kind gf = node_kind g" "\<forall>r \<in> set rs. node_costs gf ! sr_node r = node_costs g' ! sr_node r"
    "\<forall>r \<in> set rs. no_breaks r" "allocate_records Fin gf (rev rs) (initial_assignments gf, []) = Some (A, sp)"
    "\<forall>r \<in> set rs. price gf r A < Fin 1000000000" "fits_domains g B"
  shows "total_cost g (code_of A) \<le> total_cost g B"
  using assms
proof (induction arbitrary: A sp B rule: solver_steps.induct)
  case (steps_Nil g)
  have A: "A = initial_assignments gf" using steps_Nil.prems(7) by simp
  have "code_of A a = B a" if a: "a \<in> set (active g)" for a
  proof -
    note ok = graph_okD[OF steps_Nil.prems(1)]
    have n: "a < n_nodes g" "node_concrete g a" using active_less[OF ok(2) a] steps_Nil.prems(2) a by blast+
    have "kind_fits (node_uid g ! a) (node_kind g ! a)" using ok(1) n(1) by (simp add: nodes_ok_alt)
    then have "regs_of g a = {node_uid g ! a + 1}" using kind_fits_concrete n(2) by (simp add: node_concrete_def)
    moreover have "code_of A a \<in> regs_of g a"
      using concrete_start(1)[OF steps_Nil.prems(1-4)] a unfolding A in_domains_def by blast
    ultimately show ?thesis using steps_Nil.prems(9) a by auto
  qed
  then show ?case using total_cong[OF graph_okD(3)[OF steps_Nil.prems(1)], of "code_of A" B] by simp
next
  case (steps_Cons g r g1 rs g2)
  note g = steps_Cons.prems(1) and gf = steps_Cons.prems(3,4)
  have t: "takes_out g r g1" using step_takes_out[OF steps_Cons.hyps(1) g] .
  note to = takes_outD[OF t] and g1 = takes_out_ok[OF t]
  let ?u = "sr_node r"
  have c2: "\<forall>a \<in> set (active g2). node_concrete g1 a" "node_uid gf = node_uid g1" "node_kind gf = node_kind g1"
    using steps_Cons.prems(2) gf unfolding to(1,2,4) by blast+
  obtain A1 where A1: "allocate_records Fin gf (rev rs) (initial_assignments gf, []) = Some (A1, spilled_uids g1 A1 rs)"
    "length A1 = n_nodes g" "in_domains g1 A1"
    using allocate_sound[OF steps_Cons.hyps(2) g1 c2] unfolding to(3) by blast
  have fits: "fits_domains g1 (code_of A1)" using A1(3) unfolding in_domains_def .
  then have "\<forall>a \<in> set (active g1). creg_code (A1 ! a) \<in> regs_of g a" unfolding to(2) .
  from allocate_step_chosen[OF g t gf this] have A: "A = A1[?u := chosen Fin gf r A1]"
    using steps_Cons.prems(7) by (simp add: allocate_records_append A1(1) split: option.splits)
  have out: "?u \<notin> set (active g1)" unfolding to(7) by simp
  have "price gf r' A1 < Fin 1000000000" if r': "r' \<in> set rs" for r'
  proof -
    have "price gf r' A < Fin 1000000000" using steps_Cons.prems(8) r' by simp
    then show ?thesis unfolding A price_later[OF steps_Cons.hyps(2) g1 r' out] .
  qed
  moreover have "\<forall>r' \<in> set rs. node_costs gf ! sr_node r' = node_costs g2 ! sr_node r'" "\<forall>r' \<in> set rs. no_breaks r'"
    using steps_Cons.prems(5,6) by simp_all
  moreover have "fits_domains g1 B" using steps_Cons.prems(9) unfolding to(2,7) by blast
  ultimately have le: "total_cost g1 (code_of A1) \<le> total_cost g1 B"
    using steps_Cons.IH[OF g1 c2 _ _ A1(1)] by blast
  have un: "?u < n_nodes g" using active_less[OF graph_okD(2)[OF g] to(5)] .
  have "node_costs gf ! ?u = node_costs g2 ! ?u" using steps_Cons.prems(5) by simp
  also have "\<dots> = node_costs g1 ! ?u" using steps_frame[OF steps_Cons.hyps(2) g1] un out unfolding to(3) by blast
  also have "\<dots> = node_costs g ! ?u" using to(8)[OF un out] .
  finally have nc: "node_costs gf ! ?u = node_costs g ! ?u" .
  have p: "price gf r A < Fin 1000000000" "no_breaks r" using steps_Cons.prems(6,8) by simp_all
  show ?case using step_optimal[OF steps_Cons.hyps(1) g p(2) gf(2) nc A1(2) fits steps_Cons.prems(9) _ le] p(1) unfolding A by blast
qed

lemma allocation_optimal:
  assumes g: "graph_ok g" and m: "minimize_graph Fin g = Some (gf, st)" and a: "actually_allocate Fin gf st = Some (A, sp)"
    and st: "\<forall>r \<in> set st. no_breaks r" "\<forall>r \<in> set st. price gf r A < Fin 1000000000" and B: "fits_domains g B"
  shows "total_cost g (code_of A) \<le> total_cost g B"
proof -
  obtain g' where s: "solver_steps Fin g st g'" "\<forall>a \<in> set (active g'). node_concrete g a"
    "node_uid gf = node_uid g" "node_kind gf = node_kind g" "node_costs g' = node_costs gf" using minimize_all[OF g m] by blast
  show ?thesis using steps_optimal[OF s(1) g s(2-4) _ st(1) _ st(2) B] a s(5) unfolding actually_allocate_def by simp
qed

end
