(* ===== verification/PBQPSpec.thy ===== *)
theory PBQPSpec
  imports PBQPOptimal
begin

text \<open>
  What the register assignment solver promises, as statements about whole runs on a well-formed graph, and a small
  graph they are applied to.
\<close>

section \<open>When the solver gives up\<close>

text \<open>The only way the assertion at the end of \<^verbatim>\<open>minimize_graph\<close> fails: a node that still has
  neighbours whose spill cost reached the largest float.\<close>

definition overflowed :: "rounding \<Rightarrow> CostGraph \<Rightarrow> nat \<Rightarrow> bool" where
  "overflowed rnd g u \<longleftrightarrow> u \<in> set (active g) \<and> \<not> node_concrete g u \<and> neighbours g ! u \<noteq> []
     \<and> f32_max \<le> f32_div rnd (node_costs g ! u ! 0) (of_nat (length (neighbours g ! u)))"

lemma scan_idle:
  "scan rnd pos g stack low virt = (g', stack', low', virt') \<Longrightarrow> \<not> low' \<Longrightarrow>
    g' = g \<and> stack' = stack \<and> \<not> low \<and> (virt \<longrightarrow> virt')
    \<and> (\<not> virt' \<longrightarrow> (\<forall>i. pos \<le> i \<and> i < length (active g) \<longrightarrow> node_concrete g (active g ! i)))"
proof (induction rnd pos g stack low virt rule: scan.induct)
  case (1 rnd pos g stack low virt)
  note sc = scan.simps[of rnd pos g stack low virt]
  show ?case
  proof (cases "pos < length (active g)")
    case pos: True
    let ?node = "active g ! pos"
    show ?thesis
    proof (cases "node_concrete g ?node")
      case True
      then have "scan rnd (pos + 1) g stack low virt = (g', stack', low', virt')" using 1(4) pos sc by (simp add: Let_def)
      from 1(1)[OF pos refl True this 1(5)] show ?thesis using True by (metis Suc_eq_plus1 Suc_leI le_neq_implies_less)
    next
      case virt: False
      show ?thesis
      proof (cases "reduce rnd ?node g stack")
        case None
        then have "scan rnd (pos + 1) g stack low True = (g', stack', low', virt')" using 1(4) pos virt sc by (simp add: Let_def)
        from 1(2)[OF pos refl virt None this 1(5)] show ?thesis by blast
      next
        case (Some p)
        obtain g1 st1 where p: "p = (g1, st1)" by fastforce
        have "scan rnd pos (erase_active pos g1) st1 True True = (g', stack', low', virt')"
          using 1(4) pos virt sc Some p by (simp add: Let_def)
        from 1(3)[OF pos refl virt Some p[symmetric] this 1(5)] show ?thesis by blast
      qed
    qed
  next
    case False
    then show ?thesis using 1(4,5) sc by auto
  qed
qed

lemma RM_select_none:
  "fst (fold (RM_select rnd g) ns (v, c)) = None \<Longrightarrow> v = None \<and> (\<forall>n \<in> set ns. neighbours g ! n = [] \<or> node_concrete g n
    \<or> c \<le> f32_div rnd (node_costs g ! n ! 0) (of_nat (length (neighbours g ! n))))"
proof (induction ns arbitrary: v c)
  case (Cons n ns)
  let ?m = "f32_div rnd (node_costs g ! n ! 0) (of_nat (length (neighbours g ! n)))"
  show ?case
  proof (cases "neighbours g ! n = [] \<or> node_concrete g n \<or> c \<le> ?m")
    case True
    then have "RM_select rnd g n (v, c) = (v, c)" by (auto simp: RM_select_def Let_def)
    then show ?thesis using Cons True by simp
  next
    case False
    then have "RM_select rnd g n (v, c) = (Some n, ?m)" by (auto simp: RM_select_def Let_def)
    then show ?thesis using Cons.IH[of "Some n" ?m] Cons.prems by simp
  qed
qed simp

lemma RM_none: "RM_Reduction rnd g st = None \<Longrightarrow> u \<in> set (active g) \<Longrightarrow> \<not> node_concrete g u \<Longrightarrow> neighbours g ! u \<noteq> [] \<Longrightarrow>
    overflowed rnd g u"
  using RM_select_none[of rnd g "active g" None f32_max] by (auto simp: RM_Reduction_def overflowed_def Let_def split: option.splits prod.splits)

lemma minimize_loop_stuck:
  "minimize_loop rnd g stack = (g', stack') \<Longrightarrow> u \<in> set (active g') \<Longrightarrow> \<not> node_concrete g' u \<Longrightarrow> neighbours g' ! u \<noteq> [] \<Longrightarrow>
    overflowed rnd g' u"
proof (induction rnd g stack rule: minimize_loop.induct)
  case (1 rnd g stack)
  obtain g1 st1 low virt where s: "scan rnd 0 g stack False False = (g1, st1, low, virt)" by (metis prod_cases4)
  note m = minimize_loop.simps[of rnd g stack]
  consider (low) "low" | (stop) "\<not> low" "active g1 = [] \<or> \<not> virt" | (none) "\<not> low" "virt" "active g1 \<noteq> []" "RM_Reduction rnd g1 st1 = None"
    | (rm) g2 st2 where "\<not> low" "\<not> (active g1 = [] \<or> \<not> virt)" "RM_Reduction rnd g1 st1 = Some (g2, st2)"
    by (metis option.exhaust prod.exhaust)
  then show ?case
  proof cases
    case low
    then have "minimize_loop rnd g1 st1 = (g', stack')" using 1(3) m s by simp
    then show ?thesis using 1(1)[OF s[symmetric] refl refl low] 1(4-6) by blast
  next
    case stop
    then have g: "g' = g1" using 1(3) m s by (auto split: if_splits)
    have "\<forall>i < length (active g1). node_concrete g1 (active g1 ! i)" if "\<not> virt" using scan_idle[OF s stop(1)] that by simp
    then have "\<not> virt \<Longrightarrow> node_concrete g' u" using 1(4) unfolding g by (metis in_set_conv_nth)
    then show ?thesis using stop(2) 1(4,5) g by auto
  next
    case none
    then have "g' = g1" using 1(3) m s by simp
    then show ?thesis using RM_none[OF none(4)] 1(4-6) by blast
  next
    case rm
    then have "minimize_loop rnd g2 st2 = (g', stack')" using 1(3) m s by simp
    then show ?thesis using 1(2)[OF s[symmetric] refl refl _ rm(2,3) refl] rm(1) 1(4-6) by blast
  qed
qed

lemma minimize_graph_none:
  assumes g: "graph_ok g" and m: "minimize_graph rnd g = None"
  shows "\<exists>rs g' u. solver_steps rnd g rs g' \<and> overflowed rnd g' u"
proof -
  obtain g1 st1 where l: "minimize_loop rnd g [] = (g1, st1)" by fastforce
  obtain u where "u \<in> set (active g1)" "\<not> node_concrete g1 u" "neighbours g1 ! u \<noteq> []"
    using m l by (auto simp: minimize_graph_def Let_def split: if_splits)
  then have "overflowed rnd g1 u" using minimize_loop_stuck[OF l] by blast
  moreover obtain rs where "solver_steps rnd g rs g1" using minimize_loop_steps[OF g l] by blast
  ultimately show ?thesis by blast
qed

section \<open>A sample\<close>

text \<open>A general purpose register that interferes with \<^verbatim>\<open>rax\<close>.\<close>

definition pbqp_rax :: CostGraph where "pbqp_rax = fst (graph_node 0 empty_graph)"

definition pbqp_nodes :: CostGraph where "pbqp_nodes = set_kind 1 kind_Gpr (fst (graph_node numRegs pbqp_rax))"

definition pbqp_sample :: CostGraph where "pbqp_sample = fst (add_edge 0 1 interference pbqp_nodes)"

lemma graph_ok_empty: "graph_ok empty_graph"
proof -
  have none: "\<not> adj empty_graph a b e" for a b e by (simp add: adj_def empty_graph_def n_nodes_def)
  have "nodes_ok empty_graph" by (simp add: nodes_ok_def empty_graph_def n_nodes_def)
  moreover have "active_ok empty_graph" by (simp add: active_ok_def empty_graph_def)
  moreover have "edges_ok empty_graph" unfolding edges_ok_def using none by (simp add: empty_graph_def n_nodes_def)
  ultimately show ?thesis by (simp add: graph_ok_def)
qed

lemma default_kinds: "default_kind 0 = 3" "default_kind numRegs = kind_Gpr"
  by (simp_all add: default_kind_def uid_is_concrete_def numRegs_def uid_to_reg_def kind_of_def is_concrete_def
      creg_code_of_code ConcreteBase_def)

lemma pbqp_rax_sel: "node_uid pbqp_rax = [0]" "node_kind pbqp_rax = [3]" "node_costs pbqp_rax = [zero_costs]"
  "neighbours pbqp_rax = [[]]" "edges pbqp_rax = []" "edge_lookup pbqp_rax = Map.empty" "active pbqp_rax = [0]"
  "active_pos pbqp_rax = [0]" "uid_to_node pbqp_rax = [Some 0]"
  by (simp_all add: pbqp_rax_def graph_node_def empty_graph_def default_kinds)

lemma pbqp_nodes_sel: "node_uid pbqp_nodes = [0, numRegs]" "node_kind pbqp_nodes = [3, kind_Gpr]"
  "node_costs pbqp_nodes = [zero_costs, initial_costs kind_Gpr]" "neighbours pbqp_nodes = [[], []]" "edges pbqp_nodes = []"
  "edge_lookup pbqp_nodes = Map.empty" "active pbqp_nodes = [0, 1]" "active_pos pbqp_nodes = [0, 1]"
  by (simp_all add: pbqp_nodes_def set_kind_def graph_node_def pbqp_rax_sel numRegs_def nth_append default_kinds[unfolded numRegs_def])

lemma pbqp_sample_sel: "node_uid pbqp_sample = [0, numRegs]" "node_kind pbqp_sample = [3, kind_Gpr]"
  "node_costs pbqp_sample = [zero_costs, initial_costs kind_Gpr]" "active pbqp_sample = [0, 1]" "active_pos pbqp_sample = [0, 1]"
  "neighbours pbqp_sample = [[\<lparr>adj_other = 1, adj_edge = 0\<rparr>], [\<lparr>adj_other = 0, adj_edge = 0\<rparr>]]"
  "edges pbqp_sample = [interference]"
  by (simp_all add: pbqp_sample_def add_edge_def Let_def pbqp_nodes_sel)

lemma pbqp_sample_concrete: "node_concrete pbqp_sample 0" "\<not> node_concrete pbqp_sample (Suc 0)" "n_nodes pbqp_sample = 2"
  by (simp_all add: node_concrete_def pbqp_sample_sel uid_is_concrete_def numRegs_def n_nodes_def)

lemma pbqp_sample_ok: "graph_ok pbqp_sample"
proof -
  have 1: "graph_ok pbqp_rax" unfolding pbqp_rax_def by (rule graph_ok_new[OF graph_ok_empty]) simp
  have 2: "graph_ok (fst (graph_node numRegs pbqp_rax))" by (rule graph_ok_new[OF 1]) (simp add: numRegs_def)
  let ?g = "fst (graph_node numRegs pbqp_rax)"
  have sel: "n_nodes ?g = 2" "node_uid ?g ! 1 = numRegs" "neighbours ?g = [[], []]"
    by (simp_all add: n_nodes_def graph_node_def pbqp_rax_sel numRegs_def)
  have 3: "graph_ok pbqp_nodes" unfolding pbqp_nodes_def
    using graph_ok_set_kind[OF 2, of 1 kind_Gpr] sel by (simp add: kind_fits_def adj_def uid_is_concrete_def numRegs_def)
  show ?thesis unfolding pbqp_sample_def
    using graph_ok_add_edge[OF 3, of 0 1 interference] by (simp add: pbqp_nodes_sel find_edge_def)
qed

text \<open>The solver folds the register into \<^verbatim>\<open>rax\<close>, and gives it \<^verbatim>\<open>rbx\<close>.\<close>

lemma pbqp_sample_reduce:
  "\<exists>g1. reduce rnd 1 pbqp_sample [] = Some (g1, [R1_record pbqp_sample 1 0 0]) \<and> node_uid g1 = [0, numRegs]
    \<and> node_kind g1 = [3, kind_Gpr] \<and> node_costs g1 ! 1 = initial_costs kind_Gpr \<and> active g1 = [0, 1]"
  by (simp add: reduce_def R1_Reduction_def pbqp_sample_sel Let_def clear_neighbours_def remove_neighbour_def)

lemma pbqp_sample_run:
  "\<exists>gf. minimize_graph rnd pbqp_sample = Some (gf, [R1_record pbqp_sample 1 0 0]) \<and> node_uid gf = [0, numRegs]
    \<and> node_kind gf = [3, kind_Gpr] \<and> node_costs gf ! 1 = initial_costs kind_Gpr"
proof -
  let ?r = "R1_record pbqp_sample 1 0 0"
  obtain g1 where g1: "reduce rnd 1 pbqp_sample [] = Some (g1, [?r])" "node_uid g1 = [0, numRegs]"
    "node_kind g1 = [3, kind_Gpr]" "node_costs g1 ! 1 = initial_costs kind_Gpr" "active g1 = [0, 1]"
    using pbqp_sample_reduce by blast
  obtain g2 where g2: "erase_active 1 g1 = g2" by blast
  let ?g = g2
  have e: "active ?g = [0]" "node_uid ?g = [0, numRegs]" "node_kind ?g = [3, kind_Gpr]"
    "node_costs ?g ! 1 = initial_costs kind_Gpr" "node_concrete ?g 0"
    using g1(2-5) by (simp_all add: g2[symmetric] erase_active_def node_concrete_def uid_is_concrete_def numRegs_def)
  have "scan rnd 0 pbqp_sample [] False False = scan rnd 1 pbqp_sample [] False False"
    by (subst scan.simps) (simp add: pbqp_sample_sel pbqp_sample_concrete)
  also have "\<dots> = scan rnd 1 ?g [?r] True True"
    using g1(1) g2 by (subst scan.simps) (simp add: pbqp_sample_sel pbqp_sample_concrete)
  also have "\<dots> = (?g, [?r], True, True)" by (subst scan.simps) (simp add: e)
  finally have s1: "scan rnd 0 pbqp_sample [] False False = (?g, [?r], True, True)" .
  have "scan rnd 0 ?g [?r] False False = scan rnd 1 ?g [?r] False False" by (subst scan.simps) (simp add: e)
  also have "\<dots> = (?g, [?r], False, False)" by (subst scan.simps) (simp add: e)
  finally have "minimize_loop rnd ?g [?r] = (?g, [?r])" by (subst minimize_loop.simps) simp
  then have "minimize_loop rnd pbqp_sample [] = (?g, [?r])" using s1 by (subst minimize_loop.simps) simp
  then have "minimize_graph rnd pbqp_sample = Some (?g, [?r])" by (simp add: minimize_graph_def e)
  then show ?thesis using e(2-4) by blast
qed

lemma gpr_local: "dom_size kind_Gpr = 15" "dk_size (kKinds ! kind_Gpr) = 15"
  by (simp_all add: dom_size_def dk_size_def dom_regs_Gpr)

lemma gpr_costs: "i < 15 \<Longrightarrow> initial_costs kind_Gpr ! i = (if i = 0 then spillCost else Fin 0)"
proof -
  assume i: "i < 15"
  have "sorted_wrt (<) (dom_regs kind_Gpr)" "length (dom_regs kind_Gpr) = 15" "dom_regs kind_Gpr ! 0 = 0"
    by (simp_all add: dom_regs_Gpr)
  then have "dom_regs kind_Gpr ! i = 0 \<longleftrightarrow> i = 0"
    using i sorted_wrt_nth_less[of "(<)" "dom_regs kind_Gpr" 0 i] by (cases "i = 0") simp_all
  moreover have "kind_Gpr < kind_N" by (simp add: kind_Gpr_def)
  ultimately show ?thesis using initial_costs_nth[of kind_Gpr i] i gpr_local(1) by simp
qed

lemma upto_15: "[0..<15] = [0, 1, 2, 3, 4, 5, 6, 7, 8, 9, 10, 11, 12, 13, 14 :: nat]"
  by (simp add: upt_conv_Cons)

lemma pbqp_sample_selection:
  assumes "node_kind gf = [3, kind_Gpr]" "node_costs gf ! 1 = initial_costs kind_Gpr"
  shows "selection_vector Fin gf (R1_record pbqp_sample 1 0 0) [CReg_A, CReg_Virtual]
    = Some (Fin 1000 # Inf # replicate 13 (Fin 0))"
  using assms
  by (simp add: selection_vector_def R1_record_def stack_record_def Let_def add_edge_costs_def gpr_local upto_15 gpr_costs
      get_cost_def pbqp_sample_sel interference_def dom_regs_Gpr spillCost_def numeral_eq_Suc f32_add_def)

lemma pbqp_sample_allocate:
  assumes "node_uid gf = [0, numRegs]" "node_kind gf = [3, kind_Gpr]" "node_costs gf ! 1 = initial_costs kind_Gpr"
  shows "actually_allocate Fin gf [R1_record pbqp_sample 1 0 0] = Some ([CReg_A, CReg_B], [])"
proof -
  have r: "sr_node (R1_record pbqp_sample 1 0 0) = 1" by (simp add: R1_record_def stack_record_def)
  have "initial_assignments gf = [CReg_A, CReg_Virtual]"
    using assms(1) by (simp add: initial_assignments_def n_nodes_def node_concrete_def uid_is_concrete_def numRegs_def
        upt_conv_Cons uid_to_reg_def creg_of_code_def creg_list_def c_reg_def)
  moreover have "fst (best_register (kKinds ! kind_Gpr) (Fin 1000 # Inf # replicate 13 (Fin 0))) = 2"
    by (simp add: best_register_def gpr_local upto_15 best_step_def dom_regs_Gpr numeral_eq_Suc less_f32_def f32_le_def)
  moreover have "creg_of_code 2 = CReg_B" by (simp add: creg_of_code_def creg_list_def)
  ultimately show ?thesis
    using pbqp_sample_selection[OF assms(2,3)] assms by (simp add: actually_allocate_def allocate_step_def r[simplified] Let_def)
qed

section \<open>Properties\<close>

text \<open>C6: The tables of the register kinds, computed from bit masks: a domain fits the fixed arrays and lists its
  register numbers in ascending order, \<^verbatim>\<open>local\<close> is the inverse of \<^verbatim>\<open>regs\<close> and
  \<^verbatim>\<open>kNoLocal\<close> for the registers outside, which no index is; a kind of a virtual register starts with
  spilling and has neither the stack nor the base pointer.\<close>

theorem domain_tables:
  assumes "k < kind_N"
  shows "1 \<le> dom_size k \<and> dom_size k \<le> kMaxDomain \<and> kMaxDomain < kNoLocal \<and> sorted_wrt (<) (dom_regs k)
    \<and> (\<forall>i < dom_size k. dom_regs k ! i < numRegs \<and> dom_local k ! (dom_regs k ! i) = i)
    \<and> (\<forall>r < numRegs. dom_local k ! r = kNoLocal \<longleftrightarrow> r \<notin> set (dom_regs k))
    \<and> (\<not> kind_is_concrete k \<longrightarrow> dom_regs k ! 0 = 0
         \<and> creg_code CReg_SP \<notin> set (dom_regs k) \<and> creg_code CReg_BP \<notin> set (dom_regs k))"
proof -
  have "dom_local k ! r \<noteq> kNoLocal" if "r \<in> set (dom_regs k)" for r
    using dom_local_in[OF assms that] dom_size_bounds[OF assms] by (auto simp: kNoLocal_def kMaxDomain_def)
  then have 1: "\<forall>r < numRegs. dom_local k ! r = kNoLocal \<longleftrightarrow> r \<notin> set (dom_regs k)"
    using dom_local_out[OF assms] by blast
  have "k = kind_Gpr \<or> k = kind_Vec \<or> k = kind_GprOrVec" if "\<not> kind_is_concrete k"
    using that by (auto simp: kind_is_concrete_def ConcreteBase_def kind_Gpr_def kind_Vec_def kind_GprOrVec_def)
  then have 2: "\<not> kind_is_concrete k \<longrightarrow> dom_regs k ! 0 = 0
      \<and> creg_code CReg_SP \<notin> set (dom_regs k) \<and> creg_code CReg_BP \<notin> set (dom_regs k)"
    by (auto simp: dom_regs_Gpr dom_regs_Vec dom_regs_GprOrVec)
  show ?thesis
    using 1 2 dom_size_bounds[OF assms] dom_regs_sorted[OF assms] dom_local_nth[OF assms] dom_regs_less[OF assms] dom_nth_regs
    by (simp add: kMaxDomain_def kNoLocal_def)
qed

theorem domain_tables_witness: "dom_local kind_Vec ! (dom_regs kind_Vec ! 3) = 3"
proof -
  have "kind_Vec < kind_N" "3 < dom_size kind_Vec" by (simp add: kind_Vec_def) (simp add: dom_regs_Vec dom_size_def dk_size_def)
  then show ?thesis using domain_tables[of kind_Vec] by blast
qed

text \<open>The graphs the allocator can have: what it builds with the operations of the graph, and what the reductions
  make of it.\<close>

inductive graph_built :: "rounding \<Rightarrow> CostGraph \<Rightarrow> bool" for rnd where
  gb_empty: "graph_built rnd empty_graph"
| gb_node: "graph_built rnd g \<Longrightarrow> uid < 2 ^ 32 \<Longrightarrow> graph_built rnd (fst (graph_node uid g))"
| gb_kind: "graph_built rnd g \<Longrightarrow> n < n_nodes g \<Longrightarrow> kind_fits (node_uid g ! n) k \<Longrightarrow>
    (\<And>b e. adj g n b e \<Longrightarrow> cm_cost (edges g ! e) = None) \<Longrightarrow> graph_built rnd (set_kind n k g)"
| gb_edge: "graph_built rnd g \<Longrightarrow> a \<in> set (active g) \<Longrightarrow> b \<in> set (active g) \<Longrightarrow> a \<noteq> b \<Longrightarrow> \<not> has_conn g a b \<Longrightarrow>
    matrix_ok (node_kind g ! min a b) (node_kind g ! max a b) m \<Longrightarrow> graph_built rnd (fst (add_edge a b m g))"
| gb_discount: "graph_built rnd g \<Longrightarrow> a \<in> set (active g) \<Longrightarrow> b \<in> set (active g) \<Longrightarrow> a \<noteq> b \<Longrightarrow>
    graph_built rnd (add_copy_discount rnd a b g)"
| gb_step: "graph_built rnd g \<Longrightarrow> solver_step rnd g r g' \<Longrightarrow> graph_built rnd g'"

lemma graph_built_ok: "graph_built rnd g \<Longrightarrow> graph_ok g"
proof (induction rule: graph_built.induct)
  case (gb_edge g a b m)
  then show ?case using graph_ok_add_edge(1) by (simp add: has_conn_def)
next
  case (gb_discount g a b)
  then show ?case using add_copy_discount_ok[of g a b rnd] by blast
next
  case (gb_step g r g')
  then show ?case using takes_out_ok[OF step_takes_out] by blast
qed (simp_all add: graph_ok_empty graph_ok_new graph_ok_set_kind)

text \<open>C5: However the operations of \<^verbatim>\<open>CostGraph\<close> and the reductions are mixed, the graph stays consistent:
  a register has at most one node, the list of active nodes has no repetition and \<^verbatim>\<open>active_pos\<close> knows where
  each stands, adjacency goes both ways over the same edge, an edge joins two different active nodes, and the hash of
  node pairs finds exactly the edges of active nodes.\<close>

theorem graph_consistent:
  assumes "graph_built rnd g"
  shows "(\<forall>u n. node_of g u = Some n \<longleftrightarrow> n < n_nodes g \<and> node_uid g ! n = u)
    \<and> distinct (active g) \<and> (\<forall>i < length (active g). active g ! i < n_nodes g \<and> active_pos g ! (active g ! i) = i)
    \<and> (\<forall>a b e. adj g a b e \<longrightarrow> adj g b a e \<and> a \<noteq> b \<and> a \<in> set (active g) \<and> e < length (edges g))
    \<and> (\<forall>a \<in> set (active g). \<forall>b \<in> set (active g). a \<noteq> b \<longrightarrow> (\<forall>e. find_edge g a b = Some e \<longleftrightarrow> adj g a b e))"
proof -
  note ok = graph_okD[OF graph_built_ok[OF assms]]
  have e: "edge_ok g a b e" if "adj g a b e" for a b e using edge_ok_adj[OF ok(3) that] .
  have "find_edge g a b = Some e \<longleftrightarrow> adj g a b e" if "a \<in> set (active g)" "b \<in> set (active g)" "a \<noteq> b" for a b e
    using e[of a b e] that ok(3) unfolding edges_ok_def edge_ok_def by blast
  then show ?thesis
    using e node_of_iff[OF ok(1)] active_distinct[OF ok(2)] ok(2) unfolding active_ok_def edge_ok_def by blast
qed

lemma pbqp_sample_built: "graph_built rnd pbqp_sample"
proof -
  let ?g = "fst (graph_node numRegs pbqp_rax)"
  have 1: "graph_built rnd ?g" unfolding pbqp_rax_def
    by (intro gb_node gb_empty) (simp_all add: numRegs_def)
  have sel: "n_nodes ?g = 2" "node_uid ?g ! 1 = numRegs" "neighbours ?g = [[], []]"
    by (simp_all add: n_nodes_def graph_node_def pbqp_rax_sel numRegs_def)
  have 2: "graph_built rnd pbqp_nodes" unfolding pbqp_nodes_def
    using sel by (intro gb_kind[OF 1]) (simp_all add: kind_fits_def adj_def uid_is_concrete_def numRegs_def)
  show ?thesis unfolding pbqp_sample_def
    by (intro gb_edge[OF 2]) (simp_all add: pbqp_nodes_sel find_edge_def has_conn_def)
qed

theorem graph_consistent_witness: "adj pbqp_sample 0 1 0 \<and> adj pbqp_sample 1 0 0"
proof -
  have "adj pbqp_sample 0 1 0" by (simp add: adj_def pbqp_sample_sel pbqp_sample_concrete)
  then show ?thesis using graph_consistent[OF pbqp_sample_built] by blast
qed

text \<open>C3: The solver returns a usable assignment, whatever rounding the float arithmetic has: unless a spill cost
  overflows, \<^verbatim>\<open>minimize_graph\<close> returns, \<^verbatim>\<open>actually_allocate\<close> never asks a cost matrix
  for a register it has no row for, every node gets a register of its domain (a concrete node its own), no two nodes
  get registers an edge between them forbids, and the spilled nodes are exactly the ones reported.\<close>

theorem solver_sound:
  assumes "graph_ok g"
  shows "case minimize_graph rnd g of
      None \<Rightarrow> \<exists>rs g' u. solver_steps rnd g rs g' \<and> overflowed rnd g' u
    | Some (gf, st) \<Rightarrow> \<exists>A sp. actually_allocate rnd gf st = Some (A, sp) \<and> length A = n_nodes g
        \<and> in_domains g A \<and> respects_edges g A
        \<and> set sp = (\<lambda>n. node_uid g ! n) ` {n \<in> set (active g). \<not> node_concrete g n \<and> A ! n = CReg_Virtual}"
proof (cases "minimize_graph rnd g")
  case None
  then show ?thesis using minimize_graph_none[OF assms] by simp
next
  case (Some p)
  obtain gf st where p: "p = (gf, st)" by fastforce
  note m = Some[unfolded p]
  obtain A where A: "actually_allocate rnd gf st = Some (A, spilled_uids g A st)" "length A = n_nodes g"
    "in_domains g A" "respects_edges g A" "sr_node ` set st = {a \<in> set (active g). \<not> node_concrete g a}"
    using actually_allocate_sound[OF assms m] by blast
  have "set (spilled_uids g A st) = (\<lambda>n. node_uid g ! n) ` {n \<in> sr_node ` set st. A ! n = CReg_Virtual}"
    by (auto simp: spilled_uids_def)
  then show ?thesis using A(1-4) unfolding m A(5) by auto
qed

theorem solver_sound_witness:
  "\<exists>gf st A sp. minimize_graph Fin pbqp_sample = Some (gf, st) \<and> actually_allocate Fin gf st = Some (A, sp)
     \<and> in_domains pbqp_sample A \<and> respects_edges pbqp_sample A"
proof -
  obtain gf st where "minimize_graph Fin pbqp_sample = Some (gf, st)" using pbqp_sample_run by blast
  then show ?thesis using solver_sound[OF pbqp_sample_ok, of Fin] by auto
qed

text \<open>C4: Without rounding the assignment is optimal when no edge had to be broken: no choice of registers from
  the domains has a smaller sum of the costs of its nodes and edges. The registers chosen must cost less than the
  bound \<^verbatim>\<open>1e9\<close> the search for the best register starts with.\<close>

theorem solver_optimal:
  assumes "graph_ok g" "minimize_graph Fin g = Some (gf, st)" "actually_allocate Fin gf st = Some (A, sp)"
    "\<forall>r \<in> set st. no_breaks r \<and> price gf r A < Fin 1000000000" "\<forall>a \<in> set (active g). B a \<in> regs_of g a"
  shows "total_cost g (\<lambda>a. creg_code (A ! a)) \<le> total_cost g B"
  using allocation_optimal[OF assms(1-3)] assms(4,5) by blast

lemma gpr_local_2: "dom_local kind_Gpr ! 2 = 2"
proof -
  have "kind_Gpr < kind_N" "dom_regs kind_Gpr ! 2 = 2" by (simp add: kind_Gpr_def) (simp add: dom_regs_Gpr)
  then show ?thesis using dom_local_nth[of kind_Gpr 2] gpr_local by simp
qed

theorem solver_optimal_witness:
  "total_cost pbqp_sample (\<lambda>a. creg_code ([CReg_A, CReg_B] ! a)) \<le> total_cost pbqp_sample (\<lambda>a. [1, 0] ! a)"
proof -
  let ?r = "R1_record pbqp_sample 1 0 0"
  obtain gf where gf: "minimize_graph Fin pbqp_sample = Some (gf, [?r])" "node_uid gf = [0, numRegs]"
    "node_kind gf = [3, kind_Gpr]" "node_costs gf ! 1 = initial_costs kind_Gpr" using pbqp_sample_run by blast
  have "vcost gf 1 2 = Fin 0" using gf(3,4) by (simp add: vcost_def gpr_local_2 gpr_costs)
  then have "no_breaks ?r" "price gf ?r [CReg_A, CReg_B] < Fin 1000000000"
    by (simp_all add: no_breaks_def R1_record_def stack_record_def price_def rec_costs_def rec_edges_def
        pbqp_sample_sel ecost_def get_cost_def interference_def less_f32_def f32_le_def)
  moreover have "regs_of pbqp_sample 0 = {1}" using concrete_regs[of 0] by (simp add: pbqp_sample_sel ConcreteBase_def)
  ultimately show ?thesis
    by (intro solver_optimal[OF pbqp_sample_ok gf(1) pbqp_sample_allocate[OF gf(2-4)]])
      (simp_all add: pbqp_sample_sel dom_regs_Gpr)
qed

end
